(* ===== verification/Prelude.thy ===== *)
theory Prelude
  imports Main "HOL-Library.Word"
begin

unbundle bit_operations_syntax

text \<open>
  Shared vocabulary of the development: the results of code that may throw or run into
  undefined behaviour, the state-and-exception style of the stream classes, machine-size
  arithmetic on \<open>size_t\<close>, and the generic lemmas the components use.

  \<^item> An \<open>exn\<close> is how a call can fail to return: a \<open>std::runtime_error\<close> with its
    message, a \<open>std::out_of_range\<close> of a standard container, or \<open>Undefined\<close>, an
    access the language gives no meaning (a read or write outside a buffer, a null or
    dangling pointer).
  \<^item> \<open>'a res\<close> is the result of a pure computation that may fail, \<open>bindR\<close> its sequencing.
  \<^item> \<open>('s, 'a) prog\<close> is a computation over a mutable object of type \<open>'s\<close>; what the object
    was changed to before an exception stays visible, as it does in C++.
  \<^item> \<open>for_from i n body s\<close> is the loop \<open>for (j = i; j < i + n; j++)\<close> over a loop state.
\<close>

section \<open>Results\<close>

datatype exn =
    Runtime_Error string
  | Out_Of_Range
  | Undefined

type_synonym 'a res = "exn + 'a"

fun bindR :: "'a res \<Rightarrow> ('a \<Rightarrow> 'b res) \<Rightarrow> 'b res" where
  "bindR (Inl e) f = Inl e"
| "bindR (Inr x) f = f x"

named_theorems res_iff \<open>when a composed computation returns\<close>

lemma bindR_Inr_iff [res_iff]: "bindR m f = Inr y \<longleftrightarrow> (\<exists>x. m = Inr x \<and> f x = Inr y)"
  by (cases m) auto

lemma bindR_Inl_iff [res_iff]:
  "bindR m f = Inl e \<longleftrightarrow> m = Inl e \<or> (\<exists>x. m = Inr x \<and> f x = Inl e)"
  by (cases m) auto

lemma bindR_assoc [simp]: "bindR (bindR m f) g = bindR m (\<lambda>x. bindR (f x) g)"
  by (cases m) auto

lemma bindR_cong [fundef_cong]:
  "m = m' \<Longrightarrow> (\<And>x. m' = Inr x \<Longrightarrow> f x = f' x) \<Longrightarrow> bindR m f = bindR m' f'"
  by (cases m') auto

text \<open>Buffer accesses: outside the buffer the behaviour is undefined.\<close>

definition readB :: "'a list \<Rightarrow> nat \<Rightarrow> 'a res" where
  "readB xs i = (if i < length xs then Inr (xs ! i) else Inl Undefined)"

definition writeB :: "'a list \<Rightarrow> nat \<Rightarrow> 'a \<Rightarrow> 'a list res" where
  "writeB xs i v = (if i < length xs then Inr (xs[i := v]) else Inl Undefined)"

lemma readB_in [simp]: "i < length xs \<Longrightarrow> readB xs i = Inr (xs ! i)"
  by (simp add: readB_def)

lemma writeB_in [simp]: "i < length xs \<Longrightarrow> writeB xs i v = Inr (xs[i := v])"
  by (simp add: writeB_def)

lemma readB_out: "\<not> i < length xs \<Longrightarrow> readB xs i = Inl Undefined"
  by (simp add: readB_def)

lemma writeB_out: "\<not> i < length xs \<Longrightarrow> writeB xs i v = Inl Undefined"
  by (simp add: writeB_def)

lemma writeB_Inr_iff [res_iff]: "writeB xs i v = Inr ys \<longleftrightarrow> i < length xs \<and> ys = xs[i := v]"
  by (auto simp: writeB_def)

lemma readB_Inr_iff [res_iff]: "readB xs i = Inr v \<longleftrightarrow> i < length xs \<and> v = xs ! i"
  by (auto simp: readB_def)

section \<open>Counting loops\<close>

fun for_from :: "nat \<Rightarrow> nat \<Rightarrow> (nat \<Rightarrow> 's \<Rightarrow> 's res) \<Rightarrow> 's \<Rightarrow> 's res" where
  "for_from i 0 f s = Inr s"
| "for_from i (Suc n) f s = bindR (f i s) (for_from (Suc i) n f)"

lemma for_from_numeral [simp]:
  "for_from i (numeral k) f s = bindR (f i s) (for_from (Suc i) (pred_numeral k) f)"
  by (simp add: numeral_eq_Suc)

text \<open>The rule for total correctness: the body returns and keeps the invariant.\<close>

lemma for_from_rule:
  assumes "I i s"
    and "\<And>j s. i \<le> j \<Longrightarrow> j < i + n \<Longrightarrow> I j s \<Longrightarrow> \<exists>s'. f j s = Inr s' \<and> I (Suc j) s'"
  shows "\<exists>s'. for_from i n f s = Inr s' \<and> I (i + n) s'"
  using assms
proof (induction n arbitrary: i s)
  case 0
  then show ?case by simp
next
  case (Suc n)
  from Suc.prems(2) [of i s] Suc.prems(1)
  obtain s1 where s1: "f i s = Inr s1" "I (Suc i) s1" by auto
  have "\<exists>s'. for_from (Suc i) n f s1 = Inr s' \<and> I (Suc i + n) s'"
    by (rule Suc.IH) (use s1 Suc.prems(2) in auto)
  with s1 show ?case by simp
qed

lemma for_from_append:
  "for_from i (m + n) f s = bindR (for_from i m f s) (for_from (i + m) n f)"
proof (induction m arbitrary: i s)
  case 0
  then show ?case by simp
next
  case (Suc m)
  then show ?case by (cases "f i s") simp_all
qed

text \<open>The rule for partial correctness: what holds if the loop returns.\<close>

lemma for_from_partial:
  assumes "for_from i n f s = Inr s'" and "I i s"
    and "\<And>j s t. i \<le> j \<Longrightarrow> j < i + n \<Longrightarrow> I j s \<Longrightarrow> f j s = Inr t \<Longrightarrow> I (Suc j) t"
  shows "I (i + n) s'"
  using assms
proof (induction n arbitrary: i s)
  case 0
  then show ?case by simp
next
  case (Suc n)
  from Suc.prems(1) obtain t where t: "f i s = Inr t" "for_from (Suc i) n f t = Inr s'"
    by (auto simp: res_iff)
  have "I (Suc i) t" using Suc.prems(3) [of i s t] Suc.prems(2) t(1) by simp
  with Suc.IH [OF t(2)] Suc.prems(3) show ?case by simp
qed

section \<open>Computations over a mutable object\<close>

type_synonym ('s, 'a) prog = "'s \<Rightarrow> 'a res \<times> 's"

definition returnS :: "'a \<Rightarrow> ('s, 'a) prog" where
  "returnS x s = (Inr x, s)"

definition throwS :: "exn \<Rightarrow> ('s, 'a) prog" where
  "throwS e s = (Inl e, s)"

definition bindS :: "('s, 'a) prog \<Rightarrow> ('a \<Rightarrow> ('s, 'b) prog) \<Rightarrow> ('s, 'b) prog" where
  "bindS m f s = (case m s of (Inl e, s') \<Rightarrow> (Inl e, s') | (Inr x, s') \<Rightarrow> f x s')"

definition liftS :: "'a res \<Rightarrow> ('s, 'a) prog" where
  "liftS r s = (r, s)"

lemma bindS_Inr [simp]: "m s = (Inr x, s') \<Longrightarrow> bindS m f s = f x s'"
  by (simp add: bindS_def)

lemma bindS_Inl [simp]: "m s = (Inl e, s') \<Longrightarrow> bindS m f s = (Inl e, s')"
  by (simp add: bindS_def)

lemma returnS_apply [simp]: "returnS x s = (Inr x, s)"
  by (simp add: returnS_def)

lemma throwS_apply [simp]: "throwS e s = (Inl e, s)"
  by (simp add: throwS_def)

lemma liftS_apply [simp]: "liftS r s = (r, s)"
  by (simp add: liftS_def)

lemma bindS_cong [fundef_cong]:
  assumes "m s = m' s'" and "\<And>x t. m' s' = (Inr x, t) \<Longrightarrow> f x t = f' x t"
  shows "bindS m f s = bindS m' f' s'"
  using assms by (auto simp: bindS_def split: prod.splits sum.splits)

lemma bindS_Inr_iff [res_iff]:
  "bindS m f s = (Inr y, s') \<longleftrightarrow> (\<exists>x t. m s = (Inr x, t) \<and> f x t = (Inr y, s'))"
  by (auto simp: bindS_def split: prod.splits sum.splits)

section \<open>Machine-size arithmetic\<close>

text \<open>\<open>size_t\<close> is 64 bits wide and wraps; values are kept as naturals below \<open>2 ^ 64\<close>.\<close>

definition size_max :: nat where
  "size_max = 2 ^ 64 - 1"

definition add64 :: "nat \<Rightarrow> nat \<Rightarrow> nat" where
  "add64 a b = (a + b) mod 2 ^ 64"

definition sub64 :: "nat \<Rightarrow> nat \<Rightarrow> nat" where
  "sub64 a b = (a + (2 ^ 64 - b mod 2 ^ 64)) mod 2 ^ 64"

definition mul64 :: "nat \<Rightarrow> nat \<Rightarrow> nat" where
  "mul64 a b = (a * b) mod 2 ^ 64"

lemma mul64_id [simp]: "a * b < 2 ^ 64 \<Longrightarrow> mul64 a b = a * b"
  by (simp add: mul64_def)

lemma add64_id [simp]: "a + b < 2 ^ 64 \<Longrightarrow> add64 a b = a + b"
  by (simp add: add64_def)

lemma sub64_id [simp]: "b \<le> a \<Longrightarrow> a < 2 ^ 64 \<Longrightarrow> sub64 a b = a - b"
proof -
  assume "b \<le> a" "a < 2 ^ 64"
  then have "a + (2 ^ 64 - b mod 2 ^ 64) = (a - b) + 2 ^ 64" by simp
  then have "sub64 a b = ((a - b) + 2 ^ 64) mod 2 ^ 64" by (simp only: sub64_def)
  also have "\<dots> = (a - b) mod 2 ^ 64" by (rule mod_add_self2)
  also have "\<dots> = a - b" using \<open>a < 2 ^ 64\<close> by simp
  finally show ?thesis .
qed

lemma add64_less: "add64 a b < 2 ^ 64"
  by (simp add: add64_def)

lemma sub64_less: "sub64 a b < 2 ^ 64"
  by (simp add: sub64_def)

section \<open>Lists\<close>

lemma list_update_Cons_numeral [simp]:
  "(x # xs)[numeral k := y] = x # xs[pred_numeral k := y]"
  by (simp add: numeral_eq_Suc)

lemma take_update_nth: "n < length xs \<Longrightarrow> take (Suc n) (xs[n := v]) = take n xs @ [v]"
  by (simp add: take_Suc_conv_app_nth)

lemma nth_mod_less: "0 < n \<Longrightarrow> n = length xs \<Longrightarrow> (k::nat) mod n < length xs"
  by simp

section \<open>Bytes\<close>

text \<open>
  \<open>uint8_t\<close> and \<open>char\<close> are bytes; \<open>bytes\<close> reads a string literal as the bytes of its
  characters. Masks and shifts of naturals are turned into division and remainder.
\<close>

type_synonym byte = "8 word"

definition bytes :: "string \<Rightarrow> byte list" where
  "bytes s = map of_char s"

lemma bytes_Nil [simp]: "bytes [] = []"
  by (simp add: bytes_def)

lemma bytes_Cons [simp]: "bytes (c # s) = of_char c # bytes s"
  by (simp add: bytes_def)

lemma length_bytes [simp]: "length (bytes s) = length s"
  by (simp add: bytes_def)

lemma byte_less [simp]: "unat (b :: byte) < 256"
  using unsigned_less [of b] by simp

lemma byte_of_unat [simp]: "(of_nat (unat b) :: byte) = b"
  by simp

named_theorems bits_nat \<open>masks and shifts of naturals as div and mod\<close>

lemma and_mask_nat: "(x::nat) AND (2 ^ n - 1) = x mod 2 ^ n"
  by (metis mask_eq_exp_minus_1 take_bit_eq_mask take_bit_eq_mod)

lemma and_low_nat [bits_nat]:
  "(x::nat) AND 1 = x mod 2" "(x::nat) AND 3 = x mod 4" "(x::nat) AND 15 = x mod 16"
  "(x::nat) AND 63 = x mod 64" "(x::nat) AND 255 = x mod 256"
  using and_mask_nat [of x 1] and_mask_nat [of x 2] and_mask_nat [of x 4] and_mask_nat [of x 6]
    and_mask_nat [of x 8] by simp_all

lemma shift_nat [bits_nat]:
  "push_bit n (x::nat) = x * 2 ^ n"
  by (simp add: push_bit_eq_mult)

lemma and_high_nat [bits_nat]:
  "drop_bit n ((x::nat) AND y) = (x div 2 ^ n) AND (y div 2 ^ n)"
  by (simp add: drop_bit_and drop_bit_eq_div [symmetric])

end
