(* ===== verification/Array_Buf.thy ===== *)
theory Array_Buf
  imports Prelude
begin

text \<open>
  The growable array \<open>WylesLibs::Array<T>\<close> of lib/datastructures/array.h (everything but
  the sort, which is in theory Array_Sort): the buffer, its capacity and the number of
  elements, with the operations as the loops they are.

  A buffer is the list of its cells. \<open>newCArray d n\<close> is a fresh buffer whose cells hold
  \<open>d\<close>, the default-constructed or indeterminate content: the operations take \<open>d\<close> as an
  argument and the theorems hold for every \<open>d\<close>. Reads and writes outside a buffer are
  undefined behaviour (\<open>readB\<close>, \<open>writeB\<close>). The factors 1.75 and 0.5 are multiplications
  in double arithmetic, truncated: exact below \<open>2 ^ 50\<close> elements. Element types here are
  the generic ones (\<open>addElement\<close> is an assignment, \<open>deleteCArrayElement\<close> does nothing).
\<close>

section \<open>The array object\<close>

datatype ArraySort = ARRAY_SORT_UNSORTED | ARRAY_SORT_ASCENDING | ARRAY_SORT_DESCENDING

record 'a Array =
  e_buf :: "'a list"
  e_cap :: nat
  e_size :: nat
  e_sorted :: ArraySort

definition ARRAY_RECOMMENDED_INITIAL_CAP :: nat where
  "ARRAY_RECOMMENDED_INITIAL_CAP = 8"

definition upsize :: "nat \<Rightarrow> nat" where
  "upsize n = (7 * n) div 4"

definition downsize :: "nat \<Rightarrow> nat" where
  "downsize n = n div 2"

definition newCArray :: "'a \<Rightarrow> nat \<Rightarrow> 'a list" where
  "newCArray d n = replicate n d"

fun arrayFind_from :: "'a list \<Rightarrow> nat \<Rightarrow> nat \<Rightarrow> 'a \<Rightarrow> int" where
  "arrayFind_from buf i 0 el = -1"
| "arrayFind_from buf i (Suc n) el = (if buf ! i = el then int i else arrayFind_from buf (Suc i) n el)"

definition arrayFind :: "'a list \<Rightarrow> nat \<Rightarrow> 'a \<Rightarrow> int" where
  "arrayFind buf sz el = arrayFind_from buf 0 sz el"

section \<open>Constructors\<close>

definition Array_with_cap :: "'a \<Rightarrow> nat \<Rightarrow> 'a Array" where
  "Array_with_cap d initial_cap =
     \<lparr>e_buf = newCArray d initial_cap, e_cap = initial_cap, e_size = 0,
      e_sorted = ARRAY_SORT_UNSORTED\<rparr>"

definition Array_default :: "'a \<Rightarrow> 'a Array" where
  "Array_default d = Array_with_cap d ARRAY_RECOMMENDED_INITIAL_CAP"

definition Array_of_list :: "'a \<Rightarrow> 'a list \<Rightarrow> 'a Array res" where
  "Array_of_list d xs =
     bindR (for_from 0 (length xs) (\<lambda>i b. writeB b i (xs ! i)) (newCArray d (upsize (length xs))))
       (\<lambda>b. Inr \<lparr>e_buf = b, e_cap = upsize (length xs), e_size = length xs,
                 e_sorted = ARRAY_SORT_UNSORTED\<rparr>)"

definition Array_of_string :: "'a \<Rightarrow> 'a list \<Rightarrow> 'a Array res" where
  "Array_of_string d s =
     bindR (for_from 0 (length s) (\<lambda>i b. writeB b i (s ! i)) (newCArray d (length s)))
       (\<lambda>b. Inr \<lparr>e_buf = b, e_cap = length s, e_size = length s,
                 e_sorted = ARRAY_SORT_UNSORTED\<rparr>)"

text \<open>\<open>istream::read\<close> stores what the stream still has, at most \<open>size\<close> elements.\<close>

definition Array_of_stream :: "'a \<Rightarrow> 'a list \<Rightarrow> nat \<Rightarrow> 'a Array" where
  "Array_of_stream d stream sz =
     \<lparr>e_buf = take sz stream @ drop (length stream) (newCArray d sz), e_cap = sz,
      e_size = sz, e_sorted = ARRAY_SORT_UNSORTED\<rparr>"

section \<open>Insertion\<close>

text \<open>
  The insertion loop runs over the positions \<open>pos .. size + num - 1\<close>, writing the new
  elements first and then the displaced ones, which wait in a ring of \<open>num\<close> cells (the
  bucket). \<open>is_new\<close> is the buffer written, \<open>is_old\<close> the buffer read: the same memory
  unless the array was given a new buffer (\<open>recapped\<close>).
\<close>

record 'a insert_state =
  is_old :: "'a list"
  is_new :: "'a list"
  is_bucket :: "'a list"
  is_push :: nat
  is_pop :: nat

definition ring_next :: "nat \<Rightarrow> nat \<Rightarrow> nat" where
  "ring_next num i = (if Suc i = num then 0 else Suc i)"

definition insert_value ::
  "nat \<Rightarrow> 'a list \<Rightarrow> nat \<Rightarrow> 'a insert_state \<Rightarrow> ('a \<times> nat) res" where
  "insert_value pos els i st =
     (if i < pos + length els
      then bindR (readB els (i - pos)) (\<lambda>v. Inr (v, is_pop st))
      else bindR (readB (is_bucket st) (is_pop st))
             (\<lambda>v. Inr (v, ring_next (length els) (is_pop st))))"

definition insert_displace ::
  "nat \<Rightarrow> nat \<Rightarrow> nat \<Rightarrow> 'a insert_state \<Rightarrow> ('a list \<times> nat) res" where
  "insert_displace sz num i st =
     (if i < sz
      then bindR (readB (is_old st) i) (\<lambda>x.
           bindR (writeB (is_bucket st) (is_push st) x) (\<lambda>b.
             Inr (b, ring_next num (is_push st))))
      else Inr (is_bucket st, is_push st))"

definition insert_body ::
  "bool \<Rightarrow> nat \<Rightarrow> nat \<Rightarrow> 'a list \<Rightarrow> nat \<Rightarrow> 'a insert_state \<Rightarrow> 'a insert_state res" where
  "insert_body recapped sz pos els i st =
     bindR (insert_value pos els i st) (\<lambda>(value, pop').
     bindR (insert_displace sz (length els) i st) (\<lambda>(bucket', push').
     bindR (writeB (is_new st) i value) (\<lambda>new'.
       Inr \<lparr>is_old = (if recapped then is_old st else new'), is_new = new',
            is_bucket = bucket', is_push = push', is_pop = pop'\<rparr>)))"

definition Array_insert :: "'a \<Rightarrow> 'a Array \<Rightarrow> nat \<Rightarrow> 'a list \<Rightarrow> 'a Array res" where
  "Array_insert d a pos els =
     (if pos > e_size a then Inl (Runtime_Error ''Position out of range.'')
      else let num = length els;
               recapped = (num + e_size a > e_cap a);
               new_cap = (if recapped then upsize (num + e_size a) else e_cap a)
           in bindR (if recapped
                     then for_from 0 pos (\<lambda>i nb. bindR (readB (e_buf a) i) (writeB nb i))
                            (newCArray d new_cap)
                     else Inr (e_buf a)) (\<lambda>new_buf.
              bindR (for_from pos (e_size a + num - pos)
                       (insert_body recapped (e_size a) pos els)
                       \<lparr>is_old = e_buf a, is_new = new_buf, is_bucket = newCArray d num,
                        is_push = 0, is_pop = 0\<rparr>) (\<lambda>st.
                Inr \<lparr>e_buf = is_new st, e_cap = new_cap, e_size = e_size a + num,
                     e_sorted = ARRAY_SORT_UNSORTED\<rparr>)))"

definition Array_insert_el :: "'a \<Rightarrow> 'a Array \<Rightarrow> nat \<Rightarrow> 'a \<Rightarrow> 'a Array res" where
  "Array_insert_el d a pos el = Array_insert d a pos [el]"

definition Array_append_els :: "'a \<Rightarrow> 'a Array \<Rightarrow> 'a list \<Rightarrow> 'a Array res" where
  "Array_append_els d a els = Array_insert d a (e_size a) els"

definition Array_append :: "'a \<Rightarrow> 'a Array \<Rightarrow> 'a \<Rightarrow> 'a Array res" where
  "Array_append d a el = Array_append_els d a [el]"

definition Array_append_array :: "'a \<Rightarrow> 'a Array \<Rightarrow> 'a Array \<Rightarrow> 'a Array res" where
  "Array_append_array d a x = Array_append_els d a (take (e_size x) (e_buf x))"

section \<open>Removal\<close>

definition remove_body ::
  "bool \<Rightarrow> nat \<Rightarrow> nat \<Rightarrow> nat \<Rightarrow> 'a list \<times> 'a list \<Rightarrow> ('a list \<times> 'a list) res" where
  "remove_body recapped sz num i st =
     (case st of (old, selected) \<Rightarrow>
        if add64 i num < sz
        then bindR (readB old (add64 i num)) (\<lambda>x.
             bindR (writeB selected i x) (\<lambda>selected'.
               Inr (if recapped then old else selected', selected')))
        else Inr (old, selected))"

definition Array_remove_n :: "'a \<Rightarrow> 'a Array \<Rightarrow> nat \<Rightarrow> nat \<Rightarrow> 'a Array res" where
  "Array_remove_n d a pos num =
     (if add64 pos num > e_size a then Inl (Runtime_Error ''Position out of range.'')
      else let potential_new_cap = upsize (sub64 (e_size a) num);
               recapped = (potential_new_cap < downsize (e_cap a));
               new_cap = (if recapped then potential_new_cap else e_cap a)
           in bindR (if recapped
                     then for_from 0 pos (\<lambda>i nb. bindR (readB (e_buf a) i) (writeB nb i))
                            (newCArray d new_cap)
                     else Inr (e_buf a)) (\<lambda>selected.
              bindR (for_from pos (e_size a - pos) (remove_body recapped (e_size a) num)
                       (e_buf a, selected)) (\<lambda>st.
                Inr (a\<lparr>e_buf := snd st, e_cap := new_cap, e_size := sub64 (e_size a) num\<rparr>))))"

definition Array_remove :: "'a \<Rightarrow> 'a Array \<Rightarrow> nat \<Rightarrow> 'a Array res" where
  "Array_remove d a pos = Array_remove_n d a pos 1"

definition Array_find :: "'a Array \<Rightarrow> 'a \<Rightarrow> int" where
  "Array_find a el = arrayFind (e_buf a) (e_size a) el"

definition Array_contains :: "'a Array \<Rightarrow> 'a \<Rightarrow> bool" where
  "Array_contains a el = (Array_find a el \<noteq> -1)"

definition Array_uniqueAppend :: "'a \<Rightarrow> 'a Array \<Rightarrow> 'a \<Rightarrow> 'a Array res" where
  "Array_uniqueAppend d a el = (if Array_contains a el then Inr a else Array_append_els d a [el])"

definition Array_removeEl :: "'a \<Rightarrow> 'a Array \<Rightarrow> 'a \<Rightarrow> 'a Array res" where
  "Array_removeEl d a el =
     (let i = Array_find a el in if i \<noteq> -1 then Array_remove_n d a (nat i) 1 else Inr a)"

definition Array_removeFront :: "'a \<Rightarrow> 'a Array \<Rightarrow> 'a Array res" where
  "Array_removeFront d a =
     (if e_size a = 0 then Inl (Runtime_Error ''No element to remove.'') else Array_remove d a 0)"

definition Array_removeBack :: "'a \<Rightarrow> 'a Array \<Rightarrow> 'a Array res" where
  "Array_removeBack d a =
     (if e_size a = 0 then Inl (Runtime_Error ''No element to remove.'')
      else Array_remove d a (e_size a - 1))"

section \<open>Access\<close>

definition Array_at :: "'a Array \<Rightarrow> nat \<Rightarrow> 'a res" where
  "Array_at a pos =
     (if pos < e_size a then readB (e_buf a) pos else Inl (Runtime_Error ''Invalid position.''))"

definition Array_front :: "'a Array \<Rightarrow> 'a res" where
  "Array_front a =
     (if e_size a = 0 then Inl (Runtime_Error ''No element to return.'') else readB (e_buf a) 0)"

definition Array_back :: "'a Array \<Rightarrow> 'a res" where
  "Array_back a =
     (if e_size a = 0 then Inl (Runtime_Error ''No element to return.'')
      else readB (e_buf a) (e_size a - 1))"

text \<open>
  The subscript operators return a reference: the model returns the array, changed where
  the operator appends, with the index of the cell the reference is to.
\<close>

definition Array_index_pos :: "'a \<Rightarrow> 'a Array \<Rightarrow> nat \<Rightarrow> ('a Array \<times> nat) res" where
  "Array_index_pos d a pos =
     (if pos \<ge> e_size a
      then bindR (Array_append d a d) (\<lambda>a'. Inr (a', e_size a' - 1))
      else Inr (a, pos))"

definition Array_index_el :: "'a \<Rightarrow> 'a Array \<Rightarrow> 'a \<Rightarrow> ('a Array \<times> nat) res" where
  "Array_index_el d a el =
     (let i = Array_find a el
      in if i = -1 then bindR (Array_append d a el) (\<lambda>a'. Inr (a', e_size a' - 1))
         else Inr (a, nat i))"

fun equal_from :: "'a Array \<Rightarrow> 'a Array \<Rightarrow> nat \<Rightarrow> nat \<Rightarrow> bool res" where
  "equal_from a x i 0 = Inr True"
| "equal_from a x i (Suc n) =
     bindR (Array_at a i) (\<lambda>u. bindR (Array_at x i) (\<lambda>v.
       if u \<noteq> v then Inr False else equal_from a x (Suc i) n))"

definition Array_equal :: "'a Array \<Rightarrow> 'a Array \<Rightarrow> bool res" where
  "Array_equal a x = (if e_size a \<noteq> e_size x then Inr False else equal_from a x 0 (e_size a))"

section \<open>Representation invariant and abstraction\<close>

definition Array_inv :: "'a Array \<Rightarrow> bool" where
  "Array_inv a \<longleftrightarrow> length (e_buf a) = e_cap a \<and> e_size a \<le> e_cap a \<and> e_cap a < 2 ^ 63"

definition elems :: "'a Array \<Rightarrow> 'a list" where
  "elems a = take (e_size a) (e_buf a)"

lemma length_elems [simp]: "Array_inv a \<Longrightarrow> length (elems a) = e_size a"
  by (simp add: Array_inv_def elems_def)

lemma nth_elems: "i < e_size a \<Longrightarrow> elems a ! i = e_buf a ! i"
  by (simp add: elems_def)

lemma length_newCArray [simp]: "length (newCArray d n) = n"
  by (simp add: newCArray_def)

lemma le_upsize: "n \<le> upsize n"
  by (simp add: upsize_def)

lemma ring_next_mod: "k mod n < n \<Longrightarrow> ring_next n (k mod n) = Suc k mod n"
  by (simp add: ring_next_def mod_Suc)

text \<open>Copying a prefix into a fresh buffer.\<close>

lemma copy_prefix:
  assumes "pos \<le> length xs" and "pos \<le> length b"
  shows "\<exists>b'. for_from 0 pos (\<lambda>i nb. bindR (readB xs i) (writeB nb i)) b = Inr b' \<and>
    length b' = length b \<and> (\<forall>k<pos. b' ! k = xs ! k)"
proof -
  let ?I = "\<lambda>i b'. length b' = length b \<and> (\<forall>k<i. b' ! k = xs ! k)"
  have "\<exists>b'. for_from 0 pos (\<lambda>i nb. bindR (readB xs i) (writeB nb i)) b = Inr b' \<and> ?I (0 + pos) b'"
    by (rule for_from_rule) (use assms in \<open>auto simp: nth_list_update less_Suc_eq\<close>)
  then show ?thesis by simp
qed

lemma fill_from_list:
  assumes "length xs \<le> length b"
  shows "\<exists>b'. for_from 0 (length xs) (\<lambda>i b. writeB b i (xs ! i)) b = Inr b' \<and>
    length b' = length b \<and> take (length xs) b' = xs"
proof -
  let ?I = "\<lambda>i b'. length b' = length b \<and> (\<forall>k<i. b' ! k = xs ! k)"
  have "\<exists>b'. for_from 0 (length xs) (\<lambda>i b. writeB b i (xs ! i)) b = Inr b' \<and> ?I (0 + length xs) b'"
    by (rule for_from_rule) (use assms in \<open>auto simp: nth_list_update less_Suc_eq\<close>)
  then obtain b' where "for_from 0 (length xs) (\<lambda>i b. writeB b i (xs ! i)) b = Inr b'"
    and "?I (length xs) b'" by auto
  moreover from this have "take (length xs) b' = xs"
    using assms by (auto simp: list_eq_iff_nth_eq)
  ultimately show ?thesis by auto
qed


section \<open>The insertion loop\<close>

text \<open>
  What position \<open>k\<close> holds in the end, and the invariant of the loop at position \<open>i\<close>: the
  cells before \<open>i\<close> are final, the cells from \<open>i\<close> on of the buffer read are still the old
  ones, and the bucket holds the last (at most \<open>num\<close>) displaced elements, each in the cell
  given by its distance from \<open>pos\<close> modulo \<open>num\<close>.
\<close>

definition insert_target :: "'a list \<Rightarrow> nat \<Rightarrow> 'a list \<Rightarrow> nat \<Rightarrow> 'a" where
  "insert_target xs pos els k =
     (if k < pos then xs ! k
      else if k < pos + length els then els ! (k - pos) else xs ! (k - length els))"

definition insert_loop_inv ::
  "bool \<Rightarrow> 'a list \<Rightarrow> nat \<Rightarrow> nat \<Rightarrow> nat \<Rightarrow> 'a list \<Rightarrow> nat \<Rightarrow> 'a insert_state \<Rightarrow> bool" where
  "insert_loop_inv recapped xs n cap pos els i st \<longleftrightarrow>
     length (is_new st) = cap \<and> length (is_old st) = length xs \<and>
     length (is_bucket st) = length els \<and>
     (\<not> recapped \<longrightarrow> is_old st = is_new st) \<and>
     (\<forall>k<i. is_new st ! k = insert_target xs pos els k) \<and>
     (\<forall>k. i \<le> k \<and> k < n \<longrightarrow> is_old st ! k = xs ! k) \<and>
     is_push st = (min i n - pos) mod length els \<and>
     is_pop st = (if i < pos + length els then 0 else (i - pos) mod length els) \<and>
     (\<forall>j. pos \<le> j \<and> j < i \<and> j < n \<and> i \<le> j + length els \<longrightarrow>
        is_bucket st ! ((j - pos) mod length els) = xs ! j)"

lemma mod_neq_window:
  fixes j k m :: nat
  assumes "j < k" and "k < j + m"
  shows "j mod m \<noteq> k mod m"
proof
  assume "j mod m = k mod m"
  then have "m dvd k - j" using assms(1) by (metis less_imp_le mod_eq_dvd_iff_nat)
  with assms show False by (auto dest: dvd_imp_le)
qed

lemma insert_value_inv:
  assumes inv: "insert_loop_inv recapped xs n cap pos els i st"
    and i: "pos \<le> i" "i < n + length els" and "pos \<le> n" "els \<noteq> []"
  shows "insert_value pos els i st =
    Inr (insert_target xs pos els i,
         if Suc i < pos + length els then 0 else (Suc i - pos) mod length els)"
proof (cases "i < pos + length els")
  case True
  then have "readB els (i - pos) = Inr (els ! (i - pos))" using i by simp
  moreover have "(Suc i - pos) mod length els = 0" if "\<not> Suc i < pos + length els"
  proof -
    have "Suc i - pos = length els" using True that by simp
    then show ?thesis by simp
  qed
  ultimately show ?thesis
    using True i inv by (simp add: insert_value_def insert_target_def insert_loop_inv_def)
next
  case False
  let ?n = "length els"
  from \<open>els \<noteq> []\<close> have pos_n: "0 < ?n" by simp
  from False inv have pop: "is_pop st = (i - pos) mod ?n" and len: "length (is_bucket st) = ?n"
    by (auto simp: insert_loop_inv_def)
  have "(i - ?n - pos) mod ?n = (i - pos) mod ?n"
    using False by (metis diff_commute le_mod_geq not_less add_le_imp_le_diff add.commute)
  moreover have "is_bucket st ! ((i - ?n - pos) mod ?n) = xs ! (i - ?n)"
  proof -
    have "pos \<le> i - ?n \<and> i - ?n < i \<and> i - ?n < n \<and> i \<le> i - ?n + ?n"
      using False i pos_n by (intro conjI) linarith+
    then show ?thesis using inv unfolding insert_loop_inv_def by blast
  qed
  ultimately have "readB (is_bucket st) (is_pop st) = Inr (xs ! (i - ?n))"
    using pop len pos_n by simp
  then show ?thesis
    using False i pop pos_n
    by (simp add: insert_value_def insert_target_def ring_next_mod Suc_diff_le)
qed

lemma insert_displace_inv:
  assumes inv: "insert_loop_inv recapped xs n cap pos els i st"
    and i: "pos \<le> i" and n: "pos \<le> n" "n \<le> length xs" and "els \<noteq> []"
  shows "\<exists>b. insert_displace n (length els) i st =
      Inr (b, (min (Suc i) n - pos) mod length els) \<and> length b = length els \<and>
      (\<forall>j. pos \<le> j \<and> j < Suc i \<and> j < n \<and> Suc i \<le> j + length els \<longrightarrow>
        b ! ((j - pos) mod length els) = xs ! j)"
proof (cases "i < n")
  case True
  let ?n = "length els"
  let ?b = "(is_bucket st)[(i - pos) mod ?n := xs ! i]"
  from \<open>els \<noteq> []\<close> have pos_n: "0 < ?n" by simp
  have push: "is_push st = (i - pos) mod ?n" and len: "length (is_bucket st) = ?n"
    using inv True by (auto simp: insert_loop_inv_def min_def)
  have rd: "readB (is_old st) i = Inr (xs ! i)"
    using inv True n by (simp add: insert_loop_inv_def)
  have "?b ! ((j - pos) mod ?n) = xs ! j"
    if j: "pos \<le> j" "j < Suc i" "j < n" "Suc i \<le> j + ?n" for j
  proof (cases "j = i")
    case True
    then show ?thesis using len pos_n by simp
  next
    case False
    with j have "j - pos < i - pos" "i - pos < j - pos + ?n" by auto
    then have "(j - pos) mod ?n \<noteq> (i - pos) mod ?n" by (rule mod_neq_window)
    then show ?thesis using inv j False by (auto simp: insert_loop_inv_def)
  qed
  moreover have "insert_displace n ?n i st = Inr (?b, (min (Suc i) n - pos) mod ?n)"
    using True i rd push len pos_n
    by (simp add: insert_displace_def ring_next_mod Suc_diff_le min_def)
  ultimately show ?thesis using len by auto
next
  case False
  then show ?thesis using inv by (auto simp: insert_displace_def insert_loop_inv_def min_def)
qed

lemma insert_body_inv:
  assumes inv: "insert_loop_inv recapped xs n cap pos els i st"
    and i: "pos \<le> i" "i < n + length els" and n: "pos \<le> n" "n \<le> length xs" "els \<noteq> []"
    and cap: "n + length els \<le> cap"
  shows "\<exists>st'. insert_body recapped n pos els i st = Inr st' \<and>
    insert_loop_inv recapped xs n cap pos els (Suc i) st'"
proof -
  note v = insert_value_inv [OF inv i n(1) n(3)]
  obtain b where b: "insert_displace n (length els) i st =
      Inr (b, (min (Suc i) n - pos) mod length els)" "length b = length els"
    "\<forall>j. pos \<le> j \<and> j < Suc i \<and> j < n \<and> Suc i \<le> j + length els \<longrightarrow>
        b ! ((j - pos) mod length els) = xs ! j"
    using insert_displace_inv [OF inv i(1) n] by blast
  have w: "writeB (is_new st) i (insert_target xs pos els i) =
      Inr ((is_new st)[i := insert_target xs pos els i])"
    using inv i cap by (simp add: insert_loop_inv_def)
  let ?st = "\<lparr>is_old = (if recapped then is_old st
                           else (is_new st)[i := insert_target xs pos els i]),
      is_new = (is_new st)[i := insert_target xs pos els i], is_bucket = b,
      is_push = (min (Suc i) n - pos) mod length els,
      is_pop = (if Suc i < pos + length els then 0 else (Suc i - pos) mod length els)\<rparr>"
  have "insert_body recapped n pos els i st = Inr ?st"
    by (simp add: insert_body_def v b(1) w)
  moreover have "insert_loop_inv recapped xs n cap pos els (Suc i) ?st"
    using inv b(2,3) i cap by (auto simp: insert_loop_inv_def nth_list_update less_Suc_eq)
  ultimately show ?thesis by blast
qed

lemma insert_loop_inv_start:
  assumes "length nb = cap" "\<forall>k<pos. nb ! k = xs ! k" "\<not> recapped \<longrightarrow> nb = xs" "els \<noteq> []"
    "pos \<le> n"
  shows "insert_loop_inv recapped xs n cap pos els pos
    \<lparr>is_old = xs, is_new = nb, is_bucket = newCArray d (length els), is_push = 0, is_pop = 0\<rparr>"
  using assms by (auto simp: insert_loop_inv_def insert_target_def)

lemma insert_target_list:
  assumes "length ys = n + length els" "pos \<le> n" "n \<le> length xs"
    "\<forall>k < n + length els. ys ! k = insert_target xs pos els k"
  shows "ys = take pos (take n xs) @ els @ drop pos (take n xs)"
  using assms
  by (intro nth_equalityI)
    (auto simp: insert_target_def nth_append min_def, metis le_antisym le_trans)

lemma insert_loop_result:
  assumes "length nb = cap" "\<forall>k<pos. nb ! k = xs ! k" "\<not> recapped \<longrightarrow> nb = xs" "els \<noteq> []"
    and "pos \<le> n" "n \<le> length xs" "n + length els \<le> cap"
  shows "\<exists>st. for_from pos (n + length els - pos) (insert_body recapped n pos els)
      \<lparr>is_old = xs, is_new = nb, is_bucket = newCArray d (length els), is_push = 0, is_pop = 0\<rparr>
      = Inr st \<and> length (is_new st) = cap \<and>
      take (n + length els) (is_new st) = take pos (take n xs) @ els @ drop pos (take n xs)"
proof -
  let ?I = "insert_loop_inv recapped xs n cap pos els"
  have "\<exists>st. for_from pos (n + length els - pos) (insert_body recapped n pos els)
      \<lparr>is_old = xs, is_new = nb, is_bucket = newCArray d (length els), is_push = 0, is_pop = 0\<rparr>
      = Inr st \<and> ?I (pos + (n + length els - pos)) st"
    by (rule for_from_rule [where I = ?I], rule insert_loop_inv_start [OF assms(1-5)])
      (rule insert_body_inv, use assms in auto)
  then obtain st where st: "for_from pos (n + length els - pos) (insert_body recapped n pos els)
      \<lparr>is_old = xs, is_new = nb, is_bucket = newCArray d (length els), is_push = 0, is_pop = 0\<rparr>
      = Inr st" and inv: "?I (n + length els) st"
    using assms(5) by auto
  from inv have "take (n + length els) (is_new st) = take pos (take n xs) @ els @ drop pos (take n xs)"
    using assms(5-7) by (intro insert_target_list) (auto simp: insert_loop_inv_def)
  with st inv show ?thesis by (auto simp: insert_loop_inv_def)
qed

lemma insert_loop_empty: "for_from n (n + 0 - n) f s = Inr s"
  by simp

text \<open>Total correctness of the insertion.\<close>

lemma Array_insert_correct:
  assumes inv: "Array_inv a" and pos: "pos \<le> e_size a" and els: "els \<noteq> [] \<or> pos = e_size a"
    and fits: "upsize (length els + e_size a) < 2 ^ 63"
  shows "\<exists>a'. Array_insert d a pos els = Inr a' \<and> Array_inv a' \<and>
    elems a' = take pos (elems a) @ els @ drop pos (elems a) \<and>
    e_size a' = e_size a + length els \<and> e_sorted a' = ARRAY_SORT_UNSORTED"
proof -
  let ?recapped = "length els + e_size a > e_cap a"
  let ?cap = "if ?recapped then upsize (length els + e_size a) else e_cap a"
  obtain nb where nb: "(if ?recapped
      then for_from 0 pos (\<lambda>i nb. bindR (readB (e_buf a) i) (writeB nb i)) (newCArray d ?cap)
      else Inr (e_buf a)) = Inr nb"
    "length nb = ?cap" "\<forall>k<pos. nb ! k = e_buf a ! k" "\<not> ?recapped \<longrightarrow> nb = e_buf a"
  proof (cases ?recapped)
    case True
    have "pos \<le> length (e_buf a)" "pos \<le> length (newCArray d ?cap)"
      using inv pos True le_upsize [of "length els + e_size a"] by (auto simp: Array_inv_def)
    from copy_prefix [OF this] that True show ?thesis by auto
  next
    case False
    with that inv show ?thesis by (auto simp: Array_inv_def)
  qed
  have room: "e_size a + length els \<le> ?cap"
    using le_upsize [of "length els + e_size a"] by auto
  have sz: "e_size a \<le> length (e_buf a)" using inv by (simp add: Array_inv_def)
  show ?thesis
  proof (cases "els = []")
    case False
    from insert_loop_result [OF nb(2-4) False pos sz room, of d] nb(1)
    show ?thesis using pos room inv fits
      by (auto simp: Array_insert_def Let_def elems_def Array_inv_def)
  next
    case True
    with els have [simp]: "pos = e_size a" by simp
    from True nb show ?thesis using room inv
      by (auto simp: Array_insert_def Let_def elems_def Array_inv_def)
  qed
qed

section \<open>The removal loop\<close>

definition remove_loop_inv ::
  "bool \<Rightarrow> 'a list \<Rightarrow> nat \<Rightarrow> nat \<Rightarrow> nat \<Rightarrow> nat \<Rightarrow> nat \<Rightarrow> 'a list \<times> 'a list \<Rightarrow> bool" where
  "remove_loop_inv recapped xs n cap pos num i st \<longleftrightarrow>
     length (snd st) = cap \<and> length (fst st) = length xs \<and>
     (\<not> recapped \<longrightarrow> fst st = snd st) \<and>
     (\<forall>k. k < i \<and> k < n - num \<longrightarrow> snd st ! k = (if k < pos then xs ! k else xs ! (k + num))) \<and>
     (\<forall>k. i \<le> k \<and> k < n \<longrightarrow> fst st ! k = xs ! k)"

lemma remove_body_inv:
  assumes inv: "remove_loop_inv recapped xs n cap pos num i st"
    and i: "pos \<le> i" "i < n" and n: "n \<le> length xs" "n - num \<le> cap" "num \<le> n" "n < 2 ^ 63"
  shows "\<exists>st'. remove_body recapped n num i st = Inr st' \<and>
    remove_loop_inv recapped xs n cap pos num (Suc i) st'"
proof -
  obtain old sel where st: "st = (old, sel)" by (cases st)
  have "i + num < 2 ^ 64" using i n by auto
  then have add: "add64 i num = i + num" by (rule add64_id)
  show ?thesis
  proof (cases "i + num < n")
    case True
    have rd: "readB old (i + num) = Inr (xs ! (i + num))"
      using inv st True n by (auto simp: remove_loop_inv_def)
    have wr: "writeB sel i (xs ! (i + num)) = Inr (sel[i := xs ! (i + num)])"
      using inv st True n by (auto simp: remove_loop_inv_def)
    have "remove_body recapped n num i st =
        Inr (if recapped then old else sel[i := xs ! (i + num)], sel[i := xs ! (i + num)])"
      by (simp add: remove_body_def st add True rd wr)
    then show ?thesis
      using inv st True i n by (auto simp: remove_loop_inv_def nth_list_update less_Suc_eq)
  next
    case False
    then show ?thesis
      using inv st by (auto simp: remove_body_def add remove_loop_inv_def less_Suc_eq)
  qed
qed

lemma remove_target_list:
  assumes "length ys = n - num" "pos + num \<le> n" "n = length zs"
    "\<forall>k < n - num. ys ! k = (if k < pos then zs ! k else zs ! (k + num))"
  shows "ys = take pos zs @ drop (pos + num) zs"
  using assms by (intro nth_equalityI) (auto simp: nth_append min_def add.commute)

lemma remove_loop_result:
  assumes nb: "length nb = cap" "\<forall>k<pos. nb ! k = xs ! k" "\<not> recapped \<longrightarrow> nb = xs"
    and n: "n \<le> length xs" "n - num \<le> cap" "pos + num \<le> n" "n < 2 ^ 63"
  shows "\<exists>st. for_from pos (n - pos) (remove_body recapped n num) (xs, nb) = Inr st \<and>
    length (snd st) = cap \<and>
    take (n - num) (snd st) = take pos (take n xs) @ drop (pos + num) (take n xs)"
proof -
  let ?I = "remove_loop_inv recapped xs n cap pos num"
  have start: "?I pos (xs, nb)" using nb by (auto simp: remove_loop_inv_def)
  have "\<exists>st. for_from pos (n - pos) (remove_body recapped n num) (xs, nb) = Inr st \<and>
      ?I (pos + (n - pos)) st"
    by (rule for_from_rule [where I = ?I], rule start) (rule remove_body_inv, use n in auto)
  then obtain st where st: "for_from pos (n - pos) (remove_body recapped n num) (xs, nb) = Inr st"
    and inv: "?I n st" using n by auto
  have "take (n - num) (snd st) = take pos (take n xs) @ drop (pos + num) (take n xs)"
    using inv n by (intro remove_target_list [where n = n]) (auto simp: remove_loop_inv_def)
  with st inv show ?thesis by (auto simp: remove_loop_inv_def)
qed

lemma Array_remove_n_correct:
  assumes inv: "Array_inv a" and pos: "pos + num \<le> e_size a"
  shows "\<exists>a'. Array_remove_n d a pos num = Inr a' \<and> Array_inv a' \<and>
    elems a' = take pos (elems a) @ drop (pos + num) (elems a) \<and>
    e_size a' = e_size a - num \<and> e_sorted a' = e_sorted a"
proof -
  have bounds: "e_size a \<le> length (e_buf a)" "e_size a < 2 ^ 63"
    using inv by (auto simp: Array_inv_def)
  have arith: "add64 pos num = pos + num" "sub64 (e_size a) num = e_size a - num"
    using pos bounds by auto
  let ?recapped = "upsize (e_size a - num) < downsize (e_cap a)"
  let ?cap = "if ?recapped then upsize (e_size a - num) else e_cap a"
  have room: "e_size a - num \<le> ?cap"
    using le_upsize [of "e_size a - num"] inv by (auto simp: Array_inv_def)
  obtain nb where nb: "(if ?recapped
      then for_from 0 pos (\<lambda>i nb. bindR (readB (e_buf a) i) (writeB nb i)) (newCArray d ?cap)
      else Inr (e_buf a)) = Inr nb"
    "length nb = ?cap" "\<forall>k<pos. nb ! k = e_buf a ! k" "\<not> ?recapped \<longrightarrow> nb = e_buf a"
  proof (cases ?recapped)
    case True
    have "pos \<le> length (e_buf a)" "pos \<le> length (newCArray d ?cap)"
      using pos bounds room True by auto
    from copy_prefix [OF this] that True show ?thesis by auto
  next
    case False
    with that inv show ?thesis by (auto simp: Array_inv_def)
  qed
  from remove_loop_result [OF nb(2-4) bounds(1) room pos bounds(2)] nb(1)
  obtain st where st: "for_from pos (e_size a - pos) (remove_body ?recapped (e_size a) num)
      (e_buf a, nb) = Inr st" "length (snd st) = ?cap"
    "take (e_size a - num) (snd st) =
      take pos (take (e_size a) (e_buf a)) @ drop (pos + num) (take (e_size a) (e_buf a))" by auto
  let ?a = "a\<lparr>e_buf := snd st, e_cap := ?cap, e_size := e_size a - num\<rparr>"
  have "Array_remove_n d a pos num = Inr ?a"
    using pos nb(1) st(1) by (simp add: Array_remove_n_def Let_def arith)
  moreover have "Array_inv ?a"
    using st(2) room inv by (auto simp: Array_inv_def downsize_def)
  moreover have "elems ?a = take pos (elems a) @ drop (pos + num) (elems a)"
    using st(3) by (simp add: elems_def)
  ultimately show ?thesis by auto
qed

section \<open>The derived operations\<close>

lemma arrayFind_from_spec:
  "(\<exists>k. arrayFind_from buf i n el = int k \<and> i \<le> k \<and> k < i + n \<and> buf ! k = el \<and>
      (\<forall>j. i \<le> j \<and> j < k \<longrightarrow> buf ! j \<noteq> el)) \<or>
   (arrayFind_from buf i n el = -1 \<and> (\<forall>j. i \<le> j \<and> j < i + n \<longrightarrow> buf ! j \<noteq> el))"
proof (induction n arbitrary: i)
  case 0
  have "\<forall>j. i \<le> j \<and> j < i + 0 \<longrightarrow> buf ! j \<noteq> el" by (metis add_0_right leD)
  then show ?case by simp
next
  case (Suc n)
  show ?case
  proof (cases "buf ! i = el")
    case True
    moreover have "\<forall>j. i \<le> j \<and> j < i \<longrightarrow> buf ! j \<noteq> el" by (metis leD)
    ultimately show ?thesis by (intro disjI1 exI [of _ i]) simp
  next
    case False
    then have eq: "j \<noteq> i" if "buf ! j = el" for j using that by auto
    from Suc.IH [of "Suc i"] show ?thesis
    proof
      assume "\<exists>k. arrayFind_from buf (Suc i) n el = int k \<and> Suc i \<le> k \<and> k < Suc i + n \<and>
        buf ! k = el \<and> (\<forall>j. Suc i \<le> j \<and> j < k \<longrightarrow> buf ! j \<noteq> el)"
      then obtain k where "arrayFind_from buf (Suc i) n el = int k" "Suc i \<le> k" "k < Suc i + n"
        "buf ! k = el" "\<forall>j. Suc i \<le> j \<and> j < k \<longrightarrow> buf ! j \<noteq> el" by blast
      then show ?thesis using False
        by (intro disjI1 exI [of _ k]) (auto simp: not_less_eq_eq dest: le_imp_less_or_eq)
    next
      assume "arrayFind_from buf (Suc i) n el = -1 \<and>
        (\<forall>j. Suc i \<le> j \<and> j < Suc i + n \<longrightarrow> buf ! j \<noteq> el)"
      then show ?thesis using False
        by (intro disjI2) (auto, metis Suc_leI le_neq_implies_less)
    qed
  qed
qed

text \<open>\<open>find\<close> returns the first position of the element, or -1 when there is none.\<close>

lemma Array_find_spec:
  assumes "Array_inv a"
  shows "(Array_find a el = -1 \<and> el \<notin> set (elems a)) \<or>
    (\<exists>k < e_size a. Array_find a el = int k \<and> elems a ! k = el \<and>
       el \<notin> set (take k (elems a)))"
proof -
  let ?xs = "elems a"
  have len: "length ?xs = e_size a" using assms by simp
  from arrayFind_from_spec [of "e_buf a" 0 "e_size a" el] show ?thesis
  proof
    assume "\<exists>k. arrayFind_from (e_buf a) 0 (e_size a) el = int k \<and> 0 \<le> k \<and> k < 0 + e_size a \<and>
      e_buf a ! k = el \<and> (\<forall>j. 0 \<le> j \<and> j < k \<longrightarrow> e_buf a ! j \<noteq> el)"
    then obtain k where k: "Array_find a el = int k" "k < e_size a" "e_buf a ! k = el"
      "\<forall>j<k. e_buf a ! j \<noteq> el" by (auto simp: Array_find_def arrayFind_def)
    then have "el \<notin> set (take k ?xs)" using len
      by (auto simp: in_set_conv_nth nth_elems)
    with k show ?thesis by (auto simp: nth_elems)
  next
    assume "arrayFind_from (e_buf a) 0 (e_size a) el = -1 \<and>
      (\<forall>j. 0 \<le> j \<and> j < 0 + e_size a \<longrightarrow> e_buf a ! j \<noteq> el)"
    then show ?thesis using len
      by (auto simp: Array_find_def arrayFind_def in_set_conv_nth nth_elems)
  qed
qed

lemma Array_contains_iff: "Array_inv a \<Longrightarrow> Array_contains a el \<longleftrightarrow> el \<in> set (elems a)"
  using Array_find_spec [of a el] by (auto simp: Array_contains_def in_set_conv_nth)

text \<open>The room an operation needs: the grown capacity must stay an object size.\<close>

definition grows :: "'a Array \<Rightarrow> nat \<Rightarrow> bool" where
  "grows a n \<longleftrightarrow> upsize (n + e_size a) < 2 ^ 63"

lemma Array_append_correct:
  assumes "Array_inv a" and "grows a 1"
  shows "\<exists>a'. Array_append d a el = Inr a' \<and> Array_inv a' \<and> elems a' = elems a @ [el] \<and>
    e_size a' = Suc (e_size a)"
proof -
  have "upsize (length [el] + e_size a) < 2 ^ 63" using assms(2) by (simp add: grows_def)
  from Array_insert_correct [OF assms(1) le_refl _ this, of d] show ?thesis
    using length_elems [OF assms(1)] by (auto simp: Array_append_def Array_append_els_def)
qed

lemma Array_append_array_correct:
  assumes "Array_inv a" "Array_inv x" and "grows a (e_size x)"
  shows "\<exists>a'. Array_append_array d a x = Inr a' \<and> Array_inv a' \<and> elems a' = elems a @ elems x"
proof -
  have l: "length (elems x) = e_size x" using assms(2) by simp
  then have "upsize (length (elems x) + e_size a) < 2 ^ 63" using assms(3) by (simp add: grows_def)
  from Array_insert_correct [OF assms(1) le_refl _ this, of d] show ?thesis
    using length_elems [OF assms(1)]
    by (auto simp: Array_append_array_def Array_append_els_def elems_def)
qed

lemma Array_removeFront_correct:
  assumes "Array_inv a"
  shows "if elems a = [] then Array_removeFront d a = Inl (Runtime_Error ''No element to remove.'')
    else \<exists>a'. Array_removeFront d a = Inr a' \<and> Array_inv a' \<and> elems a' = tl (elems a)"
proof (cases "elems a = []")
  case True
  then have "e_size a = 0" using length_elems [OF assms] by simp
  with True show ?thesis by (simp add: Array_removeFront_def)
next
  case False
  then have "0 + 1 \<le> e_size a" using length_elems [OF assms] by (cases "elems a") auto
  from Array_remove_n_correct [OF assms this, of d] False this show ?thesis
    by (auto simp: Array_removeFront_def Array_remove_def drop_Suc)
qed

lemma Array_removeBack_correct:
  assumes "Array_inv a"
  shows "if elems a = [] then Array_removeBack d a = Inl (Runtime_Error ''No element to remove.'')
    else \<exists>a'. Array_removeBack d a = Inr a' \<and> Array_inv a' \<and> elems a' = butlast (elems a)"
proof (cases "elems a = []")
  case True
  then have "e_size a = 0" using length_elems [OF assms] by simp
  with True show ?thesis by (simp add: Array_removeBack_def)
next
  case False
  then have "0 < e_size a" using length_elems [OF assms] by (cases "elems a") auto
  then have *: "(e_size a - 1) + 1 \<le> e_size a" by simp
  have "drop (e_size a - 1 + 1) (elems a) = []" using length_elems [OF assms] by simp
  with Array_remove_n_correct [OF assms *, of d] False \<open>0 < e_size a\<close> show ?thesis
    using length_elems [OF assms]
    by (auto simp: Array_removeBack_def Array_remove_def butlast_conv_take)
qed

lemma Array_at_correct:
  assumes "Array_inv a"
  shows "Array_at a i =
    (if i < length (elems a) then Inr (elems a ! i) else Inl (Runtime_Error ''Invalid position.''))"
  using assms by (auto simp: Array_at_def nth_elems Array_inv_def elems_def readB_def)

lemma Array_back_correct:
  "Array_inv a \<Longrightarrow> elems a \<noteq> [] \<Longrightarrow> Array_back a = Inr (last (elems a))"
  by (auto simp: Array_back_def last_conv_nth nth_elems Array_inv_def elems_def readB_def)

lemma equal_from_correct:
  assumes "Array_inv a" "Array_inv x" "e_size a = e_size x" "i + n = e_size a"
  shows "equal_from a x i n = Inr (drop i (elems a) = drop i (elems x))"
  using assms(4)
proof (induction n arbitrary: i)
  case 0
  then show ?case using assms by simp
next
  case (Suc n)
  then have "i < length (elems a)" "i < length (elems x)" using assms by simp_all
  then show ?case
    using Suc assms by (simp add: Array_at_correct Cons_nth_drop_Suc [symmetric])
qed

lemma Array_equal_correct:
  assumes "Array_inv a" "Array_inv x"
  shows "Array_equal a x = Inr (elems a = elems x)"
  using equal_from_correct [OF assms, of 0 "e_size a"] assms
  by (auto simp: Array_equal_def dest: arg_cong [where f = length])

lemma Array_uniqueAppend_correct:
  assumes "Array_inv a" and "grows a 1"
  shows "\<exists>a'. Array_uniqueAppend d a el = Inr a' \<and> Array_inv a' \<and>
    elems a' = (if el \<in> set (elems a) then elems a else elems a @ [el])"
  using Array_append_correct [OF assms, of d el] assms(1)
  by (auto simp: Array_uniqueAppend_def Array_contains_iff Array_append_def)

lemma Array_removeEl_correct:
  assumes "Array_inv a"
  shows "\<exists>a'. Array_removeEl d a el = Inr a' \<and> Array_inv a' \<and> elems a' = remove1 el (elems a)"
  using Array_find_spec [OF assms, of el]
proof
  assume "Array_find a el = -1 \<and> el \<notin> set (elems a)"
  then show ?thesis using assms by (auto simp: Array_removeEl_def remove1_idem)
next
  assume "\<exists>k < e_size a. Array_find a el = int k \<and> elems a ! k = el \<and>
       el \<notin> set (take k (elems a))"
  then obtain k where k: "k < e_size a" "Array_find a el = int k" "elems a ! k = el"
    "el \<notin> set (take k (elems a))" by blast
  have "elems a = take k (elems a) @ el # drop (Suc k) (elems a)"
    using k length_elems [OF assms] by (metis id_take_nth_drop)
  with k(4) have "remove1 el (elems a) = take k (elems a) @ drop (Suc k) (elems a)"
    by (metis remove1_append remove1.simps(2))
  moreover have "k + 1 \<le> e_size a" using k by simp
  ultimately show ?thesis using Array_remove_n_correct [OF assms, of k 1 d] k(2)
    by (auto simp: Array_removeEl_def)
qed

lemma Array_of_list_correct:
  assumes "upsize (length xs) < 2 ^ 63"
  shows "\<exists>a. Array_of_list d xs = Inr a \<and> Array_inv a \<and> elems a = xs"
  using fill_from_list [of xs "newCArray d (upsize (length xs))"] le_upsize [of "length xs"] assms
  by (auto simp: Array_of_list_def Array_inv_def elems_def)

lemma Array_of_string_correct:
  assumes "length xs < 2 ^ 63"
  shows "\<exists>a. Array_of_string d xs = Inr a \<and> Array_inv a \<and> elems a = xs"
  using fill_from_list [of xs "newCArray d (length xs)"] assms
  by (auto simp: Array_of_string_def Array_inv_def elems_def)

lemma Array_with_cap_correct: "n < 2 ^ 63 \<Longrightarrow> Array_inv (Array_with_cap d n)"
  by (simp add: Array_with_cap_def Array_inv_def)

lemma elems_Array_with_cap [simp]: "elems (Array_with_cap d n) = []"
  by (simp add: Array_with_cap_def elems_def)

section \<open>Properties\<close>

lemma insert_nothing_undefined:
  assumes "Array_inv a" and "pos < e_size a"
  shows "Array_insert d a pos [] = Inl Undefined"
proof -
  have "\<not> e_cap a < e_size a" using assms by (simp add: Array_inv_def)
  moreover obtain k where "e_size a - pos = Suc k" using assms(2) by (metis Suc_diff_Suc)
  ultimately show ?thesis using assms(2)
    by (simp add: Array_insert_def insert_body_def insert_value_def readB_def)
qed

text \<open>
  C7. Array::insert, every branch: a position behind the end is refused with the array
  unchanged; inserting zero elements before the end reads and writes the empty bucket
  (undefined behaviour); otherwise the new elements stand at the position, the old ones
  around them in order, and the representation invariant and the sort flag are as they
  should be, whether or not the buffer had to grow.
\<close>

theorem insert_outcomes:
  assumes "Array_inv a" and "grows a (length els)"
  shows "(e_size a < pos \<longrightarrow>
      Array_insert d a pos els = Inl (Runtime_Error ''Position out of range.'')) \<and>
    (pos < e_size a \<and> els = [] \<longrightarrow> Array_insert d a pos els = Inl Undefined) \<and>
    (pos \<le> e_size a \<and> (els \<noteq> [] \<or> pos = e_size a) \<longrightarrow>
      (\<exists>a'. Array_insert d a pos els = Inr a' \<and> Array_inv a' \<and>
         elems a' = take pos (elems a) @ els @ drop pos (elems a) \<and>
         e_sorted a' = ARRAY_SORT_UNSORTED))"
proof (intro conjI impI)
  assume "pos \<le> e_size a \<and> (els \<noteq> [] \<or> pos = e_size a)"
  with Array_insert_correct [OF assms(1), of pos els d] assms(2)
  show "\<exists>a'. Array_insert d a pos els = Inr a' \<and> Array_inv a' \<and>
         elems a' = take pos (elems a) @ els @ drop pos (elems a) \<and>
         e_sorted a' = ARRAY_SORT_UNSORTED" by (auto simp: grows_def)
qed (use insert_nothing_undefined [OF assms(1)] in \<open>auto simp: Array_insert_def\<close>)

definition three :: "int Array" where
  "three = \<lparr>e_buf = [10, 20, 30, 0], e_cap = 4, e_size = 3, e_sorted = ARRAY_SORT_ASCENDING\<rparr>"

theorem insert_outcomes_witness:
  "Array_inv three \<and> grows three 2 \<and>
   (\<exists>a'. Array_insert 0 three 1 [7, 8] = Inr a' \<and> elems a' = [10, 7, 8, 20, 30])"
proof -
  have h: "Array_inv three" "grows three (length [7::int, 8])"
    by (simp_all add: three_def Array_inv_def grows_def upsize_def)
  moreover have "grows three 2" "(1::nat) \<le> e_size three" "e_size three = 3" "elems three = [10, 20, 30]"
    by (simp_all add: three_def elems_def grows_def upsize_def)
  ultimately show ?thesis using insert_outcomes [OF h, of 1 0] by auto
qed

text \<open>
  Array::remove of a range, every branch: a range that ends behind the last element is
  refused; otherwise exactly that range is gone, the other elements keep their order, and
  the invariant and the sort flag are kept, whether or not the buffer was shrunk.
\<close>

theorem remove_outcomes:
  assumes "Array_inv a" and "pos + num < 2 ^ 64"
  shows "if e_size a < pos + num
    then Array_remove_n d a pos num = Inl (Runtime_Error ''Position out of range.'')
    else \<exists>a'. Array_remove_n d a pos num = Inr a' \<and> Array_inv a' \<and>
      elems a' = take pos (elems a) @ drop (pos + num) (elems a) \<and> e_sorted a' = e_sorted a"
  using Array_remove_n_correct [OF assms(1), of pos num d] assms(2)
  by (auto simp: Array_remove_n_def)

theorem remove_outcomes_witness:
  "\<exists>a'. Array_remove_n 0 three 0 2 = Inr a' \<and> Array_inv a' \<and> elems a' = [30]"
proof -
  have h: "Array_inv three" "(0::nat) + 2 < 2 ^ 64" by (simp_all add: three_def Array_inv_def)
  show ?thesis using remove_outcomes [OF h, of 0] by (auto simp: three_def elems_def)
qed

text \<open>
  The range check of Array::remove is done in wrapping arithmetic: removing
  \<open>SIZE_MAX\<close> elements at position 1 passes it, and the call grows the size by one and
  overwrites elements instead of throwing.
\<close>

theorem remove_check_wraps:
  "Array_remove_n 0 three 1 size_max =
    Inr (three\<lparr>e_buf := [10, 10, 10, 0], e_size := 4\<rparr>)"
proof -
  have "add64 1 size_max = 0" "add64 (Suc 0) size_max = 0" "add64 (Suc (Suc 0)) size_max = 1"
    "sub64 3 size_max = 4"
    by (simp_all add: size_max_def add64_def sub64_def)
  then show ?thesis
    by (simp add: Array_remove_n_def three_def upsize_def downsize_def remove_body_def)
qed

end
