(* ===== verification/Array_Sort.thy ===== *)
theory Array_Sort
  imports Array_Buf "HOL-Library.Multiset"
begin

text \<open>
  The sort of lib/datastructures/array.h: \<open>nlognsortCompare\<close>, the in-place merge with a
  queue in a swap space (\<open>nlognsortMerge\<close>), the bottom-up passes (\<open>nlognSort\<close>) and
  \<open>Array::sort\<close>, refined to a functional bottom-up merge sort. The swap space has
  \<open>size div 2\<close> cells and the queue may need as many cells as the left run has elements:
  the merge is modelled with the bounds of the swap space, so that a store behind its end
  is the undefined behaviour it is.
\<close>

section \<open>The comparison\<close>

definition nlognsortCompare :: "ArraySort \<Rightarrow> 'a::linorder \<Rightarrow> 'a \<Rightarrow> int" where
  "nlognsortCompare sortOrder A B =
     (if A = B then 0
      else if A > B then (if sortOrder = ARRAY_SORT_DESCENDING then -1 else 1)
      else (if sortOrder = ARRAY_SORT_DESCENDING then 1 else -1))"

definition before :: "ArraySort \<Rightarrow> 'a::linorder \<Rightarrow> 'a \<Rightarrow> bool" where
  "before sortOrder A B \<longleftrightarrow> nlognsortCompare sortOrder A B \<le> 0"

lemma before_iff:
  "before so x y \<longleftrightarrow> (if so = ARRAY_SORT_DESCENDING then y \<le> x else x \<le> y)"
  by (auto simp: before_def nlognsortCompare_def)

lemma before_trans: "before so x y \<Longrightarrow> before so y z \<Longrightarrow> before so x z"
  by (auto simp: before_iff split: if_splits)

lemma before_total: "\<not> before so x y \<Longrightarrow> before so y x"
  by (auto simp: before_iff split: if_splits)

section \<open>The merge\<close>

text \<open>
  The runs A and B are adjacent pieces of one buffer: A starts at \<open>a\<close> and has \<open>size_a\<close>
  elements, B follows with \<open>size_b\<close>. \<open>swap_space_push - swap_space_pop > 0\<close> is written
  \<open>ms_pop < ms_push\<close>: the queue's read index never passes its write index.
\<close>

record 'a merge_state =
  ms_buf :: "'a list"
  ms_swap :: "'a list"
  ms_push :: nat
  ms_pop :: nat
  ms_j :: nat

definition left_compare :: "nat \<Rightarrow> nat \<Rightarrow> 'a merge_state \<Rightarrow> 'a res" where
  "left_compare a i st =
     (if ms_pop st < ms_push st then readB (ms_swap st) (ms_pop st) else readB (ms_buf st) (a + i))"

definition b_wins ::
  "ArraySort \<Rightarrow> nat \<Rightarrow> nat \<Rightarrow> nat \<Rightarrow> 'a::linorder \<Rightarrow> 'a merge_state \<Rightarrow> bool res" where
  "b_wins so a size_a size_b lc st =
     (if ms_j st < size_b
      then bindR (readB (ms_buf st) (a + size_a + ms_j st)) (\<lambda>bj. Inr (nlognsortCompare so lc bj > 0))
      else Inr False)"

definition merge_body ::
  "ArraySort \<Rightarrow> nat \<Rightarrow> nat \<Rightarrow> nat \<Rightarrow> nat \<Rightarrow> 'a::linorder merge_state \<Rightarrow> 'a merge_state res" where
  "merge_body so a size_a size_b i st =
     bindR (left_compare a i st) (\<lambda>lc.
     bindR (b_wins so a size_a size_b lc st) (\<lambda>wins.
       if wins
       then bindR (readB (ms_buf st) (a + i)) (\<lambda>sw.
            bindR (readB (ms_buf st) (a + size_a + ms_j st)) (\<lambda>bj.
            bindR (writeB (ms_buf st) (a + i) bj) (\<lambda>buf'.
            bindR (writeB (ms_swap st) (ms_push st) sw) (\<lambda>swap'.
              Inr (st\<lparr>ms_buf := buf', ms_swap := swap', ms_push := Suc (ms_push st),
                      ms_j := Suc (ms_j st)\<rparr>)))))
       else if ms_pop st < ms_push st
       then bindR (readB (ms_buf st) (a + i)) (\<lambda>sw.
            bindR (readB (ms_swap st) (ms_pop st)) (\<lambda>x.
            bindR (writeB (ms_buf st) (a + i) x) (\<lambda>buf'.
            bindR (writeB (ms_swap st) (ms_push st) sw) (\<lambda>swap'.
              Inr (st\<lparr>ms_buf := buf', ms_swap := swap', ms_push := Suc (ms_push st),
                      ms_pop := Suc (ms_pop st)\<rparr>)))))
       else Inr st))"

function merge_rest ::
  "ArraySort \<Rightarrow> nat \<Rightarrow> nat \<Rightarrow> nat \<Rightarrow> nat \<Rightarrow> 'a::linorder merge_state \<Rightarrow> 'a merge_state res" where
  "merge_rest so a size_a size_b i st =
     (if ms_pop st < ms_push st
      then bindR (readB (ms_swap st) (ms_pop st)) (\<lambda>lc.
           bindR (b_wins so a size_a size_b lc st) (\<lambda>wins.
             if wins
             then bindR (readB (ms_buf st) (a + size_a + ms_j st)) (\<lambda>bj.
                  bindR (writeB (ms_buf st) (a + i) bj) (\<lambda>buf'.
                    merge_rest so a size_a size_b (Suc i)
                      (st\<lparr>ms_buf := buf', ms_j := Suc (ms_j st)\<rparr>)))
             else bindR (writeB (ms_buf st) (a + i) lc) (\<lambda>buf'.
                    merge_rest so a size_a size_b (Suc i)
                      (st\<lparr>ms_buf := buf', ms_pop := Suc (ms_pop st)\<rparr>))))
      else Inr st)"
  by pat_completeness auto
termination
  by (relation "measure (\<lambda>(so, a, size_a, size_b, i, st).
        (size_b - ms_j st) + (ms_push st - ms_pop st))")
    (auto simp: b_wins_def split: if_splits)

declare merge_rest.simps [simp del]

definition nlognsortMerge ::
  "ArraySort \<Rightarrow> 'a::linorder list \<Rightarrow> nat \<Rightarrow> nat \<Rightarrow> nat \<Rightarrow> 'a list \<Rightarrow> ('a list \<times> 'a list) res" where
  "nlognsortMerge so buf a size_a size_b swap_space =
     bindR (for_from 0 size_a (merge_body so a size_a size_b)
              \<lparr>ms_buf = buf, ms_swap = swap_space, ms_push = 0, ms_pop = 0, ms_j = 0\<rparr>) (\<lambda>st.
     bindR (merge_rest so a size_a size_b size_a st) (\<lambda>st'. Inr (ms_buf st', ms_swap st')))"

section \<open>The passes\<close>

text \<open>
  The inner loop advances by \<open>2 * span\<close>, the outer one doubles \<open>span\<close>. The source starts
  with \<open>span = 1\<close>; with \<open>span = 0\<close> neither loop would make progress, which the guards
  exclude.
\<close>

function merge_pass ::
  "ArraySort \<Rightarrow> nat \<Rightarrow> nat \<Rightarrow> nat \<Rightarrow> 'a::linorder list \<times> 'a list \<Rightarrow> ('a list \<times> 'a list) res" where
  "merge_pass so n span i bs =
     (if i < n \<and> 0 < span
      then bindR (if i + span < n
                  then nlognsortMerge so (fst bs) i span
                         (if i + span + span > n then n - (i + span) else span) (snd bs)
                  else Inr bs)
             (\<lambda>bs'. merge_pass so n span (i + 2 * span) bs')
      else Inr bs)"
  by pat_completeness auto
termination
  by (relation "measure (\<lambda>(so, n, span, i, bs). n - i)") auto

declare merge_pass.simps [simp del]

function merge_spans ::
  "ArraySort \<Rightarrow> nat \<Rightarrow> nat \<Rightarrow> 'a::linorder list \<times> 'a list \<Rightarrow> ('a list \<times> 'a list) res" where
  "merge_spans so n span bs =
     (if span < n \<and> 0 < span
      then bindR (merge_pass so n span 0 bs) (\<lambda>bs'. merge_spans so n (span * 2) bs')
      else Inr bs)"
  by pat_completeness auto
termination
  by (relation "measure (\<lambda>(so, n, span, bs). n - span)") auto

declare merge_spans.simps [simp del]

definition nlognSort :: "'a \<Rightarrow> ArraySort \<Rightarrow> 'a::linorder list \<Rightarrow> nat \<Rightarrow> 'a list res" where
  "nlognSort d so buf n =
     (if n \<le> 1 then Inr buf
      else bindR (merge_spans so n 1 (buf, newCArray d (n div 2))) (\<lambda>bs. Inr (fst bs)))"

definition Array_sort :: "'a \<Rightarrow> 'a::linorder Array \<Rightarrow> ArraySort \<Rightarrow> 'a Array res" where
  "Array_sort d a sortOrder =
     (if sortOrder \<noteq> ARRAY_SORT_UNSORTED \<and> e_sorted a \<noteq> sortOrder
      then bindR (nlognSort d sortOrder (e_buf a) (e_size a))
             (\<lambda>buf. Inr (a\<lparr>e_buf := buf, e_sorted := sortOrder\<rparr>))
      else Inr a)"

section \<open>The functional specification\<close>

fun mrg :: "ArraySort \<Rightarrow> 'a::linorder list \<Rightarrow> 'a list \<Rightarrow> 'a list" where
  "mrg so [] ys = ys"
| "mrg so xs [] = xs"
| "mrg so (x # xs) (y # ys) =
     (if nlognsortCompare so x y > 0 then y # mrg so (x # xs) ys else x # mrg so xs (y # ys))"

lemma mrg_Nil2 [simp]: "mrg so xs [] = xs"
  by (cases xs) auto

lemma mset_mrg [simp]: "mset (mrg so xs ys) = mset xs + mset ys"
  by (induction so xs ys rule: mrg.induct) auto

lemma set_mrg [simp]: "set (mrg so xs ys) = set xs \<union> set ys"
  by (induction so xs ys rule: mrg.induct) auto

lemma length_mrg [simp]: "length (mrg so xs ys) = length xs + length ys"
  by (induction so xs ys rule: mrg.induct) auto

lemma sorted_mrg:
  "sorted_wrt (before so) xs \<Longrightarrow> sorted_wrt (before so) ys \<Longrightarrow> sorted_wrt (before so) (mrg so xs ys)"
proof (induction so xs ys rule: mrg.induct)
  case (3 so x xs y ys)
  show ?case
  proof (cases "nlognsortCompare so x y > 0")
    case True
    then have "before so y x" by (intro before_total) (simp add: before_def)
    with True 3 show ?thesis by (auto intro: before_trans)
  next
    case False
    then have "before so x y" by (simp add: before_def)
    with False 3 show ?thesis by (auto intro: before_trans)
  qed
qed auto

function pass_list :: "ArraySort \<Rightarrow> nat \<Rightarrow> 'a::linorder list \<Rightarrow> 'a list" where
  "pass_list so span xs =
     (if length xs \<le> span \<or> span = 0 then xs
      else mrg so (take span xs) (take span (drop span xs)) @ pass_list so span (drop (2 * span) xs))"
  by pat_completeness auto
termination
  by (relation "measure (\<lambda>(so, span, xs). length xs)") auto

declare pass_list.simps [simp del]

function chunked :: "ArraySort \<Rightarrow> nat \<Rightarrow> 'a::linorder list \<Rightarrow> bool" where
  "chunked so span xs \<longleftrightarrow>
     (if xs = [] \<or> span = 0 then True
      else sorted_wrt (before so) (take span xs) \<and> chunked so span (drop span xs))"
  by pat_completeness auto
termination
  by (relation "measure (\<lambda>(so, span, xs). length xs)") auto

declare chunked.simps [simp del]

lemma mset_pass_list [simp]: "mset (pass_list so span xs) = mset xs"
proof (induction so span xs rule: pass_list.induct)
  case (1 so span xs)
  show ?case
  proof (cases "length xs \<le> span \<or> span = 0")
    case True
    then show ?thesis by (simp add: pass_list.simps [of so span xs])
  next
    case False
    have "mset xs = mset (take span xs) + mset (take span (drop span xs)) + mset (drop (2 * span) xs)"
      by (metis append_take_drop_id drop_drop mset_append mult_2 union_assoc)
    with False 1 show ?thesis by (simp add: pass_list.simps [of so span xs])
  qed
qed

lemma length_pass_list [simp]: "length (pass_list so span xs) = length xs"
  by (metis mset_pass_list size_mset)

lemma chunked_Cons_append:
  assumes "length xs = span" "0 < span"
  shows "chunked so span (xs @ ys) \<longleftrightarrow> sorted_wrt (before so) xs \<and> chunked so span ys"
proof -
  have "xs \<noteq> []" using assms by auto
  with assms show ?thesis by (simp add: chunked.simps [of so span "xs @ ys"])
qed

lemma chunked_single: "sorted_wrt (before so) xs \<Longrightarrow> chunked so span xs"
proof (induction so span xs rule: chunked.induct)
  case (1 so span xs)
  then show ?case by (auto simp: chunked.simps [of so span xs] sorted_wrt_take sorted_wrt_drop)
qed

lemma chunked_short:
  assumes "chunked so span xs" "length xs \<le> span" "0 < span"
  shows "sorted_wrt (before so) xs"
  using assms by (cases "xs = []") (auto simp: chunked.simps [of so span xs])

text \<open>A pass merges the runs in pairs.\<close>

lemma chunked_pass_list:
  "chunked so span xs \<Longrightarrow> 0 < span \<Longrightarrow> chunked so (2 * span) (pass_list so span xs)"
proof (induction so span xs rule: pass_list.induct)
  case (1 so span xs)
  show ?case
  proof (cases "length xs \<le> span")
    case True
    then have "sorted_wrt (before so) xs" using 1 by (blast intro: chunked_short)
    with True show ?thesis by (simp add: pass_list.simps [of so span xs] chunked_single)
  next
    case False
    let ?l = "take span xs" and ?r = "take span (drop span xs)" and ?t = "drop (2 * span) xs"
    have "xs \<noteq> []" "drop span xs \<noteq> []" using False by auto
    with 1 have l: "sorted_wrt (before so) ?l" and c: "chunked so span (drop span xs)"
      by (auto simp: chunked.simps [of so span xs])
    with \<open>drop span xs \<noteq> []\<close> \<open>0 < span\<close> have r: "sorted_wrt (before so) ?r"
      and t: "chunked so span ?t"
      by (auto simp: chunked.simps [of so span "drop span xs"] mult_2)
    have m: "sorted_wrt (before so) (mrg so ?l ?r)" using l r by (rule sorted_mrg)
    have IH: "chunked so (2 * span) (pass_list so span ?t)" using 1 False t by simp
    have eq: "pass_list so span xs = mrg so ?l ?r @ pass_list so span ?t"
      using False 1(3) by (simp add: pass_list.simps [of so span xs])
    show ?thesis
    proof (cases "length xs < 2 * span")
      case True
      then have "?t = []" by simp
      then have "pass_list so span xs = mrg so ?l ?r" by (simp add: eq pass_list.simps)
      with m show ?thesis by (simp add: chunked_single)
    next
      case long: False
      then have "length (mrg so ?l ?r) = 2 * span" by simp
      with m IH 1(3) show ?thesis by (simp add: eq chunked_Cons_append)
    qed
  qed
qed

lemma chunked_one: "chunked so 1 xs"
proof (induction xs)
  case Nil
  then show ?case by (simp add: chunked.simps)
next
  case (Cons x xs)
  then show ?case using chunked_Cons_append [of "[x]" 1 so xs] by simp
qed

section \<open>The merge implements the specification\<close>

lemma readB_mid:
  "length out = i \<Longrightarrow> i \<le> k \<Longrightarrow> k < length X \<Longrightarrow>
    readB (P @ out @ drop i X @ Q) (length P + k) = Inr (X ! k)"
  by (simp add: readB_def nth_append diff_less_mono)

lemma writeB_mid:
  assumes "length out = i" "i < length X"
  shows "writeB (P @ out @ drop i X @ Q) (length P + i) v = Inr (P @ (out @ [v]) @ drop (Suc i) X @ Q)"
proof -
  have "drop i X = X ! i # drop (Suc i) X" using assms by (simp add: Cons_nth_drop_Suc)
  with assms show ?thesis by (simp add: writeB_def list_update_append)
qed

text \<open>
  At position \<open>i\<close> with \<open>j\<close> elements of the right run consumed: the first \<open>i\<close> cells hold
  the merge so far, the rest of the buffer is untouched, and the queue holds the left
  elements that were displaced and not yet placed, in order.
\<close>

definition merge_inv ::
  "ArraySort \<Rightarrow> 'a::linorder list \<Rightarrow> 'a list \<Rightarrow> 'a list \<Rightarrow> 'a list \<Rightarrow> nat \<Rightarrow> nat \<Rightarrow> 'a merge_state \<Rightarrow> bool"
where
  "merge_inv so P L R Q S i st \<longleftrightarrow>
     (\<exists>out. ms_buf st = P @ out @ drop i (L @ R) @ Q \<and> length out = i \<and>
        mrg so L R = out @ mrg so (drop (i - ms_j st) L) (drop (ms_j st) R)) \<and>
     ms_j st \<le> i \<and> i \<le> length L + ms_j st \<and> ms_j st \<le> length R \<and>
     ms_pop st + (min i (length L) + ms_j st - i) = ms_push st \<and>
     ms_push st \<le> min i (length L) \<and> ms_push st \<le> S \<and> length (ms_swap st) = S \<and>
     (\<forall>k < min i (length L) + ms_j st - i. ms_swap st ! (ms_pop st + k) = L ! (i - ms_j st + k))"

lemma merge_inv_b_wins:
  assumes "merge_inv so P L R Q S i st"
  shows "b_wins so (length P) (length L) (length R) lc st =
    Inr (ms_j st < length R \<and> nlognsortCompare so lc (R ! ms_j st) > 0)"
    and "ms_j st < length R \<Longrightarrow>
      readB (ms_buf st) (length P + length L + ms_j st) = Inr (R ! ms_j st)"
proof -
  obtain out where buf: "ms_buf st = P @ out @ drop i (L @ R) @ Q" "length out = i"
    and b: "i \<le> length L + ms_j st"
    using assms by (auto simp: merge_inv_def)
  show rd: "readB (ms_buf st) (length P + length L + ms_j st) = Inr (R ! ms_j st)"
    if "ms_j st < length R"
    using readB_mid [of out i "length L + ms_j st" "L @ R" P Q] that buf b
    by (simp add: add.assoc)
  show "b_wins so (length P) (length L) (length R) lc st =
    Inr (ms_j st < length R \<and> nlognsortCompare so lc (R ! ms_j st) > 0)"
    by (auto simp: b_wins_def rd)
qed

lemma mrg_step:
  assumes "l < length L"
  shows "mrg so (drop l L) (drop j R) =
    (if j < length R \<and> nlognsortCompare so (L ! l) (R ! j) > 0
     then R ! j # mrg so (drop l L) (drop (Suc j) R)
     else L ! l # mrg so (drop (Suc l) L) (drop j R))"
proof (cases "j < length R")
  case True
  with assms show ?thesis by (simp add: Cons_nth_drop_Suc [symmetric])
next
  case False
  with assms show ?thesis by (simp add: Cons_nth_drop_Suc)
qed

lemma merge_inv_queue_read:
  assumes "merge_inv so P L R Q S i st" and "i < length L" and "0 < ms_j st"
  shows "readB (ms_swap st) (ms_pop st) =
    (if ms_pop st < S then Inr (L ! (i - ms_j st)) else Inl Undefined)"
proof -
  have "ms_swap st ! (ms_pop st + 0) = L ! (i - ms_j st + 0)"
    using assms unfolding merge_inv_def by (metis add_diff_cancel_left' less_imp_le min.absorb1)
  with assms show ?thesis by (auto simp: merge_inv_def readB_def)
qed

definition win_state :: "nat \<Rightarrow> nat \<Rightarrow> 'a list \<Rightarrow> 'a list \<Rightarrow> 'a merge_state \<Rightarrow> 'a merge_state" where
  "win_state a i L R st =
     st\<lparr>ms_buf := (ms_buf st)[a + i := R ! ms_j st],
        ms_swap := (ms_swap st)[ms_push st := L ! i], ms_push := Suc (ms_push st),
        ms_j := Suc (ms_j st)\<rparr>"

definition queue_state :: "nat \<Rightarrow> nat \<Rightarrow> 'a list \<Rightarrow> 'a merge_state \<Rightarrow> 'a merge_state" where
  "queue_state a i L st =
     st\<lparr>ms_buf := (ms_buf st)[a + i := L ! (i - ms_j st)],
        ms_swap := (ms_swap st)[ms_push st := L ! i], ms_push := Suc (ms_push st),
        ms_pop := Suc (ms_pop st)\<rparr>"

lemma merge_body_eq:
  assumes inv: "merge_inv so P L R Q S i st" and i: "i < length L"
  shows "merge_body so (length P) (length L) (length R) i st =
    (if ms_j st < length R \<and> nlognsortCompare so (L ! (i - ms_j st)) (R ! ms_j st) > 0
     then if ms_push st < S then Inr (win_state (length P) i L R st) else Inl Undefined
     else if 0 < ms_j st
     then if ms_push st < S then Inr (queue_state (length P) i L st) else Inl Undefined
     else Inr st)"
proof -
  obtain out where buf: "ms_buf st = P @ out @ drop i (L @ R) @ Q" "length out = i"
    using inv by (auto simp: merge_inv_def)
  have b: "ms_pop st + ms_j st = ms_push st" "length (ms_swap st) = S" "ms_j st \<le> i"
    using inv i by (auto simp: merge_inv_def)
  have rdA: "readB (ms_buf st) (length P + i) = Inr (L ! i)"
    using readB_mid [of out i i "L @ R" P Q] i buf by (simp add: nth_append)
  have wrA: "writeB (ms_buf st) (length P + i) v = Inr ((ms_buf st)[length P + i := v])" for v
    using i buf by simp
  note facts = merge_inv_b_wins [OF inv] rdA wrA b
  show ?thesis
  proof (cases "ms_j st = 0")
    case True
    then have "left_compare (length P) i st = Inr (L ! i)"
      using b rdA by (simp add: left_compare_def)
    with True facts show ?thesis
      by (auto simp: merge_body_def win_state_def writeB_def)
  next
    case False
    then have rd: "readB (ms_swap st) (ms_pop st) =
        (if ms_pop st < S then Inr (L ! (i - ms_j st)) else Inl Undefined)"
      using merge_inv_queue_read [OF inv i] by simp
    then have lc: "left_compare (length P) i st =
        (if ms_pop st < S then Inr (L ! (i - ms_j st)) else Inl Undefined)"
      using False b by (simp add: left_compare_def)
    show ?thesis
    proof (cases "ms_pop st < S")
      case True
      with False facts rd lc show ?thesis
        by (auto simp: merge_body_def win_state_def queue_state_def writeB_def)
    next
      case over: False
      with b False lc show ?thesis by (auto simp: merge_body_def)
    qed
  qed
qed

lemma merge_inv_step:
  assumes inv: "merge_inv so P L R Q S i st" and i: "i < length L"
    and body: "merge_body so (length P) (length L) (length R) i st = Inr t"
  shows "merge_inv so P L R Q S (Suc i) t"
proof -
  let ?j = "ms_j st" and ?X = "L @ R"
  obtain out where buf: "ms_buf st = P @ out @ drop i ?X @ Q" and len: "length out = i"
    and m: "mrg so L R = out @ mrg so (drop (i - ?j) L) (drop ?j R)"
    using inv by (auto simp: merge_inv_def)
  have b: "?j \<le> i" "?j \<le> length R" "ms_pop st + ?j = ms_push st" "ms_push st \<le> i"
    "ms_push st \<le> S" "length (ms_swap st) = S"
    and q: "\<forall>k < ?j. ms_swap st ! (ms_pop st + k) = L ! (i - ?j + k)"
    using inv i by (auto simp: merge_inv_def)
  have wrA: "(ms_buf st)[length P + i := v] = P @ (out @ [v]) @ drop (Suc i) ?X @ Q" for v
    using writeB_mid [of out i ?X P Q v] len i buf by (simp add: res_iff)
  have step: "mrg so L R = (if ?j < length R \<and> nlognsortCompare so (L ! (i - ?j)) (R ! ?j) > 0
     then (out @ [R ! ?j]) @ mrg so (drop (i - ?j) L) (drop (Suc ?j) R)
     else (out @ [L ! (i - ?j)]) @ mrg so (drop (Suc i - ?j) L) (drop ?j R))"
    using mrg_step [of "i - ?j" L so ?j R] i b by (simp add: m Suc_diff_le)
  consider (win) "?j < length R \<and> nlognsortCompare so (L ! (i - ?j)) (R ! ?j) > 0"
      "ms_push st < S" "t = win_state (length P) i L R st"
    | (queue) "\<not> (?j < length R \<and> nlognsortCompare so (L ! (i - ?j)) (R ! ?j) > 0)" "0 < ?j"
      "ms_push st < S" "t = queue_state (length P) i L st"
    | (keep) "\<not> (?j < length R \<and> nlognsortCompare so (L ! (i - ?j)) (R ! ?j) > 0)" "?j = 0"
      "t = st"
    using body by (auto simp: merge_body_eq [OF inv i] split: if_splits)
  then show ?thesis
  proof cases
    case win
    have "(ms_swap st)[ms_push st := L ! i] ! (ms_pop st + k) = L ! (i - ?j + k)"
      if "k < Suc ?j" for k
      using that q b win(2) by (cases "k = ?j") (auto simp: nth_list_update)
    moreover have "min (Suc i) (length L) = Suc i" using i by simp
    ultimately show ?thesis
      using win i b step len unfolding merge_inv_def
      by (intro conjI exI [of _ "out @ [R ! ?j]"]) (auto simp: win_state_def wrA)
  next
    case queue
    have "(ms_swap st)[ms_push st := L ! i] ! (Suc (ms_pop st) + k) = L ! (Suc i - ?j + k)"
      if "k < ?j" for k
    proof (cases "Suc k = ?j")
      case True
      with b queue(3) have "Suc (ms_pop st) + k = ms_push st" "Suc i - ?j + k = i" by auto
      with b queue(3) show ?thesis by simp
    next
      case False
      with that b q [rule_format, of "Suc k"] show ?thesis by (simp add: Suc_diff_le)
    qed
    moreover have "min (Suc i) (length L) = Suc i" using i by simp
    ultimately show ?thesis
      using queue i b step len unfolding merge_inv_def
      by (intro conjI exI [of _ "out @ [L ! (i - ?j)]"]) (auto simp: queue_state_def wrA)
  next
    case keep
    have "drop i ?X = L ! i # drop (Suc i) ?X"
      using i by (simp add: Cons_nth_drop_Suc [symmetric] nth_append del: drop_append)
    with keep have "ms_buf st = P @ (out @ [L ! i]) @ drop (Suc i) ?X @ Q" by (simp add: buf)
    moreover have "min (Suc i) (length L) = Suc i" using i by simp
    ultimately show ?thesis
      using keep i b step len unfolding merge_inv_def
      by (intro conjI exI [of _ "out @ [L ! i]"]) auto
  qed
qed

lemma merge_rest_correct:
  assumes "merge_inv so P L R Q S i st" and "length L \<le> i"
  shows "\<exists>t. merge_rest so (length P) (length L) (length R) i st = Inr t \<and>
    ms_buf t = P @ mrg so L R @ Q \<and> length (ms_swap t) = S"
  using assms
proof (induction "(length R - ms_j st) + (ms_push st - ms_pop st)" arbitrary: i st rule: less_induct)
  case less
  let ?j = "ms_j st" and ?X = "L @ R"
  obtain out where buf: "ms_buf st = P @ out @ drop i ?X @ Q" and len: "length out = i"
    and m: "mrg so L R = out @ mrg so (drop (i - ?j) L) (drop ?j R)"
    using less.prems by (auto simp: merge_inv_def)
  have min: "min i (length L) = length L" "min (Suc i) (length L) = length L"
    using less.prems by auto
  have b: "?j \<le> i" "i \<le> length L + ?j" "?j \<le> length R"
    "ms_pop st + (length L + ?j - i) = ms_push st" "ms_push st \<le> S"
    "ms_push st \<le> length L" "length (ms_swap st) = S"
    and q: "\<forall>k < length L + ?j - i. ms_swap st ! (ms_pop st + k) = L ! (i - ?j + k)"
    using less.prems by (auto simp: merge_inv_def min)
  show ?case
  proof (cases "ms_pop st < ms_push st")
    case False
    then have "merge_rest so (length P) (length L) (length R) i st = Inr st"
      by (simp add: merge_rest.simps [of so _ _ _ i st])
    moreover from False b have "i = length L + ?j" by simp
    ultimately show ?thesis using b buf m by simp
  next
    case True
    then have l: "i - ?j < length L" and i: "i < length ?X" using b by auto
    have rd: "readB (ms_swap st) (ms_pop st) = Inr (L ! (i - ?j))"
      using b True q [rule_format, of 0] by simp
    have wrA: "writeB (ms_buf st) (length P + i) v = Inr (P @ (out @ [v]) @ drop (Suc i) ?X @ Q)"
      for v
      using writeB_mid [of out i ?X P Q v] len i buf by simp
    have q': "ms_swap st ! (Suc (ms_pop st) + k) = L ! (Suc i - ?j + k)"
      if "k < length L + ?j - Suc i" for k
      using that b q [rule_format, of "Suc k"] by (simp add: Suc_diff_le)
    note step = mrg_step [OF l, of so ?j R]
    show ?thesis
    proof (cases "?j < length R \<and> nlognsortCompare so (L ! (i - ?j)) (R ! ?j) > 0")
      case win: True
      let ?st = "st\<lparr>ms_buf := P @ (out @ [R ! ?j]) @ drop (Suc i) ?X @ Q, ms_j := Suc ?j\<rparr>"
      have "merge_inv so P L R Q S (Suc i) ?st"
        using win b len step q m unfolding merge_inv_def min
        by (intro conjI exI [of _ "out @ [R ! ?j]"]) auto
      moreover have "merge_rest so (length P) (length L) (length R) i st =
          merge_rest so (length P) (length L) (length R) (Suc i) ?st"
        using True win
        by (simp add: merge_rest.simps [of so _ _ _ i st] rd merge_inv_b_wins [OF less.prems(1)] wrA)
      ultimately show ?thesis using less.hyps [of ?st "Suc i"] win less.prems(2) by auto
    next
      case keep: False
      let ?st = "st\<lparr>ms_buf := P @ (out @ [L ! (i - ?j)]) @ drop (Suc i) ?X @ Q,
        ms_pop := Suc (ms_pop st)\<rparr>"
      have "merge_inv so P L R Q S (Suc i) ?st"
        using keep b len step q' m l True unfolding merge_inv_def min
        by (intro conjI exI [of _ "out @ [L ! (i - ?j)]"]) (auto simp: Suc_diff_le)
      moreover have "merge_rest so (length P) (length L) (length R) i st =
          merge_rest so (length P) (length L) (length R) (Suc i) ?st"
        using True keep
        by (auto simp: merge_rest.simps [of so _ _ _ i st] rd merge_inv_b_wins [OF less.prems(1)] wrA)
      ultimately show ?thesis using less.hyps [of ?st "Suc i"] True less.prems(2) by auto
    qed
  qed
qed

lemma merge_inv_start:
  "merge_inv so P L R Q S 0
    \<lparr>ms_buf = P @ L @ R @ Q, ms_swap = sw, ms_push = 0, ms_pop = 0, ms_j = 0\<rparr>"
  if "length sw = S"
  using that by (auto simp: merge_inv_def)

text \<open>
  Whatever the size of the swap space, a merge that returns has merged; with a swap space
  of at least the left run's size it returns.
\<close>

lemma nlognsortMerge_partial:
  assumes "nlognsortMerge so (P @ L @ R @ Q) (length P) (length L) (length R) sw = Inr bs"
  shows "fst bs = P @ mrg so L R @ Q \<and> length (snd bs) = length sw"
proof -
  let ?st = "\<lparr>ms_buf = P @ L @ R @ Q, ms_swap = sw, ms_push = 0, ms_pop = 0, ms_j = 0\<rparr>"
  let ?I = "merge_inv so P L R Q (length sw)"
  from assms obtain t where t: "for_from 0 (length L)
      (merge_body so (length P) (length L) (length R)) ?st = Inr t"
    and rest: "bindR (merge_rest so (length P) (length L) (length R) (length L) t)
      (\<lambda>st'. Inr (ms_buf st', ms_swap st')) = Inr bs"
    by (auto simp: nlognsortMerge_def res_iff)
  have "?I (0 + length L) t"
    by (rule for_from_partial [OF t]) (auto intro: merge_inv_start merge_inv_step)
  then have "?I (length L) t" by simp
  from merge_rest_correct [OF this order_refl] rest show ?thesis by auto
qed

lemma nlognsortMerge_returns:
  assumes "length L \<le> length sw"
  shows "\<exists>bs. nlognsortMerge so (P @ L @ R @ Q) (length P) (length L) (length R) sw = Inr bs"
proof -
  let ?st = "\<lparr>ms_buf = P @ L @ R @ Q, ms_swap = sw, ms_push = 0, ms_pop = 0, ms_j = 0\<rparr>"
  let ?I = "merge_inv so P L R Q (length sw)"
  have "\<exists>t. for_from 0 (length L) (merge_body so (length P) (length L) (length R)) ?st = Inr t \<and>
      ?I (0 + length L) t"
  proof (rule for_from_rule)
    show "?I 0 ?st" by (simp add: merge_inv_start)
  next
    fix i st assume i: "i < 0 + length L" and inv: "?I i st"
    then have "ms_push st \<le> i" by (auto simp: merge_inv_def)
    with i assms have "ms_push st < length sw" by simp
    with i merge_body_eq [OF inv] obtain t
      where "merge_body so (length P) (length L) (length R) i st = Inr t" by fastforce
    with merge_inv_step [OF inv _ this] i
    show "\<exists>s'. merge_body so (length P) (length L) (length R) i st = Inr s' \<and> ?I (Suc i) s'" by auto
  qed
  then obtain t where t: "for_from 0 (length L)
      (merge_body so (length P) (length L) (length R)) ?st = Inr t" and "?I (length L) t" by auto
  from merge_rest_correct [OF this(2) order_refl] t show ?thesis
    by (auto simp: nlognsortMerge_def)
qed

section \<open>The passes implement the specification\<close>

lemma merge_pass_done: "n \<le> i \<Longrightarrow> merge_pass so n span i bs = Inr bs"
  by (simp add: merge_pass.simps [of so n span i bs])

text \<open>One merge of a pass, on the buffer split at the position reached.\<close>

lemma merge_pass_step:
  assumes "length D = i" "n = i + length X" "span < length X" "0 < span"
  shows "merge_pass so n span i (D @ X @ Q, sw) =
    bindR (nlognsortMerge so
             (D @ take span X @ take span (drop span X) @ (drop (2 * span) X @ Q)) (length D)
             (length (take span X)) (length (take span (drop span X))) sw)
          (merge_pass so n span (i + 2 * span))"
proof -
  have X: "D @ X @ Q = D @ take span X @ take span (drop span X) @ (drop (2 * span) X @ Q)"
    by (metis append_assoc append_take_drop_id drop_drop mult_2)
  have len: "length (take span X) = span"
    "length (take span (drop span X)) = (if i + span + span > n then n - (i + span) else span)"
    using assms by auto
  have "merge_pass so n span i (D @ X @ Q, sw) =
      bindR (nlognsortMerge so (D @ X @ Q) i span
               (if i + span + span > n then n - (i + span) else span) sw)
            (merge_pass so n span (i + 2 * span))"
    by (subst merge_pass.simps) (use assms in \<open>cases X; simp\<close>)
  then show ?thesis by (simp only: X [symmetric] len assms(1))
qed

lemma merge_pass_short:
  assumes "length D = i" "n = i + length X" "length X \<le> span" "0 < span"
  shows "merge_pass so n span i (D @ X @ Q, sw) = Inr (D @ X @ Q, sw)"
  by (subst merge_pass.simps) (use assms in \<open>simp add: merge_pass_done\<close>)

lemma merge_pass_partial:
  assumes "merge_pass so n span i (D @ X @ Q, sw) = Inr bs"
    and "length D = i" "n = i + length X" "0 < span"
  shows "fst bs = D @ pass_list so span X @ Q \<and> length (snd bs) = length sw"
  using assms
proof (induction "length X" arbitrary: X D i sw rule: less_induct)
  case less
  show ?case
  proof (cases "length X \<le> span")
    case True
    with less.prems merge_pass_short [OF less.prems(2,3) True less.prems(4), of so Q sw]
    show ?thesis by (simp add: pass_list.simps [of so span X])
  next
    case False
    let ?L = "take span X" and ?R = "take span (drop span X)" and ?T = "drop (2 * span) X"
    have eq: "pass_list so span X = mrg so ?L ?R @ pass_list so span ?T"
      using False less.prems(4) by (simp add: pass_list.simps [of so span X])
    from less.prems(1) merge_pass_step [OF less.prems(2,3) _ less.prems(4), of so Q sw] False
    obtain b1 where b1: "nlognsortMerge so (D @ ?L @ ?R @ (?T @ Q)) (length D) (length ?L)
        (length ?R) sw = Inr b1" and rest: "merge_pass so n span (i + 2 * span) b1 = Inr bs"
      by (auto simp: res_iff)
    from nlognsortMerge_partial [OF b1]
    have b1': "b1 = ((D @ mrg so ?L ?R) @ ?T @ Q, snd b1)" "length (snd b1) = length sw"
      by (simp_all add: prod_eq_iff)
    show ?thesis
    proof (cases "length X < 2 * span")
      case True
      with less.prems(3) rest have "bs = b1" by (simp add: merge_pass_done)
      moreover have "pass_list so span ?T = []" using True by (simp add: pass_list.simps)
      moreover have "?T = []" using True by simp
      ultimately show ?thesis using nlognsortMerge_partial [OF b1] eq by simp
    next
      case long: False
      have "length ?T < length X" using False less.prems(4) by simp
      moreover have "length (D @ mrg so ?L ?R) = i + 2 * span" "n = (i + 2 * span) + length ?T"
        using long less.prems(2,3) by auto
      ultimately show ?thesis
        using less.hyps [of ?T "i + 2 * span" "D @ mrg so ?L ?R" "snd b1"] rest b1' eq less.prems(4)
        by simp
    qed
  qed
qed

lemma merge_pass_returns:
  assumes "span \<le> length sw" "length D = i" "n = i + length X" "0 < span"
  shows "\<exists>bs. merge_pass so n span i (D @ X @ Q, sw) = Inr bs"
  using assms
proof (induction "length X" arbitrary: X D i sw rule: less_induct)
  case less
  show ?case
  proof (cases "length X \<le> span")
    case True
    with merge_pass_short [OF less.prems(2,3) True less.prems(4)] show ?thesis by blast
  next
    case False
    let ?L = "take span X" and ?R = "take span (drop span X)" and ?T = "drop (2 * span) X"
    have "length ?L \<le> length sw" using less.prems(1) by simp
    from nlognsortMerge_returns [OF this]
    obtain b1 where b1: "nlognsortMerge so (D @ ?L @ ?R @ (?T @ Q)) (length D) (length ?L)
        (length ?R) sw = Inr b1" by blast
    from nlognsortMerge_partial [OF b1]
    have b1': "b1 = ((D @ mrg so ?L ?R) @ ?T @ Q, snd b1)" "length (snd b1) = length sw"
      by (simp_all add: prod_eq_iff)
    have step: "merge_pass so n span i (D @ X @ Q, sw) = merge_pass so n span (i + 2 * span) b1"
      using merge_pass_step [OF less.prems(2,3) _ less.prems(4), of so Q sw] False b1 by simp
    show ?thesis
    proof (cases "length X < 2 * span")
      case True
      with less.prems(3) step show ?thesis by (simp add: merge_pass_done)
    next
      case long: False
      have "length ?T < length X" using False less.prems(4) by simp
      moreover have "length (D @ mrg so ?L ?R) = i + 2 * span" "n = (i + 2 * span) + length ?T"
        using long less.prems(2,3) by auto
      ultimately show ?thesis
        using less.hyps [of ?T "snd b1" "D @ mrg so ?L ?R" "i + 2 * span"] step b1' less.prems(1,4)
        by auto
    qed
  qed
qed

lemma merge_spans_partial:
  assumes "merge_spans so n span (xs @ Q, sw) = Inr bs" "length xs = n" "chunked so span xs"
    "0 < span"
  shows "\<exists>ys. fst bs = ys @ Q \<and> mset ys = mset xs \<and> sorted_wrt (before so) ys"
  using assms
proof (induction "n - span" arbitrary: span xs sw rule: less_induct)
  case less
  show ?case
  proof (cases "span < n")
    case False
    with less.prems show ?thesis
      by (auto simp: merge_spans.simps [of so n span] intro!: exI [of _ xs] chunked_short)
  next
    case True
    from less.prems(1,4) True obtain b1 where p: "merge_pass so n span 0 ([] @ xs @ Q, sw) = Inr b1"
      and rest: "merge_spans so n (span * 2) b1 = Inr bs"
      by (auto simp: merge_spans.simps [of so n span] res_iff)
    from merge_pass_partial [OF p] less.prems
    have b1: "b1 = (pass_list so span xs @ Q, snd b1)" by (simp add: prod_eq_iff)
    have c: "chunked so (span * 2) (pass_list so span xs)"
      using chunked_pass_list [OF less.prems(3,4)] by (simp add: mult.commute)
    have "merge_spans so n (span * 2) (pass_list so span xs @ Q, snd b1) = Inr bs"
      using rest b1 by simp
    from less.hyps [OF _ this _ c] show ?thesis using less.prems True by simp
  qed
qed

lemma merge_spans_returns:
  assumes "n = 2 ^ k" "span = 2 ^ p" "length sw = n div 2" "length xs = n"
  shows "\<exists>bs. merge_spans so n span (xs @ Q, sw) = Inr bs"
  using assms
proof (induction "n - span" arbitrary: span p xs sw rule: less_induct)
  case less
  show ?case
  proof (cases "span < n")
    case False
    then show ?thesis by (simp add: merge_spans.simps [of so n span])
  next
    case True
    with less.prems have "p < k" by simp
    then have "(2::nat) ^ p \<le> 2 ^ (k - 1)" by (intro power_increasing) auto
    moreover have "n div 2 = 2 ^ (k - 1)"
      using less.prems(1) \<open>p < k\<close> by (cases k) auto
    ultimately have "span \<le> length sw" using less.prems by simp
    then obtain b1 where p: "merge_pass so n span 0 ([] @ xs @ Q, sw) = Inr b1"
      using merge_pass_returns [of span sw "[]" 0 n xs so Q] less.prems by auto
    from merge_pass_partial [OF p] less.prems
    have b1: "b1 = (pass_list so span xs @ Q, snd b1)" "length (snd b1) = n div 2"
      by (simp_all add: prod_eq_iff)
    have "merge_spans so n span (xs @ Q, sw) =
        merge_spans so n (span * 2) (pass_list so span xs @ Q, snd b1)"
      by (subst merge_spans.simps) (use True less.prems(2,4) p b1(1) in simp)
    moreover have "n - span * 2 < n - span" using True less.prems(2) by (simp add: diff_less_mono2)
    moreover have "\<exists>bs. merge_spans so n (span * 2) (pass_list so span xs @ Q, snd b1) = Inr bs"
      by (rule less.hyps [of "span * 2" "Suc p"]) (use calculation less.prems b1(2) in auto)
    ultimately show ?thesis by simp
  qed
qed

section \<open>Array::sort\<close>

lemma nlognSort_partial:
  assumes "nlognSort d so (xs @ Q) (length xs) = Inr buf"
  shows "\<exists>ys. buf = ys @ Q \<and> mset ys = mset xs \<and> sorted_wrt (before so) ys"
proof (cases "length xs \<le> 1")
  case True
  then have "sorted_wrt (before so) xs" by (cases xs) auto
  with True assms show ?thesis by (auto simp: nlognSort_def)
next
  case False
  with assms obtain bs where "merge_spans so (length xs) 1 (xs @ Q, newCArray d (length xs div 2)) = Inr bs"
    and "buf = fst bs" by (auto simp: nlognSort_def res_iff)
  with merge_spans_partial [OF this(1) refl chunked_one] show ?thesis by simp
qed

lemma nlognSort_returns:
  "length xs = 2 ^ k \<Longrightarrow> \<exists>buf. nlognSort d so (xs @ Q) (length xs) = Inr buf"
  using merge_spans_returns [of "length xs" k 1 0 "newCArray d (length xs div 2)" xs so Q]
  by (auto simp: nlognSort_def)

lemma Array_split: "Array_inv a \<Longrightarrow> e_buf a = elems a @ drop (e_size a) (e_buf a)"
  by (simp add: elems_def)

lemma Array_sort_partial:
  assumes inv: "Array_inv a" and ret: "Array_sort d a so = Inr a'"
    and so: "so \<noteq> ARRAY_SORT_UNSORTED" "e_sorted a \<noteq> so"
  shows "Array_inv a' \<and> mset (elems a') = mset (elems a) \<and>
    sorted_wrt (before so) (elems a') \<and> e_sorted a' = so"
proof -
  let ?Q = "drop (e_size a) (e_buf a)"
  from ret so obtain buf where "nlognSort d so (e_buf a) (e_size a) = Inr buf"
    and a': "a' = a\<lparr>e_buf := buf, e_sorted := so\<rparr>"
    by (auto simp: Array_sort_def res_iff)
  then have "nlognSort d so (elems a @ ?Q) (length (elems a)) = Inr buf"
    using Array_split [OF inv] inv by simp
  from nlognSort_partial [OF this] obtain ys where ys: "buf = ys @ ?Q" "mset ys = mset (elems a)"
    "sorted_wrt (before so) ys" by blast
  from ys(2) have len: "length ys = e_size a" using inv by (metis length_elems mset_eq_length)
  from ys len inv show ?thesis by (auto simp: a' Array_inv_def elems_def)
qed

lemma Array_sort_returns:
  assumes inv: "Array_inv a" and n: "e_size a = 2 ^ k"
  shows "\<exists>a'. Array_sort d a so = Inr a'"
proof -
  have "length (elems a) = 2 ^ k" using inv n by simp
  from nlognSort_returns [OF this, of d so "drop (e_size a) (e_buf a)"] inv
  show ?thesis by (auto simp: Array_sort_def Array_split [symmetric])
qed

section \<open>Properties\<close>

text \<open>
  C1. Sorting is correct: sorting an array in an order it is not already marked with, when
  the number of elements is a power of two, returns; the result is a permutation of the
  elements, in the requested order, with the sort flag set and the invariant kept.
\<close>

theorem sort_power_of_two:
  assumes "Array_inv a" and "e_size a = 2 ^ k"
    and "so \<noteq> ARRAY_SORT_UNSORTED" and "e_sorted a \<noteq> so"
  shows "\<exists>a'. Array_sort d a so = Inr a' \<and> Array_inv a' \<and> mset (elems a') = mset (elems a) \<and>
    sorted_wrt (\<lambda>x y. if so = ARRAY_SORT_DESCENDING then y \<le> x else x \<le> y) (elems a') \<and>
    e_sorted a' = so"
proof -
  from Array_sort_returns [OF assms(1,2)] obtain a' where ret: "Array_sort d a so = Inr a'" by blast
  have eq: "before so = (\<lambda>x y. if so = ARRAY_SORT_DESCENDING then y \<le> x else x \<le> y)"
    by (simp add: fun_eq_iff before_iff)
  note sorted = Array_sort_partial [OF assms(1) ret assms(3,4), unfolded eq]
  from ret sorted show ?thesis by blast
qed

definition four :: "int Array" where
  "four = \<lparr>e_buf = [30, 10, 40, 20, 0], e_cap = 5, e_size = 4, e_sorted = ARRAY_SORT_UNSORTED\<rparr>"

theorem sort_power_of_two_witness:
  "\<exists>a'. Array_sort 0 four ARRAY_SORT_DESCENDING = Inr a' \<and>
    mset (elems a') = mset [10, 20, 30, 40] \<and> sorted_wrt (\<lambda>x y. y \<le> x) (elems a')"
proof -
  have h: "Array_inv four" "e_size four = 2 ^ 2"
    "e_sorted four \<noteq> ARRAY_SORT_DESCENDING"
    by (simp_all add: four_def Array_inv_def)
  have "mset (elems four) = mset [10, 20, 30, 40]" by (simp add: four_def elems_def)
  with sort_power_of_two [OF h(1,2) _ h(3), of 0] show ?thesis by auto
qed

lemma writeB_Inl: "writeB xs i v = Inl e \<Longrightarrow> e = Undefined"
  by (auto simp: writeB_def split: if_splits)

lemma readB_Inl: "readB xs i = Inl e \<Longrightarrow> e = Undefined"
  by (auto simp: readB_def split: if_splits)

lemma for_from_Inl:
  assumes "for_from i n f s = Inl e" and "\<And>j s e. f j s = Inl e \<Longrightarrow> e = Undefined"
  shows "e = Undefined"
  using assms(1) by (induction n arbitrary: i s) (auto simp: res_iff dest: assms(2))

lemma b_wins_Inl: "b_wins so a m n lc st = Inl e \<Longrightarrow> e = Undefined"
  by (auto simp: b_wins_def res_iff split: if_splits dest: readB_Inl)

lemma merge_body_Inl: "merge_body so a m n i st = Inl e \<Longrightarrow> e = Undefined"
  by (auto simp: merge_body_def left_compare_def res_iff split: if_splits
      dest: readB_Inl writeB_Inl b_wins_Inl)

lemma merge_rest_Inl: "merge_rest so a m n i st = Inl e \<Longrightarrow> e = Undefined"
proof (induction so a m n i st rule: merge_rest.induct)
  case (1 so a m n i st)
  note unfold = merge_rest.simps [of so a m n i st]
  show ?case
  proof (cases "ms_pop st < ms_push st")
    case False
    with "1.prems" show ?thesis by (subst (asm) unfold) simp
  next
    case True
    show ?thesis
    proof (rule ccontr)
      assume e: "e \<noteq> Undefined"
      from "1.prems" True e obtain lc w where lc: "readB (ms_swap st) (ms_pop st) = Inr lc"
        and w: "b_wins so a m n lc st = Inr w"
        by (subst (asm) unfold) (auto simp: res_iff dest: readB_Inl b_wins_Inl)
      show False
      proof (cases w)
        case True
        with "1.prems" \<open>ms_pop st < ms_push st\<close> lc w e "1.IH"(1) [OF _ lc w]
        show False by (subst (asm) unfold) (auto simp: res_iff dest: readB_Inl writeB_Inl)
      next
        case False
        with "1.prems" \<open>ms_pop st < ms_push st\<close> lc w e "1.IH"(2) [OF _ lc w]
        show False by (subst (asm) unfold) (auto simp: res_iff dest: readB_Inl writeB_Inl)
      qed
    qed
  qed
qed

lemma nlognsortMerge_Inl: "nlognsortMerge so buf a m n sw = Inl e \<Longrightarrow> e = Undefined"
  by (auto simp: nlognsortMerge_def res_iff dest: for_from_Inl merge_body_Inl merge_rest_Inl)

lemma merge_pass_Inl: "merge_pass so n span i bs = Inl e \<Longrightarrow> e = Undefined"
proof (induction so n span i bs rule: merge_pass.induct)
  case (1 so n span i bs)
  show ?case
  proof (cases "i < n \<and> 0 < span")
    case False
    with "1.prems" show ?thesis by (subst (asm) merge_pass.simps) auto
  next
    case True
    with "1.prems" show ?thesis
      by (subst (asm) merge_pass.simps)
        (auto simp: res_iff split: if_splits dest: nlognsortMerge_Inl intro: "1.IH" [OF True])
  qed
qed

lemma merge_spans_Inl: "merge_spans so n span bs = Inl e \<Longrightarrow> e = Undefined"
proof (induction so n span bs rule: merge_spans.induct)
  case (1 so n span bs)
  show ?case
  proof (cases "span < n \<and> 0 < span")
    case False
    with "1.prems" show ?thesis by (subst (asm) merge_spans.simps) auto
  next
    case True
    with "1.prems" show ?thesis
      by (subst (asm) merge_spans.simps)
        (auto simp: res_iff dest: merge_pass_Inl intro: "1.IH" [OF True])
  qed
qed

text \<open>
  For any number of elements: whenever the sort returns, its result is a sorted permutation of the
  elements with the invariant kept. Where it does not return, an access was outside the swap space:
  \<open>Undefined\<close> is the only failure the model of the sort has.
\<close>

lemma sort_any_size:
  assumes "Array_inv a" and "so \<noteq> ARRAY_SORT_UNSORTED" and "e_sorted a \<noteq> so"
  shows "case Array_sort d a so of
      Inl e \<Rightarrow> e = Undefined
    | Inr a' \<Rightarrow> Array_inv a' \<and> mset (elems a') = mset (elems a) \<and>
        sorted_wrt (before so) (elems a') \<and> e_sorted a' = so"
proof (cases "Array_sort d a so")
  case (Inl e)
  with assms have "nlognSort d so (e_buf a) (e_size a) = Inl e"
    by (auto simp: Array_sort_def res_iff)
  then have "e = Undefined"
    by (auto simp: nlognSort_def res_iff split: if_splits dest: merge_spans_Inl)
  with Inl show ?thesis by simp
next
  case (Inr a')
  with Array_sort_partial [OF assms(1) Inr assms(2,3)] show ?thesis by simp
qed

lemma sort_three:
  "\<exists>a'. Array_sort 0 (three\<lparr>e_sorted := ARRAY_SORT_UNSORTED\<rparr>) ARRAY_SORT_ASCENDING = Inr a' \<and>
    sorted_wrt (before ARRAY_SORT_ASCENDING) (elems a')"
proof -
  let ?a = "three\<lparr>e_sorted := ARRAY_SORT_UNSORTED\<rparr>"
  have h: "Array_inv ?a" "ARRAY_SORT_ASCENDING \<noteq> ARRAY_SORT_UNSORTED"
    "e_sorted ?a \<noteq> ARRAY_SORT_ASCENDING"
    by (simp_all add: three_def Array_inv_def)
  have "\<exists>a'. Array_sort 0 ?a ARRAY_SORT_ASCENDING = Inr a'"
    by (simp add: three_def Array_sort_def nlognSort_def merge_spans.simps merge_pass.simps
        nlognsortMerge_def merge_body_def left_compare_def b_wins_def nlognsortCompare_def
        newCArray_def merge_rest.simps)
  with sort_any_size [OF h, of 0] show ?thesis by auto
qed

text \<open>
  The swap space is too small: sorting three elements of which the last is the
  smallest writes behind the end of the one-cell swap space (a heap overflow).
\<close>

theorem sort_three_overflows:
  assumes "z < x" and "z < y" and "length buf = 3" and "buf = [x, y, z]"
  shows "Array_sort d \<lparr>e_buf = buf, e_cap = 3, e_size = 3, e_sorted = ARRAY_SORT_UNSORTED\<rparr>
    ARRAY_SORT_ASCENDING = Inl Undefined"
  using assms
  by (auto simp add: Array_sort_def nlognSort_def merge_spans.simps merge_pass.simps
        nlognsortMerge_def merge_body_def left_compare_def b_wins_def nlognsortCompare_def
        newCArray_def merge_rest.simps writeB_def readB_def)

theorem sort_three_overflows_witness:
  "Array_sort 0 \<lparr>e_buf = [2, 3, 1::int], e_cap = 3, e_size = 3,
      e_sorted = ARRAY_SORT_UNSORTED\<rparr> ARRAY_SORT_ASCENDING = Inl Undefined"
  by (rule sort_three_overflows [of 1 2 3]) simp_all

end
