(* ===== verification/Base64.thy ===== *)
theory Base64
  imports Prelude
begin

text \<open>
  The base64 codec of lib/base64.h. Both templates run over a collection of bytes and
  gather groups in a small array: \<open>encode_step\<close> and \<open>decode_step\<close> are the loop bodies, the
  gathered prefix of \<open>char_array_3\<close> (\<open>char_array_4\<close>) is the list \<open>pending\<close>. Bytes are 8-bit
  words; the \<open>int\<close> arithmetic on values below 256 is done on naturals. The encoder keeps
  the length of its input in an \<open>int\<close>: \<open>input_length\<close> is the size modulo \<open>2 ^ 32\<close>, read as a
  signed number. A negative length makes the first index lie behind the end of the input
  (\<open>Undefined\<close>: the collection is a string or a vector); otherwise the loop counts it down
  and reads the last \<open>input_length\<close> bytes, which is the whole input below \<open>2 ^ 31\<close> bytes.
\<close>

section \<open>The codec\<close>

definition base64_chars :: "byte list" where
  "base64_chars =
     bytes ''ABCDEFGHIJKLMNOPQRSTUVWXYZabcdefghijklmnopqrstuvwxyz0123456789+/''"

definition pad_char :: byte where
  "pad_char = of_char CHR ''=''"

fun find_from :: "nat \<Rightarrow> byte list \<Rightarrow> byte \<Rightarrow> nat option" where
  "find_from i [] c = None"
| "find_from i (x # xs) c = (if x = c then Some i else find_from (Suc i) xs c)"

definition chars_find :: "byte \<Rightarrow> nat option" where
  "chars_find c = find_from 0 base64_chars c"

definition split_group :: "nat \<Rightarrow> nat \<Rightarrow> nat \<Rightarrow> nat list" where
  "split_group a b c =
     [drop_bit 2 (a AND 252),
      push_bit 4 (a AND 3) + drop_bit 4 (b AND 240),
      push_bit 2 (b AND 15) + drop_bit 6 (c AND 192),
      c AND 63]"

definition encode_step :: "byte list \<times> byte list \<Rightarrow> byte \<Rightarrow> byte list \<times> byte list" where
  "encode_step st x =
     (case st of (encoded, pending) \<Rightarrow>
        let pending' = pending @ [x]
        in if length pending' = 3
           then (encoded @ map (\<lambda>k. base64_chars ! k)
                   (split_group (unat (pending' ! 0)) (unat (pending' ! 1)) (unat (pending' ! 2))), [])
           else (encoded, pending'))"

definition base64Encode :: "byte list \<Rightarrow> byte list res" where
  "base64Encode input =
     (let input_length = sint (of_nat (length input) :: 32 word)
      in if input_length < 0 then Inl Undefined
         else case foldl encode_step ([], []) (drop (length input - nat input_length) input) of
           (encoded, pending) \<Rightarrow>
             if pending \<noteq> []
             then let i = length pending;
                      a3 = pending @ replicate (3 - i) 0
                  in Inr (encoded
                     @ map (\<lambda>k. base64_chars ! k)
                         (take (i + 1) (split_group (unat (a3 ! 0)) (unat (a3 ! 1)) (unat (a3 ! 2))))
                     @ replicate (3 - i) pad_char)
             else Inr encoded)"

definition join_group :: "nat \<Rightarrow> nat \<Rightarrow> nat \<Rightarrow> nat \<Rightarrow> byte list" where
  "join_group a b c d =
     [of_nat (push_bit 2 a + drop_bit 4 (b AND 48)),
      of_nat (push_bit 4 (b AND 15) + drop_bit 2 (c AND 60)),
      of_nat (push_bit 6 (c AND 3) + d)]"

fun decode_loop :: "byte list \<Rightarrow> byte list \<Rightarrow> nat list \<Rightarrow> byte list \<times> nat list" where
  "decode_loop [] decoded pending = (decoded, pending)"
| "decode_loop (c # cs) decoded pending =
     (if c = pad_char then (decoded, pending)
      else case chars_find c of
          None \<Rightarrow> decode_loop cs decoded pending
        | Some k \<Rightarrow>
            let pending' = pending @ [k]
            in if length pending' = 4
               then decode_loop cs
                      (decoded @ join_group (pending' ! 0) (pending' ! 1) (pending' ! 2) (pending' ! 3)) []
               else decode_loop cs decoded pending')"

definition base64Decode :: "byte list \<Rightarrow> byte list" where
  "base64Decode input =
     (if input = [] then []
      else case decode_loop input [] [] of (decoded, pending) \<Rightarrow>
        if pending \<noteq> []
        then let a4 = pending @ replicate (4 - length pending) 0
             in decoded @ take (length pending - 1) (join_group (a4 ! 0) (a4 ! 1) (a4 ! 2) (a4 ! 3))
        else decoded)"

section \<open>The alphabet\<close>

lemma length_base64_chars: "length base64_chars = 64"
  by (simp add: base64_chars_def)

lemma base64_chars_facts: "distinct (base64_chars) \<and> pad_char \<notin> set base64_chars"
  by code_simp

lemma find_from_nth:
  "distinct xs \<Longrightarrow> k < length xs \<Longrightarrow> find_from i xs (xs ! k) = Some (i + k)"
  by (induction xs arbitrary: i k) (auto simp: nth_Cons split: nat.splits)

lemma find_from_None: "find_from i xs c = None \<longleftrightarrow> c \<notin> set xs"
  by (induction xs arbitrary: i) auto

lemma find_from_bound: "find_from i xs c = Some k \<Longrightarrow> i \<le> k \<and> k < i + length xs"
proof (induction xs arbitrary: i)
  case (Cons x xs)
  then show ?case by (auto split: if_splits dest: Cons.IH [of "Suc i"])
qed simp

lemma chars_find_nth: "k < 64 \<Longrightarrow> chars_find (base64_chars ! k) = Some k"
  using find_from_nth [of base64_chars k 0] base64_chars_facts length_base64_chars
  by (simp add: chars_find_def)

lemma nth_not_pad: "k < 64 \<Longrightarrow> base64_chars ! k \<noteq> pad_char"
  using base64_chars_facts length_base64_chars by (metis nth_mem)

section \<open>Groups\<close>

lemma split_group_div:
  assumes "a < 256" "b < 256" "c < 256"
  shows "split_group a b c =
    [a div 4, a mod 4 * 16 + b div 16, b mod 16 * 4 + c div 64, c mod 64]"
proof -
  have "a div 4 mod 64 = a div 4" "b div 16 mod 16 = b div 16" "c div 64 mod 4 = c div 64"
    using assms by simp_all
  then show ?thesis by (simp add: split_group_def bits_nat, simp add: drop_bit_eq_div)
qed

lemma split_group_less:
  "a < 256 \<Longrightarrow> b < 256 \<Longrightarrow> c < 256 \<Longrightarrow> k \<in> set (split_group a b c) \<Longrightarrow> k < 64"
  by (auto simp: split_group_div)

lemma join_group_div:
  assumes "b < 64" "c < 64"
  shows "join_group a b c d =
    [of_nat (a * 4 + b div 16), of_nat (b mod 16 * 16 + c div 4), of_nat (c mod 4 * 64 + d)]"
proof -
  have "b div 16 mod 4 = b div 16" "c div 4 mod 16 = c div 4" using assms by simp_all
  then show ?thesis by (simp add: join_group_def bits_nat, simp add: drop_bit_eq_div)
qed

lemma join_split:
  fixes x y z :: byte
  shows "join_group (split_group (unat x) (unat y) (unat z) ! 0)
      (split_group (unat x) (unat y) (unat z) ! 1) (split_group (unat x) (unat y) (unat z) ! 2)
      (split_group (unat x) (unat y) (unat z) ! 3) = [x, y, z]"
proof -
  let ?a = "unat x" and ?b = "unat y" and ?c = "unat z"
  have lt: "?a < 256" "?b < 256" "?c < 256" by simp_all
  then have q: "?b div 16 < 16" "?c div 64 < 4"
    by (simp_all add: less_mult_imp_div_less)
  have 1: "(?a mod 4 * 16 + ?b div 16) div 16 = ?a mod 4"
    "(?a mod 4 * 16 + ?b div 16) mod 16 = ?b div 16"
    using q by simp_all
  have 2: "(?b mod 16 * 4 + ?c div 64) div 4 = ?b mod 16"
    "(?b mod 16 * 4 + ?c div 64) mod 4 = ?c div 64"
    using q by simp_all
  have lt64: "?a mod 4 * 16 + ?b div 16 < 64" "?b mod 16 * 4 + ?c div 64 < 64"
    using q mod_less_divisor [of 4 ?a] mod_less_divisor [of 16 ?b] by linarith+
  have nth4: "\<And>p q r s :: nat. [p, q, r, s] ! 0 = p \<and> [p, q, r, s] ! 1 = q \<and>
      [p, q, r, s] ! 2 = r \<and> [p, q, r, s] ! 3 = s"
    by (simp add: numeral_2_eq_2 numeral_3_eq_3)
  show ?thesis
    by (simp only: split_group_div [OF lt] nth4 join_group_div [OF lt64] 1 2 div_mult_mod_eq
        byte_of_unat)
qed

lemma decode_loop_chars:
  assumes "\<forall>k \<in> set ks. k < 64" "length pending + length ks < 4"
  shows "decode_loop (map (\<lambda>k. base64_chars ! k) ks @ cs) decoded pending =
    decode_loop cs decoded (pending @ ks)"
  using assms
  by (induction ks arbitrary: pending) (auto simp: chars_find_nth nth_not_pad)

lemma decode_loop_group:
  assumes "\<forall>k \<in> set [a, b, c, d]. k < 64"
  shows "decode_loop (map (\<lambda>k. base64_chars ! k) [a, b, c, d] @ cs) decoded [] =
    decode_loop cs (decoded @ join_group a b c d) []"
proof -
  have "decode_loop (map (\<lambda>k. base64_chars ! k) [a, b, c] @ base64_chars ! d # cs) decoded [] =
      decode_loop (base64_chars ! d # cs) decoded ([] @ [a, b, c])"
    by (rule decode_loop_chars) (use assms in auto)
  moreover have "decode_loop (base64_chars ! d # cs) decoded [a, b, c] =
      decode_loop cs (decoded @ join_group a b c d) []"
    using nth_not_pad [of d] chars_find_nth [of d] assms
    by (simp add: numeral_2_eq_2 numeral_3_eq_3)
  ultimately show ?thesis by (simp only: list.map append.simps)
qed

section \<open>Whole inputs\<close>

text \<open>The encoder, group by group.\<close>

fun encode_groups :: "byte list \<Rightarrow> byte list" where
  "encode_groups (x # y # z # rest) =
     map (\<lambda>k. base64_chars ! k) (split_group (unat x) (unat y) (unat z)) @ encode_groups rest"
| "encode_groups [x, y] =
     map (\<lambda>k. base64_chars ! k) (take 3 (split_group (unat x) (unat y) 0)) @ [pad_char]"
| "encode_groups [x] =
     map (\<lambda>k. base64_chars ! k) (take 2 (split_group (unat x) 0 0)) @ [pad_char, pad_char]"
| "encode_groups [] = []"

definition encode_finish :: "byte list \<times> byte list \<Rightarrow> byte list" where
  "encode_finish st = (case st of (encoded, pending) \<Rightarrow> encoded @ encode_groups pending)"

lemma foldl_encode_step:
  "encode_finish (foldl encode_step (encoded, []) input) = encoded @ encode_groups input \<and>
   length (snd (foldl encode_step (encoded, []) input)) < 3"
proof (induction input arbitrary: encoded rule: encode_groups.induct)
  case (1 x y z rest)
  then show ?case by (simp add: encode_step_def Let_def eval_nat_numeral)
qed (simp_all add: encode_step_def Let_def encode_finish_def)

lemma sint_of_size:
  "sint (of_nat n :: 32 word) =
     (if n mod 2 ^ 32 < 2 ^ 31 then int (n mod 2 ^ 32) else int (n mod 2 ^ 32) - 2 ^ 32)"
proof -
  define m where "m = n mod 4294967296"
  have m: "m < 4294967296" by (simp add: m_def)
  have "sint (of_nat n :: 32 word) = (int n + 2147483648) mod 4294967296 - 2147483648"
    using int_word_sint [of "int n", where 'a = 32] by simp
  also have "(int n + 2147483648) mod 4294967296 = (int m + 2147483648) mod 4294967296"
    by (simp add: m_def of_nat_mod mod_add_left_eq)
  also have "\<dots> = (if m < 2147483648 then int m + 2147483648 else int m - 2147483648)"
    using m by (simp add: mod_pos_geq)
  finally show ?thesis using m by (simp add: m_def [symmetric])
qed

lemma encode_rest:
  assumes "length pending < 3" and "pending \<noteq> []"
  shows "map (\<lambda>k. base64_chars ! k)
      (take (length pending + 1)
        (split_group (unat ((pending @ replicate (3 - length pending) 0) ! 0))
          (unat ((pending @ replicate (3 - length pending) 0) ! 1))
          (unat ((pending @ replicate (3 - length pending) 0) ! 2)))) @
      replicate (3 - length pending) pad_char = encode_groups pending"
proof -
  have "(\<exists>x. pending = [x]) \<or> (\<exists>x y. pending = [x, y])"
    using assms by (cases pending; cases "tl pending"; cases "tl (tl pending)") auto
  then show ?thesis by (auto simp: eval_nat_numeral split_group_def)
qed

lemma base64Encode_groups:
  "base64Encode input =
     (if length input mod 2 ^ 32 < 2 ^ 31
      then Inr (encode_groups (drop (length input - length input mod 2 ^ 32) input))
      else Inl Undefined)"
proof (cases "length input mod 2 ^ 32 < 2 ^ 31")
  case True
  then have size: "sint (of_nat (length input) :: 32 word) = int (length input mod 2 ^ 32)"
    by (simp only: sint_of_size if_True)
  let ?used = "drop (length input - length input mod 2 ^ 32) input"
  obtain e p where st: "foldl encode_step ([], []) ?used = (e, p)" by fastforce
  with foldl_encode_step [of "[]" ?used]
  have groups: "encode_groups ?used = e @ encode_groups p" and p: "length p < 3"
    by (auto simp: encode_finish_def)
  show ?thesis
    using True encode_rest [OF p]
    by (simp only: base64Encode_def Let_def size nat_int st groups if_True prod.case
        of_nat_less_0_iff if_False encode_groups.simps append_Nil2 split: if_split) simp
next
  case False
  then have "sint (of_nat (length input) :: 32 word) = int (length input mod 2 ^ 32) - 2 ^ 32"
    by (simp only: sint_of_size if_False)
  moreover have "length input mod 4294967296 < 4294967296" by simp
  ultimately have "sint (of_nat (length input) :: 32 word) < 0" by simp
  with False show ?thesis by (simp only: base64Encode_def Let_def if_True if_False)
qed

lemma decode_encode_groups:
  "(let (d, p) = decode_loop (encode_groups input) decoded [];
        a4 = p @ replicate (4 - length p) 0
    in if p \<noteq> [] then d @ take (length p - 1) (join_group (a4 ! 0) (a4 ! 1) (a4 ! 2) (a4 ! 3)) else d)
   = decoded @ input"
proof (induction input arbitrary: decoded rule: encode_groups.induct)
  case (1 x y z rest)
  let ?g = "split_group (unat x) (unat y) (unat z)"
  have g: "[?g ! 0, ?g ! 1, ?g ! 2, ?g ! 3] = ?g"
    by (simp add: split_group_def eval_nat_numeral)
  have "\<forall>k \<in> set ?g. k < 64" using split_group_less [of "unat x" "unat y" "unat z"] by simp
  then have "decode_loop (map (\<lambda>k. base64_chars ! k) ?g @ encode_groups rest) decoded [] =
      decode_loop (encode_groups rest) (decoded @ [x, y, z]) []"
    using decode_loop_group [of "?g ! 0" "?g ! 1" "?g ! 2" "?g ! 3" "encode_groups rest" decoded]
    by (simp only: g join_split)
  then show ?case using 1 [of "decoded @ [x, y, z]"] by simp
next
  case (2 x y)
  let ?g = "split_group (unat x) (unat y) 0"
  have "\<forall>k \<in> set (take 3 ?g). k < 64"
    using split_group_less [of "unat x" "unat y" 0] by (auto dest: in_set_takeD)
  moreover have "length (take 3 ?g) = 3" by (simp add: split_group_def)
  ultimately have "decode_loop (encode_groups [x, y]) decoded [] = (decoded, take 3 ?g)"
    using decode_loop_chars [of "take 3 ?g" "[]" "[pad_char]" decoded] by simp
  moreover have "take 3 ?g @ [0] = ?g" by (simp add: split_group_def eval_nat_numeral)
  ultimately show ?case
    using join_split [of x y 0] \<open>length (take 3 ?g) = 3\<close>
    by (auto simp: Let_def eval_nat_numeral split_group_def)
next
  case (3 x)
  let ?g = "split_group (unat x) 0 0"
  have "\<forall>k \<in> set (take 2 ?g). k < 64"
    using split_group_less [of "unat x" 0 0] by (auto dest: in_set_takeD)
  moreover have "length (take 2 ?g) = 2" by (simp add: split_group_def)
  ultimately have "decode_loop (encode_groups [x]) decoded [] = (decoded, take 2 ?g)"
    using decode_loop_chars [of "take 2 ?g" "[]" "[pad_char, pad_char]" decoded] by simp
  then show ?case
    using join_split [of x 0 0] \<open>length (take 2 ?g) = 2\<close>
    by (auto simp: Let_def eval_nat_numeral split_group_def)
next
  case 4
  then show ?case by simp
qed

lemma encode_groups_alphabet:
  "set (encode_groups input) \<subseteq> insert pad_char (set base64_chars)"
proof (induction input rule: encode_groups.induct)
  case (1 x y z rest)
  have "\<forall>k \<in> set (split_group (unat x) (unat y) (unat z)). base64_chars ! k \<in> set base64_chars"
    using split_group_less [of "unat x" "unat y" "unat z"] length_base64_chars by auto
  with 1 show ?case by auto
next
  case (2 x y)
  have "\<forall>k \<in> set (take 3 (split_group (unat x) (unat y) 0)). base64_chars ! k \<in> set base64_chars"
    using split_group_less [of "unat x" "unat y" 0] length_base64_chars
    by (auto dest!: in_set_takeD)
  then show ?case by auto
next
  case (3 x)
  have "\<forall>k \<in> set (take 2 (split_group (unat x) 0 0)). base64_chars ! k \<in> set base64_chars"
    using split_group_less [of "unat x" 0 0] length_base64_chars
    by (auto dest!: in_set_takeD)
  then show ?case by auto
qed simp

lemma length_encode_groups: "length (encode_groups input) = 4 * ((length input + 2) div 3)"
proof (induction input rule: encode_groups.induct)
  case (1 x y z rest)
  have "(length (x # y # z # rest) + 2) div 3 = Suc ((length rest + 2) div 3)"
    by (simp add: div_if)
  with 1 show ?case by (simp add: split_group_def)
qed (simp_all add: split_group_def)

text \<open>Characters outside the alphabet are skipped.\<close>

lemma decode_loop_skip:
  assumes "c \<noteq> pad_char" "c \<notin> set base64_chars"
  shows "decode_loop (xs @ c # ys) decoded pending = decode_loop (xs @ ys) decoded pending"
proof -
  have "chars_find c = None" using assms(2) by (simp add: chars_find_def find_from_None)
  then show ?thesis using assms(1)
    by (induction xs arbitrary: decoded pending) (simp_all add: Let_def split: option.splits)
qed

section \<open>Properties\<close>

text \<open>
  C6. The encoder works on the length of its input modulo \<open>2 ^ 32\<close>, the \<open>int\<close> it is kept in.
  Where that is below \<open>2 ^ 31\<close>, it returns a text with four characters for every started
  group of three bytes, all of them from the alphabet or padding, and decoding the text
  gives the last that many bytes back; for every input shorter than \<open>2 ^ 31\<close> bytes this is
  the input itself. Otherwise the first access lies outside the input.
\<close>

theorem base64_roundtrip:
  "let n = length input mod 2 ^ 32
   in if n < 2 ^ 31
      then \<exists>encoded. base64Encode input = Inr encoded \<and>
             base64Decode encoded = drop (length input - n) input \<and>
             length encoded = 4 * ((n + 2) div 3) \<and>
             set encoded \<subseteq> insert pad_char (set base64_chars)
      else base64Encode input = Inl Undefined"
proof -
  have decoded: "base64Decode (encode_groups xs) = xs" for xs
  proof (cases "encode_groups xs = []")
    case True
    then have "4 * ((length xs + 2) div 3) = 0" using length_encode_groups [of xs] by simp
    then have "xs = []" by (cases xs) auto
    then show ?thesis by (simp add: base64Decode_def)
  next
    case False
    obtain d p where "decode_loop (encode_groups xs) [] [] = (d, p)" by fastforce
    then show ?thesis using decode_encode_groups [of xs "[]"] False
      by (cases "p = []") (simp_all add: base64Decode_def Let_def)
  qed
  have "length (drop (length input - length input mod 2 ^ 32) input) = length input mod 2 ^ 32"
    by simp
  then show ?thesis
    unfolding base64Encode_groups Let_def
    using decoded encode_groups_alphabet length_encode_groups by simp
qed

text \<open>
  Decoding ignores what is not part of the alphabet: a line break or any other foreign
  character anywhere in the text does not change the result.
\<close>

theorem base64_decode_ignores:
  assumes "c \<noteq> pad_char" and "c \<notin> set base64_chars" and "xs @ ys \<noteq> []"
  shows "base64Decode (xs @ c # ys) = base64Decode (xs @ ys)"
  using assms by (simp add: base64Decode_def decode_loop_skip)

theorem base64_decode_ignores_witness:
  "base64Decode (bytes ''QU'' @ 10 # bytes ''JD'') = base64Decode (bytes ''QU'' @ bytes ''JD'')"
proof (rule base64_decode_ignores)
  show "(10 :: byte) \<noteq> pad_char" by (simp add: pad_char_def)
  show "(10 :: byte) \<notin> set base64_chars" by code_simp
qed simp

end
