(* ===== verification/Ring_Index.thy ===== *)
theory Ring_Index
  imports Prelude
begin

text \<open>
  The ring index of lib/ringindex.h: a push and a pop position over slots
  \<open>0 .. cap\<close> (the comparison is \<open>> cap\<close>, so there are \<open>cap + 1\<close> slots). Both positions
  start at \<open>(size_t) -1\<close>. The abstract view of a state whose positions are slots is the
  number of elements between them; \<open>ring_step\<close> is the relation of one call.
\<close>

record SArray =
  ra_push :: nat
  ra_pop :: nat
  ra_cap :: nat

definition sArrayInit :: "nat \<Rightarrow> SArray" where
  "sArrayInit cap = \<lparr>ra_push = size_max, ra_pop = size_max, ra_cap = cap\<rparr>"

definition sArrayAdd :: "SArray \<Rightarrow> nat \<times> SArray" where
  "sArrayAdd b =
     (let p = add64 (ra_push b) 1;
          b1 = b\<lparr>ra_push := (if ra_cap b < p then 0 else p)\<rparr>
      in if ra_push b1 = ra_pop b1
         then (1, b1\<lparr>ra_pop := add64 (ra_pop b1) 1\<rparr>)
         else (0, b1))"

definition sArrayRemove :: "SArray \<Rightarrow> SArray" where
  "sArrayRemove b =
     (if ra_push b \<noteq> ra_pop b
      then let p = add64 (ra_pop b) 1
           in b\<lparr>ra_pop := (if ra_cap b < p then 0 else p)\<rparr>
      else b)"

definition sArraySize :: "SArray \<Rightarrow> nat" where
  "sArraySize b =
     (if ra_push b < ra_pop b
      then add64 (add64 (ra_push b) (sub64 (ra_cap b) (ra_pop b))) 1
      else if ra_pop b < ra_push b then sub64 (ra_push b) (ra_pop b)
      else 0)"

section \<open>The slots in use\<close>

text \<open>
  \<open>ring_ok\<close>: both positions are slots. The elements held are those of the slots after
  \<open>pop\<close> up to \<open>push\<close>, going around: \<open>held\<close> lists them, oldest first.
\<close>

definition ring_ok :: "SArray \<Rightarrow> bool" where
  "ring_ok b \<longleftrightarrow> ra_push b \<le> ra_cap b \<and> ra_pop b \<le> ra_cap b \<and> ra_cap b < 2 ^ 63"

definition held :: "SArray \<Rightarrow> nat list" where
  "held b =
     (if ra_pop b \<le> ra_push b then [Suc (ra_pop b)..<Suc (ra_push b)]
      else [Suc (ra_pop b)..<Suc (ra_cap b)] @ [0..<Suc (ra_push b)])"

definition next_slot :: "SArray \<Rightarrow> nat" where
  "next_slot b = (if ra_push b = ra_cap b then 0 else Suc (ra_push b))"

lemma sArraySize_held: "ring_ok b \<Longrightarrow> sArraySize b = length (held b)"
  by (auto simp: ring_ok_def sArraySize_def held_def)

lemma sArrayRemove_held:
  "ring_ok b \<Longrightarrow> ring_ok (sArrayRemove b) \<and> held (sArrayRemove b) = tl (held b)"
  by (auto simp: ring_ok_def sArrayRemove_def held_def Let_def upt_rec [of "Suc 0"]
      simp del: upt_Suc)

lemma sArrayAdd_room:
  assumes "ring_ok b" "next_slot b \<noteq> ra_pop b"
  shows "fst (sArrayAdd b) = 0 \<and> ring_ok (snd (sArrayAdd b)) \<and>
    held (snd (sArrayAdd b)) = held b @ [next_slot b]"
proof -
  have "Suc (ra_push b) \<le> ra_cap b" if "ra_push b \<noteq> ra_cap b" using assms that by (simp add: ring_ok_def)
  with assms show ?thesis
    by (cases "ra_push b = ra_cap b")
      (auto simp: ring_ok_def sArrayAdd_def held_def next_slot_def Let_def)
qed

lemma sArrayAdd_full:
  assumes "ring_ok b" "next_slot b = ra_pop b" "ra_pop b < ra_cap b"
  shows "fst (sArrayAdd b) = 1 \<and> ring_ok (snd (sArrayAdd b)) \<and>
    held (snd (sArrayAdd b)) = tl (held b @ [next_slot b])"
proof (cases "ra_push b = ra_cap b")
  case True
  with assms show ?thesis
    by (auto simp: ring_ok_def sArrayAdd_def held_def next_slot_def Let_def upt_conv_Cons
        simp del: upt_Suc)
next
  case False
  with assms have p: "ra_pop b = Suc (ra_push b)" by (simp add: next_slot_def)
  then have "[0..<Suc (ra_pop b)] = [0..<Suc (ra_push b)] @ [ra_pop b]" by simp
  with p assms show ?thesis
    by (auto simp: ring_ok_def sArrayAdd_def held_def next_slot_def Let_def upt_conv_Cons [of "ra_push b + 2"]
        upt_conv_Cons [of "Suc (Suc (ra_push b))"] simp del: upt_Suc)
qed

lemma length_held_full: "ring_ok b \<Longrightarrow> length (held b) = ra_cap b \<longleftrightarrow> next_slot b = ra_pop b"
  by (auto simp: ring_ok_def held_def next_slot_def)

section \<open>Properties\<close>

text \<open>
  C36. On a ring whose positions are slots the operations are those of a bounded queue:
  the size is the number of elements held, adding with room appends the next slot, adding
  to a full ring whose oldest element is not in the last slot drops that element and
  reports it, and removing drops the oldest element, if there is one.
\<close>

theorem ring_is_queue:
  assumes "ring_ok b"
  shows "sArraySize b = length (held b) \<and>
    ring_ok (sArrayRemove b) \<and> held (sArrayRemove b) = tl (held b) \<and>
    (length (held b) < ra_cap b \<longrightarrow> fst (sArrayAdd b) = 0 \<and> ring_ok (snd (sArrayAdd b)) \<and>
      held (snd (sArrayAdd b)) = held b @ [next_slot b]) \<and>
    (length (held b) = ra_cap b \<and> ra_pop b < ra_cap b \<longrightarrow>
      fst (sArrayAdd b) = 1 \<and> ring_ok (snd (sArrayAdd b)) \<and>
      held (snd (sArrayAdd b)) = tl (held b @ [next_slot b]))"
  using sArraySize_held [OF assms] sArrayRemove_held [OF assms] length_held_full [OF assms]
    sArrayAdd_room [OF assms] sArrayAdd_full [OF assms]
  by force

theorem ring_is_queue_witness:
  "(let b = \<lparr>ra_push = 1, ra_pop = 2, ra_cap = 3\<rparr> in
     sArraySize b = 3 \<and> held (sArrayRemove b) = [0, 1] \<and>
     held (snd (sArrayAdd b)) = [0, 1, 2])"
proof -
  let ?b = "\<lparr>ra_push = 1, ra_pop = 2, ra_cap = 3\<rparr>"
  have r: "ring_ok ?b" by (simp add: ring_ok_def)
  have h: "held ?b = [3, 0, 1]" by code_simp
  show ?thesis
    using ring_is_queue [OF r] unfolding h by (simp add: next_slot_def)
qed

text \<open>
  The states the code starts from are not of this kind: after initialisation, one
  element added makes the size \<open>cap + 2\<close> (the comment of the code says 1). A full ring
  whose oldest element is in the last slot reports the dropped element but moves \<open>pop\<close>
  behind the slots, and the addition after that makes the size 0.
\<close>

theorem ring_start_and_wrap:
  "(cap < 2 ^ 63 \<longrightarrow> sArraySize (snd (sArrayAdd (sArrayInit cap))) = cap + 2) \<and>
   (0 < cap \<and> cap < 2 ^ 63 \<longrightarrow>
     (let b = \<lparr>ra_push = cap - 1, ra_pop = cap, ra_cap = cap\<rparr>;
          b1 = snd (sArrayAdd b); b2 = snd (sArrayAdd b1) in
        sArraySize b = cap \<and> fst (sArrayAdd b) = 1 \<and> sArraySize b1 = cap \<and>
        fst (sArrayAdd b1) = 0 \<and> sArraySize b2 = 0))"
proof -
  have "(cap + 18446744073709551615) mod 18446744073709551616 = cap - 1"
    if "0 < cap" "cap < 9223372036854775808"
    using that by (simp add: mod_if)
  then show ?thesis
    by (auto simp: sArrayInit_def sArrayAdd_def sArraySize_def size_max_def add64_def sub64_def Let_def)
qed

theorem ring_start_and_wrap_witness:
  "sArraySize (snd (sArrayAdd (sArrayInit 4))) = 6 \<and>
   sArraySize (snd (sArrayAdd (snd (sArrayAdd \<lparr>ra_push = 3, ra_pop = 4, ra_cap = 4\<rparr>)))) = 0"
  using ring_start_and_wrap [of 4] by (simp add: Let_def)

end
