(* ===== verification/C_Array.thy ===== *)
theory C_Array
  imports Prelude
begin

text \<open>
  The C array of lib/c/array.c: a buffer of bytes, with the number of elements, the
  capacity in elements and the size of an element. \<open>malloc\<close> is a parameter: given a size it
  returns a buffer of that many (indeterminate) bytes or nothing, for \<open>NULL\<close>. Copies
  (\<open>memcpy\<close>) that leave one of the buffers are undefined. An operation returns its result code
  together with the array, which it may have changed in the error case too.

  \<open>contents\<close> are the bytes of the elements the array says it holds.
\<close>

section \<open>Data\<close>

datatype operation_result =
    OPERATION_SUCCESS
  | OPERATION_ERROR
  | MEMORY_OPERATION_ERROR
  | IO_OPERATION_ERROR

record c_array =
  ca_buf :: "byte list"
  ca_size :: nat
  ca_cap :: nat
  ca_el :: nat

type_synonym malloc = "nat \<Rightarrow> byte list option"

text \<open>\<open>memcpy (dst + d) (src + s) n\<close>\<close>

definition memcpy :: "byte list \<Rightarrow> nat \<Rightarrow> byte list \<Rightarrow> nat \<Rightarrow> nat \<Rightarrow> byte list res" where
  "memcpy dst d src s n =
     (if d + n \<le> length dst \<and> s + n \<le> length src
      then Inr (take d dst @ take n (drop s src) @ drop (d + n) dst)
      else Inl Undefined)"

section \<open>Operations\<close>

definition alloc_new_buffer :: "malloc \<Rightarrow> nat \<Rightarrow> nat \<Rightarrow> byte list option" where
  "alloc_new_buffer mall initial_cap size_of_el = mall (mul64 initial_cap size_of_el)"

definition alloc_new_buffer_for_array :: "malloc \<Rightarrow> c_array \<Rightarrow> byte list option" where
  "alloc_new_buffer_for_array mall arr = alloc_new_buffer mall (ca_cap arr) (ca_el arr)"

definition resize_buf :: "c_array \<Rightarrow> nat \<Rightarrow> bool \<times> c_array" where
  "resize_buf arr num_els =
     (if ca_cap arr < add64 num_els (ca_size arr)
      then (True, arr\<lparr>ca_cap := 7 * add64 num_els (ca_size arr) div 4\<rparr>)
      else (False, arr))"

definition array_initialize :: "byte list \<Rightarrow> nat \<Rightarrow> nat \<Rightarrow> c_array" where
  "array_initialize buf initial_cap size_of_el =
     \<lparr>ca_buf = buf, ca_size = 0, ca_cap = initial_cap, ca_el = size_of_el\<rparr>"

text \<open>
  The constructor does not look at the result of \<open>malloc\<close>: without memory the array has a
  null buffer, here one without bytes.
\<close>

definition array_constructor :: "malloc \<Rightarrow> nat \<Rightarrow> nat \<Rightarrow> c_array" where
  "array_constructor mall initial_cap size_of_el =
     array_initialize (case alloc_new_buffer mall initial_cap size_of_el of None \<Rightarrow> [] | Some b \<Rightarrow> b)
       initial_cap size_of_el"

definition array_append ::
  "malloc \<Rightarrow> c_array \<Rightarrow> byte list \<Rightarrow> nat \<Rightarrow> (operation_result \<times> c_array) res" where
  "array_append mall arr els num_els =
     (let total_size = mul64 (ca_size arr) (ca_el arr);
          (resized, arr1) = resize_buf arr num_els;
          total_size_new_els = mul64 num_els (ca_el arr1);
          finish = (\<lambda>arr2. bindR (memcpy (ca_buf arr2) total_size els 0 total_size_new_els)
            (\<lambda>buf. Inr (OPERATION_SUCCESS,
               arr2\<lparr>ca_buf := buf, ca_size := add64 (ca_size arr2) num_els\<rparr>)))
      in if resized
         then case alloc_new_buffer_for_array mall arr1 of
             None \<Rightarrow> Inr (MEMORY_OPERATION_ERROR, arr1)
           | Some new_buf \<Rightarrow> bindR (memcpy new_buf 0 (ca_buf arr1) 0 total_size)
               (\<lambda>new_buf'. finish (arr1\<lparr>ca_buf := new_buf'\<rparr>))
         else finish arr1)"

definition array_insert ::
  "malloc \<Rightarrow> c_array \<Rightarrow> nat \<Rightarrow> byte list \<Rightarrow> nat \<Rightarrow> (operation_result \<times> c_array) res" where
  "array_insert mall arr pos els num_els =
     (if ca_size arr < pos then Inr (OPERATION_ERROR, arr)
      else let arr1 = snd (resize_buf arr num_els) in
        case alloc_new_buffer_for_array mall arr1 of
          None \<Rightarrow> Inr (MEMORY_OPERATION_ERROR, arr1)
        | Some new_buf \<Rightarrow>
            let up_to_pos = mul64 pos (ca_el arr1);
                new_els = mul64 num_els (ca_el arr1);
                after_pos = mul64 (sub64 (ca_size arr1) pos) (ca_el arr1)
            in bindR (memcpy new_buf 0 (ca_buf arr1) 0 up_to_pos) (\<lambda>b1.
               bindR (memcpy b1 up_to_pos els 0 new_els) (\<lambda>b2.
               bindR (memcpy b2 (up_to_pos + new_els) (ca_buf arr1) up_to_pos after_pos) (\<lambda>b3.
               Inr (OPERATION_SUCCESS, arr1\<lparr>ca_buf := b3\<rparr>)))))"

definition array_remove ::
  "malloc \<Rightarrow> c_array \<Rightarrow> nat \<Rightarrow> nat \<Rightarrow> (operation_result \<times> c_array) res" where
  "array_remove mall arr pos num_els =
     (if ca_size arr < pos then Inr (OPERATION_ERROR, arr)
      else case alloc_new_buffer_for_array mall arr of
          None \<Rightarrow> Inr (MEMORY_OPERATION_ERROR, arr)
        | Some new_buf \<Rightarrow>
            let up_to_pos = mul64 pos (ca_el arr);
                to_remove = mul64 num_els (ca_el arr);
                after_removed = mul64 (sub64 (sub64 (ca_size arr) pos) num_els) (ca_el arr)
            in bindR (memcpy new_buf 0 (ca_buf arr) 0 up_to_pos) (\<lambda>b1.
               bindR (memcpy b1 up_to_pos (ca_buf arr) (up_to_pos + to_remove) after_removed) (\<lambda>b2.
               Inr (OPERATION_SUCCESS, arr\<lparr>ca_buf := b2\<rparr>))))"

definition array_num_elements :: "c_array \<Rightarrow> nat res" where
  "array_num_elements arr =
     (if ca_el arr = 0 then Inl Undefined else Inr (ca_size arr div ca_el arr))"

section \<open>Invariant and contents\<close>

definition ca_inv :: "c_array \<Rightarrow> bool" where
  "ca_inv arr \<longleftrightarrow> 0 < ca_el arr \<and> length (ca_buf arr) = ca_cap arr * ca_el arr \<and>
     ca_size arr \<le> ca_cap arr"

definition contents :: "c_array \<Rightarrow> byte list" where
  "contents arr = take (ca_size arr * ca_el arr) (ca_buf arr)"

text \<open>\<open>malloc\<close> as documented: what it returns has the size asked for.\<close>

definition malloc_ok :: "malloc \<Rightarrow> bool" where
  "malloc_ok mall \<longleftrightarrow> (\<forall>n b. mall n = Some b \<longrightarrow> length b = n)"

lemma ca_inv_grown:
  "0 < ca_el arr \<Longrightarrow> length b = c * ca_el arr \<Longrightarrow> ca_size arr \<le> c \<Longrightarrow>
   ca_inv (arr\<lparr>ca_cap := c, ca_buf := b\<rparr>)"
  by (simp add: ca_inv_def)

lemma ca_inv_buf:
  "ca_inv arr \<Longrightarrow> length b = ca_cap arr * ca_el arr \<Longrightarrow> ca_inv (arr\<lparr>ca_buf := b\<rparr>)"
  by (simp add: ca_inv_def)

lemma memcpy_in:
  "d + n \<le> length dst \<Longrightarrow> s + n \<le> length src \<Longrightarrow>
   memcpy dst d src s n = Inr (take d dst @ take n (drop s src) @ drop (d + n) dst)"
  by (simp add: memcpy_def)

lemma length_contents: "ca_inv arr \<Longrightarrow> length (contents arr) = ca_size arr * ca_el arr"
  by (simp add: contents_def ca_inv_def)

text \<open>Sizes that do not wrap: the new capacity in bytes fits a \<open>size_t\<close>.\<close>

definition fits :: "c_array \<Rightarrow> nat \<Rightarrow> bool" where
  "fits arr n \<longleftrightarrow> ca_cap arr * ca_el arr < 2 ^ 64 \<and>
     7 * (n + ca_size arr) * ca_el arr < 2 ^ 64"

definition new_cap :: "c_array \<Rightarrow> nat \<Rightarrow> nat" where
  "new_cap arr n = (if ca_cap arr < n + ca_size arr then 7 * (n + ca_size arr) div 4 else ca_cap arr)"

lemma le_mult_el: "0 < k \<Longrightarrow> n \<le> n * (k::nat)"
  by simp

lemma fits_sums:
  assumes "fits arr n" "0 < ca_el arr"
  shows "add64 n (ca_size arr) = n + ca_size arr" "mul64 n (ca_el arr) = n * ca_el arr"
    "mul64 (ca_size arr) (ca_el arr) = ca_size arr * ca_el arr" "7 * (n + ca_size arr) < 2 ^ 64"
proof -
  have "7 * (n + ca_size arr) \<le> 7 * (n + ca_size arr) * ca_el arr" using assms(2) by simp
  then show a: "7 * (n + ca_size arr) < 2 ^ 64" using assms(1) unfolding fits_def by linarith
  then show "add64 n (ca_size arr) = n + ca_size arr" by simp
  have "7 * (n + ca_size arr) * ca_el arr = 7 * (n * ca_el arr) + 7 * (ca_size arr * ca_el arr)"
    by (simp add: algebra_simps)
  then have "n * ca_el arr < 2 ^ 64" "ca_size arr * ca_el arr < 2 ^ 64"
    using assms(1) by (simp_all add: fits_def)
  then show "mul64 n (ca_el arr) = n * ca_el arr"
    "mul64 (ca_size arr) (ca_el arr) = ca_size arr * ca_el arr"
    by simp_all
qed

lemma new_cap_fits:
  assumes "fits arr n" "0 < ca_el arr"
  shows "n + ca_size arr \<le> new_cap arr n" "new_cap arr n * ca_el arr < 2 ^ 64"
proof -
  show "n + ca_size arr \<le> new_cap arr n"
    by (auto simp: new_cap_def less_eq_div_iff_mult_less_eq)
  have "7 * (n + ca_size arr) div 4 * ca_el arr \<le> 7 * (n + ca_size arr) * ca_el arr"
    by (rule mult_le_mono1) simp
  also have "\<dots> < 2 ^ 64" using assms(1) by (simp add: fits_def)
  finally show "new_cap arr n * ca_el arr < 2 ^ 64"
    using assms(1) by (simp add: fits_def new_cap_def)
qed

lemma resize_buf_eq:
  assumes "fits arr n" "0 < ca_el arr"
  shows "resize_buf arr n = (ca_cap arr < n + ca_size arr, arr\<lparr>ca_cap := new_cap arr n\<rparr>)"
  using fits_sums [OF assms] by (simp add: resize_buf_def new_cap_def)

section \<open>Appending\<close>

lemma append_copy:
  assumes "a \<le> length b" "a + m \<le> length b" "m \<le> length els"
  shows "\<exists>b'. memcpy b a els 0 m = Inr b' \<and> length b' = length b \<and>
    take (a + m) b' = take a b @ take m els"
  using assms by (simp add: memcpy_in)

lemma append_ok:
  assumes "ca_inv arr" "fits arr n" "n * ca_el arr \<le> length els" "malloc_ok mall"
    and "n + ca_size arr \<le> ca_cap arr \<or> mall (new_cap arr n * ca_el arr) \<noteq> None"
  shows "\<exists>arr'. array_append mall arr els n = Inr (OPERATION_SUCCESS, arr') \<and> ca_inv arr' \<and>
    ca_el arr' = ca_el arr \<and> ca_cap arr' = new_cap arr n \<and> ca_size arr' = ca_size arr + n \<and>
    contents arr' = contents arr @ take (n * ca_el arr) els"
proof -
  have el: "0 < ca_el arr" using assms(1) by (simp add: ca_inv_def)
  note sums = fits_sums [OF assms(2) el] new_cap_fits [OF assms(2) el]
  have dist: "(n + ca_size arr) * ca_el arr = ca_size arr * ca_el arr + n * ca_el arr"
    by (simp add: algebra_simps)
  have "(n + ca_size arr) * ca_el arr \<le> new_cap arr n * ca_el arr" using sums(5) by simp
  then have room: "ca_size arr * ca_el arr + n * ca_el arr \<le> new_cap arr n * ca_el arr"
    by (simp only: dist)
  have old: "ca_size arr * ca_el arr \<le> ca_cap arr * ca_el arr"
    using assms(1) by (simp add: ca_inv_def)
  define T where "T = ca_size arr * ca_el arr"
  define M where "M = n * ca_el arr"
  obtain nb where nb: "length nb = new_cap arr n * ca_el arr" "take T nb = contents arr"
    "array_append mall arr els n = bindR (memcpy nb T els 0 M)
       (\<lambda>buf. Inr (OPERATION_SUCCESS, arr\<lparr>ca_cap := new_cap arr n, ca_buf := buf,
          ca_size := n + ca_size arr\<rparr>))"
  proof (cases "ca_cap arr < n + ca_size arr")
    case False
    then have "new_cap arr n = ca_cap arr" by (simp add: new_cap_def)
    moreover have "arr\<lparr>ca_cap := ca_cap arr\<rparr> = arr" by simp
    ultimately show thesis
      using that [of "ca_buf arr"] assms(1) False sums
      by (simp add: array_append_def resize_buf_eq [OF assms(2) el] T_def M_def ca_inv_def contents_def
          add.commute)
  next
    case True
    with assms(5) obtain b where b: "mall (new_cap arr n * ca_el arr) = Some b" by auto
    have lb: "length b = new_cap arr n * ca_el arr" using assms(4) b by (auto simp: malloc_ok_def)
    let ?nb = "take T (ca_buf arr) @ drop T b"
    have T: "T \<le> length (ca_buf arr)" "T \<le> length b"
      using old room assms(1) unfolding T_def lb ca_inv_def by linarith+
    then have "memcpy b 0 (ca_buf arr) 0 T = Inr ?nb" by (simp add: memcpy_in)
    then show thesis
      using that [of ?nb] True T b lb sums
      by (simp add: array_append_def resize_buf_eq [OF assms(2) el] alloc_new_buffer_for_array_def
          alloc_new_buffer_def T_def [symmetric] M_def [symmetric] contents_def add.commute)
  qed
  have Tnb: "T \<le> length nb" "T + M \<le> length nb"
    using room unfolding nb(1) T_def M_def by linarith+
  obtain b' where "memcpy nb T els 0 M = Inr b'" "length b' = length nb"
    "take (T + M) b' = take T nb @ take M els"
    using append_copy [of T nb M els] Tnb assms(3) M_def by auto
  with nb dist sums(5) el show ?thesis
    by (simp add: ca_inv_def contents_def T_def M_def add.commute)
qed

section \<open>Inserting and removing\<close>

lemma insert_buffer:
  assumes "length nb = c" "p \<le> t" "t \<le> length b" "t + m \<le> c" "m \<le> length els"
  shows "bindR (memcpy nb 0 b 0 p) (\<lambda>b1. bindR (memcpy b1 p els 0 m) (\<lambda>b2.
      memcpy b2 (p + m) b p (t - p))) =
    Inr (take p b @ take m els @ drop p (take t b) @ drop (t + m) nb)"
proof -
  let ?b1 = "take p b @ drop p nb"
  have 1: "memcpy nb 0 b 0 p = Inr ?b1" using assms by (simp add: memcpy_in)
  let ?b2 = "take p b @ take m els @ drop (p + m) nb"
  have 2: "memcpy ?b1 p els 0 m = Inr ?b2" using assms by (simp add: memcpy_in add.commute)
  have "drop (p + m + (t - p)) ?b2 = drop (t + m) nb" using assms by (simp add: add.commute)
  moreover have "take (t - p) (drop p b) = drop p (take t b)" by (simp add: drop_take)
  moreover have "take (p + m) ?b2 = take p b @ take m els" using assms by simp
  moreover have "length ?b2 = c" using assms by simp
  ultimately have "memcpy ?b2 (p + m) b p (t - p) =
      Inr (take p b @ take m els @ drop p (take t b) @ drop (t + m) nb)"
    using assms by (simp add: memcpy_in)
  with 1 2 show ?thesis by simp
qed

lemma insert_ok:
  assumes "ca_inv arr" "fits arr n" "n * ca_el arr \<le> length els" "malloc_ok mall"
    and "pos \<le> ca_size arr" and b: "mall (new_cap arr n * ca_el arr) = Some nb"
  shows "\<exists>arr'. array_insert mall arr pos els n = Inr (OPERATION_SUCCESS, arr') \<and> ca_inv arr' \<and>
    ca_el arr' = ca_el arr \<and> ca_size arr' = ca_size arr \<and>
    contents arr' = take (ca_size arr * ca_el arr) (take (pos * ca_el arr) (contents arr) @
      take (n * ca_el arr) els @ drop (pos * ca_el arr) (contents arr))"
proof -
  have el: "0 < ca_el arr" and inv: "length (ca_buf arr) = ca_cap arr * ca_el arr"
    "ca_size arr \<le> ca_cap arr" using assms(1) by (simp_all add: ca_inv_def)
  note sums = fits_sums [OF assms(2) el] new_cap_fits [OF assms(2) el]
  define T P M where "T = ca_size arr * ca_el arr" and "P = pos * ca_el arr" and "M = n * ca_el arr"
  have len: "length nb = new_cap arr n * ca_el arr" using assms(4) b by (auto simp: malloc_ok_def)
  have "(n + ca_size arr) * ca_el arr \<le> new_cap arr n * ca_el arr" using sums(5) by simp
  then have room: "T + M \<le> new_cap arr n * ca_el arr"
    by (simp add: T_def M_def algebra_simps)
  have PT: "P \<le> T" "T \<le> length (ca_buf arr)"
    using assms(5) inv by (simp_all add: P_def T_def)
  have sub: "sub64 (ca_size arr) pos = ca_size arr - pos" "(ca_size arr - pos) * ca_el arr = T - P"
    using assms(5) sums(4) by (simp_all add: T_def P_def diff_mult_distrib)
  have muls: "mul64 pos (ca_el arr) = P" "mul64 n (ca_el arr) = M"
    "mul64 (ca_size arr - pos) (ca_el arr) = T - P"
    using sums(6) PT room unfolding mul64_def P_def [symmetric] M_def [symmetric] sub(2) by simp_all
  let ?b = "take P (ca_buf arr) @ take M els @ drop P (take T (ca_buf arr)) @ drop (T + M) nb"
  have "bindR (memcpy nb 0 (ca_buf arr) 0 P) (\<lambda>b1. bindR (memcpy b1 P els 0 M) (\<lambda>b2.
      memcpy b2 (P + M) (ca_buf arr) P (T - P))) = Inr ?b"
    by (rule insert_buffer [OF len PT room]) (use assms(3) in \<open>simp add: M_def\<close>)
  then have copies: "bindR (bindR (memcpy nb 0 (ca_buf arr) 0 P) (\<lambda>b1. bindR (memcpy b1 P els 0 M)
      (\<lambda>b2. memcpy b2 (P + M) (ca_buf arr) P (T - P)))) f = f ?b" for f :: "byte list \<Rightarrow> (operation_result \<times> c_array) res"
    by simp
  have ins: "array_insert mall arr pos els n =
      Inr (OPERATION_SUCCESS, arr\<lparr>ca_cap := new_cap arr n, ca_buf := ?b\<rparr>)"
    using assms(5) b sums(6) copies [unfolded bindR_assoc]
    by (simp add: array_insert_def resize_buf_eq [OF assms(2) el] alloc_new_buffer_for_array_def
        alloc_new_buffer_def sub muls Let_def)
  have "length ?b = new_cap arr n * ca_el arr"
    using PT room len assms(3) by (simp add: M_def [symmetric])
  moreover have "ca_size arr \<le> new_cap arr n" using sums(5) by simp
  ultimately have "ca_inv (arr\<lparr>ca_cap := new_cap arr n, ca_buf := ?b\<rparr>)"
    by (rule ca_inv_grown [OF el])
  moreover have "contents (arr\<lparr>ca_cap := new_cap arr n, ca_buf := ?b\<rparr>) =
      take T (take P (contents arr) @ take M els @ drop P (contents arr))"
    using PT assms(3) by (simp add: contents_def T_def [symmetric] M_def [symmetric])
  ultimately show ?thesis
    unfolding T_def [symmetric] P_def [symmetric] M_def [symmetric]
    by (intro exI [of _ "arr\<lparr>ca_cap := new_cap arr n, ca_buf := ?b\<rparr>"] conjI ins) simp_all
qed

lemma remove_ok:
  assumes "ca_inv arr" "fits arr 0" "malloc_ok mall" "pos + n \<le> ca_size arr"
    and b: "mall (ca_cap arr * ca_el arr) = Some nb"
  shows "\<exists>arr'. array_remove mall arr pos n = Inr (OPERATION_SUCCESS, arr') \<and> ca_inv arr' \<and>
    ca_size arr' = ca_size arr \<and>
    contents arr' = take (pos * ca_el arr) (contents arr) @
      drop ((pos + n) * ca_el arr) (contents arr) @
      take (n * ca_el arr) (drop ((ca_size arr - n) * ca_el arr) nb)"
proof -
  have el: "0 < ca_el arr" and inv: "length (ca_buf arr) = ca_cap arr * ca_el arr"
    "ca_size arr \<le> ca_cap arr" using assms(1) by (simp_all add: ca_inv_def)
  note sums = fits_sums [OF assms(2) el]
  define T P M where "T = ca_size arr * ca_el arr" and "P = pos * ca_el arr" and "M = n * ca_el arr"
  have len: "length nb = ca_cap arr * ca_el arr" using assms(3) b by (auto simp: malloc_ok_def)
  have "(pos + n) * ca_el arr \<le> ca_size arr * ca_el arr" using assms(4) by simp
  then have PM: "P + M \<le> T" by (simp add: T_def P_def M_def algebra_simps)
  have T: "T \<le> length (ca_buf arr)" "T \<le> length nb" using inv len by (simp_all add: T_def)
  have cap: "ca_cap arr * ca_el arr < 2 ^ 64" using assms(2) by (simp add: fits_def)
  have size64: "ca_size arr < 2 ^ 64" using sums(4) by simp
  have sub: "sub64 (sub64 (ca_size arr) pos) n = ca_size arr - (pos + n)"
    "(ca_size arr - (pos + n)) * ca_el arr = T - (P + M)"
    using assms(4) size64 by (simp_all add: T_def P_def M_def diff_mult_distrib add_mult_distrib)
  have "T < 2 ^ 64" using T(2) len cap by simp
  then have muls: "mul64 pos (ca_el arr) = P" "mul64 n (ca_el arr) = M"
    "mul64 (ca_size arr - (pos + n)) (ca_el arr) = T - (P + M)"
    using PM unfolding mul64_def P_def [symmetric] M_def [symmetric] sub(2) by simp_all
  let ?b = "take P (ca_buf arr) @ take (T - (P + M)) (drop (P + M) (ca_buf arr)) @ drop (T - M) nb"
  have 1: "memcpy nb 0 (ca_buf arr) 0 P = Inr (take P (ca_buf arr) @ drop P nb)"
    using PM T by (simp add: memcpy_in)
  have "P + (T - (P + M)) = T - M" using PM by simp
  then have "memcpy (take P (ca_buf arr) @ drop P nb) P (ca_buf arr) (P + M) (T - (P + M)) = Inr ?b"
    using PM T by (simp add: memcpy_in)
  with 1 have rm: "array_remove mall arr pos n = Inr (OPERATION_SUCCESS, arr\<lparr>ca_buf := ?b\<rparr>)"
    using assms(4) b cap
    by (simp add: array_remove_def alloc_new_buffer_for_array_def alloc_new_buffer_def sub muls Let_def)
  have "length ?b = ca_cap arr * ca_el arr"
    using PM T len by simp
  then have "ca_inv (arr\<lparr>ca_buf := ?b\<rparr>)"
    by (rule ca_inv_buf [OF assms(1)])
  moreover have "contents (arr\<lparr>ca_buf := ?b\<rparr>) =
      take P (contents arr) @ drop (P + M) (contents arr) @ take M (drop (T - M) nb)"
    using PM T by (simp add: contents_def T_def [symmetric] drop_take)
  moreover have "(ca_size arr - n) * ca_el arr = T - M" "(pos + n) * ca_el arr = P + M"
    by (simp_all add: T_def M_def P_def algebra_simps diff_mult_distrib)
  ultimately show ?thesis
    unfolding P_def [symmetric] M_def [symmetric]
    by (intro exI [of _ "arr\<lparr>ca_buf := ?b\<rparr>"] conjI rm) simp_all
qed
section \<open>Failure\<close>

lemma append_no_memory:
  assumes "ca_inv arr" "fits arr n" "ca_cap arr < n + ca_size arr"
    and "mall (new_cap arr n * ca_el arr) = None"
  shows "array_append mall arr els n =
    Inr (MEMORY_OPERATION_ERROR, arr\<lparr>ca_cap := new_cap arr n\<rparr>)"
proof -
  have el: "0 < ca_el arr" using assms(1) by (simp add: ca_inv_def)
  show ?thesis
    using assms new_cap_fits [OF assms(2) el]
    by (simp add: array_append_def resize_buf_eq [OF assms(2) el] alloc_new_buffer_for_array_def
        alloc_new_buffer_def)
qed

lemma append_unbacked:
  assumes "ca_inv arr" "fits arr n" "ca_cap arr < n + ca_size arr"
  shows "array_append mall (arr\<lparr>ca_cap := new_cap arr n\<rparr>) els n = Inl Undefined"
proof -
  let ?a = "arr\<lparr>ca_cap := new_cap arr n\<rparr>"
  have el: "0 < ca_el arr" using assms(1) by (simp add: ca_inv_def)
  note sums = fits_sums [OF assms(2) el] new_cap_fits [OF assms(2) el]
  have "resize_buf ?a n = (False, ?a)" using sums by (simp add: resize_buf_def)
  moreover have "length (ca_buf arr) < ca_size arr * ca_el arr + n * ca_el arr"
  proof -
    have "ca_cap arr * ca_el arr < (n + ca_size arr) * ca_el arr" using assms(3) el by simp
    then show ?thesis using assms(1) by (simp add: ca_inv_def algebra_simps)
  qed
  ultimately show ?thesis using sums by (simp add: array_append_def memcpy_def)
qed

section \<open>Properties\<close>

definition c3 :: c_array where
  "c3 = \<lparr>ca_buf = [1, 2, 3, 0], ca_size = 3, ca_cap = 4, ca_el = 1\<rparr>"

definition zeros :: malloc where
  "zeros n = (if n < 100 then Some (replicate n 0) else None)"

lemma c3_facts: "ca_inv c3" "fits c3 n \<longleftrightarrow> 7 * (n + 3) < 2 ^ 64" "malloc_ok zeros" "ca_size c3 = 3"
  "ca_cap c3 = 4" "ca_el c3 = 1" "contents c3 = [1, 2, 3]"
  by (auto simp: ca_inv_def fits_def c3_def zeros_def malloc_ok_def contents_def split: if_splits)

text \<open>
  Appending \<open>n\<close> elements adds their bytes behind the contents, growing the buffer when
  it has to; the one failure is that \<open>malloc\<close> has no memory for the larger buffer, which
  is reported and leaves the bytes alone (but not the recorded capacity).
\<close>

theorem c_array_append:
  assumes "ca_inv arr" and "fits arr n" and "n * ca_el arr \<le> length els" and "malloc_ok mall"
  shows "if ca_cap arr < n + ca_size arr \<and> mall (new_cap arr n * ca_el arr) = None
    then array_append mall arr els n =
      Inr (MEMORY_OPERATION_ERROR, arr\<lparr>ca_cap := new_cap arr n\<rparr>)
    else \<exists>arr'. array_append mall arr els n = Inr (OPERATION_SUCCESS, arr') \<and> ca_inv arr' \<and>
      ca_size arr' = ca_size arr + n \<and>
      contents arr' = contents arr @ take (n * ca_el arr) els"
  using append_no_memory [OF assms(1,2)] append_ok [OF assms] by (auto simp: not_less)

theorem c_array_append_witness:
  "\<exists>arr'. array_append zeros c3 [7, 8] 2 = Inr (OPERATION_SUCCESS, arr') \<and> ca_inv arr' \<and>
     ca_size arr' = 5 \<and> contents arr' = [1, 2, 3, 7, 8]"
  using c_array_append [of c3 2 "[7, 8]" zeros] c3_facts
  by (simp add: new_cap_def zeros_def)

text \<open>
  Inserting and removing rewrite the buffer but not the number of elements: after a
  successful insertion the last \<open>n\<close> elements are cut off, and after a successful removal the
  array ends in \<open>n\<close> elements of indeterminate bytes from the new buffer.
\<close>

theorem c_array_size_not_updated:
  assumes "ca_inv arr" and "fits arr n" and "malloc_ok mall" and "pos \<le> ca_size arr"
    and "n * ca_el arr \<le> length els" and "mall (new_cap arr n * ca_el arr) = Some nb"
    and "k \<le> ca_size arr - pos" and "mall (ca_cap arr * ca_el arr) = Some mb"
  shows "(\<exists>arr'. array_insert mall arr pos els n = Inr (OPERATION_SUCCESS, arr') \<and>
      ca_size arr' = ca_size arr \<and>
      contents arr' = take (ca_size arr * ca_el arr) (take (pos * ca_el arr) (contents arr) @
        take (n * ca_el arr) els @ drop (pos * ca_el arr) (contents arr))) \<and>
    (\<exists>arr'. array_remove mall arr pos k = Inr (OPERATION_SUCCESS, arr') \<and>
      ca_size arr' = ca_size arr \<and>
      contents arr' = take (pos * ca_el arr) (contents arr) @
        drop ((pos + k) * ca_el arr) (contents arr) @
        take (k * ca_el arr) (drop ((ca_size arr - k) * ca_el arr) mb))"
proof -
  have "fits arr 0" using assms(2) by (simp add: fits_def add_mult_distrib)
  then have "\<exists>arr'. array_remove mall arr pos k = Inr (OPERATION_SUCCESS, arr') \<and> ca_inv arr' \<and>
      ca_size arr' = ca_size arr \<and>
      contents arr' = take (pos * ca_el arr) (contents arr) @
        drop ((pos + k) * ca_el arr) (contents arr) @
        take (k * ca_el arr) (drop ((ca_size arr - k) * ca_el arr) mb)"
    by (rule remove_ok [OF assms(1) _ assms(3) _ assms(8)]) (use assms(4,7) in simp)
  with insert_ok [OF assms(1,2,5,3,4,6)] show ?thesis by blast
qed

theorem c_array_size_not_updated_witness:
  "(\<exists>arr'. array_insert zeros c3 1 [9] 1 = Inr (OPERATION_SUCCESS, arr') \<and> contents arr' = [1, 9, 2]) \<and>
   (\<exists>arr'. array_remove zeros c3 1 1 = Inr (OPERATION_SUCCESS, arr') \<and> contents arr' = [1, 3, 0])"
proof -
  have z: "zeros (new_cap c3 1 * ca_el c3) = Some [0, 0, 0, 0]"
    "zeros (ca_cap c3 * ca_el c3) = Some [0, 0, 0, 0]"
    by (simp_all add: c3_facts new_cap_def zeros_def numeral_eq_Suc)
  show ?thesis
    using c_array_size_not_updated [of c3 1 zeros 1 "[9]" "[0, 0, 0, 0]" 1 "[0, 0, 0, 0]"] z
    by (auto simp: c3_facts)
qed

text \<open>
  An append that could not get memory has raised the recorded capacity all the same, so
  that trying it again writes outside the buffer.
\<close>

theorem c_array_append_retry:
  assumes "ca_inv arr" and "fits arr n" and "ca_cap arr < n + ca_size arr"
    and "mall (new_cap arr n * ca_el arr) = None"
  shows "\<exists>arr1. array_append mall arr els n = Inr (MEMORY_OPERATION_ERROR, arr1) \<and>
    array_append mall' arr1 els n = Inl Undefined"
  using append_no_memory [of arr n mall els, OF assms] append_unbacked [OF assms(1-3)] by blast

theorem c_array_append_retry_witness:
  "\<exists>arr1. array_append (\<lambda>n. None) c3 [7, 8] 2 = Inr (MEMORY_OPERATION_ERROR, arr1) \<and>
     array_append zeros arr1 [7, 8] 2 = Inl Undefined"
  by (rule c_array_append_retry) (simp_all add: c3_facts)

end
