(* ===== verification/C_Reader.thy ===== *)
theory C_Reader
  imports C_Array
begin

text \<open>
  The C reader of lib/c/reader.c: a buffer over a descriptor, with blocking reads. The
  descriptor is the list of what its coming \<open>read\<close> calls return: \<open>Some\<close> bytes, where no
  bytes are the end of file, or \<open>None\<close> for the error -1; after the list every call finds the end of
  file. Results are gathered in the C array, so \<open>malloc\<close> is a parameter here too; as in the
  code, the result code of \<open>array_append\<close> is not looked at.

  The loops need not end: they are partial functions, \<open>None\<close> for not returning. An inner
  \<open>None\<close> is the null pointer the functions return for a read error.
\<close>

section \<open>The buffer\<close>

record reader =
  rd_buf :: "byte list"
  rd_buf_size :: nat
  rd_cursor :: nat
  rd_bytes :: nat
  rd_source :: "byte list option list"

definition reader_initialize :: "byte list \<Rightarrow> byte list option list \<Rightarrow> nat \<Rightarrow> reader" where
  "reader_initialize buf source buf_size =
     \<lparr>rd_buf = buf, rd_buf_size = buf_size, rd_cursor = 0, rd_bytes = 0, rd_source = source\<rparr>"

definition reader_constructor :: "malloc \<Rightarrow> byte list option list \<Rightarrow> nat \<Rightarrow> reader" where
  "reader_constructor mall source buf_size =
     reader_initialize (case mall buf_size of None \<Rightarrow> [] | Some b \<Rightarrow> b) source buf_size"

definition next_read :: "byte list option list \<Rightarrow> byte list option \<times> byte list option list" where
  "next_read source = (case source of [] \<Rightarrow> (Some [], []) | d # rest \<Rightarrow> (d, rest))"

definition fill_buffer :: "reader \<Rightarrow> int \<times> reader" where
  "fill_buffer r0 =
     (let r = r0\<lparr>rd_cursor := 0\<rparr>; (ret, rest) = next_read (rd_source r); r1 = r\<lparr>rd_source := rest\<rparr> in
      case ret of
        None \<Rightarrow> (-1, r1\<lparr>rd_bytes := 0\<rparr>)
      | Some d \<Rightarrow>
          if rd_buf_size r1 < length d then (int (length d), r1\<lparr>rd_bytes := 0\<rparr>)
          else (int (length d), r1\<lparr>rd_buf := d @ drop (length d) (rd_buf r1), rd_bytes := length d\<rparr>))"

definition cursor_check :: "reader \<Rightarrow> bool \<times> reader" where
  "cursor_check r =
     (if rd_bytes r \<le> rd_cursor r
      then (case fill_buffer r of (ret, r1) \<Rightarrow> (\<not> ret < 1, r1))
      else (True, r))"

section \<open>Operations\<close>

type_synonym read_out = "(c_array option \<times> reader) res option"

definition append_to :: "malloc \<Rightarrow> c_array \<Rightarrow> byte list \<Rightarrow> nat \<Rightarrow> c_array res" where
  "append_to mall data els n = bindR (array_append mall data els n) (\<lambda>(code, data'). Inr data')"

definition terminated :: "malloc \<Rightarrow> c_array \<Rightarrow> reader \<Rightarrow> (c_array option \<times> reader) res" where
  "terminated mall data r = bindR (append_to mall data [0] 1) (\<lambda>data'. Inr (Some data', r))"

partial_function (option) read_bytes_loop :: "malloc \<Rightarrow> nat \<Rightarrow> nat \<Rightarrow> c_array \<Rightarrow> reader \<Rightarrow> read_out" where
  "read_bytes_loop mall n bytes_read data r =
     (if bytes_read < n
      then let left = n - bytes_read; in_buffer = sub64 (rd_bytes r) (rd_cursor r);
               rest = drop (rd_cursor r) (rd_buf r) in
        if in_buffer < left
        then (case append_to mall data rest in_buffer of
                Inl e \<Rightarrow> Some (Inl e)
              | Inr data' \<Rightarrow>
                  (case fill_buffer r of (ret, r1) \<Rightarrow>
                     if ret = -1 then Some (Inr (None, r1))
                     else read_bytes_loop mall n (bytes_read + in_buffer) data' r1))
        else (case append_to mall data rest left of
                Inl e \<Rightarrow> Some (Inl e)
              | Inr data' \<Rightarrow>
                  read_bytes_loop mall n (bytes_read + left) data' (r\<lparr>rd_cursor := rd_cursor r + left\<rparr>))
      else Some (terminated mall data r))"

declare read_bytes_loop.simps [code]

definition reader_read_bytes :: "malloc \<Rightarrow> nat \<Rightarrow> reader \<Rightarrow> read_out" where
  "reader_read_bytes mall n r =
     (case cursor_check r of
        (False, r1) \<Rightarrow> Some (Inr (None, r1))
      | (True, r1) \<Rightarrow> read_bytes_loop mall n 0 (array_constructor mall (add64 n 1) 1) r1)"

definition READER_RECOMMENDED_BUF_SIZE :: nat where
  "READER_RECOMMENDED_BUF_SIZE = 8096"

text \<open>The refill inside the loop: the new start and the data gathered, or the error return.\<close>

definition until_refill ::
  "malloc \<Rightarrow> nat \<Rightarrow> c_array \<Rightarrow> reader \<Rightarrow> ((nat \<times> c_array) option \<times> reader) res" where
  "until_refill mall start data r =
     (if rd_cursor r = rd_bytes r
      then bindR (append_to mall data (drop start (rd_buf r)) (sub64 (rd_bytes r) start)) (\<lambda>data'.
        case fill_buffer r of (ret, r1) \<Rightarrow>
          if ret = -1 then Inr (None, r1) else Inr (Some (rd_cursor r1, data'), r1))
      else Inr (Some (start, data), r))"

partial_function (option) read_until_loop ::
  "malloc \<Rightarrow> byte \<Rightarrow> byte \<Rightarrow> nat \<Rightarrow> c_array \<Rightarrow> reader \<Rightarrow> read_out" where
  "read_until_loop mall until c start data r =
     (if c \<noteq> until
      then (case until_refill mall start data r of
          Inl e \<Rightarrow> Some (Inl e)
        | Inr (None, r1) \<Rightarrow> Some (Inr (None, r1))
        | Inr (Some (start', data'), r1) \<Rightarrow>
            (case readB (rd_buf r1) (rd_cursor r1 + 1) of
               Inl e \<Rightarrow> Some (Inl e)
             | Inr c' \<Rightarrow>
                 read_until_loop mall until c' start' data' (r1\<lparr>rd_cursor := rd_cursor r1 + 1\<rparr>)))
      else
        let r1 = r\<lparr>rd_cursor := rd_cursor r + 1\<rparr> in
        (case append_to mall data (drop start (rd_buf r1)) (sub64 (rd_cursor r1) start) of
           Inl e \<Rightarrow> Some (Inl e)
         | Inr data' \<Rightarrow> Some (terminated mall data' r1)))"

declare read_until_loop.simps [code]

definition reader_read_until :: "malloc \<Rightarrow> byte \<Rightarrow> reader \<Rightarrow> read_out" where
  "reader_read_until mall until r =
     (case cursor_check r of
        (False, r1) \<Rightarrow> Some (Inr (None, r1))
      | (True, r1) \<Rightarrow>
          (case readB (rd_buf r1) (rd_cursor r1) of
             Inl e \<Rightarrow> Some (Inl e)
           | Inr c \<Rightarrow> read_until_loop mall until c (rd_cursor r1)
               (array_constructor mall READER_RECOMMENDED_BUF_SIZE 1) r1))"

text \<open>
  \<open>reader_peek_for_empty_line\<close> reads more when a carriage return may be the last byte, and
  puts it behind a copy of that byte at the start of the buffer; the cursor and the number
  of bytes stay.
\<close>

definition reader_peek_for_empty_line :: "reader \<Rightarrow> (int \<times> reader) res" where
  "reader_peek_for_empty_line r0 =
     (case cursor_check r0 of
        (False, r) \<Rightarrow> Inr (-1, r)
      | (True, r) \<Rightarrow> bindR (readB (rd_buf r) (rd_cursor r)) (\<lambda>c.
          if c = 10 then Inr (1, r\<lparr>rd_cursor := rd_cursor r + 1\<rparr>)
          else
            let look = (\<lambda>r'. bindR (readB (rd_buf r') (rd_cursor r')) (\<lambda>c1.
                  if c1 = 13
                  then bindR (readB (rd_buf r') (rd_cursor r' + 1)) (\<lambda>c2.
                    if c2 = 10 then Inr (1, r'\<lparr>rd_cursor := rd_cursor r' + 2\<rparr>) else Inr (0, r'))
                  else Inr (0, r')))
            in if rd_bytes r \<le> rd_cursor r + 1
               then (case next_read (rd_source r) of
                       (None, rest) \<Rightarrow> Inr (-1, r\<lparr>rd_source := rest\<rparr>)
                     | (Some d, rest) \<Rightarrow>
                         if length d < 1 \<or> rd_buf_size r - 1 < length d
                         then Inr (-1, r\<lparr>rd_source := rest\<rparr>)
                         else bindR (writeB (rd_buf r) 0 c) (\<lambda>b.
                              bindR (memcpy b 1 d 0 (length d)) (\<lambda>b'.
                                look (r\<lparr>rd_source := rest, rd_buf := b'\<rparr>))))
               else look r))"

definition TIME_TO_WAIT_FOR_READ_MS :: nat where "TIME_TO_WAIT_FOR_READ_MS = 10000"
definition TIME_TO_WAIT_AFTER_READ_DATA_MS :: nat where "TIME_TO_WAIT_AFTER_READ_DATA_MS = 100"

text \<open>
  \<open>read_chunk_non_blocking_fd\<close>: \<open>p\<close> is the buffer read so far. One turn of the loop reads
  once and sleeps for a millisecond; a read without data returns nothing.
\<close>

function read_chunk_loop ::
  "malloc \<Rightarrow> byte list option list \<Rightarrow> byte list \<Rightarrow> nat \<Rightarrow> nat \<Rightarrow> nat \<Rightarrow> bool \<Rightarrow> (nat \<times> byte list) res"
where
  "read_chunk_loop mall source p bytes_read before after something =
     (case next_read source of (ret, rest) \<Rightarrow>
        bindR (case ret of
            Some d \<Rightarrow>
              if d = [] then Inr (p, bytes_read, something)
              else (case mall (bytes_read + length d) of
                  None \<Rightarrow> Inl Undefined
                | Some new_p \<Rightarrow>
                    bindR (memcpy new_p 0 p 0 bytes_read) (\<lambda>p1.
                    bindR (memcpy p1 0 d 0 (length d)) (\<lambda>p2.
                    Inr (p2, bytes_read + length d, True))))
          | None \<Rightarrow> Inr (p, bytes_read, something))
        (\<lambda>(p', n', something').
          if \<not> something'
          then if before < TIME_TO_WAIT_FOR_READ_MS
            then read_chunk_loop mall rest p' n' (before + 1) after something'
            else Inr (n', p')
          else if after < TIME_TO_WAIT_AFTER_READ_DATA_MS
            then read_chunk_loop mall rest p' n' before (after + 1) something'
            else Inr (n', p')))"
  by pat_completeness auto

termination
  by (relation "measure (\<lambda>(mall, source, p, n, before, after, something).
      (TIME_TO_WAIT_FOR_READ_MS - before) + (TIME_TO_WAIT_AFTER_READ_DATA_MS - after))") auto

definition read_chunk_non_blocking_fd :: "malloc \<Rightarrow> byte list option list \<Rightarrow> byte list \<Rightarrow> (nat \<times> byte list) res"
where
  "read_chunk_non_blocking_fd mall source p = read_chunk_loop mall source p 0 0 0 False"

section \<open>Reading a number of bytes\<close>

definition rd_inv :: "reader \<Rightarrow> bool" where
  "rd_inv r \<longleftrightarrow> rd_cursor r \<le> rd_bytes r \<and> rd_bytes r \<le> length (rd_buf r) \<and>
     length (rd_buf r) = rd_buf_size r \<and> rd_buf_size r < 2 ^ 64 \<and>
     (\<forall>c \<in> set (rd_source r). \<exists>d. c = Some d \<and> d \<noteq> [] \<and> length d \<le> rd_buf_size r)"

definition rd_pending :: "reader \<Rightarrow> byte list" where
  "rd_pending r = take (rd_bytes r - rd_cursor r) (drop (rd_cursor r) (rd_buf r)) @
     concat (map the (rd_source r))"

definition data_ok :: "c_array \<Rightarrow> nat \<Rightarrow> byte list \<Rightarrow> bool" where
  "data_ok a cap xs \<longleftrightarrow> ca_inv a \<and> ca_el a = 1 \<and> ca_cap a = cap \<and> cap < 2 ^ 60 \<and> contents a = xs"

lemma data_ok_size: "data_ok a cap xs \<Longrightarrow> ca_size a = length xs"
  using length_contents [of a] by (simp add: data_ok_def)

lemma constructor_ok:
  assumes "malloc_ok mall" "mall cap \<noteq> None" "cap < 2 ^ 60"
  shows "data_ok (array_constructor mall cap 1) cap []"
  using assms
  by (auto simp: data_ok_def array_constructor_def array_initialize_def alloc_new_buffer_def ca_inv_def
      contents_def malloc_ok_def)

lemma append_to_ok:
  assumes "data_ok a cap xs" "length xs + n \<le> cap" "n \<le> length els" "malloc_ok mall"
  shows "\<exists>a'. append_to mall a els n = Inr a' \<and> data_ok a' cap (xs @ take n els)"
proof -
  have s: "ca_size a = length xs" by (rule data_ok_size [OF assms(1)])
  have "ca_inv a" "fits a n" "n * ca_el a \<le> length els" "n + ca_size a \<le> ca_cap a"
    using assms s by (auto simp: data_ok_def fits_def)
  then obtain a' where "array_append mall a els n = Inr (OPERATION_SUCCESS, a')" "ca_inv a'"
    "ca_el a' = ca_el a" "ca_cap a' = new_cap a n" "contents a' = contents a @ take (n * ca_el a) els"
    using append_ok [OF _ _ _ assms(4), of a n els] by blast
  then show ?thesis using assms s by (auto simp: append_to_def data_ok_def new_cap_def)
qed

lemma fill_ok:
  assumes "rd_inv r" "rd_cursor r = rd_bytes r" "rd_pending r \<noteq> []"
  shows "\<exists>r'. fill_buffer r = (int (rd_bytes r'), r') \<and> 0 < rd_bytes r' \<and> rd_inv r' \<and>
    rd_pending r' = rd_pending r \<and> rd_cursor r' = 0 \<and> length (rd_source r') < length (rd_source r)"
  using assms
  by (cases "rd_source r") (auto simp: fill_buffer_def next_read_def rd_inv_def rd_pending_def Let_def)

lemma fill_cursor: "fill_buffer (r\<lparr>rd_cursor := k\<rparr>) = fill_buffer r"
  by (simp add: fill_buffer_def)

lemma read_bytes_loop_end [simp]:
  "\<not> k < n \<Longrightarrow> read_bytes_loop mall n k data r = Some (terminated mall data r)"
  by (simp add: read_bytes_loop.simps [of mall n k])

lemma read_bytes_loop_ok:
  assumes "rd_inv r" "rd_pending r = us @ ys" "data_ok data (Suc n) xs" "length xs + length us = n"
    and "malloc_ok mall"
  shows "\<exists>a r'. read_bytes_loop mall n (length xs) data r = Some (Inr (Some a, r')) \<and>
    contents a = xs @ us @ [0] \<and> rd_inv r' \<and> rd_pending r' = ys"
  using assms
proof (induction "length (rd_source r)" arbitrary: r us xs data rule: less_induct)
  case less
  let ?rest = "drop (rd_cursor r) (rd_buf r)" and ?n = "rd_bytes r - rd_cursor r"
  have inv: "rd_cursor r \<le> rd_bytes r" "rd_bytes r \<le> length (rd_buf r)" "rd_bytes r < 2 ^ 64"
    using less.prems(1) by (auto simp: rd_inv_def)
  have sub: "sub64 (rd_bytes r) (rd_cursor r) = ?n" using inv by simp
  have len: "length (take ?n ?rest) = ?n" using inv by simp
  have p: "take ?n ?rest @ concat (map the (rd_source r)) = us @ ys"
    using less.prems(2) by (simp add: rd_pending_def)
  have finish: "\<exists>a. terminated mall data' r' = Inr (Some a, r') \<and> contents a = zs @ [0]"
    if "data_ok data' (Suc n) zs" "length zs = n" for data' r' zs
    using append_to_ok [OF that(1), of 1 "[0]" mall] that less.prems(5)
    by (auto simp: terminated_def data_ok_def)
  show ?case
  proof (cases "?n < length us")
    case False
    have us: "take (length us) ?rest = us"
      using arg_cong [OF p, of "take (length us)"] len False by (simp add: min_absorb1)
    have ys: "rd_pending (r\<lparr>rd_cursor := rd_cursor r + length us\<rparr>) = ys"
      using arg_cong [OF p, of "drop (length us)"] len False
      by (simp add: rd_pending_def drop_take add.commute)
    have inv': "rd_inv (r\<lparr>rd_cursor := rd_cursor r + length us\<rparr>)"
      using less.prems(1) False by (auto simp: rd_inv_def)
    show ?thesis
    proof (cases "us = []")
      case True
      then show ?thesis using finish [OF less.prems(3)] less.prems(1,2,4)
        by force
    next
      case us0: False
      have "length us \<le> length ?rest" using inv False by simp
      then obtain data' where d: "append_to mall data ?rest (length us) = Inr data'"
        "data_ok data' (Suc n) (xs @ us)"
        using append_to_ok [OF less.prems(3), of "length us" ?rest mall] less.prems(4,5) us by auto
      obtain a where "terminated mall data' (r\<lparr>rd_cursor := rd_cursor r + length us\<rparr>) =
          Inr (Some a, r\<lparr>rd_cursor := rd_cursor r + length us\<rparr>)" "contents a = (xs @ us) @ [0]"
        using finish [OF d(2)] less.prems(4) by auto
      then show ?thesis using d(1) us0 less.prems(4) False sub ys inv'
        by (auto simp: read_bytes_loop.simps [of mall n "length xs"]
            Let_def)
    qed
  next
    case True
    let ?vs = "drop ?n us" and ?r = "r\<lparr>rd_cursor := rd_bytes r\<rparr>"
    have us: "take ?n ?rest @ ?vs = us" "concat (map the (rd_source r)) = ?vs @ ys"
      using arg_cong [OF p, of "take ?n"] arg_cong [OF p, of "drop ?n"] len True
      by (auto simp: append_take_drop_id)
    have "?n \<le> length ?rest" using inv by simp
    then obtain data' where d: "append_to mall data ?rest ?n = Inr data'"
      "data_ok data' (Suc n) (xs @ take ?n ?rest)"
      using append_to_ok [OF less.prems(3), of ?n ?rest mall] less.prems(4,5) True by auto
    have "rd_inv ?r" "rd_pending ?r = ?vs @ ys" "?vs \<noteq> []"
      using less.prems(1) us(2) True by (auto simp: rd_inv_def rd_pending_def)
    then have "\<exists>r1. fill_buffer ?r = (int (rd_bytes r1), r1) \<and> 0 < rd_bytes r1 \<and> rd_inv r1 \<and>
        rd_pending r1 = rd_pending ?r \<and> rd_cursor r1 = 0 \<and> length (rd_source r1) < length (rd_source ?r)"
      by (intro fill_ok) simp_all
    then obtain r1 where r1: "fill_buffer r = (int (rd_bytes r1), r1)" "rd_inv r1" "rd_pending r1 = ?vs @ ys"
      "length (rd_source r1) < length (rd_source r)"
      using \<open>rd_pending ?r = ?vs @ ys\<close> unfolding fill_cursor by auto
    have lx: "length (xs @ take ?n ?rest) = length xs + ?n" using len by simp
    obtain a r' where "read_bytes_loop mall n (length xs + ?n) data' r1 = Some (Inr (Some a, r'))"
      "contents a = (xs @ take ?n ?rest) @ ?vs @ [0]" "rd_inv r'" "rd_pending r' = ys"
      using less.hyps [OF r1(4,2,3) d(2)] less.prems(4,5) lx True by (auto simp del: append_assoc)
    then show ?thesis using d(1) r1(1) True sub less.prems(4) us(1)
      by (auto simp: read_bytes_loop.simps [of mall n "length xs"] Let_def)
  qed
qed

lemma cursor_check_ok:
  assumes "rd_inv r" "rd_pending r \<noteq> []"
  shows "\<exists>r'. cursor_check r = (True, r') \<and> rd_inv r' \<and> rd_pending r' = rd_pending r \<and>
    rd_cursor r' < rd_bytes r'"
proof (cases "rd_bytes r \<le> rd_cursor r")
  case True
  then have "rd_cursor r = rd_bytes r" using assms(1) by (simp add: rd_inv_def)
  then show ?thesis using fill_ok [OF assms(1) _ assms(2)] True by (fastforce simp: cursor_check_def)
next
  case False
  then show ?thesis using assms by (simp add: cursor_check_def)
qed

lemma read_bytes_ok:
  assumes "rd_inv r" "rd_pending r = us @ ys" "us \<noteq> []" "length us < 2 ^ 59"
    and "malloc_ok mall" "mall (Suc (length us)) \<noteq> None"
  shows "\<exists>a r'. reader_read_bytes mall (length us) r = Some (Inr (Some a, r')) \<and>
    contents a = us @ [0] \<and> rd_inv r' \<and> rd_pending r' = ys"
proof -
  obtain r1 where r1: "cursor_check r = (True, r1)" "rd_inv r1" "rd_pending r1 = us @ ys"
    using cursor_check_ok [OF assms(1)] assms(2,3) by auto
  have "data_ok (array_constructor mall (Suc (length us)) 1) (Suc (length us)) []"
    by (rule constructor_ok [OF assms(5,6)]) (use assms(4) in simp)
  from read_bytes_loop_ok [OF r1(2,3) this _ assms(5)] r1(1) assms(4)
  show ?thesis by (simp add: reader_read_bytes_def)
qed

section \<open>The end of the file\<close>

lemma fill_at_end:
  "rd_source r = [] \<Longrightarrow> fill_buffer r = (0, r\<lparr>rd_cursor := 0, rd_bytes := 0\<rparr>)"
  by (simp add: fill_buffer_def next_read_def)

text \<open>The situations in which the loop goes on for ever.\<close>

definition starved :: "malloc \<Rightarrow> nat \<Rightarrow> nat \<Rightarrow> c_array \<Rightarrow> reader \<Rightarrow> bool" where
  "starved mall n k data r \<longleftrightarrow> malloc_ok mall \<and> rd_source r = [] \<and> rd_inv r \<and>
     k + (rd_bytes r - rd_cursor r) < n \<and> (\<exists>xs. data_ok data (Suc n) xs \<and> length xs = k)"

lemma starved_step:
  assumes "starved mall n k data r"
  shows "\<exists>data'. append_to mall data (drop (rd_cursor r) (rd_buf r)) (rd_bytes r - rd_cursor r) = Inr data' \<and>
    starved mall n (k + (rd_bytes r - rd_cursor r)) data' (r\<lparr>rd_cursor := 0, rd_bytes := 0\<rparr>)"
proof -
  let ?m = "rd_bytes r - rd_cursor r" and ?rest = "drop (rd_cursor r) (rd_buf r)"
  obtain xs where xs: "data_ok data (Suc n) xs" "length xs = k" using assms by (auto simp: starved_def)
  have m: "?m \<le> length ?rest" using assms by (auto simp: starved_def rd_inv_def)
  obtain data' where d: "append_to mall data ?rest ?m = Inr data'"
    "data_ok data' (Suc n) (xs @ take ?m ?rest)"
    using append_to_ok [OF xs(1), of ?m ?rest mall] assms xs(2) m by (auto simp: starved_def)
  have "length (xs @ take ?m ?rest) = k + ?m" using xs(2) m by simp
  then have "starved mall n (k + ?m) data' (r\<lparr>rd_cursor := 0, rd_bytes := 0\<rparr>)"
    using assms d(2) unfolding starved_def by (auto simp: rd_inv_def)
  then show ?thesis using d(1) by blast
qed

lemma starved_never:
  assumes "read_bytes_loop mall n k data r = Some y"
  shows "\<not> starved mall n k data r"
proof (rule read_bytes_loop.raw_induct
    [where P = "\<lambda>mall n k data r y. \<not> starved mall n k data r", OF _ assms])
  fix loop :: "malloc \<Rightarrow> nat \<Rightarrow> nat \<Rightarrow> c_array \<Rightarrow> reader \<Rightarrow> read_out"
    and mall :: malloc and n k :: nat and data :: c_array and r :: reader
    and y :: "(c_array option \<times> reader) res"
  assume IH: "\<And>mall n k data r y. loop mall n k data r = Some y \<Longrightarrow> \<not> starved mall n k data r"
    and body: "(if k < n
      then let left = n - k; in_buffer = sub64 (rd_bytes r) (rd_cursor r);
               rest = drop (rd_cursor r) (rd_buf r) in
        if in_buffer < left
        then (case append_to mall data rest in_buffer of
                Inl e \<Rightarrow> Some (Inl e)
              | Inr data' \<Rightarrow>
                  (case fill_buffer r of (ret, r1) \<Rightarrow>
                     if ret = -1 then Some (Inr (None, r1))
                     else loop mall n (k + in_buffer) data' r1))
        else (case append_to mall data rest left of
                Inl e \<Rightarrow> Some (Inl e)
              | Inr data' \<Rightarrow>
                  loop mall n (k + left) data' (r\<lparr>rd_cursor := rd_cursor r + left\<rparr>))
      else Some (terminated mall data r)) = Some y"
  show "\<not> starved mall n k data r"
  proof
    assume a: "starved mall n k data r"
    from starved_step [OF a] obtain data' where
      d: "append_to mall data (drop (rd_cursor r) (rd_buf r)) (rd_bytes r - rd_cursor r) = Inr data'"
      "starved mall n (k + (rd_bytes r - rd_cursor r)) data' (r\<lparr>rd_cursor := 0, rd_bytes := 0\<rparr>)"
      by blast
    have "k < n" "rd_bytes r - rd_cursor r < n - k" "rd_source r = []" "rd_cursor r \<le> rd_bytes r"
      "rd_bytes r < 2 ^ 64"
      using a by (auto simp: starved_def rd_inv_def)
    then have "loop mall n (k + (rd_bytes r - rd_cursor r)) data' (r\<lparr>rd_cursor := 0, rd_bytes := 0\<rparr>) = Some y"
      using body d(1) fill_at_end [of r] by (simp add: Let_def)
    then show False using IH d(2) by blast
  qed
qed

lemma read_bytes_end_of_file:
  assumes "rd_inv r" "rd_source r = []" "rd_pending r = xs" "xs \<noteq> []" "length xs < n" "n < 2 ^ 59"
    and "malloc_ok mall" "mall (Suc n) \<noteq> None"
  shows "reader_read_bytes mall n r = None"
proof -
  obtain r1 where r1: "cursor_check r = (True, r1)" "rd_inv r1" "rd_pending r1 = xs"
    using cursor_check_ok [OF assms(1)] assms(3,4) by auto
  have src: "rd_source r1 = []"
    using r1(1) assms(2) by (auto simp: cursor_check_def fill_at_end split: if_splits)
  have "rd_cursor r1 \<le> rd_bytes r1" "rd_bytes r1 \<le> length (rd_buf r1)"
    using r1(2) by (auto simp: rd_inv_def)
  then have "length xs = rd_bytes r1 - rd_cursor r1"
    using r1(3) src by (auto simp: rd_pending_def)
  moreover have "data_ok (array_constructor mall (Suc n) 1) (Suc n) []"
    by (rule constructor_ok [OF assms(7,8)]) (use assms(6) in simp)
  ultimately have "starved mall n 0 (array_constructor mall (Suc n) 1) r1"
    using r1(2) src assms(5,7) by (auto simp: starved_def)
  then have "read_bytes_loop mall n 0 (array_constructor mall (Suc n) 1) r1 = None"
    using starved_never by (metis not_None_eq)
  then show ?thesis using r1(1) assms(6) by (simp add: reader_read_bytes_def)
qed

section \<open>Reading up to a character\<close>

lemma until_scan:
  assumes "rd_cursor r \<le> m" "m \<le> rd_bytes r" "m < length (rd_buf r)"
    and "\<forall>i. rd_cursor r \<le> i \<and> i < m \<longrightarrow> rd_buf r ! i \<noteq> until"
  shows "read_until_loop mall until (rd_buf r ! rd_cursor r) start data r =
    read_until_loop mall until (rd_buf r ! m) start data (r\<lparr>rd_cursor := m\<rparr>)"
  using assms
proof (induction "m - rd_cursor r" arbitrary: r)
  case 0
  then have "rd_cursor r = m" by simp
  then have "r\<lparr>rd_cursor := m\<rparr> = r" by (cases r) simp
  then show ?case using \<open>rd_cursor r = m\<close> by metis
next
  case (Suc k r)
  let ?r = "r\<lparr>rd_cursor := rd_cursor r + 1\<rparr>"
  have c: "rd_buf r ! rd_cursor r \<noteq> until" "rd_cursor r \<noteq> rd_bytes r" "rd_cursor r + 1 < length (rd_buf r)"
    using Suc.hyps(2) Suc.prems by auto
  have "read_until_loop mall until (rd_buf r ! rd_cursor r) start data r =
      read_until_loop mall until (rd_buf ?r ! rd_cursor ?r) start data ?r"
    using c by (subst read_until_loop.simps) (simp add: until_refill_def)
  also have "\<dots> = read_until_loop mall until (rd_buf ?r ! m) start data (?r\<lparr>rd_cursor := m\<rparr>)"
    by (rule Suc.hyps(1)) (use Suc.hyps(2) Suc.prems in auto)
  finally show ?case by simp
qed

lemma until_found:
  assumes "rd_cursor r < length (rd_buf r)" "start \<le> rd_cursor r" "rd_buf r ! rd_cursor r = until"
    and "data_ok data cap xs" "length xs + (rd_cursor r + 1 - start) < cap" "malloc_ok mall"
    and "rd_cursor r < 2 ^ 63"
  shows "\<exists>a. read_until_loop mall until until start data r =
      Some (Inr (Some a, r\<lparr>rd_cursor := rd_cursor r + 1\<rparr>)) \<and>
    contents a = xs @ take (rd_cursor r + 1 - start) (drop start (rd_buf r)) @ [0]"
proof -
  let ?k = "rd_cursor r + 1 - start"
  have k: "?k \<le> length (drop start (rd_buf r))" using assms(1,2) by simp
  obtain data' where d: "append_to mall data (drop start (rd_buf r)) ?k = Inr data'"
    "data_ok data' cap (xs @ take ?k (drop start (rd_buf r)))"
    using append_to_ok [OF assms(4) _ k assms(6)] assms(5) by auto
  obtain data'' where "append_to mall data' [0] 1 = Inr data''"
    "data_ok data'' cap ((xs @ take ?k (drop start (rd_buf r))) @ [0])"
    using append_to_ok [OF d(2), of 1 "[0]" mall] assms(5,6) k by auto
  then show ?thesis using d(1) assms(2,7)
    by (subst read_until_loop.simps) (auto simp: terminated_def data_ok_def)
qed

lemma until_in_buffer:
  assumes "rd_inv r" "rd_cursor r \<le> m" "m < rd_bytes r" "rd_buf r ! m = until"
    and "\<forall>i. rd_cursor r \<le> i \<and> i < m \<longrightarrow> rd_buf r ! i \<noteq> until"
    and "m + 1 < 8000" "malloc_ok mall" "mall 8096 \<noteq> None"
  shows "\<exists>a. reader_read_until mall until r = Some (Inr (Some a, r\<lparr>rd_cursor := m + 1\<rparr>)) \<and>
    contents a = take (m + 1 - rd_cursor r) (drop (rd_cursor r) (rd_buf r)) @ [0]"
proof -
  have len: "m < length (rd_buf r)" "rd_cursor r < length (rd_buf r)"
    using assms(1-3) by (auto simp: rd_inv_def)
  have d: "data_ok (array_constructor mall 8096 1) 8096 []"
    by (rule constructor_ok [OF assms(7,8)]) simp
  let ?r = "r\<lparr>rd_cursor := m\<rparr>"
  have lt: "Suc m - rd_cursor r < 8096" using assms(6) by arith
  obtain a where "read_until_loop mall until until (rd_cursor r) (array_constructor mall 8096 1) ?r =
      Some (Inr (Some a, ?r\<lparr>rd_cursor := m + 1\<rparr>))"
    "contents a = take (m + 1 - rd_cursor r) (drop (rd_cursor r) (rd_buf r)) @ [0]"
    using until_found [of ?r "rd_cursor r" until _ 8096 "[]" mall, OF _ _ _ d] assms len lt by auto
  moreover have "read_until_loop mall until (rd_buf r ! rd_cursor r) (rd_cursor r)
      (array_constructor mall 8096 1) r =
    read_until_loop mall until until (rd_cursor r) (array_constructor mall 8096 1) ?r"
    using until_scan [of r m until mall "rd_cursor r"] assms(2-5) len by simp
  ultimately show ?thesis
    using assms(2,3) len
    by (simp add: reader_read_until_def cursor_check_def READER_RECOMMENDED_BUF_SIZE_def)
qed

text \<open>
  Nothing in the buffer, not even the stale byte behind the data, is the character, and
  the next read begins with it.
\<close>

lemma until_after_refill:
  assumes inv: "rd_inv r" and "rd_cursor r < rd_bytes r" and "rd_bytes r < rd_buf_size r"
    and "\<forall>i. rd_cursor r \<le> i \<and> i \<le> rd_bytes r \<longrightarrow> rd_buf r ! i \<noteq> until"
    and src: "rd_source r = Some d # rest" and j: "0 < j" "j < length d" "d ! j = until"
    and "\<forall>i. 0 < i \<and> i < j \<longrightarrow> d ! i \<noteq> until"
    and "rd_bytes r + j < 8000" "malloc_ok mall" "mall 8096 \<noteq> None"
  shows "\<exists>a r'. reader_read_until mall until r = Some (Inr (Some a, r')) \<and> rd_pending r' =
      drop (j + 1) d @ concat (map the rest) \<and>
    contents a = take (rd_bytes r - rd_cursor r) (drop (rd_cursor r) (rd_buf r)) @ take (j + 1) d @ [0]"
proof -
  let ?n = "rd_bytes r" and ?s = "rd_cursor r" and ?A = "array_constructor mall 8096 1"
  have b: "?n < length (rd_buf r)" "length d \<le> rd_buf_size r" "length (rd_buf r) = rd_buf_size r"
    "?n < 2 ^ 64"
    using inv assms(3) src by (auto simp: rd_inv_def)
  have dA: "data_ok ?A 8096 []" by (rule constructor_ok [OF assms(11,12)]) simp
  let ?rest = "take (?n - ?s) (drop ?s (rd_buf r))"
  have lt: "?n - ?s \<le> 8096" "?n - ?s \<le> length (drop ?s (rd_buf r))"
    using assms(10) b(1) by simp_all
  obtain data' where d': "append_to mall ?A (drop ?s (rd_buf r)) (?n - ?s) = Inr data'"
    "data_ok data' 8096 ?rest"
    using append_to_ok [OF dA, of "?n - ?s" "drop ?s (rd_buf r)" mall] assms(11) lt by auto
  let ?r1 = "r\<lparr>rd_cursor := 0, rd_source := rest, rd_buf := d @ drop (length d) (rd_buf r),
      rd_bytes := length d\<rparr>"
  have fill: "fill_buffer r = (int (length d), ?r1)"
    using src b(2) by (simp add: fill_buffer_def next_read_def)
  let ?r2 = "?r1\<lparr>rd_cursor := 1\<rparr>" and ?r3 = "?r1\<lparr>rd_cursor := j\<rparr>"
  have "read_until_loop mall until (rd_buf r ! ?s) ?s ?A r =
      read_until_loop mall until (rd_buf r ! ?n) ?s ?A (r\<lparr>rd_cursor := ?n\<rparr>)"
    using until_scan [of r ?n until mall ?s] assms(2,4) b by simp
  also have "\<dots> = read_until_loop mall until (rd_buf ?r2 ! rd_cursor ?r2) 0 data' ?r2"
  proof -
    have "until_refill mall ?s ?A (r\<lparr>rd_cursor := ?n\<rparr>) = Inr (Some (0, data'), ?r1)"
      using d'(1) fill assms(2) b(4) by (simp add: until_refill_def fill_cursor)
    moreover have "rd_buf r ! ?n \<noteq> until" using assms(2,4) by simp
    moreover have "1 < length (rd_buf ?r1)" using j(1,2) by simp
    ultimately show ?thesis
      by (subst read_until_loop.simps [of _ _ "rd_buf r ! ?n"]) simp
  qed
  also have "\<dots> = read_until_loop mall until (rd_buf ?r2 ! j) 0 data' (?r2\<lparr>rd_cursor := j\<rparr>)"
    by (rule until_scan) (use j assms(9) in \<open>auto simp: nth_append\<close>)
  also have "rd_buf ?r2 ! j = until" using j by (simp add: nth_append)
  finally have loop: "read_until_loop mall until (rd_buf r ! ?s) ?s ?A r =
      read_until_loop mall until until 0 data' ?r3" by simp
  have lr: "length ?rest + (j + 1) < 8096" using assms(2,10) b by simp
  obtain a where a: "read_until_loop mall until until 0 data' ?r3 =
      Some (Inr (Some a, ?r3\<lparr>rd_cursor := j + 1\<rparr>))"
    "contents a = ?rest @ take (j + 1) (rd_buf ?r3) @ [0]"
    using until_found [of ?r3 0 until data' 8096 ?rest mall] d'(2) lr assms(10,11) j by (auto simp: nth_append)
  have "rd_pending (?r3\<lparr>rd_cursor := j + 1\<rparr>) = drop (j + 1) d @ concat (map the rest)"
    using j(2) by (simp add: rd_pending_def)
  moreover have "take (j + 1) (rd_buf ?r3) = take (j + 1) d" using j(2) by simp
  ultimately show ?thesis
    using a loop assms(2) b
    by (simp add: reader_read_until_def cursor_check_def READER_RECOMMENDED_BUF_SIZE_def)
qed

section \<open>Properties\<close>

text \<open>
  Reading \<open>n\<close> bytes gives the next \<open>n\<close> bytes of the data, over any division into reads, with a
  NUL behind them, and leaves the rest. When the file ends before, the function does not
  report it: it never returns.
\<close>

theorem c_read_bytes:
  assumes "rd_inv r" and "rd_pending r = us @ ys" and "us \<noteq> []" and "n < 2 ^ 59"
    and "malloc_ok mall" and "mall (Suc n) \<noteq> None"
  shows "(length us = n \<longrightarrow> (\<exists>a r'. reader_read_bytes mall n r = Some (Inr (Some a, r')) \<and>
      contents a = us @ [0] \<and> rd_inv r' \<and> rd_pending r' = ys)) \<and>
    (rd_source r = [] \<and> ys = [] \<and> length us < n \<longrightarrow> reader_read_bytes mall n r = None)"
  using read_bytes_ok [OF assms(1-3) _ assms(5)] assms(4,6)
    read_bytes_end_of_file [OF assms(1) _ _ assms(3) _ assms(4-6)] assms(2) by auto

definition ex_reader :: reader where
  "ex_reader = \<lparr>rd_buf = bytes ''ab.'', rd_buf_size = 3, rd_cursor = 0, rd_bytes = 2,
     rd_source = [Some [10, 99, 10]]\<rparr>"

definition bytes_of_zero :: malloc where
  "bytes_of_zero n = Some (replicate n 0)"

lemma ex_reader_facts: "rd_inv ex_reader" "rd_pending ex_reader = [97, 98, 10, 99, 10]"
  "malloc_ok bytes_of_zero" "bytes_of_zero n \<noteq> None"
  by (simp_all add: ex_reader_def rd_inv_def rd_pending_def malloc_ok_def bytes_of_zero_def)

theorem c_read_bytes_witness:
  "\<exists>a r'. reader_read_bytes bytes_of_zero 4 ex_reader = Some (Inr (Some a, r')) \<and>
     contents a = [97, 98, 10, 99, 0]"
  using c_read_bytes [of ex_reader "[97, 98, 10, 99]" "[10]" 4 bytes_of_zero] ex_reader_facts by auto

text \<open>
  Reading up to a character gives the bytes through its first occurrence, with a NUL
  behind them, when that is in the buffer. When it is the first byte of the next read it is
  passed over: the result goes on to the next occurrence.
\<close>

theorem c_read_until:
  assumes "rd_inv r" and "malloc_ok mall" and "mall 8096 \<noteq> None"
  shows "(\<forall>m. rd_cursor r \<le> m \<and> m < rd_bytes r \<and> m + 1 < 8000 \<and> rd_buf r ! m = until \<and>
      (\<forall>i. rd_cursor r \<le> i \<and> i < m \<longrightarrow> rd_buf r ! i \<noteq> until) \<longrightarrow>
      (\<exists>a. reader_read_until mall until r = Some (Inr (Some a, r\<lparr>rd_cursor := m + 1\<rparr>)) \<and>
        contents a = take (m + 1 - rd_cursor r) (drop (rd_cursor r) (rd_buf r)) @ [0])) \<and>
    (\<forall>d rest j. rd_cursor r < rd_bytes r \<and> rd_bytes r < rd_buf_size r \<and>
      (\<forall>i. rd_cursor r \<le> i \<and> i \<le> rd_bytes r \<longrightarrow> rd_buf r ! i \<noteq> until) \<and>
      rd_source r = Some (until # d) # rest \<and> j < length d \<and> d ! j = until \<and>
      (\<forall>i < j. d ! i \<noteq> until) \<and> rd_bytes r + j + 1 < 8000 \<longrightarrow>
      (\<exists>a r'. reader_read_until mall until r = Some (Inr (Some a, r')) \<and>
        contents a = take (rd_bytes r - rd_cursor r) (drop (rd_cursor r) (rd_buf r)) @
          until # take (j + 1) d @ [0]))"
proof (intro conjI allI impI; elim conjE)
  show "\<exists>a. reader_read_until mall until r = Some (Inr (Some a, r\<lparr>rd_cursor := m + 1\<rparr>)) \<and>
      contents a = take (m + 1 - rd_cursor r) (drop (rd_cursor r) (rd_buf r)) @ [0]"
    if "rd_cursor r \<le> m" "m < rd_bytes r" "m + 1 < 8000" "rd_buf r ! m = until"
      "\<forall>i. rd_cursor r \<le> i \<and> i < m \<longrightarrow> rd_buf r ! i \<noteq> until" for m
    by (rule until_in_buffer [OF assms(1) that(1,2,4,5,3) assms(2,3)])
  show "\<exists>a r'. reader_read_until mall until r = Some (Inr (Some a, r')) \<and>
      contents a = take (rd_bytes r - rd_cursor r) (drop (rd_cursor r) (rd_buf r)) @
        until # take (j + 1) d @ [0]"
    if "rd_cursor r < rd_bytes r" "rd_bytes r < rd_buf_size r"
      "\<forall>i. rd_cursor r \<le> i \<and> i \<le> rd_bytes r \<longrightarrow> rd_buf r ! i \<noteq> until"
      "rd_source r = Some (until # d) # rest" "j < length d" "d ! j = until"
      "\<forall>i < j. d ! i \<noteq> until" "rd_bytes r + j + 1 < 8000" for d rest j
  proof -
    have "\<forall>i. 0 < i \<and> i < Suc j \<longrightarrow> (until # d) ! i \<noteq> until"
    proof (intro allI impI)
      fix i assume i: "0 < i \<and> i < Suc j"
      then obtain k where "i = Suc k" by (cases i) auto
      with i that(7) show "(until # d) ! i \<noteq> until" by simp
    qed
    then show ?thesis
      using until_after_refill [OF assms(1) that(1-4), of "Suc j" mall] that(5,6,8) assms(2,3) by auto
  qed
qed

theorem c_read_until_witness:
  "\<exists>a r'. reader_read_until bytes_of_zero 10 ex_reader = Some (Inr (Some a, r')) \<and>
     contents a = [97, 98, 10, 99, 10, 0]"
proof -
  have "\<forall>i. rd_cursor ex_reader \<le> i \<and> i \<le> rd_bytes ex_reader \<longrightarrow> rd_buf ex_reader ! i \<noteq> 10"
    by (auto simp: ex_reader_def nth_Cons')
  moreover have v: "rd_cursor ex_reader = 0" "rd_bytes ex_reader = 2" "rd_buf_size ex_reader = 3"
    "rd_source ex_reader = Some (10 # [99, 10]) # []" "rd_buf ex_reader = [97, 98, 46]"
    by (simp_all add: ex_reader_def)
  ultimately have "\<exists>a r'. reader_read_until bytes_of_zero 10 ex_reader = Some (Inr (Some a, r')) \<and>
      contents a = take (rd_bytes ex_reader - rd_cursor ex_reader) (drop (rd_cursor ex_reader) (rd_buf ex_reader)) @
        10 # take (1 + 1) [99, 10] @ [0]"
    by (intro c_read_until [of ex_reader bytes_of_zero 10, OF ex_reader_facts(1,3,4), THEN conjunct2,
        rule_format]) simp_all
  then show ?thesis by (simp add: v)
qed

end
