(* ===== verification/Mem_Heap.thy ===== *)
theory Mem_Heap
  imports Prelude "HOL-Library.Multiset"
begin

text \<open>
  The singly linked priority list of lib/memory/heap.c. The nodes live in one array
  (\<open>nodes\<close> of lib/memory/emalloc.c), so a \<open>MemoryHeapNode *\<close> is an optional index into it,
  and the memory is a map from indices to nodes. The loop of both operations, which walks
  to the first node of a condition, is \<open>heap_scan\<close>, a partial function: on a cyclic list it
  has no result (\<open>None\<close>).

  The lemmas relate the links to lists of addresses (\<open>hseg\<close>), for which pushing is sorted
  insertion by block size and popping removes the first node of the condition. The locale
  \<open>block_lists\<close> states that contract for the allocator, which keeps two lists in one memory.
\<close>

section \<open>Nodes and operations\<close>

record MemoryHeapNode =
  n_index :: nat
  n_block :: nat
  n_child :: "nat option"

type_synonym nodes = "nat \<Rightarrow> MemoryHeapNode"

definition set_child :: "nodes \<Rightarrow> nat \<Rightarrow> nat option \<Rightarrow> nodes" where
  "set_child st a c = st(a := (st a)\<lparr>n_child := c\<rparr>)"

text \<open>
  The conditions: the argument is read as a \<open>uint32_t\<close>, so of a larger value only the low
  32 bits count.
\<close>

definition sizeHeapPopCondition :: "nat \<Rightarrow> MemoryHeapNode \<Rightarrow> bool" where
  "sizeHeapPopCondition arg node \<longleftrightarrow> arg mod 2 ^ 32 \<le> n_block node"

definition ptrHeapPopCondition :: "nat \<Rightarrow> MemoryHeapNode \<Rightarrow> bool" where
  "ptrHeapPopCondition arg node \<longleftrightarrow> arg mod 2 ^ 32 = n_index node"

definition mergeHeapPopCondition :: "nat \<Rightarrow> MemoryHeapNode \<Rightarrow> bool" where
  "mergeHeapPopCondition arg node \<longleftrightarrow> n_index node + n_block node = arg mod 2 ^ 32"

text \<open>The loop: the node before the last one visited, that node, and whether it matched.\<close>

partial_function (option) heap_scan ::
  "(MemoryHeapNode \<Rightarrow> bool) \<Rightarrow> nodes \<Rightarrow> nat option \<Rightarrow> nat \<Rightarrow> (nat option \<times> nat \<times> bool) option" where
  "heap_scan cond st prev_node node =
     (if cond (st node) then Some (prev_node, node, True)
      else case n_child (st node) of
          None \<Rightarrow> Some (prev_node, node, False)
        | Some child \<Rightarrow> heap_scan cond st (Some node) child)"

declare heap_scan.simps [code]

definition memoryHeapPush :: "nodes \<Rightarrow> nat option \<Rightarrow> nat \<Rightarrow> (nodes \<times> nat option) option" where
  "memoryHeapPush st root newNode =
     (case root of
        None \<Rightarrow> Some (st, Some newNode)
      | Some r \<Rightarrow>
          (case heap_scan (\<lambda>n. n_block (st newNode) < n_block n) st None r of
             None \<Rightarrow> None
           | Some (prev_node, node, match) \<Rightarrow>
               if match
               then (case prev_node of
                       None \<Rightarrow> Some (set_child st newNode (Some node), Some newNode)
                     | Some p \<Rightarrow> Some (set_child (set_child st p (Some newNode)) newNode (Some node), root))
               else Some (set_child (set_child st node (Some newNode)) newNode None, root)))"

definition memoryHeapPop ::
  "(MemoryHeapNode \<Rightarrow> bool) \<Rightarrow> nodes \<Rightarrow> nat option \<Rightarrow> (nodes \<times> nat option \<times> nat option) option" where
  "memoryHeapPop cond st root =
     (case root of
        None \<Rightarrow> Some (st, root, None)
      | Some r \<Rightarrow>
          (case heap_scan cond st None r of
             None \<Rightarrow> None
           | Some (prev_node, node, match) \<Rightarrow>
               if match
               then (case prev_node of
                       None \<Rightarrow> Some (set_child st node None, n_child (st node), Some node)
                     | Some p \<Rightarrow>
                         Some (set_child (set_child st p (n_child (st node))) node None, root, Some node))
               else Some (st, root, None)))"

section \<open>Segments\<close>

primrec hseg :: "nodes \<Rightarrow> nat option \<Rightarrow> nat list \<Rightarrow> nat option \<Rightarrow> bool" where
  "hseg st r [] e \<longleftrightarrow> r = e"
| "hseg st r (x # xs) e \<longleftrightarrow> r = Some x \<and> hseg st (n_child (st x)) xs e"

lemma set_child_other [simp]: "a \<noteq> b \<Longrightarrow> set_child st a c b = st b"
  by (simp add: set_child_def)

lemma set_child_fields [simp]:
  "n_index (set_child st a c b) = n_index (st b)" "n_block (set_child st a c b) = n_block (st b)"
  "n_child (set_child st a c a) = c"
  by (simp_all add: set_child_def)

lemma hseg_append: "hseg st r (xs @ ys) e \<longleftrightarrow> (\<exists>m. hseg st r xs m \<and> hseg st m ys e)"
  by (induction xs arbitrary: r) auto

lemma hseg_frame: "(\<And>x. x \<in> set xs \<Longrightarrow> n_child (st' x) = n_child (st x)) \<Longrightarrow>
  hseg st r xs e \<Longrightarrow> hseg st' r xs e"
  by (induction xs arbitrary: r) auto

lemma hseg_set_child [simp]: "a \<notin> set xs \<Longrightarrow> hseg (set_child st a c) r xs e = hseg st r xs e"
  by (induction xs arbitrary: r) auto

lemma hseg_last: "hseg st r (xs @ [p]) e \<Longrightarrow> p \<notin> set xs \<Longrightarrow> hseg (set_child st p c) r (xs @ [p]) c"
  by (auto simp: hseg_append)

text \<open>The scan, over a list of addresses.\<close>

fun scan_list :: "(MemoryHeapNode \<Rightarrow> bool) \<Rightarrow> nodes \<Rightarrow> nat option \<Rightarrow> nat list \<Rightarrow> nat option \<times> nat \<times> bool"
where
  "scan_list cond st prev [] = (prev, 0, False)"
| "scan_list cond st prev [x] = (prev, x, cond (st x))"
| "scan_list cond st prev (x # y # xs) =
     (if cond (st x) then (prev, x, True) else scan_list cond st (Some x) (y # xs))"

lemma heap_scan_list:
  "hseg st (Some x) (x # xs) None \<Longrightarrow> heap_scan cond st prev x = Some (scan_list cond st prev (x # xs))"
proof (induction xs arbitrary: x prev)
  case Nil
  then show ?case by (subst heap_scan.simps) simp
next
  case (Cons y ys)
  then show ?case by (subst heap_scan.simps) simp
qed

lemma scan_list_match:
  "\<forall>a \<in> set ys. \<not> cond (st a) \<Longrightarrow> cond (st z) \<Longrightarrow>
   scan_list cond st prev (ys @ z # zs) = ((if ys = [] then prev else Some (last ys)), z, True)"
proof (induction ys arbitrary: prev)
  case Nil
  then show ?case by (cases zs) auto
next
  case (Cons y ys)
  then show ?case by (cases ys) auto
qed

lemma scan_list_none:
  "\<forall>a \<in> set (ys @ [z]). \<not> cond (st a) \<Longrightarrow>
   scan_list cond st prev (ys @ [z]) = ((if ys = [] then prev else Some (last ys)), z, False)"
proof (induction ys arbitrary: prev)
  case Nil
  then show ?case by simp
next
  case (Cons y ys)
  then show ?case by (cases ys) auto
qed

section \<open>Popping\<close>

text \<open>The same blocks at the same addresses: what the list operations leave alone.\<close>

definition same_blocks :: "nodes \<Rightarrow> nodes \<Rightarrow> bool" where
  "same_blocks st st' \<longleftrightarrow>
     (\<forall>a. n_index (st' a) = n_index (st a) \<and> n_block (st' a) = n_block (st a))"

lemma pop_match:
  assumes "hseg st root (ys @ z # zs) None" "distinct (ys @ z # zs)"
    and "\<forall>a \<in> set ys. \<not> cond (st a)" "cond (st z)"
  shows "\<exists>st' root'. memoryHeapPop cond st root = Some (st', root', Some z) \<and>
    hseg st' root' (ys @ zs) None \<and> n_child (st' z) = None \<and> same_blocks st st' \<and>
    (\<forall>a. a \<notin> set (ys @ z # zs) \<longrightarrow> st' a = st a)"
proof -
  obtain r where r: "root = Some r" "hd (ys @ z # zs) = r"
    using assms(1) by (cases ys) auto
  have "heap_scan cond st None r = Some (scan_list cond st None (ys @ z # zs))"
    using heap_scan_list [of st r "tl (ys @ z # zs)" cond None] assms(1) r by (cases ys) auto
  then have scan: "heap_scan cond st None r = Some ((if ys = [] then None else Some (last ys)), z, True)"
    by (simp only: scan_list_match [OF assms(3,4)])
  have segs: "hseg st root ys (Some z)" "hseg st (n_child (st z)) zs None"
    using assms(1) by (auto simp: hseg_append)
  show ?thesis
  proof (cases ys rule: rev_cases)
    case Nil
    then show ?thesis using scan r segs assms(2)
      by (auto simp: memoryHeapPop_def same_blocks_def)
  next
    case (snoc ps p)
    let ?st = "set_child (set_child st p (n_child (st z))) z None"
    have "hseg (set_child st p (n_child (st z))) root (ps @ [p]) (n_child (st z))"
      using segs(1) assms(2) snoc by (auto intro: hseg_last)
    then have "hseg ?st root (ps @ [p]) (n_child (st z))" "hseg ?st (n_child (st z)) zs None"
      using assms(2) snoc segs(2) by auto
    then show ?thesis using scan r snoc
      by (auto simp: memoryHeapPop_def same_blocks_def hseg_append)
  qed
qed

lemma pop_none:
  assumes "hseg st root xs None" "\<forall>a \<in> set xs. \<not> cond (st a)"
  shows "memoryHeapPop cond st root = Some (st, root, None)"
proof (cases xs rule: rev_cases)
  case Nil
  then show ?thesis using assms by (simp add: memoryHeapPop_def)
next
  case (snoc ps p)
  obtain r where r: "root = Some r" "hd (ps @ [p]) = r"
    using assms(1) snoc by (cases ps) auto
  have "heap_scan cond st None r = Some (scan_list cond st None (ps @ [p]))"
    using heap_scan_list [of st r "tl (ps @ [p])" cond None] assms(1) snoc r by (cases ps) auto
  then have "heap_scan cond st None r = Some ((if ps = [] then None else Some (last ps)), p, False)"
    using scan_list_none [of ps p cond st None] assms(2) snoc by simp
  then show ?thesis using r by (simp add: memoryHeapPop_def)
qed

section \<open>Pushing\<close>

text \<open>Where a new address goes: before the first node of a larger block.\<close>

definition ins_block :: "(nat \<Rightarrow> nat) \<Rightarrow> nat \<Rightarrow> nat list \<Rightarrow> nat list" where
  "ins_block sz a xs = takeWhile (\<lambda>b. sz b \<le> sz a) xs @ a # dropWhile (\<lambda>b. sz b \<le> sz a) xs"

lemma push_at:
  assumes "hseg st root (ys @ zs) None" "distinct (a # ys @ zs)" "n_child (st a) = None"
    and "\<forall>b \<in> set ys. n_block (st b) \<le> n_block (st a)"
    and "\<forall>z. zs \<noteq> [] \<longrightarrow> n_block (st a) < n_block (st (hd zs))"
  shows "\<exists>st' root'. memoryHeapPush st root a = Some (st', root') \<and>
    hseg st' root' (ys @ a # zs) None \<and> same_blocks st st' \<and>
    (\<forall>b. b \<notin> set (a # ys @ zs) \<longrightarrow> st' b = st b)"
proof (cases "ys @ zs")
  case Nil
  then show ?thesis using assms by (simp add: memoryHeapPush_def same_blocks_def)
next
  case (Cons r rs)
  let ?cond = "\<lambda>n. n_block (st a) < n_block n"
  have root: "root = Some r" using assms(1) Cons by simp
  have scan: "heap_scan ?cond st None r = Some (scan_list ?cond st None (ys @ zs))"
    using heap_scan_list [of st r rs] assms(1) Cons by simp
  obtain m where segs: "hseg st root ys m" "hseg st m zs None"
    using assms(1) by (auto simp: hseg_append)
  show ?thesis
  proof (cases zs)
    case Nil
    then obtain ps p where ys: "ys = ps @ [p]" using Cons by (cases ys rule: rev_cases) auto
    have "scan_list ?cond st None (ys @ zs) = ((if ps = [] then None else Some (last ps)), p, False)"
      using scan_list_none [of ps p ?cond st None] assms(4) Nil ys by (simp add: not_less)
    moreover have "hseg (set_child st p (Some a)) root (ps @ [p]) (Some a)"
      using segs(1) assms(2) ys by (auto intro: hseg_last)
    then have "hseg (set_child (set_child st p (Some a)) a None) root (ps @ [p]) (Some a)"
      using assms(2) ys by auto
    ultimately show ?thesis using scan root ys Nil
      by (auto simp: memoryHeapPush_def same_blocks_def hseg_append)
  next
    case zs: (Cons z zs')
    then have match: "scan_list ?cond st None (ys @ zs) = ((if ys = [] then None else Some (last ys)), z, True)"
      using scan_list_match [of ys ?cond st z None zs'] assms(4,5) by (simp add: not_less)
    have mz: "m = Some z" using segs(2) zs by simp
    show ?thesis
    proof (cases ys rule: rev_cases)
      case Nil
      then show ?thesis using scan match root zs assms(1,2)
        by (auto simp: memoryHeapPush_def same_blocks_def)
    next
      case (snoc ps p)
      let ?st = "set_child (set_child st p (Some a)) a (Some z)"
      have "hseg (set_child st p (Some a)) root (ps @ [p]) (Some a)"
        using segs(1) assms(2) snoc by (auto intro: hseg_last)
      then have "hseg ?st root (ps @ [p]) (Some a)" "hseg ?st (Some z) zs None"
        using assms(2) snoc segs(2) mz by auto
      then show ?thesis using scan match root snoc zs
        by (auto simp: memoryHeapPush_def same_blocks_def hseg_append)
    qed
  qed
qed

lemma push_ins:
  assumes "hseg st root xs None" "distinct (a # xs)" "n_child (st a) = None"
  shows "\<exists>st' root'. memoryHeapPush st root a = Some (st', root') \<and>
    hseg st' root' (ins_block (\<lambda>b. n_block (st b)) a xs) None \<and> same_blocks st st' \<and>
    (\<forall>b. b \<notin> set (a # xs) \<longrightarrow> st' b = st b)"
proof -
  let ?P = "\<lambda>b. n_block (st b) \<le> n_block (st a)"
  have xs: "takeWhile ?P xs @ dropWhile ?P xs = xs" by simp
  have "\<forall>z. dropWhile ?P xs \<noteq> [] \<longrightarrow> n_block (st a) < n_block (st (hd (dropWhile ?P xs)))"
    using hd_dropWhile [of ?P xs] by (auto simp: not_le)
  then show ?thesis
    using push_at [of st root "takeWhile ?P xs" "dropWhile ?P xs" a] assms
    by (auto simp: ins_block_def dest: set_takeWhileD)
qed

lemma mset_ins_block: "mset (ins_block sz a xs) = add_mset a (mset xs)"
  by (metis ins_block_def mset.simps(2) mset_append takeWhile_dropWhile_id union_mset_add_mset_right)

lemma set_ins_block [simp]: "set (ins_block sz a xs) = insert a (set xs)"
  by (metis mset_ins_block set_mset_add_mset_insert set_mset_mset)

lemma distinct_ins_block [simp]: "distinct (ins_block sz a xs) = distinct (a # xs)"
  by (metis mset_ins_block mset.simps(2) mset_eq_imp_distinct_iff)

lemma sorted_ins_block:
  assumes "sorted (map sz xs)"
  shows "sorted (map sz (ins_block sz a xs))"
  using assms
proof (induction xs)
  case Nil
  then show ?case by (simp add: ins_block_def)
next
  case (Cons x xs)
  then show ?case by (auto simp: ins_block_def dest: set_takeWhileD set_dropWhileD)
qed

section \<open>The contract for the allocator\<close>

text \<open>
  Two lists in one memory: \<open>holds m r xs\<close> says that the list of root \<open>r\<close> has the addresses
  \<open>xs\<close>; \<open>loose m a\<close> that the node at \<open>a\<close> has no successor; \<open>put m a i s\<close> writes a loose
  node. Operations on one list do not disturb a list with other addresses.
\<close>

locale block_lists =
  fixes holds :: "'m \<Rightarrow> 'r \<Rightarrow> nat list \<Rightarrow> bool"
    and index_of :: "'m \<Rightarrow> nat \<Rightarrow> nat"
    and size_of :: "'m \<Rightarrow> nat \<Rightarrow> nat"
    and loose :: "'m \<Rightarrow> nat \<Rightarrow> bool"
    and test :: "'c \<Rightarrow> 'm \<Rightarrow> nat \<Rightarrow> bool"
    and put :: "'m \<Rightarrow> nat \<Rightarrow> nat \<Rightarrow> nat \<Rightarrow> 'm"
    and push :: "'m \<Rightarrow> 'r \<Rightarrow> nat \<Rightarrow> ('m \<times> 'r) option"
    and pop :: "'c \<Rightarrow> 'm \<Rightarrow> 'r \<Rightarrow> ('m \<times> 'r \<times> nat option) option"
  assumes push_law: "holds m r xs \<Longrightarrow> a \<notin> set xs \<Longrightarrow> loose m a \<Longrightarrow>
      \<exists>m' r'. push m r a = Some (m', r') \<and> holds m' r' (ins_block (size_of m) a xs) \<and>
        size_of m' = size_of m \<and> index_of m' = index_of m \<and>
        (\<forall>r2 us. holds m r2 us \<longrightarrow> set us \<inter> insert a (set xs) = {} \<longrightarrow> holds m' r2 us)"
    and pop_law: "holds m r (ys @ z # zs) \<Longrightarrow> \<forall>a \<in> set ys. \<not> test c m a \<Longrightarrow> test c m z \<Longrightarrow>
      \<exists>m' r'. pop c m r = Some (m', r', Some z) \<and> holds m' r' (ys @ zs) \<and> loose m' z \<and>
        size_of m' = size_of m \<and> index_of m' = index_of m \<and>
        (\<forall>r2 us. holds m r2 us \<longrightarrow> set us \<inter> set (ys @ z # zs) = {} \<longrightarrow> holds m' r2 us)"
    and pop_miss: "holds m r xs \<Longrightarrow> \<forall>a \<in> set xs. \<not> test c m a \<Longrightarrow> pop c m r = Some (m, r, None)"
    and put_law: "holds m r xs \<Longrightarrow> a \<notin> set xs \<Longrightarrow> holds (put m a i s) r xs"
    and put_loose: "loose (put m a i s) a"
    and put_sizes: "size_of (put m a i s) = (size_of m)(a := s)"
      "index_of (put m a i s) = (index_of m)(a := i)"
    and holds_distinct: "holds m r xs \<Longrightarrow> distinct xs"
begin

text \<open>Moving the first node of a condition from one list to the other.\<close>

lemma transfer:
  assumes "holds m r1 (ys @ z # zs)" "holds m r2 us" "set us \<inter> set (ys @ z # zs) = {}"
    and "\<forall>a \<in> set ys. \<not> test c m a" "test c m z"
  shows "\<exists>m1 r1' m2 r2'. pop c m r1 = Some (m1, r1', Some z) \<and> size_of m1 = size_of m \<and>
    index_of m1 = index_of m \<and> push m1 r2 z = Some (m2, r2') \<and>
    holds m2 r1' (ys @ zs) \<and> holds m2 r2' (ins_block (size_of m) z us) \<and>
    size_of m2 = size_of m \<and> index_of m2 = index_of m"
proof -
  from pop_law [OF assms(1,4,5)] obtain m1 r1' where 1: "pop c m r1 = Some (m1, r1', Some z)"
    "holds m1 r1' (ys @ zs)" "loose m1 z" "size_of m1 = size_of m" "index_of m1 = index_of m"
    "holds m1 r2 us"
    using assms(2,3) by blast
  have z: "z \<notin> set us" using assms(3) by auto
  have "set (ys @ zs) \<inter> insert z (set us) = {}"
    using assms(3) holds_distinct [OF assms(1)] by auto
  with push_law [OF 1(6) z 1(3)] 1 show ?thesis by fastforce
qed

text \<open>Splitting a node: the rest goes back to the first list, the node to the second.\<close>

lemma split_node:
  assumes "holds m r1 (ys @ z # zs)" "holds m r2 us" "set us \<inter> set (ys @ z # zs) = {}"
    and "\<forall>a \<in> set ys. \<not> test c m a" "test c m z"
    and f: "f \<noteq> z" "f \<notin> set ys \<union> set zs \<union> set us"
  shows "\<exists>m1 r1' m2 r1'' m3 r2'. pop c m r1 = Some (m1, r1', Some z) \<and>
    size_of m1 = size_of m \<and> index_of m1 = index_of m \<and>
    push (put m1 f fi fs) r1' f = Some (m2, r1'') \<and>
    index_of m2 = (index_of m)(f := fi) \<and> size_of m2 = (size_of m)(f := fs) \<and>
    push (put m2 z zi zs') r2 z = Some (m3, r2') \<and>
    holds m3 r1'' (ins_block ((size_of m)(f := fs)) f (ys @ zs)) \<and>
    holds m3 r2' (ins_block ((size_of m)(f := fs, z := zs')) z us) \<and>
    size_of m3 = (size_of m)(f := fs, z := zs') \<and> index_of m3 = (index_of m)(f := fi, z := zi)"
proof -
  from pop_law [OF assms(1,4,5)] obtain m1 r1' where 1: "pop c m r1 = Some (m1, r1', Some z)"
    "holds m1 r1' (ys @ zs)" "loose m1 z" "size_of m1 = size_of m" "index_of m1 = index_of m"
    "holds m1 r2 us"
    using assms(2,3) by blast
  let ?p = "put m1 f fi fs"
  have p: "holds ?p r1' (ys @ zs)" "holds ?p r2 us" using put_law 1(2,6) f by auto
  have fn: "f \<notin> set (ys @ zs)" "set us \<inter> insert f (set (ys @ zs)) = {}"
    using f assms(3) by auto
  from push_law [OF p(1) fn(1) put_loose] p(2) fn(2) obtain m2 r1'' where 2:
    "push ?p r1' f = Some (m2, r1'')" "holds m2 r1'' (ins_block (size_of ?p) f (ys @ zs))"
    "size_of m2 = size_of ?p" "index_of m2 = index_of ?p" "holds m2 r2 us"
    by blast
  let ?q = "put m2 z zi zs'"
  have zn: "z \<notin> set (ins_block (size_of ?p) f (ys @ zs))" "z \<notin> set us"
    using assms(1,3) f holds_distinct by fastforce+
  have q: "holds ?q r1'' (ins_block (size_of ?p) f (ys @ zs))" "holds ?q r2 us"
    using put_law 2(2,5) zn by auto
  have disj: "set (ins_block (size_of ?p) f (ys @ zs)) \<inter> insert z (set us) = {}"
    using zn fn assms(3) by auto
  from push_law [OF q(2) zn(2) put_loose] q(1) disj obtain m3 r2' where 3:
    "push ?q r2 z = Some (m3, r2')" "holds m3 r2' (ins_block (size_of ?q) z us)"
    "size_of m3 = size_of ?q" "index_of m3 = index_of ?q"
    "holds m3 r1'' (ins_block (size_of ?p) f (ys @ zs))"
    by blast
  show ?thesis using 1 2 3 by (auto simp: put_sizes)
qed

text \<open>Merging: a node of the second list is dropped and one of the first list resized.\<close>

lemma merge_node:
  assumes "holds m r2 (us @ p # vs)" "holds m r1 (ys @ z # zs)"
    and "set (us @ p # vs) \<inter> set (ys @ z # zs) = {}"
    and "\<forall>a \<in> set us. \<not> test c m a" "test c m p"
    and "\<And>m'. size_of m' = size_of m \<Longrightarrow> index_of m' = index_of m \<Longrightarrow>
      (\<forall>a \<in> set ys. \<not> test d m' a) \<and> test d m' z"
  shows "\<exists>m1 r2' m2 r1' m3 r1''. pop c m r2 = Some (m1, r2', Some p) \<and>
    size_of m1 = size_of m \<and> index_of m1 = index_of m \<and>
    pop d m1 r1 = Some (m2, r1', Some z) \<and> loose m2 z \<and>
    size_of m2 = size_of m \<and> index_of m2 = index_of m \<and>
    push (put m2 z zi s) r1' z = Some (m3, r1'') \<and>
    holds m3 r2' (us @ vs) \<and> holds m3 r1'' (ins_block ((size_of m)(z := s)) z (ys @ zs)) \<and>
    size_of m3 = (size_of m)(z := s) \<and> index_of m3 = (index_of m)(z := zi)"
proof -
  have sym: "set (ys @ z # zs) \<inter> set (us @ p # vs) = {}" using assms(3) by blast
  from pop_law [OF assms(1,4,5)] sym assms(2) obtain m1 r2' where 1: "pop c m r2 = Some (m1, r2', Some p)"
    "holds m1 r2' (us @ vs)" "size_of m1 = size_of m" "index_of m1 = index_of m"
    "holds m1 r1 (ys @ z # zs)"
    by blast
  have d: "\<forall>a \<in> set ys. \<not> test d m1 a" "test d m1 z" using assms(6) [OF 1(3,4)] by simp_all
  have "set (us @ vs) \<inter> set (ys @ z # zs) = {}" using assms(3) by auto
  with pop_law [OF 1(5) d] 1(2) obtain m2 r1' where 2: "pop d m1 r1 = Some (m2, r1', Some z)"
    "holds m2 r1' (ys @ zs)" "loose m2 z" "size_of m2 = size_of m1" "index_of m2 = index_of m1"
    "holds m2 r2' (us @ vs)"
    by blast
  let ?q = "put m2 z zi s"
  have zn: "z \<notin> set (ys @ zs)" "z \<notin> set (us @ vs)"
    using holds_distinct [OF assms(2)] assms(3) by auto
  have q: "holds ?q r1' (ys @ zs)" "holds ?q r2' (us @ vs)" using put_law 2(2,6) zn by auto
  have "set (us @ vs) \<inter> insert z (set (ys @ zs)) = {}" using assms(3) by auto
  with push_law [OF q(1) zn(1) put_loose] q(2) obtain m3 r1'' where 3:
    "push ?q r1' z = Some (m3, r1'')" "holds m3 r1'' (ins_block (size_of ?q) z (ys @ zs))"
    "size_of m3 = size_of ?q" "index_of m3 = index_of ?q" "holds m3 r2' (us @ vs)"
    by blast
  show ?thesis using 1 2 3 by (auto simp: put_sizes)
qed

end

text \<open>The linked lists meet the contract.\<close>

definition holds_list :: "nodes \<Rightarrow> nat option \<Rightarrow> nat list \<Rightarrow> bool" where
  "holds_list st r xs \<longleftrightarrow> hseg st r xs None \<and> distinct xs"

definition put_node :: "nodes \<Rightarrow> nat \<Rightarrow> nat \<Rightarrow> nat \<Rightarrow> nodes" where
  "put_node st a i s = st(a := \<lparr>n_index = i, n_block = s, n_child = None\<rparr>)"

lemma same_blocks_fun: "same_blocks st st' \<longleftrightarrow>
  (\<lambda>a. n_index (st' a)) = (\<lambda>a. n_index (st a)) \<and> (\<lambda>a. n_block (st' a)) = (\<lambda>a. n_block (st a))"
  by (auto simp: same_blocks_def fun_eq_iff)

interpretation mh: block_lists holds_list "\<lambda>st a. n_index (st a)" "\<lambda>st a. n_block (st a)"
  "\<lambda>st a. n_child (st a) = None" "\<lambda>c st a. c (st a)" put_node memoryHeapPush memoryHeapPop
proof (unfold_locales, goal_cases)
  case (1 m r xs a)
  then obtain m' r' where "memoryHeapPush m r a = Some (m', r')"
    "hseg m' r' (ins_block (\<lambda>b. n_block (m b)) a xs) None" "same_blocks m m'"
    "\<forall>b. b \<notin> set (a # xs) \<longrightarrow> m' b = m b"
    using push_ins [of m r xs a] by (auto simp: holds_list_def)
  moreover have "hseg m' r2 us None" if "hseg m r2 us None" "set us \<inter> insert a (set xs) = {}" for r2 us
    using hseg_frame [OF _ that(1), of m'] that(2) calculation(4) by fastforce
  ultimately show ?case using 1 by (auto simp: holds_list_def same_blocks_fun)
next
  case (2 m r ys z zs c)
  then obtain m' r' where "memoryHeapPop c m r = Some (m', r', Some z)" "hseg m' r' (ys @ zs) None"
    "n_child (m' z) = None" "same_blocks m m'" "\<forall>b. b \<notin> set (ys @ z # zs) \<longrightarrow> m' b = m b"
    using pop_match [of m r ys z zs c] by (auto simp: holds_list_def)
  moreover have "hseg m' r2 us None" if "hseg m r2 us None" "set us \<inter> set (ys @ z # zs) = {}" for r2 us
    using hseg_frame [OF _ that(1), of m'] that(2) calculation(5) by fastforce
  ultimately show ?case using 2 by (auto simp: holds_list_def same_blocks_fun)
next
  case (3 m r xs c)
  then show ?case using pop_none [of m r xs c] by (simp add: holds_list_def)
next
  case (4 m r xs a i s)
  then have "n_child (put_node m a i s x) = n_child (m x)" if "x \<in> set xs" for x
    using that by (auto simp: put_node_def)
  then show ?case using 4 hseg_frame [of xs "put_node m a i s" m r None] by (simp add: holds_list_def)
qed (simp_all add: put_node_def holds_list_def fun_eq_iff)

end
