(* ===== verification/Emalloc.thy ===== *)
theory Emalloc
  imports Mem_Heap
begin

text \<open>
  The allocator of lib/memory/emalloc.c: a static memory of \<open>N\<close> bytes
  (\<open>DYNAMIC_MEMORY_SIZE\<close>, a configuration macro and so a parameter) described by a free list
  and a list of used blocks over one array of nodes, the node of a block at the block's
  first address. A returned pointer is the offset into \<open>dynamic_memories\<close>. \<open>block_size\<close> is a
  \<open>uint16_t\<close>, so values stored there are reduced. A result \<open>None\<close> of an operation stands for
  no defined result (a list that does not end, a node outside the array); the lemmas show
  that it does not occur.

  \<open>emem N s xs ys\<close> is the invariant: the free blocks \<open>xs\<close>, in the order of their sizes, and
  the used blocks \<open>ys\<close> tile the memory.
\<close>

section \<open>State and operations\<close>

record heap_state =
  hs_nodes :: nodes
  hs_freed :: "nat option"
  hs_used :: "nat option"

definition initializeData :: "nat \<Rightarrow> heap_state \<Rightarrow> heap_state option" where
  "initializeData N s =
     (if hs_freed s = None \<and> hs_used s = None
      then let st = put_node (hs_nodes s) 0 0 (N mod 2 ^ 16) in
        (case memoryHeapPush st (hs_freed s) 0 of
           None \<Rightarrow> None
         | Some (st', r) \<Rightarrow> Some (s\<lparr>hs_nodes := st', hs_freed := r\<rparr>))
      else Some s)"

definition emalloc_split :: "nat \<Rightarrow> nat \<Rightarrow> nat \<Rightarrow> heap_state \<Rightarrow> (nat option \<times> heap_state) option" where
  "emalloc_split N n node s =
     (let st = hs_nodes s;
          freed_index = (n_index (st node) + n) mod 2 ^ 32
      in if N \<le> freed_index then None
         else (case memoryHeapPush
             (put_node st freed_index freed_index (nat ((int (n_block (st node)) - int n) mod 2 ^ 16)))
             (hs_freed s) freed_index of
               None \<Rightarrow> None
             | Some (st1, freed) \<Rightarrow>
                 let i = n_index (st1 node) in
                 (case memoryHeapPush (put_node st1 i i (n mod 2 ^ 16)) (hs_used s) i of
                    None \<Rightarrow> None
                  | Some (st2, used) \<Rightarrow>
                      Some (Some (n_index (st node)),
                        \<lparr>hs_nodes = st2, hs_freed = freed, hs_used = used\<rparr>))))"

definition emalloc :: "nat \<Rightarrow> nat \<Rightarrow> heap_state \<Rightarrow> (nat option \<times> heap_state) option" where
  "emalloc N n s0 =
     (case initializeData N s0 of
        None \<Rightarrow> None
      | Some s \<Rightarrow>
          if n < 1 then Some (None, s)
          else (case memoryHeapPop (sizeHeapPopCondition n) (hs_nodes s) (hs_freed s) of
              None \<Rightarrow> None
            | Some (st, freed, None) \<Rightarrow> Some (None, s\<lparr>hs_nodes := st, hs_freed := freed\<rparr>)
            | Some (st, freed, Some node) \<Rightarrow>
                let s1 = s\<lparr>hs_nodes := st, hs_freed := freed\<rparr> in
                if n_block (st node) < n \<or> N \<le> n_index (st node) then Some (None, s1)
                else if n_block (st node) = n
                then (case memoryHeapPush st (hs_used s1) node of
                        None \<Rightarrow> None
                      | Some (st', used) \<Rightarrow>
                          Some (Some (n_index (st node)), s1\<lparr>hs_nodes := st', hs_used := used\<rparr>))
                else emalloc_split N n node s1))"

definition efree :: "nat \<Rightarrow> nat option \<Rightarrow> heap_state \<Rightarrow> heap_state option" where
  "efree N ptr s =
     (case ptr of
        None \<Rightarrow> Some s
      | Some p \<Rightarrow>
          let index = p mod 2 ^ 32 in
          if N \<le> index then Some s
          else (case memoryHeapPop (ptrHeapPopCondition index) (hs_nodes s) (hs_used s) of
              None \<Rightarrow> None
            | Some (st, used, None) \<Rightarrow> Some (s\<lparr>hs_nodes := st, hs_used := used\<rparr>)
            | Some (st, used, Some freed) \<Rightarrow>
                (case memoryHeapPop (mergeHeapPopCondition index) st (hs_freed s) of
                   None \<Rightarrow> None
                 | Some (st1, fr, None) \<Rightarrow>
                     (case memoryHeapPush st1 fr freed of
                        None \<Rightarrow> None
                      | Some (st2, fr2) \<Rightarrow> Some \<lparr>hs_nodes = st2, hs_freed = fr2, hs_used = used\<rparr>)
                 | Some (st1, fr, Some found) \<Rightarrow>
                     let st2 = st1(found := (st1 found)
                           \<lparr>n_block := (n_block (st1 found) + n_block (st1 freed)) mod 2 ^ 16\<rparr>)
                     in (case memoryHeapPush st2 fr found of
                           None \<Rightarrow> None
                         | Some (st3, fr2) \<Rightarrow> Some \<lparr>hs_nodes = st3, hs_freed = fr2, hs_used = used\<rparr>))))"

section \<open>Tilings\<close>

definition tiles :: "nat \<Rightarrow> (nat \<Rightarrow> nat) \<Rightarrow> (nat \<Rightarrow> nat) \<Rightarrow> nat set \<Rightarrow> bool" where
  "tiles N idx sz A \<longleftrightarrow> finite A \<and>
     (\<forall>a \<in> A. idx a = a \<and> 0 < sz a \<and> a + sz a \<le> N) \<and>
     (\<forall>a \<in> A. \<forall>b \<in> A. a < b \<longrightarrow> a + sz a \<le> b) \<and> sum sz A = N"

lemma tiles_split_fresh:
  "tiles N idx sz A \<Longrightarrow> a \<in> A \<Longrightarrow> 0 < k \<Longrightarrow> k < sz a \<Longrightarrow> a + k \<notin> A \<and> a + k < N"
  unfolding tiles_def by (meson add_less_mono1 less_add_same_cancel1 linorder_not_le
      nat_add_left_cancel_less order_less_le_trans)

lemma tiles_split:
  assumes "tiles N idx sz A" "a \<in> A" "0 < k" "k < sz a"
  shows "tiles N (idx(a + k := a + k, a := a)) (sz(a + k := sz a - k, a := k)) (insert (a + k) A)"
proof -
  let ?f = "a + k"
  let ?sz = "sz(?f := sz a - k, a := k)"
  have f: "?f \<notin> A" "?f < N" using tiles_split_fresh [OF assms] by simp_all
  have fin: "finite A" using assms(1) by (simp add: tiles_def)
  have "sum ?sz (insert ?f A) = ?sz ?f + sum ?sz A" using fin f by simp
  also have "sum ?sz A = ?sz a + sum ?sz (A - {a})" using fin assms(2) by (simp add: sum.remove)
  also have "sum ?sz (A - {a}) = sum sz (A - {a})" using f by (intro sum.cong) auto
  also have "?sz ?f + (?sz a + sum sz (A - {a})) = sz a + sum sz (A - {a})" using assms by simp
  also have "\<dots> = N" using assms(1,2) fin by (simp add: tiles_def sum.remove)
  finally have s: "sum ?sz (insert ?f A) = N" .
  have each: "\<forall>b \<in> A. idx b = b \<and> 0 < sz b \<and> b + sz b \<le> N"
    and disj: "\<And>b c. b \<in> A \<Longrightarrow> c \<in> A \<Longrightarrow> b < c \<Longrightarrow> b + sz b \<le> c"
    using assms(1) by (auto simp: tiles_def)
  have 1: "b + sz b \<le> a" if "b \<in> A" "b < a" for b using disj that assms(2) by blast
  have 2: "a + sz a \<le> b" if "b \<in> A" "a < b" for b using disj that assms(2) by blast
  have d: "b + ?sz b \<le> c" if bc: "b \<in> insert ?f A" "c \<in> insert ?f A" "b < c" for b c
  proof -
    consider "b = ?f" "c \<in> A" | "b = a" | "b \<in> A" "b \<noteq> a" "b \<noteq> ?f" using bc by blast
    then show ?thesis
    proof cases
      case b: 1
      then show ?thesis using bc(3) 2 [of c] assms(3,4) by auto
    next
      case b: 2
      show ?thesis
      proof (cases "c = ?f")
        case False
        then show ?thesis using b bc 2 [of c] assms(3,4) by auto
      qed (use b assms in simp)
    next
      case b: 3
      have "b + sz b \<le> c" if "c \<in> A" using disj [OF b(1) that bc(3)] .
      moreover have "b + sz b \<le> ?f" if "b < ?f"
        using b that 1 [of b] 2 [of b] assms(4) by (cases "b < a") auto
      ultimately show ?thesis using b bc by auto
    qed
  qed
  show ?thesis
    unfolding tiles_def using fin s d each f assms by auto
qed

lemma tiles_merge:
  assumes "tiles N idx sz A" "a \<in> A" "b \<in> A" "a + sz a = b"
  shows "tiles N (idx(a := a)) (sz(a := sz a + sz b)) (A - {b})"
proof -
  have fin: "finite A" and each: "\<forall>c \<in> A. idx c = c \<and> 0 < sz c \<and> c + sz c \<le> N"
    and disj: "\<And>c d. c \<in> A \<Longrightarrow> d \<in> A \<Longrightarrow> c < d \<Longrightarrow> c + sz c \<le> d"
    using assms(1) by (auto simp: tiles_def)
  have ab: "a \<noteq> b" using each assms by fastforce
  let ?sz = "sz(a := sz a + sz b)"
  have "sum ?sz (A - {b}) = ?sz a + sum ?sz (A - {b} - {a})"
    using fin assms(2) ab by (simp add: sum.remove)
  also have "sum ?sz (A - {b} - {a}) = sum sz (A - {b} - {a})" by (intro sum.cong) auto
  also have "?sz a + \<dots> = sz b + (sz a + sum sz (A - {b} - {a}))" by simp
  also have "\<dots> = sz b + sum sz (A - {b})"
    using fin assms(2) ab by (simp add: sum.remove [of "A - {b}" a])
  also have "\<dots> = N" using assms(1,3) fin by (simp add: tiles_def sum.remove)
  finally have s: "sum ?sz (A - {b}) = N" .
  have "a + (sz a + sz b) \<le> c" if "c \<in> A" "a < c" "c \<noteq> b" for c
    using disj [OF assms(2) that(1,2)] disj [OF assms(3) that(1)] that(3) assms(4) by linarith
  moreover have "a + ?sz a = b + sz b" using assms(4) by simp
  moreover have "b + sz b \<le> N" using each assms(3) by simp
  ultimately show ?thesis
    unfolding tiles_def using fin s each disj assms(2,3) ab
    by (intro conjI ballI impI) (auto split: if_splits)
qed

section \<open>The invariant\<close>

abbreviation blk :: "heap_state \<Rightarrow> nat \<Rightarrow> nat" where
  "blk s a \<equiv> n_block (hs_nodes s a)"

definition emem :: "nat \<Rightarrow> heap_state \<Rightarrow> nat list \<Rightarrow> nat list \<Rightarrow> bool" where
  "emem N s xs ys \<longleftrightarrow> holds_list (hs_nodes s) (hs_freed s) xs \<and> holds_list (hs_nodes s) (hs_used s) ys \<and>
     set xs \<inter> set ys = {} \<and> sorted (map (blk s) xs) \<and>
     tiles N (\<lambda>a. n_index (hs_nodes s a)) (blk s) (set xs \<union> set ys)"

lemma emem_blocks:
  assumes "emem N s xs ys" "a \<in> set xs \<union> set ys"
  shows "n_index (hs_nodes s a) = a" "0 < blk s a" "a + blk s a \<le> N"
  using assms by (auto simp: emem_def tiles_def)

lemma emem_initialized:
  assumes "emem N s xs ys" "0 < N"
  shows "initializeData N s = Some s"
proof -
  have "set xs \<union> set ys \<noteq> {}" using assms by (auto simp: emem_def tiles_def)
  then have "hs_freed s \<noteq> None \<or> hs_used s \<noteq> None"
    using assms(1) by (cases xs; cases ys) (auto simp: emem_def holds_list_def)
  then show ?thesis by (auto simp: initializeData_def)
qed

text \<open>The state at program start: no lists.\<close>

definition fresh :: "heap_state \<Rightarrow> bool" where
  "fresh s \<longleftrightarrow> hs_freed s = None \<and> hs_used s = None"

lemma fresh_initialized:
  assumes "fresh s" "0 < N" "N < 2 ^ 16"
  shows "\<exists>s'. initializeData N s = Some s' \<and> emem N s' [0] []"
  using assms
  by (simp add: fresh_def initializeData_def memoryHeapPush_def emem_def holds_list_def put_node_def
      tiles_def)

section \<open>Allocation\<close>

lemma emalloc_none:
  assumes "emem N s xs ys" "0 < N" "n < 2 ^ 32" "n = 0 \<or> (\<forall>a \<in> set xs. blk s a < n)"
  shows "emalloc N n s = Some (None, s)"
proof (cases "n = 0")
  case True
  then show ?thesis by (simp add: emalloc_def emem_initialized [OF assms(1,2)])
next
  case False
  have "holds_list (hs_nodes s) (hs_freed s) xs" using assms(1) by (simp add: emem_def)
  then have "memoryHeapPop (sizeHeapPopCondition n) (hs_nodes s) (hs_freed s) =
      Some (hs_nodes s, hs_freed s, None)"
    by (rule mh.pop_miss) (use assms False in \<open>auto simp: sizeHeapPopCondition_def not_le\<close>)
  then show ?thesis using False by (simp add: emalloc_def emem_initialized [OF assms(1,2)])
qed

text \<open>What an allocation that succeeds does to the lists.\<close>

definition allocated :: "nat \<Rightarrow> nat \<Rightarrow> heap_state \<Rightarrow> nat list \<Rightarrow> nat list \<Rightarrow> nat \<Rightarrow> heap_state \<Rightarrow> bool" where
  "allocated N n s xs ys a s' \<longleftrightarrow> (\<exists>xs' ys'. emem N s' xs' ys' \<and>
     set ys' = insert a (set ys) \<and>
     set xs' = set xs - {a} \<union> (if blk s a = n then {} else {a + n}) \<and>
     blk s' a = n \<and> (\<forall>b \<in> set xs \<union> set ys - {a}. blk s' b = blk s b))"

lemma allocatedI:
  assumes "emem N s' xs' ys'" "set ys' = insert a (set ys)"
    and "set xs' = set xs - {a} \<union> (if blk s a = n then {} else {a + n})" "blk s' = sz"
    and "sz a = n" "\<And>b. b \<in> set xs \<union> set ys \<Longrightarrow> b \<noteq> a \<Longrightarrow> sz b = blk s b"
  shows "allocated N n s xs ys a s'"
proof -
  have "blk s' b = sz b" for b using fun_cong [OF assms(4), of b] .
  then show ?thesis unfolding allocated_def using assms by blast
qed

lemma emalloc_some:
  assumes inv: "emem N s xs ys" and "N < 2 ^ 16" "0 < n" "n < 2 ^ 32"
    and xs: "xs = us @ a # vs" "\<forall>b \<in> set us. blk s b < n" "n \<le> blk s a"
  shows "\<exists>s'. emalloc N n s = Some (Some a, s') \<and> allocated N n s xs ys a s'"
proof -
  have ab: "n_index (hs_nodes s a) = a" "a + blk s a \<le> N"
    using emem_blocks [OF inv, of a] xs(1) by auto
  have N: "0 < N" using ab xs(3) assms(3) by linarith
  have small: "blk s a < 2 ^ 16" "n < 2 ^ 16" "a < N" using ab assms(2,3) xs(3) by linarith+
  have lists: "holds_list (hs_nodes s) (hs_freed s) (us @ a # vs)"
    "holds_list (hs_nodes s) (hs_used s) ys" "set ys \<inter> set (us @ a # vs) = {}"
    using inv xs(1) by (auto simp: emem_def)
  have dist: "distinct (us @ a # vs)" using lists(1) by (simp add: holds_list_def)
  have til: "tiles N (\<lambda>a. n_index (hs_nodes s a)) (blk s) (set xs \<union> set ys)"
    and sorted: "sorted (map (blk s) (us @ vs))"
    using inv xs(1) by (auto simp: emem_def sorted_append)
  have cond: "\<forall>b \<in> set us. \<not> sizeHeapPopCondition n (hs_nodes s b)"
    "sizeHeapPopCondition n (hs_nodes s a)"
    using xs(2,3) assms(4) by (auto simp: sizeHeapPopCondition_def not_le)
  show ?thesis
  proof (cases "blk s a = n")
    case True
    from mh.transfer [OF lists cond] obtain m1 r1 m2 r2 where
      1: "memoryHeapPop (sizeHeapPopCondition n) (hs_nodes s) (hs_freed s) = Some (m1, r1, Some a)"
      "memoryHeapPush m1 (hs_used s) a = Some (m2, r2)" and
      2: "(\<lambda>a. n_block (m1 a)) = blk s" "(\<lambda>a. n_index (m1 a)) = (\<lambda>a. n_index (hs_nodes s a))" and
      3: "holds_list m2 r1 (us @ vs)" "holds_list m2 r2 (ins_block (blk s) a ys)"
      "(\<lambda>a. n_block (m2 a)) = blk s" "(\<lambda>a. n_index (m2 a)) = (\<lambda>a. n_index (hs_nodes s a))"
      by blast
    let ?s = "\<lparr>hs_nodes = m2, hs_freed = r1, hs_used = r2\<rparr>"
    have "n_block (m1 a) = n" "n_index (m1 a) = a" using 2 True ab(1) by (metis)+
    then have e: "emalloc N n s = Some (Some a, ?s)"
      using 1 small assms(3) by (simp add: emalloc_def emem_initialized [OF inv N])
    have "set (us @ vs) \<union> set (ins_block (blk s) a ys) = set xs \<union> set ys" using xs(1) by auto
    then have "emem N ?s (us @ vs) (ins_block (blk s) a ys)"
      using 3 lists(3) til sorted dist by (auto simp: emem_def)
    moreover have "set (us @ vs) = set xs - {a}" using xs(1) dist by auto
    moreover have "blk ?s = blk s" using 3(3) by simp
    ultimately have "allocated N n s xs ys a ?s"
      using True by (intro allocatedI [where sz = "blk s" and xs' = "us @ vs"
          and ys' = "ins_block (blk s) a ys"]) simp_all
    then show ?thesis using e by blast
  next
    case False
    then have k: "n < blk s a" using xs(3) by simp
    let ?f = "a + n"
    have aA: "a \<in> set xs \<union> set ys" using xs(1) by simp
    have f: "?f \<notin> set xs \<union> set ys" "?f < N"
      using tiles_split_fresh [OF til aA assms(3) k] by simp_all
    have f': "?f \<noteq> a" "?f \<notin> set us \<union> set vs \<union> set ys" using f assms(3) xs(1) by auto
    let ?sz = "(blk s)(?f := blk s a - n, a := n)"
    from mh.split_node [OF lists cond f', of ?f "blk s a - n" a n] obtain m1 r1 m2 r1' m3 r2 where
      1: "memoryHeapPop (sizeHeapPopCondition n) (hs_nodes s) (hs_freed s) = Some (m1, r1, Some a)"
      "(\<lambda>a. n_block (m1 a)) = blk s" "(\<lambda>a. n_index (m1 a)) = (\<lambda>a. n_index (hs_nodes s a))" and
      2: "memoryHeapPush (put_node m1 ?f ?f (blk s a - n)) r1 ?f = Some (m2, r1')"
      "(\<lambda>a. n_index (m2 a)) = (\<lambda>a. n_index (hs_nodes s a))(?f := ?f)" and
      3: "memoryHeapPush (put_node m2 a a n) (hs_used s) a = Some (m3, r2)"
      "holds_list m3 r1' (ins_block ((blk s)(?f := blk s a - n)) ?f (us @ vs))"
      "holds_list m3 r2 (ins_block ?sz a ys)"
      "(\<lambda>a. n_block (m3 a)) = ?sz"
      "(\<lambda>b. n_index (m3 b)) = (\<lambda>b. n_index (hs_nodes s b))(?f := ?f, a := a)"
      by blast
    let ?s = "\<lparr>hs_nodes = m3, hs_freed = r1', hs_used = r2\<rparr>"
    have m1: "n_block (m1 a) = blk s a" "n_index (m1 a) = a" using 1 ab(1) by metis+
    have "n_index (m2 a) = a" using fun_cong [OF 2(2), of a] f'(1) ab(1) by simp
    moreover have "nat ((int (blk s a) - int n) mod 2 ^ 16) = blk s a - n"
      using k small by (simp add: of_nat_diff [symmetric] nat_mod_distrib del: of_nat_diff)
    moreover have "(a + n) mod 2 ^ 32 = ?f" using f(2) assms(2) by simp
    ultimately have "emalloc_split N n a (s\<lparr>hs_nodes := m1, hs_freed := r1\<rparr>) = Some (Some a, ?s)"
      using m1 2(1) 3(1) f(2) small by (simp add: emalloc_split_def)
    then have e: "emalloc N n s = Some (Some a, ?s)"
      using 1(1) m1 small assms(3) k by (simp add: emalloc_def emem_initialized [OF inv N])
    let ?xs = "ins_block ((blk s)(?f := blk s a - n)) ?f (us @ vs)"
    have xset: "set ?xs = insert ?f (set us \<union> set vs)" by simp
    have ins: "?xs = ins_block ?sz ?f (us @ vs)"
    proof -
      have "\<forall>b \<in> set (us @ vs). b \<noteq> a" using dist by auto
      then show ?thesis unfolding ins_block_def using f'(1)
        by (intro arg_cong2 [where f = append] arg_cong2 [where f = Cons] takeWhile_cong dropWhile_cong) auto
    qed
    have "map ?sz (us @ vs) = map (blk s) (us @ vs)"
      using dist f' by auto
    then have srt: "sorted (map ?sz ?xs)"
      unfolding ins using sorted by (intro sorted_ins_block) (simp only:)
    have "set ?xs \<union> set (ins_block ?sz a ys) = insert ?f (set xs \<union> set ys)" using xs(1) by auto
    moreover note tiles_split [OF til aA assms(3) k]
    ultimately have "emem N ?s ?xs (ins_block ?sz a ys)"
      using 3(2-5) lists(3) srt dist f' by (auto simp: emem_def)
    moreover have "set ?xs = set xs - {a} \<union> {a + n}" using xs(1) dist by auto
    moreover have "blk ?s = ?sz" using 3(4) by simp
    moreover have "set (ins_block ?sz a ys) = insert a (set ys)" by simp
    ultimately have "allocated N n s xs ys a ?s"
      using False f
      by (intro allocatedI [where sz = ?sz and xs' = ?xs and ys' = "ins_block ?sz a ys"]) auto
    then show ?thesis using e by blast
  qed
qed

section \<open>Release\<close>

text \<open>What a release of the used block \<open>p\<close> does: it becomes free, joined to the block before.\<close>

definition released :: "nat \<Rightarrow> heap_state \<Rightarrow> nat list \<Rightarrow> nat list \<Rightarrow> nat \<Rightarrow> heap_state \<Rightarrow> bool" where
  "released N s xs ys p s' \<longleftrightarrow> (\<exists>xs' ys'. emem N s' xs' ys' \<and> set ys' = set ys - {p} \<and>
     (\<forall>b \<in> set ys - {p}. blk s' b = blk s b) \<and>
     (if \<exists>q \<in> set xs. q + blk s q = p
      then set xs' = set xs \<and> (\<forall>q \<in> set xs. blk s' q = (if q + blk s q = p then blk s q + blk s p else blk s q))
      else set xs' = insert p (set xs) \<and> (\<forall>q \<in> insert p (set xs). blk s' q = blk s q)))"

lemma sorted_remove: "sorted (map f (us @ z # vs)) \<Longrightarrow> sorted (map f (us @ vs))"
  by (auto simp: sorted_append)

lemma efree_other:
  assumes inv: "emem N s xs ys" and "N < 2 ^ 16" "p \<notin> set ys" "p < 2 ^ 32"
  shows "efree N (Some p) s = Some s"
proof -
  have "holds_list (hs_nodes s) (hs_used s) ys" using inv by (simp add: emem_def)
  then have "memoryHeapPop (ptrHeapPopCondition p) (hs_nodes s) (hs_used s) =
      Some (hs_nodes s, hs_used s, None)"
    by (rule mh.pop_miss)
      (use assms emem_blocks [OF inv] in \<open>auto simp: ptrHeapPopCondition_def\<close>)
  then show ?thesis using assms(4) by (simp add: efree_def)
qed

lemma merge_unique:
  assumes "emem N s xs ys" "q \<in> set xs" "q' \<in> set xs" "q + blk s q = p" "q' + blk s q' = p"
  shows "q = q'"
proof -
  have "q < q' \<Longrightarrow> q + blk s q \<le> q'" "q' < q \<Longrightarrow> q' + blk s q' \<le> q" "0 < blk s q" "0 < blk s q'"
    using assms(1-3) by (auto simp: emem_def tiles_def)
  with assms(4,5) show ?thesis by (cases q q' rule: linorder_cases) auto
qed

lemma efree_used:
  assumes inv: "emem N s xs ys" and N: "N < 2 ^ 16" and p: "p \<in> set ys"
  shows "\<exists>s'. efree N (Some p) s = Some s' \<and> released N s xs ys p s'"
proof -
  obtain us vs where ys: "ys = us @ p # vs" using p by (auto simp: in_set_conv_decomp)
  have lists: "holds_list (hs_nodes s) (hs_used s) (us @ p # vs)"
    "holds_list (hs_nodes s) (hs_freed s) xs" "set (us @ p # vs) \<inter> set xs = {}"
    using inv ys by (auto simp: emem_def)
  have dist: "distinct (us @ p # vs)" "distinct xs" using lists by (simp_all add: holds_list_def)
  have til: "tiles N (\<lambda>a. n_index (hs_nodes s a)) (blk s) (set xs \<union> set ys)"
    and sorted: "sorted (map (blk s) xs)"
    using inv by (auto simp: emem_def)
  have pN: "p < N" "n_index (hs_nodes s p) = p" "p + blk s p \<le> N"
    using emem_blocks [OF inv, of p] p by auto
  have cond: "\<forall>b \<in> set us. \<not> ptrHeapPopCondition p (hs_nodes s b)" "ptrHeapPopCondition p (hs_nodes s p)"
    using dist pN N emem_blocks [OF inv] ys by (auto simp: ptrHeapPopCondition_def)
  have others: "set (us @ vs) = set ys - {p}" using ys dist by auto
  have merge: "mergeHeapPopCondition p (hs_nodes s q) \<longleftrightarrow> q + blk s q = p" if "q \<in> set xs" for q
    using emem_blocks [OF inv, of q] that pN N by (auto simp: mergeHeapPopCondition_def)
  show ?thesis
  proof (cases "\<exists>q \<in> set xs. q + blk s q = p")
    case False
    from mh.pop_law [OF lists(1) cond] lists obtain m1 r1 where
      1: "memoryHeapPop (ptrHeapPopCondition p) (hs_nodes s) (hs_used s) = Some (m1, r1, Some p)"
      "holds_list m1 r1 (us @ vs)" "n_child (m1 p) = None"
      "(\<lambda>a. n_block (m1 a)) = blk s" "(\<lambda>a. n_index (m1 a)) = (\<lambda>a. n_index (hs_nodes s a))"
      "holds_list m1 (hs_freed s) xs"
      by blast
    have m1: "n_block (m1 a) = blk s a" "n_index (m1 a) = n_index (hs_nodes s a)" for a
      using fun_cong [OF 1(4), of a] fun_cong [OF 1(5), of a] by simp_all
    have 2: "memoryHeapPop (mergeHeapPopCondition p) m1 (hs_freed s) = Some (m1, hs_freed s, None)"
      by (rule mh.pop_miss [OF 1(6)])
        (use False merge in \<open>auto simp: mergeHeapPopCondition_def m1\<close>)
    have px: "p \<notin> set xs" "set (us @ vs) \<inter> insert p (set xs) = {}" using lists(3) dist by auto
    from mh.push_law [OF 1(6) px(1) 1(3)] 1(2) px(2) obtain m2 r2 where
      3: "memoryHeapPush m1 (hs_freed s) p = Some (m2, r2)"
      "holds_list m2 r2 (ins_block (\<lambda>a. n_block (m1 a)) p xs)"
      "(\<lambda>a. n_block (m2 a)) = (\<lambda>a. n_block (m1 a))" "(\<lambda>a. n_index (m2 a)) = (\<lambda>a. n_index (m1 a))"
      "holds_list m2 r1 (us @ vs)"
      by blast
    let ?s = "\<lparr>hs_nodes = m2, hs_freed = r2, hs_used = r1\<rparr>" and ?xs = "ins_block (blk s) p xs"
    have e: "efree N (Some p) s = Some ?s"
      using 1(1) 2 3(1) pN N by (simp add: efree_def)
    have bl: "(\<lambda>a. n_block (m2 a)) = blk s" "(\<lambda>a. n_index (m2 a)) = (\<lambda>a. n_index (hs_nodes s a))"
      using 3(3,4) 1(4,5) by simp_all
    have "set ?xs \<union> set (us @ vs) = set xs \<union> set ys" using ys by auto
    then have "emem N ?s ?xs (us @ vs)"
      using 3(2,5) px til sorted_ins_block [OF sorted] bl 1(4) by (auto simp: emem_def)
    moreover have "blk ?s b = blk s b" for b using fun_cong [OF bl(1), of b] by simp
    ultimately have "released N s xs ys p ?s"
      unfolding released_def using False others
      by - (rule exI [of _ ?xs], rule exI [of _ "us @ vs"], simp)
    then show ?thesis using e by blast
  next
    case True
    then obtain q where q: "q \<in> set xs" "q + blk s q = p" by blast
    obtain fs gs where xs: "xs = fs @ q # gs" using q(1) by (auto simp: in_set_conv_decomp)
    have nq: "\<forall>b \<in> set fs. b + blk s b \<noteq> p"
      using merge_unique [OF inv _ q(1) _ q(2)] dist(2) xs by auto
    have disj: "set (us @ p # vs) \<inter> set (fs @ q # gs) = {}" using lists(3) xs by simp
    have mc: "(\<forall>b \<in> set fs. \<not> mergeHeapPopCondition p (m b)) \<and> mergeHeapPopCondition p (m q)"
      if "(\<lambda>a. n_block (m a)) = blk s" "(\<lambda>a. n_index (m a)) = (\<lambda>a. n_index (hs_nodes s a))" for m
    proof -
      have "n_block (m a) = blk s a" "n_index (m a) = n_index (hs_nodes s a)" for a
        using fun_cong [OF that(1), of a] fun_cong [OF that(2), of a] by simp_all
      then show ?thesis using merge nq q xs by (auto simp: mergeHeapPopCondition_def)
    qed
    from mh.merge_node [where d = "mergeHeapPopCondition p" and zi = q and s = "blk s q + blk s p",
        OF lists(1) lists(2) [unfolded xs] disj cond mc]
    obtain m1 r1 m2 r2 m3 r3 where
      1: "memoryHeapPop (ptrHeapPopCondition p) (hs_nodes s) (hs_used s) = Some (m1, r1, Some p)"
      "memoryHeapPop (mergeHeapPopCondition p) m1 (hs_freed s) = Some (m2, r2, Some q)"
      "n_child (m2 q) = None" "(\<lambda>a. n_block (m2 a)) = blk s"
      "(\<lambda>a. n_index (m2 a)) = (\<lambda>a. n_index (hs_nodes s a))" and
      2: "memoryHeapPush (put_node m2 q q (blk s q + blk s p)) r2 q = Some (m3, r3)"
      "holds_list m3 r1 (us @ vs)"
      "holds_list m3 r3 (ins_block ((blk s)(q := blk s q + blk s p)) q (fs @ gs))"
      "(\<lambda>a. n_block (m3 a)) = (blk s)(q := blk s q + blk s p)"
      "(\<lambda>a. n_index (m3 a)) = (\<lambda>a. n_index (hs_nodes s a))(q := q)"
      by blast
    let ?s = "\<lparr>hs_nodes = m3, hs_freed = r3, hs_used = r1\<rparr>"
    let ?sz = "(blk s)(q := blk s q + blk s p)"
    let ?xs = "ins_block ?sz q (fs @ gs)"
    have m2: "n_block (m2 a) = blk s a" "n_index (m2 a) = n_index (hs_nodes s a)" for a
      using fun_cong [OF 1(4), of a] fun_cong [OF 1(5), of a] by simp_all
    have "(blk s q + blk s p) mod 2 ^ 16 = blk s q + blk s p"
      using q(2) pN N by simp
    moreover have "n_index (hs_nodes s q) = q" using emem_blocks [OF inv, of q] q(1) by auto
    ultimately have "m2(q := (m2 q)\<lparr>n_block := (n_block (m2 q) + n_block (m2 p)) mod 2 ^ 16\<rparr>) =
        put_node m2 q q (blk s q + blk s p)"
      using 1(3) by (simp add: put_node_def m2 fun_eq_iff)
    then have e: "efree N (Some p) s = Some ?s"
      using 1(1,2) 2(1) pN N by (simp add: efree_def)
    have qp: "q \<noteq> p" "p \<notin> set xs" "q \<notin> set ys" using lists(3) q(1) ys by auto
    have A: "set xs \<union> set ys - {p} = set ?xs \<union> set (us @ vs)" "set ?xs = set xs"
      using others xs qp by auto
    have "tiles N ((\<lambda>a. n_index (hs_nodes s a))(q := q)) ?sz (set xs \<union> set ys - {p})"
      using tiles_merge [OF til _ _ q(2)] q(1) p by simp
    moreover have "sorted (map ?sz ?xs)"
    proof (rule sorted_ins_block)
      have "map ?sz (fs @ gs) = map (blk s) (fs @ gs)" using dist(2) xs by auto
      then show "sorted (map ?sz (fs @ gs))" using sorted_remove sorted xs by metis
    qed
    ultimately have "emem N ?s ?xs (us @ vs)"
      using 2(2-5) lists(3) A xs by (auto simp: emem_def)
    moreover have bl: "blk ?s b = ?sz b" for b using fun_cong [OF 2(4), of b] by simp
    have "\<forall>b \<in> set ys - {p}. blk ?s b = blk s b" using bl qp by auto
    moreover have "\<forall>b \<in> set xs. blk ?s b = (if b + blk s b = p then blk s b + blk s p else blk s b)"
    proof
      fix b assume b: "b \<in> set xs"
      show "blk ?s b = (if b + blk s b = p then blk s b + blk s p else blk s b)"
        using merge_unique [OF inv b q(1) _ q(2)] bl [of b] q(2) by (cases "b = q") auto
    qed
    ultimately have "released N s xs ys p ?s"
      unfolding released_def if_P [OF True]
      by - (rule exI [of _ ?xs], rule exI [of _ "us @ vs"],
          intro conjI; (assumption | rule others A(2)))
    then show ?thesis using e by blast
  qed
qed

section \<open>Every sequence of calls\<close>

text \<open>
  One call, with requests below \<open>L\<close> bytes, and the states that calls lead to from program
  start. Pointers given to \<open>efree\<close> are arbitrary.
\<close>

inductive heap_step :: "nat \<Rightarrow> nat \<Rightarrow> heap_state \<Rightarrow> heap_state \<Rightarrow> bool" for N L where
  alloc: "n < L \<Longrightarrow> emalloc N n s = Some (r, s') \<Longrightarrow> heap_step N L s s'"
| free: "efree N (Some p) s = Some s' \<Longrightarrow> heap_step N L s s'"
| free_null: "efree N None s = Some s' \<Longrightarrow> heap_step N L s s'"

inductive heap_reach :: "nat \<Rightarrow> nat \<Rightarrow> heap_state \<Rightarrow> bool" for N L where
  start: "fresh s \<Longrightarrow> heap_reach N L s"
| step: "heap_reach N L s \<Longrightarrow> heap_step N L s s' \<Longrightarrow> heap_reach N L s'"

inductive_cases heap_stepE: "heap_step N L s s'"

lemma emalloc_cases:
  assumes inv: "emem N s xs ys" and N: "0 < N" "N < 2 ^ 16" and n: "n < 2 ^ 32"
  shows "if 0 < n \<and> (\<exists>a \<in> set xs. n \<le> blk s a)
    then \<exists>a s'. emalloc N n s = Some (Some a, s') \<and> a \<in> set xs \<and> n \<le> blk s a \<and>
      (\<forall>b \<in> set xs. n \<le> blk s b \<longrightarrow> blk s a \<le> blk s b) \<and> allocated N n s xs ys a s'
    else emalloc N n s = Some (None, s)"
proof (cases "0 < n \<and> (\<exists>a \<in> set xs. n \<le> blk s a)")
  case True
  then obtain us a vs where x: "xs = us @ a # vs" "n \<le> blk s a" "\<forall>b \<in> set us. \<not> n \<le> blk s b"
    using split_list_first_prop [of xs "\<lambda>a. n \<le> blk s a"] by blast
  have "\<forall>b \<in> set xs. n \<le> blk s b \<longrightarrow> blk s a \<le> blk s b"
    using inv x by (auto simp: emem_def sorted_append)
  moreover have "\<forall>b \<in> set us. blk s b < n" using x(3) by (simp add: not_le)
  ultimately show ?thesis
    using emalloc_some [OF inv N(2) _ n x(1) _ x(2)] True x by auto
next
  case False
  then have "n = 0 \<or> (\<forall>a \<in> set xs. blk s a < n)" by (auto simp: not_le)
  then show ?thesis unfolding if_not_P [OF False] by (rule emalloc_none [OF inv N(1) n])
qed

lemma efree_large: "N < 2 ^ 16 \<Longrightarrow> efree N (Some p) s = efree N (Some (p mod 2 ^ 32)) s"
  by (simp add: efree_def)

lemma efree_cases:
  assumes inv: "emem N s xs ys" and N: "N < 2 ^ 16"
  shows "if p mod 2 ^ 32 \<in> set ys
    then \<exists>s'. efree N (Some p) s = Some s' \<and> released N s xs ys (p mod 2 ^ 32) s'
    else efree N (Some p) s = Some s"
  using efree_used [OF inv N] efree_other [OF inv N, of "p mod 2 ^ 32"] efree_large [OF N, of p s]
  by simp

lemma efree_fresh: "fresh s \<Longrightarrow> efree N ptr s = Some s"
  by (cases s; cases ptr) (auto simp: fresh_def efree_def memoryHeapPop_def Let_def)

lemma efree_returns: "emem N s xs ys \<Longrightarrow> N < 2 ^ 16 \<Longrightarrow> efree N (Some p) s \<noteq> None"
  using efree_cases [of N s xs ys p] by (cases "p mod 2 ^ 32 \<in> set ys") auto

lemma emalloc_fresh:
  assumes "fresh s" "0 < N" "N < 2 ^ 16"
  shows "\<exists>s'. emem N s' [0] [] \<and> emalloc N n s = emalloc N n s'"
proof -
  obtain s' where s': "initializeData N s = Some s'" "emem N s' [0] []"
    using fresh_initialized [OF assms] by blast
  then show ?thesis using emem_initialized [OF s'(2) assms(2)] by (auto simp: emalloc_def)
qed

lemma emem_step:
  assumes "emem N s xs ys" "0 < N" "N < 2 ^ 16" "heap_step N (2 ^ 32) s s'"
  shows "\<exists>xs ys. emem N s' xs ys"
  using assms(4)
proof (cases rule: heap_step.cases)
  case (alloc n r)
  then show ?thesis using emalloc_cases [OF assms(1-3) alloc(1)] assms(1)
    by (auto simp: allocated_def split: if_splits)
next
  case (free p)
  then show ?thesis using efree_cases [OF assms(1,3), of p] assms(1)
    by (auto simp: released_def split: if_splits)
next
  case free_null
  then show ?thesis using assms(1) by (auto simp: efree_def)
qed

section \<open>The default configuration and oversized requests\<close>

text \<open>With 65536 bytes the size of the one block is stored as 0.\<close>

definition empty_block :: "heap_state \<Rightarrow> bool" where
  "empty_block s \<longleftrightarrow> hs_freed s = Some 0 \<and> hs_used s = None \<and> n_block (hs_nodes s 0) = 0 \<and>
     n_child (hs_nodes s 0) = None"

lemma initialize_default:
  "fresh s \<or> empty_block s \<Longrightarrow> \<exists>s'. initializeData 65536 s = Some s' \<and> empty_block s'"
  by (auto simp: fresh_def empty_block_def initializeData_def memoryHeapPush_def put_node_def)

lemma emalloc_default:
  assumes "fresh s \<or> empty_block s"
  shows "\<exists>s'. emalloc 65536 n s = Some (None, s') \<and> (fresh s' \<or> empty_block s')"
proof -
  obtain s1 where s1: "initializeData 65536 s = Some s1" "empty_block s1"
    using initialize_default [OF assms] by blast
  then have "memoryHeapPop (sizeHeapPopCondition n) (hs_nodes s1) (hs_freed s1) =
      (if n mod 2 ^ 32 = 0 then Some (set_child (hs_nodes s1) 0 None, None, Some 0)
       else Some (hs_nodes s1, Some 0, None))"
    by (auto simp: empty_block_def memoryHeapPop_def heap_scan.simps [of _ _ _ 0] sizeHeapPopCondition_def)
  then show ?thesis using s1
    by (auto simp: emalloc_def empty_block_def fresh_def)
qed

lemma efree_default:
  "fresh s \<or> empty_block s \<Longrightarrow> efree N ptr s = Some s"
  by (cases s; cases ptr)
    (auto simp: fresh_def empty_block_def efree_def memoryHeapPop_def Let_def)

text \<open>A request for a multiple of 4 GiB: the condition sees 0 and takes the first block.\<close>

lemma emalloc_oversized:
  assumes inv: "emem N s (x # xs) ys" and N: "N < 2 ^ 16" and n: "0 < n" "n mod 2 ^ 32 = 0"
  shows "\<exists>s'. emalloc N n s = Some (None, s') \<and> blk s' = blk s \<and>
    holds_list (hs_nodes s') (hs_freed s') xs \<and> holds_list (hs_nodes s') (hs_used s') ys"
proof -
  have lists: "holds_list (hs_nodes s) (hs_freed s) ([] @ x # xs)" "holds_list (hs_nodes s) (hs_used s) ys"
    "set ys \<inter> set ([] @ x # xs) = {}"
    using inv by (auto simp: emem_def)
  have x: "x + blk s x \<le> N" "0 < blk s x" using emem_blocks [OF inv, of x] by auto
  have N0: "0 < N" using x by linarith
  have "sizeHeapPopCondition n (hs_nodes s x)" using n by (simp add: sizeHeapPopCondition_def)
  with mh.pop_law [OF lists(1)] lists(2,3) obtain m1 r1 where
    1: "memoryHeapPop (sizeHeapPopCondition n) (hs_nodes s) (hs_freed s) = Some (m1, r1, Some x)"
    "holds_list m1 r1 ([] @ xs)" "(\<lambda>a. n_block (m1 a)) = blk s" "holds_list m1 (hs_used s) ys"
    by force
  have "\<not> n < 2 ^ 32" using n by (metis mod_less neq0_conv)
  then have "n_block (m1 x) < n" using fun_cong [OF 1(3), of x] x N by simp
  then show ?thesis
    using 1 n(1) by (simp add: emalloc_def emem_initialized [OF inv N0])
qed

section \<open>Properties\<close>

text \<open>
  C3. With a memory below 64 KiB, after any sequence of requests (below 4 GiB) and releases
  of any pointers, the free and the used blocks are disjoint and together make up the whole
  memory, and every further call returns.
\<close>

theorem emalloc_tiles:
  assumes "0 < N" and "N < 2 ^ 16" and "heap_reach N (2 ^ 32) s"
  shows "(fresh s \<or> (\<exists>xs ys. emem N s xs ys)) \<and>
    (n < 2 ^ 32 \<longrightarrow> emalloc N n s \<noteq> None) \<and> efree N ptr s \<noteq> None"
proof -
  have inv: "fresh s \<or> (\<exists>xs ys. emem N s xs ys)"
    using assms(3)
  proof (induction rule: heap_reach.induct)
    case (step s s')
    show ?case
    proof (cases "fresh s")
      case True
      from step.hyps(2) show ?thesis
      proof (cases rule: heap_step.cases)
        case (alloc n r)
        obtain s1 where "emem N s1 [0] []" "emalloc N n s = emalloc N n s1"
          using emalloc_fresh [OF True assms(1,2)] by blast
        then show ?thesis using emem_step [of N s1 "[0]" "[]" s'] heap_step.alloc alloc assms by metis
      qed (use True efree_fresh in auto)
    next
      case False
      then show ?thesis using emem_step [OF _ assms(1,2) step.hyps(2)] step.IH by blast
    qed
  qed simp
  have "emalloc N n s \<noteq> None" if n: "n < 2 ^ 32"
  proof -
    obtain s1 xs ys where "emem N s1 xs ys" "emalloc N n s = emalloc N n s1"
      using inv emalloc_fresh [OF _ assms(1,2)] by blast
    then show ?thesis using emalloc_cases [OF _ assms(1,2) n, of s1 xs ys] by (auto split: if_splits)
  qed
  moreover have "efree N ptr s \<noteq> None"
  proof (cases ptr)
    case None
    then show ?thesis by (simp add: efree_def)
  next
    case (Some p)
    then show ?thesis
      using inv efree_fresh [of s N ptr] efree_returns [OF _ assms(2), of s _ _ p] by auto
  qed
  ultimately show ?thesis using inv by blast
qed

definition no_nodes :: heap_state where
  "no_nodes = \<lparr>hs_nodes = (\<lambda>a. \<lparr>n_index = 0, n_block = 0, n_child = None\<rparr>),
     hs_freed = None, hs_used = None\<rparr>"

definition one_free :: heap_state where
  "one_free = no_nodes\<lparr>hs_nodes := put_node (hs_nodes no_nodes) 0 0 8, hs_freed := Some 0\<rparr>"

definition one_each :: heap_state where
  "one_each = no_nodes\<lparr>hs_nodes := put_node (put_node (hs_nodes no_nodes) 0 0 3) 3 3 5,
     hs_freed := Some 0, hs_used := Some 3\<rparr>"

lemma example_states: "fresh no_nodes" "emem 8 one_free [0] []" "emem 8 one_each [0] [3]"
  by (auto simp: fresh_def no_nodes_def one_free_def one_each_def emem_def holds_list_def
      put_node_def tiles_def)

theorem emalloc_tiles_witness:
  "emalloc 8 3 no_nodes \<noteq> None \<and> efree 8 (Some 5) no_nodes \<noteq> None"
  using emalloc_tiles [of 8 no_nodes 3 "Some 5"] heap_reach.start [OF example_states(1)] by simp

text \<open>
  C31. A request returns the start of a smallest free block that is large enough, and the
  rest of the block stays free; the block is disjoint from every used block (they tile the
  memory) and the used blocks keep their sizes. Without such a block, or for a request of 0
  bytes, the result is \<open>NULL\<close> and nothing changes.
\<close>

theorem emalloc_best_fit:
  assumes "emem N s xs ys" and "0 < N" and "N < 2 ^ 16" and "n < 2 ^ 32"
  shows "if 0 < n \<and> (\<exists>a \<in> set xs. n \<le> blk s a)
    then \<exists>a s'. emalloc N n s = Some (Some a, s') \<and> a \<in> set xs \<and> n \<le> blk s a \<and>
      (\<forall>b \<in> set xs. n \<le> blk s b \<longrightarrow> blk s a \<le> blk s b) \<and> allocated N n s xs ys a s'
    else emalloc N n s = Some (None, s)"
  by (rule emalloc_cases [OF assms])

theorem emalloc_best_fit_witness:
  "\<exists>s'. emalloc 8 3 one_free = Some (Some 0, s') \<and> allocated 8 3 one_free [0] [] 0 s'"
proof -
  have "blk one_free 0 = 8" by (simp add: one_free_def put_node_def)
  then show ?thesis using emalloc_best_fit [OF example_states(2), of 3] by auto
qed

text \<open>
  C32. Releasing a pointer to a used block takes it from the used blocks and joins it to the
  free block that ends where it begins, if there is one; other blocks keep their places and
  sizes. A pointer that is not the start of a used block is ignored.
\<close>

theorem efree_releases:
  assumes "emem N s xs ys" and "N < 2 ^ 16"
  shows "if p mod 2 ^ 32 \<in> set ys
    then \<exists>s'. efree N (Some p) s = Some s' \<and> released N s xs ys (p mod 2 ^ 32) s'
    else efree N (Some p) s = Some s"
  by (rule efree_cases [OF assms])

theorem efree_releases_witness:
  "\<exists>s' xs'. efree 8 (Some 3) one_each = Some s' \<and> emem 8 s' xs' [] \<and> set xs' = {0} \<and> blk s' 0 = 8"
proof -
  have b: "blk one_each 0 = 3" "blk one_each 3 = 5" by (simp_all add: one_each_def put_node_def)
  obtain s' where s': "efree 8 (Some 3) one_each = Some s'" "released 8 one_each [0] [3] 3 s'"
    using efree_releases [OF example_states(3), of 3] by auto
  then obtain xs' where "emem 8 s' xs' []" "set xs' = {0}" "blk s' 0 = 8"
    using b by (auto simp: released_def)
  with s'(1) show ?thesis by blast
qed

text \<open>
  With the default of 65536 bytes no request is ever served: the size of the initial
  block does not fit the 16 bits of \<open>block_size\<close>, and every call of \<open>emalloc\<close> after any sequence of
  calls returns \<open>NULL\<close>.
\<close>

theorem emalloc_default_never:
  assumes "heap_reach 65536 (2 ^ 64) s"
  shows "\<exists>s'. emalloc 65536 n s = Some (None, s')"
proof -
  have "fresh s \<or> empty_block s"
    using assms
  proof (induction rule: heap_reach.induct)
    case (step s s')
    from step.hyps(2) show ?case
    proof (cases rule: heap_step.cases)
      case (alloc n r)
      then show ?thesis using emalloc_default [OF step.IH, of n] by auto
    qed (use efree_default [OF step.IH] step.IH in auto)
  qed simp
  then show ?thesis using emalloc_default by blast
qed

theorem emalloc_default_never_witness: "\<exists>s'. emalloc 65536 16 no_nodes = Some (None, s')"
  by (rule emalloc_default_never) (rule heap_reach.start [OF example_states(1)])

text \<open>
  A request for a multiple of 4 GiB returns \<open>NULL\<close> but takes the smallest free block
  out of the free list without using it: the block is lost.
\<close>

theorem emalloc_oversize_leaks:
  assumes "emem N s (x # xs) ys" and "N < 2 ^ 16" and "0 < n" and "n mod 2 ^ 32 = 0"
  shows "\<exists>s'. emalloc N n s = Some (None, s') \<and> blk s' = blk s \<and>
    holds_list (hs_nodes s') (hs_freed s') xs \<and> holds_list (hs_nodes s') (hs_used s') ys"
  by (rule emalloc_oversized [OF assms])

theorem emalloc_oversize_leaks_witness:
  "\<exists>s'. emalloc 8 (2 ^ 32) one_each = Some (None, s') \<and> hs_freed s' = None \<and>
     holds_list (hs_nodes s') (hs_used s') [3]"
  using emalloc_oversize_leaks [OF example_states(3), of "2 ^ 32"] by (auto simp: holds_list_def)

end
