(* ===== verification/Stream_Types.thy ===== *)
theory Stream_Types
  imports Prelude
begin

text \<open>
  The parts a stream run is made of (lib/estream/estream_types.h and the criteria and
  collectors of lib/estream/byteestream): a loop criteria, which decides element by
  element whether to go on, and a collector, which gathers the result. The virtual classes
  are datatypes with one constructor per class: \<open>LoopCriteria\<close> and
  \<open>ByteIsCharClassCriteria\<close>; \<open>ArrayCollector\<close>, \<open>ByteStringCollector\<close>,
  \<open>NaturalCollector\<close> and \<open>DecimalCollector\<close>. A shared array is the list of its elements. The
  arithmetic of \<open>double\<close> is a record of operations; the decimal collector keeps the bytes its
  value is computed from, in their order.
\<close>

section \<open>Character classes\<close>

definition isAlpha :: "byte \<Rightarrow> bool" where
  "isAlpha c \<longleftrightarrow> (65 \<le> c \<and> c \<le> 90) \<or> (97 \<le> c \<and> c \<le> 122)"

definition isDigit :: "byte \<Rightarrow> bool" where
  "isDigit c \<longleftrightarrow> 48 \<le> c \<and> c \<le> 57"

definition isLowerHex :: "byte \<Rightarrow> bool" where
  "isLowerHex c \<longleftrightarrow> 97 \<le> c \<and> c \<le> 102"

definition isUpperHex :: "byte \<Rightarrow> bool" where
  "isUpperHex c \<longleftrightarrow> 65 \<le> c \<and> c \<le> 70"

definition isHexDigit :: "byte \<Rightarrow> bool" where
  "isHexDigit c \<longleftrightarrow> isDigit c \<or> isLowerHex c \<or> isUpperHex c"

definition STRING_UTILS_WHITESPACE :: "byte list" where
  "STRING_UTILS_WHITESPACE = [13, 10, 9, 9, 32]"

section \<open>Criteria\<close>

datatype LoopCriteriaMode = LOOP_CRITERIA_UNTIL_MATCH | LOOP_CRITERIA_UNTIL_NUM_ELEMENTS

datatype LoopCriteriaState = NOT_GOOD | GOOD | AT_LAST | GOOD_AT_LAST

fun good_bit :: "LoopCriteriaState \<Rightarrow> bool" where
  "good_bit NOT_GOOD = False"
| "good_bit GOOD = True"
| "good_bit AT_LAST = False"
| "good_bit GOOD_AT_LAST = True"

fun last_bit :: "LoopCriteriaState \<Rightarrow> bool" where
  "last_bit NOT_GOOD = False"
| "last_bit GOOD = False"
| "last_bit AT_LAST = True"
| "last_bit GOOD_AT_LAST = True"

record loop_info =
  li_state :: LoopCriteriaState
  li_mode :: LoopCriteriaMode
  li_inclusive :: bool
  li_until_size :: nat
  li_until :: "byte list"

definition LoopCriteriaInfo :: "LoopCriteriaMode \<Rightarrow> bool \<Rightarrow> nat \<Rightarrow> byte list \<Rightarrow> loop_info" where
  "LoopCriteriaInfo mode incl until_size until =
     \<lparr>li_state = GOOD, li_mode = mode, li_inclusive = incl, li_until_size = until_size,
      li_until = until\<rparr>"

datatype criteria =
    Loop_Criteria loop_info
  | Char_Class byte loop_info

definition ARBITRARY_SPATIAL_UNTIL_LIMIT :: nat where
  "ARBITRARY_SPATIAL_UNTIL_LIMIT = 65536"

definition DIGIT_CLASS :: byte where "DIGIT_CLASS = 8"
definition ALPHANUMERIC_CLASS :: byte where "ALPHANUMERIC_CLASS = 4"
definition HEX_CLASS :: byte where "HEX_CLASS = 3"
definition LOWER_HEX_CLASS :: byte where "LOWER_HEX_CLASS = 2"
definition UPPER_HEX_CLASS :: byte where "UPPER_HEX_CLASS = 1"

definition ByteIsCharClassCriteria :: "byte \<Rightarrow> criteria" where
  "ByteIsCharClassCriteria cls =
     Char_Class cls (LoopCriteriaInfo LOOP_CRITERIA_UNTIL_MATCH True 0 [])"

definition untilMatchNext :: "loop_info \<Rightarrow> byte \<Rightarrow> loop_info" where
  "untilMatchNext i el =
     (let until_match = el \<in> set (li_until i) in
      if li_state i = NOT_GOOD \<and> \<not> until_match then i\<lparr>li_state := GOOD\<rparr>
      else if li_state i = GOOD \<and> li_inclusive i \<and> until_match then i\<lparr>li_state := GOOD_AT_LAST\<rparr>
      else if li_state i = GOOD \<and> \<not> li_inclusive i \<and> until_match then i\<lparr>li_state := NOT_GOOD\<rparr>
      else if li_state i = GOOD_AT_LAST then i\<lparr>li_state := NOT_GOOD\<rparr>
      else i)"

definition untilSizeNext :: "loop_info \<Rightarrow> loop_info" where
  "untilSizeNext i =
     (let i' =
       (if li_state i = NOT_GOOD \<and> 0 < li_until_size i then i\<lparr>li_state := GOOD\<rparr>
        else if li_state i = GOOD \<and> li_until_size i = 1 then i\<lparr>li_state := GOOD_AT_LAST\<rparr>
        else if good_bit (li_state i) \<and> li_until_size i = 0 then i\<lparr>li_state := NOT_GOOD\<rparr>
        else i)
      in i'\<lparr>li_until_size := sub64 (li_until_size i') 1\<rparr>)"

definition charClassNext :: "byte \<Rightarrow> loop_info \<Rightarrow> byte \<Rightarrow> loop_info" where
  "charClassNext cls i c =
     (let st = (\<lambda>b. i\<lparr>li_state := (if b then GOOD else NOT_GOOD)\<rparr>) in
      if cls AND DIGIT_CLASS \<noteq> 0 then st (isDigit c)
      else if cls AND UPPER_HEX_CLASS \<noteq> 0 then st (isUpperHex c)
      else if cls AND LOWER_HEX_CLASS \<noteq> 0 then st (isLowerHex c)
      else if cls AND HEX_CLASS \<noteq> 0 then st (isHexDigit c)
      else if cls AND ALPHANUMERIC_CLASS \<noteq> 0 then st (isAlpha c)
      else i)"

text \<open>
  \<open>nextState\<close>: the new criteria (changed even when the limit is exceeded) and the new state. When
  the limit is exceeded, the message of the exception is made by \<open>format\<close>, which reads the \<open>int\<close>
  \<open>ARBITRARY_SPATIAL_UNTIL_LIMIT\<close> as a \<open>uint64_t\<close>: that is undefined, as for \<open>va_long\<close> of \<open>String_Format\<close>.
\<close>

definition counted :: "loop_info \<Rightarrow> loop_info" where
  "counted i = i\<lparr>li_until_size := add64 (li_until_size i) 1\<rparr>"

fun nextState :: "byte \<Rightarrow> (criteria, LoopCriteriaState) prog" where
  "nextState el (Loop_Criteria i) =
     (if li_mode i = LOOP_CRITERIA_UNTIL_MATCH
      then let i1 = counted i in
        if ARBITRARY_SPATIAL_UNTIL_LIMIT < li_until_size i1
        then (Inl Undefined, Loop_Criteria i1)
        else let i2 = untilMatchNext i1 el in (Inr (li_state i2), Loop_Criteria i2)
      else let i2 = untilSizeNext i in (Inr (li_state i2), Loop_Criteria i2))"
| "nextState el (Char_Class cls i) =
     (if li_mode i = LOOP_CRITERIA_UNTIL_MATCH
      then let i1 = counted i in
        if ARBITRARY_SPATIAL_UNTIL_LIMIT < li_until_size i1
        then (Inl Undefined, Char_Class cls i1)
        else let i2 = charClassNext cls i1 el in (Inr (li_state i2), Char_Class cls i2)
      else (Inl (Runtime_Error
        ''The match until size good function is not supported for this criteria class.''),
        Char_Class cls i))"

fun info_of :: "criteria \<Rightarrow> loop_info" where
  "info_of (Loop_Criteria i) = i"
| "info_of (Char_Class cls i) = i"

definition criteria_state :: "criteria \<Rightarrow> LoopCriteriaState" where
  "criteria_state c = li_state (info_of c)"

fun preemptiveBail :: "criteria \<Rightarrow> criteria" where
  "preemptiveBail (Loop_Criteria i) = Loop_Criteria (i\<lparr>li_state := NOT_GOOD\<rparr>)"
| "preemptiveBail (Char_Class cls i) = Char_Class cls (i\<lparr>li_state := NOT_GOOD\<rparr>)"

section \<open>Collectors\<close>

datatype collector =
    Array_Collector "byte list"
  | String_Collector "byte list"
  | Natural_Collector nat nat
  | Decimal_Collector "byte list"

definition NUMBER_MAX_DIGITS :: nat where
  "NUMBER_MAX_DIGITS = 10"

fun collector_initialize :: "collector \<Rightarrow> collector" where
  "collector_initialize (Array_Collector d) = Array_Collector []"
| "collector_initialize (String_Collector d) = String_Collector []"
| "collector_initialize (Natural_Collector n v) = Natural_Collector 0 0"
| "collector_initialize (Decimal_Collector ds) = Decimal_Collector []"

definition digit_message :: string where
  "digit_message = ''parseNatural: Exceeded natural digit limit.''"

definition decimal_message :: string where
  "decimal_message = ''parseDecimal: Exceeded decimal digit limit.''"

fun accumulate :: "byte \<Rightarrow> (collector, unit) prog" where
  "accumulate c (Array_Collector d) = (Inr (), Array_Collector (d @ [c]))"
| "accumulate c (String_Collector d) = (Inr (), String_Collector (d @ [c]))"
| "accumulate c (Natural_Collector digit_count v) =
     (let v' = nat ((int v * 10 + (int (unat c) - 48)) mod 2 ^ 64); n' = digit_count + 1
      in (if NUMBER_MAX_DIGITS < n' then Inl (Runtime_Error digit_message) else Inr (),
          Natural_Collector n' v'))"
| "accumulate c (Decimal_Collector ds) =
     (if NUMBER_MAX_DIGITS < length ds + 1 then Inl (Runtime_Error decimal_message) else Inr (),
      Decimal_Collector (ds @ [c]))"

fun accumulate_els :: "byte list \<Rightarrow> (collector, unit) prog" where
  "accumulate_els cs (Array_Collector d) = (Inr (), Array_Collector (d @ cs))"
| "accumulate_els cs (String_Collector d) = (Inr (), String_Collector (d @ cs))"
| "accumulate_els cs (Natural_Collector n v) =
     (Inl (Runtime_Error ''Accumulate function of multiple elements isn't implemented!''),
      Natural_Collector n v)"
| "accumulate_els cs (Decimal_Collector ds) =
     (Inl (Runtime_Error ''Accumulate function of multiple elements isn't implemented!''),
      Decimal_Collector ds)"

text \<open>What \<open>collect\<close> gives: the bytes, or the value and the number of digits.\<close>

fun collected_bytes :: "collector \<Rightarrow> byte list" where
  "collected_bytes (Array_Collector d) = d"
| "collected_bytes (String_Collector d) = d"
| "collected_bytes (Natural_Collector n v) = []"
| "collected_bytes (Decimal_Collector ds) = []"

fun collected_natural :: "collector \<Rightarrow> nat \<times> nat" where
  "collected_natural (Natural_Collector n v) = (v, n)"
| "collected_natural c = (0, 0)"

text \<open>The operations on \<open>double\<close> that are used: conversions, \<open>+\<close>, \<open>*\<close> and \<open>/\<close>.\<close>

record 'd double_ops =
  dbl_of_nat :: "nat \<Rightarrow> 'd"
  dbl_of_int :: "int \<Rightarrow> 'd"
  dbl_add :: "'d \<Rightarrow> 'd \<Rightarrow> 'd"
  dbl_mul :: "'d \<Rightarrow> 'd \<Rightarrow> 'd"
  dbl_div :: "'d \<Rightarrow> 'd \<Rightarrow> 'd"

definition decimal_step :: "'d double_ops \<Rightarrow> 'd \<times> 'd \<Rightarrow> byte \<Rightarrow> 'd \<times> 'd" where
  "decimal_step ops st c =
     (case st of (v, decimal_divisor) \<Rightarrow>
        (dbl_add ops v (dbl_div ops (dbl_of_int ops (int (unat c) - 48)) decimal_divisor),
         dbl_mul ops decimal_divisor (dbl_of_int ops 10)))"

definition decimal_value :: "'d double_ops \<Rightarrow> byte list \<Rightarrow> 'd" where
  "decimal_value ops ds = fst (foldl (decimal_step ops) (dbl_of_int ops 0, dbl_of_int ops 10) ds)"

fun collected_decimal :: "'d double_ops \<Rightarrow> collector \<Rightarrow> 'd \<times> nat" where
  "collected_decimal ops (Decimal_Collector ds) = (decimal_value ops ds, length ds)"
| "collected_decimal ops c = (dbl_of_int ops 0, 0)"

declare nextState.simps [simp del]

section \<open>How the criteria behave\<close>

abbreviation until_info :: "bool \<Rightarrow> nat \<Rightarrow> byte list \<Rightarrow> LoopCriteriaState \<Rightarrow> loop_info" where
  "until_info incl k until st \<equiv>
     \<lparr>li_state = st, li_mode = LOOP_CRITERIA_UNTIL_MATCH, li_inclusive = incl, li_until_size = k,
      li_until = until\<rparr>"

lemma next_until_go:
  "k < 65536 \<Longrightarrow> c \<notin> set until \<Longrightarrow>
   nextState c (Loop_Criteria (until_info incl k until GOOD)) =
     (Inr GOOD, Loop_Criteria (until_info incl (Suc k) until GOOD))"
  by (simp add: nextState.simps untilMatchNext_def counted_def ARBITRARY_SPATIAL_UNTIL_LIMIT_def Let_def)

lemma next_until_match:
  "k < 65536 \<Longrightarrow> c \<in> set until \<Longrightarrow>
   nextState c (Loop_Criteria (until_info incl k until GOOD)) =
     (let st = (if incl then GOOD_AT_LAST else NOT_GOOD)
      in (Inr st, Loop_Criteria (until_info incl (Suc k) until st)))"
  by (simp add: nextState.simps untilMatchNext_def counted_def ARBITRARY_SPATIAL_UNTIL_LIMIT_def Let_def)

lemma next_until_done:
  "k < 65536 \<Longrightarrow>
   nextState c (Loop_Criteria (until_info incl k until GOOD_AT_LAST)) =
     (Inr NOT_GOOD, Loop_Criteria (until_info incl (Suc k) until NOT_GOOD))"
  by (simp add: nextState.simps untilMatchNext_def counted_def ARBITRARY_SPATIAL_UNTIL_LIMIT_def Let_def)

lemma next_until_limit:
  "fst (nextState c (Loop_Criteria (until_info incl 65536 until st))) = Inl Undefined"
  by (simp add: nextState.simps counted_def ARBITRARY_SPATIAL_UNTIL_LIMIT_def Let_def)

text \<open>Bailing out is undone by the next element that is not an until character.\<close>

lemma next_until_bail:
  "k < 65536 \<Longrightarrow> c \<notin> set until \<Longrightarrow>
   nextState c (Loop_Criteria (until_info incl k until NOT_GOOD)) =
     (Inr GOOD, Loop_Criteria (until_info incl (Suc k) until GOOD))"
  by (simp add: nextState.simps untilMatchNext_def counted_def ARBITRARY_SPATIAL_UNTIL_LIMIT_def Let_def)

abbreviation size_info :: "nat \<Rightarrow> byte list \<Rightarrow> LoopCriteriaState \<Rightarrow> loop_info" where
  "size_info k until st \<equiv>
     \<lparr>li_state = st, li_mode = LOOP_CRITERIA_UNTIL_NUM_ELEMENTS, li_inclusive = True,
      li_until_size = k, li_until = until\<rparr>"

lemma next_size:
  "0 < k \<Longrightarrow> k < 2 ^ 64 \<Longrightarrow> nextState c (Loop_Criteria (size_info k until GOOD)) =
     (let st = (if k = 1 then GOOD_AT_LAST else GOOD)
      in (Inr st, Loop_Criteria (size_info (k - 1) until st)))"
  by (simp add: nextState.simps untilSizeNext_def Let_def)

lemma next_size_zero:
  "fst (nextState c (Loop_Criteria (size_info 0 until GOOD))) = Inr NOT_GOOD"
  "fst (nextState c (Loop_Criteria (size_info 0 until GOOD_AT_LAST))) = Inr NOT_GOOD"
  by (simp_all add: nextState.simps untilSizeNext_def Let_def)

abbreviation class_info :: "nat \<Rightarrow> LoopCriteriaState \<Rightarrow> loop_info" where
  "class_info k st \<equiv> until_info True k [] st"

lemma next_digit:
  "k < 65536 \<Longrightarrow> nextState c (Char_Class DIGIT_CLASS (class_info k st)) =
     (let st' = (if isDigit c then GOOD else NOT_GOOD)
      in (Inr st', Char_Class DIGIT_CLASS (class_info (Suc k) st')))"
  by (simp add: nextState.simps charClassNext_def counted_def DIGIT_CLASS_def ARBITRARY_SPATIAL_UNTIL_LIMIT_def Let_def)

end
