(* ===== verification/Reader_Task.thy ===== *)
theory Reader_Task
  imports Stream_Types
begin

text \<open>
  The reader tasks of lib/estream/reader_task.h: filters between a stream and its
  collector, chained by \<open>next_operation\<close>. A task is a datatype with one constructor per class
  and the fields of the class as its arguments; \<open>None\<close> for the state of a trim or extract
  task says that its members have not been initialised (the constructors do not, and a
  chain does not pass \<open>initialize\<close> on). \<open>perform\<close> handles one byte: it returns how the call
  ended, the task with its new state and the run, that is the criteria and the collector.
\<close>

section \<open>Data\<close>

record run =
  rn_criteria :: criteria
  rn_collector :: collector

record trim_state =
  tr_r_trim :: "byte list"
  tr_l_trimming :: bool
  tr_r_trimming :: bool

record extract_state =
  ex_r_trim :: "byte list"
  ex_l_trimming :: bool
  ex_r_trimming :: bool
  ex_non_whitespace :: byte
  ex_read_until :: byte

datatype reader_task =
    ReaderTaskLC "reader_task option"
  | ReaderTaskUC "reader_task option"
  | ReaderTaskDisallow "byte list" bool "reader_task option"
  | ReaderTaskAllow "byte list" bool "reader_task option"
  | ReaderTaskExact "byte list" nat bool bool "reader_task option"
  | ReaderTaskTrim "trim_state option"
  | ReaderTaskExtract byte byte "extract_state option"

section \<open>Access to the run\<close>

definition collectorAccumulate :: "byte \<Rightarrow> (run, unit) prog" where
  "collectorAccumulate c r =
     (case accumulate c (rn_collector r) of (out, k) \<Rightarrow> (out, r\<lparr>rn_collector := k\<rparr>))"

definition collectorAccumulate_els :: "byte list \<Rightarrow> (run, unit) prog" where
  "collectorAccumulate_els cs r =
     (case accumulate_els cs (rn_collector r) of (out, k) \<Rightarrow> (out, r\<lparr>rn_collector := k\<rparr>))"

definition criteriaPreemptiveBail :: "run \<Rightarrow> run" where
  "criteriaPreemptiveBail r = r\<lparr>rn_criteria := preemptiveBail (rn_criteria r)\<rparr>"

definition criteriaState :: "run \<Rightarrow> LoopCriteriaState" where
  "criteriaState r = criteria_state (rn_criteria r)"

section \<open>Trim and extract\<close>

definition is_whitespace :: "byte \<Rightarrow> bool" where
  "is_whitespace c \<longleftrightarrow> c \<in> set STRING_UTILS_WHITESPACE"

definition trim_initialize :: "trim_state option \<Rightarrow> trim_state" where
  "trim_initialize t =
     \<lparr>tr_r_trim = (case t of None \<Rightarrow> [] | Some s \<Rightarrow> tr_r_trim s), tr_l_trimming = True,
      tr_r_trimming = False\<rparr>"

definition trim_rTrimFlush :: "trim_state \<Rightarrow> run \<Rightarrow> unit res \<times> trim_state \<times> run" where
  "trim_rTrimFlush t r =
     (if tr_r_trim t \<noteq> []
      then case collectorAccumulate_els (tr_r_trim t) r of
          (Inl e, r') \<Rightarrow> (Inl e, t, r')
        | (Inr _, r') \<Rightarrow> (Inr (), t\<lparr>tr_r_trimming := False\<rparr>, r')
      else (Inr (), t\<lparr>tr_r_trimming := False\<rparr>, r))"

definition trim_perform :: "trim_state \<Rightarrow> byte \<Rightarrow> run \<Rightarrow> unit res \<times> trim_state \<times> run" where
  "trim_perform t c r =
     (if \<not> tr_l_trimming t
      then if is_whitespace c
        then (Inr (), t\<lparr>tr_r_trimming := True, tr_r_trim := tr_r_trim t @ [c]\<rparr>, r)
        else if tr_r_trimming t
        then case trim_rTrimFlush t r of
            (Inl e, t', r') \<Rightarrow> (Inl e, t', r')
          | (Inr _, t', r') \<Rightarrow>
              (case collectorAccumulate c r' of (out, r'') \<Rightarrow> (out, t'\<lparr>tr_r_trimming := False\<rparr>, r''))
        else (case collectorAccumulate c r of (out, r') \<Rightarrow> (out, t, r'))
      else if \<not> is_whitespace c
      then (case collectorAccumulate c r of (out, r') \<Rightarrow> (out, t\<lparr>tr_l_trimming := False\<rparr>, r'))
      else (Inr (), t, r))"

definition extract_initialize :: "extract_state option \<Rightarrow> extract_state" where
  "extract_initialize t =
     \<lparr>ex_r_trim = (case t of None \<Rightarrow> [] | Some s \<Rightarrow> ex_r_trim s), ex_l_trimming = True,
      ex_r_trimming = False, ex_non_whitespace = 0, ex_read_until = 0\<rparr>"

definition extract_perform ::
  "byte \<Rightarrow> byte \<Rightarrow> extract_state \<Rightarrow> byte \<Rightarrow> run \<Rightarrow> unit res \<times> extract_state \<times> run" where
  "extract_perform left_most right_most t c r =
     (if \<not> ex_l_trimming t
      then if right_most = c
        then (Inr (), t\<lparr>ex_r_trimming := True, ex_r_trim := ex_r_trim t @ [c]\<rparr>, r)
        else if ex_r_trimming t
        then let t1 = t\<lparr>ex_r_trim := ex_r_trim t @ [c]\<rparr> in
          if last_bit (criteriaState r) then (Inr (), t1\<lparr>ex_read_until := c\<rparr>, r)
          else if \<not> is_whitespace c then (Inr (), t1\<lparr>ex_non_whitespace := c\<rparr>, r)
          else (Inr (), t1, r)
        else (case collectorAccumulate c r of (out, r') \<Rightarrow> (out, t, r'))
      else if \<not> is_whitespace c
      then if c = left_most then (Inr (), t\<lparr>ex_l_trimming := False\<rparr>, r)
        else if last_bit (criteriaState r)
        then (case collectorAccumulate c r of (out, r') \<Rightarrow> (out, t, r'))
        else (Inl (Runtime_Error (''Found non-whitespace char left of token. '' @
               [CHR 0x27, char_of (unat c), CHR 0x27])), t, r)
      else (Inr (), t, r))"

definition extract_flush :: "extract_state \<Rightarrow> run \<Rightarrow> unit res \<times> extract_state \<times> run" where
  "extract_flush t r =
     (if ex_non_whitespace t \<noteq> 0
      then (Inl (Runtime_Error (''Found non-whitespace char right of token. '' @
              [CHR 0x27, char_of (unat (ex_non_whitespace t)), CHR 0x27])), t, r)
      else if \<not> ex_l_trimming t \<and> \<not> ex_r_trimming t
      then (Inl (Runtime_Error ''Found open ended token.''), t, r)
      else if ex_read_until t \<noteq> 0
      then case collectorAccumulate (ex_read_until t) r of
          (Inl e, r') \<Rightarrow> (Inl e, t, r')
        | (Inr _, r') \<Rightarrow> (Inr (), extract_initialize (Some t), r')
      else (Inr (), extract_initialize (Some t), r))"

section \<open>Tasks\<close>

definition to_lower :: "byte \<Rightarrow> byte" where
  "to_lower c = (if 65 \<le> c \<and> c \<le> 90 then c + 32 else c)"

definition to_upper :: "byte \<Rightarrow> byte" where
  "to_upper c = (if 97 \<le> c \<and> c \<le> 122 then c - 32 else c)"

fun initialize :: "reader_task \<Rightarrow> reader_task" where
  "initialize (ReaderTaskExact m i strict is_match nx) = ReaderTaskExact m i strict True nx"
| "initialize (ReaderTaskTrim t) = ReaderTaskTrim (Some (trim_initialize t))"
| "initialize (ReaderTaskExtract l r t) = ReaderTaskExtract l r (Some (extract_initialize t))"
| "initialize t = t"

definition banned :: "unit res" where
  "banned = Inl (Runtime_Error ''Banned character found:'')"

fun perform :: "reader_task \<Rightarrow> byte \<Rightarrow> run \<Rightarrow> unit res \<times> reader_task \<times> run"
and next_perform :: "reader_task option \<Rightarrow> byte \<Rightarrow> run \<Rightarrow> unit res \<times> reader_task option \<times> run"
where
  "next_perform None c r = (case collectorAccumulate c r of (out, r') \<Rightarrow> (out, None, r'))"
| "next_perform (Some t) c r = (case perform t c r of (out, t', r') \<Rightarrow> (out, Some t', r'))"
| "perform (ReaderTaskLC nx) c r =
     (case next_perform nx (to_lower c) r of (out, nx', r') \<Rightarrow> (out, ReaderTaskLC nx', r'))"
| "perform (ReaderTaskUC nx) c r =
     (case next_perform nx (to_upper c) r of (out, nx', r') \<Rightarrow> (out, ReaderTaskUC nx', r'))"
| "perform (ReaderTaskDisallow ds strict nx) c r =
     (if c \<in> set ds
      then (if strict then banned else Inr (), ReaderTaskDisallow ds strict nx, r)
      else case next_perform nx c r of (out, nx', r') \<Rightarrow> (out, ReaderTaskDisallow ds strict nx', r'))"
| "perform (ReaderTaskAllow as strict nx) c r =
     (if c \<in> set as
      then case next_perform nx c r of (out, nx', r') \<Rightarrow> (out, ReaderTaskAllow as strict nx', r')
      else (if strict then banned else Inr (), ReaderTaskAllow as strict nx, r))"
| "perform (ReaderTaskExact m i strict is_match nx) c r =
     (if length m \<le> i then (Inl Out_Of_Range, ReaderTaskExact m (Suc i) strict is_match nx, r)
      else if m ! i \<noteq> c
      then if strict
        then (Inl (Runtime_Error ''Invalid character found in exact match:''),
              ReaderTaskExact m (Suc i) strict False nx, r)
        else (Inr (), ReaderTaskExact m (Suc i) strict False nx, criteriaPreemptiveBail r)
      else case next_perform nx c r of
          (out, nx', r') \<Rightarrow> (out, ReaderTaskExact m (Suc i) strict is_match nx', r'))"
| "perform (ReaderTaskTrim None) c r = (Inl Undefined, ReaderTaskTrim None, r)"
| "perform (ReaderTaskTrim (Some t)) c r =
     (case trim_perform t c r of (out, t', r') \<Rightarrow> (out, ReaderTaskTrim (Some t'), r'))"
| "perform (ReaderTaskExtract lm rm None) c r = (Inl Undefined, ReaderTaskExtract lm rm None, r)"
| "perform (ReaderTaskExtract lm rm (Some t)) c r =
     (case extract_perform lm rm t c r of (out, t', r') \<Rightarrow> (out, ReaderTaskExtract lm rm (Some t'), r'))"

fun flush :: "reader_task \<Rightarrow> run \<Rightarrow> unit res \<times> reader_task \<times> run"
and next_flush :: "reader_task option \<Rightarrow> run \<Rightarrow> unit res \<times> reader_task option \<times> run"
where
  "next_flush None r = (Inr (), None, r)"
| "next_flush (Some t) r = (case flush t r of (out, t', r') \<Rightarrow> (out, Some t', r'))"
| "flush (ReaderTaskLC nx) r = (case next_flush nx r of (out, nx', r') \<Rightarrow> (out, ReaderTaskLC nx', r'))"
| "flush (ReaderTaskUC nx) r = (case next_flush nx r of (out, nx', r') \<Rightarrow> (out, ReaderTaskUC nx', r'))"
| "flush (ReaderTaskDisallow ds strict nx) r =
     (case next_flush nx r of (out, nx', r') \<Rightarrow> (out, ReaderTaskDisallow ds strict nx', r'))"
| "flush (ReaderTaskAllow as strict nx) r =
     (case next_flush nx r of (out, nx', r') \<Rightarrow> (out, ReaderTaskAllow as strict nx', r'))"
| "flush (ReaderTaskExact m i strict is_match nx) r = (Inr (), ReaderTaskExact m 0 strict is_match nx, r)"
| "flush (ReaderTaskTrim t) r = (Inr (), ReaderTaskTrim t, r)"
| "flush (ReaderTaskExtract lm rm None) r = (Inl Undefined, ReaderTaskExtract lm rm None, r)"
| "flush (ReaderTaskExtract lm rm (Some t)) r =
     (case extract_flush t r of (out, t', r') \<Rightarrow> (out, ReaderTaskExtract lm rm (Some t'), r'))"

end
