(* ===== verification/EStream.thy ===== *)
theory EStream
  imports Reader_Task
begin

text \<open>
  The stream reader of lib/estream/estream.h at bytes: a buffer over a descriptor or over
  memory, with one element of push-back across refills, and \<open>streamCollect\<close>, which runs a
  criteria, a task and a collector over a stream.

  The descriptor is the list \<open>es_source\<close> of what its coming \<open>read\<close> calls return: \<open>Some\<close> bytes, or
  \<open>None\<close> for an error or the end of file; \<open>poll\<close> reports data while a result is pending.
  \<open>streamCollect\<close> calls the virtual methods \<open>peek\<close>, \<open>get\<close> and \<open>good\<close>; they are a record of
  operations, \<open>stream_ops\<close>, here.

  \<open>collect_list\<close> is the abstract counterpart: the same run over the list of the bytes that
  remain. The locale \<open>byte_source\<close> states what a source of bytes promises, and
  proves that a run over such a source is the run over the list, so that neither the buffer
  size nor the division of the data into reads matters.
\<close>

section \<open>The buffer\<close>

record estream =
  es_buffer :: "byte list"
  es_buffer_size :: nat
  es_els :: nat
  es_cursor :: nat
  es_ungot :: bool
  es_ungot_el :: byte
  es_bad :: bool
  es_fd :: int
  es_source :: "byte list option list"

definition EStream_memory :: "byte list \<Rightarrow> estream" where
  "EStream_memory b =
     \<lparr>es_buffer = b, es_buffer_size = length b, es_els = length b, es_cursor = 0,
      es_ungot = False, es_ungot_el = 0, es_bad = False, es_fd = -1, es_source = []\<rparr>"

definition EStream_fd :: "int \<Rightarrow> nat \<Rightarrow> byte list option list \<Rightarrow> estream res" where
  "EStream_fd fd bs source =
     (if fd < 0 then Inl (Runtime_Error ''Invalid file descriptor provided.'')
      else if bs < 1 then Inl (Runtime_Error ''Invalid buffer size provided.'')
      else Inr \<lparr>es_buffer = replicate bs 0, es_buffer_size = bs, es_els = 0, es_cursor = 0,
        es_ungot = False, es_ungot_el = 0, es_bad = False, es_fd = fd, es_source = source\<rparr>)"

definition readPastBuffer :: "estream \<Rightarrow> bool" where
  "readPastBuffer s \<longleftrightarrow> es_els s \<le> es_cursor s"

definition fill_failed :: "(estream, unit) prog" where
  "fill_failed s = (Inl (Runtime_Error ''Read error.''), s\<lparr>es_els := 0, es_bad := True\<rparr>)"

definition fillBuffer :: "(estream, unit) prog" where
  "fillBuffer s =
     (let s1 = s\<lparr>es_cursor := 0\<rparr> in
      case es_source s1 of
        [] \<Rightarrow> fill_failed s1
      | None # rest \<Rightarrow> fill_failed (s1\<lparr>es_source := rest\<rparr>)
      | Some d # rest \<Rightarrow>
          let s2 = s1\<lparr>es_source := rest\<rparr> in
          if d = [] \<or> es_buffer_size s2 < length d then fill_failed s2
          else (Inr (), s2\<lparr>es_buffer := d @ drop (length d) (es_buffer s2), es_els := length d\<rparr>))"

definition good :: "estream \<Rightarrow> bool \<times> estream" where
  "good s =
     (let s1 = (if \<not> es_bad s \<and> readPastBuffer s \<and> (es_fd s < 0 \<or> es_source s = [])
                then s\<lparr>es_bad := True\<rparr> else s)
      in (\<not> es_bad s1, s1))"

definition no_more_data :: exn where
  "no_more_data = Runtime_Error ''Read error. No more data in the stream to fill buffer.''"

definition peek :: "(estream, byte) prog" where
  "peek s =
     (case good s of
        (False, s1) \<Rightarrow> (Inl no_more_data, s1)
      | (True, s1) \<Rightarrow>
          let look = (\<lambda>s2. if es_cursor s2 = 0 \<and> es_ungot s2 then (Inr (es_ungot_el s2), s2)
                else (readB (es_buffer s2) (es_cursor s2), s2))
          in if readPastBuffer s1
             then if es_cursor s1 \<noteq> 0
               then bindS (liftS (readB (es_buffer s1) (es_cursor s1 - 1)))
                      (\<lambda>el s2. bindS fillBuffer (\<lambda>_. look) (s2\<lparr>es_ungot_el := el\<rparr>)) s1
               else bindS fillBuffer (\<lambda>_. look) s1
             else look s1)"

definition get :: "(estream, byte) prog" where
  "get = bindS peek (\<lambda>el s.
     (Inr el, if es_cursor s = 0 \<and> es_ungot s then s\<lparr>es_ungot := False\<rparr>
              else s\<lparr>es_cursor := es_cursor s + 1\<rparr>))"

definition unget :: "estream \<Rightarrow> estream" where
  "unget s = (if es_cursor s = 0 then s\<lparr>es_ungot := True\<rparr> else s\<lparr>es_cursor := es_cursor s - 1\<rparr>)"

text \<open>\<open>readEls\<close> without an operation: whole pieces of the buffer.\<close>

partial_function (option) readEls_loop ::
  "nat \<Rightarrow> byte list \<Rightarrow> estream \<Rightarrow> (byte list res \<times> estream) option" where
  "readEls_loop left data s =
     (if left = 0 then Some (Inr data, s)
      else let in_buffer = es_els s - es_cursor s;
               rest = drop (es_cursor s) (es_buffer s) in
        if in_buffer < left
        then case fillBuffer s of
            (Inl e, s1) \<Rightarrow> Some (Inl e, s1)
          | (Inr _, s1) \<Rightarrow> readEls_loop (left - in_buffer) (data @ take in_buffer rest) s1
        else Some (Inr (data @ take left rest), s\<lparr>es_cursor := es_cursor s + left\<rparr>))"

declare readEls_loop.simps [code]

definition ARBITRARY_LIMIT_BECAUSE_DUMB :: nat where
  "ARBITRARY_LIMIT_BECAUSE_DUMB = 4294967296"

definition readEls :: "nat \<Rightarrow> estream \<Rightarrow> (byte list res \<times> estream) option" where
  "readEls n s =
     (if n = 0 then Some (Inl (Runtime_Error ''It doesn't make sense to read zero els.''), s)
      else if ARBITRARY_LIMIT_BECAUSE_DUMB < n
      then Some (Inl (Runtime_Error (''You're reading more than the limit specified... '' @
             ''Read less, or you know what, don't read at all.'')), s)
      else if readPastBuffer s
      then case fillBuffer s of
          (Inl e, s1) \<Rightarrow> Some (Inl e, s1)
        | (Inr _, s1) \<Rightarrow> readEls_loop n [] s1
      else if es_cursor s = 0 \<and> es_ungot s
      then readEls_loop (n - 1) [es_ungot_el s] (s\<lparr>es_ungot := False\<rparr>)
      else readEls_loop n [] s)"

section \<open>Stream runs\<close>

record 's stream_ops =
  op_peek :: "('s, byte) prog"
  op_get :: "('s, byte) prog"
  op_good :: "'s \<Rightarrow> bool \<times> 's"

partial_function (option) collect_loop ::
  "'s stream_ops \<Rightarrow> byte \<Rightarrow> reader_task option \<Rightarrow> run \<Rightarrow> 's \<Rightarrow>
   (unit res \<times> reader_task option \<times> run \<times> 's) option" where
  "collect_loop ops el task r s =
     (case nextState el (rn_criteria r) of
        (Inl e, k) \<Rightarrow> Some (Inl e, task, r\<lparr>rn_criteria := k\<rparr>, s)
      | (Inr st, k) \<Rightarrow>
          let r1 = r\<lparr>rn_criteria := k\<rparr> in
          if \<not> good_bit st then Some (Inr (), task, r1, s)
          else (case op_get ops s of
              (Inl e, s1) \<Rightarrow> Some (Inl e, task, r1, s1)
            | (Inr _, s1) \<Rightarrow>
                (case next_perform task el r1 of
                   (Inl e, task', r2) \<Rightarrow> Some (Inl e, task', r2, s1)
                 | (Inr _, task', r2) \<Rightarrow>
                     (case op_good ops s1 of (g, s2) \<Rightarrow>
                        if \<not> g \<and> last_bit (criteriaState r2) then Some (Inr (), task', r2, s2)
                        else (case op_peek ops s2 of
                            (Inl e, s3) \<Rightarrow> Some (Inl e, task', r2, s3)
                          | (Inr el', s3) \<Rightarrow> collect_loop ops el' task' r2 s3)))))"

declare collect_loop.simps [code]

text \<open>How a run ends: flush the task and collect.\<close>

definition finish_run :: "unit res \<Rightarrow> reader_task option \<Rightarrow> run \<Rightarrow> collector res \<times> reader_task option" where
  "finish_run out task r =
     (case out of
        Inl e \<Rightarrow> (Inl e, task)
      | Inr _ \<Rightarrow> (case next_flush task r of
            (Inl e, task', r') \<Rightarrow> (Inl e, task')
          | (Inr _, task', r') \<Rightarrow> (Inr (rn_collector r'), task')))"

definition start_run :: "criteria \<Rightarrow> collector \<Rightarrow> run" where
  "start_run crit coll = \<lparr>rn_criteria = crit, rn_collector = collector_initialize coll\<rparr>"

definition streamCollect ::
  "'s stream_ops \<Rightarrow> criteria \<Rightarrow> reader_task option \<Rightarrow> collector \<Rightarrow> 's \<Rightarrow>
   (collector res \<times> reader_task option \<times> 's) option" where
  "streamCollect ops crit task coll s =
     (let r = start_run crit coll; task0 = map_option initialize task in
      case op_peek ops s of
        (Inl e, s1) \<Rightarrow> Some (Inl e, task0, s1)
      | (Inr el, s1) \<Rightarrow>
          (case collect_loop ops el task0 r s1 of
             None \<Rightarrow> None
           | Some (out, task', r', s2) \<Rightarrow>
               (case finish_run out task' r' of (res, task'') \<Rightarrow> Some (res, task'', s2))))"

section \<open>Runs over the list of remaining bytes\<close>

fun collect_list ::
  "byte list \<Rightarrow> reader_task option \<Rightarrow> run \<Rightarrow> unit res \<times> reader_task option \<times> run \<times> byte list" where
  "collect_list [] task r = (Inl no_more_data, task, r, [])"
| "collect_list (el # xs) task r =
     (case nextState el (rn_criteria r) of
        (Inl e, k) \<Rightarrow> (Inl e, task, r\<lparr>rn_criteria := k\<rparr>, el # xs)
      | (Inr st, k) \<Rightarrow>
          let r1 = r\<lparr>rn_criteria := k\<rparr> in
          if \<not> good_bit st then (Inr (), task, r1, el # xs)
          else (case next_perform task el r1 of
              (Inl e, task', r2) \<Rightarrow> (Inl e, task', r2, xs)
            | (Inr _, task', r2) \<Rightarrow>
                if xs = [] \<and> last_bit (criteriaState r2) then (Inr (), task', r2, [])
                else collect_list xs task' r2))"

definition collect_bytes ::
  "criteria \<Rightarrow> reader_task option \<Rightarrow> collector \<Rightarrow> byte list \<Rightarrow>
   collector res \<times> reader_task option \<times> byte list" where
  "collect_bytes crit task coll xs =
     (case collect_list xs (map_option initialize task) (start_run crit coll) of
        (out, task', r', ys) \<Rightarrow>
          (case finish_run out task' r' of (res, task'') \<Rightarrow> (res, task'', ys)))"

locale byte_source =
  fixes ops :: "'s stream_ops"
    and remaining :: "'s \<Rightarrow> byte list \<Rightarrow> bool"
  assumes peek_more: "remaining s (x # xs) \<Longrightarrow>
      \<exists>s'. op_peek ops s = (Inr x, s') \<and> remaining s' (x # xs)"
    and peek_end: "remaining s [] \<Longrightarrow>
      \<exists>s'. op_peek ops s = (Inl no_more_data, s') \<and> remaining s' []"
    and get_more: "remaining s (x # xs) \<Longrightarrow> \<exists>s'. op_get ops s = (Inr x, s') \<and> remaining s' xs"
    and good_more: "remaining s xs \<Longrightarrow> \<exists>s'. op_good ops s = (xs \<noteq> [], s') \<and> remaining s' xs"
begin

lemma loop_list:
  assumes "remaining s (el # xs)" "collect_list (el # xs) task r = (out, task', r', ys)"
  shows "\<exists>s'. collect_loop ops el task r s = Some (out, task', r', s') \<and> remaining s' ys"
  using assms
proof (induction xs arbitrary: el task r s)
  case (Nil el task r s)
  obtain n k where n: "nextState el (rn_criteria r) = (n, k)" by fastforce
  obtain s1 where s1: "op_get ops s = (Inr el, s1)" "remaining s1 []" using get_more [OF Nil(1)] by blast
  obtain o1 t1 r1 where p: "next_perform task el (r\<lparr>rn_criteria := k\<rparr>) = (o1, t1, r1)"
    using prod_cases3 by blast
  obtain s2 where s2: "op_good ops s1 = (False, s2)" "remaining s2 []" using good_more [OF s1(2)] by auto
  obtain s3 where s3: "op_peek ops s2 = (Inl no_more_data, s3)" "remaining s3 []"
    using peek_end [OF s2(2)] by blast
  show ?case
    using Nil n s1 p s2 s3
    by (subst collect_loop.simps) (auto simp: Let_def split: sum.splits if_splits)
next
  case (Cons x xs el task r s)
  obtain n k where n: "nextState el (rn_criteria r) = (n, k)" by fastforce
  obtain s1 where s1: "op_get ops s = (Inr el, s1)" "remaining s1 (x # xs)"
    using get_more [OF Cons(2)] by blast
  obtain o1 t1 r1 where p: "next_perform task el (r\<lparr>rn_criteria := k\<rparr>) = (o1, t1, r1)"
    using prod_cases3 by blast
  obtain s2 where s2: "op_good ops s1 = (True, s2)" "remaining s2 (x # xs)"
    using good_more [OF s1(2)] by auto
  obtain s3 where s3: "op_peek ops s2 = (Inr x, s3)" "remaining s3 (x # xs)"
    using peek_more [OF s2(2)] by blast
  have step: "collect_loop ops el task r s =
      (case n of Inl e \<Rightarrow> Some (Inl e, task, r\<lparr>rn_criteria := k\<rparr>, s)
       | Inr st \<Rightarrow> if \<not> good_bit st then Some (Inr (), task, r\<lparr>rn_criteria := k\<rparr>, s)
           else (case o1 of Inl e \<Rightarrow> Some (Inl e, t1, r1, s1) | Inr _ \<Rightarrow> collect_loop ops x t1 r1 s3))"
    using n s1 p s2 s3 by (subst collect_loop.simps) (auto split: sum.splits)
  have lst: "collect_list (el # x # xs) task r =
      (case n of Inl e \<Rightarrow> (Inl e, task, r\<lparr>rn_criteria := k\<rparr>, el # x # xs)
       | Inr st \<Rightarrow> if \<not> good_bit st then (Inr (), task, r\<lparr>rn_criteria := k\<rparr>, el # x # xs)
           else (case o1 of Inl e \<Rightarrow> (Inl e, t1, r1, x # xs) | Inr _ \<Rightarrow> collect_list (x # xs) t1 r1))"
    using n p by (subst collect_list.simps) (auto split: sum.splits)
  show ?case
    using Cons.prems Cons.IH [OF s3(2), of t1 r1] s1(2)
    unfolding step lst by (auto split: sum.splits if_splits)
qed

lemma streamCollect_bytes:
  assumes "remaining s xs" "collect_bytes crit task coll xs = (res, task', ys)"
  shows "\<exists>s'. streamCollect ops crit task coll s = Some (res, task', s') \<and> remaining s' ys"
proof (cases xs)
  case Nil
  then show ?thesis using peek_end [of s] assms
    by (auto simp: streamCollect_def collect_bytes_def finish_run_def)
next
  case (Cons x zs)
  obtain s1 where s1: "op_peek ops s = (Inr x, s1)" "remaining s1 (x # zs)"
    using peek_more assms(1) Cons by blast
  obtain out t r' ys' where c:
    "collect_list (x # zs) (map_option initialize task) (start_run crit coll) = (out, t, r', ys')"
    using prod_cases4 by blast
  from loop_list [OF s1(2) c] obtain s2 where
    "collect_loop ops x (map_option initialize task) (start_run crit coll) s1 = Some (out, t, r', s2)"
    "remaining s2 ys'" by blast
  with s1 c Cons assms(2) show ?thesis
    by (auto simp: streamCollect_def collect_bytes_def Let_def split: prod.splits)
qed

end

section \<open>The buffered stream is a source\<close>

definition estream_ops :: "estream stream_ops" where
  "estream_ops = \<lparr>op_peek = peek, op_get = get, op_good = good\<rparr>"

text \<open>
  The bytes that remain: the one put back, the rest of the buffer, and what the descriptor
  delivers. Its reads return at least one byte and at most a buffer of them.
\<close>

definition chunks_ok :: "nat \<Rightarrow> byte list option list \<Rightarrow> bool" where
  "chunks_ok n cs \<longleftrightarrow> (\<forall>c \<in> set cs. \<exists>d. c = Some d \<and> d \<noteq> [] \<and> length d \<le> n)"

definition pending :: "estream \<Rightarrow> byte list" where
  "pending s = (if es_ungot s then [es_ungot_el s] else []) @
     take (es_els s - es_cursor s) (drop (es_cursor s) (es_buffer s)) @ concat (map the (es_source s))"

definition es_inv :: "estream \<Rightarrow> bool" where
  "es_inv s \<longleftrightarrow> es_cursor s \<le> es_els s \<and> es_els s \<le> length (es_buffer s) \<and>
     length (es_buffer s) = es_buffer_size s \<and> (es_ungot s \<longrightarrow> es_cursor s = 0 \<and> 0 < es_els s) \<and>
     chunks_ok (es_buffer_size s) (es_source s) \<and> (es_source s \<noteq> [] \<longrightarrow> 0 \<le> es_fd s) \<and>
     (es_bad s \<longrightarrow> pending s = [])"

definition remaining :: "estream \<Rightarrow> byte list \<Rightarrow> bool" where
  "remaining s xs \<longleftrightarrow> es_inv s \<and> pending s = xs"

lemma good_past: "good s = (let s1 = (if \<not> es_bad s \<and> readPastBuffer s \<and>
    (es_fd s < 0 \<or> es_source s = []) then s\<lparr>es_bad := True\<rparr> else s) in (\<not> es_bad s1, s1))"
  by (simp add: good_def)

lemma chunks_Cons: "chunks_ok n (c # cs) \<longleftrightarrow> (\<exists>d. c = Some d \<and> d \<noteq> [] \<and> length d \<le> n) \<and> chunks_ok n cs"
  by (auto simp: chunks_ok_def)

lemma chunks_empty: "chunks_ok n cs \<Longrightarrow> concat (map the cs) = [] \<longleftrightarrow> cs = []"
  by (cases cs) (auto simp: chunks_Cons)

lemma pending_empty:
  assumes "es_inv s"
  shows "pending s = [] \<longleftrightarrow> readPastBuffer s \<and> es_source s = []"
  using assms chunks_empty [of "es_buffer_size s" "es_source s"]
  by (auto simp: es_inv_def pending_def readPastBuffer_def)

lemma good_remaining:
  assumes "remaining s xs"
  shows "\<exists>s'. good s = (xs \<noteq> [], s') \<and> remaining s' xs \<and> (xs \<noteq> [] \<longrightarrow> s' = s)"
proof (cases "xs = []")
  case True
  then have "pending s = []" "readPastBuffer s" "es_source s = []"
    using assms pending_empty [of s] by (auto simp: remaining_def)
  moreover have "remaining (s\<lparr>es_bad := True\<rparr>) []"
    using assms True by (auto simp: remaining_def es_inv_def pending_def)
  ultimately show ?thesis using assms True by (simp add: good_def Let_def)
next
  case False
  then have "\<not> es_bad s" "\<not> (readPastBuffer s \<and> es_source s = [])" "es_source s \<noteq> [] \<longrightarrow> 0 \<le> es_fd s"
    using assms pending_empty [of s] by (auto simp: remaining_def es_inv_def)
  then show ?thesis using assms False by (auto simp: good_def Let_def)
qed

text \<open>A refill of an empty buffer.\<close>

lemma fill_remaining:
  assumes "remaining s (x # xs)" "readPastBuffer s"
  shows "\<exists>s'. fillBuffer s = (Inr (), s') \<and> remaining s' (x # xs) \<and> es_cursor s' = 0 \<and>
    \<not> es_ungot s' \<and> \<not> readPastBuffer s' \<and> es_ungot_el s' = es_ungot_el s"
proof -
  have inv: "es_inv s" and p: "pending s = x # xs" using assms(1) by (auto simp: remaining_def)
  have e: "es_cursor s = es_els s" "\<not> es_ungot s"
    using inv assms(2) by (auto simp: es_inv_def readPastBuffer_def)
  then have src: "concat (map the (es_source s)) = x # xs" using p by (simp add: pending_def)
  then obtain d rest where d: "es_source s = Some d # rest" "d \<noteq> []" "length d \<le> es_buffer_size s"
    using inv by (cases "es_source s") (auto simp: es_inv_def chunks_Cons)
  let ?s = "s\<lparr>es_cursor := 0, es_source := rest, es_buffer := d @ drop (length d) (es_buffer s),
      es_els := length d\<rparr>"
  have "fillBuffer s = (Inr (), ?s)" using d by (simp add: fillBuffer_def)
  moreover have "pending ?s = x # xs" using e(2) src d(1) by (simp add: pending_def)
  moreover have "es_inv ?s" using inv d e p calculation(2) by (auto simp: es_inv_def chunks_Cons)
  ultimately show ?thesis using d e by (auto simp: remaining_def readPastBuffer_def)
qed

lemma rest_Cons:
  assumes "c < e" "e \<le> length b"
  shows "take (e - c) (drop c b) = b ! c # take (e - Suc c) (drop (Suc c) b)"
proof -
  have "drop c b = b ! c # drop (Suc c) b" using assms by (simp add: Cons_nth_drop_Suc)
  moreover have "e - c = Suc (e - Suc c)" using assms by simp
  ultimately show ?thesis by simp
qed

lemma pending_step:
  assumes "es_inv s" "\<not> readPastBuffer s"
  shows "pending s = (if es_ungot s then es_ungot_el s # pending (s\<lparr>es_ungot := False\<rparr>)
    else es_buffer s ! es_cursor s # pending (s\<lparr>es_cursor := es_cursor s + 1\<rparr>))"
proof (cases "es_ungot s")
  case True
  then show ?thesis by (simp add: pending_def)
next
  case False
  then show ?thesis
    using assms rest_Cons [of "es_cursor s" "es_els s" "es_buffer s"]
    by (simp add: pending_def es_inv_def readPastBuffer_def)
qed

lemma look_remaining:
  assumes "remaining s (x # xs)" "\<not> readPastBuffer s"
  shows "(if es_cursor s = 0 \<and> es_ungot s then (Inr (es_ungot_el s), s)
      else (readB (es_buffer s) (es_cursor s), s)) = (Inr x, s)"
  using assms pending_step [of s]
  by (auto simp: remaining_def es_inv_def readPastBuffer_def split: if_splits)

lemma peek_remaining:
  assumes "remaining s (x # xs)"
  shows "\<exists>s'. peek s = (Inr x, s') \<and> remaining s' (x # xs) \<and> \<not> readPastBuffer s' \<and>
    (if readPastBuffer s then es_cursor s' = 0 \<and> \<not> es_ungot s' \<and>
       (es_cursor s \<noteq> 0 \<longrightarrow> es_ungot_el s' = es_buffer s ! (es_cursor s - 1)) else s' = s)"
proof -
  have g: "good s = (True, s)" using good_remaining [OF assms] by auto
  show ?thesis
  proof (cases "readPastBuffer s")
    case False
    then show ?thesis using g look_remaining [OF assms False] assms by (simp add: peek_def Let_def)
  next
    case True
    show ?thesis
    proof (cases "es_cursor s = 0")
      case c: True
      obtain s1 where s1: "fillBuffer s = (Inr (), s1)" "remaining s1 (x # xs)" "es_cursor s1 = 0"
        "\<not> es_ungot s1" "\<not> readPastBuffer s1"
        using fill_remaining [OF assms True] by blast
      then show ?thesis using g True c look_remaining [OF s1(2,5)] by (simp add: peek_def Let_def)
    next
      case c: False
      let ?s = "s\<lparr>es_ungot_el := es_buffer s ! (es_cursor s - 1)\<rparr>"
      have "remaining ?s (x # xs)" "readPastBuffer ?s" "es_cursor s - 1 < length (es_buffer s)"
        using assms True c by (auto simp: remaining_def es_inv_def readPastBuffer_def pending_def)
      then obtain s1 where s1: "fillBuffer ?s = (Inr (), s1)" "remaining s1 (x # xs)" "es_cursor s1 = 0"
        "\<not> es_ungot s1" "\<not> readPastBuffer s1" "es_ungot_el s1 = es_buffer s ! (es_cursor s - 1)"
        using fill_remaining [of ?s x xs] by auto
      then show ?thesis
        using g True c look_remaining [OF s1(2,5)] \<open>es_cursor s - 1 < length (es_buffer s)\<close>
        by (simp add: peek_def Let_def bindS_def)
    qed
  qed
qed

lemma get_remaining:
  assumes "remaining s (x # xs)"
  shows "\<exists>s'. get s = (Inr x, s') \<and> remaining s' xs"
proof -
  obtain s1 where s1: "peek s = (Inr x, s1)" "remaining s1 (x # xs)" "\<not> readPastBuffer s1"
    using peek_remaining [OF assms] by blast
  have "remaining (if es_cursor s1 = 0 \<and> es_ungot s1 then s1\<lparr>es_ungot := False\<rparr>
      else s1\<lparr>es_cursor := es_cursor s1 + 1\<rparr>) xs"
    using s1(2,3) pending_step [of s1]
    by (auto simp: remaining_def es_inv_def readPastBuffer_def split: if_splits)
  with s1(1) show ?thesis by (simp add: get_def)
qed

interpretation es: byte_source estream_ops remaining
proof (unfold_locales, goal_cases)
  case (1 s x xs)
  then show ?case using peek_remaining [OF 1] by (auto simp: estream_ops_def)
next
  case (2 s)
  then obtain s' where "good s = (False, s')" "remaining s' []" using good_remaining [of s "[]"] by auto
  then show ?case by (simp add: estream_ops_def peek_def)
next
  case (3 s x xs)
  then show ?case using get_remaining [OF 3] by (simp add: estream_ops_def)
next
  case (4 s xs)
  then show ?case using good_remaining [OF 4] by (auto simp: estream_ops_def)
qed

section \<open>Putting a byte back, and reading pieces\<close>

lemma unget_after_get:
  assumes "remaining s (x # xs)" "get s = (Inr x, s1)"
  shows "remaining (unget s1) (x # xs)"
proof -
  obtain s2 where s2: "peek s = (Inr x, s2)" "remaining s2 (x # xs)" "\<not> readPastBuffer s2"
    using peek_remaining [OF assms(1)] by blast
  have "s1 = (if es_cursor s2 = 0 \<and> es_ungot s2 then s2\<lparr>es_ungot := False\<rparr>
      else s2\<lparr>es_cursor := es_cursor s2 + 1\<rparr>)"
    using assms(2) s2(1) by (simp add: get_def)
  moreover have "es_ungot s2 \<longrightarrow> es_cursor s2 = 0" using s2(2) by (simp add: remaining_def es_inv_def)
  ultimately have "unget s1 = s2" by (cases s2) (auto simp: unget_def)
  with s2(2) show ?thesis by simp
qed

text \<open>The byte before the cursor, which a refill keeps for one \<open>unget\<close>.\<close>

lemma get_cursor:
  assumes "remaining s (x # xs)" "get s = (Inr x, s1)"
  shows "\<not> es_ungot s1 \<and> (es_cursor s1 \<noteq> 0 \<longrightarrow> es_buffer s1 ! (es_cursor s1 - 1) = x) \<and>
    (es_cursor s1 = 0 \<longrightarrow> es_ungot_el s1 = x \<and> 0 < es_els s1) \<and> \<not> es_bad s1"
proof -
  obtain s2 where s2: "peek s = (Inr x, s2)" "remaining s2 (x # xs)" "\<not> readPastBuffer s2"
    using peek_remaining [OF assms(1)] by blast
  have "s1 = (if es_cursor s2 = 0 \<and> es_ungot s2 then s2\<lparr>es_ungot := False\<rparr>
      else s2\<lparr>es_cursor := es_cursor s2 + 1\<rparr>)"
    using assms(2) s2(1) by (simp add: get_def)
  then show ?thesis using s2(2,3) pending_step [of s2]
    by (auto simp: remaining_def es_inv_def readPastBuffer_def split: if_splits)
qed

lemma unget_after_peek:
  assumes "remaining s (x # y # xs)" "get s = (Inr x, s1)" "peek s1 = (Inr y, s2)"
  shows "remaining (unget s2) (x # y # xs)"
proof -
  have r1: "remaining s1 (y # xs)" using get_remaining [OF assms(1)] assms(2) by auto
  note c = get_cursor [OF assms(1,2)]
  show ?thesis
  proof (cases "readPastBuffer s1")
    case False
    then have "s2 = s1" using peek_remaining [OF r1] assms(3) by auto
    then show ?thesis using unget_after_get [OF assms(1,2)] by simp
  next
    case True
    then have n0: "es_cursor s1 \<noteq> 0" using c by (auto simp: readPastBuffer_def)
    have s2: "remaining s2 (y # xs)" "\<not> readPastBuffer s2" "es_cursor s2 = 0" "\<not> es_ungot s2"
      "es_ungot_el s2 = x"
      using peek_remaining [OF r1] assms(3) True n0 c by auto
    then have "unget s2 = s2\<lparr>es_ungot := True\<rparr>" by (simp add: unget_def)
    then show ?thesis using s2 by (auto simp: remaining_def es_inv_def readPastBuffer_def pending_def)
  qed
qed

lemma unget_at_end:
  assumes "remaining s [x]" "get s = (Inr x, s1)"
  shows "fst (peek (unget (snd (good s1)))) = Inl no_more_data"
proof -
  have r1: "remaining s1 []" using get_remaining [OF assms(1)] assms(2) by auto
  then have "readPastBuffer s1" "es_source s1 = []"
    using pending_empty [of s1] by (auto simp: remaining_def)
  then have "es_bad (snd (good s1))" using r1 good_remaining [of s1 "[]"] by (auto simp: good_def Let_def)
  then have "es_bad (unget (snd (good s1)))" by (simp add: unget_def)
  then show ?thesis by (simp add: peek_def good_def Let_def)
qed

lemma readEls_loop_zero [simp]: "readEls_loop 0 data s = Some (Inr data, s)"
  by (simp add: readEls_loop.simps [of 0])

lemma readEls_loop_remaining:
  assumes "remaining s (us @ ys)" "\<not> es_ungot s"
  shows "\<exists>s'. readEls_loop (length us) data s = Some (Inr (data @ us), s') \<and> remaining s' ys"
  using assms
proof (induction "length (es_source s)" arbitrary: s us data)
  case (0 s us data)
  let ?rest = "drop (es_cursor s) (es_buffer s)" and ?n = "es_els s - es_cursor s"
  have p: "take ?n ?rest = us @ ys" using 0 by (simp add: remaining_def pending_def)
  then have len: "length us \<le> ?n" by (metis length_append length_take le_add1 min.boundedE)
  have "take (length us) ?rest = us"
    using p len by (metis append_eq_conv_conj min.absorb1 take_take)
  moreover have "remaining (s\<lparr>es_cursor := es_cursor s + length us\<rparr>) ys"
  proof -
    have "drop (length us) (take ?n ?rest) = ys" using p by simp
    then have "take (?n - length us) (drop (length us) ?rest) = ys" by (simp add: drop_take)
    then show ?thesis using 0 len by (auto simp: remaining_def es_inv_def pending_def add.commute)
  qed
  ultimately show ?case using 0 len
    by (cases "us = []") (auto simp: readEls_loop.simps [of "length us"] remaining_def)
next
  case (Suc k s us data)
  let ?rest = "drop (es_cursor s) (es_buffer s)" and ?n = "es_els s - es_cursor s"
  have inv: "es_inv s" and p: "take ?n ?rest @ concat (map the (es_source s)) = us @ ys"
    using Suc.prems by (simp_all add: remaining_def pending_def)
  have n: "length (take ?n ?rest) = ?n" using inv by (auto simp: es_inv_def min_def)
  show ?case
  proof (cases "?n < length us")
    case False
    have "take (length us) (take ?n ?rest @ concat (map the (es_source s))) = us" using p by simp
    then have "take (length us) ?rest = us" using n False by (simp add: take_take min_absorb1)
    moreover have "remaining (s\<lparr>es_cursor := es_cursor s + length us\<rparr>) ys"
    proof -
      have "drop (length us) (take ?n ?rest @ concat (map the (es_source s))) = ys" using p by simp
      then have "take (?n - length us) (drop (length us) ?rest) @ concat (map the (es_source s)) = ys"
        using n False by (simp add: drop_take)
      then show ?thesis using inv Suc.prems(2) False
        by (auto simp: remaining_def es_inv_def pending_def add.commute)
    qed
    ultimately show ?thesis using False
      by (cases "us = []") (use Suc.prems in \<open>auto simp: readEls_loop.simps [of "length us"]\<close>)
  next
    case True
    let ?vs = "drop ?n us" and ?s = "s\<lparr>es_cursor := es_els s\<rparr>"
    have us: "take ?n ?rest @ ?vs = us" "concat (map the (es_source s)) = ?vs @ ys"
      using arg_cong [OF p, of "take ?n"] arg_cong [OF p, of "drop ?n"] n True
      by (auto simp: append_take_drop_id)
    have "?vs \<noteq> []" using True by simp
    then obtain v vs where v: "?vs = v # vs" by (cases ?vs) auto
    have "remaining ?s (v # vs @ ys)"
      using inv us(2) v Suc.prems(2) by (auto simp: remaining_def es_inv_def pending_def)
    moreover have "readPastBuffer ?s" by (simp add: readPastBuffer_def)
    ultimately obtain s1 where s1: "fillBuffer ?s = (Inr (), s1)" "remaining s1 (?vs @ ys)" "\<not> es_ungot s1"
      using fill_remaining [of ?s v "vs @ ys"] v by auto
    have same: "fillBuffer ?s = fillBuffer s" by (simp add: fillBuffer_def)
    have "k = length (es_source s1)"
      using s1(1) Suc.hyps(2) same
      by (cases "es_source s") (auto simp: fillBuffer_def fill_failed_def Let_def split: option.splits if_splits)
    from Suc.hyps(1) [OF this s1(2,3), of "data @ take ?n ?rest"]
    show ?thesis using True same [symmetric] s1(1) us(1)
      by (auto simp: readEls_loop.simps [of "length us"] Let_def)
  qed
qed

lemma readEls_remaining:
  assumes "remaining s (us @ ys)" "us \<noteq> []" "length us \<le> 2 ^ 32"
  shows "\<exists>s'. readEls (length us) s = Some (Inr us, s') \<and> remaining s' ys"
proof (cases "readPastBuffer s")
  case True
  obtain u vs where "us = u # vs" using assms(2) by (cases us) auto
  then obtain s1 where "fillBuffer s = (Inr (), s1)" "remaining s1 (us @ ys)" "\<not> es_ungot s1"
    using fill_remaining [of s u "vs @ ys"] assms(1) True by auto
  then show ?thesis
    using readEls_loop_remaining [of s1 us ys "[]"] assms(2,3) True
    by (simp add: readEls_def ARBITRARY_LIMIT_BECAUSE_DUMB_def)
next
  case False
  have inv: "es_ungot s \<longrightarrow> es_cursor s = 0" using assms(1) by (simp add: remaining_def es_inv_def)
  show ?thesis
  proof (cases "es_ungot s")
    case True
    obtain u vs where u: "us = u # vs" using assms(2) by (cases us) auto
    have "u = es_ungot_el s" "remaining (s\<lparr>es_ungot := False\<rparr>) (vs @ ys)"
      using pending_step [of s] assms(1) True False u by (auto simp: remaining_def es_inv_def)
    then show ?thesis
      using readEls_loop_remaining [of "s\<lparr>es_ungot := False\<rparr>" vs ys "[u]"] assms(3) True False inv u
      by (simp add: readEls_def ARBITRARY_LIMIT_BECAUSE_DUMB_def)
  next
    case ungot: False
    then show ?thesis
      using readEls_loop_remaining [OF assms(1) ungot, of "[]"] assms(2,3) False
      by (simp add: readEls_def ARBITRARY_LIMIT_BECAUSE_DUMB_def)
  qed
qed

lemma readEls_loop_short:
  assumes "remaining s xs" "\<not> es_ungot s" "length xs < n"
  shows "\<exists>e s'. readEls_loop n data s = Some (Inl e, s')"
  using assms
proof (induction "length (es_source s)" arbitrary: s xs n data)
  case (0 s xs n data)
  have "es_els s - es_cursor s < n"
    using 0 by (auto simp: remaining_def es_inv_def pending_def)
  then show ?case using 0 by (simp add: readEls_loop.simps [of n] fillBuffer_def fill_failed_def Let_def)
next
  case (Suc k s xs n data)
  let ?rest = "drop (es_cursor s) (es_buffer s)" and ?m = "es_els s - es_cursor s" and ?s = "s\<lparr>es_cursor := es_els s\<rparr>"
  have inv: "es_inv s" and p: "take ?m ?rest @ concat (map the (es_source s)) = xs"
    using Suc.prems by (simp_all add: remaining_def pending_def)
  have m: "length (take ?m ?rest) = ?m" using inv by (auto simp: es_inv_def min_def)
  obtain d ds where d: "es_source s = d # ds" using Suc.hyps(2) by (cases "es_source s") auto
  then obtain v vs where v: "concat (map the (es_source s)) = v # vs"
    using inv chunks_empty [of "es_buffer_size s" "es_source s"] by (cases "concat (map the (es_source s))") (auto simp: es_inv_def)
  have "remaining ?s (v # vs)" using inv v Suc.prems(2) by (auto simp: remaining_def es_inv_def pending_def)
  moreover have "readPastBuffer ?s" by (simp add: readPastBuffer_def)
  ultimately obtain s1 where s1: "fillBuffer ?s = (Inr (), s1)" "remaining s1 (v # vs)" "\<not> es_ungot s1"
    using fill_remaining by blast
  have same: "fillBuffer ?s = fillBuffer s" by (simp add: fillBuffer_def)
  have "k = length (es_source s1)"
    using s1(1) Suc.hyps(2) same
    by (cases "es_source s") (auto simp: fillBuffer_def fill_failed_def Let_def split: option.splits if_splits)
  moreover have len: "length xs = ?m + length (v # vs)" using arg_cong [OF p, of length] v m by simp
  then have "length (v # vs) < n - ?m" using Suc.prems(3) by simp
  ultimately obtain e s' where "readEls_loop (n - ?m) (data @ take ?m ?rest) s1 = Some (Inl e, s')"
    using Suc.hyps(1) [OF _ s1(2,3)] by blast
  then show ?case using same [symmetric] s1(1) len Suc.prems(3)
    by (auto simp: readEls_loop.simps [of n] Let_def)
qed

lemma readEls_short:
  assumes "remaining s xs" "length xs < n"
  shows "\<exists>e s'. readEls n s = Some (Inl e, s')"
proof (cases "readPastBuffer s")
  case True
  show ?thesis
  proof (cases xs)
    case Nil
    then have "es_source s = []" using assms(1) pending_empty [of s] by (simp add: remaining_def)
    then show ?thesis using True by (simp add: readEls_def fillBuffer_def fill_failed_def Let_def)
  next
    case (Cons u vs)
    then obtain s1 where "fillBuffer s = (Inr (), s1)" "remaining s1 xs" "\<not> es_ungot s1"
      using fill_remaining [of s u vs] assms(1) True by auto
    then show ?thesis using readEls_loop_short [of s1 xs n "[]"] assms(2) True by (auto simp: readEls_def)
  qed
next
  case False
  have inv: "es_ungot s \<longrightarrow> es_cursor s = 0" using assms(1) by (simp add: remaining_def es_inv_def)
  show ?thesis
  proof (cases "es_ungot s")
    case True
    obtain vs where "xs = es_ungot_el s # vs" "remaining (s\<lparr>es_ungot := False\<rparr>) vs"
      using pending_step [of s] assms(1) True False by (auto simp: remaining_def es_inv_def)
    then show ?thesis
      using readEls_loop_short [of "s\<lparr>es_ungot := False\<rparr>" vs "n - 1" "[es_ungot_el s]"] assms(2) True False inv
      by (auto simp: readEls_def)
  next
    case ungot: False
    then show ?thesis using readEls_loop_short [OF assms(1) ungot assms(2), of "[]"] False by (auto simp: readEls_def)
  qed
qed

section \<open>Properties\<close>

text \<open>A stream in the middle of its data: two bytes in the buffer, two reads to come.\<close>

definition ex_stream :: estream where
  "ex_stream = \<lparr>es_buffer = bytes ''ab'', es_buffer_size = 2, es_els = 2, es_cursor = 1,
     es_ungot = False, es_ungot_el = 0, es_bad = False, es_fd = 3,
     es_source = [Some (bytes ''c''), Some (bytes ''d!'')]\<rparr>"

lemma ex_stream_remaining: "remaining ex_stream (bytes ''bcd!'')"
  by (simp add: ex_stream_def remaining_def es_inv_def pending_def chunks_ok_def)

text \<open>
  C5. Any run of \<open>streamCollect\<close> over the buffered stream returns, with the result and the
  final task of the same run over the list of the bytes that remain, and leaves the bytes
  that the run over the list leaves: neither the buffer size nor the sizes of the reads
  can be observed.
\<close>

theorem stream_run_refines:
  assumes "remaining s xs"
  shows "\<exists>s'. streamCollect estream_ops crit task coll s =
      Some (fst (collect_bytes crit task coll xs), fst (snd (collect_bytes crit task coll xs)), s') \<and>
    remaining s' (snd (snd (collect_bytes crit task coll xs)))"
  by (rule es.streamCollect_bytes [OF assms]) simp

theorem stream_run_refines_witness:
  "\<exists>s'. streamCollect estream_ops
      (Loop_Criteria (LoopCriteriaInfo LOOP_CRITERIA_UNTIL_MATCH True 0 (bytes ''d''))) None
      (Array_Collector []) ex_stream =
    Some (Inr (Array_Collector (bytes ''bcd'')), None, s') \<and> remaining s' (bytes ''!'')"
  using stream_run_refines [OF ex_stream_remaining,
      of "Loop_Criteria (LoopCriteriaInfo LOOP_CRITERIA_UNTIL_MATCH True 0 (bytes ''d''))" None
         "Array_Collector []"]
  by (simp add: collect_bytes_def start_run_def LoopCriteriaInfo_def nextState.simps counted_def
      untilMatchNext_def ARBITRARY_SPATIAL_UNTIL_LIMIT_def collectorAccumulate_def finish_run_def
      criteriaState_def criteria_state_def Let_def)

text \<open>
  \<open>unget\<close> after \<open>get\<close> gives the byte back, also when the next byte was looked at in
  between and the buffer was refilled for it. At the end of the data it does not: asking
  whether the stream is good has set its bad bit for ever, and \<open>peek\<close> fails although a byte was
  put back.
\<close>

theorem unget_restores:
  assumes "remaining s (x # xs)" and "get s = (Inr x, s1)"
  shows "remaining (unget s1) (x # xs) \<and>
    (\<forall>y s2. xs \<noteq> [] \<and> peek s1 = (Inr y, s2) \<longrightarrow> remaining (unget s2) (x # xs)) \<and>
    (xs = [] \<longrightarrow> fst (peek (unget (snd (good s1)))) = Inl no_more_data)"
proof (intro conjI allI impI)
  show "remaining (unget s1) (x # xs)" by (rule unget_after_get [OF assms])
  show "fst (peek (unget (snd (good s1)))) = Inl no_more_data" if "xs = []"
    using unget_at_end assms that by simp
  fix y s2 assume y: "xs \<noteq> [] \<and> peek s1 = (Inr y, s2)"
  obtain z zs where xs: "xs = z # zs" using y by (cases xs) auto
  have "remaining s1 (z # zs)" using get_remaining [OF assms(1)] assms(2) xs by auto
  then have "y = z" using peek_remaining [of s1 z zs] y by auto
  then show "remaining (unget s2) (x # xs)" using unget_after_peek [of s x z zs] assms xs y by simp
qed

theorem unget_restores_witness:
  "remaining (unget (snd (get ex_stream))) (bytes ''bcd!'')"
proof -
  obtain s1 where "get ex_stream = (Inr 98, s1)"
    using get_remaining [of ex_stream 98 "bytes ''cd!''"] ex_stream_remaining by auto
  then show ?thesis using unget_restores [of ex_stream 98 "bytes ''cd!''" s1] ex_stream_remaining by simp
qed

end
