(* ===== verification/Byte_EStream.thy ===== *)
theory Byte_EStream
  imports EStream
begin

text \<open>
  The byte stream of lib/estream/byteestream.cpp: reading up to a character, a number of
  bytes or a number, through the reader tasks. The properties are proved over the list of
  remaining bytes and carried to the buffered stream by the interpretation \<open>es\<close> of
  \<open>byte_source\<close>. The locale \<open>byte_filter\<close> is the contract of a task that only decides, from
  a state of its own, which bytes it passes on.
\<close>

section \<open>Operations\<close>

type_synonym 'a read_result = "('a res \<times> reader_task option \<times> estream) option"

definition map_read :: "(collector \<Rightarrow> 'a) \<Rightarrow> (collector res \<times> reader_task option \<times> estream) option \<Rightarrow> 'a read_result"
where
  "map_read f m = map_option (\<lambda>(res, t, s). (map_sum id f res, t, s)) m"

definition until_criteria :: "byte list \<Rightarrow> bool \<Rightarrow> criteria" where
  "until_criteria until incl =
     Loop_Criteria (LoopCriteriaInfo LOOP_CRITERIA_UNTIL_MATCH incl 0 until)"

definition size_criteria :: "nat \<Rightarrow> criteria" where
  "size_criteria n = Loop_Criteria (LoopCriteriaInfo LOOP_CRITERIA_UNTIL_NUM_ELEMENTS True n [])"

definition read_until :: "byte list \<Rightarrow> reader_task option \<Rightarrow> bool \<Rightarrow> estream \<Rightarrow> byte list read_result" where
  "read_until until operation incl s =
     map_read collected_bytes
       (streamCollect estream_ops (until_criteria until incl) operation (Array_Collector []) s)"

definition readEls_op :: "nat \<Rightarrow> reader_task option \<Rightarrow> estream \<Rightarrow> byte list read_result" where
  "readEls_op n operation s =
     (case operation of
        None \<Rightarrow> map_option (\<lambda>(res, s'). (res, None, s')) (readEls n s)
      | Some _ \<Rightarrow>
          if n = 0 \<or> ARBITRARY_LIMIT_BECAUSE_DUMB < n
          then map_option (\<lambda>(res, s'). (res, operation, s')) (readEls n s)
          else map_read collected_bytes
            (streamCollect estream_ops (size_criteria n) operation (Array_Collector []) s))"

definition readString_n :: "nat \<Rightarrow> reader_task option \<Rightarrow> estream \<Rightarrow> byte list read_result" where
  "readString_n n operation s =
     map_read collected_bytes
       (streamCollect estream_ops (size_criteria n) operation (String_Collector []) s)"

definition readString :: "byte list \<Rightarrow> reader_task option \<Rightarrow> bool \<Rightarrow> estream \<Rightarrow> byte list read_result" where
  "readString until operation incl s =
     map_read collected_bytes
       (streamCollect estream_ops (until_criteria until incl) operation (String_Collector []) s)"

definition readNatural :: "byte list \<Rightarrow> bool \<Rightarrow> estream \<Rightarrow> (nat \<times> nat) read_result" where
  "readNatural until consume s =
     (if until = []
      then map_read collected_natural
        (streamCollect estream_ops (ByteIsCharClassCriteria DIGIT_CLASS) None (Natural_Collector 0 0) s)
      else (case map_read collected_natural
          (streamCollect estream_ops (until_criteria until False) None (Natural_Collector 0 0) s) of
            Some (Inr t, task, s') \<Rightarrow>
              if consume
              then (case get s' of (Inl e, s'') \<Rightarrow> Some (Inl e, task, s'') | (Inr _, s'') \<Rightarrow> Some (Inr t, task, s''))
              else Some (Inr t, task, s')
          | other \<Rightarrow> other))"

definition readNatural_n :: "nat \<Rightarrow> estream \<Rightarrow> (nat \<times> nat) read_result" where
  "readNatural_n n s =
     (if ARBITRARY_LIMIT_BECAUSE_DUMB < n
      then Some (Inl (Runtime_Error (''You're reading more than the limit specified... '' @
             ''Read less, or you know what, don't read at all.'')), None, s)
      else map_read collected_natural
        (streamCollect estream_ops
           (if n = 0 then ByteIsCharClassCriteria DIGIT_CLASS else size_criteria n)
           None (Natural_Collector 0 0) s))"

section \<open>Any division of the data\<close>

lemma run_remaining:
  assumes "remaining s xs" "collect_bytes crit task coll xs = (res, task', ys)"
  shows "\<exists>s'. map_read f (streamCollect estream_ops crit task coll s) = Some (map_sum id f res, task', s') \<and>
    remaining s' ys"
  using es.streamCollect_bytes [OF assms] by (auto simp: map_read_def)

section \<open>Tasks that filter\<close>

fun add_bytes :: "byte list \<Rightarrow> collector \<Rightarrow> collector" where
  "add_bytes cs (Array_Collector d) = Array_Collector (d @ cs)"
| "add_bytes cs (String_Collector d) = String_Collector (d @ cs)"
| "add_bytes cs (Natural_Collector n v) = Natural_Collector n v"
| "add_bytes cs (Decimal_Collector ds) = Decimal_Collector ds"

fun holds_bytes :: "collector \<Rightarrow> bool" where
  "holds_bytes (Natural_Collector n v) = False"
| "holds_bytes (Decimal_Collector ds) = False"
| "holds_bytes c = True"

lemma add_bytes_facts [simp]:
  "add_bytes [] k = k" "add_bytes cs (add_bytes bs k) = add_bytes (bs @ cs) k"
  "holds_bytes (add_bytes cs k) = holds_bytes k"
  "holds_bytes k \<Longrightarrow> accumulate c k = (Inr (), add_bytes [c] k)"
  "holds_bytes k \<Longrightarrow> accumulate_els cs k = (Inr (), add_bytes cs k)"
  "holds_bytes k \<Longrightarrow> collected_bytes (add_bytes cs k) = collected_bytes k @ cs"
  by (cases k; simp)+

fun run_filter :: "('st \<Rightarrow> byte \<Rightarrow> 'st \<times> byte list) \<Rightarrow> 'st \<Rightarrow> byte list \<Rightarrow> 'st \<times> byte list" where
  "run_filter step st [] = (st, [])"
| "run_filter step st (c # cs) =
     (let (st1, o1) = step st c; (st2, o2) = run_filter step st1 cs in (st2, o1 @ o2))"

lemma run_filter_append:
  "run_filter step st (xs @ ys) =
     (let (st1, o1) = run_filter step st xs; (st2, o2) = run_filter step st1 ys in (st2, o1 @ o2))"
  by (induction xs arbitrary: st) (auto simp: Let_def split: prod.splits)

locale byte_filter =
  fixes T :: "'st \<Rightarrow> reader_task option"
    and step :: "'st \<Rightarrow> byte \<Rightarrow> 'st \<times> byte list"
  assumes performs: "holds_bytes (rn_collector r) \<Longrightarrow>
      next_perform (T st) c r =
        (Inr (), T (fst (step st c)), r\<lparr>rn_collector := add_bytes (snd (step st c)) (rn_collector r)\<rparr>)"
    and flushes: "next_flush (T st) r = (Inr (), T st, r)"
begin

lemma until_prefix:
  assumes "set xs \<inter> set until = {}" "k + length xs \<le> 65536" "holds_bytes d"
    and "rn_criteria r = Loop_Criteria (until_info incl k until GOOD)" "rn_collector r = d" "zs \<noteq> []"
  shows "collect_list (xs @ zs) (T st) r =
    collect_list zs (T (fst (run_filter step st xs)))
      \<lparr>rn_criteria = Loop_Criteria (until_info incl (k + length xs) until GOOD),
       rn_collector = add_bytes (snd (run_filter step st xs)) d\<rparr>"
  using assms
proof (induction xs arbitrary: k st r d)
  case Nil
  then show ?case by (cases r) simp
next
  case (Cons x xs)
  obtain st1 o1 where s1: "step st x = (st1, o1)" by fastforce
  let ?r = "\<lparr>rn_criteria = Loop_Criteria (until_info incl (Suc k) until GOOD), rn_collector = d\<rparr>"
  have k: "k < 65536" "x \<notin> set until" using Cons.prems by auto
  have p: "next_perform (T st) x ?r =
      (Inr (), T st1, \<lparr>rn_criteria = Loop_Criteria (until_info incl (Suc k) until GOOD),
        rn_collector = add_bytes o1 d\<rparr>)"
    using performs [of ?r st x] Cons.prems(3) s1 by simp
  have nl: "\<not> (xs @ zs = [])" using Cons.prems(6) by simp
  have "collect_list ((x # xs) @ zs) (T st) r = collect_list (xs @ zs) (T st1)
      \<lparr>rn_criteria = Loop_Criteria (until_info incl (Suc k) until GOOD), rn_collector = add_bytes o1 d\<rparr>"
    using next_until_go [OF k, of incl] Cons.prems(4,5) p nl
    by (cases r) (simp add: Let_def del: append_is_Nil_conv)
  also have "\<dots> = collect_list zs (T (fst (run_filter step st1 xs)))
      \<lparr>rn_criteria = Loop_Criteria (until_info incl (Suc k + length xs) until GOOD),
       rn_collector = add_bytes (snd (run_filter step st1 xs)) (add_bytes o1 d)\<rparr>"
    by (rule Cons.IH) (use Cons.prems in auto)
  finally show ?case using s1 by (simp add: Let_def split: prod.splits)
qed

lemma collect_until:
  assumes "set xs \<inter> set until = {}" "u \<in> set until" "length xs + 2 \<le> 65536" "holds_bytes d"
    and "map_option initialize task = T st" "collector_initialize coll = d"
  shows "collect_bytes (until_criteria until incl) task coll (xs @ u # ys) =
    (let ws = (if incl then xs @ [u] else xs) in
     (Inr (add_bytes (snd (run_filter step st ws)) d), T (fst (run_filter step st ws)),
      if incl then ys else u # ys))"
proof -
  let ?st = "fst (run_filter step st xs)" and ?o = "snd (run_filter step st xs)"
  let ?n = "length xs"
  have k: "?n < 65536" "Suc ?n < 65536" using assms(3) by auto
  have start: "collect_list (xs @ u # ys) (T st) (start_run (until_criteria until incl) coll) =
      collect_list (u # ys) (T ?st) \<lparr>rn_criteria = Loop_Criteria (until_info incl ?n until GOOD),
        rn_collector = add_bytes ?o d\<rparr>"
    using until_prefix [of xs until 0 d "start_run (until_criteria until incl) coll" incl "u # ys" st]
      assms k by (simp add: start_run_def until_criteria_def LoopCriteriaInfo_def)
  show ?thesis
  proof (cases incl)
    case False
    then have "collect_list (u # ys) (T ?st) \<lparr>rn_criteria = Loop_Criteria (until_info incl ?n until GOOD),
        rn_collector = add_bytes ?o d\<rparr> = (Inr (), T ?st,
        \<lparr>rn_criteria = Loop_Criteria (until_info incl (Suc ?n) until NOT_GOOD),
         rn_collector = add_bytes ?o d\<rparr>, u # ys)"
      using next_until_match [OF k(1) assms(2), of incl] by (simp add: Let_def)
    then show ?thesis using start assms(5) False
      by (simp add: collect_bytes_def finish_run_def flushes)
  next
    case True
    obtain st2 o2 where s2: "step ?st u = (st2, o2)" by fastforce
    let ?r = "\<lparr>rn_criteria = Loop_Criteria (until_info incl (Suc ?n) until GOOD_AT_LAST),
        rn_collector = add_bytes ?o d\<rparr>"
    have p: "next_perform (T ?st) u ?r = (Inr (), T st2, ?r\<lparr>rn_collector := add_bytes (?o @ o2) d\<rparr>)"
      using performs [of ?r ?st u] s2 assms(4) by simp
    have "\<exists>k'. collect_list (u # ys) (T ?st) \<lparr>rn_criteria = Loop_Criteria (until_info incl ?n until GOOD),
        rn_collector = add_bytes ?o d\<rparr> = (Inr (), T st2,
        \<lparr>rn_criteria = k', rn_collector = add_bytes (?o @ o2) d\<rparr>, ys)"
      using next_until_match [OF k(1) assms(2), of incl] p True next_until_done [OF k(2)]
      by (cases ys) (auto simp: Let_def criteriaState_def criteria_state_def)
    moreover have "run_filter step st (xs @ [u]) = (st2, ?o @ o2)"
      using s2 by (cases "run_filter step st xs") (simp add: run_filter_append)
    ultimately show ?thesis using start assms(5) True
      by (auto simp: collect_bytes_def finish_run_def flushes)
  qed
qed

end

text \<open>Chains of the case and character filters (without the strict ones).\<close>

fun chain_ok :: "reader_task \<Rightarrow> bool" and next_ok :: "reader_task option \<Rightarrow> bool" where
  "next_ok None = True"
| "next_ok (Some t) = chain_ok t"
| "chain_ok (ReaderTaskLC nx) = next_ok nx"
| "chain_ok (ReaderTaskUC nx) = next_ok nx"
| "chain_ok (ReaderTaskDisallow ds strict nx) = (\<not> strict \<and> next_ok nx)"
| "chain_ok (ReaderTaskAllow as strict nx) = (\<not> strict \<and> next_ok nx)"
| "chain_ok t = False"

fun chain_out :: "reader_task \<Rightarrow> byte \<Rightarrow> byte list" and next_out :: "reader_task option \<Rightarrow> byte \<Rightarrow> byte list"
where
  "next_out None c = [c]"
| "next_out (Some t) c = chain_out t c"
| "chain_out (ReaderTaskLC nx) c = next_out nx (to_lower c)"
| "chain_out (ReaderTaskUC nx) c = next_out nx (to_upper c)"
| "chain_out (ReaderTaskDisallow ds strict nx) c = (if c \<in> set ds then [] else next_out nx c)"
| "chain_out (ReaderTaskAllow as strict nx) c = (if c \<in> set as then next_out nx c else [])"
| "chain_out t c = [c]"

lemma out_none: "concat (map (next_out None) us) = us"
  by (induction us) simp_all

lemma chain_performs:
  "chain_ok t \<Longrightarrow> holds_bytes (rn_collector r) \<Longrightarrow>
   perform t c r = (Inr (), t, r\<lparr>rn_collector := add_bytes (chain_out t c) (rn_collector r)\<rparr>)"
  "next_ok nx \<Longrightarrow> holds_bytes (rn_collector r) \<Longrightarrow>
   next_perform nx c r = (Inr (), nx, r\<lparr>rn_collector := add_bytes (next_out nx c) (rn_collector r)\<rparr>)"
  by (induction t c r and nx c r rule: perform_next_perform.induct)
    (auto simp: collectorAccumulate_def)

lemma chain_flushes:
  "chain_ok t \<Longrightarrow> flush t r = (Inr (), t, r)"
  "next_ok nx \<Longrightarrow> next_flush nx r = (Inr (), nx, r)"
  by (induction t r and nx r rule: flush_next_flush.induct) auto

lemma chain_initialize: "next_ok nx \<Longrightarrow> map_option initialize nx = nx"
proof (cases nx)
  case (Some t)
  assume "next_ok nx"
  then show ?thesis using Some by (cases t) auto
qed simp

definition as_chain :: "reader_task option \<Rightarrow> reader_task option" where
  "as_chain nx = (if next_ok nx then nx else None)"

lemma as_chain_ok [simp]: "next_ok (as_chain nx)" "next_ok nx \<Longrightarrow> as_chain nx = nx"
  by (simp_all add: as_chain_def)

interpretation chain: byte_filter as_chain "\<lambda>nx c. (nx, next_out (as_chain nx) c)"
  by unfold_locales (simp_all add: chain_performs(2) chain_flushes(2))

lemma run_chain: "run_filter (\<lambda>nx c. (nx, next_out (as_chain nx) c)) nx xs =
  (nx, concat (map (next_out (as_chain nx)) xs))"
  by (induction xs) simp_all

text \<open>The trim task.\<close>

definition trim_step :: "trim_state \<Rightarrow> byte \<Rightarrow> trim_state \<times> byte list" where
  "trim_step t c =
     (if \<not> tr_l_trimming t
      then if is_whitespace c then (t\<lparr>tr_r_trimming := True, tr_r_trim := tr_r_trim t @ [c]\<rparr>, [])
        else if tr_r_trimming t then (t\<lparr>tr_r_trimming := False\<rparr>, tr_r_trim t @ [c])
        else (t, [c])
      else if \<not> is_whitespace c then (t\<lparr>tr_l_trimming := False\<rparr>, [c])
      else (t, []))"

interpretation trim: byte_filter "\<lambda>t. Some (ReaderTaskTrim (Some t))" trim_step
  by unfold_locales
    (auto simp: trim_perform_def trim_step_def trim_rTrimFlush_def collectorAccumulate_def
      collectorAccumulate_els_def)

abbreviation spaces :: "byte list \<Rightarrow> bool" where
  "spaces xs \<equiv> \<forall>c \<in> set xs. is_whitespace c"

abbreviation word :: "byte list \<Rightarrow> bool" where
  "word xs \<equiv> xs \<noteq> [] \<and> (\<forall>c \<in> set xs. \<not> is_whitespace c)"

lemma trim_left: "spaces xs \<Longrightarrow> tr_l_trimming t \<Longrightarrow> run_filter trim_step t xs = (t, [])"
  by (induction xs) (auto simp: trim_step_def)

lemma trim_in_word:
  "\<forall>c \<in> set xs. \<not> is_whitespace c \<Longrightarrow> \<not> tr_l_trimming t \<Longrightarrow> \<not> tr_r_trimming t \<Longrightarrow>
   run_filter trim_step t xs = (t, xs)"
  by (induction xs) (auto simp: trim_step_def)

lemma trim_word:
  assumes "word xs" and that: "tr_l_trimming t \<longrightarrow> \<not> tr_r_trimming t"
  shows "run_filter trim_step t xs =
    (t\<lparr>tr_l_trimming := False, tr_r_trimming := False\<rparr>,
     (if \<not> tr_l_trimming t \<and> tr_r_trimming t then tr_r_trim t else []) @ xs)"
proof (cases xs)
  case (Cons c cs)
  let ?t = "t\<lparr>tr_l_trimming := False, tr_r_trimming := False\<rparr>"
  have "trim_step t c = (?t, (if \<not> tr_l_trimming t \<and> tr_r_trimming t then tr_r_trim t else []) @ [c])"
    using assms Cons that by (cases t) (auto simp: trim_step_def)
  moreover have "run_filter trim_step ?t cs = (?t, cs)" using assms Cons by (intro trim_in_word) auto
  ultimately show ?thesis using Cons by simp
qed (use assms in simp)

lemma trim_gap:
  assumes "spaces g" "\<not> tr_l_trimming t"
  shows "run_filter trim_step t g =
    (t\<lparr>tr_r_trimming := tr_r_trimming t \<or> g \<noteq> [], tr_r_trim := tr_r_trim t @ g\<rparr>, [])"
  using assms
proof (induction g arbitrary: t)
  case (Cons c g)
  then show ?case
    using Cons.IH [of "t\<lparr>tr_r_trimming := True, tr_r_trim := tr_r_trim t @ [c]\<rparr>"]
    by (cases t) (auto simp: trim_step_def)
qed simp

section \<open>A number of bytes\<close>

context byte_filter
begin

lemma size_prefix:
  assumes "length xs = k" "0 < k" "k < 2 ^ 64" "holds_bytes d"
    and "r = \<lparr>rn_criteria = Loop_Criteria (size_info k [] GOOD), rn_collector = d\<rparr>"
  shows "\<exists>c. collect_list (xs @ ys) (T st) r =
    (Inr (), T (fst (run_filter step st xs)),
     \<lparr>rn_criteria = c, rn_collector = add_bytes (snd (run_filter step st xs)) d\<rparr>, ys)"
  using assms
proof (induction xs arbitrary: k st r d)
  case (Cons x xs)
  obtain st1 o1 where s1: "step st x = (st1, o1)" by fastforce
  let ?r = "\<lambda>s. \<lparr>rn_criteria = Loop_Criteria (size_info (k - 1) [] s), rn_collector = d\<rparr>"
  have p: "next_perform (T st) x (?r s) =
      (Inr (), T st1, (?r s)\<lparr>rn_collector := add_bytes o1 d\<rparr>)" for s
    using performs [of "?r s" st x] Cons.prems(4) s1 by simp
  show ?case
  proof (cases "k = 1")
    case True
    then have xs: "xs = []" using Cons.prems(1) by simp
    define c where "c = (\<lambda>y. snd (nextState y (Loop_Criteria (size_info 0 [] GOOD_AT_LAST))))"
    have c: "nextState y (Loop_Criteria (size_info 0 [] GOOD_AT_LAST)) = (Inr NOT_GOOD, c y)" for y
      by (simp add: c_def prod_eq_iff next_size_zero(2))
    show ?thesis
      using next_size [of k x "[]"] True xs p [of GOOD_AT_LAST] Cons.prems(3,5) c s1
      by (cases ys) (auto simp: Let_def criteriaState_def criteria_state_def)
  next
    case False
    then have k: "length xs = k - 1" "0 < k - 1" using Cons.prems(1,2) by auto
    then have "xs @ ys \<noteq> []" by auto
    have IH: "\<exists>c. collect_list (xs @ ys) (T st1) ((?r GOOD)\<lparr>rn_collector := add_bytes o1 d\<rparr>) =
        (Inr (), T (fst (run_filter step st1 xs)),
         \<lparr>rn_criteria = c, rn_collector = add_bytes (snd (run_filter step st1 xs)) (add_bytes o1 d)\<rparr>, ys)"
      by (rule Cons.IH [OF k]) (use Cons.prems in auto)
    have "collect_list ((x # xs) @ ys) (T st) r =
        collect_list (xs @ ys) (T st1) ((?r GOOD)\<lparr>rn_collector := add_bytes o1 d\<rparr>)"
      using next_size [of k x "[]"] False p [of GOOD] Cons.prems(2,3,5)
      by (simp add: Let_def criteriaState_def criteria_state_def)
    then show ?thesis using IH s1 by (cases "run_filter step st1 xs") simp
  qed
qed simp

lemma collect_size:
  assumes "xs \<noteq> []" "length xs < 2 ^ 64" "holds_bytes d"
    and "map_option initialize task = T st" "collector_initialize coll = d"
  shows "collect_bytes (size_criteria (length xs)) task coll (xs @ ys) =
    (Inr (add_bytes (snd (run_filter step st xs)) d), T (fst (run_filter step st xs)), ys)"
proof -
  obtain c where "collect_list (xs @ ys) (T st)
      \<lparr>rn_criteria = Loop_Criteria (size_info (length xs) [] GOOD), rn_collector = d\<rparr> =
    (Inr (), T (fst (run_filter step st xs)),
     \<lparr>rn_criteria = c, rn_collector = add_bytes (snd (run_filter step st xs)) d\<rparr>, ys)"
    using size_prefix [OF refl, of xs d _ ys st] assms(1-3) by auto
  then show ?thesis using assms(4,5)
    by (simp add: collect_bytes_def start_run_def size_criteria_def LoopCriteriaInfo_def
        finish_run_def flushes)
qed

end

section \<open>Numbers\<close>

lemma collect_list_none: "collect_list xs None r = (out, t, r', ys) \<Longrightarrow> t = None"
proof (induction xs arbitrary: r)
  case (Cons x xs)
  then show ?case by (auto simp: Let_def split: prod.splits sum.splits if_splits)
qed simp

definition decimal :: "nat \<Rightarrow> byte list \<Rightarrow> nat" where
  "decimal v xs = foldl (\<lambda>v c. v * 10 + (unat c - 48)) v xs"

abbreviation digits :: "byte list \<Rightarrow> bool" where
  "digits xs \<equiv> \<forall>c \<in> set xs. isDigit c"

lemma decimal_append: "decimal v (xs @ ys) = decimal (decimal v xs) ys"
  by (simp add: decimal_def)

lemma digit_range: "isDigit c \<Longrightarrow> 48 \<le> unat c" "isDigit c \<Longrightarrow> unat c \<le> 57"
  by (simp_all add: isDigit_def word_le_nat_alt)

lemma accumulate_digit:
  assumes "isDigit c" "v < 10 ^ n" "n < 10"
  shows "accumulate c (Natural_Collector n v) =
      (Inr (), Natural_Collector (Suc n) (v * 10 + (unat c - 48)))"
    and "v * 10 + (unat c - 48) < 10 ^ Suc n"
proof -
  note d = digit_range(1) [OF assms(1)] digit_range(2) [OF assms(1)]
  show b: "v * 10 + (unat c - 48) < 10 ^ Suc n" using assms(2) d by simp
  have "(10::nat) ^ Suc n \<le> 10 ^ 10" using assms(3) by (intro power_increasing) auto
  then have "v * 10 + (unat c - 48) < 2 ^ 64" using b by simp
  moreover have e: "int v * 10 + (int (unat c) - 48) = int (v * 10 + (unat c - 48))"
    using d by (simp add: of_nat_diff)
  moreover have "nat (int m mod 2 ^ 64) = m" if "m < 2 ^ 64" for m
    using that by (simp add: nat_mod_distrib)
  ultimately have "nat ((int v * 10 + (int (unat c) - 48)) mod 2 ^ 64) = v * 10 + (unat c - 48)"
    by metis
  then show "accumulate c (Natural_Collector n v) =
      (Inr (), Natural_Collector (Suc n) (v * 10 + (unat c - 48)))"
    using assms(3) by (simp only: accumulate.simps Let_def NUMBER_MAX_DIGITS_def) simp
qed

lemma digits_prefix:
  assumes "digits xs" "n + length xs \<le> 10" "v < 10 ^ n" "k + length xs \<le> 60000"
  shows "collect_list (xs @ zs) None
      \<lparr>rn_criteria = Char_Class DIGIT_CLASS (class_info k GOOD), rn_collector = Natural_Collector n v\<rparr> =
    collect_list zs None
      \<lparr>rn_criteria = Char_Class DIGIT_CLASS (class_info (k + length xs) GOOD),
       rn_collector = Natural_Collector (n + length xs) (decimal v xs)\<rparr>"
  using assms
proof (induction xs arbitrary: n v k)
  case (Cons x xs)
  have x: "isDigit x" "n < 10" "k < 65536" using Cons.prems by auto
  note a = accumulate_digit [OF x(1) Cons.prems(3) x(2)]
  have "collect_list ((x # xs) @ zs) None
      \<lparr>rn_criteria = Char_Class DIGIT_CLASS (class_info k GOOD), rn_collector = Natural_Collector n v\<rparr> =
    collect_list (xs @ zs) None
      \<lparr>rn_criteria = Char_Class DIGIT_CLASS (class_info (Suc k) GOOD),
       rn_collector = Natural_Collector (Suc n) (v * 10 + (unat x - 48))\<rparr>"
    using next_digit [OF x(3), of x GOOD] x a(1)
    by (simp add: Let_def collectorAccumulate_def criteriaState_def criteria_state_def del: accumulate.simps)
  also have "\<dots> = collect_list zs None
      \<lparr>rn_criteria = Char_Class DIGIT_CLASS (class_info (Suc k + length xs) GOOD),
       rn_collector = Natural_Collector (Suc n + length xs) (decimal (v * 10 + (unat x - 48)) xs)\<rparr>"
    by (rule Cons.IH) (use Cons.prems a(2) in auto)
  finally show ?case by (simp add: decimal_def)
qed (simp add: decimal_def)

lemma collect_digits:
  assumes "digits xs" "length xs \<le> 10"
  shows "collect_bytes (ByteIsCharClassCriteria DIGIT_CLASS) None (Natural_Collector a b) xs =
      (Inl no_more_data, None, [])"
    and "\<not> isDigit y \<Longrightarrow>
      collect_bytes (ByteIsCharClassCriteria DIGIT_CLASS) None (Natural_Collector a b) (xs @ y # ys) =
        (Inr (Natural_Collector (length xs) (decimal 0 xs)), None, y # ys)"
    and "isDigit y \<Longrightarrow> length xs = 10 \<Longrightarrow>
      collect_bytes (ByteIsCharClassCriteria DIGIT_CLASS) None (Natural_Collector a b) (xs @ y # ys) =
        (Inl (Runtime_Error digit_message), None, ys)"
proof -
  have start: "collect_list (xs @ zs) None
      (start_run (ByteIsCharClassCriteria DIGIT_CLASS) (Natural_Collector a b)) =
    collect_list zs None \<lparr>rn_criteria = Char_Class DIGIT_CLASS (class_info (length xs) GOOD),
       rn_collector = Natural_Collector (length xs) (decimal 0 xs)\<rparr>" for zs
    using digits_prefix [OF assms(1), of 0 0 0 zs] assms(2)
    by (simp add: start_run_def ByteIsCharClassCriteria_def LoopCriteriaInfo_def)
  have k: "length xs < 65536" using assms(2) by simp
  show "collect_bytes (ByteIsCharClassCriteria DIGIT_CLASS) None (Natural_Collector a b) xs =
      (Inl no_more_data, None, [])"
    using start [of "[]"] by (simp add: collect_bytes_def finish_run_def)
  show "collect_bytes (ByteIsCharClassCriteria DIGIT_CLASS) None (Natural_Collector a b) (xs @ y # ys) =
        (Inr (Natural_Collector (length xs) (decimal 0 xs)), None, y # ys)" if "\<not> isDigit y"
    using start [of "y # ys"] next_digit [OF k, of y GOOD] that
    by (simp add: collect_bytes_def finish_run_def Let_def)
  show "collect_bytes (ByteIsCharClassCriteria DIGIT_CLASS) None (Natural_Collector a b) (xs @ y # ys) =
        (Inl (Runtime_Error digit_message), None, ys)" if "isDigit y" "length xs = 10"
    using start [of "y # ys"] next_digit [OF k, of y GOOD] that
    by (simp add: collect_bytes_def finish_run_def Let_def collectorAccumulate_def NUMBER_MAX_DIGITS_def)
qed

section \<open>Extracting a token\<close>

abbreviation run_until :: "bool \<Rightarrow> nat \<Rightarrow> byte list \<Rightarrow> LoopCriteriaState \<Rightarrow> collector \<Rightarrow> run" where
  "run_until incl k until st d \<equiv>
     \<lparr>rn_criteria = Loop_Criteria (until_info incl k until st), rn_collector = d\<rparr>"

abbreviation until_run :: "nat \<Rightarrow> byte list \<Rightarrow> LoopCriteriaState \<Rightarrow> collector \<Rightarrow> run" where
  "until_run \<equiv> run_until True"

lemma go_step:
  assumes "k < 65536" "c \<notin> set until" "st = GOOD \<or> st = NOT_GOOD"
    and "next_perform t c (run_until incl (Suc k) until GOOD d) = (Inr (), t', run_until incl (Suc k) until st' d')"
    and "st' = GOOD \<or> st' = NOT_GOOD"
  shows "collect_list (c # zs) t (run_until incl k until st d) = collect_list zs t' (run_until incl (Suc k) until st' d')"
  using next_until_go [OF assms(1,2), of incl] next_until_bail [OF assms(1,2), of incl] assms(3-5)
  by (auto simp: Let_def criteriaState_def criteria_state_def)

lemma extract_left:
  assumes "spaces xs" "set xs \<inter> set until = {}" "k + length xs \<le> 65536" "ex_l_trimming e"
  shows "collect_list (xs @ zs) (Some (ReaderTaskExtract lm rm (Some e))) (until_run k until GOOD d) =
    collect_list zs (Some (ReaderTaskExtract lm rm (Some e))) (until_run (k + length xs) until GOOD d)"
  using assms
proof (induction xs arbitrary: k)
  case (Cons x xs)
  have "collect_list (x # xs @ zs) (Some (ReaderTaskExtract lm rm (Some e))) (until_run k until GOOD d) =
      collect_list (xs @ zs) (Some (ReaderTaskExtract lm rm (Some e))) (until_run (Suc k) until GOOD d)"
    by (rule go_step) (use Cons.prems in \<open>auto simp: extract_perform_def\<close>)
  then show ?case using Cons.IH [of "Suc k"] Cons.prems by simp
qed simp

lemma extract_body:
  assumes "rm \<notin> set xs" "set xs \<inter> set until = {}" "k + length xs \<le> 65536" "\<not> ex_l_trimming e"
    and "\<not> ex_r_trimming e" "holds_bytes d"
  shows "collect_list (xs @ zs) (Some (ReaderTaskExtract lm rm (Some e))) (until_run k until GOOD d) =
    collect_list zs (Some (ReaderTaskExtract lm rm (Some e)))
      (until_run (k + length xs) until GOOD (add_bytes xs d))"
  using assms
proof (induction xs arbitrary: k d)
  case (Cons x xs)
  have "collect_list (x # xs @ zs) (Some (ReaderTaskExtract lm rm (Some e))) (until_run k until GOOD d) =
      collect_list (xs @ zs) (Some (ReaderTaskExtract lm rm (Some e))) (until_run (Suc k) until GOOD (add_bytes [x] d))"
    by (rule go_step) (use Cons.prems in \<open>auto simp: extract_perform_def collectorAccumulate_def\<close>)
  then show ?case using Cons.IH [of "Suc k" "add_bytes [x] d"] Cons.prems by simp
qed simp

lemma extract_right:
  assumes "spaces xs" "rm \<notin> set xs" "set xs \<inter> set until = {}" "k + length xs \<le> 65536"
    and "\<not> ex_l_trimming e" "ex_r_trimming e"
  shows "collect_list (xs @ zs) (Some (ReaderTaskExtract lm rm (Some e))) (until_run k until GOOD d) =
    collect_list zs (Some (ReaderTaskExtract lm rm (Some (e\<lparr>ex_r_trim := ex_r_trim e @ xs\<rparr>))))
      (until_run (k + length xs) until GOOD d)"
  using assms
proof (induction xs arbitrary: k e)
  case (Cons x xs)
  let ?e = "e\<lparr>ex_r_trim := ex_r_trim e @ [x]\<rparr>"
  have "collect_list (x # xs @ zs) (Some (ReaderTaskExtract lm rm (Some e))) (until_run k until GOOD d) =
      collect_list (xs @ zs) (Some (ReaderTaskExtract lm rm (Some ?e))) (until_run (Suc k) until GOOD d)"
    by (rule go_step)
      (use Cons.prems in \<open>auto simp: extract_perform_def criteriaState_def criteria_state_def\<close>)
  then show ?case using Cons.IH [of "Suc k" ?e] Cons.prems by simp
qed simp

lemma extract_token:
  fixes lm rm u :: byte
  assumes "spaces xs" "set xs \<inter> set until = {}" "spaces gap" "set gap \<inter> set until = {}"
    and "rm \<notin> set body" "set body \<inter> set until = {}" "rm \<notin> set gap"
    and "\<not> is_whitespace lm" "lm \<notin> set until" "rm \<notin> set until" "u \<in> set until" "u \<noteq> 0"
    and "length xs + length body + length gap + 4 \<le> 65536"
    and d: "holds_bytes d" "collector_initialize coll = d"
  shows "\<exists>t'. collect_bytes (until_criteria until True) (Some (ReaderTaskExtract lm rm e)) coll
      (xs @ lm # body @ rm # gap @ u # ys) = (Inr (add_bytes (body @ [u]) d), t', ys)"
proof -
  let ?e0 = "extract_initialize e"
  let ?e1 = "?e0\<lparr>ex_l_trimming := False\<rparr>"
  let ?e2 = "?e1\<lparr>ex_r_trimming := True, ex_r_trim := ex_r_trim ?e1 @ [rm]\<rparr>"
  let ?e3 = "?e2\<lparr>ex_r_trim := ex_r_trim ?e2 @ gap\<rparr>"
  let ?T = "\<lambda>e. Some (ReaderTaskExtract lm rm (Some e))"
  define n1 n2 n3 where "n1 = length xs" and "n2 = Suc n1 + length body" and "n3 = Suc n2 + length gap"
  have n: "n1 < 65536" "n2 < 65536" "n3 < 65536" "Suc n3 < 65536"
    using assms(13) by (simp_all add: n1_def n2_def n3_def)
  have e0: "ex_l_trimming ?e0" "\<not> ex_r_trimming ?e0" "ex_non_whitespace ?e0 = 0" "ex_read_until ?e0 = 0"
    by (simp_all add: extract_initialize_def)
  have 1: "collect_list (xs @ lm # body @ rm # gap @ u # ys) (?T ?e0) (until_run 0 until GOOD d) =
      collect_list (lm # body @ rm # gap @ u # ys) (?T ?e0) (until_run n1 until GOOD d)"
    using extract_left [of xs until 0 ?e0 _ lm rm d] assms(1,2) e0 n(1) by (simp add: n1_def)
  have 2: "collect_list (lm # body @ rm # gap @ u # ys) (?T ?e0) (until_run n1 until GOOD d) =
      collect_list (body @ rm # gap @ u # ys) (?T ?e1) (until_run (Suc n1) until GOOD d)"
    by (rule go_step) (use assms(8,9) n e0 in \<open>auto simp: extract_perform_def\<close>)
  have 3: "collect_list (body @ rm # gap @ u # ys) (?T ?e1) (until_run (Suc n1) until GOOD d) =
      collect_list (rm # gap @ u # ys) (?T ?e1) (until_run n2 until GOOD (add_bytes body d))"
    using extract_body [of rm body until "Suc n1" ?e1 d _ lm] assms(5,6) e0 n d(1) by (simp add: n2_def)
  have 4: "collect_list (rm # gap @ u # ys) (?T ?e1) (until_run n2 until GOOD (add_bytes body d)) =
      collect_list (gap @ u # ys) (?T ?e2) (until_run (Suc n2) until GOOD (add_bytes body d))"
    by (rule go_step) (use assms(10) n e0 in \<open>auto simp: extract_perform_def\<close>)
  have 5: "collect_list (gap @ u # ys) (?T ?e2) (until_run (Suc n2) until GOOD (add_bytes body d)) =
      collect_list (u # ys) (?T ?e3) (until_run n3 until GOOD (add_bytes body d))"
    using extract_right [of gap rm until "Suc n2" ?e2 _ lm "add_bytes body d"] assms(3,4,7) n
    by (simp add: n3_def)
  have "u \<noteq> rm" using assms(10,11) by auto
  then have p: "next_perform (?T ?e3) u (until_run (Suc n3) until GOOD_AT_LAST (add_bytes body d)) =
      (Inr (), ?T (?e3\<lparr>ex_r_trim := ex_r_trim ?e3 @ [u], ex_read_until := u\<rparr>),
       until_run (Suc n3) until GOOD_AT_LAST (add_bytes body d))"
    by (simp add: extract_perform_def criteriaState_def criteria_state_def Let_def)
  obtain k where 6: "collect_list (u # ys) (?T ?e3) (until_run n3 until GOOD (add_bytes body d)) =
      (Inr (), ?T (?e3\<lparr>ex_r_trim := ex_r_trim ?e3 @ [u], ex_read_until := u\<rparr>),
       \<lparr>rn_criteria = k, rn_collector = add_bytes body d\<rparr>, ys)"
    using next_until_match [OF n(3) assms(11), of True] p next_until_done [OF n(4), of _ True until]
    by (cases ys) (auto simp: Let_def criteriaState_def criteria_state_def)
  obtain t' where 7: "next_flush (?T (?e3\<lparr>ex_r_trim := ex_r_trim ?e3 @ [u], ex_read_until := u\<rparr>))
      \<lparr>rn_criteria = k, rn_collector = add_bytes body d\<rparr> =
      (Inr (), t', \<lparr>rn_criteria = k, rn_collector = add_bytes (body @ [u]) d\<rparr>)"
    using e0 assms(12) d(1) by (simp add: extract_flush_def collectorAccumulate_def)
  have all: "collect_list (xs @ lm # body @ rm # gap @ u # ys) (?T ?e0)
      (start_run (until_criteria until True) coll) =
      (Inr (), ?T (?e3\<lparr>ex_r_trim := ex_r_trim ?e3 @ [u], ex_read_until := u\<rparr>),
       \<lparr>rn_criteria = k, rn_collector = add_bytes body d\<rparr>, ys)"
    unfolding start_run_def until_criteria_def LoopCriteriaInfo_def d(2)
    by (simp only: 1 2 3 4 5 6)
  show ?thesis
    by (simp only: collect_bytes_def option.map initialize.simps all prod.case finish_run_def
        sum.case 7) simp
qed

section \<open>Exact matches\<close>

lemma exact_overrun:
  assumes "set xs \<inter> set until = {}" "k + length xs \<le> 65536" "i + length xs = Suc (length m)"
    and "i \<le> length m" "st = GOOD \<or> st = NOT_GOOD" "holds_bytes d"
  shows "\<exists>t r. collect_list (xs @ zs) (Some (ReaderTaskExact m i False b None)) (run_until incl k until st d) =
    (Inl Out_Of_Range, t, r, zs)"
  using assms
proof (induction xs arbitrary: i b k st d)
  case (Cons x xs)
  let ?t = "\<lambda>b. Some (ReaderTaskExact m (Suc i) False b None)"
  have k: "k < 65536" "x \<notin> set until" using Cons.prems by auto
  show ?case
  proof (cases "i = length m")
    case True
    then have "xs = []" using Cons.prems(3) by simp
    then show ?thesis using True Cons.prems(5)
        next_until_go [OF k, of incl] next_until_bail [OF k, of incl]
      by (auto simp: Let_def)
  next
    case False
    then have i: "i < length m" using Cons.prems(4) by simp
    obtain b' st' d' where "next_perform (Some (ReaderTaskExact m i False b None)) x
        (run_until incl (Suc k) until GOOD d) = (Inr (), ?t b', run_until incl (Suc k) until st' d')"
      "st' = GOOD \<or> st' = NOT_GOOD" "holds_bytes d'"
    proof (cases "m ! i = x")
      case True
      then show thesis using that [of b GOOD "add_bytes [x] d"] i Cons.prems(6)
        by (simp add: collectorAccumulate_def)
    next
      case False
      then show thesis using that [of False NOT_GOOD d] i Cons.prems(6)
        by (simp add: criteriaPreemptiveBail_def)
    qed
    from go_step [OF k Cons.prems(5) this(1,2)] Cons.IH [of "Suc k" "Suc i" st' d' b'] this(2,3)
      Cons.prems i
    show ?thesis by simp
  qed
qed simp

section \<open>Properties\<close>

text \<open>
  Reading up to one of the until characters gives the bytes before it, and the
  character itself when it is inclusive, each passed through the chain of case and
  character filters; the stream then continues behind it (at it, when exclusive).
\<close>

theorem readString_until:
  assumes "remaining s (xs @ u # ys)" and "set xs \<inter> set until = {}" and "u \<in> set until"
    and "length xs + 2 \<le> 65536" and "next_ok task"
  shows "\<exists>s'. readString until task incl s =
      Some (Inr (concat (map (next_out task) (if incl then xs @ [u] else xs))), task, s') \<and>
    remaining s' (if incl then ys else u # ys)"
proof -
  have "collect_bytes (until_criteria until incl) task (String_Collector []) (xs @ u # ys) =
      (Inr (String_Collector (concat (map (next_out task) (if incl then xs @ [u] else xs)))), task,
       if incl then ys else u # ys)"
    using chain.collect_until [OF assms(2-4), of "String_Collector []" task task "String_Collector []" incl ys]
      assms(5) chain_initialize by (simp add: run_chain Let_def)
  from run_remaining [OF assms(1) this, of collected_bytes] show ?thesis
    by (simp add: readString_def)
qed

theorem readString_until_witness:
  "\<exists>s'. readString (bytes ''!'') (Some (ReaderTaskUC (Some (ReaderTaskDisallow (bytes ''C'') False None))))
      True ex_stream =
    Some (Inr (bytes ''BD!''), Some (ReaderTaskUC (Some (ReaderTaskDisallow (bytes ''C'') False None))), s') \<and>
    remaining s' []"
  using readString_until [of ex_stream "bytes ''bcd''" 33 "[]" "bytes ''!''"
      "Some (ReaderTaskUC (Some (ReaderTaskDisallow (bytes ''C'') False None)))" True] ex_stream_remaining
  by (simp add: to_upper_def)

text \<open>
  Reading a number of bytes, with or without such a chain, gives the next \<open>n\<close> bytes
  (filtered) and leaves the rest; this is the same for the loop over pieces of the buffer
  and the run through a task.
\<close>

theorem readEls_exact:
  assumes "remaining s (us @ ys)" and "us \<noteq> []" and "length us \<le> 2 ^ 32" and "next_ok task"
  shows "\<exists>s'. readEls_op (length us) task s =
      Some (Inr (concat (map (next_out task) us)), task, s') \<and> remaining s' ys"
proof (cases task)
  case None
  then show ?thesis using readEls_remaining [OF assms(1-3)] by (auto simp: readEls_op_def out_none)
next
  case (Some t)
  have "collect_bytes (size_criteria (length us)) task (Array_Collector []) (us @ ys) =
      (Inr (Array_Collector (concat (map (next_out task) us))), task, ys)"
    using chain.collect_size [OF assms(2), of "Array_Collector []" task task "Array_Collector []" ys]
      assms(3,4) chain_initialize by (simp add: run_chain)
  from run_remaining [OF assms(1) this, of collected_bytes] show ?thesis
    using Some assms(2,3) by (simp add: readEls_op_def ARBITRARY_LIMIT_BECAUSE_DUMB_def)
qed

theorem readEls_exact_witness:
  "\<exists>s'. readEls_op 3 None ex_stream = Some (Inr (bytes ''bcd''), None, s') \<and> remaining s' (bytes ''!'')"
  using readEls_exact [of ex_stream "bytes ''bcd''" "bytes ''!''" None] ex_stream_remaining
  by (simp add: numeral_3_eq_3)

text \<open>
  Reading a natural number reads the digits up to the first other byte: at most ten
  of them give their decimal value and their count; an eleventh digit is an error; and
  digits at the very end of the data are lost in the error for reading past it.
\<close>

theorem readNatural_digits:
  assumes "remaining s (xs @ zs)" and "digits xs" and "length xs \<le> 10"
  shows "\<exists>s' t. readNatural [] consume s = Some t \<and> snd (snd t) = s' \<and> fst (snd t) = None \<and>
    (case zs of
       [] \<Rightarrow> fst t = Inl no_more_data
     | y # ys \<Rightarrow>
         if \<not> isDigit y then fst t = Inr (decimal 0 xs, length xs) \<and> remaining s' zs
         else length xs = 10 \<longrightarrow> fst t = Inl (Runtime_Error digit_message))"
proof -
  show ?thesis
  proof (cases zs)
    case Nil
    then have "remaining s xs" using assms(1) by simp
    from run_remaining [OF this collect_digits(1) [OF assms(2,3), of 0 0], of collected_natural] Nil
    show ?thesis by (auto simp: readNatural_def)
  next
    case (Cons y ys)
    obtain res t zs' where cb: "collect_bytes (ByteIsCharClassCriteria DIGIT_CLASS) None
        (Natural_Collector 0 0) (xs @ zs) = (res, t, zs')" using prod_cases3 by blast
    from run_remaining [OF assms(1) cb, of collected_natural] obtain s' where
      s': "readNatural [] consume s = Some (map_sum id collected_natural res, t, s')" "remaining s' zs'"
      by (auto simp: readNatural_def)
    have "t = None" using cb
      by (auto simp: collect_bytes_def finish_run_def dest: collect_list_none split: prod.splits sum.splits)
    then show ?thesis using s' cb Cons
        collect_digits(2) [OF assms(2,3), of y 0 0 ys] collect_digits(3) [OF assms(2,3), of y 0 0 ys]
      by (cases "isDigit y") auto
  qed
qed

theorem readNatural_digits_witness:
  "\<exists>s'. readNatural [] True (EStream_memory (bytes ''407;'')) = Some (Inr (407, 3), None, s')"
proof -
  have "remaining (EStream_memory (bytes ''407;'')) (bytes ''407'' @ bytes '';'')"
    by (simp add: EStream_memory_def remaining_def es_inv_def pending_def chunks_ok_def)
  from readNatural_digits [OF this, of True] show ?thesis
    by (auto simp: isDigit_def decimal_def)
qed

text \<open>
  Trimming a line drops the blanks on both sides (with the blank until character). With
  one gap between words the text is right, but the collected blanks are never cleared:
  from the second gap on they are repeated.
\<close>

theorem trim_repeats_blanks:
  assumes "remaining s (l @ w1 @ g1 @ w2 @ g2 @ w3 @ r @ u # ys)"
    and "spaces l" and "word w1" and "spaces g1" and "g1 \<noteq> []" and "word w2" and "spaces g2" and "spaces r"
    and "g2 = [] \<and> w3 = [] \<or> g2 \<noteq> [] \<and> word w3"
    and "is_whitespace u" and "u \<in> set until"
    and "set (l @ w1 @ g1 @ w2 @ g2 @ w3 @ r) \<inter> set until = {}"
    and "length (l @ w1 @ g1 @ w2 @ g2 @ w3 @ r) + 2 \<le> 65536"
  shows "\<exists>s' t. readString until (Some (ReaderTaskTrim None)) True s =
      Some (Inr (w1 @ g1 @ w2 @ (if g2 = [] then [] else g1 @ g2 @ w3)), t, s') \<and> remaining s' ys"
proof -
  let ?xs = "l @ w1 @ g1 @ w2 @ g2 @ w3 @ r" and ?t0 = "trim_initialize None"
  have sp: "spaces (r @ [u])" using assms(8,10) by auto
  have "snd (run_filter trim_step ?t0 (?xs @ [u])) = w1 @ g1 @ w2 @ (if g2 = [] then [] else g1 @ g2 @ w3)"
    using assms(2-9) sp
    by (auto simp: run_filter_append trim_left trim_word trim_gap trim_initialize_def Let_def
        simp del: run_filter.simps)
  moreover have "collect_bytes (until_criteria until True) (Some (ReaderTaskTrim None)) (String_Collector [])
      (?xs @ u # ys) = (Inr (add_bytes (snd (run_filter trim_step ?t0 (?xs @ [u]))) (String_Collector [])),
        Some (ReaderTaskTrim (Some (fst (run_filter trim_step ?t0 (?xs @ [u]))))), ys)"
    using trim.collect_until [OF assms(12,11,13), of "String_Collector []" "Some (ReaderTaskTrim None)" ?t0
        "String_Collector []" True ys] by (simp add: Let_def)
  ultimately have "collect_bytes (until_criteria until True) (Some (ReaderTaskTrim None)) (String_Collector [])
      (?xs @ u # ys) = (Inr (String_Collector (w1 @ g1 @ w2 @ (if g2 = [] then [] else g1 @ g2 @ w3))),
        Some (ReaderTaskTrim (Some (fst (run_filter trim_step ?t0 (?xs @ [u]))))), ys)"
    by (simp only: add_bytes.simps append_Nil)
  moreover have "remaining s (?xs @ u # ys)" using assms(1) by simp
  ultimately obtain s' where "map_read collected_bytes (streamCollect estream_ops (until_criteria until True)
      (Some (ReaderTaskTrim None)) (String_Collector []) s) =
      Some (map_sum id collected_bytes (Inr (String_Collector (w1 @ g1 @ w2 @
          (if g2 = [] then [] else g1 @ g2 @ w3)))),
        Some (ReaderTaskTrim (Some (fst (run_filter trim_step ?t0 (?xs @ [u]))))), s')" "remaining s' ys"
    using run_remaining by blast
  then show ?thesis by (simp add: readString_def)
qed

theorem trim_repeats_blanks_witness:
  "\<exists>s' t. readString [10] (Some (ReaderTaskTrim None)) True
      (EStream_memory (bytes '' a b c '' @ [10])) = Some (Inr (bytes ''a b  c''), t, s')"
proof -
  have "remaining (EStream_memory (bytes '' a b c '' @ [10]))
      (bytes '' '' @ bytes ''a'' @ bytes '' '' @ bytes ''b'' @ bytes '' '' @ bytes ''c'' @ bytes '' '' @ 10 # [])"
    by (simp add: EStream_memory_def remaining_def es_inv_def pending_def chunks_ok_def)
  from trim_repeats_blanks [OF this, of "[10]"] show ?thesis
    by (auto simp: is_whitespace_def STRING_UTILS_WHITESPACE_def)
qed

text \<open>
  Extracting a token: from blanks, the left mark, the token, the right mark, blanks and
  the until character, the token and the until character are collected.
\<close>

theorem extract_between_marks:
  assumes "remaining s (l @ lm # body @ rm # gap @ u # ys)"
    and "spaces l" and "set l \<inter> set until = {}" and "spaces gap" and "set gap \<inter> set until = {}"
    and "rm \<notin> set body" and "set body \<inter> set until = {}" and "rm \<notin> set gap"
    and "\<not> is_whitespace lm" and "lm \<notin> set until" and "rm \<notin> set until" and "u \<in> set until" and "u \<noteq> 0"
    and "length l + length body + length gap + 4 \<le> 65536"
  shows "\<exists>s' t. readString until (Some (ReaderTaskExtract lm rm e)) True s =
      Some (Inr (body @ [u]), t, s') \<and> remaining s' ys"
proof -
  from extract_token [OF assms(2-14), of "String_Collector []" "String_Collector []" e ys] obtain t' where
    "collect_bytes (until_criteria until True) (Some (ReaderTaskExtract lm rm e)) (String_Collector [])
      (l @ lm # body @ rm # gap @ u # ys) = (Inr (String_Collector (body @ [u])), t', ys)" by auto
  from run_remaining [OF assms(1) this, of collected_bytes] show ?thesis
    by (auto simp: readString_def)
qed

theorem extract_between_marks_witness:
  "\<exists>s' t. readString (bytes '':'') (Some (ReaderTaskExtract 34 34 None)) True
      (EStream_memory ([32, 34] @ bytes ''key'' @ [34, 32] @ bytes '':1'')) =
    Some (Inr (bytes ''key:''), t, s')"
proof -
  have "remaining (EStream_memory ([32, 34] @ bytes ''key'' @ [34, 32] @ bytes '':1''))
      ([32] @ 34 # bytes ''key'' @ 34 # [32] @ 58 # bytes ''1'')"
    by (simp add: EStream_memory_def remaining_def es_inv_def pending_def chunks_ok_def)
  from extract_between_marks [OF this, of "bytes '':''" None] show ?thesis
    by (auto simp: is_whitespace_def STRING_UTILS_WHITESPACE_def)
qed

text \<open>
  A match that is not strict does not stop at the first difference: bailing out is
  undone by the next byte, so any text longer than the expected one, equal to it or not,
  ends in the out-of-range exception of the comparison.
\<close>

theorem exact_never_bails:
  assumes "remaining s (xs @ ys)" and "set xs \<inter> set until = {}" and "length xs = Suc (length m)"
    and "length xs \<le> 65536"
  shows "\<exists>s' t. readString until (Some (ReaderTaskExact m 0 False b None)) incl s =
      Some (Inl Out_Of_Range, t, s') \<and> remaining s' ys"
proof -
  obtain t r where c: "collect_list (xs @ ys) (Some (ReaderTaskExact m 0 False True None))
      (start_run (until_criteria until incl) (String_Collector [])) = (Inl Out_Of_Range, t, r, ys)"
    using exact_overrun [where xs = xs and until = until and k = 0 and i = 0 and m = m and st = GOOD
        and d = "String_Collector []" and incl = incl and zs = ys and b = True] assms(2-4)
    by (auto simp: start_run_def until_criteria_def LoopCriteriaInfo_def)
  then have "collect_bytes (until_criteria until incl) (Some (ReaderTaskExact m 0 False b None))
      (String_Collector []) (xs @ ys) = (Inl Out_Of_Range, t, ys)"
    by (simp add: collect_bytes_def finish_run_def)
  from run_remaining [OF assms(1) this, of collected_bytes] show ?thesis
    by (auto simp: readString_def)
qed

theorem exact_never_bails_witness:
  "\<exists>s' t. readString [10] (Some (ReaderTaskExact (bytes ''ab'') 0 False False None)) True
      (EStream_memory (bytes ''xyz'' @ [10])) = Some (Inl Out_Of_Range, t, s')"
proof -
  have "remaining (EStream_memory (bytes ''xyz'' @ [10])) (bytes ''xyz'' @ [10])"
    by (simp add: EStream_memory_def remaining_def es_inv_def pending_def chunks_ok_def)
  from exact_never_bails [OF this, where until = "[10]" and m = "bytes ''ab''" and b = False and incl = True]
  show ?thesis by auto
qed

end
