(* ===== verification/Key_Generator.thy ===== *)
theory Key_Generator
  imports EStream
begin

text \<open>
  The key generators of lib/key_generator.h: a 64-bit counter kept in a store file as 16
  hexadecimal digits, and the random identifiers. A shared array is the list of its elements, a
  64-bit integer a natural below \<open>2 ^ 64\<close>. The store file is what an \<open>open\<close> and the reads of it
  return. The random numbers and the clock are parameters.

  Calls from several threads are a step relation: \<open>key_step\<close> interleaves the phases of the
  two ways to take a key under the mutex.
\<close>

section \<open>Hexadecimal digits\<close>

definition hex_digit :: "nat \<Rightarrow> byte" where
  "hex_digit d = of_nat (if d < 10 then d + 48 else d + (65 - 10))"

fun hex_loop :: "nat \<Rightarrow> byte list \<Rightarrow> nat \<Rightarrow> byte list" where
  "hex_loop 0 data v = data"
| "hex_loop (Suc n) data v =
     (let low = hex_digit (v AND 15); high = hex_digit (drop_bit 4 (v AND 240))
      in hex_loop n (high # low # data) (drop_bit 8 v))"

definition valToHexCharArray :: "byte list \<Rightarrow> nat \<Rightarrow> nat \<Rightarrow> byte list res" where
  "valToHexCharArray data v n =
     (if 8 < n then Inl (Runtime_Error ''byte count cannnot exceed 64 bits.'')
      else Inr (hex_loop n data v))"

section \<open>The store\<close>

definition shl4 :: "nat \<Rightarrow> nat" where
  "shl4 c = push_bit 4 c mod 2 ^ 64"

definition hex_value :: "byte \<Rightarrow> nat option" where
  "hex_value b =
     (if isDigit b then Some (unat b - 48)
      else if isUpperHex b then Some ((unat b - 65) + 10) else None)"

text \<open>One iteration; the state is the counter, passed by reference, and the stream.\<close>

definition refresh_step :: "(nat \<times> estream, unit) prog" where
  "refresh_step st =
     (case st of (c, s) \<Rightarrow>
        let c1 = shl4 c in
        case get s of
          (Inl e, s1) \<Rightarrow> (Inl e, (c1, s1))
        | (Inr b, s1) \<Rightarrow>
            (case hex_value b of
               Some d \<Rightarrow> (Inr (), (c1 OR d, s1))
             | None \<Rightarrow> (Inl (Runtime_Error ''Non-hex character detected.''), (c1, s1))))"

fun refresh_loop :: "nat \<Rightarrow> (nat \<times> estream, unit) prog" where
  "refresh_loop 0 st = (Inr (), st)"
| "refresh_loop (Suc n) st = bindS refresh_step (\<lambda>_. refresh_loop n) st"

text \<open>A file that cannot be opened (\<open>None\<close>) leaves the counter as it is.\<close>

definition refresh :: "estream option \<Rightarrow> nat \<Rightarrow> unit res \<times> nat" where
  "refresh file current =
     (case file of
        None \<Rightarrow> (Inr (), current)
      | Some s \<Rightarrow> (case refresh_loop 16 (current, s) of (out, (c, s')) \<Rightarrow> (out, c)))"

text \<open>What a flush writes: nothing without a path.\<close>

definition flush_store :: "string \<Rightarrow> byte list \<Rightarrow> byte list option" where
  "flush_store file_path data = (if file_path \<noteq> [] then Some data else None)"

section \<open>The counter\<close>

definition generator_new :: "estream option \<Rightarrow> nat res" where
  "generator_new file = (case refresh file 0 of (Inl e, c) \<Rightarrow> Inl e | (Inr _, c) \<Rightarrow> Inr c)"

definition next_key :: "nat \<Rightarrow> byte list res \<times> nat" where
  "next_key current = (let c = add64 current 1 in (valToHexCharArray [] c 8, c))"

definition nextAsInteger :: "nat \<Rightarrow> nat \<times> nat" where
  "nextAsInteger current = (let c = add64 current 1 in (c, c))"

definition generator_delete :: "string \<Rightarrow> bool \<Rightarrow> nat \<Rightarrow> byte list option res" where
  "generator_delete file_path default_constructed current =
     (if \<not> default_constructed
      then bindR (valToHexCharArray [] current 8) (\<lambda>data. Inr (flush_store file_path data))
      else Inr None)"

section \<open>Random identifiers\<close>

definition v4_initialize :: "nat \<Rightarrow> nat res" where
  "v4_initialize v =
     (if v < 4 \<or> 6 < v then Inl (Runtime_Error ''Yeah, have you considered counseling? LOL...'')
      else Inr v)"

definition v7_initialize :: "nat \<Rightarrow> nat res" where
  "v7_initialize v =
     (if v < 2 \<or> 4 < v then Inl (Runtime_Error ''Yeah, just use UUIDGeneratorV4 LOL...'') else Inr v)"

text \<open>\<open>next\<close> of version 4; \<open>rs\<close> are the results of the calls of \<open>random\<close>.\<close>

fun v4_next :: "nat \<Rightarrow> nat list \<Rightarrow> byte list \<Rightarrow> byte list res" where
  "v4_next 0 rs data = Inr data"
| "v4_next (Suc n) (r # rs) data =
     bindR (valToHexCharArray data (r mod 2 ^ 32) 4) (v4_next n rs)"
| "v4_next (Suc n) [] data = Inr data"

text \<open>
  The mask of version 7 has ones at the leading zeros of the seconds.
\<close>

fun mask_loop :: "nat \<Rightarrow> nat \<Rightarrow> nat \<Rightarrow> bool \<Rightarrow> nat" where
  "mask_loop 0 seconds msk whitespacing = msk"
| "mask_loop (Suc n) seconds msk whitespacing =
     (let b63 = drop_bit 63 (push_bit (63 - n) seconds mod 2 ^ 64) AND 1;
          msk1 = push_bit 1 msk mod 2 ^ 64
      in if whitespacing
         then if b63 \<noteq> 0 then mask_loop n seconds msk1 False
              else mask_loop n seconds (msk1 OR 1) True
         else mask_loop n seconds msk1 False)"

text \<open>
  The selections of version 7. \<open>draws\<close> are the values
  \<open>round (num_selections * rand () / RAND_MAX)\<close> of the coming draws; draws already selected are
  drawn again. The result is \<open>None\<close> when the draws are used up.
\<close>

fun draw_new :: "nat list \<Rightarrow> nat list \<Rightarrow> (nat \<times> nat list) option" where
  "draw_new sel [] = None"
| "draw_new sel (d # ds) = (if d \<in> set sel then draw_new sel ds else Some (d, ds))"

definition select_one :: "nat \<Rightarrow> nat \<Rightarrow> nat list \<Rightarrow> nat list \<Rightarrow> (nat \<times> nat list) option" where
  "select_one num i sel draws =
     (if num - 2 \<le> i \<and> 0 \<notin> set sel then Some (0, draws)
      else if num - 2 \<le> i \<and> 1 \<notin> set sel then Some (1, draws)
      else draw_new sel draws)"

fun v7_loop ::
  "nat \<Rightarrow> nat \<Rightarrow> nat \<Rightarrow> (nat \<Rightarrow> nat) \<Rightarrow> nat \<Rightarrow> nat \<Rightarrow> nat list \<Rightarrow> nat list \<Rightarrow> byte list \<Rightarrow> byte list res option"
where
  "v7_loop 0 num i rnd sec nsec sel draws data = Some (Inr data)"
| "v7_loop (Suc n) num i rnd sec nsec sel draws data =
     (case select_one num i sel draws of
        None \<Rightarrow> None
      | Some (k, draws') \<Rightarrow>
          let out =
            (if k = 0
             then valToHexCharArray data
               (sec XOR (mask_loop 64 sec 0 True AND
                  (push_bit 32 (rnd (2 * i)) OR rnd (2 * i + 1) mod 2 ^ 32))) 8
             else if k = 1 then valToHexCharArray data (nsec mod 2 ^ 32) 4
             else valToHexCharArray data (rnd (2 * i) mod 2 ^ 32) 4)
          in (case out of
                Inl e \<Rightarrow> Some (Inl e)
              | Inr data' \<Rightarrow> v7_loop n num (Suc i) rnd sec nsec (sel @ [k]) draws' data'))"

definition v7_next :: "nat \<Rightarrow> (nat \<Rightarrow> nat) \<Rightarrow> nat \<Rightarrow> nat \<Rightarrow> nat list \<Rightarrow> byte list res option" where
  "v7_next num_randoms rnd sec nsec draws =
     v7_loop (2 + num_randoms) (2 + num_randoms) 0 rnd sec nsec [] draws []"

section \<open>Printing and parsing\<close>

primrec hex_string :: "nat \<Rightarrow> nat \<Rightarrow> byte list" where
  "hex_string 0 v = []"
| "hex_string (Suc n) v = hex_digit (v div 16 ^ n mod 16) # hex_string n v"

lemma length_hex_string [simp]: "length (hex_string n v) = n"
  by (induction n) simp_all

lemma hex_string_snoc: "hex_string (Suc n) v = hex_string n (v div 16) @ [hex_digit (v mod 16)]"
proof (induction n)
  case (Suc n)
  have "hex_string (Suc (Suc n)) v = hex_digit (v div 16 ^ Suc n mod 16) # hex_string (Suc n) v"
    by simp
  also have "\<dots> = hex_digit (v div 16 div 16 ^ n mod 16) # hex_string n (v div 16) @ [hex_digit (v mod 16)]"
    by (simp only: Suc.IH div_mult2_eq power_Suc)
  finally show ?case by simp
qed simp

lemma low_nibble: "(v::nat) AND 15 = v mod 16"
  by (rule and_low_nat)

lemma high_nibble: "drop_bit 4 ((v::nat) AND 240) = v div 16 mod 16"
proof -
  have "drop_bit 4 (v AND 240) = v div 16 AND 15"
    by (simp only: and_high_nat) simp
  then show ?thesis by (simp only: low_nibble)
qed

lemma hex_loop_string: "hex_loop n data v = hex_string (2 * n) v @ data"
proof (induction n arbitrary: data v)
  case (Suc n)
  have "hex_string (2 * Suc n) v = hex_string (Suc (Suc (2 * n))) v" by simp
  also have "\<dots>
      = hex_string (2 * n) (drop_bit 8 v) @ [hex_digit (v div 16 mod 16), hex_digit (v mod 16)]"
    by (simp only: hex_string_snoc drop_bit_eq_div div_mult2_eq [symmetric] append_assoc) simp
  finally show ?case by (simp only: hex_loop.simps Let_def Suc.IH high_nibble low_nibble) simp
qed simp

lemma valToHex_string: "n \<le> 8 \<Longrightarrow> valToHexCharArray data v n = Inr (hex_string (2 * n) v @ data)"
  by (simp add: valToHexCharArray_def hex_loop_string)

lemma hex_value_digit: "d < 16 \<Longrightarrow> hex_value (hex_digit d) = Some d"
proof -
  assume "d < 16"
  then have "d \<in> set [0..<16]" by simp
  moreover have "\<forall>d \<in> set [0..<16]. hex_value (hex_digit d) = Some d" by code_simp
  ultimately show ?thesis by blast
qed

lemma or_digit: "d < 16 \<Longrightarrow> shl4 c OR d = (c * 16 + d) mod 2 ^ 64"
proof -
  assume d: "d < 16"
  have "shl4 c = (c mod 2 ^ 60) * 16"
    using mult_mod_right [of 16 c "2 ^ 60"] by (simp add: shl4_def push_bit_eq_mult mult.commute)
  then have s: "shl4 c = push_bit 4 (c mod 2 ^ 60)" by (simp add: push_bit_eq_mult)
  have "push_bit 4 (c mod 2 ^ 60) OR d = push_bit 4 (c mod 2 ^ 60) + d"
  proof (rule disjunctive_add [symmetric])
    fix n
    show "\<not> bit (push_bit 4 (c mod 2 ^ 60)) n \<or> \<not> bit d n"
    proof (cases "n < 4")
      case False
      then have "d < 2 ^ n" using d power_increasing [of 4 n "2::nat"] by simp
      then show ?thesis by (simp add: bit_iff_odd)
    qed (simp add: bit_push_bit_iff)
  qed
  also have "\<dots> = shl4 c + d" by (simp only: s)
  also have "\<dots> = (shl4 c + d) mod 2 ^ 64"
  proof -
    have "c mod 2 ^ 60 < 2 ^ 60" by simp
    then have "shl4 c + d < 2 ^ 64" using d by (simp add: s push_bit_eq_mult)
    then show ?thesis by simp
  qed
  also have "\<dots> = (c * 16 + d) mod 2 ^ 64"
    by (simp add: shl4_def push_bit_eq_mult mod_add_left_eq)
  finally show ?thesis by (simp only: s)
qed

lemma refresh_loop_string:
  assumes "remaining s (hex_string n v @ rest)"
  shows "\<exists>s'. refresh_loop n (c, s) = (Inr (), ((c * 16 ^ n + v mod 16 ^ n) mod 2 ^ 64, s')) \<or>
    n = 0 \<and> refresh_loop n (c, s) = (Inr (), (c, s))"
  using assms
proof (induction n arbitrary: c s)
  case (Suc n)
  define d where "d = v div 16 ^ n mod 16"
  have d: "d < 16" by (simp add: d_def)
  from Suc.prems have "remaining s (hex_digit d # (hex_string n v @ rest))" by (simp add: d_def)
  from get_remaining [OF this] obtain s1
    where s1: "get s = (Inr (hex_digit d), s1)" "remaining s1 (hex_string n v @ rest)" by blast
  let ?c = "(c * 16 + d) mod 2 ^ 64"
  have step: "refresh_loop (Suc n) (c, s) = refresh_loop n (?c, s1)"
    by (simp add: bindS_def refresh_step_def s1(1) hex_value_digit [OF d] or_digit [OF d])
  have val: "(?c * 16 ^ n + v mod 16 ^ n) mod 2 ^ 64 = (c * 16 ^ Suc n + v mod 16 ^ Suc n) mod 2 ^ 64"
  proof -
    have "v mod 16 ^ Suc n = 16 ^ n * d + v mod 16 ^ n"
      by (simp add: d_def mod_mult2_eq mult.commute [of 16])
    then have "c * 16 ^ Suc n + v mod 16 ^ Suc n = (c * 16 + d) * 16 ^ n + v mod 16 ^ n"
      by (simp add: algebra_simps)
    then show ?thesis by (metis mod_add_left_eq mod_mult_left_eq)
  qed
  show ?case
  proof (cases n)
    case 0
    then show ?thesis using step val by simp
  next
    case (Suc k)
    then show ?thesis using Suc.IH [OF s1(2), of ?c] step val by auto
  qed
qed simp

lemma hex_string_inject: "hex_string n v = hex_string n w \<Longrightarrow> v mod 16 ^ n = w mod 16 ^ n"
proof (induction n)
  case (Suc n)
  have "hex_value (hex_digit (v div 16 ^ n mod 16)) = hex_value (hex_digit (w div 16 ^ n mod 16))"
    using Suc.prems by simp
  then have "v div 16 ^ n mod 16 = w div 16 ^ n mod 16" by (simp add: hex_value_digit)
  moreover have "v mod 16 ^ n = w mod 16 ^ n" using Suc by simp
  moreover have "u mod 16 ^ Suc n = 16 ^ n * (u div 16 ^ n mod 16) + u mod 16 ^ n" for u :: nat
    by (simp add: mod_mult2_eq mult.commute [of 16])
  ultimately show ?case by simp
qed simp

section \<open>Calls from several threads\<close>

text \<open>
  Where a thread is in a call: of \<open>next\<close> with the mutex locked, the counter incremented, the
  key written, the mutex unlocked; of \<open>nextAsInteger\<close> likewise, but the value that is
  returned is read after the mutex is unlocked.
\<close>

datatype phase =
    Idle
  | Next_Locked
  | Next_Counted
  | Next_Written "byte list"
  | Next_Unlocked "byte list"
  | Int_Locked
  | Int_Counted
  | Int_Unlocked

record key_state =
  current :: nat
  owner :: "nat option"
  phases :: "nat \<Rightarrow> phase"
  keys :: "byte list list"
  integers :: "nat list"
  calls :: nat

definition key_start :: "nat \<Rightarrow> key_state" where
  "key_start c = \<lparr>current = c, owner = None, phases = \<lambda>t. Idle, keys = [], integers = [], calls = 0\<rparr>"

abbreviation enter :: "nat \<Rightarrow> phase \<Rightarrow> key_state \<Rightarrow> key_state" where
  "enter t p st \<equiv> st\<lparr>phases := (phases st)(t := p)\<rparr>"

text \<open>\<open>calls\<close> counts the increments; nothing depends on it.\<close>

inductive key_step :: "key_state \<Rightarrow> key_state \<Rightarrow> bool" where
  next_lock: "phases st t = Idle \<Longrightarrow> owner st = None \<Longrightarrow>
    key_step st (enter t Next_Locked (st\<lparr>owner := Some t\<rparr>))"
| next_count: "phases st t = Next_Locked \<Longrightarrow>
    key_step st (enter t Next_Counted (st\<lparr>current := add64 (current st) 1, calls := Suc (calls st)\<rparr>))"
| next_write: "phases st t = Next_Counted \<Longrightarrow> valToHexCharArray [] (current st) 8 = Inr d \<Longrightarrow>
    key_step st (enter t (Next_Written d) st)"
| next_unlock: "phases st t = Next_Written d \<Longrightarrow>
    key_step st (enter t (Next_Unlocked d) (st\<lparr>owner := None\<rparr>))"
| next_return: "phases st t = Next_Unlocked d \<Longrightarrow>
    key_step st (enter t Idle (st\<lparr>keys := d # keys st\<rparr>))"
| int_lock: "phases st t = Idle \<Longrightarrow> owner st = None \<Longrightarrow>
    key_step st (enter t Int_Locked (st\<lparr>owner := Some t\<rparr>))"
| int_count: "phases st t = Int_Locked \<Longrightarrow>
    key_step st (enter t Int_Counted (st\<lparr>current := add64 (current st) 1, calls := Suc (calls st)\<rparr>))"
| int_unlock: "phases st t = Int_Counted \<Longrightarrow>
    key_step st (enter t Int_Unlocked (st\<lparr>owner := None\<rparr>))"
| int_return: "phases st t = Int_Unlocked \<Longrightarrow>
    key_step st (enter t Idle (st\<lparr>integers := current st # integers st\<rparr>))"

inductive key_reach :: "nat \<Rightarrow> key_state \<Rightarrow> bool" for c where
  reach_start: "key_reach c (key_start c)"
| reach_step: "key_reach c st \<Longrightarrow> key_step st st' \<Longrightarrow> key_reach c st'"

fun holds :: "phase \<Rightarrow> bool" where
  "holds Next_Locked = True"
| "holds Next_Counted = True"
| "holds (Next_Written d) = True"
| "holds Int_Locked = True"
| "holds Int_Counted = True"
| "holds p = False"

fun carried :: "phase \<Rightarrow> byte list option" where
  "carried (Next_Written d) = Some d"
| "carried (Next_Unlocked d) = Some d"
| "carried p = None"

text \<open>The key of the \<open>k\<close>-th increment, and the keys returned or on their way.\<close>

definition key_of :: "nat \<Rightarrow> nat \<Rightarrow> byte list" where
  "key_of c k = hex_string 16 ((c + k) mod 2 ^ 64)"

definition taken :: "key_state \<Rightarrow> byte list set" where
  "taken st = set (keys st) \<union> {d. \<exists>t. carried (phases st t) = Some d}"

definition mutex_inv :: "key_state \<Rightarrow> bool" where
  "mutex_inv st \<longleftrightarrow> (\<forall>t. holds (phases st t) \<longleftrightarrow> owner st = Some t)"

definition fresh_inv :: "nat \<Rightarrow> key_state \<Rightarrow> bool" where
  "fresh_inv c st \<longleftrightarrow> current st = (c + calls st) mod 2 ^ 64 \<and>
     taken st \<subseteq> key_of c ` {1..calls st} \<and>
     ((\<exists>t. phases st t = Next_Counted) \<longrightarrow> 0 < calls st \<and> taken st \<subseteq> key_of c ` {1..<calls st})"

definition distinct_inv :: "key_state \<Rightarrow> bool" where
  "distinct_inv st \<longleftrightarrow> distinct (keys st) \<and>
     (\<forall>t d. carried (phases st t) = Some d \<longrightarrow> d \<notin> set (keys st) \<and>
       (\<forall>u. carried (phases st u) = Some d \<longrightarrow> u = t))"

lemma key_of_inject: "j \<in> {1..n} \<Longrightarrow> k \<in> {1..n} \<Longrightarrow> n \<le> 2 ^ 64 \<Longrightarrow> key_of c j = key_of c k \<Longrightarrow> j = k"
proof -
  assume jk: "j \<in> {1..n}" "k \<in> {1..n}" "n \<le> 2 ^ 64" and "key_of c j = key_of c k"
  then have "(c + j) mod 2 ^ 64 mod 16 ^ 16 = (c + k) mod 2 ^ 64 mod 16 ^ 16"
    unfolding key_of_def by (intro hex_string_inject)
  then have eq: "(c + j) mod 2 ^ 64 = (c + k) mod 2 ^ 64" by simp
  show ?thesis
  proof (cases "j \<le> k")
    case True
    then have "2 ^ 64 dvd k - j" using eq mod_eq_dvd_iff_nat [of "c + j" "c + k" "2 ^ 64"] by simp
    moreover have "k - j < 2 ^ 64" using jk by auto
    ultimately show ?thesis using True by (metis dvd_imp_le leD le_antisym not_gr0 diff_is_0_eq)
  next
    case False
    then have "2 ^ 64 dvd j - k" using eq mod_eq_dvd_iff_nat [of "c + k" "c + j" "2 ^ 64"] by simp
    moreover have "j - k < 2 ^ 64" using jk by auto
    ultimately show ?thesis using False by (metis dvd_imp_le leD le_antisym not_gr0 diff_is_0_eq nat_le_linear)
  qed
qed

lemma taken_iff: "d \<in> taken st \<longleftrightarrow> d \<in> set (keys st) \<or> (\<exists>t. carried (phases st t) = Some d)"
  by (simp add: taken_def)

lemma taken_same:
  assumes "carried p = carried (phases st t)" "keys st' = keys st" "phases st' = (phases st)(t := p)"
  shows "taken st' = taken st"
proof -
  have "carried (phases st' u) = carried (phases st u)" for u using assms by simp
  then show ?thesis using assms(2) by (simp add: taken_def)
qed

lemma carried_update: "(\<exists>u. carried ((ph(t := p)) u) = Some x) \<longleftrightarrow>
    carried p = Some x \<or> (\<exists>u. u \<noteq> t \<and> carried (ph u) = Some x)"
  by (auto split: if_splits)

lemma taken_split: "taken st =
    set (keys st) \<union> {x. carried (phases st t) = Some x} \<union> {x. \<exists>u. u \<noteq> t \<and> carried (phases st u) = Some x}"
  unfolding taken_def set_eq_iff Un_iff mem_Collect_eq by (metis (no_types))

lemma taken_write:
  assumes "carried (phases st t) = None"
  shows "taken (enter t (Next_Written d) st) = insert d (taken st)"
  unfolding taken_split [of _ t] using assms by auto

lemma taken_return:
  assumes "phases st t = Next_Unlocked d"
  shows "taken (enter t Idle (st\<lparr>keys := d # keys st\<rparr>)) = taken st"
  unfolding taken_split [of _ t] using assms by auto

text \<open>Taking, keeping and dropping the mutex; a thread that does not hold it cannot be counted.\<close>

lemma mutex_take: "mutex_inv st \<Longrightarrow> owner st = None \<Longrightarrow> holds p \<Longrightarrow>
    phases st' = (phases st)(t := p) \<Longrightarrow> owner st' = Some t \<Longrightarrow> mutex_inv st'"
  by (simp add: mutex_inv_def)

lemma mutex_keep: "mutex_inv st \<Longrightarrow> holds p = holds (phases st t) \<Longrightarrow>
    phases st' = (phases st)(t := p) \<Longrightarrow> owner st' = owner st \<Longrightarrow> mutex_inv st'"
  by (simp add: mutex_inv_def)

lemma mutex_alone: "mutex_inv st \<Longrightarrow> holds (phases st t) \<Longrightarrow> holds (phases st u) \<Longrightarrow> u = t"
  unfolding mutex_inv_def by (metis option.inject)

lemma mutex_drop:
  assumes "mutex_inv st" "holds (phases st t)" "\<not> holds p"
    and "phases st' = (phases st)(t := p)" "owner st' = None"
  shows "mutex_inv st'"
proof -
  have "\<not> holds (phases st' u)" for u
    using assms(3) mutex_alone [OF assms(1,2), of u] by (cases "u = t") (auto simp: assms(4))
  then show ?thesis using assms(5) by (simp add: mutex_inv_def)
qed

lemma mutex_step: "key_step st st' \<Longrightarrow> mutex_inv st \<Longrightarrow> mutex_inv st'"
proof (induction rule: key_step.induct)
  case (next_lock st t)
  show ?case by (rule mutex_take [of st Next_Locked _ t]) (use next_lock in simp_all)
next
  case (next_count st t)
  show ?case by (rule mutex_keep [of st Next_Counted t]) (use next_count in simp_all)
next
  case (next_write st t d)
  show ?case by (rule mutex_keep [of st "Next_Written d" t]) (use next_write in simp_all)
next
  case (next_unlock st t d)
  show ?case by (rule mutex_drop [of st t "Next_Unlocked d"]) (use next_unlock in simp_all)
next
  case (next_return st t d)
  show ?case by (rule mutex_keep [of st Idle t]) (use next_return in simp_all)
next
  case (int_lock st t)
  show ?case by (rule mutex_take [of st Int_Locked _ t]) (use int_lock in simp_all)
next
  case (int_count st t)
  show ?case by (rule mutex_keep [of st Int_Counted t]) (use int_count in simp_all)
next
  case (int_unlock st t)
  show ?case by (rule mutex_drop [of st t Int_Unlocked]) (use int_unlock in simp_all)
next
  case (int_return st t)
  show ?case by (rule mutex_keep [of st Idle t]) (use int_return in simp_all)
qed

lemma fresh_same:
  assumes "fresh_inv c st" "phases st' = (phases st)(t := p)" "p \<noteq> Next_Counted"
    and "taken st' = taken st" "current st' = current st" "calls st' = calls st"
  shows "fresh_inv c st'"
  using assms unfolding fresh_inv_def by (metis fun_upd_apply)

lemma fresh_keep:
  assumes "fresh_inv c st" "phases st' = (phases st)(t := p)" "p \<noteq> Next_Counted"
    and "carried p = carried (phases st t)" "keys st' = keys st"
    and "current st' = current st" "calls st' = calls st"
  shows "fresh_inv c st'"
  by (rule fresh_same [OF assms(1-3) taken_same [OF assms(4,5,2)] assms(6,7)])

lemma fresh_count:
  assumes "fresh_inv c st" "taken st' = taken st" "current st' = add64 (current st) 1"
    "calls st' = Suc (calls st)"
  shows "fresh_inv c st'"
proof -
  have "{1..<calls st'} = {1..calls st}" using assms(4) by auto
  moreover have "key_of c ` {1..calls st} \<subseteq> key_of c ` {1..calls st'}" using assms(4) by auto
  ultimately show ?thesis
    using assms unfolding fresh_inv_def add64_def by (auto simp: mod_add_left_eq mod_Suc_eq)
qed

lemma fresh_write:
  assumes "mutex_inv st" "fresh_inv c st" "phases st t = Next_Counted"
  shows "fresh_inv c (enter t (Next_Written (key_of c (calls st))) st)"
    and "key_of c (calls st) \<in> taken st \<Longrightarrow> \<exists>k \<in> {1..<calls st}. key_of c (calls st) = key_of c k"
proof -
  let ?st = "enter t (Next_Written (key_of c (calls st))) st"
  have tk: "taken ?st = insert (key_of c (calls st)) (taken st)"
    by (rule taken_write) (simp add: assms(3))
  have none: "phases ?st u \<noteq> Next_Counted" for u
    using mutex_alone [OF assms(1), of t u] assms(3) by auto
  have n: "0 < calls st" and sub: "taken st \<subseteq> key_of c ` {1..<calls st}"
    using assms(2,3) unfolding fresh_inv_def by blast+
  show "fresh_inv c ?st"
    using assms(2) none n unfolding fresh_inv_def tk by auto
  show "key_of c (calls st) \<in> taken st \<Longrightarrow> \<exists>k \<in> {1..<calls st}. key_of c (calls st) = key_of c k"
    using sub by auto
qed

lemma written_key:
  "fresh_inv c st \<Longrightarrow> valToHexCharArray [] (current st) 8 = Inr d \<Longrightarrow> d = key_of c (calls st)"
  unfolding fresh_inv_def key_of_def by (simp add: valToHex_string)

lemma fresh_step: "key_step st st' \<Longrightarrow> mutex_inv st \<Longrightarrow> fresh_inv c st \<Longrightarrow> fresh_inv c st'"
proof (induction rule: key_step.induct)
  case (next_lock st t)
  show ?case by (rule fresh_keep [of c st _ t Next_Locked]) (use next_lock in simp_all)
next
  case (next_count st t)
  show ?case
    by (rule fresh_count [of c st], rule next_count, rule taken_same [where p = Next_Counted and t = t])
      (use next_count in simp_all)
next
  case (next_write st t d)
  then show ?case using fresh_write(1) [of st c t] written_key [of c st d] by simp
next
  case (next_unlock st t d)
  show ?case by (rule fresh_keep [of c st _ t "Next_Unlocked d"]) (use next_unlock in simp_all)
next
  case (next_return st t d)
  show ?case
    by (rule fresh_same [of c st _ t Idle], rule next_return, simp, simp, rule taken_return, rule next_return)
      simp_all
next
  case (int_lock st t)
  show ?case by (rule fresh_keep [of c st _ t Int_Locked]) (use int_lock in simp_all)
next
  case (int_count st t)
  show ?case
    by (rule fresh_count [of c st], rule int_count, rule taken_same [where p = Int_Counted and t = t])
      (use int_count in simp_all)
next
  case (int_unlock st t)
  show ?case by (rule fresh_keep [of c st _ t Int_Unlocked]) (use int_unlock in simp_all)
next
  case (int_return st t)
  show ?case by (rule fresh_keep [of c st _ t Idle]) (use int_return in simp_all)
qed

lemma distinct_keep:
  assumes "distinct_inv st" "phases st' = (phases st)(t := p)" "carried p = carried (phases st t)"
    "keys st' = keys st"
  shows "distinct_inv st'"
proof -
  have "carried (phases st' u) = carried (phases st u)" for u using assms(2,3) by simp
  then show ?thesis using assms(1,4) by (simp add: distinct_inv_def)
qed

lemma distinct_write:
  assumes "distinct_inv st" "d \<notin> taken st"
  shows "distinct_inv (enter t (Next_Written d) st)"
  using assms unfolding distinct_inv_def taken_iff by (auto simp: eq_commute [of d])

lemma distinct_return:
  assumes "distinct_inv st" "phases st t = Next_Unlocked d"
  shows "distinct_inv (enter t Idle (st\<lparr>keys := d # keys st\<rparr>))"
proof -
  have d: "carried (phases st t) = Some d" by (simp add: assms(2))
  have new: "d \<notin> set (keys st)" and only: "\<And>u. carried (phases st u) = Some d \<Longrightarrow> u = t"
    using assms(1) d unfolding distinct_inv_def by blast+
  then show ?thesis using assms(1) unfolding distinct_inv_def by auto
qed

lemma calls_mono: "key_step st st' \<Longrightarrow> calls st \<le> calls st'"
  by (induction rule: key_step.induct) simp_all

lemma distinct_step:
  "key_step st st' \<Longrightarrow> mutex_inv st \<Longrightarrow> fresh_inv c st \<Longrightarrow> calls st \<le> 2 ^ 64 \<Longrightarrow>
    distinct_inv st \<Longrightarrow> distinct_inv st'"
proof (induction rule: key_step.induct)
  case (next_write st t d)
  have d: "d = key_of c (calls st)" by (rule written_key) (use next_write in simp_all)
  have "d \<notin> taken st"
  proof
    assume "d \<in> taken st"
    then obtain k where k: "k \<in> {1..<calls st}" "key_of c (calls st) = key_of c k"
      using fresh_write(2) [of st c t] next_write d by blast
    have "calls st = k"
      by (rule key_of_inject [of _ "calls st" _ c]) (use k next_write in auto)
    then show False using k by simp
  qed
  then show ?case by (intro distinct_write next_write)
next
  case (next_lock st t)
  show ?case by (rule distinct_keep [of st _ t Next_Locked]) (use next_lock in simp_all)
next
  case (next_count st t)
  show ?case by (rule distinct_keep [of st _ t Next_Counted]) (use next_count in simp_all)
next
  case (next_unlock st t d)
  show ?case by (rule distinct_keep [of st _ t "Next_Unlocked d"]) (use next_unlock in simp_all)
next
  case (next_return st t d)
  show ?case by (rule distinct_return) (use next_return in simp_all)
next
  case (int_lock st t)
  show ?case by (rule distinct_keep [of st _ t Int_Locked]) (use int_lock in simp_all)
next
  case (int_count st t)
  show ?case by (rule distinct_keep [of st _ t Int_Counted]) (use int_count in simp_all)
next
  case (int_unlock st t)
  show ?case by (rule distinct_keep [of st _ t Int_Unlocked]) (use int_unlock in simp_all)
next
  case (int_return st t)
  show ?case by (rule distinct_keep [of st _ t Idle]) (use int_return in simp_all)
qed

lemma reach_inv: "key_reach c st \<Longrightarrow> c < 2 ^ 64 \<Longrightarrow>
    mutex_inv st \<and> fresh_inv c st \<and> (calls st \<le> 2 ^ 64 \<longrightarrow> distinct_inv st)"
proof (induction rule: key_reach.induct)
  case reach_start
  then show ?case
    by (simp add: key_start_def mutex_inv_def fresh_inv_def taken_def distinct_inv_def)
next
  case (reach_step st st')
  then show ?case
    using mutex_step fresh_step distinct_step calls_mono [OF reach_step(2)] le_trans by blast
qed

section \<open>Properties\<close>

text \<open>
  C14. In every interleaving of calls of \<open>next\<close> and \<open>nextAsInteger\<close> by any number of threads no
  two calls of \<open>next\<close> have returned the same key, for up to \<open>2 ^ 64\<close> calls; every key is the 16
  digits of a value the counter has passed, and no two threads hold the mutex.
\<close>

theorem next_unique:
  assumes "key_reach c st" "c < 2 ^ 64" "calls st \<le> 2 ^ 64"
  shows "distinct (keys st) \<and> set (keys st) \<subseteq> key_of c ` {1..calls st} \<and>
    (\<forall>t u. holds (phases st t) \<and> holds (phases st u) \<longrightarrow> t = u)"
proof -
  have inv: "mutex_inv st" "fresh_inv c st" "distinct_inv st" using reach_inv assms by auto
  have "set (keys st) \<subseteq> taken st" by (simp add: taken_def)
  then show ?thesis
    using inv mutex_alone [OF inv(1)] unfolding fresh_inv_def distinct_inv_def by blast
qed

lemma reach_Cons: "key_reach c st \<Longrightarrow> key_step st st' \<Longrightarrow> st' = st'' \<Longrightarrow> key_reach c st''"
  using reach_step by simp

text \<open>Two calls of \<open>nextAsInteger\<close>, the second between the unlocking and the return of the first.\<close>

lemma two_integers:
  assumes "c < 2 ^ 64"
  shows "key_reach c \<lparr>current = add64 (add64 c 1) 1, owner = None, phases = \<lambda>t. Idle, keys = [],
    integers = [add64 (add64 c 1) 1, add64 (add64 c 1) 1], calls = 2\<rparr>"
proof -
  define mk where "mk = (\<lambda>n ow p q is k. \<lparr>current = n, owner = ow,
    phases = (\<lambda>t. Idle)(0 := p, Suc 0 := q), keys = [], integers = is, calls = k\<rparr>)"
  let ?a = "add64 c 1" and ?b = "add64 (add64 c 1) 1"
  have r0: "key_reach c (mk c None Idle Idle [] 0)"
    using reach_start [of c] by (simp add: mk_def key_start_def fun_upd_idem)
  have r1: "key_reach c (mk c (Some 0) Int_Locked Idle [] 0)"
    by (rule reach_Cons [OF r0 int_lock [of _ 0]]) (simp_all add: mk_def fun_upd_twist)
  have r2: "key_reach c (mk ?a (Some 0) Int_Counted Idle [] 1)"
    by (rule reach_Cons [OF r1 int_count [of _ 0]]) (simp_all add: mk_def fun_upd_twist)
  have r3: "key_reach c (mk ?a None Int_Unlocked Idle [] 1)"
    by (rule reach_Cons [OF r2 int_unlock [of _ 0]]) (simp_all add: mk_def fun_upd_twist)
  have r4: "key_reach c (mk ?a (Some 1) Int_Unlocked Int_Locked [] 1)"
    by (rule reach_Cons [OF r3 int_lock [of _ 1]]) (simp_all add: mk_def)
  have r5: "key_reach c (mk ?b (Some 1) Int_Unlocked Int_Counted [] 2)"
    by (rule reach_Cons [OF r4 int_count [of _ 1]]) (simp_all add: mk_def)
  have r6: "key_reach c (mk ?b None Int_Unlocked Int_Unlocked [] 2)"
    by (rule reach_Cons [OF r5 int_unlock [of _ 1]]) (simp_all add: mk_def)
  have r7: "key_reach c (mk ?b None Int_Unlocked Idle [?b] 2)"
    by (rule reach_Cons [OF r6 int_return [of _ 1]]) (simp_all add: mk_def)
  have r8: "key_reach c (mk ?b None Idle Idle [?b, ?b] 2)"
    by (rule reach_Cons [OF r7 int_return [of _ 0]]) (simp_all add: mk_def fun_upd_twist)
  then show ?thesis by (simp add: mk_def fun_upd_idem)
qed

lemma one_next:
  assumes "key_reach c \<lparr>current = n, owner = None, phases = \<lambda>t. Idle, keys = ks, integers = [], calls = k\<rparr>"
  shows "key_reach c \<lparr>current = add64 n 1, owner = None, phases = \<lambda>t. Idle,
    keys = hex_string 16 (add64 n 1) # ks, integers = [], calls = Suc k\<rparr>"
proof -
  let ?a = "add64 n 1"
  let ?d = "hex_string 16 ?a"
  define mk where "mk = (\<lambda>n ow p ks k. \<lparr>current = n, owner = ow,
    phases = (\<lambda>t. Idle)(0 := p), keys = ks, integers = [], calls = k\<rparr>)"
  have r0: "key_reach c (mk n None Idle ks k)" using assms by (simp add: mk_def fun_upd_idem)
  have r1: "key_reach c (mk n (Some 0) Next_Locked ks k)"
    by (rule reach_Cons [OF r0 next_lock [of _ 0]]) (simp_all add: mk_def)
  have r2: "key_reach c (mk ?a (Some 0) Next_Counted ks (Suc k))"
    by (rule reach_Cons [OF r1 next_count [of _ 0]]) (simp_all add: mk_def)
  have r3: "key_reach c (mk ?a (Some 0) (Next_Written ?d) ks (Suc k))"
    by (rule reach_Cons [OF r2 next_write [of _ 0]]) (simp_all add: mk_def valToHex_string)
  have r4: "key_reach c (mk ?a None (Next_Unlocked ?d) ks (Suc k))"
    by (rule reach_Cons [OF r3 next_unlock [of _ 0]]) (simp_all add: mk_def)
  have r5: "key_reach c (mk ?a None Idle (?d # ks) (Suc k))"
    by (rule reach_Cons [OF r4 next_return [of _ 0]]) (simp_all add: mk_def)
  then show ?thesis by (simp add: mk_def fun_upd_idem)
qed

lemma two_keys:
  "key_reach 9 \<lparr>current = 11, owner = None, phases = \<lambda>t. Idle,
    keys = [hex_string 16 11, hex_string 16 10], integers = [], calls = 2\<rparr>"
proof -
  have "add64 9 1 = 10" "add64 10 1 = 11" "Suc (Suc 0) = 2" by simp_all
  then show ?thesis
    using one_next [OF one_next [OF reach_start [of 9, unfolded key_start_def]]] by (simp only:)
qed

theorem next_unique_witness:
  "distinct [hex_string 16 11, hex_string 16 10] \<and>
    set [hex_string 16 11, hex_string 16 10] \<subseteq> key_of 9 ` {1..2}"
  using next_unique [OF two_keys] by simp

text \<open>
  \<open>nextAsInteger\<close> can give two threads the same number: it returns the counter as it is after
  the mutex was unlocked. From every start both of two calls can return the value after the next.
\<close>

theorem nextAsInteger_not_unique:
  assumes "c < 2 ^ 64"
  shows "\<exists>st. key_reach c st \<and> calls st = 2 \<and>
    integers st = [(c + 2) mod 2 ^ 64, (c + 2) mod 2 ^ 64] \<and> fst (nextAsInteger c) = (c + 1) mod 2 ^ 64"
proof -
  have eq: "add64 (add64 c 1) 1 = (c + 2) mod 2 ^ 64" by (simp add: add64_def mod_Suc_eq)
  show ?thesis
    by (rule exI, rule conjI, rule two_integers [OF assms, unfolded eq])
      (simp add: nextAsInteger_def add64_def Let_def)
qed

theorem nextAsInteger_not_unique_witness:
  "\<exists>st. key_reach 18446744073709551615 st \<and> calls st = 2 \<and> integers st = [1, 1]"
  using nextAsInteger_not_unique [of 18446744073709551615] by auto

text \<open>
  C33. What the destructor writes to the store is read back as the same counter by the next
  generator, whatever follows it in the file and however the file arrives; a file that is
  missing starts the counter at zero.
\<close>

theorem key_store_roundtrip:
  assumes "generator_delete path False v = Inr (Some data)" and "v < 2 ^ 64"
    and "remaining s (data @ rest)"
  shows "generator_new (Some s) = Inr v \<and> length data = 16 \<and> generator_new None = Inr 0"
proof -
  have data: "data = hex_string 16 v"
    using assms(1) by (simp add: generator_delete_def valToHex_string flush_store_def split: if_splits)
  obtain s' where "refresh_loop 16 (0, s) = (Inr (), (v, s'))"
    using refresh_loop_string [of s 16 v rest 0] assms(2,3) data by auto
  then show ?thesis by (simp add: data generator_new_def refresh_def)
qed

theorem key_store_roundtrip_witness:
  "let data = hex_string 16 43981;
       file = EStream_fd 3 10 [Some (take 10 data), Some (drop 10 data @ bytes ''$'')]
   in hex_string 4 43981 = bytes ''ABCD'' \<and> \<not> isl file \<and> generator_new (Some (projr file)) = Inr 43981"
proof -
  define data where "data = hex_string 16 43981"
  define s where "s = projr (EStream_fd 3 10 [Some (take 10 data), Some (drop 10 data @ bytes ''$'')])"
  have len: "length data = 16" by (simp add: data_def)
  then have ne: "data \<noteq> []" by auto
  have "concat [take 10 data, drop 10 data @ bytes ''$''] = data @ bytes ''$''" by simp
  then have rem: "remaining s (data @ bytes ''$'')"
    by (simp add: s_def EStream_fd_def remaining_def es_inv_def pending_def chunks_ok_def len ne)
  have del: "generator_delete ''keys'' False 43981 = Inr (Some data)"
    by (simp add: generator_delete_def valToHex_string flush_store_def data_def)
  have "generator_new (Some s) = Inr 43981"
    by (rule conjunct1 [OF key_store_roundtrip [OF del _ rem]]) simp
  moreover have "hex_string (Suc (Suc (Suc (Suc 0)))) 43981 = bytes ''ABCD''" by (simp add: hex_digit_def)
  moreover have "Suc (Suc (Suc (Suc 0))) = 4" by simp
  moreover have "\<not> isl (EStream_fd 3 10 [Some (take 10 data), Some (drop 10 data @ bytes ''$'')])"
    by (simp add: EStream_fd_def)
  ultimately show ?thesis by (simp only: Let_def data_def s_def simp_thms)
qed

section \<open>The shape of version 7\<close>

text \<open>
  The selections so far: distinct, with the two fixed ones forced at the end; a selection of the
  seconds is 16 digits, any other 8.
\<close>

definition v7_inv :: "nat \<Rightarrow> nat \<Rightarrow> nat list \<Rightarrow> byte list \<Rightarrow> bool" where
  "v7_inv num i sel data \<longleftrightarrow> distinct sel \<and> length sel = i \<and>
     (num - 1 \<le> i \<longrightarrow> 0 \<in> set sel) \<and> (num \<le> i \<longrightarrow> 1 \<in> set sel) \<and>
     length data = 8 * i + (if 0 \<in> set sel then 8 else 0)"

lemma draw_new_fresh: "draw_new sel ds = Some (k, ds') \<Longrightarrow> k \<notin> set sel"
  by (induction ds) (auto split: if_splits)

lemma select_one_fresh:
  "select_one num i sel ds = Some (k, ds') \<Longrightarrow>
    k \<notin> set sel \<and> (num - 2 \<le> i \<longrightarrow> 0 \<in> set sel \<or> k = 0) \<and>
    (num - 2 \<le> i \<longrightarrow> 0 \<in> set sel \<longrightarrow> 1 \<in> set sel \<or> k = 1)"
  unfolding select_one_def by (auto split: if_splits dest: draw_new_fresh)

lemma v7_loop_shape:
  assumes "v7_loop n num i rnd sec nsec sel draws data = Some out" "v7_inv num i sel data"
    "num = n + i" "2 \<le> num"
  shows "\<exists>data'. out = Inr data' \<and> length data' = 8 * num + 8"
  using assms
proof (induction n arbitrary: i sel draws data)
  case 0
  then show ?case by (auto simp: v7_inv_def)
next
  case (Suc n)
  obtain k draws' where k: "select_one num i sel draws = Some (k, draws')"
    using Suc.prems(1) by (auto split: option.splits)
  note fresh = select_one_fresh [OF k]
  define part where "part = (if k = 0 then sec XOR (mask_loop 64 sec 0 True AND
      (push_bit 32 (rnd (2 * i)) OR rnd (2 * i + 1) mod 2 ^ 32))
    else if k = 1 then nsec mod 2 ^ 32 else rnd (2 * i) mod 2 ^ 32)"
  define data' where "data' = hex_string (if k = 0 then 16 else 8) part @ data"
  have "v7_loop n num (Suc i) rnd sec nsec (sel @ [k]) draws' data' = Some out"
    using Suc.prems(1) k by (auto simp: valToHex_string data'_def part_def split: if_splits)
  moreover have "v7_inv num (Suc i) (sel @ [k]) data'"
    using Suc.prems(2-4) fresh unfolding v7_inv_def data'_def by auto
  ultimately show ?case by (rule Suc.IH) (use Suc.prems in simp_all)
qed

lemma v7_next_length:
  "v7_next n rnd sec nsec draws = Some out \<Longrightarrow> \<exists>data. out = Inr data \<and> length data = 8 * n + 24"
  unfolding v7_next_def using v7_loop_shape [of "2 + n" "2 + n" 0 rnd sec nsec "[]" draws "[]" out]
  by (auto simp: v7_inv_def)

end
