(* ===== verification/Parser_Run.thy ===== *)
theory Parser_Run
  imports Byte_EStream "HOL-Library.Sublist"
begin

text \<open>
  Recursive descent over a byte stream, as lib/string_format.cpp, lib/ecal.cpp and
  lib/parser/json use it: a parser is a function on the stream, sequenced by \<open>bindF\<close>; a result of
  \<open>None\<close> is a run that does not end. \<open>takes\<close> and \<open>ok\<close> are the two ways to reason about a run by
  the bytes that remain: the first gives its result, the second that it ends. \<open>advances\<close> says that
  a parser ends on every stream.
\<close>

section \<open>Parsers\<close>

type_synonym 'a parser = "estream \<Rightarrow> ('a res \<times> estream) option"

definition bindF :: "'a parser \<Rightarrow> ('a \<Rightarrow> 'b parser) \<Rightarrow> 'b parser" where
  "bindF m f s =
     (case m s of
        None \<Rightarrow> None
      | Some (Inl e, s') \<Rightarrow> Some (Inl e, s')
      | Some (Inr x, s') \<Rightarrow> f x s')"

definition liftF :: "'a res \<Rightarrow> 'a parser" where
  "liftF r s = Some (r, s)"

definition throwF :: "string \<Rightarrow> 'a parser" where
  "throwF m = liftF (Inl (Runtime_Error m))"

definition getF :: "byte parser" where
  "getF s = Some (get s)"

definition peekF :: "byte parser" where
  "peekF s = Some (peek s)"

definition ungetF :: "unit parser" where
  "ungetF s = Some (Inr (), unget s)"

definition naturalF :: "nat parser" where
  "naturalF s = map_option (\<lambda>(r, t, s'). (map_sum id fst r, s')) (readNatural [] True s)"

abbreviation letter :: "char \<Rightarrow> byte" where
  "letter c \<equiv> of_char c"

text \<open>
  \<open>readDecimal\<close> of lib/estream/byteestream.cpp: the value and the number of digits before and
  behind the point.
\<close>

definition natural_countF :: "(nat \<times> nat) parser" where
  "natural_countF s = map_option (\<lambda>(r, t, s'). (r, s')) (readNatural [] True s)"

definition digitsF :: "criteria \<Rightarrow> 'd double_ops \<Rightarrow> ('d \<times> nat) parser" where
  "digitsF crit ops s =
     map_option (\<lambda>(r, t, s'). (r, s'))
       (map_read (collected_decimal ops) (streamCollect estream_ops crit None (Decimal_Collector []) s))"

definition consume_until :: "byte list \<Rightarrow> bool \<Rightarrow> unit parser" where
  "consume_until until consume =
     (if until \<noteq> [] \<and> consume then bindF getF (\<lambda>_. liftF (Inr ())) else liftF (Inr ()))"

definition readDecimal :: "'d double_ops \<Rightarrow> byte list \<Rightarrow> bool \<Rightarrow> ('d \<times> nat \<times> nat) parser" where
  "readDecimal ops until consume =
     bindF natural_countF (\<lambda>(v, n).
     bindF peekF (\<lambda>c.
       if c \<noteq> letter CHR ''.''
       then bindF (consume_until until consume) (\<lambda>_. liftF (Inr (dbl_of_nat ops v, n, 0)))
       else bindF getF (\<lambda>_.
         bindF (digitsF (if until = [] then ByteIsCharClassCriteria DIGIT_CLASS
                         else until_criteria until False) ops) (\<lambda>(d, m).
         bindF (if until = [] then liftF (Inr ()) else consume_until until consume) (\<lambda>_.
         liftF (Inr (dbl_add ops (dbl_of_nat ops v) d, n, m)))))))"

definition readDecimal_n :: "'d double_ops \<Rightarrow> nat \<Rightarrow> ('d \<times> nat \<times> nat) parser" where
  "readDecimal_n ops n =
     (if ARBITRARY_LIMIT_BECAUSE_DUMB < n
      then throwF (''You're reading more than the limit specified... '' @
             ''Read less, or you know what, don't read at all.'')
      else bindF natural_countF (\<lambda>(v, num_natural_digits).
        bindF (if n \<le> num_natural_digits then liftF (Inr True)
               else bindF peekF (\<lambda>c. liftF (Inr (c \<noteq> letter CHR ''.'')))) (\<lambda>whole.
        if whole then liftF (Inr (dbl_of_nat ops v, num_natural_digits, 0))
        else bindF getF (\<lambda>_. let num_to_read = n - num_natural_digits - 1 in
          bindF (if 0 < num_to_read then digitsF (size_criteria num_to_read) ops
                 else liftF (Inr (dbl_of_int ops 0, 0))) (\<lambda>(d, m).
          liftF (Inr (dbl_add ops (dbl_of_nat ops v) d, num_natural_digits, m)))))))"

definition readF :: "byte list \<Rightarrow> reader_task option \<Rightarrow> byte list parser" where
  "readF until task s = map_option (\<lambda>(r, t, s'). (r, s')) (read_until until task True s)"

text \<open>Parsers with loops are partial functions; sequencing is monotone.\<close>

lemma bindF_mono [partial_function_mono]:
  fixes B :: "('f \<Rightarrow> 'g option) \<Rightarrow> 'a parser" and C :: "'a \<Rightarrow> ('f \<Rightarrow> 'g option) \<Rightarrow> 'b parser"
  assumes "\<And>t. mono_option (\<lambda>f. B f t)" and "\<And>x t. mono_option (\<lambda>f. C x f t)"
  shows "mono_option (\<lambda>f. bindF (B f) (\<lambda>x. C x f) s)"
proof (rule monotoneI)
  fix f g :: "'f \<Rightarrow> 'g option"
  assume fg: "fun_ord option_ord f g"
  have B: "option_ord (B f s) (B g s)" by (rule monotoneD [of _ _ _ f g]) (rule assms(1), rule fg)
  have C: "option_ord (C x f t) (C x g t)" for x t by (rule monotoneD [of _ _ _ f g]) (rule assms(2), rule fg)
  show "option_ord (bindF (B f) (\<lambda>x. C x f) s) (bindF (B g) (\<lambda>x. C x g) s)"
  proof (cases "B f s = None")
    case False
    then have same: "B f s = B g s" using B False unfolding flat_ord_def by blast
    obtain r t where r: "B g s = Some (r, t)" using False same by (metis not_None_eq surj_pair)
    show ?thesis
    proof (cases r)
      case (Inr x)
      then show ?thesis using C [of x t] unfolding bindF_def same r by simp
    qed (simp add: bindF_def same r flat_ord_def)
  qed (simp add: bindF_def flat_ord_def)
qed

lemma if_app_mono [partial_function_mono]:
  "mono_option (\<lambda>f. A f s) \<Longrightarrow> mono_option (\<lambda>f. B f s) \<Longrightarrow> mono_option (\<lambda>f. (if b then A f else B f) s)"
  by (cases b) simp_all

section \<open>What a parser takes\<close>

text \<open>
  \<open>takes p r xs ys\<close>: on every stream with the remaining bytes \<open>xs\<close> the parser gives \<open>r\<close> and
  leaves \<open>ys\<close>.
\<close>

definition takes :: "'a parser \<Rightarrow> 'a res \<Rightarrow> byte list \<Rightarrow> byte list \<Rightarrow> bool" where
  "takes p r xs ys \<longleftrightarrow> (\<forall>s. remaining s xs \<longrightarrow> (\<exists>s'. p s = Some (r, s') \<and> remaining s' ys))"

named_theorems takes_intro \<open>what the elementary parsers take\<close>

lemma takes_bind:
  assumes "takes m (Inr v) xs ys" "takes (f v) r ys zs"
  shows "takes (bindF m f) r xs zs"
  unfolding takes_def
proof (intro allI impI)
  fix s
  assume "remaining s xs"
  then obtain s1 where "m s = Some (Inr v, s1)" "remaining s1 ys"
    using assms(1) unfolding takes_def by blast
  then show "\<exists>s'. bindF m f s = Some (r, s') \<and> remaining s' zs"
    using assms(2) unfolding takes_def by (simp add: bindF_def)
qed

lemma takes_bind_error: "takes m (Inl e) xs ys \<Longrightarrow> takes (bindF m f) (Inl e) xs ys"
  unfolding takes_def by (fastforce simp: bindF_def)

lemma takes_get [takes_intro]: "takes getF (Inr c) (c # xs) xs"
  using get_remaining by (auto simp: takes_def getF_def)

lemma takes_peek [takes_intro]: "takes peekF (Inr c) (c # xs) (c # xs)"
  using peek_remaining by (fastforce simp: takes_def peekF_def)

lemma takes_lift [takes_intro]: "takes (liftF r) r xs xs"
  by (simp add: takes_def liftF_def)

lemma takes_throw [takes_intro]: "takes (throwF m) (Inl (Runtime_Error m)) xs xs"
  by (simp add: takes_def throwF_def liftF_def)

lemma takes_run:
  assumes "\<exists>t. collect_bytes crit task coll xs = (res, t, ys)"
    and "\<And>s. p s = map_option (\<lambda>(r, t, s'). (r, s')) (map_read f (streamCollect estream_ops crit task coll s))"
  shows "takes p (map_sum id f res) xs ys"
  unfolding takes_def
proof (intro allI impI)
  fix s
  assume "remaining s xs"
  from assms(1) obtain t where "collect_bytes crit task coll xs = (res, t, ys)" by blast
  from run_remaining [OF \<open>remaining s xs\<close> this, of f]
  show "\<exists>s'. p s = Some (map_sum id f res, s') \<and> remaining s' ys" by (auto simp: assms(2))
qed

section \<open>Runs that end\<close>

text \<open>
  \<open>ok P m\<close>: the run \<open>m\<close> ends, and if it returns a value, \<open>P\<close> holds of it and of the bytes that
  remain. The rules follow the parsers; \<open>ok_look\<close> is for a byte taken with a look at the next.
\<close>

definition ok :: "('a \<Rightarrow> byte list \<Rightarrow> bool) \<Rightarrow> ('a res \<times> estream) option \<Rightarrow> bool" where
  "ok P m \<longleftrightarrow> (\<exists>r s'. m = Some (r, s') \<and> (\<forall>v. r = Inr v \<longrightarrow> (\<exists>ys. remaining s' ys \<and> P v ys)))"

lemma ok_bind:
  assumes "ok Q (m s)" and "\<And>v s' ys. remaining s' ys \<Longrightarrow> Q v ys \<Longrightarrow> ok P (f v s')"
  shows "ok P (bindF m f s)"
proof -
  obtain r s' where r: "m s = Some (r, s')" "\<And>v. r = Inr v \<Longrightarrow> \<exists>ys. remaining s' ys \<and> Q v ys"
    using assms(1) by (auto simp: ok_def)
  show ?thesis
  proof (cases r)
    case (Inl e)
    then show ?thesis using r(1) by (simp add: bindF_def ok_def)
  next
    case (Inr v)
    then have "ok P (f v s')" using r(2) assms(2) by blast
    then show ?thesis using r(1) Inr by (simp add: bindF_def)
  qed
qed

lemma get_end: "remaining s [] \<Longrightarrow> \<exists>s'. get s = (Inl no_more_data, s')"
  using es.peek_end [of s] by (auto simp: estream_ops_def get_def)

lemma ok_get:
  assumes "remaining s xs"
    and "\<And>c ys s'. xs = c # ys \<Longrightarrow> get s = (Inr c, s') \<Longrightarrow> remaining s' ys \<Longrightarrow> ok P (f c s')"
  shows "ok P (bindF getF f s)"
proof (cases xs)
  case Nil
  then show ?thesis using assms(1) get_end [of s] by (auto simp: bindF_def getF_def ok_def)
next
  case (Cons c ys)
  then obtain s' where s': "get s = (Inr c, s')" "remaining s' ys" using assms(1) get_remaining by blast
  then show ?thesis using assms(2) [OF Cons s'] by (simp add: bindF_def getF_def)
qed

lemma ok_peek:
  assumes "remaining s xs"
    and "\<And>c ys s'. xs = c # ys \<Longrightarrow> peek s = (Inr c, s') \<Longrightarrow> remaining s' xs \<Longrightarrow> ok P (f c s')"
  shows "ok P (bindF peekF f s)"
proof (cases xs)
  case Nil
  then show ?thesis using assms(1) es.peek_end [of s]
    by (auto simp: estream_ops_def bindF_def peekF_def ok_def)
next
  case (Cons c ys)
  then obtain s' where s': "peek s = (Inr c, s')" "remaining s' (c # ys)" using assms(1) peek_remaining by blast
  then show ?thesis using assms(2) [OF Cons s'(1)] Cons by (simp add: bindF_def peekF_def)
qed

lemma ok_lift: "remaining s xs \<Longrightarrow> (\<And>v. r = Inr v \<Longrightarrow> P v xs) \<Longrightarrow> ok P (liftF r s)"
  by (auto simp: ok_def liftF_def)

lemma ok_throw [simp]: "ok P (throwF m s)"
  by (simp add: ok_def throwF_def liftF_def)

lemma ok_lift_bind:
  assumes "remaining s xs" "\<And>v. r = Inr v \<Longrightarrow> ok P (f v s)"
  shows "ok P (bindF (liftF r) f s)"
  using assms(2) by (cases r) (simp_all add: ok_def bindF_def liftF_def)

lemma ok_unget: "ok P (f () (unget s)) \<Longrightarrow> ok P (bindF ungetF f s)"
  by (simp add: bindF_def ungetF_def)

lemma ok_look:
  assumes "remaining s xs"
    and "\<And>c n ys s'. xs = c # n # ys \<Longrightarrow> remaining s' (n # ys) \<Longrightarrow> remaining (unget s') xs \<Longrightarrow>
      ok P (f c c n s')"
  shows "ok P (bindF peekF (\<lambda>p. bindF getF (\<lambda>c. bindF peekF (\<lambda>n. f p c n))) s)"
proof (rule ok_peek [OF assms(1)])
  fix p ys s1
  assume p: "xs = p # ys" "remaining s1 xs"
  show "ok P (bindF getF (\<lambda>c. bindF peekF (f p c)) s1)"
  proof (rule ok_get [OF p(2)])
    fix c ys' s2
    assume c: "xs = c # ys'" "get s1 = (Inr c, s2)" "remaining s2 ys'"
    show "ok P (bindF peekF (f p c) s2)"
    proof (rule ok_peek [OF c(3)])
      fix n zs s3
      assume n: "ys' = n # zs" "peek s2 = (Inr n, s3)" "remaining s3 ys'"
      have "remaining (unget s3) xs"
        using unget_after_peek [of s1 c n zs s2 s3] p(2) c n by simp
      then show "ok P (f p c n s3)"
        using assms(2) [of c n zs s3] p(1) c(1) n by simp
    qed
  qed
qed

lemma natural_ends:
  assumes "remaining s xs"
  shows "\<exists>r s'. naturalF s = Some (r, s') \<and> (\<forall>v. r = Inr v \<longrightarrow>
    (\<exists>ds y ys. xs = ds @ y # ys \<and> digits ds \<and> \<not> isDigit y \<and> length ds \<le> 10 \<and> v = decimal 0 ds \<and>
      remaining s' (y # ys)))"
proof -
  define ds where "ds = takeWhile isDigit xs"
  define zs where "zs = dropWhile isDigit xs"
  have ds: "xs = ds @ zs" "digits ds" unfolding ds_def zs_def by (auto dest: set_takeWhileD)
  have run: "\<exists>s'. naturalF s = Some (map_sum id fst (map_sum id collected_natural res), s') \<and> remaining s' ys"
    if "collect_bytes (ByteIsCharClassCriteria DIGIT_CLASS) None (Natural_Collector 0 0) xs = (res, t, ys)"
    for res t ys
    using run_remaining [OF assms that, of collected_natural]
    by (auto simp: naturalF_def readNatural_def)
  show ?thesis
  proof (cases "length ds \<le> 10")
    case True
    show ?thesis
    proof (cases zs)
      case Nil
      then show ?thesis using run [of "Inl no_more_data" None "[]"] collect_digits(1) [OF ds(2) True] ds(1) by auto
    next
      case (Cons y ys)
      then have "\<not> isDigit y" by (metis zs_def hd_dropWhile list.distinct(1) list.sel(1))
      then have "collect_bytes (ByteIsCharClassCriteria DIGIT_CLASS) None (Natural_Collector 0 0) xs =
          (Inr (Natural_Collector (length ds) (decimal 0 ds)), None, y # ys)"
        using collect_digits(2) [OF ds(2) True, of y 0 0 ys] ds(1) Cons by simp
      from run [OF this] obtain s' where "naturalF s = Some (Inr (decimal 0 ds), s')" "remaining s' (y # ys)"
        by auto
      then show ?thesis using ds True Cons \<open>\<not> isDigit y\<close> by blast
    qed
  next
    case False
    then obtain as b bs where as: "ds = as @ b # bs" "length as = 10"
      using id_take_nth_drop [of 10 ds] by (metis length_take min.absorb2 not_le less_imp_le)
    then have "collect_bytes (ByteIsCharClassCriteria DIGIT_CLASS) None (Natural_Collector 0 0) xs =
        (Inl (Runtime_Error digit_message), None, bs @ zs)"
      using collect_digits(3) [of as b 0 0 "bs @ zs"] ds by simp
    from run [OF this] show ?thesis by auto
  qed
qed

lemma ok_natural:
  assumes "remaining s xs"
    and "\<And>ds y ys s'. xs = ds @ y # ys \<Longrightarrow> digits ds \<Longrightarrow> \<not> isDigit y \<Longrightarrow> remaining s' (y # ys) \<Longrightarrow>
      ok P (f (decimal 0 ds) s')"
  shows "ok P (bindF naturalF f s)"
proof (rule ok_bind [where Q = "\<lambda>v zs. \<exists>ds y ys. zs = y # ys \<and> xs = ds @ y # ys \<and> digits ds \<and>
    \<not> isDigit y \<and> v = decimal 0 ds"])
  show "ok (\<lambda>v zs. \<exists>ds y ys. zs = y # ys \<and> xs = ds @ y # ys \<and> digits ds \<and> \<not> isDigit y \<and> v = decimal 0 ds)
    (naturalF s)"
    using natural_ends [OF assms(1)] unfolding ok_def by blast
qed (use assms(2) in blast)

abbreviation fits :: "nat \<Rightarrow> 'a \<Rightarrow> byte list \<Rightarrow> bool" where
  "fits n \<equiv> \<lambda>_ ys. length ys \<le> n"

lemma ok_mono: "ok (fits m) r \<Longrightarrow> m \<le> n \<Longrightarrow> ok (fits n) r"
  unfolding ok_def by clarsimp (meson le_trans)

lemmas ok_steps = ok_get ok_peek ok_natural ok_lift_bind ok_lift ok_throw

section \<open>Parsers that advance\<close>

text \<open>A parser that ends on every stream and leaves a suffix of the remaining bytes.\<close>

definition advances :: "'a parser \<Rightarrow> bool" where
  "advances p \<longleftrightarrow> (\<forall>s xs. remaining s xs \<longrightarrow> ok (\<lambda>_ ys. suffix ys xs) (p s))"

named_theorems advancing \<open>parsers that advance\<close>

lemma ok_weaken: "ok Q m \<Longrightarrow> (\<And>v ys. Q v ys \<Longrightarrow> P v ys) \<Longrightarrow> ok P m"
  unfolding ok_def by blast

lemma advances_bind [advancing]:
  assumes "advances m" "\<And>v. advances (f v)"
  shows "advances (bindF m f)"
  unfolding advances_def
proof (intro allI impI)
  fix s xs
  assume "remaining s xs"
  then have "ok (\<lambda>_ ys. suffix ys xs) (m s)" using assms(1) by (simp add: advances_def)
  then show "ok (\<lambda>_ ys. suffix ys xs) (bindF m f s)"
  proof (rule ok_bind)
    fix v s' ys
    assume "remaining s' ys" "suffix ys xs"
    then show "ok (\<lambda>_ zs. suffix zs xs) (f v s')"
      using assms(2) [of v] unfolding advances_def by (blast intro: ok_weaken suffix_order.trans)
  qed
qed

lemma advances_lift [advancing]: "advances (liftF r)"
  by (auto simp: advances_def intro: ok_lift)

lemma advances_throw [advancing]: "advances (throwF m)"
  by (simp add: advances_def)

lemma ok_suffix: "ok (\<lambda>_ ys. suffix ys us) m \<Longrightarrow> suffix us xs \<Longrightarrow> ok (\<lambda>_ ys. suffix ys xs) m"
  by (erule ok_weaken) (erule suffix_order.trans)

lemma ok_bound: "ok P (bindF p (\<lambda>x. liftF (Inr x)) s) \<longleftrightarrow> ok P (p s)"
  by (auto simp: bindF_def liftF_def ok_def split: option.splits sum.splits)

lemma advances_get [advancing]: "advances getF"
  unfolding advances_def
proof (intro allI impI)
  fix s xs
  assume "remaining s xs"
  then have "ok (\<lambda>_ ys. suffix ys xs) (bindF getF (\<lambda>x. liftF (Inr x)) s)"
    by (rule ok_get) (auto intro!: ok_lift simp: suffix_Cons)
  then show "ok (\<lambda>_ ys. suffix ys xs) (getF s)" by (simp only: ok_bound)
qed

lemma advances_peek [advancing]: "advances peekF"
  unfolding advances_def
proof (intro allI impI)
  fix s xs
  assume "remaining s xs"
  then have "ok (\<lambda>_ ys. suffix ys xs) (bindF peekF (\<lambda>x. liftF (Inr x)) s)"
    by (rule ok_peek) (auto intro!: ok_lift)
  then show "ok (\<lambda>_ ys. suffix ys xs) (peekF s)" by (simp only: ok_bound)
qed

lemma advances_natural [advancing]: "advances naturalF"
  unfolding advances_def
proof (intro allI impI)
  fix s xs
  assume "remaining s xs"
  then have "ok (\<lambda>_ ys. suffix ys xs) (bindF naturalF (\<lambda>x. liftF (Inr x)) s)"
    by (rule ok_natural) (auto intro!: ok_lift simp: suffix_def)
  then show "ok (\<lambda>_ ys. suffix ys xs) (naturalF s)" by (simp only: ok_bound)
qed

lemma collect_list_suffix: "collect_list xs t r = (out, t', r', ys) \<Longrightarrow> suffix ys xs"
proof (induction xs arbitrary: t r)
  case (Cons x xs)
  then show ?case by (auto simp: Let_def suffix_Cons split: prod.splits sum.splits if_splits)
qed simp

lemma advances_run:
  assumes "\<And>s. p s = map_option (\<lambda>(r, t, s'). (r, s')) (map_read f (streamCollect estream_ops crit task coll s))"
  shows "advances p"
  unfolding advances_def
proof (intro allI impI)
  fix s xs
  assume r: "remaining s xs"
  obtain res t ys where c: "collect_bytes crit task coll xs = (res, t, ys)" using prod_cases3 by blast
  then have "suffix ys xs"
    by (auto simp: collect_bytes_def dest: collect_list_suffix split: prod.splits)
  moreover obtain s' where "p s = Some (map_sum id f res, s')" "remaining s' ys"
    using run_remaining [OF r c, of f] assms by auto
  ultimately show "ok (\<lambda>_ ys. suffix ys xs) (p s)" by (auto simp: ok_def)
qed

lemma advances_runs [advancing]:
  "advances (digitsF crit ops)" "advances (readF until task)"
  "advances natural_countF"
  by (rule advances_run, simp add: digitsF_def,
      rule advances_run, simp add: readF_def read_until_def,
      rule advances_run, simp add: natural_countF_def readNatural_def)

lemma advances_if [advancing]: "advances p \<Longrightarrow> advances q \<Longrightarrow> advances (if b then p else q)"
  by simp

lemma advances_split [advancing]: "(\<And>a b. advances (f a b)) \<Longrightarrow> advances (case x of (a, b) \<Rightarrow> f a b)"
  by (cases x) simp

lemma advances_decimal [advancing]: "advances (readDecimal ops until consume)"
  unfolding readDecimal_def consume_until_def by (intro advancing)

lemma advancesD: "advances p \<Longrightarrow> remaining s xs \<Longrightarrow> ok (\<lambda>_ ys. suffix ys xs) (p s)"
  by (simp add: advances_def)

end
