(* ===== verification/String_Number.thy ===== *)
theory String_Number
  imports Stream_Types
begin

text \<open>
  The conversion of integers to text of lib/string_utils.h. A 64-bit number is a natural below
  \<open>2 ^ 64\<close>, a \<open>char\<close> a byte read with \<open>sint\<close> where the code compares it. The three loops of
  \<open>numToString\<close> (count the digits, write a digit, write the zeros behind it) are functions with a
  measure; \<open>fixed_digits\<close> and \<open>digits_of\<close> are what they compute.
\<close>

section \<open>Options\<close>

record format_opts =
  fo_base :: nat
  fo_width :: nat
  fo_precision :: nat
  fo_exponential :: int
  fo_exponential_designator :: byte
  fo_upper :: bool
  fo_sign_mask :: nat
  fo_is_negative :: bool

definition NO_SIGN :: nat where "NO_SIGN = 0"
definition SIGN_FOR_NEGATIVES :: nat where "SIGN_FOR_NEGATIVES = 1"
definition SIGN_FOR_POSITIVES :: nat where "SIGN_FOR_POSITIVES = 2"
definition UINT8_MAX :: nat where "UINT8_MAX = 255"

definition default_opts :: format_opts where
  "default_opts =
     \<lparr>fo_base = 10, fo_width = UINT8_MAX, fo_precision = 6, fo_exponential = 0,
      fo_exponential_designator = 69, fo_upper = True, fo_sign_mask = SIGN_FOR_NEGATIVES,
      fo_is_negative = False\<rparr>"

section \<open>Integers to text\<close>

definition sign_text :: "format_opts \<Rightarrow> byte list" where
  "sign_text opts =
     (if fo_is_negative opts
      then (if fo_sign_mask opts AND SIGN_FOR_NEGATIVES > 0 then bytes ''-'' else [])
      else (if fo_sign_mask opts AND SIGN_FOR_POSITIVES > 0 then bytes ''+'' else []))"

text \<open>
  The loops run with base 10 or 16 and start with divisor 1; the conditions on the base and the
  divisor are there for the measure.
\<close>

function count_digits :: "nat \<Rightarrow> nat \<Rightarrow> nat \<Rightarrow> nat \<Rightarrow> nat \<times> nat" where
  "count_digits num base divisor digit_count =
     (if 1 < base \<and> 0 < divisor \<and> base \<le> num div divisor
      then count_digits num base (divisor * base) (Suc digit_count)
      else (divisor, digit_count))"
  by pat_completeness auto
termination
proof (relation "measure (\<lambda>(num, base, divisor, c). num - divisor)")
  fix num base divisor c :: nat
  assume a: "1 < base \<and> 0 < divisor \<and> base \<le> num div divisor"
  then have "divisor * base \<le> divisor * (num div divisor)" by simp
  then have "divisor * base \<le> num" using le_trans times_div_less_eq_dividend by blast
  moreover have "divisor < divisor * base" using a by simp
  ultimately have "num - divisor * base < num - divisor" by (meson diff_less_mono2 less_le_trans)
  then show "((num, base, divisor * base, Suc c), num, base, divisor, c) \<in>
      measure (\<lambda>(num, base, divisor, c). num - divisor)" by simp
qed simp

declare count_digits.simps [simp del]

definition digit_text :: "format_opts \<Rightarrow> byte \<Rightarrow> byte list" where
  "digit_text opts digit =
     (if sint digit \<le> 9 then [digit + 48]
      else if fo_base opts = 16 \<and> sint digit \<le> 15
        then (if fo_upper opts then [digit - 10 + 65] else [digit - 10 + 97])
      else [])"

text \<open>\<open>digit * divisor\<close> in \<open>size_t\<close>: the sign of the \<open>char\<close> is extended.\<close>

definition char_times :: "byte \<Rightarrow> nat \<Rightarrow> nat" where
  "char_times digit divisor = mul64 (nat (sint digit mod 2 ^ 64)) divisor"

function zeros_loop :: "nat \<Rightarrow> nat \<Rightarrow> nat \<Rightarrow> byte list \<Rightarrow> nat \<times> byte list" where
  "zeros_loop base diff divisor s =
     (if 1 < base \<and> diff < divisor div base
      then zeros_loop base diff (divisor div base) (s @ bytes ''0'')
      else (divisor, s))"
  by pat_completeness auto
termination
proof (relation "measure (\<lambda>(base, diff, divisor, s). divisor)")
  fix base diff divisor :: nat and s :: "byte list"
  assume a: "1 < base \<and> diff < divisor div base"
  then have "0 < divisor" by (cases divisor) auto
  then show "((base, diff, divisor div base, s @ bytes ''0''), base, diff, divisor, s) \<in>
      measure (\<lambda>(base, diff, divisor, s). divisor)" using a by simp
qed simp

declare zeros_loop.simps [simp del]

definition digit_step :: "format_opts \<Rightarrow> nat \<Rightarrow> nat \<Rightarrow> nat \<Rightarrow> nat \<Rightarrow> byte list \<Rightarrow> nat \<times> nat \<times> byte list" where
  "digit_step opts start_index i num divisor s =
     (let digit = of_nat (num div divisor);
          s1 = (if start_index \<le> i then s @ digit_text opts digit else s);
          diff = sub64 num (char_times digit divisor)
      in if diff < divisor div fo_base opts
         then (let (d, s2) = zeros_loop (fo_base opts) diff divisor s1 in (diff, d div fo_base opts, s2))
         else (diff, divisor div fo_base opts, s1))"

lemma zeros_loop_less: "fst (zeros_loop base diff divisor s) \<le> divisor"
proof (induction base diff divisor s rule: zeros_loop.induct)
  case (1 base diff divisor s)
  show ?case
  proof (cases "1 < base \<and> diff < divisor div base")
    case True
    have "fst (zeros_loop base diff divisor s) =
        fst (zeros_loop base diff (divisor div base) (s @ bytes ''0''))"
      by (subst zeros_loop.simps) (simp only: True simp_thms if_True)
    also have "\<dots> \<le> divisor div base" by (rule "1.IH" [OF True])
    also have "\<dots> \<le> divisor" by simp
    finally show ?thesis .
  next
    case False
    show ?thesis by (subst zeros_loop.simps) (simp only: False if_False fst_conv order_refl)
  qed
qed

lemma digit_step_less:
  assumes "1 < fo_base opts" "0 < divisor" "digit_step opts start i num divisor s = (diff, d, s')"
  shows "d < divisor"
proof -
  define digit :: byte where "digit = of_nat (num div divisor)"
  define s1 where "s1 = (if start \<le> i then s @ digit_text opts digit else s)"
  define df where "df = sub64 num (char_times digit divisor)"
  have "digit_step opts start i num divisor s = (if df < divisor div fo_base opts
      then (case zeros_loop (fo_base opts) df divisor s1 of (d, s2) \<Rightarrow> (df, d div fo_base opts, s2))
      else (df, divisor div fo_base opts, s1))"
    by (simp only: digit_step_def Let_def digit_def s1_def df_def)
  then have "d = fst (zeros_loop (fo_base opts) df divisor s1) div fo_base opts \<or>
      d = divisor div fo_base opts"
    using assms(3) by (auto split: if_splits prod.splits)
  then have "d \<le> divisor div fo_base opts" using zeros_loop_less div_le_mono by blast
  also have "\<dots> < divisor" using assms(1,2) by simp
  finally show ?thesis .
qed

function digits_loop :: "format_opts \<Rightarrow> nat \<Rightarrow> nat \<Rightarrow> nat \<Rightarrow> nat \<Rightarrow> byte list \<Rightarrow> byte list" where
  "digits_loop opts start_index i num divisor s =
     (if 1 < fo_base opts \<and> 0 < divisor
      then (case digit_step opts start_index i num divisor s of
          (diff, divisor', s') \<Rightarrow> digits_loop opts start_index (Suc i) diff divisor' s')
      else s)"
  by pat_completeness auto
termination
  by (relation "measure (\<lambda>(opts, start, i, num, divisor, s). divisor)")
    (auto intro: digit_step_less [unfolded One_nat_def] split: prod.splits)

declare digits_loop.simps [simp del]

definition numToString :: "nat \<Rightarrow> format_opts \<Rightarrow> byte list res" where
  "numToString num opts =
     (if fo_base opts \<noteq> 10 \<and> fo_base opts \<noteq> 16 then Inl (Runtime_Error ''Base not supported.'')
      else
        let s = sign_text opts @ (if fo_base opts = 16 then bytes ''0x'' else []);
            (divisor, digit_count) = count_digits num (fo_base opts) 1 1;
            pad = (fo_width opts \<noteq> UINT8_MAX \<and> digit_count < fo_width opts);
            s1 = (if pad then s @ replicate (fo_width opts - digit_count) 48 else s);
            start_index = (if \<not> pad \<and> fo_width opts < digit_count then digit_count - fo_width opts else 0)
        in Inr (digits_loop opts start_index 0 num divisor s1))"

text \<open>The negation of the smallest number overflows.\<close>

definition numToStringSigned :: "64 word \<Rightarrow> format_opts \<Rightarrow> byte list res" where
  "numToStringSigned num opts =
     (if sint num < 0
      then (if sint num = - (2 ^ 63) then Inl Undefined
            else numToString (nat (- sint num)) (opts\<lparr>fo_is_negative := True\<rparr>))
      else numToString (nat (sint num)) opts)"

definition hexToChar :: "byte list \<Rightarrow> byte res" where
  "hexToChar buffer =
     for_from 0 2 (\<lambda>i ret. if i < length buffer then Inr (push_bit 4 ret OR buffer ! i) else Inl Out_Of_Range) 0"

section \<open>What the loops compute\<close>

text \<open>
  \<open>digits_of\<close> is the usual notation of a number, \<open>fixed_digits\<close> its last digits with leading zeros.
\<close>

function digits_of :: "format_opts \<Rightarrow> nat \<Rightarrow> byte list" where
  "digits_of opts n =
     (if fo_base opts \<le> 1 \<or> n < fo_base opts then digit_text opts (of_nat n)
      else digits_of opts (n div fo_base opts) @ digit_text opts (of_nat (n mod fo_base opts)))"
  by pat_completeness auto
termination
  by (relation "measure snd") (auto simp: not_le not_less)

declare digits_of.simps [simp del]

primrec fixed_digits :: "format_opts \<Rightarrow> nat \<Rightarrow> nat \<Rightarrow> byte list" where
  "fixed_digits opts 0 n = []"
| "fixed_digits opts (Suc k) n =
     digit_text opts (of_nat (n div fo_base opts ^ k)) @ fixed_digits opts k (n mod fo_base opts ^ k)"

definition base_ok :: "format_opts \<Rightarrow> bool" where
  "base_ok opts \<longleftrightarrow> fo_base opts = 10 \<or> fo_base opts = 16"

lemma base_bounds: "base_ok opts \<Longrightarrow> 1 < fo_base opts" "base_ok opts \<Longrightarrow> fo_base opts \<le> 16"
  by (auto simp: base_ok_def)

lemma fixed_digits_snoc:
  "0 < fo_base opts \<Longrightarrow> n < fo_base opts ^ Suc k \<Longrightarrow>
    fixed_digits opts (Suc k) n =
      fixed_digits opts k (n div fo_base opts) @ digit_text opts (of_nat (n mod fo_base opts))"
proof (induction k arbitrary: n)
  case (Suc k)
  let ?b = "fo_base opts"
  have lt: "n mod ?b ^ Suc k < ?b ^ Suc k" using Suc.prems(1) by (intro mod_less_divisor) simp
  have "fixed_digits opts (Suc (Suc k)) n =
      digit_text opts (of_nat (n div ?b ^ Suc k)) @ fixed_digits opts (Suc k) (n mod ?b ^ Suc k)"
    by (rule fixed_digits.simps)
  also have "fixed_digits opts (Suc k) (n mod ?b ^ Suc k) =
      fixed_digits opts k (n mod ?b ^ Suc k div ?b) @ digit_text opts (of_nat (n mod ?b ^ Suc k mod ?b))"
    by (rule Suc.IH [OF Suc.prems(1) lt])
  also have "n mod ?b ^ Suc k mod ?b = n mod ?b" by (simp add: mod_mod_cancel)
  also have "n mod ?b ^ Suc k div ?b = n div ?b mod ?b ^ k"
    using mod_mult2_eq [of n ?b "?b ^ k"] Suc.prems(1) by simp
  also have "n div ?b ^ Suc k = n div ?b div ?b ^ k" by (simp add: div_mult2_eq)
  finally show ?case by simp
qed simp

lemma fixed_digits_of:
  "1 < fo_base opts \<Longrightarrow> n < fo_base opts ^ Suc k \<Longrightarrow> k = 0 \<or> fo_base opts ^ k \<le> n \<Longrightarrow>
    fixed_digits opts (Suc k) n = digits_of opts n"
proof (induction k arbitrary: n)
  case 0
  then show ?case by (simp add: digits_of.simps [of opts n])
next
  case (Suc k)
  let ?b = "fo_base opts"
  have ge: "?b ^ Suc k \<le> n" using Suc.prems(3) by simp
  then have nb: "?b \<le> n" using Suc.prems(1) by (meson le_trans self_le_power zero_less_Suc less_imp_le)
  have "n div ?b < ?b ^ Suc k" using Suc.prems(1,2) by (simp add: less_mult_imp_div_less mult.commute)
  moreover have "k = 0 \<or> ?b ^ k \<le> n div ?b"
    using ge Suc.prems(1) by (simp add: less_eq_div_iff_mult_less_eq mult.commute)
  ultimately have "fixed_digits opts (Suc k) (n div ?b) = digits_of opts (n div ?b)"
    by (intro Suc.IH Suc.prems(1))
  moreover have "digits_of opts n = digits_of opts (n div ?b) @ digit_text opts (of_nat (n mod ?b))"
    using nb Suc.prems(1) by (subst digits_of.simps) simp
  moreover have "fixed_digits opts (Suc (Suc k)) n =
      fixed_digits opts (Suc k) (n div ?b) @ digit_text opts (of_nat (n mod ?b))"
    using Suc.prems(1,2) by (intro fixed_digits_snoc) simp_all
  ultimately show ?case by simp
qed

lemma count_digits_power:
  assumes "1 < base" "b ^ j \<le> num \<or> j = 0" "b = base"
  shows "\<exists>k. count_digits num base (b ^ j) (Suc j) = (base ^ k, Suc k) \<and> num < base ^ Suc k \<and>
    (k = 0 \<or> base ^ k \<le> num)"
  using assms
proof (induction "num - b ^ j" arbitrary: j rule: less_induct)
  case less
  show ?case
  proof (cases "base \<le> num div b ^ j")
    case True
    have pos: "0 < b ^ j" using less.prems by simp
    have le: "b ^ Suc j \<le> num"
      using True less.prems(3) pos by (simp add: less_eq_div_iff_mult_less_eq mult.commute)
    have "b ^ j < b ^ Suc j" using less.prems by simp
    then have "num - b ^ Suc j < num - b ^ j" using le by (meson diff_less_mono2 less_le_trans)
    from less.hyps [OF this less.prems(1)] le less.prems(3)
    obtain k where "count_digits num base (b ^ Suc j) (Suc (Suc j)) = (base ^ k, Suc k)"
      "num < base ^ Suc k" "k = 0 \<or> base ^ k \<le> num" by blast
    moreover have "count_digits num base (b ^ j) (Suc j) = count_digits num base (b ^ Suc j) (Suc (Suc j))"
      using True less.prems pos by (subst count_digits.simps) (simp add: mult.commute)
    ultimately show ?thesis by auto
  next
    case False
    then have "num < base ^ Suc j"
      using less.prems by (simp add: not_le less_mult_imp_div_less div_less_iff_less_mult mult.commute)
    moreover have "count_digits num base (b ^ j) (Suc j) = (base ^ j, Suc j)"
      using False less.prems by (subst count_digits.simps) simp
    ultimately show ?thesis using less.prems by auto
  qed
qed

lemma char_digit: "d < 16 \<Longrightarrow> sint (of_nat d :: byte) = int d"
proof -
  assume "d < 16"
  then have "d \<in> set [0..<16]" by simp
  moreover have "\<forall>d \<in> set [0..<16]. sint (of_nat d :: byte) = int d" by code_simp
  ultimately show ?thesis by blast
qed

lemma char_times_small: "d < 16 \<Longrightarrow> d * divisor < 2 ^ 64 \<Longrightarrow> char_times (of_nat d) divisor = d * divisor"
  by (simp add: char_times_def char_digit)

lemma digit_text_zero: "digit_text opts 0 = [48]"
  by (simp add: digit_text_def)

lemma fixed_digits_zeros:
  "0 < fo_base opts \<Longrightarrow> n < fo_base opts ^ j \<Longrightarrow> fixed_digits opts (i + j) n = replicate i 48 @ fixed_digits opts j n"
proof (induction i)
  case (Suc i)
  let ?b = "fo_base opts"
  have "?b ^ j \<le> ?b ^ (i + j)" using Suc.prems(1) by (intro power_increasing) simp_all
  then have "n < ?b ^ (i + j)" using Suc.prems(2) by simp
  then show ?case using Suc by (simp add: digit_text_zero)
qed simp

lemma zeros_loop_power:
  assumes "1 < base" "diff < base ^ k"
  shows "\<exists>j \<le> k. zeros_loop base diff (base ^ k) s = (base ^ j, s @ replicate (k - j) 48) \<and> diff < base ^ j"
  using assms(2)
proof (induction k arbitrary: s)
  case 0
  have "zeros_loop base diff (base ^ 0) s = (base ^ 0, s)"
    using assms(1) by (subst zeros_loop.simps) simp
  then show ?case using 0 by auto
next
  case (Suc k)
  show ?case
  proof (cases "diff < base ^ k")
    case True
    have div: "base ^ Suc k div base = base ^ k" using assms(1) by simp
    have "zeros_loop base diff (base ^ Suc k) s = zeros_loop base diff (base ^ k) (s @ bytes ''0'')"
      using True assms(1) div by (subst zeros_loop.simps) simp
    moreover from Suc.IH [OF True] obtain j where
      "j \<le> k" "zeros_loop base diff (base ^ k) (s @ bytes ''0'') =
        (base ^ j, (s @ bytes ''0'') @ replicate (k - j) 48)" "diff < base ^ j" by blast
    moreover have "[48] @ replicate (k - j) 48 = replicate (Suc k - j) (48 :: byte)"
      using calculation(2) by (simp add: Suc_diff_le)
    ultimately show ?thesis by (intro exI [of _ j]) simp
  next
    case False
    have "zeros_loop base diff (base ^ Suc k) s = (base ^ Suc k, s)"
      using False assms(1) by (subst zeros_loop.simps) simp
    then show ?thesis using Suc.prems by auto
  qed
qed

lemma digit_step_power:
  assumes "base_ok opts" "num < fo_base opts ^ Suc k" "num < 2 ^ 64" "start \<le> i"
  shows "digit_step opts start i num (fo_base opts ^ k) s =
    (let diff = num mod fo_base opts ^ k;
         s1 = s @ digit_text opts (of_nat (num div fo_base opts ^ k))
     in if diff < fo_base opts ^ k div fo_base opts
        then (let (d, s2) = zeros_loop (fo_base opts) diff (fo_base opts ^ k) s1
              in (diff, d div fo_base opts, s2))
        else (diff, fo_base opts ^ k div fo_base opts, s1))"
proof -
  let ?b = "fo_base opts" and ?d = "num div fo_base opts ^ k"
  have "?d < ?b" using assms(2) by (simp add: less_mult_imp_div_less)
  then have d: "?d < 16" using base_bounds [OF assms(1)] by simp
  have le: "?d * ?b ^ k \<le> num" by (rule div_times_less_eq_dividend)
  then have ct: "char_times (of_nat ?d) (?b ^ k) = ?d * ?b ^ k"
    using d le_less_trans [OF le assms(3)] by (intro char_times_small)
  have "sub64 num (char_times (of_nat ?d) (?b ^ k)) = num mod ?b ^ k"
    using le assms(3) by (simp add: ct minus_div_mult_eq_mod)
  then show ?thesis using assms(4) by (simp add: digit_step_def Let_def)
qed

lemma digits_loop_power:
  assumes "base_ok opts" "num < fo_base opts ^ Suc k" "num < 2 ^ 64" "start \<le> i"
  shows "digits_loop opts start i num (fo_base opts ^ k) s = s @ fixed_digits opts (Suc k) num"
  using assms(2-4)
proof (induction k arbitrary: i num s rule: less_induct)
  case (less k)
  let ?b = "fo_base opts"
  let ?diff = "num mod ?b ^ k" and ?s1 = "s @ digit_text opts (of_nat (num div ?b ^ k))"
  note b = base_bounds(1) [OF assms(1)]
  have pos: "0 < ?b ^ k" using b by simp
  have stop: "digits_loop opts start j m 0 t = t" for j m t by (subst digits_loop.simps) simp
  have go: "digits_loop opts start i num (?b ^ k) s =
      (case digit_step opts start i num (?b ^ k) s of (diff, divisor', s') \<Rightarrow>
        digits_loop opts start (Suc i) diff divisor' s')"
    using b pos by (subst digits_loop.simps) simp
  have goal: "s @ fixed_digits opts (Suc k) num = ?s1 @ fixed_digits opts k ?diff" by simp
  have small: "?diff < 2 ^ 64" using less.prems(2) by (meson le_less_trans mod_less_eq_dividend)
  note step = digit_step_power [OF assms(1) less.prems, of s]
  show ?case
  proof (cases k)
    case 0
    then show ?thesis using go step b stop by (simp add: Let_def)
  next
    case (Suc m)
    have dv: "?b ^ k div ?b = ?b ^ m" using b Suc by simp
    show ?thesis
    proof (cases "?diff < ?b ^ m")
      case True
      have "?diff < ?b ^ k" using pos by simp
      from zeros_loop_power [OF b this, of ?s1] obtain j where j: "j \<le> k"
        "zeros_loop ?b ?diff (?b ^ k) ?s1 = (?b ^ j, ?s1 @ replicate (k - j) 48)" "?diff < ?b ^ j" by blast
      have zeros: "fixed_digits opts k ?diff = replicate (k - j) 48 @ fixed_digits opts j ?diff"
        using fixed_digits_zeros [of opts ?diff j "k - j"] b j by simp
      have run: "digits_loop opts start i num (?b ^ k) s =
          digits_loop opts start (Suc i) ?diff (?b ^ j div ?b) (?s1 @ replicate (k - j) 48)"
        using go step True j(2) dv by (simp add: Let_def)
      show ?thesis
      proof (cases j)
        case 0
        then show ?thesis using run goal zeros stop b by simp
      next
        case (Suc l)
        have "l < k" using Suc j(1) by simp
        moreover have "?b ^ j div ?b = ?b ^ l" using Suc b by simp
        ultimately show ?thesis
          using less.IH [of l ?diff "Suc i" "?s1 @ replicate (k - j) 48"] run goal zeros Suc j(3) small
            less.prems(3) by simp
      qed
    next
      case False
      have "?diff < ?b ^ Suc m" using pos Suc by (metis mod_less_divisor)
      then show ?thesis
        using less.IH [of m ?diff "Suc i" ?s1] go step False dv Suc small goal less.prems(3)
        by (simp add: Let_def)
    qed
  qed
qed

lemma digit_text_length: "base_ok opts \<Longrightarrow> d < fo_base opts \<Longrightarrow> length (digit_text opts (of_nat d)) = 1"
  using base_bounds [of opts] char_digit [of d] by (auto simp: digit_text_def base_ok_def)

lemma fixed_digits_length:
  "base_ok opts \<Longrightarrow> n < fo_base opts ^ k \<Longrightarrow> length (fixed_digits opts k n) = k"
proof (induction k arbitrary: n)
  case (Suc k)
  have "n mod fo_base opts ^ k < fo_base opts ^ k"
    using base_bounds [OF Suc.prems(1)] by simp
  moreover have "n div fo_base opts ^ k < fo_base opts"
    using Suc.prems by (simp add: less_mult_imp_div_less)
  ultimately show ?case using Suc digit_text_length by simp
qed simp

lemma numToString_all:
  assumes "base_ok opts" "num < 2 ^ 64"
  shows "\<exists>k. num < fo_base opts ^ Suc k \<and> (k = 0 \<or> fo_base opts ^ k \<le> num) \<and>
    length (digits_of opts num) = Suc k \<and>
    (Suc k \<le> fo_width opts \<longrightarrow> numToString num opts =
      Inr (sign_text opts @ (if fo_base opts = 16 then bytes ''0x'' else []) @
        (if fo_width opts = UINT8_MAX then [] else replicate (fo_width opts - Suc k) 48) @
        digits_of opts num))"
proof -
  let ?b = "fo_base opts"
  note b = base_bounds(1) [OF assms(1)]
  obtain k where k: "count_digits num ?b (?b ^ 0) (Suc 0) = (?b ^ k, Suc k)" "num < ?b ^ Suc k"
    "k = 0 \<or> ?b ^ k \<le> num"
    using count_digits_power [OF b, of ?b 0 num] by auto
  have run: "digits_loop opts 0 0 num (?b ^ k) s = s @ digits_of opts num" for s
    using digits_loop_power [OF assms(1) k(2) assms(2), of 0 0 s] fixed_digits_of [OF b k(2,3)] by simp
  have len: "length (digits_of opts num) = Suc k"
    using fixed_digits_length [OF assms(1) k(2)] by (simp only: fixed_digits_of [OF b k(2,3)])
  show ?thesis
    using assms(1) k len by (intro exI [of _ k]) (auto simp: numToString_def base_ok_def run Let_def)
qed

text \<open>A notation with the widths of the default: no padding.\<close>

lemma digits_bound: "base_ok opts \<Longrightarrow> num < 2 ^ 64 \<Longrightarrow> length (digits_of opts num) \<le> 20"
proof -
  assume a: "base_ok opts" "num < 2 ^ 64"
  from numToString_all [OF this] obtain k where
    k: "k = 0 \<or> fo_base opts ^ k \<le> num" "length (digits_of opts num) = Suc k" by blast
  have "k < 20"
  proof (rule ccontr)
    assume "\<not> k < 20"
    then have "fo_base opts ^ k \<le> num" "20 \<le> k" using k(1) by auto
    moreover have "(10::nat) ^ 20 \<le> 10 ^ k" by (rule power_increasing) (use calculation(2) in simp_all)
    moreover have "10 ^ k \<le> fo_base opts ^ k" by (rule power_mono) (use a(1) in \<open>auto simp: base_ok_def\<close>)
    ultimately have "(10::nat) ^ 20 \<le> num" by linarith
    then show False using a(2) by simp
  qed
  then show ?thesis using k(2) by simp
qed

section \<open>Properties\<close>

text \<open>
  \<open>numToString\<close> writes the sign the mask asks for, \<open>0x\<close> for base 16, zeros up to the width,
  and the usual notation of the number, if the number fits in the width; any other base is an
  error.
\<close>

theorem numToString_notation:
  assumes "num < 2 ^ 64" and "length (digits_of opts num) \<le> fo_width opts"
  shows "numToString num opts =
    (if base_ok opts
     then Inr (sign_text opts @ (if fo_base opts = 16 then bytes ''0x'' else []) @
       (if fo_width opts = UINT8_MAX then []
        else replicate (fo_width opts - length (digits_of opts num)) 48) @ digits_of opts num)
     else Inl (Runtime_Error ''Base not supported.''))"
proof (cases "base_ok opts")
  case True
  then show ?thesis using numToString_all [OF True assms(1)] assms(2) by auto
next
  case False
  then show ?thesis by (simp add: numToString_def base_ok_def)
qed

theorem numToString_notation_witness:
  "numToString 1003 (default_opts\<lparr>fo_width := 6, fo_sign_mask := 3\<rparr>) = Inr (bytes ''+001003'') \<and>
    digits_of (default_opts\<lparr>fo_width := 6, fo_sign_mask := 3\<rparr>) 1003 = bytes ''1003''"
proof -
  let ?o = "default_opts\<lparr>fo_width := 6, fo_sign_mask := 3\<rparr>"
  have d: "digits_of ?o 1003 = bytes ''1003''"
    by (simp add: digits_of.simps default_opts_def digit_text_def)
  moreover have "replicate 2 (48 :: byte) = [48, 48]" by (simp add: numeral_2_eq_2)
  moreover have "base_ok ?o" "sign_text ?o = bytes ''+''"
    by (simp_all add: base_ok_def default_opts_def sign_text_def SIGN_FOR_POSITIVES_def)
  ultimately show ?thesis
    using numToString_notation [of 1003 ?o]
    by (simp add: default_opts_def UINT8_MAX_def)
qed

text \<open>
  A width below the number of digits keeps zeros that should have been cut off: the zeros
  written behind a digit are not counted.
\<close>

lemma truncation_keeps_zeros:
  "numToString 1234 (default_opts\<lparr>fo_width := 2\<rparr>) = Inr (bytes ''34'')"
  "numToString 1003 (default_opts\<lparr>fo_width := 2\<rparr>) = Inr (bytes ''00'')"
  by (simp_all add: numToString_def default_opts_def UINT8_MAX_def sign_text_def NO_SIGN_def
      SIGN_FOR_NEGATIVES_def SIGN_FOR_POSITIVES_def count_digits.simps digits_loop.simps
      digit_step_def digit_text_def char_times_def zeros_loop.simps Let_def)

end
