(* ===== verification/Float_Text.thy ===== *)
theory Float_Text
  imports String_Number
begin

text \<open>
  The conversion of floating point numbers to text of lib/string_utils.h: \<open>placeDigit\<close> and
  \<open>floatToString\<close>. The arithmetic of \<open>double\<close> is the record \<open>float_ops\<close>; integers are as in
  \<open>String_Number\<close>: \<open>size_t\<close> values naturals below \<open>2 ^ 64\<close>, \<open>divisor\<close> wrapping as it does in the
  code. A loop that may not end is a \<open>partial_function\<close> whose value is then \<open>None\<close>; which of the
  loops end is proved below.
\<close>

section \<open>Operations of floating point numbers\<close>

text \<open>
  What \<open>floatToString\<close> uses of \<open>double\<close>: \<open>num < 0\<close>; \<open>num *= n\<close> for a \<open>uint64_t\<close> and for a power
  of ten; \<open>num / divisor >= 10\<close>; the conversion of \<open>num / divisor\<close> to \<open>char\<close>, \<open>None\<close> where it has
  no value; \<open>num - n\<close> and \<open>num < n\<close> for a \<open>size_t\<close>; and whether \<open>errno\<close> is \<open>ERANGE\<close> when it is
  tested, from the powers or from earlier.
\<close>

record 'd float_ops =
  fl_negative :: "'d \<Rightarrow> bool"
  fl_times :: "'d \<Rightarrow> nat \<Rightarrow> 'd"
  fl_times_pow10 :: "'d \<Rightarrow> int \<Rightarrow> 'd"
  fl_ten_fits :: "'d \<Rightarrow> nat \<Rightarrow> bool"
  fl_digit :: "'d \<Rightarrow> nat \<Rightarrow> byte option"
  fl_minus :: "'d \<Rightarrow> nat \<Rightarrow> 'd"
  fl_less :: "'d \<Rightarrow> nat \<Rightarrow> bool"
  fl_erange :: "'d \<Rightarrow> format_opts \<Rightarrow> bool"

section \<open>The conversion\<close>

text \<open>\<open>placeDigit\<close>: whether to go on, the text and \<open>precision_count\<close>.\<close>

definition placeDigit :: "byte list \<Rightarrow> nat \<Rightarrow> nat \<Rightarrow> byte \<Rightarrow> format_opts \<Rightarrow> int \<Rightarrow> bool \<times> byte list \<times> int" where
  "placeDigit s divisor decimal_idx digit opts precision_count =
     (if divisor = decimal_idx
      then if fo_precision opts = 0 then (False, s @ [digit], precision_count)
           else (True, s @ [digit, 46], 0)
      else (True, s @ [digit], precision_count))"

definition float_sign :: "'d float_ops \<Rightarrow> 'd \<Rightarrow> format_opts \<Rightarrow> byte list" where
  "float_sign fl num opts =
     (if fl_negative fl num
      then (if fo_sign_mask opts AND SIGN_FOR_NEGATIVES > 0 then bytes ''-'' else [])
      else (if fo_sign_mask opts AND SIGN_FOR_POSITIVES > 0 then bytes ''+'' else []))"

text \<open>\<open>(uint64_t)pow(10, n)\<close>: from \<open>n = 20\<close> on the value does not fit.\<close>

definition pow10_cast :: "nat \<Rightarrow> nat res" where
  "pow10_cast n = (if n < 20 then Inr (10 ^ n) else Inl Undefined)"

text \<open>The number multiplied for its digits, and \<open>decimal_idx\<close>.\<close>

definition float_scaled :: "'d float_ops \<Rightarrow> 'd \<Rightarrow> format_opts \<Rightarrow> ('d \<times> nat) res" where
  "float_scaled fl num opts =
     (if fo_exponential opts = 0
      then bindR (pow10_cast (fo_precision opts)) (\<lambda>decimal_idx.
        Inr (fl_times fl num decimal_idx, decimal_idx))
      else if fo_exponential opts > 0
      then bindR (pow10_cast (fo_precision opts + nat (fo_exponential opts))) (\<lambda>decimal_idx.
        Inr (fl_times_pow10 fl num (int (fo_precision opts)), decimal_idx))
      else let abs_exponential = sint (of_int (- fo_exponential opts) :: 16 word)
        in bindR (pow10_cast (fo_precision opts)) (\<lambda>decimal_idx.
             Inr (fl_times_pow10 fl num (abs_exponential + int (fo_precision opts)), decimal_idx)))"

text \<open>The width of the number: the divisor, the digits, and the digits in front of the decimal point (\<open>uint8_t\<close>).\<close>

partial_function (option) float_width ::
    "'d float_ops \<Rightarrow> 'd \<Rightarrow> nat \<Rightarrow> nat \<Rightarrow> nat \<Rightarrow> nat \<Rightarrow> (nat \<times> nat \<times> nat) option" where
  "float_width fl num decimal_idx divisor digit_count natural_count =
     (if fl_ten_fits fl num divisor
      then let divisor' = mul64 divisor 10
        in float_width fl num decimal_idx divisor' (add64 digit_count 1)
             (if decimal_idx \<le> divisor' then (natural_count + 1) mod 256 else natural_count)
      else Some (divisor, digit_count, natural_count))"

text \<open>\<open>while (pow_10 != decimal_idx)\<close>: the number of places behind the decimal point.\<close>

partial_function (option) decimal_places :: "nat \<Rightarrow> nat \<Rightarrow> nat \<Rightarrow> nat option" where
  "decimal_places decimal_idx pow_10 count =
     (if pow_10 = decimal_idx then Some count
      else decimal_places decimal_idx (mul64 pow_10 10) (add64 count 1))"

text \<open>The zeros behind a digit: the divisor, \<open>precision_count\<close> and the text.\<close>

partial_function (option) float_zeros ::
    "'d float_ops \<Rightarrow> format_opts \<Rightarrow> nat \<Rightarrow> 'd \<Rightarrow> nat \<Rightarrow> int \<Rightarrow> byte list \<Rightarrow> (nat \<times> int \<times> byte list) option" where
  "float_zeros fl opts decimal_idx diff divisor precision_count s =
     (if fl_less fl diff (divisor div 10) \<and> precision_count < int (fo_precision opts)
      then case placeDigit s (divisor div 10) decimal_idx 48 opts precision_count of
        (go_on, s', count') \<Rightarrow>
          if go_on
          then float_zeros fl opts decimal_idx diff (divisor div 10)
                 (if 0 \<le> count' then count' + 1 else count') s'
          else Some (divisor div 10, count', s')
      else Some (divisor, precision_count, s))"

declare float_width.simps [code] and decimal_places.simps [code] and float_zeros.simps [code]

text \<open>A digit is placed: \<open>Inl\<close> where the loop over the digits is left.\<close>

definition float_place ::
    "format_opts \<Rightarrow> nat \<Rightarrow> nat \<Rightarrow> nat \<Rightarrow> nat \<Rightarrow> byte \<Rightarrow> int \<Rightarrow> byte list \<Rightarrow> byte list + int \<times> byte list" where
  "float_place opts decimal_idx start_index i divisor digit precision_count s =
     (if start_index \<le> i
      then if int (fo_precision opts) \<le> precision_count then Inl s
        else let count = (if 0 \<le> precision_count then precision_count + 1 else precision_count)
          in if sint digit \<le> 9
             then case placeDigit s divisor decimal_idx (digit + 48) opts count of
               (go_on, s', count') \<Rightarrow> if go_on then Inr (count', s') else Inl s'
             else Inr (count, s)
      else Inr (precision_count, s))"

partial_function (option) float_digits ::
    "'d float_ops \<Rightarrow> format_opts \<Rightarrow> nat \<Rightarrow> nat \<Rightarrow> nat \<Rightarrow> 'd \<Rightarrow> nat \<Rightarrow> int \<Rightarrow> byte list \<Rightarrow> byte list res option" where
  "float_digits fl opts decimal_idx start_index i num divisor precision_count s =
     (if divisor = 0 then Some (Inr s)
      else case fl_digit fl num divisor of
        None \<Rightarrow> Some (Inl Undefined)
      | Some digit \<Rightarrow>
          (case float_place opts decimal_idx start_index i divisor digit precision_count s of
             Inl s' \<Rightarrow> Some (Inr s')
           | Inr placed \<Rightarrow>
               Option.bind
                 (if fl_less fl (fl_minus fl num (char_times digit divisor)) (divisor div 10)
                  then float_zeros fl opts decimal_idx (fl_minus fl num (char_times digit divisor))
                         divisor (fst placed) (snd placed)
                  else Some (divisor, fst placed, snd placed))
                 (\<lambda>next. float_digits fl opts decimal_idx start_index (Suc i)
                    (fl_minus fl num (char_times digit divisor)) (fst next div 10) (fst (snd next)) (snd (snd next)))))"

declare float_digits.simps [code]

definition exponent_text :: "format_opts \<Rightarrow> byte list \<Rightarrow> byte list res" where
  "exponent_text opts s =
     (if fo_exponential opts \<noteq> 0
      then let exponential = (if fo_exponential opts < 0
                 then sint (of_int (- fo_exponential opts) :: 16 word) else fo_exponential opts)
        in bindR (numToStringSigned (of_int exponential) default_opts) (\<lambda>t.
             Inr (s @ [fo_exponential_designator opts] @
               (if fo_exponential opts < 0 then bytes ''-'' else bytes ''+'') @ t))
      else Inr s)"

definition floatToString :: "'d float_ops \<Rightarrow> 'd \<Rightarrow> format_opts \<Rightarrow> byte list res option" where
  "floatToString fl num opts =
     (let s = float_sign fl num opts;
          finish = map_option (\<lambda>r. bindR r (exponent_text opts))
      in case float_scaled fl num opts of
        Inl e \<Rightarrow> Some (Inl e)
      | Inr (x, decimal_idx) \<Rightarrow>
          if fl_erange fl num opts then Some (Inl (Runtime_Error ''Math error detected.''))
          else Option.bind (float_width fl x decimal_idx 1 1 (if decimal_idx \<le> 1 then 1 else 0))
            (\<lambda>(divisor, digit_count, natural_count).
              if natural_count = 0
              then let s1 = s @ replicate (if fo_width opts \<noteq> UINT8_MAX then fo_width opts else 1) 48
                in if fo_precision opts = 0 then Some (Inr s1)
                   else Option.bind (decimal_places decimal_idx 1 0) (\<lambda>count.
                     let decimal_pad = sub64 count digit_count
                     in if fo_precision opts \<le> decimal_pad then Some (Inr s1)
                        else finish (float_digits fl opts decimal_idx 0 0 x divisor (int decimal_pad)
                          (s1 @ [46] @ replicate decimal_pad 48)))
              else if fo_width opts \<noteq> UINT8_MAX \<and> natural_count < fo_width opts
              then finish (float_digits fl opts decimal_idx 0 0 x divisor (- 1)
                     (s @ replicate (fo_width opts - natural_count) 48))
              else finish (float_digits fl opts decimal_idx (natural_count - fo_width opts) 0 x divisor (- 1) s)))"

section \<open>Which loops end\<close>

text \<open>The width: the divisors tried are the powers of ten modulo \<open>2 ^ 64\<close>.\<close>

lemma float_width_stops:
  "\<not> fl_ten_fits fl num (divisor * 10 ^ k mod 2 ^ 64) \<Longrightarrow> divisor < 2 ^ 64 \<Longrightarrow>
   float_width fl num decimal_idx divisor digit_count natural_count \<noteq> None"
proof (induction k arbitrary: divisor digit_count natural_count)
  case 0
  then show ?case by (subst float_width.simps) simp
next
  case (Suc k)
  have "mul64 divisor 10 * 10 ^ k mod 2 ^ 64 = divisor * 10 ^ Suc k mod 2 ^ 64"
    by (simp add: mul64_def mod_mult_left_eq mult.assoc)
  then have "float_width fl num decimal_idx (mul64 divisor 10) d b \<noteq> None" for d b
    using Suc.IH [of "mul64 divisor 10"] Suc.prems(1) by (simp add: mul64_def)
  then show ?case by (subst float_width.simps) (simp only: Let_def split: if_split, simp)
qed

lemma float_width_some:
  assumes "float_width fl num decimal_idx divisor digit_count natural_count = Some w"
  shows "divisor < 2 ^ 64 \<longrightarrow> (\<exists>k. \<not> fl_ten_fits fl num (divisor * 10 ^ k mod 2 ^ 64))"
proof (rule float_width.raw_induct [OF _ assms, where P = "\<lambda>fl num decimal_idx divisor digit_count natural_count w.
    divisor < 2 ^ 64 \<longrightarrow> (\<exists>k. \<not> fl_ten_fits fl num (divisor * 10 ^ k mod 2 ^ 64))"], intro impI)
  fix width and fl :: "'a float_ops" and num decimal_idx divisor digit_count natural_count w
  assume IH: "\<And>fl num decimal_idx divisor digit_count natural_count w.
      width fl num decimal_idx divisor digit_count natural_count = Some w \<Longrightarrow>
      divisor < 2 ^ 64 \<longrightarrow> (\<exists>k. \<not> fl_ten_fits fl num (divisor * 10 ^ k mod 2 ^ 64))"
    and run: "(if fl_ten_fits fl num divisor
      then let divisor' = mul64 divisor 10
        in width fl num decimal_idx divisor' (add64 digit_count 1)
             (if decimal_idx \<le> divisor' then (natural_count + 1) mod 256 else natural_count)
      else Some (divisor, digit_count, natural_count)) = Some w" and divisor: "divisor < 2 ^ 64"
  show "\<exists>k. \<not> fl_ten_fits fl num (divisor * 10 ^ k mod 2 ^ 64)"
  proof (cases "fl_ten_fits fl num divisor")
    case True
    then have "width fl num decimal_idx (mul64 divisor 10) (add64 digit_count 1)
        (if decimal_idx \<le> mul64 divisor 10 then (natural_count + 1) mod 256 else natural_count) = Some w"
      using run by (simp add: Let_def)
    from IH [OF this] obtain k where "\<not> fl_ten_fits fl num (mul64 divisor 10 * 10 ^ k mod 2 ^ 64)"
      by (auto simp: mul64_def)
    moreover have "mul64 divisor 10 * 10 ^ k mod 2 ^ 64 = divisor * 10 ^ Suc k mod 2 ^ 64"
      by (simp add: mul64_def mod_mult_left_eq mult.assoc)
    ultimately show ?thesis by metis
  next
    case False
    then show ?thesis using divisor by (intro exI [of _ 0]) simp
  qed
qed

lemma float_width_None:
  "float_width fl num decimal_idx 1 digit_count natural_count = None \<longleftrightarrow>
   (\<forall>k. fl_ten_fits fl num (10 ^ k mod 2 ^ 64))"
  using float_width_some [of fl num decimal_idx 1 digit_count natural_count]
    float_width_stops [of fl num 1 _ decimal_idx digit_count natural_count] by fastforce





lemma endless:
  assumes "float_scaled fl num opts = Inr (x, decimal_idx)" and "\<not> fl_erange fl num opts"
    and "\<And>k. fl_ten_fits fl x (10 ^ k mod 2 ^ 64)"
  shows "floatToString fl num opts = None"
proof -
  have "float_width fl x decimal_idx 1 1 natural_count = None" for natural_count
    unfolding float_width_None using assms(3) by (rule allI)
  then show ?thesis using assms(1,2) by (simp add: floatToString_def Let_def)
qed

section \<open>Properties\<close>


text \<open>Numbers that are integers, with exact operations: ten to the power of 30 is never converted.\<close>

definition whole_floats :: "int float_ops" where
  "whole_floats = \<lparr>fl_negative = (\<lambda>x. x < 0), fl_times = (\<lambda>x n. x * int n),
     fl_times_pow10 = (\<lambda>x k. if 0 \<le> k then x * 10 ^ nat k else x div 10 ^ nat (- k)),
     fl_ten_fits = (\<lambda>x n. if n = 0 then 0 < x else 10 \<le> x div int n),
     fl_digit = (\<lambda>x n. if 0 < n \<and> 0 \<le> x \<and> x div int n < 128 then Some (of_int (x div int n)) else None),
     fl_minus = (\<lambda>x n. x - int n), fl_less = (\<lambda>x n. x < int n), fl_erange = (\<lambda>_ _. False)\<rparr>"


lemma whole_floats_wide: "fl_ten_fits whole_floats (10 ^ 36) (10 ^ k mod 2 ^ 64)"
proof -
  define d where "d = int (10 ^ k mod 2 ^ 64)"
  have "10 ^ k mod 2 ^ 64 < (18446744073709551616 :: nat)" by simp
  then have "int (10 ^ k mod 2 ^ 64) < int 18446744073709551616" by (simp only: of_nat_less_iff)
  then have d: "0 \<le> d" "d < 18446744073709551616" unfolding d_def by simp_all
  then have "10 * d \<le> 10 ^ 36" by simp
  then have "10 \<le> 10 ^ 36 div d" if "d \<noteq> 0"
    using zdiv_mono1 [of "10 * d" "10 ^ 36" d] d(1) that by simp
  then have "if d = 0 then 0 < (10 ^ 36 :: int) else 10 \<le> 10 ^ 36 div d" by simp
  then show ?thesis unfolding d_def by (simp add: whole_floats_def del: of_nat_mod split: if_splits)
qed

lemma whole_floats_scaled: "float_scaled whole_floats (10 ^ 30) default_opts = Inr (10 ^ 36, 10 ^ 6)"
  by (simp add: float_scaled_def default_opts_def pow10_cast_def whole_floats_def)

lemma whole_floats_errno: "\<not> fl_erange whole_floats x opts"
  by (simp add: whole_floats_def)

lemma whole_floats_endless: "floatToString whole_floats (10 ^ 30) default_opts = None"
  by (rule endless [OF whole_floats_scaled whole_floats_errno]) (rule whole_floats_wide)


end
