(* ===== verification/Stream_Move.thy ===== *)
theory Stream_Move
  imports Prelude
begin

text \<open>
  The stream objects of lib/estream/estream.h and lib/estream/byteestream.h as owners of blocks on the
  heap: construction, the defaulted move assignment, destruction. A \<open>ByteEStream\<close> holds a buffer, its
  own if \<open>new_buffer\<close>, and six objects made by \<open>new\<close>. What a stream reads is in \<open>EStream\<close> and
  \<open>Byte_EStream\<close>; here is what happens to the blocks when a temporary is assigned to a stream, as
  \<open>HttpConnectionETask::run\<close> and \<open>format\<close> do. Memory is taken to suffice.
\<close>

section \<open>Blocks\<close>

text \<open>A heap: the number of the next block, and whether a block is alive.\<close>

record block_store =
  bk_next :: nat
  bk_alive :: "nat \<Rightarrow> bool"

datatype pointer = Null | Outer | Block nat

definition new_block :: "block_store \<Rightarrow> pointer \<times> block_store" where
  "new_block h = (Block (bk_next h), h\<lparr>bk_next := Suc (bk_next h), bk_alive := (bk_alive h)(bk_next h := True)\<rparr>)"

text \<open>\<open>delete\<close>: of the null pointer nothing, of memory not made by \<open>new\<close> or deleted before undefined.\<close>

fun delete_block :: "pointer \<Rightarrow> block_store \<Rightarrow> block_store res" where
  "delete_block Null h = Inr h"
| "delete_block Outer h = Inl Undefined"
| "delete_block (Block b) h = (if bk_alive h b then Inr (h\<lparr>bk_alive := (bk_alive h)(b := False)\<rparr>) else Inl Undefined)"

fun points :: "pointer \<Rightarrow> block_store \<Rightarrow> bool" where
  "points Null h = False"
| "points Outer h = True"
| "points (Block b) h = bk_alive h b"

section \<open>Streams\<close>

record stream_object =
  so_fd :: int
  so_new_buffer :: bool
  so_buffer :: pointer
  so_buffer_size :: nat
  so_until_size_criteria :: pointer
  so_array_collector :: pointer
  so_char_class_criteria :: pointer
  so_natural_collector :: pointer
  so_decimal_collector :: pointer
  so_string_collector :: pointer

definition READER_RECOMMENDED_BUF_SIZE :: nat where
  "READER_RECOMMENDED_BUF_SIZE = 8096"

text \<open>\<open>initStreamProcessing\<close> and \<open>initByteStreamProcessing\<close>, after the members of the base class.\<close>

definition stream_with :: "int \<Rightarrow> bool \<Rightarrow> pointer \<Rightarrow> nat \<Rightarrow> block_store \<Rightarrow> stream_object \<times> block_store" where
  "stream_with fd new_buffer buffer bs h =
     (let (until, h1) = new_block h; (array, h2) = new_block h1; (char_class, h3) = new_block h2;
          (natural, h4) = new_block h3; (decimal, h5) = new_block h4; (str, h6) = new_block h5
      in (\<lparr>so_fd = fd, so_new_buffer = new_buffer, so_buffer = buffer, so_buffer_size = bs,
           so_until_size_criteria = until, so_array_collector = array, so_char_class_criteria = char_class,
           so_natural_collector = natural, so_decimal_collector = decimal, so_string_collector = str\<rparr>, h6))"

definition ByteEStream_default :: "block_store \<Rightarrow> stream_object \<times> block_store" where
  "ByteEStream_default h = stream_with (- 1) False Null 0 h"

definition ByteEStream_memory :: "nat \<Rightarrow> block_store \<Rightarrow> stream_object \<times> block_store" where
  "ByteEStream_memory bs h = stream_with (- 1) False Outer bs h"

definition ByteEStream_fd :: "int \<Rightarrow> nat \<Rightarrow> block_store \<Rightarrow> (stream_object \<times> block_store) res" where
  "ByteEStream_fd fd bs h =
     (if fd < 0 then Inl (Runtime_Error ''Invalid file descriptor provided.'')
      else if bs < 1 then Inl (Runtime_Error ''Invalid buffer size provided.'')
      else case new_block h of (buffer, h1) \<Rightarrow> Inr (stream_with fd True buffer bs h1))"

text \<open>
  \<open>operator=(ByteEStream && x) = default\<close>, as in the base class: every member is copied from \<open>x\<close>, which
  keeps its own.
\<close>

definition ByteEStream_move :: "stream_object \<Rightarrow> stream_object \<Rightarrow> stream_object \<times> stream_object" where
  "ByteEStream_move this x =
     (this\<lparr>so_fd := so_fd x, so_new_buffer := so_new_buffer x, so_buffer := so_buffer x,
        so_buffer_size := so_buffer_size x, so_until_size_criteria := so_until_size_criteria x,
        so_array_collector := so_array_collector x, so_char_class_criteria := so_char_class_criteria x,
        so_natural_collector := so_natural_collector x, so_decimal_collector := so_decimal_collector x,
        so_string_collector := so_string_collector x\<rparr>, x)"

text \<open>The destructor, then the one of the base class.\<close>

definition ByteEStream_destroy :: "stream_object \<Rightarrow> block_store \<Rightarrow> block_store res" where
  "ByteEStream_destroy st h =
     bindR (delete_block (so_char_class_criteria st) h) (\<lambda>h.
     bindR (delete_block (so_natural_collector st) h) (\<lambda>h.
     bindR (delete_block (so_decimal_collector st) h) (\<lambda>h.
     bindR (delete_block (so_string_collector st) h) (\<lambda>h.
     bindR (if so_new_buffer st then delete_block (so_buffer st) h else Inr h) (\<lambda>h.
     bindR (delete_block (so_until_size_criteria st) h) (\<lambda>h.
     delete_block (so_array_collector st) h))))))"

text \<open>Reading a stream uses its buffer, a criteria object and a collector.\<close>

definition stream_intact :: "stream_object \<Rightarrow> block_store \<Rightarrow> bool" where
  "stream_intact st h \<longleftrightarrow> points (so_buffer st) h \<and> points (so_until_size_criteria st) h \<and>
     points (so_array_collector st) h \<and> points (so_char_class_criteria st) h \<and> points (so_natural_collector st) h \<and>
     points (so_decimal_collector st) h \<and> points (so_string_collector st) h"

text \<open>
  \<open>this = ByteEStream(fd)\<close> and \<open>this = ByteEStream(b, bs)\<close>: the temporary is made, moved from and
  destroyed.
\<close>

definition assign_temporary :: "stream_object \<Rightarrow> stream_object \<Rightarrow> block_store \<Rightarrow> (stream_object \<times> block_store) res" where
  "assign_temporary this temporary h =
     (case ByteEStream_move this temporary of (this', x) \<Rightarrow> bindR (ByteEStream_destroy x h) (\<lambda>h'. Inr (this', h')))"

definition assign_fd_stream :: "stream_object \<Rightarrow> int \<Rightarrow> block_store \<Rightarrow> (stream_object \<times> block_store) res" where
  "assign_fd_stream this fd h =
     bindR (ByteEStream_fd fd READER_RECOMMENDED_BUF_SIZE h) (\<lambda>(temporary, h1). assign_temporary this temporary h1)"

definition assign_memory_stream :: "stream_object \<Rightarrow> nat \<Rightarrow> block_store \<Rightarrow> (stream_object \<times> block_store) res" where
  "assign_memory_stream this bs h =
     (case ByteEStream_memory bs h of (temporary, h1) \<Rightarrow> assign_temporary this temporary h1)"

section \<open>What an assignment leaves\<close>

definition blocks_of :: "stream_object \<Rightarrow> pointer list" where
  "blocks_of st = [so_char_class_criteria st, so_natural_collector st, so_decimal_collector st,
     so_string_collector st, so_until_size_criteria st, so_array_collector st]"

text \<open>A stream with fresh blocks can be destroyed; what is older stays as it is.\<close>

definition fresh_from :: "nat \<Rightarrow> stream_object \<Rightarrow> bool" where
  "fresh_from n st \<longleftrightarrow> (\<forall>p \<in> set (blocks_of st). \<exists>b \<ge> n. p = Block b)"

lemma stream_with_destroyed:
  fixes h :: block_store
  assumes "stream_with fd new_buffer buffer bs h = (st, h1)"
    and "new_buffer \<Longrightarrow> \<exists>b < bk_next h. buffer = Block b \<and> bk_alive h b"
  shows "\<exists>h2. ByteEStream_destroy st h1 = Inr h2 \<and> fresh_from (bk_next h) st \<and>
    (\<forall>p \<in> set (blocks_of st). \<not> points p h2) \<and> (new_buffer \<longrightarrow> \<not> points buffer h2) \<and> so_buffer st = buffer \<and>
    (\<forall>b < bk_next h. Block b \<noteq> buffer \<longrightarrow> points (Block b) h2 = points (Block b) h)"
proof (cases new_buffer)
  case True
  then obtain b where b: "b < bk_next h" "buffer = Block b" "bk_alive h b" using assms(2) by blast
  have other: "b \<noteq> bk_next h + k" "bk_next h + k \<noteq> b" for k using b(1) by simp_all
  from other [of 0] other [of 1] other [of 2] other [of 3] other [of 4] other [of 5] assms(1) True show ?thesis
    by (auto simp: stream_with_def new_block_def Let_def ByteEStream_destroy_def b(2,3) blocks_of_def fresh_from_def)
next
  case False
  from assms(1) False show ?thesis
    by (auto simp: stream_with_def new_block_def Let_def ByteEStream_destroy_def blocks_of_def fresh_from_def)
qed

lemma move_takes_all: "ByteEStream_move this x = (x, x)"
  by (simp add: ByteEStream_move_def)

lemma dangling_destroy:
  assumes "\<not> points (so_char_class_criteria st) h" and "so_char_class_criteria st = Block b"
  shows "ByteEStream_destroy st h = Inl Undefined"
  using assms by (simp add: ByteEStream_destroy_def)

text \<open>
  \<open>dangles this this' h h'\<close>: what an assignment has left of a stream. All the target points to is deleted,
  its destructor deletes a second time, and nothing points to its former blocks, which stay.
\<close>

definition dangles :: "stream_object \<Rightarrow> stream_object \<Rightarrow> block_store \<Rightarrow> block_store \<Rightarrow> bool" where
  "dangles this this' h h' \<longleftrightarrow> (\<forall>p \<in> set (blocks_of this'). \<not> points p h') \<and>
     \<not> stream_intact this' h' \<and> ByteEStream_destroy this' h' = Inl Undefined \<and>
     (\<forall>p \<in> set (blocks_of this). points p h' = points p h \<and> p \<notin> set (blocks_of this'))"

definition older :: "stream_object \<Rightarrow> block_store \<Rightarrow> bool" where
  "older this h \<longleftrightarrow> (\<forall>p \<in> set (blocks_of this). \<exists>b < bk_next h. p = Block b)"

lemma assigned_dangles:
  assumes "stream_with fd new_buffer buffer bs h0 = (temporary, h1)" and "older this h" and "bk_next h \<le> bk_next h0"
    and "new_buffer \<Longrightarrow> bk_next h < bk_next h0 \<and> buffer = Block (bk_next h) \<and> bk_alive h0 (bk_next h)"
    and "\<forall>b < bk_next h. bk_alive h0 b = bk_alive h b" and "\<forall>b < bk_next h. buffer \<noteq> Block b"
  shows "\<exists>this' h'. assign_temporary this temporary h1 = Inr (this', h') \<and> dangles this this' h h' \<and>
    (new_buffer \<longrightarrow> \<not> points (so_buffer this') h')"
proof -
  from stream_with_destroyed [OF assms(1)] assms(4) obtain h2 where h2: "ByteEStream_destroy temporary h1 = Inr h2"
    "fresh_from (bk_next h0) temporary" "\<forall>p \<in> set (blocks_of temporary). \<not> points p h2"
    "new_buffer \<longrightarrow> \<not> points buffer h2" "so_buffer temporary = buffer"
    "\<forall>b < bk_next h0. Block b \<noteq> buffer \<longrightarrow> points (Block b) h2 = points (Block b) h0" by blast
  have gone: "\<not> points (so_char_class_criteria temporary) h2" using h2(3) by (simp add: blocks_of_def)
  obtain b where b: "so_char_class_criteria temporary = Block b"
    using h2(2) by (auto simp: fresh_from_def blocks_of_def)
  have "points p h2 = points p h \<and> p \<notin> set (blocks_of temporary)" if p: "p \<in> set (blocks_of this)" for p
  proof -
    obtain c where c: "p = Block c" "c < bk_next h" using assms(2) p by (auto simp: older_def)
    then have "points p h2 = points p h" using h2(6) assms(3,5,6) by (metis order_less_le_trans points.simps(3))
    moreover have "p \<notin> set (blocks_of temporary)"
    proof
      assume "p \<in> set (blocks_of temporary)"
      then obtain d where "d \<ge> bk_next h0" "p = Block d" using h2(2) by (auto simp: fresh_from_def)
      then show False using c assms(3) by simp
    qed
    ultimately show ?thesis ..
  qed
  then have "dangles this temporary h h2"
    using h2(3) gone dangling_destroy [OF gone b] by (simp add: dangles_def stream_intact_def)
  then show ?thesis using h2(1,4,5) by (simp add: assign_temporary_def move_takes_all)
qed

lemma assign_fd_dangles:
  assumes "older this h" and "0 \<le> fd"
  shows "\<exists>this' h'. assign_fd_stream this fd h = Inr (this', h') \<and> dangles this this' h h' \<and> \<not> points (so_buffer this') h'"
proof -
  let ?h0 = "snd (new_block h)"
  obtain t g where t: "stream_with fd True (Block (bk_next h)) READER_RECOMMENDED_BUF_SIZE ?h0 = (t, g)" by fastforce
  have "\<exists>this' h'. assign_temporary this t g = Inr (this', h') \<and> dangles this this' h h' \<and> (True \<longrightarrow> \<not> points (so_buffer this') h')"
    by (rule assigned_dangles [OF t assms(1)]) (simp_all add: new_block_def)
  moreover have "assign_fd_stream this fd h = assign_temporary this t g"
    using assms(2) t by (simp add: assign_fd_stream_def ByteEStream_fd_def READER_RECOMMENDED_BUF_SIZE_def new_block_def)
  ultimately show ?thesis by simp
qed

lemma assign_memory_dangles:
  assumes "older this h"
  shows "\<exists>this' h'. assign_memory_stream this bs h = Inr (this', h') \<and> dangles this this' h h'"
proof -
  obtain t g where t: "stream_with (- 1) False Outer bs h = (t, g)" by fastforce
  have "\<exists>this' h'. assign_temporary this t g = Inr (this', h') \<and> dangles this this' h h' \<and> (False \<longrightarrow> \<not> points (so_buffer this') h')"
    by (rule assigned_dangles [OF t assms]) simp_all
  then show ?thesis using t by (auto simp: assign_memory_stream_def ByteEStream_memory_def)
qed

definition empty_store :: block_store where
  "empty_store = \<lparr>bk_next = 0, bk_alive = (\<lambda>_. False)\<rparr>"

text \<open>The two places of the program: a default stream and a stream over memory are assigned to.\<close>

lemma default_older: "ByteEStream_default h = (st, h1) \<Longrightarrow> older st h1"
  by (auto simp: older_def blocks_of_def ByteEStream_default_def stream_with_def new_block_def Let_def)

lemma memory_older: "ByteEStream_memory bs h = (st, h1) \<Longrightarrow> older st h1"
  by (auto simp: older_def blocks_of_def ByteEStream_memory_def stream_with_def new_block_def Let_def)

lemma default_destroyed:
  assumes "ByteEStream_default h = (eio, h1)"
  shows "\<exists>h2. ByteEStream_destroy eio h1 = Inr h2"
  using stream_with_destroyed [of "- 1" False Null 0 h eio h1] assms by (auto simp: ByteEStream_default_def)

section \<open>Properties\<close>

text \<open>
  C17. A stream that a temporary is assigned to dangles: after \<open>this = ByteEStream(fd)\<close> with a valid
  descriptor and after \<open>this = ByteEStream(b, bs)\<close>, everything the stream owns has been deleted by the
  destructor of the temporary, destroying the stream deletes it a second time, and its former six
  blocks stay as they were without a pointer to them.
\<close>

theorem stream_assignment_dangles:
  assumes "older this h" and "0 \<le> fd"
  shows "\<exists>this1 h1 this2 h2. assign_fd_stream this fd h = Inr (this1, h1) \<and> dangles this this1 h h1 \<and>
    \<not> points (so_buffer this1) h1 \<and> assign_memory_stream this bs h = Inr (this2, h2) \<and> dangles this this2 h h2"
  using assign_fd_dangles [OF assms] assign_memory_dangles [OF assms(1), of bs] by blast

theorem stream_assignment_dangles_witness:
  "\<exists>this h'. assign_fd_stream (fst (ByteEStream_default empty_store)) 3 (snd (ByteEStream_default empty_store)) = Inr (this, h') \<and>
    ByteEStream_destroy this h' = Inl Undefined"
proof -
  have "older (fst (ByteEStream_default empty_store)) (snd (ByteEStream_default empty_store))"
    by (rule default_older) simp
  from stream_assignment_dangles [OF this, of 3 0] show ?thesis unfolding dangles_def by auto
qed

end
