(* ===== verification/String_Format.thy ===== *)
theory String_Format
  imports Parser_Run Float_Text Stream_Move
begin

text \<open>
  The formatter of lib/string_format.cpp: a recursive descent over a byte stream of the format
  string, which takes its arguments from the variable argument list and converts them with
  lib/string_utils.h; a second pass resolves references to earlier arguments. Both parsers
  (positional and referenced) are functions on the stream; a result of \<open>None\<close> is a run that does
  not end. The conversion of floating point numbers is the argument \<open>fts\<close>, for which \<open>format_text\<close>
  has \<open>floatToString\<close>. The second pass reads a stream a temporary was assigned to, see \<open>Stream_Move\<close>.
\<close>

section \<open>Arguments\<close>

text \<open>
  What a caller passes, and what \<open>va_arg\<close> makes of it: an argument of another type, or none
  left, is undefined behaviour. \<open>int64_t\<close> and \<open>uint64_t\<close> are interchangeable.
\<close>

datatype 'd vararg =
    Int_Arg "32 word"
  | Long_Arg "64 word"
  | Double_Arg 'd
  | Cstr_Arg "byte list"
  | Stream_Arg "byte list"

fun va_int :: "'d vararg list \<Rightarrow> (32 word \<times> 'd vararg list) res" where
  "va_int (Int_Arg x # args) = Inr (x, args)"
| "va_int args = Inl Undefined"

fun va_long :: "'d vararg list \<Rightarrow> (64 word \<times> 'd vararg list) res" where
  "va_long (Long_Arg x # args) = Inr (x, args)"
| "va_long args = Inl Undefined"

fun va_double :: "'d vararg list \<Rightarrow> ('d \<times> 'd vararg list) res" where
  "va_double (Double_Arg x # args) = Inr (x, args)"
| "va_double args = Inl Undefined"

fun va_cstr :: "'d vararg list \<Rightarrow> (byte list \<times> 'd vararg list) res" where
  "va_cstr (Cstr_Arg x # args) = Inr (x, args)"
| "va_cstr args = Inl Undefined"

fun va_stream :: "'d vararg list \<Rightarrow> (byte list \<times> 'd vararg list) res" where
  "va_stream (Stream_Arg x # args) = Inr (x, args)"
| "va_stream args = Inl Undefined"

datatype 'd target =
    Null
  | Long_Ptr "64 word"
  | Double_Ptr 'd
  | String_Ptr "byte list"

record 'd arg =
  arg_ptr :: "'d target"
  arg_type :: byte
  arg_expanded :: "byte list"

definition DEFAULT_ARG_TYPE_CHAR :: byte where "DEFAULT_ARG_TYPE_CHAR = 124"
definition START_OF_FORMAT_CHAR :: byte where "START_OF_FORMAT_CHAR = 123"
definition END_OF_FORMAT_CHAR :: byte where "END_OF_FORMAT_CHAR = 125"
definition START_OF_INDICATOR_FORMAT_CHAR :: byte where "START_OF_INDICATOR_FORMAT_CHAR = 60"
definition INDICATOR_FORMAT_SEPARATOR :: byte where "INDICATOR_FORMAT_SEPARATOR = 44"

named_theorems format_chars \<open>the characters of a format\<close>

lemmas format_constants [format_chars] =
  DEFAULT_ARG_TYPE_CHAR_def START_OF_FORMAT_CHAR_def END_OF_FORMAT_CHAR_def
  START_OF_INDICATOR_FORMAT_CHAR_def INDICATOR_FORMAT_SEPARATOR_def

definition new_arg :: "'d arg" where
  "new_arg = \<lparr>arg_ptr = Null, arg_type = DEFAULT_ARG_TYPE_CHAR, arg_expanded = []\<rparr>"

definition quoted :: "byte list \<Rightarrow> string" where
  "quoted cs = CHR 0x27 # map (\<lambda>c. char_of (unat c)) cs @ [CHR 0x27]"

section \<open>Modifiers\<close>

text \<open>A conversion that may not end.\<close>

definition converted :: "'a res option \<Rightarrow> 'a parser" where
  "converted r s = map_option (\<lambda>x. (x, s)) r"

lemma converted_Some [simp]: "converted (Some r) = liftF r"
  by (rule ext) (simp add: converted_def liftF_def)

definition parseFloatFormat :: "('d \<Rightarrow> format_opts \<Rightarrow> byte list res option) \<Rightarrow> 'd \<Rightarrow> format_opts \<Rightarrow> byte list parser" where
  "parseFloatFormat fts x opts =
     bindF getF (\<lambda>format_type.
       if format_type = letter CHR ''E'' \<or> format_type = letter CHR ''e''
       then bindF getF (\<lambda>c.
         if c = letter CHR ''+'' \<or> c = letter CHR ''-''
         then let o1 = opts\<lparr>fo_exponential_designator := format_type,
                  fo_exponential := (if c = letter CHR ''-'' then -1 else fo_exponential opts)\<rparr>
           in bindF peekF (\<lambda>c1.
             bindF (if isDigit c1
                    then bindF naturalF (\<lambda>n. liftF (Inr (o1\<lparr>fo_exponential :=
                      sint (of_int (fo_exponential o1 * sint (of_nat n :: 8 word)) :: 16 word)\<rparr>)))
                    else liftF (Inr o1))
               (\<lambda>o2. bindF peekF (\<lambda>next.
                 if next \<noteq> END_OF_FORMAT_CHAR
                 then throwF (''Invalid float format. Expected '' @ quoted [END_OF_FORMAT_CHAR] @
                   '' after the exponential field specifier.'')
                 else converted (fts x o2))))
         else throwF ''Invalid float format.'')
       else if format_type \<noteq> letter CHR ''f''
       then throwF (''Invalid float format with format type: '' @ quoted [format_type])
       else converted (fts x opts))"

definition parseStringCaseModifier :: "byte list \<Rightarrow> 'd arg \<Rightarrow> 'd arg parser" where
  "parseStringCaseModifier val arg =
     bindF ungetF (\<lambda>_. bindF getF (\<lambda>c. bindF getF (\<lambda>next. bindF peekF (\<lambda>nextnext.
       if c = letter CHR ''s'' \<and> next = letter CHR ''l'' \<and> nextnext = END_OF_FORMAT_CHAR
       then liftF (Inr (arg\<lparr>arg_expanded := arg_expanded arg @
         map (\<lambda>c. c + 32) (filter (\<lambda>c. 65 \<le> sint c \<and> 90 \<le> sint c) val)\<rparr>))
       else if c = letter CHR ''s'' \<and> next = letter CHR ''u'' \<and> nextnext = END_OF_FORMAT_CHAR
       then liftF (Inr (arg\<lparr>arg_expanded := arg_expanded arg @
         map (\<lambda>c. c - 32) (filter (\<lambda>c. 97 \<le> sint c \<and> 122 \<le> sint c) val)\<rparr>))
       else throwF (''Invalid 'string with case modifier' format at: '' @ quoted [c, next, nextnext])))))"

text \<open>
  The number modifier, positional and referenced: \<open>formats\<close> is the parser of what follows it,
  \<open>again\<close> the modifier itself. \<open>x\<close> is what the two parsers change: the arguments left and the
  argument in the making, or a copy of an earlier one.
\<close>

definition number_modifier ::
  "(format_opts \<Rightarrow> 'x \<Rightarrow> 'x parser) \<Rightarrow> (format_opts \<Rightarrow> 'x \<Rightarrow> 'x parser) \<Rightarrow> format_opts \<Rightarrow> 'x \<Rightarrow> 'x parser"
where
  "number_modifier formats again opts x =
     bindF naturalF (\<lambda>num. bindF peekF (\<lambda>next.
       if next = letter CHR ''f'' \<or> next = letter CHR ''e'' \<or> next = letter CHR ''E''
       then formats (opts\<lparr>fo_precision := num mod 256\<rparr>) x
       else let o1 = opts\<lparr>fo_width := num mod 256\<rparr> in
         if next = letter CHR ''.'' then bindF getF (\<lambda>_. again o1 x)
         else formats o1 x))"

definition positional_long ::
  "(64 word \<Rightarrow> byte list res) \<Rightarrow> 'd vararg list \<Rightarrow> 'd arg \<Rightarrow> ('d vararg list \<times> 'd arg) parser"
where
  "positional_long conv args arg =
     bindF (liftF (va_long args)) (\<lambda>(n, args').
       bindF (liftF (conv n)) (\<lambda>t.
         liftF (Inr (args', arg\<lparr>arg_expanded := t, arg_ptr := Long_Ptr n\<rparr>))))"

definition positional_double ::
  "('d \<Rightarrow> format_opts \<Rightarrow> byte list res option) \<Rightarrow> format_opts \<Rightarrow> 'd vararg list \<Rightarrow> 'd arg \<Rightarrow>
    ('d vararg list \<times> 'd arg) parser"
where
  "positional_double fts opts args arg =
     bindF (liftF (va_double args)) (\<lambda>(d, args').
       bindF (parseFloatFormat fts d opts) (\<lambda>t.
         liftF (Inr (args', arg\<lparr>arg_expanded := t, arg_ptr := Double_Ptr d, arg_type := letter CHR ''f''\<rparr>))))"

definition positional_case ::
  "('d \<Rightarrow> format_opts \<Rightarrow> byte list res option) \<Rightarrow>
    (format_opts \<Rightarrow> 'd vararg list \<times> 'd arg \<Rightarrow> ('d vararg list \<times> 'd arg) parser) \<Rightarrow>
    format_opts \<Rightarrow> 'd vararg list \<Rightarrow> 'd arg \<Rightarrow> byte \<Rightarrow> byte \<Rightarrow> byte \<Rightarrow> ('d vararg list \<times> 'd arg) parser"
where
  "positional_case fts number opts args arg0 prev c next =
     (let arg = arg0\<lparr>arg_type := c\<rparr>; last = (next = END_OF_FORMAT_CHAR) in
      if last \<and> c = letter CHR ''d''
      then positional_long (\<lambda>n. numToStringSigned n opts) args arg
      else if last \<and> (c = letter CHR ''u'' \<or> c = letter CHR ''x'' \<or> c = letter CHR ''X'')
      then positional_long (\<lambda>n. numToString (unat n)
        (opts\<lparr>fo_base := (if c = letter CHR ''u'' then 10 else 16), fo_upper := (c = letter CHR ''X'')\<rparr>)) args arg
      else if (last \<and> c = letter CHR ''f'') \<or> c = letter CHR ''E'' \<or> c = letter CHR ''e''
      then bindF ungetF (\<lambda>_. positional_double fts opts args arg)
      else if isDigit c
      then bindF ungetF (\<lambda>_. number opts (args, arg))
      else throwF (''Invalid positional format at: '' @ quoted [prev, c, next]))"

definition positional_formats ::
  "('d \<Rightarrow> format_opts \<Rightarrow> byte list res option) \<Rightarrow>
    (format_opts \<Rightarrow> 'd vararg list \<times> 'd arg \<Rightarrow> ('d vararg list \<times> 'd arg) parser) \<Rightarrow>
    format_opts \<Rightarrow> 'd vararg list \<times> 'd arg \<Rightarrow> ('d vararg list \<times> 'd arg) parser"
where
  "positional_formats fts number opts x =
     bindF peekF (\<lambda>prev. bindF getF (\<lambda>c. bindF peekF (\<lambda>next.
       positional_case fts number opts (fst x) (snd x) prev c next)))"

fun parsePositionalNumberModifier ::
  "nat \<Rightarrow> ('d \<Rightarrow> format_opts \<Rightarrow> byte list res option) \<Rightarrow> format_opts \<Rightarrow> 'd vararg list \<times> 'd arg \<Rightarrow>
    ('d vararg list \<times> 'd arg) parser"
where
  "parsePositionalNumberModifier 0 fts opts x s = None"
| "parsePositionalNumberModifier (Suc n) fts opts x s =
     number_modifier (positional_formats fts (parsePositionalNumberModifier n fts))
       (parsePositionalNumberModifier n fts) opts x s"

definition parsePositionalModifiableFormat ::
  "nat \<Rightarrow> ('d \<Rightarrow> format_opts \<Rightarrow> byte list res option) \<Rightarrow> format_opts \<Rightarrow> 'd vararg list \<times> 'd arg \<Rightarrow>
    ('d vararg list \<times> 'd arg) parser"
where
  "parsePositionalModifiableFormat n fts = positional_formats fts (parsePositionalNumberModifier n fts)"

text \<open>A reference to an argument that is not of the type the format asks for.\<close>

definition invalid_reference :: "string \<Rightarrow> 'd arg \<Rightarrow> 'a parser" where
  "invalid_reference expected arg =
     throwF (''Invalid arg reference. Expected non-null pointer and arg.type = '' @ expected @
       ''. Is pointer null? '' @ (if arg_ptr arg = Null then ''1'' else ''0'') @
       ''. Arg type: '' @ quoted [arg_type arg] @ ''.'')"

definition long_of :: "'d target \<Rightarrow> 64 word res" where
  "long_of p = (case p of Long_Ptr n \<Rightarrow> Inr n | _ \<Rightarrow> Inl Undefined)"

definition double_of :: "'d target \<Rightarrow> 'd res" where
  "double_of p = (case p of Double_Ptr d \<Rightarrow> Inr d | _ \<Rightarrow> Inl Undefined)"

definition string_of :: "'d target \<Rightarrow> byte list res" where
  "string_of p = (case p of String_Ptr t \<Rightarrow> Inr t | _ \<Rightarrow> Inl Undefined)"

definition is_unsigned_type :: "byte \<Rightarrow> bool" where
  "is_unsigned_type t \<longleftrightarrow> t = letter CHR ''u'' \<or> t = letter CHR ''x'' \<or> t = letter CHR ''X''"

definition with_text :: "'d arg \<Rightarrow> byte list res \<Rightarrow> 'd arg parser" where
  "with_text arg r = liftF (bindR r (\<lambda>t. Inr (arg\<lparr>arg_expanded := t\<rparr>)))"

definition referenced_double ::
  "('d \<Rightarrow> format_opts \<Rightarrow> byte list res option) \<Rightarrow> format_opts \<Rightarrow> 'd arg \<Rightarrow> 'd arg parser"
where
  "referenced_double fts opts arg =
     bindF (liftF (double_of (arg_ptr arg))) (\<lambda>d.
       bindF (parseFloatFormat fts d opts) (\<lambda>t. with_text arg (Inr t)))"

definition referenced_formats ::
  "('d \<Rightarrow> format_opts \<Rightarrow> byte list res option) \<Rightarrow> (format_opts \<Rightarrow> 'd arg \<Rightarrow> 'd arg parser) \<Rightarrow>
    format_opts \<Rightarrow> 'd arg \<Rightarrow> 'd arg parser"
where
  "referenced_formats fts number opts arg =
     bindF peekF (\<lambda>prev. bindF getF (\<lambda>c. bindF peekF (\<lambda>next.
       let last = (next = END_OF_FORMAT_CHAR) in
       if last \<and> is_unsigned_type c
       then if arg_ptr arg = Null \<or> \<not> is_unsigned_type (arg_type arg)
         then invalid_reference (''u'' @ '', x or X'') arg
         else with_text arg (bindR (long_of (arg_ptr arg)) (\<lambda>n. numToString (unat n)
           (opts\<lparr>fo_base := (if c = letter CHR ''u'' then 10 else 16), fo_upper := (c = letter CHR ''X'')\<rparr>)))
       else if last \<and> c = letter CHR ''d''
       then if arg_ptr arg = Null \<or> arg_type arg \<noteq> letter CHR ''d''
         then invalid_reference ''d'' arg
         else with_text arg (bindR (long_of (arg_ptr arg)) (\<lambda>n. numToStringSigned n opts))
       else if (last \<and> c = letter CHR ''f'') \<or> c = letter CHR ''E'' \<or> c = letter CHR ''e''
       then if arg_ptr arg = Null \<or> arg_type arg \<noteq> letter CHR ''f''
         then invalid_reference ''f'' arg
         else bindF ungetF (\<lambda>_. referenced_double fts opts arg)
       else if isDigit c then bindF ungetF (\<lambda>_. number opts arg)
       else throwF (''Invalid referenced format at: '' @ quoted [prev, c, next]))))"

fun parseReferencedNumberModifier ::
  "nat \<Rightarrow> ('d \<Rightarrow> format_opts \<Rightarrow> byte list res option) \<Rightarrow> format_opts \<Rightarrow> 'd arg \<Rightarrow> 'd arg parser"
where
  "parseReferencedNumberModifier 0 fts opts arg s = None"
| "parseReferencedNumberModifier (Suc n) fts opts arg s =
     number_modifier (referenced_formats fts (parseReferencedNumberModifier n fts))
       (parseReferencedNumberModifier n fts) opts arg s"

definition parseReferencedModifiableFormat ::
  "nat \<Rightarrow> ('d \<Rightarrow> format_opts \<Rightarrow> byte list res option) \<Rightarrow> format_opts \<Rightarrow> 'd arg \<Rightarrow> 'd arg parser"
where
  "parseReferencedModifiableFormat n fts = referenced_formats fts (parseReferencedNumberModifier n fts)"

section \<open>Formats\<close>

definition taken_arg ::
  "('v \<times> 'd vararg list) res \<Rightarrow> ('v \<Rightarrow> 'd arg) \<Rightarrow> ('d vararg list \<times> 'd arg) parser"
where
  "taken_arg r f = liftF (bindR r (\<lambda>(v, args'). Inr (args', f v)))"

definition taken_case :: "'d vararg list \<Rightarrow> 'd arg \<Rightarrow> ('d vararg list \<times> 'd arg) parser" where
  "taken_case args arg =
     bindF (liftF (va_cstr args)) (\<lambda>(t, args').
       bindF (parseStringCaseModifier t (arg\<lparr>arg_ptr := String_Ptr t\<rparr>)) (\<lambda>a. liftF (Inr (args', a))))"

definition positional_format_case ::
  "nat \<Rightarrow> ('d \<Rightarrow> format_opts \<Rightarrow> byte list res option) \<Rightarrow> 'd vararg list \<Rightarrow> 'd arg \<Rightarrow> byte \<Rightarrow> byte \<Rightarrow>
    ('d vararg list \<times> 'd arg) parser"
where
  "positional_format_case n fts args arg0 c next =
     (let arg = arg0\<lparr>arg_type := c\<rparr>; last = (next = END_OF_FORMAT_CHAR); opts = default_opts in
      if last \<and> c = letter CHR ''b''
      then taken_arg (va_int args) (\<lambda>i.
        arg\<lparr>arg_expanded := (if i \<noteq> 0 then bytes ''true'' else bytes ''false'')\<rparr>)
      else if last \<and> c = letter CHR ''t''
      then taken_arg (va_stream args) (\<lambda>t.
        arg\<lparr>arg_expanded := arg_expanded arg @ filter (\<lambda>b. b \<noteq> -1) t\<rparr>)
      else if last \<and> c = letter CHR ''c''
      then taken_arg (va_int args) (\<lambda>i. arg\<lparr>arg_expanded := arg_expanded arg @ [ucast i]\<rparr>)
      else if last \<and> c = letter CHR ''s''
      then taken_arg (va_cstr args) (\<lambda>t. arg\<lparr>arg_expanded := t, arg_ptr := String_Ptr t\<rparr>)
      else if c = letter CHR ''s'' \<and> (next = letter CHR ''l'' \<or> next = letter CHR ''u'')
      then taken_case args arg
      else if c = letter CHR ''+''
      then parsePositionalModifiableFormat n fts (opts\<lparr>fo_sign_mask := 3\<rparr>) (args, arg)
      else if c = letter CHR ''-''
      then parsePositionalModifiableFormat n fts (opts\<lparr>fo_sign_mask := NO_SIGN\<rparr>) (args, arg)
      else if isDigit c
      then bindF ungetF (\<lambda>_. parsePositionalNumberModifier n fts opts (args, arg))
      else bindF ungetF (\<lambda>_. parsePositionalModifiableFormat n fts opts (args, arg)))"

text \<open>The byte behind the format, its end, is taken in every case.\<close>

definition closed :: "'a parser \<Rightarrow> 'a parser" where
  "closed m = bindF m (\<lambda>r. bindF getF (\<lambda>_. liftF (Inr r)))"

definition parsePositionalFormat ::
  "nat \<Rightarrow> ('d \<Rightarrow> format_opts \<Rightarrow> byte list res option) \<Rightarrow> 'd vararg list \<Rightarrow> 'd arg \<Rightarrow> ('d vararg list \<times> 'd arg) parser"
where
  "parsePositionalFormat n fts args arg0 =
     bindF peekF (\<lambda>prev. bindF getF (\<lambda>c. bindF peekF (\<lambda>next.
       closed (positional_format_case n fts args arg0 c next))))"

definition parseReferencedFormatOverride ::
  "nat \<Rightarrow> ('d \<Rightarrow> format_opts \<Rightarrow> byte list res option) \<Rightarrow> 'd arg \<Rightarrow> 'd arg parser"
where
  "parseReferencedFormatOverride n fts arg =
     bindF peekF (\<lambda>prev. bindF getF (\<lambda>c. bindF peekF (\<lambda>next.
       let last = (next = END_OF_FORMAT_CHAR); opts = default_opts in
       closed
         (if last \<and> (c = letter CHR ''b'' \<or> c = letter CHR ''c'' \<or> c = letter CHR ''t'' \<or> c = letter CHR ''s'')
          then liftF (Inr arg)
          else if c = letter CHR ''s'' \<and> (next = letter CHR ''l'' \<or> next = letter CHR ''u'')
          then if arg_ptr arg = Null \<or> arg_type arg \<noteq> letter CHR ''s''
            then invalid_reference ''s'' arg
            else bindF (liftF (string_of (arg_ptr arg))) (\<lambda>t. parseStringCaseModifier t arg)
          else if c = letter CHR ''+''
          then parseReferencedModifiableFormat n fts (opts\<lparr>fo_sign_mask := 3\<rparr>) arg
          else if c = letter CHR ''-''
          then parseReferencedModifiableFormat n fts (opts\<lparr>fo_sign_mask := NO_SIGN\<rparr>) arg
          else if isDigit c
          then bindF ungetF (\<lambda>_. parseReferencedNumberModifier n fts opts arg)
          else bindF ungetF (\<lambda>_. parseReferencedModifiableFormat n fts opts arg)))))"

text \<open>The state of the first pass: the arguments left, the output, the arguments parsed.\<close>

record 'd format_state =
  fs_args :: "'d vararg list"
  fs_out :: "byte list"
  fs_converted :: "'d arg list"
  fs_reference :: bool
  fs_escaped :: bool

definition plain_format :: "'d vararg list \<Rightarrow> ('d vararg list \<times> 'd arg) parser" where
  "plain_format args = bindF getF (\<lambda>_. taken_arg (va_cstr args) (\<lambda>t. new_arg\<lparr>arg_expanded := t\<rparr>))"

definition parseFormat ::
  "nat \<Rightarrow> ('d \<Rightarrow> format_opts \<Rightarrow> byte list res option) \<Rightarrow> 'd format_state \<Rightarrow> 'd format_state parser"
where
  "parseFormat n fts st =
     bindF peekF (\<lambda>c.
       if c = START_OF_INDICATOR_FORMAT_CHAR
       then liftF (Inr (st\<lparr>fs_out := fs_out st @ [START_OF_FORMAT_CHAR], fs_reference := True\<rparr>))
       else bindF
         (bindF peekF (\<lambda>c1.
            if c1 = END_OF_FORMAT_CHAR then plain_format (fs_args st)
            else parsePositionalFormat n fts (fs_args st) new_arg))
         (\<lambda>(args', arg). liftF (Inr (st\<lparr>fs_args := args', fs_out := fs_out st @ arg_expanded arg,
            fs_converted := fs_converted st @ [arg]\<rparr>))))"

text \<open>The reference to argument \<open>num\<close>, counted from one: used as it is, or formatted again.\<close>

definition selected_format ::
  "nat \<Rightarrow> ('d \<Rightarrow> format_opts \<Rightarrow> byte list res option) \<Rightarrow> 'd arg list \<Rightarrow> byte list \<Rightarrow> nat \<Rightarrow> byte list parser"
where
  "selected_format n fts args out num =
     (let selection = sub64 num 1 in
      if selection = size_max \<or> length args \<le> selection
      then throwF (''Invalid selection in reference format: '' @
        map (\<lambda>d. char_of (unat d)) (digits_of default_opts selection))
      else bindF getF (\<lambda>c.
        let arg = args ! selection in
        bindF (if c = INDICATOR_FORMAT_SEPARATOR then parseReferencedFormatOverride n fts arg
               else if c \<noteq> END_OF_FORMAT_CHAR
               then throwF (''Invalid reference format. The following character is expected to be a comma: '' @
                 [char_of (unat c)])
               else liftF (Inr arg))
          (\<lambda>a. liftF (Inr (out @ arg_expanded a)))))"

definition parseReferenceFormat ::
  "nat \<Rightarrow> ('d \<Rightarrow> format_opts \<Rightarrow> byte list res option) \<Rightarrow> 'd arg list \<Rightarrow> byte list \<Rightarrow> byte list parser"
where
  "parseReferenceFormat n fts args out =
     bindF getF (\<lambda>c.
       if c \<noteq> START_OF_INDICATOR_FORMAT_CHAR
       then throwF (''Invalid reference format. A reference format must start with a '' @
         quoted [START_OF_INDICATOR_FORMAT_CHAR] @ '' and the following character was detected: '' @ quoted [c])
       else bindF peekF (\<lambda>c1.
         if \<not> isDigit c1
         then throwF (''Invalid reference format. A reference format must start with a '' @
           quoted [START_OF_INDICATOR_FORMAT_CHAR] @
           '' and number - the following character was detected: '' @ quoted [c1])
         else bindF naturalF (selected_format n fts args out)))"

section \<open>The two passes\<close>

fun first_pass ::
  "nat \<Rightarrow> nat \<Rightarrow> ('d \<Rightarrow> format_opts \<Rightarrow> byte list res option) \<Rightarrow> 'd format_state \<Rightarrow> 'd format_state parser"
where
  "first_pass 0 m fts st s = None"
| "first_pass (Suc n) m fts st s =
     (case good s of
        (False, s1) \<Rightarrow> Some (Inr st, s1)
      | (True, s1) \<Rightarrow>
          bindF getF (\<lambda>c.
            let ordinary = (if c = START_OF_FORMAT_CHAR
                then bindF (parseFormat m fts st) (first_pass n m fts)
                else first_pass n m fts (st\<lparr>fs_out := fs_out st @ [c]\<rparr>)) in
            if c = 92
            then bindF peekF (\<lambda>next.
              if next = START_OF_FORMAT_CHAR \<or> next = END_OF_FORMAT_CHAR
              then bindF getF (\<lambda>_. first_pass n m fts
                (st\<lparr>fs_out := fs_out st @ [c, next], fs_escaped := True\<rparr>))
              else ordinary)
            else ordinary) s1)"

fun second_pass ::
  "nat \<Rightarrow> nat \<Rightarrow> ('d \<Rightarrow> format_opts \<Rightarrow> byte list res option) \<Rightarrow> 'd arg list \<Rightarrow> byte list \<Rightarrow> byte list parser"
where
  "second_pass 0 m fts args out s = None"
| "second_pass (Suc n) m fts args out s =
     (case good s of
        (False, s1) \<Rightarrow> Some (Inr out, s1)
      | (True, s1) \<Rightarrow>
          bindF getF (\<lambda>c.
            let ordinary = (if c = START_OF_FORMAT_CHAR
                then bindF (parseReferenceFormat m fts args out) (second_pass n m fts args)
                else second_pass n m fts args (out @ [c])) in
            if c = 92
            then bindF peekF (\<lambda>next.
              if next = START_OF_FORMAT_CHAR \<or> next = END_OF_FORMAT_CHAR
              then bindF getF (\<lambda>_. second_pass n m fts args (out @ [next]))
              else ordinary)
            else ordinary) s1)"

definition deleteArgs :: "'d arg list \<Rightarrow> unit res" where
  "deleteArgs args =
     (case dropWhile (\<lambda>a. is_unsigned_type (arg_type a) \<or>
         arg_type a \<in> {letter CHR ''d'', letter CHR ''f'', letter CHR ''s'', DEFAULT_ARG_TYPE_CHAR} \<or>
         arg_ptr a = Null) args of
        [] \<Rightarrow> Inr ()
      | a # _ \<Rightarrow> Inl (Runtime_Error
          (''Invalid type detected in reference args structure - failed to delete. Type identifier: '' @
           [char_of (unat (arg_type a))])))"

text \<open>
  What follows the first pass where there were references or escapes: over the text \<open>fs_out\<close>, if its
  stream is intact. A pass takes at least one byte in each round and a number modifier in each
  call, so the length of the string is fuel enough.
\<close>

definition format_references ::
  "('d \<Rightarrow> format_opts \<Rightarrow> byte list res option) \<Rightarrow> 'd format_state \<Rightarrow> byte list res option"
where
  "format_references fts st1 =
     (let m = Suc (length (fs_out st1)) in
      case second_pass m m fts (fs_converted st1) [] (EStream_memory (fs_out st1)) of
        None \<Rightarrow> None
      | Some (Inl e, _) \<Rightarrow> Some (Inl e)
      | Some (Inr out, _) \<Rightarrow> Some (bindR (deleteArgs (fs_converted st1)) (\<lambda>_. Inr out)))"

text \<open>
  The stream of \<open>format\<close>: made over the format, assigned \<open>ByteEStream(format.data(), format.size())\<close> for
  the second pass, destroyed at the end.
\<close>

definition second_stream :: "nat \<Rightarrow> nat \<Rightarrow> block_store res" where
  "second_stream format_size out_size =
     (case ByteEStream_memory format_size empty_store of (s, h) \<Rightarrow>
        bindR (assign_memory_stream s out_size h) (\<lambda>(s', h'). ByteEStream_destroy s' h'))"

definition format_text :: "'d float_ops \<Rightarrow> byte list \<Rightarrow> 'd vararg list \<Rightarrow> byte list res option" where
  "format_text fl fmt args =
     (let n = Suc (length fmt);
          st = \<lparr>fs_args = args, fs_out = [], fs_converted = [], fs_reference = False, fs_escaped = False\<rparr>
      in case first_pass n n (floatToString fl) st (EStream_memory fmt) of
           None \<Rightarrow> None
         | Some (Inl e, _) \<Rightarrow> Some (Inl e)
         | Some (Inr st1, _) \<Rightarrow>
             if fs_escaped st1 \<or> fs_reference st1
             then (case second_stream (length fmt) (length (fs_out st1)) of
                     Inl e \<Rightarrow> Some (Inl e)
                   | Inr _ \<Rightarrow> format_references (floatToString fl) st1)
             else Some (bindR (deleteArgs (fs_converted st1)) (\<lambda>_. Inr (fs_out st1))))"

lemma second_stream_undefined: "second_stream n m = Inl Undefined"
proof -
  obtain s h where s: "ByteEStream_memory n empty_store = (s, h)" by fastforce
  from assign_memory_dangles [OF memory_older [OF s], of m] show ?thesis
    by (auto simp: second_stream_def s dangles_def)
qed

section \<open>Every run ends\<close>

lemma ok_invalid_reference [simp]: "ok P (invalid_reference m arg s)"
  by (simp add: invalid_reference_def)

text \<open>\<open>returns fts\<close>: every conversion of a number ends.\<close>

definition returns :: "('d \<Rightarrow> format_opts \<Rightarrow> byte list res option) \<Rightarrow> bool" where
  "returns fts \<longleftrightarrow> (\<forall>d opts. fts d opts \<noteq> None)"

lemma ok_converted:
  assumes "returns fts" and "remaining s xs" and "length xs \<le> n"
  shows "ok (fits n) (converted (fts d opts) s)"
proof -
  obtain r where "fts d opts = Some r" using assms(1) unfolding returns_def by (metis not_None_eq)
  then show ?thesis using assms(2,3) by (auto intro: ok_lift)
qed

lemma float_ends:
  assumes total: "returns fts" and "remaining s xs"
  shows "ok (fits (length xs)) (parseFloatFormat fts d opts s)"
proof -
  have rest: "ok (fits n) (bindF peekF (\<lambda>next. if next \<noteq> END_OF_FORMAT_CHAR then throwF m
      else converted (fts d o2)) s')" if "remaining s' ys" "length ys \<le> n" for s' ys n m o2
    by (rule ok_peek [OF that(1)]) (use that(2) in \<open>auto intro: ok_converted [OF total]\<close>)
  show ?thesis
    unfolding parseFloatFormat_def
  proof (rule ok_get [OF assms(2)], goal_cases)
    case (1 t ys s1)
    have "ok (fits (length xs)) (bindF peekF (\<lambda>c1. bindF (if isDigit c1
        then bindF naturalF (\<lambda>n. liftF (Inr (o1\<lparr>fo_exponential :=
          sint (of_int (fo_exponential o1 * sint (of_nat n :: 8 word)) :: 16 word)\<rparr>)))
        else liftF (Inr o1)) (\<lambda>o2. bindF peekF (\<lambda>next. if next \<noteq> END_OF_FORMAT_CHAR then throwF m
      else converted (fts d o2)))) s2)" if r: "remaining s2 zs" "length zs \<le> length xs" for o1 m s2 zs
    proof (rule ok_peek [OF r(1)], rule ok_bind [where Q = "fits (length zs)"], goal_cases)
      case (1 c ws s')
      have "length (y # ys) \<le> length zs" if "zs = ds @ y # ys" for ds y ys using that by simp
      then show ?case using 1(3) by (auto intro!: ok_natural [OF 1(3)] ok_lift)
    next
      case (2 c ws s' v s'' us)
      show ?case by (rule rest [OF 2(4)]) (use 2(5) r(2) in linarith)
    qed
    then show ?case
      using 1 by (auto simp: Let_def intro!: ok_get [OF 1(3)] ok_converted [OF total 1(3)])
  qed
qed

lemma modifier_ends:
  assumes "remaining s xs"
    and "\<And>o1 s' y ys. remaining s' (y # ys) \<Longrightarrow> Suc (length ys) \<le> length xs \<Longrightarrow> \<not> isDigit y \<Longrightarrow>
      ok (fits (Suc (length ys))) (formats o1 x s')"
    and "\<And>o1 s' ys. remaining s' ys \<Longrightarrow> length ys < length xs \<Longrightarrow> ok (fits (length ys)) (again o1 x s')"
  shows "ok (fits (length xs)) (number_modifier formats again opts x s)"
  unfolding number_modifier_def
proof (rule ok_natural [OF assms(1)], rule ok_peek, assumption, goal_cases)
  case (1 ds y ys s1 c zs s2)
  have le: "Suc (length ys) \<le> length xs" using 1 by simp
  have "ok (fits (length xs)) (formats o1 x s2)" for o1
    by (rule ok_mono [OF assms(2) [of s2 y ys]]) (use 1 le in simp_all)
  moreover have "ok (fits (length xs)) (bindF getF (\<lambda>_. again o1 x) s2)" for o1
  proof (rule ok_get [OF 1(7)], goal_cases)
    case (1 d us s3)
    show ?case by (rule ok_mono [OF assms(3) [of s3 us]]) (use 1 le in auto)
  qed
  ultimately show ?case by (simp add: Let_def)
qed

lemma long_ends: "remaining s xs \<Longrightarrow> ok (fits (length xs)) (positional_long conv args arg s)"
  unfolding positional_long_def
  by (rule ok_lift_bind, assumption, clarsimp, rule ok_lift_bind, assumption, erule ok_lift) simp_all

lemma double_ends: "returns fts \<Longrightarrow> remaining s xs \<Longrightarrow> ok (fits (length xs)) (positional_double fts opts args arg s)"
  unfolding positional_double_def
  by (rule ok_lift_bind, assumption, clarsimp, rule ok_bind, erule (1) float_ends, erule ok_lift) simp_all

lemma positional_ends:
  assumes "remaining s xs"
    and "\<And>o1 x s'. xs \<noteq> [] \<Longrightarrow> isDigit (hd xs) \<Longrightarrow> remaining s' xs \<Longrightarrow> ok (fits (length xs)) (number o1 x s')"
    and total: "returns fts"
  shows "ok (fits (length xs)) (positional_formats fts number opts x s)"
proof (cases x)
  case (Pair args arg0)
  show ?thesis
    unfolding positional_formats_def positional_case_def Pair fst_conv snd_conv
  proof (rule ok_look [OF assms(1)], goal_cases)
    case (1 c n ys s')
    have le: "length (n # ys) \<le> length xs" using 1(1) by simp
    have "ok (fits (length xs)) (bindF ungetF (\<lambda>_. positional_double fts opts args a) s')" for a
      by (rule ok_unget, rule double_ends [OF total 1(3)])
    moreover have "isDigit c \<Longrightarrow> ok (fits (length xs)) (bindF ungetF (\<lambda>_. number opts y) s')" for y
      by (rule ok_unget, rule assms(2)) (use 1 in simp_all)
    moreover have "ok (fits (length xs)) (positional_long conv args a s')" for conv a
      by (rule ok_mono [OF long_ends [OF 1(2)] le])
    ultimately show ?case by (simp add: Let_def)
  qed
qed

lemma positional_number_ends:
  "returns fts \<Longrightarrow> remaining s xs \<Longrightarrow> length xs < n \<Longrightarrow>
    ok (fits (length xs)) (parsePositionalNumberModifier n fts opts x s)"
proof (induction n arbitrary: s xs opts x)
  case (Suc n)
  show ?case
    unfolding parsePositionalNumberModifier.simps
  proof (rule modifier_ends [OF Suc.prems(2)], goal_cases)
    case (1 o1 s' y ys)
    have "ok (fits (length (y # ys)))
        (positional_formats fts (parsePositionalNumberModifier n fts) o1 x s')"
      by (rule positional_ends [OF 1(1)]) (use 1(3) Suc.prems(1) in simp_all)
    then show ?case by simp
  next
    case (2 o1 s' ys)
    show ?case by (rule Suc.IH) (use 2 Suc.prems in simp_all)
  qed
qed simp

lemma positional_modifiable_ends:
  "returns fts \<Longrightarrow> remaining s xs \<Longrightarrow> length xs < n \<Longrightarrow>
    ok (fits (length xs)) (parsePositionalModifiableFormat n fts opts x s)"
  unfolding parsePositionalModifiableFormat_def
  by (rule positional_ends, assumption) (rule positional_number_ends)

lemma with_text_ends: "remaining s xs \<Longrightarrow> ok (fits (length xs)) (with_text arg r s)"
  unfolding with_text_def by (erule ok_lift) simp

lemma referenced_double_ends: "returns fts \<Longrightarrow> remaining s xs \<Longrightarrow> ok (fits (length xs)) (referenced_double fts opts arg s)"
  unfolding referenced_double_def
  by (rule ok_lift_bind, assumption, rule ok_bind, erule (1) float_ends, rule ok_mono, erule with_text_ends)

lemma referenced_ends:
  assumes "remaining s xs"
    and "\<And>o1 x s'. xs \<noteq> [] \<Longrightarrow> isDigit (hd xs) \<Longrightarrow> remaining s' xs \<Longrightarrow> ok (fits (length xs)) (number o1 x s')"
    and total: "returns fts"
  shows "ok (fits (length xs)) (referenced_formats fts number opts arg s)"
  unfolding referenced_formats_def
proof (rule ok_look [OF assms(1)], goal_cases)
  case (1 c n ys s')
  have le: "length (n # ys) \<le> length xs" using 1(1) by simp
  have "ok (fits (length xs)) (bindF ungetF (\<lambda>_. referenced_double fts opts arg) s')"
    by (rule ok_unget, rule referenced_double_ends [OF total 1(3)])
  moreover have "isDigit c \<Longrightarrow> ok (fits (length xs)) (bindF ungetF (\<lambda>_. number opts arg) s')"
    by (rule ok_unget, rule assms(2)) (use 1 in simp_all)
  moreover have "ok (fits (length xs)) (with_text arg r s')" for r
    by (rule ok_mono [OF with_text_ends [OF 1(2)] le])
  ultimately show ?case by (simp add: Let_def)
qed

lemma referenced_number_ends:
  "returns fts \<Longrightarrow> remaining s xs \<Longrightarrow> length xs < n \<Longrightarrow>
    ok (fits (length xs)) (parseReferencedNumberModifier n fts opts x s)"
proof (induction n arbitrary: s xs opts x)
  case (Suc n)
  show ?case
    unfolding parseReferencedNumberModifier.simps
  proof (rule modifier_ends [OF Suc.prems(2)], goal_cases)
    case (1 o1 s' y ys)
    have "ok (fits (length (y # ys)))
        (referenced_formats fts (parseReferencedNumberModifier n fts) o1 x s')"
      by (rule referenced_ends [OF 1(1)]) (use 1(3) Suc.prems(1) in simp_all)
    then show ?case by simp
  next
    case (2 o1 s' ys)
    show ?case by (rule Suc.IH) (use 2 Suc.prems in simp_all)
  qed
qed simp

lemma referenced_modifiable_ends:
  "returns fts \<Longrightarrow> remaining s xs \<Longrightarrow> length xs < n \<Longrightarrow>
    ok (fits (length xs)) (parseReferencedModifiableFormat n fts opts x s)"
  unfolding parseReferencedModifiableFormat_def
  by (rule referenced_ends, assumption) (rule referenced_number_ends)

text \<open>The case modifier starts with the byte put back.\<close>

lemma case_ends:
  assumes "remaining (unget s) xs"
  shows "ok (fits (length xs)) (parseStringCaseModifier val arg s)"
  unfolding parseStringCaseModifier_def
proof (rule ok_unget, rule ok_get [OF assms], rule ok_get, assumption, rule ok_peek, assumption, goal_cases)
  case (1 c ys s1 d zs s2 e us s3)
  then show ?case by (auto intro: ok_lift [OF 1(9)])
qed

text \<open>What the overrides have in common: a last byte is taken after the format.\<close>

lemma closed_ends:
  assumes "ok (fits n) (m s)"
  shows "ok (fits n) (closed m s)"
  unfolding closed_def
proof (rule ok_bind [where Q = "fits n" and m = m and s = s], rule assms, goal_cases)
  case (1 v s' ys)
  then show ?case by (intro ok_get [OF 1(1)]) (auto intro: ok_lift)
qed

lemma positional_format_ends:
  assumes "remaining s xs" "length xs < n"
    and total: "returns fts"
  shows "ok (fits (length xs)) (parsePositionalFormat n fts args arg0 s)"
  unfolding parsePositionalFormat_def positional_format_case_def
proof (rule ok_look [OF assms(1)], goal_cases)
  case (1 c k ys s')
  have le: "length (k # ys) \<le> length xs" "length (k # ys) < n" using 1(1) assms(2) by simp_all
  have "ok (fits (length xs)) (taken_arg r f s')" for r :: "('v \<times> 'd vararg list) res" and f :: "'v \<Rightarrow> 'd arg"
    unfolding taken_arg_def by (rule ok_lift [OF 1(2)]) (use le in simp)
  note taken = this
  have "ok (fits (length xs)) (taken_case args a s')" for a
    unfolding taken_case_def
    by (rule ok_lift_bind [OF 1(2)], clarsimp, rule ok_bind, rule case_ends [OF 1(3)], erule ok_lift) simp
  moreover have "ok (fits (length xs)) (parsePositionalModifiableFormat n fts o1 x s')" for o1 x
    by (rule ok_mono [OF positional_modifiable_ends [OF total 1(2) le(2)] le(1)])
  moreover have "ok (fits (length xs)) (bindF ungetF (\<lambda>_. parsePositionalModifiableFormat n fts o1 x) s')" for o1 x
    by (rule ok_unget, rule positional_modifiable_ends [OF total 1(3) assms(2)])
  moreover have "ok (fits (length xs)) (bindF ungetF (\<lambda>_. parsePositionalNumberModifier n fts o1 x) s')" for o1 x
    by (rule ok_unget, rule positional_number_ends [OF total 1(3) assms(2)])
  ultimately show ?case unfolding Let_def by (intro closed_ends) (simp add: taken)
qed

lemma referenced_override_ends:
  assumes "remaining s xs" "length xs < n"
    and total: "returns fts"
  shows "ok (fits (length xs)) (parseReferencedFormatOverride n fts arg s)"
  unfolding parseReferencedFormatOverride_def
proof (rule ok_look [OF assms(1)], goal_cases)
  case (1 c k ys s')
  have le: "length (k # ys) \<le> length xs" "length (k # ys) < n" using 1(1) assms(2) by simp_all
  have "ok (fits (length xs)) (liftF (Inr arg) s')" by (rule ok_lift [OF 1(2)]) (use le in simp)
  moreover have "ok (fits (length xs)) (bindF (liftF (string_of (arg_ptr arg))) (\<lambda>t. parseStringCaseModifier t arg) s')"
    by (rule ok_lift_bind [OF 1(2)], rule case_ends [OF 1(3)])
  moreover have "ok (fits (length xs)) (parseReferencedModifiableFormat n fts o1 x s')" for o1 x
    by (rule ok_mono [OF referenced_modifiable_ends [OF total 1(2) le(2)] le(1)])
  moreover have "ok (fits (length xs)) (bindF ungetF (\<lambda>_. parseReferencedModifiableFormat n fts o1 x) s')" for o1 x
    by (rule ok_unget, rule referenced_modifiable_ends [OF total 1(3) assms(2)])
  moreover have "ok (fits (length xs)) (bindF ungetF (\<lambda>_. parseReferencedNumberModifier n fts o1 x) s')" for o1 x
    by (rule ok_unget, rule referenced_number_ends [OF total 1(3) assms(2)])
  ultimately show ?case unfolding Let_def by (intro closed_ends) simp
qed

lemma plain_ends: "remaining s xs \<Longrightarrow> ok (fits (length xs)) (plain_format args s)"
  unfolding plain_format_def taken_arg_def by (erule ok_get, erule ok_lift) simp

lemma parse_format_ends:
  assumes "remaining s xs" "length xs < n"
    and total: "returns fts"
  shows "ok (fits (length xs)) (parseFormat n fts st s)"
  unfolding parseFormat_def
proof (rule ok_peek [OF assms(1)], goal_cases)
  case (1 c ys s1)
  have "ok (fits (length xs)) (bindF (bindF peekF (\<lambda>c1.
      if c1 = END_OF_FORMAT_CHAR then plain_format (fs_args st)
      else parsePositionalFormat n fts (fs_args st) new_arg)) (\<lambda>(args', arg). liftF (Inr (f args' arg))) s1)" for f
  proof (rule ok_bind [where Q = "fits (length xs)"], goal_cases)
    case 1
    show ?case
    proof (rule ok_peek [OF \<open>remaining s1 xs\<close>], goal_cases)
      case (1 d zs s2)
      show ?case by (simp add: plain_ends [OF 1(3)] positional_format_ends [OF 1(3) assms(2) total])
    qed
  next
    case (2 v s' us)
    then show ?case by (cases v) (auto intro: ok_lift)
  qed
  note bound = this
  show ?case by (simp add: ok_lift [OF 1(3)] bound)
qed

lemma selected_ends:
  assumes "remaining s ys" "length ys \<le> n"
    and total: "returns fts"
  shows "ok (fits (length ys)) (selected_format n fts args out num s)"
proof -
  have "ok (fits (length ys)) (bindF (if c = INDICATOR_FORMAT_SEPARATOR then parseReferencedFormatOverride n fts arg
      else if c \<noteq> END_OF_FORMAT_CHAR then throwF m else liftF (Inr arg))
      (\<lambda>a. liftF (Inr (out @ arg_expanded a))) s3)"
    if r: "remaining s3 zs" "ys = d # zs" for c m arg s3 d zs
  proof (rule ok_bind [where Q = "fits (length zs)"], goal_cases)
    case 1
    then show ?case
      using referenced_override_ends [OF r(1), of n fts arg] r(2) assms(2) total
      by (auto intro: ok_lift [OF r(1)])
  next
    case (2 v s' us)
    then show ?case using r(2) by (auto intro: ok_lift)
  qed
  then have "ok (fits (length ys)) (bindF getF (\<lambda>c. bindF (if c = INDICATOR_FORMAT_SEPARATOR
      then parseReferencedFormatOverride n fts arg
      else if c \<noteq> END_OF_FORMAT_CHAR then throwF (m c) else liftF (Inr arg))
      (\<lambda>a. liftF (Inr (out @ arg_expanded a)))) s)" for m arg
    by (intro ok_get [OF assms(1)]) blast
  then show ?thesis unfolding selected_format_def Let_def by simp
qed

lemma reference_format_ends:
  assumes "remaining s xs" "length xs \<le> n"
    and total: "returns fts"
  shows "ok (fits (length xs)) (parseReferenceFormat n fts args out s)"
  unfolding parseReferenceFormat_def
proof (rule ok_get [OF assms(1)], goal_cases)
  case (1 c ys s1)
  have "ok (fits (length xs)) (bindF peekF (\<lambda>c1. if \<not> isDigit c1 then throwF (m c1)
      else bindF naturalF (selected_format n fts args out)) s1)" for m
  proof (rule ok_peek [OF 1(3)], goal_cases)
    case (1 d zs s2)
    have "ok (fits (length xs)) (bindF naturalF (selected_format n fts args out) s2)"
    proof (rule ok_natural [OF 1(3)], goal_cases)
      case (1 ds y us s')
      show ?case
        by (rule ok_mono [OF selected_ends [OF 1(4) _ total]]) (use 1(1) \<open>xs = c # ys\<close> assms(2) in simp_all)
    qed
    then show ?case by simp
  qed
  then show ?case by simp
qed

text \<open>A pass takes a byte in each round.\<close>

lemma pass_good: "remaining s xs \<Longrightarrow> (xs \<noteq> [] \<Longrightarrow> good s = (True, s) \<Longrightarrow> ok P (f s)) \<Longrightarrow>
    (\<And>s'. xs = [] \<Longrightarrow> remaining s' [] \<Longrightarrow> ok P (Some (Inr v, s'))) \<Longrightarrow>
    ok P (case good s of (False, s1) \<Rightarrow> Some (Inr v, s1) | (True, s1) \<Rightarrow> f s1)"
  using good_remaining [of s xs] by (cases "xs = []") auto

lemma first_pass_ends:
  "returns fts \<Longrightarrow> remaining s xs \<Longrightarrow> length xs < n \<Longrightarrow> length xs < m \<Longrightarrow> ok (\<lambda>_ _. True) (first_pass n m fts st s)"
proof (induction n arbitrary: s xs st)
  case (Suc n)
  have IH: "ok (\<lambda>_ _. True) (first_pass n m fts st' s')"
    if "remaining s' ys" "length ys < length xs" for s' ys st'
    by (rule Suc.IH [OF Suc.prems(1) that(1)]) (use that(2) Suc.prems in simp_all)
  show ?case
    unfolding first_pass.simps
  proof (rule pass_good [OF Suc.prems(2)], rule ok_get [OF Suc.prems(2)], goal_cases)
    case (1 c ys s1)
    have ordinary: "ok (\<lambda>_ _. True) ((if c = START_OF_FORMAT_CHAR
        then bindF (parseFormat m fts st) (first_pass n m fts) else first_pass n m fts st') s')"
      if "remaining s' ys" for st' s'
    proof -
      have "ok (\<lambda>_ _. True) (bindF (parseFormat m fts st) (first_pass n m fts) s')"
        by (rule ok_bind, rule parse_format_ends [OF that]) (use 1 Suc.prems IH in auto)
      then show ?thesis using IH [OF that] 1 by simp
    qed
    have "ok (\<lambda>_ _. True) (bindF getF (\<lambda>_. first_pass n m fts st') s')" if "remaining s' ys" for st' s'
      by (rule ok_get [OF that], rule IH, assumption) (use 1 in simp)
    then have "ok (\<lambda>_ _. True) (bindF peekF (\<lambda>next. if next = START_OF_FORMAT_CHAR \<or> next = END_OF_FORMAT_CHAR
        then bindF getF (\<lambda>_. first_pass n m fts (st' next))
        else (if c = START_OF_FORMAT_CHAR then bindF (parseFormat m fts st) (first_pass n m fts)
          else first_pass n m fts st'')) s1)" for st' st''
      using ordinary by (intro ok_peek [OF 1(5)]) simp
    then show ?case using ordinary [OF 1(5)] unfolding Let_def by simp
  qed (auto simp: ok_def)
qed simp

lemma second_pass_ends:
  "returns fts \<Longrightarrow> remaining s xs \<Longrightarrow> length xs < n \<Longrightarrow> length xs < m \<Longrightarrow> ok (\<lambda>_ _. True) (second_pass n m fts args out s)"
proof (induction n arbitrary: s xs out)
  case (Suc n)
  have IH: "ok (\<lambda>_ _. True) (second_pass n m fts args out' s')"
    if "remaining s' ys" "length ys < length xs" for s' ys out'
    by (rule Suc.IH [OF Suc.prems(1) that(1)]) (use that(2) Suc.prems in simp_all)
  show ?case
    unfolding second_pass.simps
  proof (rule pass_good [OF Suc.prems(2)], rule ok_get [OF Suc.prems(2)], goal_cases)
    case (1 c ys s1)
    have ordinary: "ok (\<lambda>_ _. True) ((if c = START_OF_FORMAT_CHAR
        then bindF (parseReferenceFormat m fts args out) (second_pass n m fts args)
        else second_pass n m fts args out') s')"
      if "remaining s' ys" for out' s'
    proof -
      have "ok (\<lambda>_ _. True) (bindF (parseReferenceFormat m fts args out) (second_pass n m fts args) s')"
        by (rule ok_bind, rule reference_format_ends [OF that]) (use 1 Suc.prems IH in auto)
      then show ?thesis using IH [OF that] 1 by simp
    qed
    have "ok (\<lambda>_ _. True) (bindF getF (\<lambda>_. second_pass n m fts args out') s')" if "remaining s' ys" for out' s'
      by (rule ok_get [OF that], rule IH, assumption) (use 1 in simp)
    then have "ok (\<lambda>_ _. True) (bindF peekF (\<lambda>next. if next = START_OF_FORMAT_CHAR \<or> next = END_OF_FORMAT_CHAR
        then bindF getF (\<lambda>_. second_pass n m fts args (out' next))
        else (if c = START_OF_FORMAT_CHAR then bindF (parseReferenceFormat m fts args out) (second_pass n m fts args)
          else second_pass n m fts args out'')) s1)" for out' out''
      using ordinary by (intro ok_peek [OF 1(5)]) simp
    then show ?case using ordinary [OF 1(5)] unfolding Let_def by simp
  qed (auto simp: ok_def)
qed simp

lemma memory_remaining: "remaining (EStream_memory xs) xs"
  by (simp add: EStream_memory_def remaining_def es_inv_def pending_def chunks_ok_def)

section \<open>Formats of plain fields\<close>

text \<open>A format without references as a list of segments.\<close>

datatype segment =
    Text "byte list"
  | Unsigned "64 word"
  | Padded "byte list" "64 word"
  | Signed "64 word"
  | Signed_Plus "64 word"
  | Cstring "byte list"

fun seg_format :: "segment \<Rightarrow> byte list" where
  "seg_format (Text t) = t"
| "seg_format (Unsigned n) = bytes ''{u}''"
| "seg_format (Padded ds n) = bytes ''{'' @ ds @ bytes ''u}''"
| "seg_format (Signed n) = bytes ''{d}''"
| "seg_format (Signed_Plus n) = bytes ''{+d}''"
| "seg_format (Cstring t) = bytes ''{s}''"

fun seg_args :: "segment \<Rightarrow> 'd vararg list" where
  "seg_args (Text t) = []"
| "seg_args (Unsigned n) = [Long_Arg n]"
| "seg_args (Padded ds n) = [Long_Arg n]"
| "seg_args (Signed n) = [Long_Arg n]"
| "seg_args (Signed_Plus n) = [Long_Arg n]"
| "seg_args (Cstring t) = [Cstr_Arg t]"

definition unsigned_opts :: format_opts where
  "unsigned_opts = default_opts\<lparr>fo_base := 10, fo_upper := False\<rparr>"

fun seg_text :: "segment \<Rightarrow> byte list res" where
  "seg_text (Text t) = Inr t"
| "seg_text (Unsigned n) = numToString (unat n) unsigned_opts"
| "seg_text (Padded ds n) = numToString (unat n) (unsigned_opts\<lparr>fo_width := decimal 0 ds mod 256\<rparr>)"
| "seg_text (Signed n) = numToStringSigned n default_opts"
| "seg_text (Signed_Plus n) = numToStringSigned n (default_opts\<lparr>fo_sign_mask := 3\<rparr>)"
| "seg_text (Cstring t) = Inr t"

fun seg_ok :: "segment \<Rightarrow> bool" where
  "seg_ok (Text t) = (\<forall>c \<in> set t. c \<noteq> START_OF_FORMAT_CHAR \<and> c \<noteq> 92)"
| "seg_ok (Padded ds n) = (ds \<noteq> [] \<and> length ds \<le> 10 \<and> digits ds)"
| "seg_ok _ = True"

text \<open>Running the parsers over known bytes.\<close>

lemma run_get: "remaining s (c # ys) \<Longrightarrow> \<exists>s'. bindF getF f s = f c s' \<and> remaining s' ys"
  using get_remaining [of s c ys] by (auto simp: bindF_def getF_def)

lemma run_peek: "remaining s (c # ys) \<Longrightarrow> \<exists>s'. bindF peekF f s = f c s' \<and> remaining s' (c # ys)"
  using peek_remaining [of s c ys] by (auto simp: bindF_def peekF_def)

lemma run_look:
  assumes "remaining s (c # n # ys)"
  shows "\<exists>s'. bindF peekF (\<lambda>p. bindF getF (\<lambda>c. bindF peekF (\<lambda>n. f p c n))) s = f c c n s' \<and>
    remaining s' (n # ys) \<and> remaining (unget s') (c # n # ys)"
proof -
  obtain s1 where s1: "peek s = (Inr c, s1)" "remaining s1 (c # n # ys)"
    using peek_remaining [OF assms] by blast
  obtain s2 where s2: "get s1 = (Inr c, s2)" "remaining s2 (n # ys)" using get_remaining [OF s1(2)] by blast
  obtain s3 where s3: "peek s2 = (Inr n, s3)" "remaining s3 (n # ys)" using peek_remaining [OF s2(2)] by blast
  have "remaining (unget s3) (c # n # ys)" by (rule unget_after_peek [OF s1(2) s2(1) s3(1)])
  then show ?thesis using s1(1) s2(1) s3
    by (intro exI [of _ s3]) (simp add: bindF_def peekF_def getF_def)
qed

lemma run_natural:
  assumes "remaining s (ds @ y # ys)" "digits ds" "length ds \<le> 10" "\<not> isDigit y"
  shows "\<exists>s'. naturalF s = Some (Inr (decimal 0 ds), s') \<and> remaining s' (y # ys)"
  using run_remaining [OF assms(1) collect_digits(2) [OF assms(2,3,4), of 0 0 ys], of collected_natural]
  by (auto simp: naturalF_def readNatural_def)

lemma bind_lift [simp]: "bindF (liftF (Inr v)) f s = f v s" "bindF (liftF (Inl e)) f s = Some (Inl e, s)"
  by (simp_all add: bindF_def liftF_def)

lemma bind_value: "m s = Some (Inr v, s') \<Longrightarrow> bindF m f s = f v s'"
  by (simp add: bindF_def)

definition deletable :: "'d arg \<Rightarrow> bool" where
  "deletable a \<longleftrightarrow> deleteArgs [a] = Inr ()"

lemma deleteArgs_all: "\<forall>a \<in> set as. deletable a \<Longrightarrow> deleteArgs as = Inr ()"
  by (induction as) (auto simp: deletable_def deleteArgs_def split: if_splits)

text \<open>
  A field: its characters behind the opening brace, what it takes from the arguments and what it
  writes.
\<close>

definition field_runs ::
  "('d \<Rightarrow> format_opts \<Rightarrow> byte list res option) \<Rightarrow> byte list \<Rightarrow> 'd vararg list \<Rightarrow> byte list \<Rightarrow> bool"
where
  "field_runs fts body args text \<longleftrightarrow> (\<forall>s rest n later. remaining s (body @ 125 # rest) \<longrightarrow> length body < n \<longrightarrow>
     (\<exists>a s'. parsePositionalFormat n fts (args @ later) new_arg s = Some (Inr (later, a), s') \<and>
       remaining s' rest \<and> arg_expanded a = text \<and> deletable a))"

lemma number_char: "digits ds \<Longrightarrow> ds \<noteq> [] \<Longrightarrow> isDigit (hd ds)"
  by (cases ds) auto

text \<open>The end of a format: \<open>u\<close> or \<open>d\<close> before the closing brace.\<close>

lemma formats_look:
  assumes "remaining s (c # n # ys)"
  shows "\<exists>s'. positional_formats fts number o1 x s = positional_case fts number o1 (fst x) (snd x) c c n s' \<and>
    remaining s' (n # ys) \<and> remaining (unget s') (c # n # ys)"
  unfolding positional_formats_def by (rule run_look [OF assms])

lemma format_look:
  assumes "remaining s (c # n # ys)"
  shows "\<exists>s'. parsePositionalFormat k fts args arg0 s = closed (positional_format_case k fts args arg0 c n) s' \<and>
    remaining s' (n # ys) \<and> remaining (unget s') (c # n # ys)"
  unfolding parsePositionalFormat_def by (rule run_look [OF assms])

lemma run_unsigned:
  assumes "remaining s (117 # 125 # rest)"
    and "numToString (unat k) (o1\<lparr>fo_base := 10, fo_upper := False\<rparr>) = Inr text"
  shows "\<exists>s'. positional_formats fts number o1 (Long_Arg k # later, arg0) s =
      Some (Inr (later, arg0\<lparr>arg_type := 117, arg_expanded := text, arg_ptr := Long_Ptr k\<rparr>), s') \<and>
    remaining s' (125 # rest)"
  using formats_look [OF assms(1), of fts number o1 "(Long_Arg k # later, arg0)"] assms(2)
  by (auto simp: positional_case_def Let_def format_chars positional_long_def liftF_def)

lemma run_signed:
  assumes "remaining s (100 # 125 # rest)" and "numToStringSigned k o1 = Inr text"
  shows "\<exists>s'. positional_formats fts number o1 (Long_Arg k # later, arg0) s =
      Some (Inr (later, arg0\<lparr>arg_type := 100, arg_expanded := text, arg_ptr := Long_Ptr k\<rparr>), s') \<and>
    remaining s' (125 # rest)"
  using formats_look [OF assms(1), of fts number o1 "(Long_Arg k # later, arg0)"] assms(2)
  by (auto simp: positional_case_def Let_def format_chars positional_long_def liftF_def)

lemma run_closed:
  assumes "m s = Some (Inr v, s1)" "remaining s1 (125 # rest)"
  shows "\<exists>s'. closed m s = Some (Inr v, s') \<and> remaining s' rest"
  using run_get [OF assms(2), of "\<lambda>_. liftF (Inr v)"]
  by (simp add: closed_def bind_value [where m = m, OF assms(1)] liftF_def)

lemma field_via:
  assumes "\<And>s rest n later. remaining s (bs @ 125 # rest) \<Longrightarrow> remaining (unget s) (c # bs @ 125 # rest) \<Longrightarrow>
      length bs < n \<Longrightarrow>
      \<exists>s'. positional_format_case n fts (args @ later) new_arg c (hd (bs @ [125])) s = Some (Inr (later, a), s') \<and>
        remaining s' (125 # rest)"
    and "arg_expanded a = out" "deletable a"
  shows "field_runs fts (c # bs) args out"
  unfolding field_runs_def
proof (intro allI impI)
  fix s rest n later
  assume r: "remaining s ((c # bs) @ 125 # rest)" "length (c # bs) < n"
  obtain e zs where e: "bs @ 125 # rest = e # zs" "hd (bs @ [125]) = e" by (cases bs) auto
  with r(1) have "remaining s (c # e # zs)" by simp
  from format_look [OF this] obtain s1 where s1: "parsePositionalFormat n fts (args @ later) new_arg s =
      closed (positional_format_case n fts (args @ later) new_arg c e) s1"
    "remaining s1 (e # zs)" "remaining (unget s1) (c # e # zs)" by blast
  obtain s2 where s2: "positional_format_case n fts (args @ later) new_arg c e s1 = Some (Inr (later, a), s2)"
    "remaining s2 (125 # rest)"
    using assms(1) [of s1 rest n later] s1(2,3) e r(2) by auto
  from run_closed [of "positional_format_case n fts (args @ later) new_arg c e" s1, OF s2] s1(1) assms(2,3)
  show "\<exists>a s'. parsePositionalFormat n fts (args @ later) new_arg s = Some (Inr (later, a), s') \<and>
      remaining s' rest \<and> arg_expanded a = out \<and> deletable a"
    by auto
qed

definition number_arg :: "byte \<Rightarrow> 64 word \<Rightarrow> byte list \<Rightarrow> 'd arg" where
  "number_arg t k out = \<lparr>arg_ptr = Long_Ptr k, arg_type = t, arg_expanded = out\<rparr>"

lemma number_arg_facts [simp]:
  "arg_expanded (number_arg t k out) = out" "t = 100 \<or> t = 117 \<Longrightarrow> deletable (number_arg t k out)"
  by (auto simp: number_arg_def deletable_def deleteArgs_def is_unsigned_type_def)

lemma field_unsigned:
  assumes "numToString (unat k) unsigned_opts = Inr out"
  shows "field_runs fts (bytes ''u'') [Long_Arg k] out"
  unfolding bytes_Cons bytes_Nil
proof (rule field_via [where a = "number_arg 117 k out"], goal_cases)
  case (1 s rest n later)
  then show ?case
    using run_unsigned [of "unget s" rest k default_opts out fts "parsePositionalNumberModifier n fts" later
        "new_arg\<lparr>arg_type := 117\<rparr>"] assms
    by (auto simp: positional_format_case_def Let_def format_chars isDigit_def bindF_def ungetF_def
        parsePositionalModifiableFormat_def unsigned_opts_def number_arg_def new_arg_def)
qed simp_all

lemma field_signed:
  assumes "numToStringSigned k default_opts = Inr out"
  shows "field_runs fts (bytes ''d'') [Long_Arg k] out"
  unfolding bytes_Cons bytes_Nil
proof (rule field_via [where a = "number_arg 100 k out"], goal_cases)
  case (1 s rest n later)
  then show ?case
    using run_signed [of "unget s" rest k default_opts out fts "parsePositionalNumberModifier n fts" later
        "new_arg\<lparr>arg_type := 100\<rparr>"] assms
    by (auto simp: positional_format_case_def Let_def format_chars isDigit_def bindF_def ungetF_def
        parsePositionalModifiableFormat_def number_arg_def new_arg_def)
qed simp_all

lemma field_signed_plus:
  assumes "numToStringSigned k (default_opts\<lparr>fo_sign_mask := 3\<rparr>) = Inr out"
  shows "field_runs fts (bytes ''+d'') [Long_Arg k] out"
  unfolding bytes_Cons bytes_Nil
proof (rule field_via [where a = "number_arg 100 k out"], goal_cases)
  case (1 s rest n later)
  then show ?case
    using run_signed [of s rest k "default_opts\<lparr>fo_sign_mask := 3\<rparr>" out fts "parsePositionalNumberModifier n fts"
        later "new_arg\<lparr>arg_type := 43\<rparr>"] assms
    by (auto simp: positional_format_case_def Let_def format_chars isDigit_def bindF_def
        parsePositionalModifiableFormat_def number_arg_def new_arg_def)
qed simp_all

lemma field_padded:
  assumes "numToString (unat k) (unsigned_opts\<lparr>fo_width := decimal 0 ds mod 256\<rparr>) = Inr out"
    and "digits ds" "ds \<noteq> []" "length ds \<le> 10"
  shows "field_runs fts (ds @ bytes ''u'') [Long_Arg k] out"
proof -
  obtain c cs where ds: "ds = c # cs" using assms(3) by (cases ds) auto
  have c: "isDigit c" using assms(2) ds by simp
  then have "48 \<le> c" "c \<le> 57" by (simp_all add: isDigit_def)
  then have nc: "c \<noteq> 98" "c \<noteq> 116" "c \<noteq> 99" "c \<noteq> 115" "c \<noteq> 43" "c \<noteq> 45" by auto
  have opts: "unsigned_opts\<lparr>fo_width := w\<rparr> = default_opts\<lparr>fo_width := w, fo_base := 10, fo_upper := False\<rparr>" for w
    by (simp add: unsigned_opts_def default_opts_def)
  have "field_runs fts (c # cs @ bytes ''u'') [Long_Arg k] out"
  proof (rule field_via [where a = "number_arg 117 k out"], goal_cases)
    case (1 s rest n later)
    obtain m where m: "n = Suc m" using 1(3) by (cases n) auto
    let ?o = "default_opts\<lparr>fo_width := decimal 0 ds mod 256\<rparr>"
    let ?x = "(Long_Arg k # later, new_arg\<lparr>arg_type := c\<rparr>)"
    let ?formats = "positional_formats fts (parsePositionalNumberModifier m fts)"
    from 1(2) have "remaining (unget s) (ds @ 117 # 125 # rest)" using ds by simp
    from run_natural [OF this assms(2,4)] obtain s1
      where s1: "naturalF (unget s) = Some (Inr (decimal 0 ds), s1)" "remaining s1 (117 # 125 # rest)"
      by (auto simp: isDigit_def)
    obtain s2 where s2: "peek s1 = (Inr 117, s2)" "remaining s2 (117 # 125 # rest)"
      using peek_remaining [OF s1(2)] by blast
    have "parsePositionalNumberModifier n fts default_opts ?x (unget s) = ?formats ?o ?x s2"
      unfolding m parsePositionalNumberModifier.simps number_modifier_def
      by (simp add: bindF_def [of naturalF] s1(1) bindF_def [of peekF] peekF_def s2(1) Let_def)
    moreover obtain s3 where "?formats ?o ?x s2 = Some (Inr (later, number_arg 117 k out), s3)"
      "remaining s3 (125 # rest)"
      using run_unsigned [OF s2(2), of k ?o out fts "parsePositionalNumberModifier m fts" later
          "new_arg\<lparr>arg_type := c\<rparr>"] assms(1) [unfolded opts]
      by (auto simp: number_arg_def new_arg_def)
    ultimately show ?case
      using c nc by (simp add: positional_format_case_def Let_def bindF_def [of ungetF] ungetF_def)
  qed simp_all
  then show ?thesis using ds by simp
qed

lemma field_string: "field_runs fts (bytes ''s'') [Cstr_Arg t] t"
  unfolding bytes_Cons bytes_Nil
  by (rule field_via [where a = "new_arg\<lparr>arg_type := 115, arg_expanded := t, arg_ptr := String_Ptr t\<rparr>"])
    (simp_all add: positional_format_case_def Let_def format_chars taken_arg_def liftF_def
      deletable_def deleteArgs_def)

lemma run_field:
  assumes "field_runs fts body args out" "remaining s (body @ 125 # rest)" "length body < n"
    and "hd (body @ [125]) \<noteq> 60" "body \<noteq> []" "hd body \<noteq> 125" "fs_args st = args @ later"
  shows "\<exists>a s'. parseFormat n fts st s = Some (Inr (st\<lparr>fs_args := later, fs_out := fs_out st @ out,
      fs_converted := fs_converted st @ [a]\<rparr>), s') \<and> remaining s' rest \<and> deletable a"
proof -
  obtain c cs where body: "body = c # cs" using assms(5) by (cases body) auto
  obtain s1 where s1: "peek s = (Inr c, s1)" "remaining s1 (body @ 125 # rest)"
    using peek_remaining [of s c "cs @ 125 # rest"] assms(2) body by auto
  obtain s2 where s2: "peek s1 = (Inr c, s2)" "remaining s2 (body @ 125 # rest)"
    using peek_remaining [of s1 c "cs @ 125 # rest"] s1(2) body by auto
  obtain a s3 where "parsePositionalFormat n fts (args @ later) new_arg s2 = Some (Inr (later, a), s3)"
    "remaining s3 rest" "arg_expanded a = out" "deletable a"
    using assms(1,3) s2(2) unfolding field_runs_def by blast
  then show ?thesis
    using s1(1) s2(1) assms(4-7) body
    by (intro exI [of _ a] exI [of _ s3]) (simp add: parseFormat_def bindF_def peekF_def format_chars liftF_def)
qed

text \<open>One segment in the first pass.\<close>

lemma first_pass_text:
  "remaining s (t @ rest) \<Longrightarrow> \<forall>c \<in> set t. c \<noteq> START_OF_FORMAT_CHAR \<and> c \<noteq> 92 \<Longrightarrow>
    \<exists>s'. first_pass (length t + n) m fts st s = first_pass n m fts (st\<lparr>fs_out := fs_out st @ t\<rparr>) s' \<and>
      remaining s' rest"
proof (induction t arbitrary: s st)
  case Nil
  then show ?case by auto
next
  case (Cons c t)
  from Cons.prems(1) have r: "remaining s (c # (t @ rest))" by simp
  then have g: "good s = (True, s)" using good_remaining [OF r] by auto
  obtain s1 where s1: "get s = (Inr c, s1)" "remaining s1 (t @ rest)" using get_remaining [OF r] by blast
  have "first_pass (length (c # t) + n) m fts st s = first_pass (length t + n) m fts (st\<lparr>fs_out := fs_out st @ [c]\<rparr>) s1"
    using g s1(1) Cons.prems(2) by (simp add: bindF_def getF_def Let_def)
  then show ?case using Cons.IH [OF s1(2), of "st\<lparr>fs_out := fs_out st @ [c]\<rparr>"] Cons.prems(2) by simp
qed

lemma first_pass_field:
  assumes "field_runs fts body args out" "remaining s (123 # body @ 125 # rest)" "length body < m"
    and "hd (body @ [125]) \<noteq> 60" "body \<noteq> []" "hd body \<noteq> 125" "fs_args st = args @ later"
  shows "\<exists>a s'. first_pass (Suc n) m fts st s = first_pass n m fts (st\<lparr>fs_args := later, fs_out := fs_out st @ out,
      fs_converted := fs_converted st @ [a]\<rparr>) s' \<and> remaining s' rest \<and> deletable a"
proof -
  have g: "good s = (True, s)" using good_remaining [OF assms(2)] by auto
  obtain s1 where s1: "get s = (Inr 123, s1)" "remaining s1 (body @ 125 # rest)"
    using get_remaining [OF assms(2)] by blast
  from run_field [OF assms(1) s1(2) assms(3-7)] obtain a s2 where "parseFormat m fts st s1 =
      Some (Inr (st\<lparr>fs_args := later, fs_out := fs_out st @ out, fs_converted := fs_converted st @ [a]\<rparr>), s2)"
    "remaining s2 rest" "deletable a" by blast
  then show ?thesis
    using g s1(1) by (intro exI [of _ a] exI [of _ s2]) (simp add: bindF_def getF_def Let_def format_chars)
qed

fun seg_body :: "segment \<Rightarrow> byte list" where
  "seg_body (Text t) = []"
| "seg_body (Unsigned n) = bytes ''u''"
| "seg_body (Padded ds n) = ds @ bytes ''u''"
| "seg_body (Signed n) = bytes ''d''"
| "seg_body (Signed_Plus n) = bytes ''+d''"
| "seg_body (Cstring t) = bytes ''s''"

lemma seg_runs:
  assumes "seg_ok g" "seg_text g = Inr out" "seg_body g \<noteq> []"
  shows "field_runs fts (seg_body g) (seg_args g) out"
proof (cases g)
  case (Unsigned n)
  then show ?thesis using assms(2) field_unsigned [of n out fts] by (simp del: bytes_Cons)
next
  case (Padded ds n)
  then show ?thesis using assms(1,2) field_padded [of n ds out fts] by (simp del: bytes_Cons)
next
  case (Signed n)
  then show ?thesis using assms(2) field_signed [of n out fts] by (simp del: bytes_Cons)
next
  case (Signed_Plus n)
  then show ?thesis using assms(2) field_signed_plus [of n out fts] by (simp del: bytes_Cons)
next
  case (Cstring t)
  then show ?thesis using assms(2) field_string [of fts t] by (simp del: bytes_Cons)
qed (use assms(3) in simp)

lemma seg_shape:
  assumes "seg_ok g" "seg_body g \<noteq> []"
  shows "seg_format g = 123 # seg_body g @ [125]" "hd (seg_body g) \<noteq> 125" "hd (seg_body g @ [125]) \<noteq> 60"
proof -
  have digit: "\<not> isDigit 125" "\<not> isDigit 60" by (simp_all add: isDigit_def)
  have "seg_format g = 123 # seg_body g @ [125] \<and> hd (seg_body g) \<noteq> 125 \<and> hd (seg_body g @ [125]) \<noteq> 60"
  proof (cases g)
    case (Padded ds n)
    then obtain c cs where c: "ds = c # cs" "isDigit c" using assms(1) by (cases ds) auto
    then have "c \<noteq> 125" "c \<noteq> 60" using digit by auto
    then show ?thesis using Padded c(1) by simp
  qed (use assms(2) in simp_all)
  then show "seg_format g = 123 # seg_body g @ [125]" "hd (seg_body g) \<noteq> 125"
    "hd (seg_body g @ [125]) \<noteq> 60" by blast+
qed

lemma seg_step:
  assumes "seg_ok g" "seg_text g = Inr out" "remaining s (seg_format g @ rest)"
    and "fs_args st = seg_args g @ later" "length (seg_format g @ rest) < m" "length (seg_format g @ rest) < n"
  shows "\<exists>k as s'. first_pass n m fts st s = first_pass (n - k) m fts (st\<lparr>fs_args := later, fs_out := fs_out st @ out,
      fs_converted := fs_converted st @ as\<rparr>) s' \<and> remaining s' rest \<and> (\<forall>a \<in> set as. deletable a) \<and>
    k \<le> length (seg_format g)"
proof (cases "seg_body g = []")
  case True
  then obtain t where g: "g = Text t" by (cases g) auto
  have n: "length t + (n - length t) = n" using assms(6) g by simp
  have "st\<lparr>fs_args := later, fs_out := out', fs_converted := fs_converted st @ []\<rparr> = st\<lparr>fs_out := out'\<rparr>" for out'
    using assms(4) g by simp
  then show ?thesis
    using first_pass_text [of s t rest "n - length t" m fts st] assms(1-3) g n
    by (intro exI [of _ "length t"] exI [of _ "[]"]) auto
next
  case False
  note run = seg_runs [OF assms(1,2) False, of fts] and body = seg_shape [OF assms(1) False]
  obtain i where i: "n = Suc i" using assms(6) by (cases n) auto
  from first_pass_field [OF run _ _ body(3) False body(2) assms(4), of s rest m i] assms(3,5) body(1)
  obtain a s' where "first_pass n m fts st s = first_pass i m fts (st\<lparr>fs_args := later,
      fs_out := fs_out st @ out, fs_converted := fs_converted st @ [a]\<rparr>) s'" "remaining s' rest" "deletable a"
    using i by auto
  then show ?thesis
    using i body(1) by (intro exI [of _ 1] exI [of _ "[a]"] exI [of _ s']) simp
qed

lemma format_one_field:
  assumes "field_runs (floatToString fl) body args out" "body \<noteq> []" "hd body \<noteq> 125" "hd (body @ [125]) \<noteq> 60"
  shows "format_text fl (123 # body @ [125]) args = Some (Inr out)"
proof -
  let ?st = "\<lparr>fs_args = args, fs_out = [], fs_converted = [], fs_reference = False, fs_escaped = False\<rparr>"
  let ?n = "length body + 2"
  have "remaining (EStream_memory (123 # body @ [125])) (123 # body @ 125 # [])"
    by (simp add: memory_remaining)
  from first_pass_field [OF assms(1) this _ assms(4,2,3), of "Suc ?n" ?st "[]" ?n]
  obtain a s' where "first_pass (Suc ?n) (Suc ?n) (floatToString fl) ?st (EStream_memory (123 # body @ [125])) =
      first_pass ?n (Suc ?n) (floatToString fl) (?st\<lparr>fs_args := [], fs_out := out, fs_converted := [a]\<rparr>) s'"
    "remaining s' []" "deletable a" by auto
  moreover obtain s'' where "good s' = (False, s'')" using good_remaining [of s' "[]"] calculation(2) by auto
  ultimately show ?thesis by (simp add: format_text_def Let_def deleteArgs_all)
qed

lemma case_runs:
  assumes "remaining (unget s) (115 # l # 125 # rest)" "l = 108 \<or> l = 117"
  shows "\<exists>s'. parseStringCaseModifier val arg s = Some (Inr (arg\<lparr>arg_expanded := arg_expanded arg @
      (if l = 108 then map (\<lambda>c. c + 32) (filter (\<lambda>c. 65 \<le> sint c \<and> 90 \<le> sint c) val)
       else map (\<lambda>c. c - 32) (filter (\<lambda>c. 97 \<le> sint c \<and> 122 \<le> sint c) val))\<rparr>), s') \<and>
    remaining s' (125 # rest)"
proof -
  obtain s1 where s1: "get (unget s) = (Inr 115, s1)" "remaining s1 (l # 125 # rest)"
    using get_remaining [OF assms(1)] by blast
  obtain s2 where s2: "get s1 = (Inr l, s2)" "remaining s2 (125 # rest)" using get_remaining [OF s1(2)] by blast
  obtain s3 where s3: "peek s2 = (Inr 125, s3)" "remaining s3 (125 # rest)" using peek_remaining [OF s2(2)] by blast
  show ?thesis
    using assms(2) s3(2) by (intro exI [of _ s3])
      (auto simp: parseStringCaseModifier_def bindF_def ungetF_def getF_def peekF_def s1(1) s2(1) s3(1)
        liftF_def format_chars)
qed

lemma field_case:
  fixes fts :: "'d \<Rightarrow> format_opts \<Rightarrow> byte list res option"
  assumes "l = 108 \<or> l = 117"
  shows "field_runs fts [115, l] [Cstr_Arg t]
      (if l = 108 then map (\<lambda>c. c + 32) (filter (\<lambda>c. 65 \<le> sint c \<and> 90 \<le> sint c) t)
       else map (\<lambda>c. c - 32) (filter (\<lambda>c. 97 \<le> sint c \<and> 122 \<le> sint c) t))"
    (is "field_runs _ _ _ ?out")
proof (rule field_via [where a = "\<lparr>arg_ptr = String_Ptr t, arg_type = 115, arg_expanded = ?out\<rparr>"], goal_cases)
  case (1 s rest n later)
  then have "remaining (unget s) (115 # l # 125 # rest)" by simp
  from case_runs [OF this assms, of t "\<lparr>arg_ptr = String_Ptr t :: 'd target, arg_type = 115, arg_expanded = []\<rparr>"]
  obtain s' where "parseStringCaseModifier t
      \<lparr>arg_ptr = String_Ptr t :: 'd target, arg_type = 115, arg_expanded = []\<rparr> s =
      Some (Inr \<lparr>arg_ptr = String_Ptr t, arg_type = 115, arg_expanded = ?out\<rparr>, s')" "remaining s' (125 # rest)"
    by auto
  then show ?case
    using assms by (intro exI [of _ s'])
      (auto simp: positional_format_case_def Let_def format_chars taken_case_def new_arg_def
        bindF_def liftF_def)
qed (simp_all add: deletable_def deleteArgs_def)

lemma segs_run:
  assumes "\<forall>g \<in> set gs. seg_ok g" "map seg_text gs = map Inr outs"
    and "remaining s (concat (map seg_format gs))" "fs_args st = concat (map seg_args gs) @ later"
    and "length (concat (map seg_format gs)) < m" "length (concat (map seg_format gs)) < n"
  shows "\<exists>as s'. first_pass n m fts st s = Some (Inr (st\<lparr>fs_args := later, fs_out := fs_out st @ concat outs,
      fs_converted := fs_converted st @ as\<rparr>), s') \<and> (\<forall>a \<in> set as. deletable a)"
  using assms
proof (induction gs arbitrary: outs s st n)
  case Nil
  obtain i where "n = Suc i" using Nil.prems(6) by (cases n) auto
  moreover obtain s' where "good s = (False, s')" using good_remaining [of s "[]"] Nil.prems(3) by auto
  moreover have "st\<lparr>fs_args := later, fs_out := fs_out st @ [], fs_converted := fs_converted st @ []\<rparr> = st"
    using Nil.prems(4) by (cases st) simp
  ultimately show ?case using Nil.prems(2) by (intro exI [of _ "[]"] exI [of _ s']) simp
next
  case (Cons g gs)
  obtain out outs' where outs: "outs = out # outs'" "seg_text g = Inr out" "map seg_text gs = map Inr outs'"
    using Cons.prems(2) by (cases outs) auto
  have g: "seg_ok g" "remaining s (seg_format g @ concat (map seg_format gs))"
    "fs_args st = seg_args g @ (concat (map seg_args gs) @ later)"
    using Cons.prems by simp_all
  have len: "length (seg_format g @ concat (map seg_format gs)) < m"
    "length (seg_format g @ concat (map seg_format gs)) < n" using Cons.prems(5,6) by simp_all
  from seg_step [OF g(1) outs(2) g(2,3) len, of fts] obtain k as s1 where
    s1: "first_pass n m fts st s = first_pass (n - k) m fts (st\<lparr>fs_args := concat (map seg_args gs) @ later,
        fs_out := fs_out st @ out, fs_converted := fs_converted st @ as\<rparr>) s1"
      "remaining s1 (concat (map seg_format gs))" "\<forall>a \<in> set as. deletable a" "k \<le> length (seg_format g)"
    by blast
  let ?st = "st\<lparr>fs_args := concat (map seg_args gs) @ later, fs_out := fs_out st @ out,
      fs_converted := fs_converted st @ as\<rparr>"
  have "length (concat (map seg_format gs)) < n - k" using len(2) s1(4) by simp
  then obtain bs s' where "first_pass (n - k) m fts ?st s1 = Some (Inr (?st\<lparr>fs_args := later,
      fs_out := fs_out ?st @ concat outs', fs_converted := fs_converted ?st @ bs\<rparr>), s')" "\<forall>a \<in> set bs. deletable a"
    using Cons.IH [of outs' s1 ?st "n - k"] Cons.prems(1,5) outs(3) s1(2) by auto
  then show ?case
    using s1(1,3) outs(1) by (intro exI [of _ "as @ bs"] exI [of _ s']) auto
qed

lemma format_fields:
  assumes "\<forall>g \<in> set gs. seg_ok g" and "map seg_text gs = map Inr outs"
  shows "format_text fl (concat (map seg_format gs)) (concat (map seg_args gs) @ later) =
    Some (Inr (concat outs))"
proof -
  let ?fmt = "concat (map seg_format gs)"
  let ?st = "\<lparr>fs_args = concat (map seg_args gs) @ later, fs_out = [], fs_converted = [],
      fs_reference = False, fs_escaped = False\<rparr>"
  obtain as s' where "first_pass (Suc (length ?fmt)) (Suc (length ?fmt)) (floatToString fl) ?st (EStream_memory ?fmt) =
      Some (Inr (?st\<lparr>fs_args := later, fs_out := concat outs, fs_converted := as\<rparr>), s')"
    "\<forall>a \<in> set as. deletable a"
    using segs_run [OF assms memory_remaining, of ?st later "Suc (length ?fmt)" "Suc (length ?fmt)" "floatToString fl"] by auto
  then show ?thesis by (simp add: format_text_def Let_def deleteArgs_all)
qed

section \<open>Which arguments are read\<close>

text \<open>\<open>doubles args\<close>: the floating point arguments. Only these are converted.\<close>

definition doubles :: "'d vararg list \<Rightarrow> 'd set" where
  "doubles args = {v. Double_Arg v \<in> set args}"

definition agree :: "'d set \<Rightarrow> ('d \<Rightarrow> format_opts \<Rightarrow> byte list res option) \<Rightarrow>
    ('d \<Rightarrow> format_opts \<Rightarrow> byte list res option) \<Rightarrow> bool" where
  "agree V fts fts' \<longleftrightarrow> (\<forall>v \<in> V. fts v = fts' v)"

lemma agreeD: "agree (doubles args) fts fts' \<Longrightarrow> Double_Arg v \<in> set args \<Longrightarrow> fts v = fts' v"
  by (simp add: agree_def doubles_def)

lemma agree_less: "agree (doubles args) fts fts' \<Longrightarrow> set args' \<subseteq> set args \<Longrightarrow> agree (doubles args') fts fts'"
  by (auto simp: agree_def doubles_def)

lemma bind_lift_cong: "(\<And>x. r = Inr x \<Longrightarrow> f x = f' x) \<Longrightarrow> bindF (liftF r) f = bindF (liftF r) f'"
  by (cases r) (auto simp: bindF_def liftF_def fun_eq_iff)

lemma va_double_in: "va_double args = Inr (d, args') \<Longrightarrow> Double_Arg d \<in> set args \<and> set args' \<subseteq> set args"
  by (cases args rule: va_double.cases) auto

lemma double_agree:
  assumes "agree (doubles args) fts fts'"
  shows "positional_double fts opts args arg = positional_double fts' opts args arg"
  unfolding positional_double_def
proof (rule bind_lift_cong)
  fix x
  assume "va_double args = Inr x"
  moreover obtain d args' where x1: "x = (d, args')" by fastforce
  ultimately have x: "x = (d, args')" "Double_Arg d \<in> set args" using va_double_in [of args d args'] by simp_all
  then have "fts d = fts' d" using agreeD [OF assms] by blast
  then have "parseFloatFormat fts d opts = parseFloatFormat fts' d opts" by (simp only: parseFloatFormat_def)
  then show "(case x of (d, args') \<Rightarrow> bindF (parseFloatFormat fts d opts) (\<lambda>t. liftF (Inr (args',
        arg\<lparr>arg_expanded := t, arg_ptr := Double_Ptr d, arg_type := letter CHR ''f''\<rparr>)))) =
      (case x of (d, args') \<Rightarrow> bindF (parseFloatFormat fts' d opts) (\<lambda>t. liftF (Inr (args',
        arg\<lparr>arg_expanded := t, arg_ptr := Double_Ptr d, arg_type := letter CHR ''f''\<rparr>))))"
    by (simp add: x(1))
qed

lemma formats_agree:
  assumes "agree (doubles args) fts fts'" and "\<And>o1 arg. number o1 (args, arg) = number' o1 (args, arg)"
  shows "positional_formats fts number opts (args, arg) = positional_formats fts' number' opts (args, arg)"
  by (simp only: positional_formats_def positional_case_def fst_conv snd_conv double_agree [OF assms(1)] assms(2) Let_def)

lemma number_agree:
  assumes "agree (doubles args) fts fts'"
  shows "parsePositionalNumberModifier n fts opts (args, arg) = parsePositionalNumberModifier n fts' opts (args, arg)"
proof (induction n arbitrary: opts arg)
  case (Suc n)
  show ?case
  proof (rule ext)
    fix s
    have "positional_formats fts (parsePositionalNumberModifier n fts) o1 (args, a) =
        positional_formats fts' (parsePositionalNumberModifier n fts') o1 (args, a)" for o1 a
      by (rule formats_agree [OF assms]) (rule Suc)
    then show "parsePositionalNumberModifier (Suc n) fts opts (args, arg) s =
        parsePositionalNumberModifier (Suc n) fts' opts (args, arg) s"
      by (simp only: parsePositionalNumberModifier.simps number_modifier_def Suc)
  qed
qed (rule ext, simp)

lemma modifiable_agree:
  "agree (doubles args) fts fts' \<Longrightarrow>
    parsePositionalModifiableFormat n fts opts (args, arg) = parsePositionalModifiableFormat n fts' opts (args, arg)"
  unfolding parsePositionalModifiableFormat_def by (rule formats_agree) (simp_all add: number_agree)

lemma positional_agree:
  assumes "agree (doubles args) fts fts'"
  shows "parsePositionalFormat n fts args arg = parsePositionalFormat n fts' args arg"
  by (simp only: parsePositionalFormat_def positional_format_case_def Let_def number_agree [OF assms]
      modifiable_agree [OF assms])

lemma parse_agree:
  assumes "agree (doubles (fs_args st)) fts fts'"
  shows "parseFormat n fts st = parseFormat n fts' st"
  by (simp only: parseFormat_def positional_agree [OF assms])

text \<open>What is left of the arguments was there before.\<close>

definition leaves_of :: "'d vararg list \<Rightarrow> ('d vararg list \<times> 'a) parser \<Rightarrow> bool" where
  "leaves_of args m \<longleftrightarrow> (\<forall>s v s'. m s = Some (Inr v, s') \<longrightarrow> set (fst v) \<subseteq> set args)"

lemma bindF_returned:
  "bindF m f s = Some (Inr v, s') \<Longrightarrow> \<exists>x s1. m s = Some (Inr x, s1) \<and> f x s1 = Some (Inr v, s')"
  unfolding bindF_def by (auto split: option.splits sum.splits prod.splits)

lemma left_bind: "(\<And>x. leaves_of args (f x)) \<Longrightarrow> leaves_of args (bindF m f)"
  unfolding leaves_of_def bindF_def by (auto split: option.splits sum.splits prod.splits)

lemma left_lift: "(\<And>v. r = Inr v \<Longrightarrow> set (fst v) \<subseteq> set args) \<Longrightarrow> leaves_of args (liftF r)"
  unfolding leaves_of_def liftF_def by auto

lemma left_bind_lift: "(\<And>x. r = Inr x \<Longrightarrow> leaves_of args (f x)) \<Longrightarrow> leaves_of args (bindF (liftF r) f)"
  by (cases r) (auto simp: leaves_of_def bindF_def liftF_def)

lemma left_throw [simp]: "leaves_of args (throwF m)"
  by (simp add: leaves_of_def throwF_def liftF_def)

lemma va_less:
  "va_int args = Inr (i, as) \<Longrightarrow> set as \<subseteq> set args" "va_long args = Inr (n, as) \<Longrightarrow> set as \<subseteq> set args"
  "va_cstr args = Inr (t, as) \<Longrightarrow> set as \<subseteq> set args" "va_stream args = Inr (t, as) \<Longrightarrow> set as \<subseteq> set args"
  by (cases args rule: va_int.cases, auto) (cases args rule: va_long.cases, auto,
    cases args rule: va_cstr.cases, auto, cases args rule: va_stream.cases, auto)

lemma left_taken: "(\<And>v as. r = Inr (v, as) \<Longrightarrow> set as \<subseteq> set args) \<Longrightarrow> leaves_of args (taken_arg r f)"
  unfolding taken_arg_def by (rule left_lift) (auto simp: res_iff)

lemma left_long: "leaves_of args (positional_long conv args arg)"
  unfolding positional_long_def
  by (rule left_bind_lift, clarify, rule left_bind, rule left_lift) (auto dest: va_less [THEN subsetD])

lemma left_double: "leaves_of args (positional_double fts opts args arg)"
  unfolding positional_double_def
  by (rule left_bind_lift, clarify, rule left_bind, rule left_lift) (use va_double_in in fastforce)

lemma left_formats:
  assumes "\<And>o1 arg. leaves_of args (number o1 (args, arg))"
  shows "leaves_of args (positional_formats fts number opts (args, arg))"
  unfolding positional_formats_def positional_case_def
  by (intro left_bind) (simp add: Let_def left_long left_bind left_double assms)

lemma left_number: "leaves_of args (parsePositionalNumberModifier n fts opts (args, arg))"
proof (induction n arbitrary: opts arg)
  case 0
  then show ?case by (simp add: leaves_of_def)
next
  case (Suc n)
  have "leaves_of args (number_modifier (positional_formats fts (parsePositionalNumberModifier n fts))
      (parsePositionalNumberModifier n fts) opts (args, arg))"
  proof -
    have "leaves_of args (positional_formats fts (parsePositionalNumberModifier n fts) o1 (args, a))" for o1 a
      by (rule left_formats) (rule Suc)
    then show ?thesis
      unfolding number_modifier_def by (intro left_bind) (simp add: Let_def left_bind Suc)
  qed
  then show ?case by (simp add: leaves_of_def)
qed

lemma left_modifiable: "leaves_of args (parsePositionalModifiableFormat n fts opts (args, arg))"
  unfolding parsePositionalModifiableFormat_def by (rule left_formats) (rule left_number)

lemma left_positional: "leaves_of args (parsePositionalFormat n fts args arg)"
proof -
  have case_left: "leaves_of args (taken_case args a)" for a :: "'a arg"
    unfolding taken_case_def by (rule left_bind_lift, clarify, rule left_bind, rule left_lift) (auto dest: va_less [THEN subsetD])
  have "leaves_of args (closed m)" if "leaves_of args m" for m :: "('a vararg list \<times> 'a arg) parser"
    using that unfolding leaves_of_def closed_def bindF_def liftF_def
    by (fastforce split: option.splits sum.splits prod.splits)
  then show ?thesis
    unfolding parsePositionalFormat_def positional_format_case_def
    by (intro left_bind) (simp add: Let_def left_bind left_taken va_less case_left left_modifiable left_number)
qed

lemma parse_leaves:
  assumes "parseFormat n fts st s = Some (Inr st', s')"
  shows "set (fs_args st') \<subseteq> set (fs_args st)"
proof -
  have plain: "leaves_of args (plain_format args)" for args :: "'a vararg list"
    unfolding plain_format_def by (rule left_bind, rule left_taken) (rule va_less)
  let ?m = "bindF peekF (\<lambda>c1. if c1 = END_OF_FORMAT_CHAR then plain_format (fs_args st)
      else parsePositionalFormat n fts (fs_args st) new_arg)"
  have "leaves_of (fs_args st) ?m"
    by (rule left_bind) (simp add: plain left_positional)
  then have m: "set as \<subseteq> set (fs_args st)" if "?m t = Some (Inr (as, arg), t')" for t as arg t'
    using that by (auto simp: leaves_of_def)
  from bindF_returned [OF assms [unfolded parseFormat_def]] obtain c s1 where step:
    "(if c = START_OF_INDICATOR_FORMAT_CHAR
      then liftF (Inr (st\<lparr>fs_out := fs_out st @ [START_OF_FORMAT_CHAR], fs_reference := True\<rparr>))
      else bindF ?m (\<lambda>(args', arg). liftF (Inr (st\<lparr>fs_args := args', fs_out := fs_out st @ arg_expanded arg,
         fs_converted := fs_converted st @ [arg]\<rparr>)))) s1 = Some (Inr st', s')" by blast
  show ?thesis
  proof (cases "c = START_OF_INDICATOR_FORMAT_CHAR")
    case False
    with step have "bindF ?m (\<lambda>(args', arg). liftF (Inr (st\<lparr>fs_args := args',
        fs_out := fs_out st @ arg_expanded arg, fs_converted := fs_converted st @ [arg]\<rparr>))) s1 = Some (Inr st', s')"
      by (simp only: if_False)
    from bindF_returned [OF this] obtain v s2 where v: "?m s1 = Some (Inr v, s2)"
      "(case v of (args', arg) \<Rightarrow> liftF (Inr (st\<lparr>fs_args := args', fs_out := fs_out st @ arg_expanded arg,
         fs_converted := fs_converted st @ [arg]\<rparr>))) s2 = Some (Inr st', s')" by blast
    obtain as arg where pair: "v = (as, arg)" by fastforce
    from v(2) show ?thesis using m [OF v(1) [unfolded pair]] by (auto simp: pair liftF_def)
  qed (use step in \<open>auto simp: liftF_def\<close>)
qed

lemma first_pass_agree:
  "agree (doubles (fs_args st)) fts fts' \<Longrightarrow> first_pass n m fts st s = first_pass n m fts' st s"
proof (induction n arbitrary: st s)
  case (Suc n)
  have "first_pass n m fts st' = first_pass n m fts' st'" if "fs_args st' = fs_args st" for st'
    using Suc that by (intro ext) simp
  then have same: "first_pass n m fts (st\<lparr>fs_out := out\<rparr>) = first_pass n m fts' (st\<lparr>fs_out := out\<rparr>)"
    "first_pass n m fts (st\<lparr>fs_out := out, fs_escaped := True\<rparr>) =
      first_pass n m fts' (st\<lparr>fs_out := out, fs_escaped := True\<rparr>)" for out by simp_all
  have "bindF (parseFormat m fts st) (first_pass n m fts) t = bindF (parseFormat m fts' st) (first_pass n m fts') t" for t
    unfolding parse_agree [OF Suc.prems] using agree_less [OF Suc.prems parse_leaves] Suc.IH
    by (auto simp: bindF_def split: option.splits sum.splits prod.splits)
  then have parsed: "bindF (parseFormat m fts st) (first_pass n m fts) = bindF (parseFormat m fts' st) (first_pass n m fts')"
    by (rule ext)
  show ?case by (simp only: first_pass.simps Let_def parsed same)
qed simp

text \<open>A number that is formatted without options: what is read of the format.\<close>

lemma field_number_endless:
  assumes "fts x default_opts = None" and "remaining s (102 # 125 # rest)"
  shows "parsePositionalFormat k fts (Double_Arg x # args) arg0 s = None"
proof -
  from format_look [OF assms(2)] obtain s1 where
    s1: "parsePositionalFormat k fts (Double_Arg x # args) arg0 s =
        closed (positional_format_case k fts (Double_Arg x # args) arg0 102 125) s1"
      "remaining (unget s1) (102 # 125 # rest)" by blast
  let ?x = "(Double_Arg x # args, arg0\<lparr>arg_type := 102\<rparr>)"
  let ?number = "parsePositionalNumberModifier k fts"
  from formats_look [OF s1(2), of fts ?number default_opts ?x] obtain s2 where
    s2: "positional_formats fts ?number default_opts ?x (unget s1) =
        positional_case fts ?number default_opts (fst ?x) (snd ?x) 102 102 125 s2"
      "remaining (unget s2) (102 # 125 # rest)" by blast
  obtain s3 where s3: "get (unget s2) = (Inr 102, s3)" using get_remaining [OF s2(2)] by blast
  have "positional_case fts ?number default_opts (fst ?x) (snd ?x) 102 102 125 s2 = None"
    using assms(1) s3 by (simp add: positional_case_def Let_def format_chars positional_double_def liftF_def
        bindF_def ungetF_def parseFloatFormat_def getF_def converted_def)
  then have "positional_format_case k fts (Double_Arg x # args) arg0 102 125 s1 = None"
    using s2(1) by (simp add: positional_format_case_def Let_def format_chars isDigit_def bindF_def ungetF_def
        parsePositionalModifiableFormat_def)
  then show ?thesis using s1(1) by (simp add: closed_def bindF_def)
qed

lemma first_pass_number:
  assumes "fts x default_opts = None" and "fs_args st = Double_Arg x # args" and "remaining s (123 # 102 # 125 # rest)"
  shows "first_pass (Suc n) m fts st s = None"
proof -
  have s: "good s = (True, s)" using good_remaining [OF assms(3)] by auto
  obtain s1 where s1: "get s = (Inr 123, s1)" "remaining s1 (102 # 125 # rest)"
    using get_remaining [OF assms(3)] by blast
  obtain s2 where s2: "peek s1 = (Inr 102, s2)" "remaining s2 (102 # 125 # rest)"
    using peek_remaining [OF s1(2)] by blast
  obtain s3 where s3: "peek s2 = (Inr 102, s3)" "remaining s3 (102 # 125 # rest)"
    using peek_remaining [OF s2(2)] by blast
  have "parsePositionalFormat m fts (fs_args st) new_arg s3 = None"
    unfolding assms(2) by (rule field_number_endless [where fts = fts and x = x, OF assms(1) s3(2)])
  then have "parseFormat m fts st s1 = None"
    by (simp add: parseFormat_def bindF_def peekF_def s2(1) s3(1) format_chars)
  then show ?thesis by (simp add: s bindF_def getF_def s1(1) format_chars Let_def)
qed

lemma one_number:
  "floatToString fl x default_opts = None \<Longrightarrow> format_text fl (bytes ''{f}'') (Double_Arg x # args) = None"
  unfolding format_text_def Let_def
  by (subst first_pass_number [where x = x and rest = "[]"]) (use memory_remaining [of "[123, 102, 125]"] in simp_all)

lemma format_returns:
  assumes "\<And>v opts. Double_Arg v \<in> set args \<Longrightarrow> floatToString fl v opts \<noteq> None"
  shows "format_text fl fmt args \<noteq> None"
proof -
  let ?fts = "\<lambda>v opts. if Double_Arg v \<in> set args then floatToString fl v opts else Some (Inl Undefined)"
  let ?st = "\<lparr>fs_args = args, fs_out = [], fs_converted = [], fs_reference = False, fs_escaped = False\<rparr>"
  let ?n = "Suc (length fmt)"
  have total: "returns ?fts" using assms by (auto simp: returns_def)
  have "first_pass ?n ?n (floatToString fl) ?st (EStream_memory fmt) = first_pass ?n ?n ?fts ?st (EStream_memory fmt)"
    by (rule first_pass_agree) (simp add: agree_def doubles_def)
  moreover have "ok (\<lambda>_ _. True) (first_pass ?n ?n ?fts ?st (EStream_memory fmt))"
    by (rule first_pass_ends [OF total memory_remaining]) simp_all
  ultimately obtain r s' where r: "first_pass ?n ?n (floatToString fl) ?st (EStream_memory fmt) = Some (r, s')"
    unfolding ok_def by auto
  then show ?thesis using second_stream_undefined
    by (cases r) (auto simp: format_text_def Let_def)
qed

section \<open>Properties\<close>

text \<open>
  C39. Formatting ends unless a number that is passed to it cannot be converted: if a call does not
  return, one of its arguments is a floating point number for which \<open>floatToString\<close> does not return
  with some options; the passes over the format and the chains of number modifiers always
  end. When that happens is in \<open>Float_Text\<close>.
\<close>

theorem format_ends:
  assumes "format_text fl fmt args = None"
  shows "\<exists>v opts. Double_Arg v \<in> set args \<and> floatToString fl v opts = None"
proof (rule ccontr)
  assume "\<not> ?thesis"
  then have "format_text fl fmt args \<noteq> None" using format_returns [of args fl fmt] by auto
  with assms show False by simp
qed

theorem format_ends_witness:
  "\<exists>v opts. Double_Arg v \<in> {Cstr_Arg [], Double_Arg (10 ^ 30)} \<and> floatToString whole_floats v opts = None"
proof -
  have "format_text whole_floats (bytes ''{f}'') [Double_Arg (10 ^ 30), Cstr_Arg []] = None"
    by (rule one_number) (rule whole_floats_endless)
  from format_ends [OF this] show ?thesis by auto
qed

text \<open>
  C35. A format of plain fields, without references, gives the concatenation of the texts of
  the fields: the literal text, the numbers in the notation of \<open>numToString\<close> with their widths
  and signs, and the strings; arguments behind the last field are not read.
\<close>

theorem format_segments:
  assumes "\<forall>g \<in> set gs. seg_ok g" and "map seg_text gs = map Inr outs"
  shows "format_text fl (concat (map seg_format gs)) (concat (map seg_args gs) @ later) =
    Some (Inr (concat outs))"
  by (rule format_fields [OF assms])

theorem format_segments_witness:
  "format_text whole_floats (bytes ''{s} {04u}-{+d}!'') [Cstr_Arg (bytes ''Jan''), Long_Arg 7, Long_Arg 530] =
    Some (Inr (bytes ''Jan 0007-+530!''))"
proof -
  let ?gs = "[Cstring (bytes ''Jan''), Text (bytes '' ''), Padded (bytes ''04'') 7, Text (bytes ''-''),
    Signed_Plus 530, Text (bytes ''!'')]"
  let ?outs = "map bytes [''Jan'', '' '', ''0007'', ''-'', ''+530'', ''!'']"
  have zeros: "replicate 3 (48 :: byte) = [48, 48, 48]" by (simp add: numeral_3_eq_3)
  have "map seg_text ?gs = map Inr ?outs"
    by (simp add: zeros numToString_def numToStringSigned_def unsigned_opts_def default_opts_def UINT8_MAX_def
        sign_text_def SIGN_FOR_NEGATIVES_def SIGN_FOR_POSITIVES_def decimal_def count_digits.simps
        digits_loop.simps digit_step_def digit_text_def char_times_def zeros_loop.simps Let_def)
  moreover have "\<forall>g \<in> set ?gs. seg_ok g" by (simp add: isDigit_def format_chars)
  ultimately show ?thesis using format_segments [of ?gs ?outs whole_floats "[]"] by simp
qed

text \<open>
  The case modifiers do not change the case. \<open>{sl}\<close> keeps only the characters from \<open>Z\<close> on,
  with 32 added, and \<open>{su}\<close> only those from \<open>z\<close> on, with 32 taken off; so of a text whose
  characters are all before \<open>z\<close>, \<open>{su}\<close> leaves nothing.
\<close>

theorem case_modifier_drops:
  assumes "\<forall>c \<in> set t. 0 \<le> sint c \<and> sint c < 122"
  shows "format_text fl (bytes ''{su}'') [Cstr_Arg t] = Some (Inr []) \<and>
    format_text fl (bytes ''{sl}'') [Cstr_Arg t] = Some (Inr (map (\<lambda>c. c + 32) (filter (\<lambda>c. 90 \<le> sint c) t)))"
proof -
  have none: "filter (\<lambda>c. 97 \<le> sint c \<and> 122 \<le> sint c) t = []"
    using assms by (intro filter_False) fastforce
  have same: "(\<lambda>c. 65 \<le> sint c \<and> 90 \<le> sint c) = (\<lambda>c :: byte. 90 \<le> sint c)" by auto
  show ?thesis
    using format_one_field [OF field_case [of 117 "floatToString fl" t]] format_one_field [OF field_case [of 108 "floatToString fl" t]]
    by (simp add: none same)
qed

theorem case_modifier_drops_witness:
  "format_text whole_floats (bytes ''{su}'') [Cstr_Arg (bytes ''abc'')] = Some (Inr []) \<and>
    format_text whole_floats (bytes ''{sl}'') [Cstr_Arg (bytes ''AbC'')] = Some (Inr [130])"
  using case_modifier_drops [of "bytes ''abc''" whole_floats]
    case_modifier_drops [of "bytes ''AbC''" whole_floats] by simp

end
