(* ===== verification/Calendar.thy ===== *)
theory Calendar
  imports String_Format
begin

text \<open>
  The calendar of lib/etime.cpp, lib/etime.h and lib/ecal.cpp: seconds since 1970 to a date in
  one of three formats and back. The clock and the offset of the application are arguments. The
  loops over years are partial functions, since their counters wrap at 16 and 64 bits. The types
  of the arithmetic are those of the code: \<open>(year - 1970) * SECONDS_PER_NON_LEAP_YEAR\<close> is an
  \<open>int\<close>, an overflow of which is undefined.
\<close>

section \<open>Years and months\<close>

definition SECONDS_PER_HOUR :: nat where "SECONDS_PER_HOUR = 3600"
definition SECONDS_PER_MINUTE :: nat where "SECONDS_PER_MINUTE = 60"
definition SECONDS_PER_DAY :: nat where "SECONDS_PER_DAY = 86400"
definition SECONDS_PER_NON_LEAP_YEAR :: nat where "SECONDS_PER_NON_LEAP_YEAR = 31536000"
definition SIZE_MONTHS_ARRAY :: nat where "SIZE_MONTHS_ARRAY = 12 + 1"

named_theorems seconds \<open>the lengths of units of time\<close>

lemmas seconds_units [seconds] =
  SECONDS_PER_HOUR_def SECONDS_PER_MINUTE_def SECONDS_PER_DAY_def SECONDS_PER_NON_LEAP_YEAR_def

definition RUNNING_SECONDS_NON_LEAP_YEAR :: "nat list" where
  "RUNNING_SECONDS_NON_LEAP_YEAR = map (\<lambda>d. SECONDS_PER_DAY * d)
     [0, 31, 59, 90, 120, 151, 181, 212, 243, 273, 304, 334, 365]"

definition RUNNING_SECONDS_LEAP_YEAR :: "nat list" where
  "RUNNING_SECONDS_LEAP_YEAR = map (\<lambda>d. SECONDS_PER_DAY * d)
     [0, 31, 60, 91, 121, 152, 182, 213, 244, 274, 305, 335, 366]"

definition isLeapYear :: "nat \<Rightarrow> bool" where
  "isLeapYear year \<longleftrightarrow> year mod 4 = 0 \<and> (year mod 100 \<noteq> 0 \<or> (year mod 100 = 0 \<and> year mod 400 = 0))"

definition running_seconds :: "nat \<Rightarrow> nat list" where
  "running_seconds year =
     (if isLeapYear year then RUNNING_SECONDS_LEAP_YEAR else RUNNING_SECONDS_NON_LEAP_YEAR)"

text \<open>\<open>month - 1\<close> is an \<open>int\<close>; month 0 reads before the table.\<close>

definition secondsUpUntilMonth :: "nat \<Rightarrow> nat \<Rightarrow> nat res" where
  "secondsUpUntilMonth month year =
     (if month = 0 then Inl Undefined else readB (running_seconds year) (month - 1))"

partial_function (option) leap_loop :: "nat \<Rightarrow> nat \<Rightarrow> nat \<Rightarrow> nat option" where
  "leap_loop year year_cursor num_leap_years =
     (if year_cursor < year
      then leap_loop year ((year_cursor + 4) mod 2 ^ 16)
        (if isLeapYear year_cursor then (num_leap_years + 1) mod 2 ^ 16 else num_leap_years)
      else Some num_leap_years)"

declare leap_loop.simps [code]

definition getNumLeapYears :: "nat \<Rightarrow> nat option" where
  "getNumLeapYears year = leap_loop year 1972 0"

section \<open>Offsets\<close>

definition OFFSETS :: "int list" where
  "OFFSETS = [-1200, -1100, -1000, -900, -800, -700, -600, -500, -400, -300, -200, -100, 0,
     100, 200, 300, 330, 400, 430, 500, 530, 545, 600, 700, 800, 900, 930, 1000, 1030, 1100,
     1200, 1245, 1300, 1345, 1400]"

text \<open>
  An error message with a number in it. The number is passed as an \<open>int\<close> and read as a 64-bit
  integer.
\<close>

definition throw_format :: "string \<Rightarrow> int \<Rightarrow> 'a res" where
  "throw_format m v =
     (case format_text whole_floats (bytes m) [Int_Arg (of_int v)] of
        Some (Inr t) \<Rightarrow> Inl (Runtime_Error (map (\<lambda>c. char_of (unat c)) t))
      | Some (Inl e) \<Rightarrow> Inl e
      | None \<Rightarrow> Inl Undefined)"

definition setApplicationTimeOffset :: "int \<Rightarrow> int \<Rightarrow> unit res \<times> int" where
  "setApplicationTimeOffset offset app =
     (if offset \<notin> set OFFSETS then (throw_format ''Invalid offset provided: {d}'' offset, app)
      else (Inr (), offset))"

definition getZonedEpochTime :: "int \<Rightarrow> int \<Rightarrow> int \<Rightarrow> nat \<times> int" where
  "getZonedEpochTime clock app offset =
     (let offset' = (if offset \<notin> set OFFSETS then app else offset)
      in (nat ((clock + offset' * int SECONDS_PER_HOUR) mod 2 ^ 64), offset'))"

definition getUTCEpochTime :: "int \<Rightarrow> int \<Rightarrow> nat" where
  "getUTCEpochTime clock app = fst (getZonedEpochTime clock app 0)"

section \<open>Seconds to a date\<close>

datatype datetime = Datetime
  (dt_year: nat) (dt_month: nat) (dt_day: nat) (dt_hr: nat) (dt_min: nat) (dt_sec: nat)

partial_function (option) year_loop :: "nat \<Rightarrow> nat \<Rightarrow> nat \<Rightarrow> (nat \<times> nat) option" where
  "year_loop epoch_seconds gregorian_count year =
     (let count1 = add64 gregorian_count SECONDS_PER_NON_LEAP_YEAR;
          count2 = (if isLeapYear year then add64 count1 SECONDS_PER_DAY else count1);
          year1 = (year + 1) mod 2 ^ 16
      in if count2 \<le> epoch_seconds then year_loop epoch_seconds count2 year1
         else Some (count2, year1))"

declare year_loop.simps [code]

definition year_of :: "nat \<Rightarrow> (nat \<times> nat) option" where
  "year_of epoch_seconds =
     (if SECONDS_PER_NON_LEAP_YEAR \<le> epoch_seconds
      then map_option (\<lambda>(gregorian_count, y).
        let year = (y + 2 ^ 16 - 1) mod 2 ^ 16;
            since = sub64 epoch_seconds (sub64 gregorian_count SECONDS_PER_NON_LEAP_YEAR)
        in (year, if isLeapYear year then add64 since SECONDS_PER_DAY else since))
        (year_loop epoch_seconds 0 1970)
      else Some (1970, epoch_seconds))"

function month_loop :: "nat list \<Rightarrow> nat \<Rightarrow> nat \<Rightarrow> nat" where
  "month_loop running since i =
     (if i < SIZE_MONTHS_ARRAY \<and> running ! i \<le> since then month_loop running since (Suc i) else i)"
  by pat_completeness auto
termination
  by (relation "measure (\<lambda>(running, since, i). SIZE_MONTHS_ARRAY - i)") auto

declare month_loop.simps [simp del]

text \<open>
  The fields of a date; the day counts from 0, as in the code. \<open>uint32_t\<close> and \<open>uint8_t\<close> wrap.
\<close>

definition left_over :: "nat \<Rightarrow> nat \<Rightarrow> nat \<Rightarrow> nat \<Rightarrow> nat" where
  "left_over m a q u = nat ((int a - int q * int u) mod int m)"

definition date_fields :: "nat \<Rightarrow> datetime option" where
  "date_fields epoch_seconds =
     map_option (\<lambda>(year, since).
       let running = running_seconds year;
           i = month_loop running since 0;
           until = running ! (if i = 0 then 0 else i - 1);
           month_secs = sub64 since until mod 2 ^ 32;
           day = (month_secs div SECONDS_PER_DAY) mod 2 ^ 8;
           day_secs = left_over (2 ^ 32) month_secs day SECONDS_PER_DAY;
           hr = (day_secs div SECONDS_PER_HOUR) mod 2 ^ 8;
           hr_secs = left_over (2 ^ 32) day_secs hr SECONDS_PER_HOUR;
           mn = (hr_secs div SECONDS_PER_MINUTE) mod 2 ^ 8;
           sec = left_over (2 ^ 8) hr_secs mn SECONDS_PER_MINUTE
       in Datetime year (i mod 2 ^ 8) day hr mn sec)
       (year_of epoch_seconds)"

definition MONTH_NAME :: "string list" where
  "MONTH_NAME = ['''', ''Jan'', ''Feb'', ''Mar'', ''Apr'', ''May'', ''June'', ''July'', ''Aug'', ''Sep'',
     ''Oct'', ''Nov'', ''Dec'']"

datatype DATETIME_FORMAT = READABLE | ISO8601 | ISO8601_READABLE

definition int64 :: "int \<Rightarrow> 'd vararg" where "int64 x = Long_Arg (of_int x)"
definition uint64 :: "nat \<Rightarrow> 'd vararg" where "uint64 x = Long_Arg (of_nat x)"

definition bindO :: "'a res option \<Rightarrow> ('a \<Rightarrow> 'b res option) \<Rightarrow> 'b res option" where
  "bindO m f = (case m of None \<Rightarrow> None | Some (Inl e) \<Rightarrow> Some (Inl e) | Some (Inr x) \<Rightarrow> f x)"

definition offset_text ::
  "'d float_ops \<Rightarrow> int \<Rightarrow> DATETIME_FORMAT \<Rightarrow> byte list res option"
where
  "offset_text fl offset fmt =
     (if offset = 0 then Some (Inr (bytes ''Z''))
      else if fmt = ISO8601 then format_text fl (bytes ''{+d}'') [int64 offset]
      else format_text fl (bytes ''{+d}:{-02d}'')
        [int64 (sgn offset * (\<bar>offset\<bar> div 100)), int64 offset])"

definition date_text ::
  "'d float_ops \<Rightarrow> datetime \<Rightarrow> DATETIME_FORMAT \<Rightarrow> byte list res option"
where
  "date_text fl dt fmt =
     (case fmt of
        READABLE \<Rightarrow>
          bindO (Some (readB MONTH_NAME (dt_month dt))) (\<lambda>name.
            format_text fl (bytes ''{s} {u} {u}, {02u}:{02u}:{02u} '')
              [Cstr_Arg (bytes name), uint64 (dt_day dt + 1), uint64 (dt_year dt),
               uint64 (dt_hr dt), uint64 (dt_min dt), uint64 (dt_sec dt)])
      | ISO8601_READABLE \<Rightarrow>
          format_text fl (bytes ''{04u}-{02u}-{02u}T{02u}:{02u}:{02u}'')
            [uint64 (dt_year dt), uint64 (dt_month dt), uint64 (dt_day dt + 1),
             uint64 (dt_hr dt), uint64 (dt_min dt), uint64 (dt_sec dt)]
      | ISO8601 \<Rightarrow>
          format_text fl (bytes ''{04u}{02u}{02u}T{02u}{02u}{02u}'')
            [uint64 (dt_year dt), uint64 (dt_month dt), uint64 (dt_day dt + 1),
             uint64 (dt_hr dt), uint64 (dt_min dt), uint64 (dt_sec dt)])"

definition getFormattedDateTime ::
  "'d float_ops \<Rightarrow> int \<Rightarrow> int \<Rightarrow> int \<Rightarrow> DATETIME_FORMAT \<Rightarrow> byte list res option"
where
  "getFormattedDateTime fl clock app offset fmt =
     (case getZonedEpochTime clock app offset of (epoch_seconds, offset') \<Rightarrow>
        case date_fields epoch_seconds of
          None \<Rightarrow> None
        | Some dt \<Rightarrow>
            bindO (offset_text fl offset' fmt) (\<lambda>ot.
              bindO (date_text fl dt fmt) (\<lambda>t. Some (Inr (t @ ot)))))"

section \<open>A date to seconds\<close>

definition MONTH_NUM :: "byte list \<Rightarrow> nat" where
  "MONTH_NUM name =
     (case map_of (zip (map (\<lambda>m. bytes (m @ '' '')) (tl MONTH_NAME)) [1..<13]) name of
        Some n \<Rightarrow> n
      | None \<Rightarrow> 0)"

definition check :: "bool \<Rightarrow> string \<Rightarrow> nat \<Rightarrow> unit parser" where
  "check bad m v = liftF (if bad then throw_format m (int v) else Inr ())"

definition isValidYear :: "nat \<Rightarrow> nat \<Rightarrow> unit parser" where
  "isValidYear year digit_count =
     check (year < 1970 \<or> 9999 < year \<or> 4 < digit_count)
       ''Error parsing Readable Date Time, invalid year. {u}'' year"

definition isValidMonth :: "nat \<Rightarrow> nat \<Rightarrow> unit parser" where
  "isValidMonth month digit_count =
     check (month < 1 \<or> 12 < month \<or> (digit_count \<noteq> UINT8_MAX \<and> 2 < digit_count))
       ''Error parsing Readable Date Time, invalid month. {u}'' month"

definition isValidDay :: "nat \<Rightarrow> nat \<Rightarrow> unit parser" where
  "isValidDay day digit_count =
     check (day < 1 \<or> 31 < day \<or> 2 < digit_count)
       ''Error parsing Readable Date Time, invalid day. {u}'' day"

definition isValidHr :: "nat \<Rightarrow> nat \<Rightarrow> unit parser" where
  "isValidHr hr digit_count =
     check (23 < hr \<or> 2 < digit_count) ''Error parsing Readable Date Time, invalid hour. {u}'' hr"

definition isValidMin :: "nat \<Rightarrow> nat \<Rightarrow> unit parser" where
  "isValidMin mn digit_count =
     check (59 < mn \<or> 2 < digit_count) ''Error parsing Readable Date Time, invalid hour. {u}'' mn"

definition isValidSec :: "nat \<Rightarrow> nat \<Rightarrow> unit parser" where
  "isValidSec sec digit_count =
     check (59 < sec \<or> 2 < digit_count) ''Error parsing Readable Date Time, invalid sec. {u}'' sec"

text \<open>The readers of a number: its value and its digit count, which is narrowed to a \<open>uint8_t\<close>.\<close>

definition numberF :: "byte list \<Rightarrow> bool \<Rightarrow> (nat \<times> nat) parser" where
  "numberF until consume s =
     map_option (\<lambda>(r, t, s'). (map_sum id (\<lambda>(v, n). (v, n mod 2 ^ 8)) r, s')) (readNatural until consume s)"

definition number_nF :: "nat \<Rightarrow> (nat \<times> nat) parser" where
  "number_nF n s =
     map_option (\<lambda>(r, t, s'). (map_sum id (\<lambda>(v, n). (v, n mod 2 ^ 8)) r, s')) (readNatural_n n s)"

definition wordF :: "byte list \<Rightarrow> byte list parser" where
  "wordF until s = map_option (\<lambda>(r, t, s'). (r, s')) (readString until None True s)"

definition expect :: "char \<Rightarrow> string \<Rightarrow> unit parser" where
  "expect c m = bindF getF (\<lambda>b. if b \<noteq> letter c then throwF m else liftF (Inr ()))"

definition int8 :: "nat \<Rightarrow> int" where
  "int8 v = sint (of_nat v :: 8 word)"

definition sign_of :: "byte \<Rightarrow> int parser" where
  "sign_of c =
     (if c = letter CHR ''+'' then liftF (Inr 1)
      else if c = letter CHR ''-'' then liftF (Inr (-1))
      else throwF ''Error parsing Readable Date Time, invalid sign.'')"

definition parseReadableOffset :: "int parser" where
  "parseReadableOffset =
     bindF getF (\<lambda>c.
       if c \<noteq> letter CHR ''Z''
       then bindF (sign_of c) (\<lambda>sign_mul.
         bindF (numberF [] True) (\<lambda>(h, n).
           if 1 < n then throwF ''Error parsing offset hour.''
           else bindF (expect CHR '':'' (''Error parsing Readable Date Time, expected '' @ quoted (bytes '':'') @ ''.''))
             (\<lambda>_. bindF (number_nF 2) (\<lambda>(m, k).
               if 2 < k then throwF ''Error parsing offset min.''
               else liftF (Inr (sint (of_int (sign_mul * (int8 h * int SECONDS_PER_HOUR +
                 int8 m * int SECONDS_PER_MINUTE)) :: 16 word)))))))
       else liftF (Inr 0))"

text \<open>The seconds up to a year: an \<open>int\<close> product.\<close>

definition year_seconds :: "nat \<Rightarrow> nat res" where
  "year_seconds year =
     (let p = (int year - 1970) * int SECONDS_PER_NON_LEAP_YEAR
      in if p < - (2 ^ 31) \<or> 2 ^ 31 \<le> p then Inl Undefined else Inr (nat (p mod 2 ^ 64)))"

definition leap_seconds :: "nat \<Rightarrow> nat parser" where
  "leap_seconds year s =
     map_option (\<lambda>n. (Inr (n * SECONDS_PER_DAY), s)) (getNumLeapYears year)"

definition add_int :: "nat \<Rightarrow> int \<Rightarrow> nat" where
  "add_int a i = nat ((int a + i) mod 2 ^ 64)"

definition parseReadableDateTime :: "nat parser" where
  "parseReadableDateTime =
     bindF (wordF (bytes '' '')) (\<lambda>name. let month = MONTH_NUM name in
     bindF (isValidMonth month UINT8_MAX) (\<lambda>_.
     bindF (numberF [] True) (\<lambda>(d, dn). let day = d mod 2 ^ 8 in
     bindF (isValidDay day dn) (\<lambda>_.
     bindF (expect CHR '' '' ''Error parsing Readable Date Time, expected space.'') (\<lambda>_.
     bindF (numberF [] True) (\<lambda>(y, yn). let year = y mod 2 ^ 16 in
     bindF (isValidYear year yn) (\<lambda>_.
     bindF (expect CHR '','' ''Error parsing Readable Date Time - year, expected comma.'') (\<lambda>_.
     bindF (expect CHR '' '' ''Error parsing Readable Date Time - year, expected space.'') (\<lambda>_.
     bindF (liftF (year_seconds year)) (\<lambda>ys.
     bindF (leap_seconds year) (\<lambda>ls.
     bindF (liftF (secondsUpUntilMonth month year)) (\<lambda>ms.
     let e1 = add_int (add64 (add64 (add64 0 ys) ls) ms) ((int day - 1) * int SECONDS_PER_DAY) in
     bindF (numberF [] True) (\<lambda>(h, hn). let hr = h mod 2 ^ 8 in
     bindF (isValidHr hr hn) (\<lambda>_.
     bindF (expect CHR '':'' ''Error parsing Readable Date Time - hr, expected colon.'') (\<lambda>_.
     bindF (numberF [] True) (\<lambda>(m, mn). let min = m mod 2 ^ 8 in
     bindF (isValidMin min mn) (\<lambda>_.
     bindF (expect CHR '':'' ''Error parsing Readable Date Time - min, expected colon.'') (\<lambda>_.
     bindF (numberF [] True) (\<lambda>(sc, sn). let sec = sc mod 2 ^ 8 in
     bindF (isValidSec sec sn) (\<lambda>_.
     bindF (expect CHR '' '' ''Error parsing Readable Date Time - sec, expected space.'') (\<lambda>_.
     let e2 = add64 (add64 (add64 e1 (hr * SECONDS_PER_HOUR)) (min * SECONDS_PER_MINUTE)) sec in
     bindF parseReadableOffset (\<lambda>offset. liftF (Inr (add_int e2 offset))))))))))))))))))))))))"

text \<open>
  The two ISO formats: what the six numbers are read with, and the date they make. In between
  the compact one takes the byte for \<open>T\<close>.
\<close>

definition iso_date :: "nat \<times> nat \<Rightarrow> (nat \<times> nat) parser \<Rightarrow> (nat \<times> nat) parser \<Rightarrow> nat parser" where
  "iso_date y month_number day_number =
     (let year = fst y mod 2 ^ 16 in
     bindF (isValidYear year (snd y)) (\<lambda>_.
     bindF (liftF (year_seconds year)) (\<lambda>ys.
     bindF (leap_seconds year) (\<lambda>ls.
     bindF month_number (\<lambda>(m, mn). let month = m mod 2 ^ 8 in
     bindF (isValidMonth month mn) (\<lambda>_.
     bindF (liftF (secondsUpUntilMonth month year)) (\<lambda>ms.
     bindF day_number (\<lambda>(d, dn). let day = d mod 2 ^ 8 in
     bindF (isValidDay day dn) (\<lambda>_.
     liftF (Inr (add_int (add64 (add64 (add64 0 ys) ls) ms) ((int day - 1) * int SECONDS_PER_DAY))))))))))))"

definition iso_time :: "nat \<Rightarrow> (nat \<times> nat) parser \<Rightarrow> (nat \<times> nat) parser \<Rightarrow> (nat \<times> nat) parser \<Rightarrow> nat parser" where
  "iso_time e1 hr_number min_number sec_number =
     bindF hr_number (\<lambda>(h, hn). let hr = h mod 2 ^ 8 in
     bindF (isValidHr hr hn) (\<lambda>_.
     bindF min_number (\<lambda>(m, mn). let min = m mod 2 ^ 8 in
     bindF (isValidMin min mn) (\<lambda>_.
     bindF sec_number (\<lambda>(sc, sn). let sec = sc mod 2 ^ 8 in
     bindF (isValidSec sec sn) (\<lambda>_.
     liftF (Inr (add64 (add64 (add64 e1 (hr * SECONDS_PER_HOUR)) (min * SECONDS_PER_MINUTE)) sec))))))))"

definition parseISO8601ReadableDateTime :: "nat parser" where
  "parseISO8601ReadableDateTime =
     bindF (numberF (bytes ''-'') True) (\<lambda>y.
     bindF (iso_date y (numberF (bytes ''-'') True) (numberF (bytes ''T'') True)) (\<lambda>e1.
     bindF (iso_time e1 (numberF (bytes '':'') True) (numberF (bytes '':'') True)
       (numberF (bytes ''Z+-'') False)) (\<lambda>e2.
     bindF parseReadableOffset (\<lambda>offset. liftF (Inr (add_int e2 offset))))))"

definition parseISO8601Offset :: "int parser" where
  "parseISO8601Offset =
     bindF getF (\<lambda>c.
       if c \<noteq> letter CHR ''Z''
       then bindF (sign_of c) (\<lambda>sign_mul.
         bindF (number_nF 1) (\<lambda>(h, n).
           if 1 < n then throwF ''Error parsing offset hour.''
           else bindF (number_nF 2) (\<lambda>(m, k).
             if 2 < k then throwF ''Error parsing offset min.''
             else liftF (Inr (sign_mul * (int8 h * int SECONDS_PER_HOUR +
               int8 m * int SECONDS_PER_MINUTE))))))
       else liftF (Inr 0))"

definition parseISO8601DateTime :: "nat parser" where
  "parseISO8601DateTime =
     bindF (number_nF 4) (\<lambda>y.
     bindF (iso_date y (number_nF 2) (number_nF 2)) (\<lambda>e1.
     bindF getF (\<lambda>_.
     bindF (iso_time e1 (number_nF 2) (number_nF 2) (number_nF 2)) (\<lambda>e2.
     bindF parseISO8601Offset (\<lambda>offset. liftF (Inr (add_int e2 offset)))))))"

definition getEpochFromFormattedDateTime :: "byte list \<Rightarrow> DATETIME_FORMAT \<Rightarrow> nat res option" where
  "getEpochFromFormattedDateTime dt fmt =
     map_option fst
       ((case fmt of
           READABLE \<Rightarrow> parseReadableDateTime
         | ISO8601_READABLE \<Rightarrow> parseISO8601ReadableDateTime
         | ISO8601 \<Rightarrow> parseISO8601DateTime) (EStream_memory dt))"

section \<open>The calendar\<close>

definition leaps :: "nat \<Rightarrow> nat" where
  "leaps y = length (filter isLeapYear [1970..<y])"

definition year_length :: "nat \<Rightarrow> nat" where
  "year_length y = SECONDS_PER_NON_LEAP_YEAR + (if isLeapYear y then SECONDS_PER_DAY else 0)"

definition year_start :: "nat \<Rightarrow> nat" where
  "year_start y = (y - 1970) * SECONDS_PER_NON_LEAP_YEAR + leaps y * SECONDS_PER_DAY"

lemma year_start_Suc: "1970 \<le> y \<Longrightarrow> year_start (Suc y) = year_start y + year_length y"
proof -
  assume y: "1970 \<le> y"
  then have "leaps (Suc y) = leaps y + (if isLeapYear y then 1 else 0)" by (simp add: leaps_def)
  moreover have "Suc y - 1970 = Suc (y - 1970)" using y by simp
  ultimately show ?thesis by (simp add: year_start_def year_length_def del: diff_Suc_Suc)
qed

lemma year_start_1970 [simp]: "year_start 1970 = 0"
  by (simp add: year_start_def leaps_def)

lemma year_start_less: "1970 \<le> y \<Longrightarrow> year_start y < year_start (Suc y)"
  by (simp add: year_start_Suc year_length_def seconds)

lemma year_start_mono: "1970 \<le> y \<Longrightarrow> y \<le> z \<Longrightarrow> year_start y \<le> year_start z"
proof (induction z)
  case (Suc z)
  then show ?case using year_start_less [of z] by (cases "y = Suc z") auto
qed simp

lemma year_start_bound: "y < 2 ^ 16 \<Longrightarrow> year_start y < 2 ^ 42"
proof -
  assume y: "y < 2 ^ 16"
  have "leaps y \<le> y" unfolding leaps_def
    by (rule le_trans [OF length_filter_le]) simp
  then show ?thesis using y by (simp add: year_start_def seconds)
qed

lemma year_exists: "1970 \<le> z \<Longrightarrow> e < year_start z \<Longrightarrow>
    \<exists>y. 1970 \<le> y \<and> y < z \<and> year_start y \<le> e \<and> e < year_start (Suc y)"
proof (induction z)
  case (Suc z)
  have z: "1970 \<le> z"
  proof (rule ccontr)
    assume "\<not> 1970 \<le> z"
    then have "Suc z = 1970" using Suc.prems(1) by simp
    then show False using Suc.prems(2) by (simp only: year_start_1970 not_less_zero)
  qed
  show ?case
  proof (cases "e < year_start z")
    case True
    then show ?thesis using Suc.IH [OF z] less_SucI by blast
  next
    case False
    then show ?thesis using z Suc.prems(2) by (intro exI [of _ z]) simp
  qed
qed simp

lemma leap_step: "c mod 4 = 0 \<Longrightarrow> \<not> isLeapYear (c + 1) \<and> \<not> isLeapYear (c + 2) \<and> \<not> isLeapYear (c + 3)"
  unfolding isLeapYear_def by presburger

lemma leap_loop_count:
  "c mod 4 = 0 \<Longrightarrow> y < 65533 \<Longrightarrow> c \<le> y + 3 \<Longrightarrow> acc + (y - c) < 2 ^ 16 \<Longrightarrow>
    leap_loop y c acc = Some (acc + length (filter isLeapYear [c..<y]))"
proof (induction "y - c" arbitrary: c acc rule: less_induct)
  case less
  show ?case
  proof (cases "c < y")
    case True
    have "c + 4 < 65536" using True less.prems(1,2) by presburger
    then have lt: "c + 4 < 2 ^ 16" by simp
    have split: "length (filter isLeapYear [c..<y]) =
        (if isLeapYear c then 1 else 0) + length (filter isLeapYear [c + 4..<y])"
    proof -
      have step: "[k..<y] = (if k < y then k # [Suc k..<y] else [])" for k by (simp add: upt_rec)
      show ?thesis
        using True leap_step [OF less.prems(1)]
        by (simp add: step [of c] step [of "Suc c"] step [of "Suc (Suc c)"] step [of "Suc (Suc (Suc c))"]
            eval_nat_numeral)
    qed
    define acc' where "acc' = (if isLeapYear c then (acc + 1) mod 2 ^ 16 else acc)"
    have a: "acc' = acc + (if isLeapYear c then 1 else 0)" using less.prems(4) True by (simp add: acc'_def)
    have "leap_loop y c acc = leap_loop y (c + 4) acc'"
      using True lt by (subst leap_loop.simps) (simp add: acc'_def)
    also have "\<dots> = Some (acc' + length (filter isLeapYear [c + 4..<y]))"
      by (rule less.hyps) (use True less.prems a in \<open>auto simp: mod_simps\<close>)
    finally show ?thesis using split a by simp
  next
    case False
    then show ?thesis by (subst leap_loop.simps) simp
  qed
qed

lemma getNumLeapYears_leaps: "y < 65533 \<Longrightarrow> getNumLeapYears y = Some (leaps y)"
proof -
  assume y: "y < 65533"
  have "filter isLeapYear [1970..<y] = filter isLeapYear [1972..<y]"
  proof (cases "1972 \<le> y")
    case True
    have "[1970..<y] = [1970..<1972] @ [1972..<y]" using upt_add_eq_append [of 1970 1972 "y - 1972"] True by simp
    moreover have "filter isLeapYear [1970..<1972] = []" by (simp add: isLeapYear_def upt_rec)
    ultimately show ?thesis by (simp only: filter_append) simp
  next
    case False
    then have "y \<le> 1970 \<or> y = 1971" by linarith
    then show ?thesis by (auto simp: isLeapYear_def)
  qed
  moreover have "getNumLeapYears y = Some (0 + length (filter isLeapYear [1972..<y]))"
  proof (cases "1972 \<le> y + 3")
    case True
    then show ?thesis unfolding getNumLeapYears_def by (intro leap_loop_count) (use y in simp_all)
  next
    case False
    then show ?thesis unfolding getNumLeapYears_def by (subst leap_loop.simps) simp
  qed
  ultimately show ?thesis by (simp add: leaps_def)
qed

lemma year_loop_start:
  "1970 \<le> y \<Longrightarrow> y \<le> z \<Longrightarrow> z < 65535 \<Longrightarrow> year_start z \<le> e \<Longrightarrow> e < year_start (Suc z) \<Longrightarrow>
    year_loop e (year_start y) y = Some (year_start (Suc z), Suc z)"
proof (induction "z - y" arbitrary: y)
  case 0
  then have yz: "y = z" by simp
  have b: "year_start (Suc z) < 2 ^ 42" using 0 by (intro year_start_bound) simp
  have "year_loop e (year_start z) z = Some (year_start (Suc z), Suc z)"
    using 0 b by (subst year_loop.simps)
      (auto simp: Let_def year_start_Suc [of z] year_length_def add64_def yz)
  then show ?case using yz by simp
next
  case (Suc d)
  then have yz: "y < z" by simp
  have "year_start (Suc y) < 2 ^ 42" using Suc yz by (intro year_start_bound) simp
  moreover have "year_start (Suc y) \<le> e"
    using year_start_mono [of "Suc y" z] Suc.prems yz by simp
  ultimately have "year_loop e (year_start y) y = year_loop e (year_start (Suc y)) (Suc y)"
    using Suc.prems yz by (subst year_loop.simps)
      (auto simp: Let_def year_start_Suc [of y] year_length_def add64_def add.assoc)
  then show ?case using Suc.hyps(1) [of "Suc y"] Suc.hyps(2) Suc.prems yz by simp
qed

lemma sub_add_wrap: "s \<le> e \<Longrightarrow> e < 2 ^ 63 \<Longrightarrow> s + d < 2 ^ 64 \<Longrightarrow> add64 (sub64 e (s + d)) d = e - s"
proof -
  assume a: "s \<le> e" "e < 2 ^ 63" "s + d < 2 ^ 64"
  then have "add64 (sub64 e (s + d)) d = (e + (2 ^ 64 - (s + d)) + d) mod 2 ^ 64"
    by (simp add: add64_def sub64_def mod_add_left_eq)
  also have "e + (2 ^ 64 - (s + d)) + d = (e - s) + 2 ^ 64" using a by simp
  also have "((e - s) + 2 ^ 64) mod 2 ^ 64 = (e - s) mod 2 ^ 64" by (rule mod_add_self2)
  also have "\<dots> = e - s" using a by simp
  finally show ?thesis .
qed

lemma year_of_start:
  assumes "1970 \<le> y" "y < 65535" "year_start y \<le> e" "e < year_start (Suc y)"
  shows "year_of e = Some (y, e - year_start y)"
proof (cases "SECONDS_PER_NON_LEAP_YEAR \<le> e")
  case True
  have b: "year_start (Suc y) < 2 ^ 42" using assms(2) by (intro year_start_bound) simp
  have "year_loop e 0 1970 = Some (year_start (Suc y), Suc y)"
    using year_loop_start [of 1970 y e] assms by simp
  moreover have "(Suc y + 2 ^ 16 - 1) mod 2 ^ 16 = y" using assms(2) by simp
  moreover have "sub64 (year_start (Suc y)) SECONDS_PER_NON_LEAP_YEAR =
      year_start y + (if isLeapYear y then SECONDS_PER_DAY else 0)"
    using b assms(1) by (simp add: year_start_Suc year_length_def)
  ultimately have "year_of e = Some (y, if isLeapYear y
      then add64 (sub64 e (year_start y + SECONDS_PER_DAY)) SECONDS_PER_DAY else sub64 e (year_start y))"
    using True by (simp add: year_of_def Let_def)
  then show ?thesis
    using assms(1,3,4) b sub_add_wrap [of "year_start y" e SECONDS_PER_DAY]
    by (auto simp: year_start_Suc year_length_def)
next
  case False
  have "y = 1970"
  proof (rule ccontr)
    assume "y \<noteq> 1970"
    then have "year_start 1971 \<le> e" using year_start_mono [of 1971 y] assms(1,3) by simp
    moreover have "year_start 1971 = SECONDS_PER_NON_LEAP_YEAR"
      using year_start_Suc [of 1970] by (simp add: year_length_def isLeapYear_def)
    ultimately show False using False by simp
  qed
  then show ?thesis using False by (simp add: year_of_def)
qed

lemma month_loop_stops:
  "i \<le> SIZE_MONTHS_ARRAY \<Longrightarrow> \<forall>k < i. r ! k \<le> since \<Longrightarrow>
    (let j = month_loop r since i in i \<le> j \<and> j \<le> SIZE_MONTHS_ARRAY \<and> (\<forall>k < j. r ! k \<le> since) \<and>
      (j < SIZE_MONTHS_ARRAY \<longrightarrow> since < r ! j))"
proof (induction r since i rule: month_loop.induct)
  case (1 r since i)
  show ?case
  proof (cases "i < SIZE_MONTHS_ARRAY \<and> r ! i \<le> since")
    case True
    then have "month_loop r since i = month_loop r since (Suc i)" by (subst month_loop.simps) simp
    moreover have "let j = month_loop r since (Suc i) in Suc i \<le> j \<and> j \<le> SIZE_MONTHS_ARRAY \<and>
        (\<forall>k < j. r ! k \<le> since) \<and> (j < SIZE_MONTHS_ARRAY \<longrightarrow> since < r ! j)"
      using "1.IH" [OF True] True "1.prems"(2) by (simp add: less_Suc_eq)
    ultimately show ?thesis by (simp add: Let_def)
  next
    case False
    then have "month_loop r since i = i" by (subst month_loop.simps) (simp only: False if_False)
    then show ?thesis using False "1.prems" by (auto simp: Let_def)
  qed
qed

lemma running_facts:
  "length (running_seconds y) = 13" "running_seconds y ! 0 = 0" "running_seconds y ! 12 = year_length y"
  "\<forall>k < 12. running_seconds y ! Suc k - running_seconds y ! k \<le> 31 * SECONDS_PER_DAY"
  "\<forall>k < 13. running_seconds y ! k \<le> year_length y"
proof -
  have all: "(\<forall>k < 13. P k) \<longleftrightarrow> (\<forall>k \<in> set [0..<13]. P k)"
    "(\<forall>k < 12. P k) \<longleftrightarrow> (\<forall>k \<in> set [0..<12]. P k)" for P :: "nat \<Rightarrow> bool" by auto
  have n: "[0..<13] = [0,1,2,3,4,5,6,7,8,9,10,11,12::nat]" "[0..<12] = [0,1,2,3,4,5,6,7,8,9,10,11::nat]"
    by (simp_all add: upt_rec)
  show "length (running_seconds y) = 13" "running_seconds y ! 0 = 0" "running_seconds y ! 12 = year_length y"
    by (simp_all add: running_seconds_def RUNNING_SECONDS_LEAP_YEAR_def RUNNING_SECONDS_NON_LEAP_YEAR_def
        year_length_def seconds)
  show "\<forall>k < 12. running_seconds y ! Suc k - running_seconds y ! k \<le> 31 * SECONDS_PER_DAY"
    unfolding all n by (simp add: running_seconds_def RUNNING_SECONDS_LEAP_YEAR_def
        RUNNING_SECONDS_NON_LEAP_YEAR_def seconds)
  show "\<forall>k < 13. running_seconds y ! k \<le> year_length y"
    unfolding all n by (simp add: running_seconds_def RUNNING_SECONDS_LEAP_YEAR_def
        RUNNING_SECONDS_NON_LEAP_YEAR_def year_length_def seconds)
qed

lemma month_exists:
  assumes "since < year_length y"
  shows "\<exists>m. month_loop (running_seconds y) since 0 = Suc m \<and> m < 12 \<and>
    running_seconds y ! m \<le> since \<and> since < running_seconds y ! Suc m"
proof -
  let ?j = "month_loop (running_seconds y) since 0"
  have j: "?j \<le> 13" "\<forall>k < ?j. running_seconds y ! k \<le> since" "?j < 13 \<longrightarrow> since < running_seconds y ! ?j"
    using month_loop_stops [of 0 "running_seconds y" since] by (auto simp: Let_def SIZE_MONTHS_ARRAY_def)
  have "\<not> 12 < ?j" using j(2) running_facts(3) [of y] assms by force
  then have "?j < 13" by simp
  moreover have "?j \<noteq> 0" using j(3) running_facts(2) [of y] by (metis calculation not_less_zero)
  ultimately obtain m where "?j = Suc m" "m < 12" by (cases ?j) auto
  then show ?thesis using j(2,3) by auto
qed

text \<open>
  The seconds of a date: the fields are in range and add up to the seconds.
\<close>

definition epoch_of :: "datetime \<Rightarrow> nat" where
  "epoch_of dt = year_start (dt_year dt) + running_seconds (dt_year dt) ! (dt_month dt - 1) +
     dt_day dt * SECONDS_PER_DAY + dt_hr dt * SECONDS_PER_HOUR + dt_min dt * SECONDS_PER_MINUTE + dt_sec dt"

definition valid_date :: "datetime \<Rightarrow> bool" where
  "valid_date dt \<longleftrightarrow> 1970 \<le> dt_year dt \<and> 1 \<le> dt_month dt \<and> dt_month dt \<le> 12 \<and>
     running_seconds (dt_year dt) ! (dt_month dt - 1) + dt_day dt * SECONDS_PER_DAY <
       running_seconds (dt_year dt) ! dt_month dt \<and>
     dt_hr dt < 24 \<and> dt_min dt < 60 \<and> dt_sec dt < 60"

lemma left_over_mod: "a mod u < m \<Longrightarrow> left_over m a (a div u) u = a mod u"
proof -
  assume lt: "a mod u < m"
  have "int a - int (a div u) * int u = int (a mod u)"
    by (simp add: zdiv_int zmod_int minus_div_mult_eq_mod)
  then have "left_over m a (a div u) u = nat (int (a mod u mod m))"
    by (simp only: left_over_def zmod_int)
  then show ?thesis using lt by simp
qed

lemma split_seconds:
  fixes ms :: nat
  assumes "ms < 31 * 86400"
  shows "ms div 86400 mod 2 ^ 8 = ms div 86400" "ms div 86400 < 31"
    and "ms mod 86400 div 3600 mod 2 ^ 8 = ms mod 86400 div 3600" "ms mod 86400 div 3600 < 24"
    and "ms mod 3600 div 60 mod 2 ^ 8 = ms mod 3600 div 60" "ms mod 3600 div 60 < 60"
proof -
  show d: "ms div 86400 < 31" using assms by (simp add: less_mult_imp_div_less)
  show h: "ms mod 86400 div 3600 < 24" by (simp add: less_mult_imp_div_less)
  show m: "ms mod 3600 div 60 < 60" by (simp add: less_mult_imp_div_less)
  show "ms div 86400 mod 2 ^ 8 = ms div 86400" "ms mod 86400 div 3600 mod 2 ^ 8 = ms mod 86400 div 3600"
    "ms mod 3600 div 60 mod 2 ^ 8 = ms mod 3600 div 60" using d h m by simp_all
qed

lemma date_fields_of:
  assumes y: "1970 \<le> y" "y < 65535" "year_start y \<le> e" "e < year_start (Suc y)"
  shows "\<exists>dt. date_fields e = Some dt \<and> dt_year dt = y \<and> valid_date dt \<and> epoch_of dt = e"
proof -
  define since where "since = e - year_start y"
  have s: "year_of e = Some (y, since)" by (simp add: since_def year_of_start [OF y])
  have lt: "since < year_length y" using y(3,4) by (simp add: since_def year_start_Suc [OF y(1)] less_diff_conv2 add.commute)
  from month_exists [OF lt] obtain m where m: "month_loop (running_seconds y) since 0 = Suc m" "m < 12"
    "running_seconds y ! m \<le> since" "since < running_seconds y ! Suc m" by blast
  define ms where "ms = since - running_seconds y ! m"
  have ms31: "ms < 31 * 86400"
    using m(2-4) running_facts(4) [of y] by (fastforce simp: ms_def seconds)
  have since: "since < 2 ^ 32" using lt by (simp add: year_length_def seconds split: if_splits)
  then have ms: "sub64 since (running_seconds y ! m) mod 2 ^ 32 = ms" using m(3) by (simp add: ms_def)
  note sp = split_seconds [OF ms31]
  have dsec: "left_over (2 ^ 32) ms (ms div 86400) 86400 = ms mod 86400"
    by (rule left_over_mod) simp
  have hsec: "left_over (2 ^ 32) (ms mod 86400) (ms mod 86400 div 3600) 3600 = ms mod 3600"
    by (rule trans [OF left_over_mod]) (simp_all add: mod_mod_cancel)
  have msec: "left_over (2 ^ 8) (ms mod 3600) (ms mod 3600 div 60) 60 = ms mod 60"
    by (rule trans [OF left_over_mod]) (simp_all add: mod_mod_cancel)
  let ?dt = "Datetime y (Suc m) (ms div 86400) (ms mod 86400 div 3600) (ms mod 3600 div 60) (ms mod 60)"
  have month: "Suc m mod 2 ^ 8 = Suc m" using m(2) by simp
  have fields: "date_fields e = Some ?dt"
    unfolding date_fields_def s option.map prod.case Let_def m(1) nat.distinct if_False diff_Suc_1
    by (simp only: ms month seconds sp dsec hsec msec nat.distinct if_False diff_Suc_1)
  have parts: "ms div 86400 * 86400 + ms mod 86400 = ms"
    "ms mod 86400 div 3600 * 3600 + ms mod 3600 = ms mod 86400"
    "ms mod 3600 div 60 * 60 + ms mod 60 = ms mod 3600"
    using div_mult_mod_eq [of ms 86400] div_mult_mod_eq [of "ms mod 86400" 3600]
      div_mult_mod_eq [of "ms mod 3600" 60] mod_mod_cancel [of 3600 86400 ms] mod_mod_cancel [of 60 3600 ms]
    by (simp_all only: dvd_numeral_simp) simp_all
  have "epoch_of ?dt = year_start y + running_seconds y ! m +
      (ms div 86400 * 86400 + (ms mod 86400 div 3600 * 3600 + (ms mod 3600 div 60 * 60 + ms mod 60)))"
    by (simp only: epoch_of_def datetime.sel seconds diff_Suc_1 add.assoc)
  also have "\<dots> = year_start y + running_seconds y ! m + ms" by (simp only: parts)
  also have "\<dots> = e" using m(3) y(3) by (simp add: ms_def since_def)
  finally have sum: "epoch_of ?dt = e" .
  have "running_seconds y ! m + ms = since" using m(3) by (simp add: ms_def)
  moreover have "ms div 86400 * 86400 \<le> ms" by (rule div_times_less_eq_dividend)
  ultimately have "running_seconds y ! m + ms div 86400 * 86400 < running_seconds y ! Suc m"
    using m(4) by linarith
  then have "valid_date ?dt"
    using y(1) m(2) sp(4,6) by (simp add: valid_date_def seconds)
  with fields sum show ?thesis by (intro exI [of _ ?dt]) simp
qed

end
