(* ===== verification/Calendar_Text.thy ===== *)
theory Calendar_Text
  imports Calendar "HOL-Library.Product_Lexorder"
begin

text \<open>
  The text of a date and back: the fields of a date written in decimal by the formatter are
  read again by the parser of lib/ecal.cpp, as the run of both over the bytes of the text.
\<close>

section \<open>Decimal notation\<close>

definition dec :: "nat \<Rightarrow> byte list" where
  "dec n = digits_of unsigned_opts n"

definition two :: "nat \<Rightarrow> byte list" where
  "two n = replicate (2 - length (dec n)) 48 @ dec n"

lemma decimal_zeros: "decimal 0 (replicate k 48 @ xs) = decimal 0 xs"
  by (induction k) (simp_all add: decimal_def)

lemma digit_text_ten: "fo_base opts = 10 \<Longrightarrow> d < 10 \<Longrightarrow> digit_text opts (of_nat d) = [of_nat (d + 48)]"
  using char_digit [of d] by (simp add: digit_text_def add.commute)

lemma digit_byte: "d < 10 \<Longrightarrow> isDigit (of_nat (d + 48)) \<and> unat (of_nat (d + 48) :: byte) - 48 = d"
proof -
  assume "d < 10"
  then have "unat (of_nat (d + 48) :: byte) = d + 48" unfolding unat_of_nat by simp
  then show ?thesis using \<open>d < 10\<close> by (simp add: isDigit_def word_le_nat_alt)
qed

lemma digits_of_width: "fo_base opts = 10 \<Longrightarrow> digits_of (opts\<lparr>fo_width := w\<rparr>) n = digits_of opts n"
proof (induction n rule: less_induct)
  case (less n)
  have same: "digit_text (opts\<lparr>fo_width := w\<rparr>) d = digit_text opts d" for d by (simp add: digit_text_def)
  show ?case
  proof (cases "n < 10")
    case True
    then show ?thesis using less.prems
      by (simp add: digits_of.simps [of _ n] same)
  next
    case False
    then have "digits_of (opts\<lparr>fo_width := w\<rparr>) (n div 10) = digits_of opts (n div 10)"
      by (intro less.IH less.prems) simp
    then show ?thesis using less.prems False
      by (simp add: digits_of.simps [of _ n] same)
  qed
qed

lemma base_unsigned [simp]: "fo_base unsigned_opts = 10" "base_ok unsigned_opts"
  by (simp_all add: unsigned_opts_def base_ok_def)

lemma dec_decimal: "digits (dec n) \<and> decimal 0 (dec n) = n"
proof (induction n rule: less_induct)
  case (less n)
  show ?case
  proof (cases "n < 10")
    case True
    then have "dec n = [of_nat (n + 48)]"
      using digit_text_ten [of unsigned_opts n] by (simp add: dec_def digits_of.simps [of _ n])
    then show ?thesis using digit_byte [OF True] by (simp add: decimal_def)
  next
    case False
    have m: "n mod 10 < 10" by simp
    have "dec n = dec (n div 10) @ [of_nat (n mod 10 + 48)]"
      using False digit_text_ten [of unsigned_opts "n mod 10"] by (simp add: dec_def digits_of.simps [of _ n])
    moreover have "n div 10 < n" using False by simp
    note less.IH [OF this]
    ultimately show ?thesis
      using digit_byte [OF m] by (simp add: decimal_append decimal_def [of _ "[_]"])
  qed
qed

lemma dec_length: "n < 10 ^ k \<Longrightarrow> 0 < k \<Longrightarrow> n < 2 ^ 64 \<Longrightarrow> length (dec n) \<le> k \<and> dec n \<noteq> []"
proof -
  assume n: "n < 10 ^ k" "0 < k" "n < 2 ^ 64"
  from numToString_all [of unsigned_opts n] n(3) obtain j where
    j: "j = 0 \<or> 10 ^ j \<le> n" "length (dec n) = Suc j" by (auto simp: dec_def)
  have "j < k"
  proof (rule ccontr)
    assume "\<not> j < k"
    then have "10 ^ j \<le> n" "(10::nat) ^ k \<le> 10 ^ j" using j(1) n(2) by (auto intro: power_increasing)
    then show False using n(1) by linarith
  qed
  then show ?thesis using j(2) by auto
qed

lemma two_facts: "n < 100 \<Longrightarrow> digits (two n) \<and> decimal 0 (two n) = n \<and> length (two n) = 2"
  using dec_decimal [of n] dec_length [of n 2]
  by (auto simp: two_def decimal_zeros isDigit_def)

lemma text_unsigned: "n < 2 ^ 64 \<Longrightarrow> seg_text (Unsigned (of_nat n)) = Inr (dec n)"
proof -
  assume n: "n < 2 ^ 64"
  then have "unat (of_nat n :: 64 word) = n" by (simp add: unat_of_nat)
  moreover have "fo_width unsigned_opts = 255" by (simp add: unsigned_opts_def default_opts_def UINT8_MAX_def)
  then have "length (digits_of unsigned_opts n) \<le> fo_width unsigned_opts"
    using digits_bound [of unsigned_opts n] n by simp
  moreover have "sign_text unsigned_opts = []" "fo_width unsigned_opts = UINT8_MAX"
    by (simp_all add: sign_text_def unsigned_opts_def default_opts_def SIGN_FOR_NEGATIVES_def SIGN_FOR_POSITIVES_def)
  ultimately show ?thesis using numToString_all [of unsigned_opts n] n by (auto simp: dec_def)
qed

lemma text_padded: "n < 100 \<Longrightarrow> seg_text (Padded (bytes ''02'') (of_nat n)) = Inr (two n)"
proof -
  assume n: "n < 100"
  let ?o = "unsigned_opts\<lparr>fo_width := 2\<rparr>"
  have same: "digits_of ?o n = dec n" by (simp add: dec_def digits_of_width)
  have "unat (of_nat n :: 64 word) = n" using n by (simp add: unat_of_nat)
  moreover have "decimal 0 (bytes ''02'') mod 256 = 2" by (simp add: decimal_def)
  moreover have "length (dec n) \<le> 2" using dec_length [of n 2] n by simp
  moreover have "base_ok ?o" "sign_text ?o = []" "fo_base ?o = 10" "fo_width ?o = 2"
    by (simp_all add: base_ok_def sign_text_def unsigned_opts_def default_opts_def
        SIGN_FOR_NEGATIVES_def SIGN_FOR_POSITIVES_def)
  ultimately show ?thesis
    using numToString_all [of ?o n] n by (auto simp: same two_def UINT8_MAX_def)
qed

section \<open>Running the parser\<close>

lemma number_run:
  assumes "remaining s (ds @ y # ys)" "digits ds" "length ds \<le> 10" "\<not> isDigit y"
  shows "\<exists>s'. numberF [] True s = Some (Inr (decimal 0 ds, length ds), s') \<and> remaining s' (y # ys)"
  using run_remaining [OF assms(1) collect_digits(2) [OF assms(2,3,4), of 0 0 ys], of collected_natural] assms(3)
  by (auto simp: numberF_def readNatural_def)

lemma expect_run:
  assumes "remaining s (b # ys)" "b = letter c"
  shows "\<exists>s'. (\<forall>m. expect c m s = Some (Inr (), s')) \<and> remaining s' ys"
  using get_remaining [OF assms(1)] assms(2) by (auto simp: expect_def bindF_def getF_def liftF_def)

lemma word_run:
  assumes "remaining s (xs @ u # ys)" "u \<notin> set xs" "length xs + 2 \<le> 65536"
  shows "\<exists>s'. wordF [u] s = Some (Inr (xs @ [u]), s') \<and> remaining s' ys"
proof -
  have "collect_bytes (until_criteria [u] True) None (String_Collector []) (xs @ u # ys) =
      (Inr (String_Collector (xs @ [u])), None, ys)"
    using chain.collect_until [of xs "[u]" u "String_Collector []" None None "String_Collector []" True ys]
      assms(2,3) chain_initialize [of None] by (simp add: run_chain Let_def out_none)
  from run_remaining [OF assms(1) this, of collected_bytes] show ?thesis
    by (auto simp: wordF_def readString_def)
qed

lemma check_run: "\<not> bad \<Longrightarrow> check bad m v s = Some (Inr (), s)"
  by (simp add: check_def liftF_def)

lemma leap_run: "y < 65533 \<Longrightarrow> leap_seconds y s = Some (Inr (leaps y * SECONDS_PER_DAY), s)"
  by (simp add: leap_seconds_def getNumLeapYears_leaps)

lemma offset_run: "remaining s (90 # ys) \<Longrightarrow> \<exists>s'. parseReadableOffset s = Some (Inr 0, s') \<and> remaining s' ys"
  using get_remaining [of s 90 ys] by (auto simp: parseReadableOffset_def bindF_def getF_def liftF_def)

definition month_text :: "nat \<Rightarrow> byte list" where
  "month_text m = bytes (MONTH_NAME ! m)"

lemma month_cases:
  assumes "1 \<le> m" "m \<le> 12" "\<forall>m \<in> set [1..<13]. P m"
  shows "P m"
  using assms by (auto simp: atLeastLessThan_iff)

lemma month_facts:
  assumes "1 \<le> m" "m \<le> 12"
  shows "MONTH_NUM (month_text m @ [32]) = m \<and> 32 \<notin> set (month_text m) \<and> length (month_text m) \<le> 4"
  by (rule month_cases [OF assms]) code_simp

text \<open>The text of a date in the readable format, without the offset.\<close>

definition readable_text :: "datetime \<Rightarrow> byte list" where
  "readable_text dt = month_text (dt_month dt) @ [32] @ dec (dt_day dt + 1) @ [32] @ dec (dt_year dt) @
     bytes '', '' @ two (dt_hr dt) @ bytes '':'' @ two (dt_min dt) @ bytes '':'' @ two (dt_sec dt) @ [32]"

lemma valid_bounds:
  assumes "valid_date dt"
  shows "dt_day dt < 31"
proof -
  obtain m where m: "dt_month dt = Suc m" "m < 12" using assms by (cases "dt_month dt") (auto simp: valid_date_def)
  have "running_seconds (dt_year dt) ! Suc m - running_seconds (dt_year dt) ! m \<le> 31 * SECONDS_PER_DAY"
    using running_facts(4) [of "dt_year dt"] m(2) by blast
  moreover have "running_seconds (dt_year dt) ! m + dt_day dt * SECONDS_PER_DAY < running_seconds (dt_year dt) ! Suc m"
    using assms m(1) by (simp add: valid_date_def)
  ultimately have "dt_day dt * SECONDS_PER_DAY < 31 * SECONDS_PER_DAY" by linarith
  then show ?thesis by (simp add: seconds)
qed

lemma date_text_readable:
  assumes "valid_date dt" "dt_year dt < 10000"
  shows "date_text fl dt READABLE = Some (Inr (readable_text dt))"
proof -
  have b: "dt_day dt < 31" "dt_hr dt < 100" "dt_min dt < 100" "dt_sec dt < 100" "1 \<le> dt_month dt" "dt_month dt \<le> 12"
    using assms valid_bounds by (auto simp: valid_date_def)
  let ?gs = "[Cstring (month_text (dt_month dt)), Text [32], Unsigned (of_nat (dt_day dt + 1)), Text [32],
    Unsigned (of_nat (dt_year dt)), Text (bytes '', ''), Padded (bytes ''02'') (of_nat (dt_hr dt)), Text (bytes '':''),
    Padded (bytes ''02'') (of_nat (dt_min dt)), Text (bytes '':''), Padded (bytes ''02'') (of_nat (dt_sec dt)), Text [32]]"
  let ?outs = "[month_text (dt_month dt), [32], dec (dt_day dt + 1), [32], dec (dt_year dt), bytes '', '',
    two (dt_hr dt), bytes '':'', two (dt_min dt), bytes '':'', two (dt_sec dt), [32]]"
  have day: "dt_day dt + 1 < 2 ^ 64" and year: "dt_year dt < 2 ^ 64" using b(1) assms(2) by simp_all
  have outs: "map seg_text ?gs = map Inr ?outs"
    by (simp only: list.map text_unsigned [OF day] text_unsigned [OF year] text_padded [OF b(2)]
        text_padded [OF b(3)] text_padded [OF b(4)] seg_text.simps(1,6))
  have ok: "\<forall>g \<in> set ?gs. seg_ok g" by (simp add: isDigit_def format_chars)
  have name: "readB MONTH_NAME (dt_month dt) = Inr (MONTH_NAME ! dt_month dt)"
    using b(6) by (intro readB_in) (simp add: MONTH_NAME_def)
  show ?thesis
    using format_fields [OF ok outs, of fl "[]"]
    by (simp add: date_text_def name bindO_def uint64_def month_text_def readable_text_def)
qed

lemma year_seconds_bound:
  "1970 \<le> y \<Longrightarrow> year_seconds y = (if y < 2039 then Inr ((y - 1970) * SECONDS_PER_NON_LEAP_YEAR) else Inl Undefined)"
proof -
  assume y: "1970 \<le> y"
  have p: "(int y - 1970) * int SECONDS_PER_NON_LEAP_YEAR = int ((y - 1970) * SECONDS_PER_NON_LEAP_YEAR)"
    using y by (simp add: of_nat_diff)
  show ?thesis
  proof (cases "y < 2039")
    case True
    then have "(y - 1970) * SECONDS_PER_NON_LEAP_YEAR \<le> 68 * SECONDS_PER_NON_LEAP_YEAR" by (intro mult_le_mono1) simp
    then have "(y - 1970) * SECONDS_PER_NON_LEAP_YEAR < 2 ^ 31" by (simp add: seconds)
    then have "int ((y - 1970) * SECONDS_PER_NON_LEAP_YEAR) < 2 ^ 31"
      by (simp only: of_nat_less_numeral_power_cancel_iff)
    then show ?thesis using True unfolding year_seconds_def p Let_def
      by (simp add: nat_mod_distrib del: of_nat_mult)
  next
    case False
    then have "69 * SECONDS_PER_NON_LEAP_YEAR \<le> (y - 1970) * SECONDS_PER_NON_LEAP_YEAR" by (intro mult_le_mono1) simp
    then have "2 ^ 31 \<le> (y - 1970) * SECONDS_PER_NON_LEAP_YEAR" by (simp add: seconds)
    then have "2 ^ 31 \<le> int ((y - 1970) * SECONDS_PER_NON_LEAP_YEAR)"
      by (simp only: numeral_power_le_of_nat_cancel_iff)
    then show ?thesis using False unfolding year_seconds_def p Let_def by simp
  qed
qed

lemma not_digit: "\<not> isDigit 32" "\<not> isDigit 44" "\<not> isDigit 58"
  by (simp_all add: isDigit_def)

lemma valid_epoch_bound: "valid_date dt \<Longrightarrow> dt_year dt < 10000 \<Longrightarrow>
    year_start (dt_year dt) + running_seconds (dt_year dt) ! (dt_month dt - 1) < 2 ^ 43 \<and>
    secondsUpUntilMonth (dt_month dt) (dt_year dt) = Inr (running_seconds (dt_year dt) ! (dt_month dt - 1))"
proof -
  assume a: "valid_date dt" "dt_year dt < 10000"
  then have m: "dt_month dt - 1 < 13" "dt_month dt \<noteq> 0" by (auto simp: valid_date_def)
  have "running_seconds (dt_year dt) ! (dt_month dt - 1) \<le> year_length (dt_year dt)"
    using running_facts(5) [of "dt_year dt"] m(1) by blast
  moreover have "year_length (dt_year dt) < 2 ^ 42" by (simp add: year_length_def seconds)
  moreover have "year_start (dt_year dt) < 2 ^ 42" using a(2) by (intro year_start_bound) simp
  ultimately have "year_start (dt_year dt) + running_seconds (dt_year dt) ! (dt_month dt - 1) < 2 ^ 42 + 2 ^ 42"
    by linarith
  then show ?thesis using m running_facts(1) [of "dt_year dt"] by (simp add: secondsUpUntilMonth_def)
qed

lemma add_int_nat: "a + k < 2 ^ 64 \<Longrightarrow> add_int a (int k) = a + k"
  unfolding add_int_def by (metis mod_less nat_int of_nat_add of_nat_numeral of_nat_power zmod_int)

lemma add_int_zero: "a < 2 ^ 64 \<Longrightarrow> add_int a 0 = a"
  using add_int_nat [of a 0] by simp

lemma parse_readable:
  assumes v: "valid_date dt" "dt_year dt < 10000" and r: "remaining s (readable_text dt @ 90 # rest)"
  shows "\<exists>s'. parseReadableDateTime s =
    Some (if dt_year dt < 2039 then Inr (epoch_of dt) else Inl Undefined, s')"
proof -
  let ?m = "dt_month dt" and ?d = "dt_day dt + 1" and ?y = "dt_year dt"
  let ?h = "dt_hr dt" and ?i = "dt_min dt" and ?c = "dt_sec dt"
  have b: "?d \<le> 31" "1 \<le> ?m" "?m \<le> 12" "?h < 24" "?i < 60" "?c < 60" "1970 \<le> ?y"
    using v valid_bounds [OF v(1)] by (auto simp: valid_date_def)
  note mf = month_facts [OF b(2,3)]
  have dd: "digits (dec ?d)" "decimal 0 (dec ?d) = ?d" "length (dec ?d) \<le> 2"
    using dec_decimal dec_length [of ?d 2] b(1) by auto
  have yy: "digits (dec ?y)" "decimal 0 (dec ?y) = ?y" "length (dec ?y) \<le> 4"
    using dec_decimal dec_length [of ?y 4] v(2) by auto
  note hh = two_facts [of ?h] and ii = two_facts [of ?i] and cc = two_facts [of ?c]
  from r have "remaining s (month_text ?m @ 32 # (dec ?d @ 32 # dec ?y @ 44 # 32 # two ?h @ 58 # two ?i @ 58 #
      two ?c @ 32 # 90 # rest))" by (simp add: readable_text_def)
  from word_run [OF this] mf obtain s1 where s1: "wordF (bytes '' '') s = Some (Inr (month_text ?m @ [32]), s1)"
    "remaining s1 (dec ?d @ 32 # dec ?y @ 44 # 32 # two ?h @ 58 # two ?i @ 58 # two ?c @ 32 # 90 # rest)" by auto
  from number_run [OF s1(2) dd(1) _ not_digit(1)] dd obtain s2 where s2: "numberF [] True s1 = Some (Inr (?d, length (dec ?d)), s2)"
    "remaining s2 (32 # dec ?y @ 44 # 32 # two ?h @ 58 # two ?i @ 58 # two ?c @ 32 # 90 # rest)" by auto
  from expect_run [OF s2(2), of "CHR '' ''"] obtain s3 where s3: "\<And>m. expect CHR '' '' m s2 = Some (Inr (), s3)"
    "remaining s3 (dec ?y @ 44 # 32 # two ?h @ 58 # two ?i @ 58 # two ?c @ 32 # 90 # rest)" by auto
  from number_run [OF s3(2) yy(1) _ not_digit(2)] yy obtain s4 where s4: "numberF [] True s3 = Some (Inr (?y, length (dec ?y)), s4)"
    "remaining s4 (44 # 32 # two ?h @ 58 # two ?i @ 58 # two ?c @ 32 # 90 # rest)" by auto
  from expect_run [OF s4(2), of "CHR '',''"] obtain s5 where s5: "\<And>m. expect CHR '','' m s4 = Some (Inr (), s5)"
    "remaining s5 (32 # two ?h @ 58 # two ?i @ 58 # two ?c @ 32 # 90 # rest)" by auto
  from expect_run [OF s5(2), of "CHR '' ''"] obtain s6 where s6: "\<And>m. expect CHR '' '' m s5 = Some (Inr (), s6)"
    "remaining s6 (two ?h @ 58 # two ?i @ 58 # two ?c @ 32 # 90 # rest)" by auto
  from number_run [OF s6(2) _ _ not_digit(3)] hh b obtain s7 where s7: "numberF [] True s6 = Some (Inr (?h, 2), s7)"
    "remaining s7 (58 # two ?i @ 58 # two ?c @ 32 # 90 # rest)" by auto
  from expect_run [OF s7(2), of "CHR '':''"] obtain s8 where s8: "\<And>m. expect CHR '':'' m s7 = Some (Inr (), s8)"
    "remaining s8 (two ?i @ 58 # two ?c @ 32 # 90 # rest)" by auto
  from number_run [OF s8(2) _ _ not_digit(3)] ii b obtain s9 where s9: "numberF [] True s8 = Some (Inr (?i, 2), s9)"
    "remaining s9 (58 # two ?c @ 32 # 90 # rest)" by auto
  from expect_run [OF s9(2), of "CHR '':''"] obtain s10 where s10: "\<And>m. expect CHR '':'' m s9 = Some (Inr (), s10)"
    "remaining s10 (two ?c @ 32 # 90 # rest)" by auto
  from number_run [OF s10(2) _ _ not_digit(1)] cc b obtain s11 where s11: "numberF [] True s10 = Some (Inr (?c, 2), s11)"
    "remaining s11 (32 # 90 # rest)" by auto
  from expect_run [OF s11(2), of "CHR '' ''"] obtain s12 where s12: "\<And>m. expect CHR '' '' m s11 = Some (Inr (), s12)"
    "remaining s12 (90 # rest)" by auto
  from offset_run [OF s12(2)] obtain s13 where s13: "parseReadableOffset s12 = Some (Inr 0, s13)" by blast
  note eb = valid_epoch_bound [OF v]
  have checks: "\<And>t. isValidMonth ?m UINT8_MAX t = Some (Inr (), t)" "\<And>t. isValidDay ?d (length (dec ?d)) t = Some (Inr (), t)"
    "\<And>t. isValidYear ?y (length (dec ?y)) t = Some (Inr (), t)" "\<And>t. isValidHr ?h 2 t = Some (Inr (), t)"
    "\<And>t. isValidMin ?i 2 t = Some (Inr (), t)" "\<And>t. isValidSec ?c 2 t = Some (Inr (), t)"
    unfolding isValidMonth_def isValidDay_def isValidYear_def isValidHr_def isValidMin_def isValidSec_def
    using b dd(3) yy(3) v(2) by (simp_all add: check_run UINT8_MAX_def)
  have mods: "?d mod 2 ^ 8 = ?d" "?y mod 2 ^ 16 = ?y" "?h mod 2 ^ 8 = ?h" "?i mod 2 ^ 8 = ?i" "?c mod 2 ^ 8 = ?c"
    using b v(2) by simp_all
  have mn: "MONTH_NUM (month_text ?m @ [32]) = ?m" using mf by simp
  note steps = bindF_def Let_def s1(1) s2(1) s3(1) s4(1) s5(1) s6(1) s7(1) s8(1) s9(1) s10(1) s11(1) s12(1) s13
    checks mods mn liftF_def
  have ls: "leap_seconds ?y t = Some (Inr (leaps ?y * SECONDS_PER_DAY), t)" for t
    using v(2) by (intro leap_run) simp
  show ?thesis
  proof (cases "?y < 2039")
    case True
    define base where "base = year_start ?y + running_seconds ?y ! (?m - 1)"
    have base: "base < 2 ^ 43" using eb by (simp add: base_def)
    have day: "(int ?d - 1) * int SECONDS_PER_DAY = int (dt_day dt * SECONDS_PER_DAY)" by simp
    have "dt_day dt * SECONDS_PER_DAY < 2 ^ 32" using b(1) by (simp add: seconds)
    then have e1: "add_int (add64 (add64 (add64 0 ((?y - 1970) * SECONDS_PER_NON_LEAP_YEAR)) (leaps ?y * SECONDS_PER_DAY))
        (running_seconds ?y ! (?m - 1))) ((int ?d - 1) * int SECONDS_PER_DAY) = base + dt_day dt * SECONDS_PER_DAY"
      (is "?e1 = _") and base_day: "base + dt_day dt * SECONDS_PER_DAY < 2 ^ 44"
      using base unfolding day base_def year_start_def
      by (simp_all add: add_int_nat del: of_nat_mult)
    have tm: "?h * SECONDS_PER_HOUR < 2 ^ 32" "?i * SECONDS_PER_MINUTE < 2 ^ 32" "?c < 2 ^ 32"
      using b by (simp_all add: seconds)
    have e2: "add_int (add64 (add64 (add64 ?e1 (?h * SECONDS_PER_HOUR)) (?i * SECONDS_PER_MINUTE)) ?c) 0 = epoch_of dt"
      unfolding e1 using base_day tm by (simp add: add_int_zero epoch_of_def base_def)
    have ys: "year_seconds ?y = Inr ((?y - 1970) * SECONDS_PER_NON_LEAP_YEAR)"
      using year_seconds_bound [OF b(7)] True by simp
    have "parseReadableDateTime s = Some (Inr (epoch_of dt), s13)"
      unfolding parseReadableDateTime_def
      by (simp only: steps prod.case option.case sum.case ys ls eb e2)
    then show ?thesis using True by simp
  next
    case False
    have "year_seconds ?y = Inl Undefined" using year_seconds_bound [OF b(7)] False by simp
    then have "parseReadableDateTime s = Some (Inl Undefined, s6)"
      unfolding parseReadableDateTime_def by (simp only: steps prod.case option.case sum.case)
    then show ?thesis using False by simp
  qed
qed

section \<open>The order of dates\<close>

text \<open>Dates are ordered by their fields, the year first.\<close>

definition date_key :: "datetime \<Rightarrow> nat \<times> nat \<times> nat \<times> nat \<times> nat \<times> nat" where
  "date_key dt = (dt_year dt, dt_month dt, dt_day dt, dt_hr dt, dt_min dt, dt_sec dt)"

lemma date_key_inject: "date_key a = date_key b \<Longrightarrow> a = b"
  by (cases a; cases b) (simp add: date_key_def)

instantiation datetime :: linorder
begin

definition less_eq_datetime :: "datetime \<Rightarrow> datetime \<Rightarrow> bool" where
  "less_eq_datetime a b \<longleftrightarrow> date_key a \<le> date_key b"

definition less_datetime :: "datetime \<Rightarrow> datetime \<Rightarrow> bool" where
  "less_datetime a b \<longleftrightarrow> date_key a < date_key b"

instance
  by standard (auto simp: less_eq_datetime_def less_datetime_def intro: date_key_inject)

end

lemma running_mono: "i \<le> j \<Longrightarrow> j < 13 \<Longrightarrow> running_seconds y ! i \<le> running_seconds y ! j"
proof (induction j)
  case (Suc j)
  have all: "(\<forall>k < 12. P k) \<longleftrightarrow> (\<forall>k \<in> set [0..<12]. P k)" for P :: "nat \<Rightarrow> bool" by auto
  have n: "[0..<12] = [0,1,2,3,4,5,6,7,8,9,10,11::nat]" by (simp add: upt_rec)
  have "\<forall>k < 12. running_seconds y ! k \<le> running_seconds y ! Suc k"
    unfolding all n by (simp add: running_seconds_def RUNNING_SECONDS_LEAP_YEAR_def
        RUNNING_SECONDS_NON_LEAP_YEAR_def seconds)
  then show ?case using Suc by (cases "i = Suc j") (auto intro: le_trans)
qed simp

text \<open>What lies below a unit of time is less than the unit.\<close>

lemma epoch_below:
  assumes "valid_date dt"
  shows "dt_hr dt * 3600 + dt_min dt * 60 + dt_sec dt < 86400"
    and "running_seconds (dt_year dt) ! (dt_month dt - 1) + dt_day dt * 86400 + 86400
      \<le> running_seconds (dt_year dt) ! dt_month dt"
    and "running_seconds (dt_year dt) ! dt_month dt \<le> year_length (dt_year dt)"
proof -
  show "dt_hr dt * 3600 + dt_min dt * 60 + dt_sec dt < 86400" using assms by (simp add: valid_date_def)
  obtain l where "running_seconds (dt_year dt) = map (\<lambda>d. SECONDS_PER_DAY * d) l" "length l = 13"
    using running_facts(1) [of "dt_year dt"]
    unfolding running_seconds_def RUNNING_SECONDS_LEAP_YEAR_def RUNNING_SECONDS_NON_LEAP_YEAR_def
    by (metis length_map)
  then have "\<exists>k. running_seconds (dt_year dt) ! j = k * 86400" if "j < 13" for j
    using that by (auto simp: SECONDS_PER_DAY_def)
  moreover have m: "dt_month dt < 13" using assms by (simp add: valid_date_def)
  ultimately obtain k l where kl: "running_seconds (dt_year dt) ! (dt_month dt - 1) = k * 86400"
    "running_seconds (dt_year dt) ! dt_month dt = l * 86400"
    by (metis diff_le_self le_less_trans)
  then have "(k + dt_day dt) * 86400 < l * 86400"
    using assms by (simp add: valid_date_def seconds)
  then have "(k + dt_day dt + 1) * 86400 \<le> l * 86400" by (intro mult_le_mono1) simp
  then show "running_seconds (dt_year dt) ! (dt_month dt - 1) + dt_day dt * 86400 + 86400
      \<le> running_seconds (dt_year dt) ! dt_month dt" unfolding kl by simp
  show "running_seconds (dt_year dt) ! dt_month dt \<le> year_length (dt_year dt)"
    using running_facts(5) [of "dt_year dt"] m by blast
qed

lemma epoch_strict:
  assumes "valid_date a" "valid_date b" "a < b"
  shows "epoch_of a < epoch_of b"
proof -
  have ab: "date_key a < date_key b" using assms(3) by (simp add: less_datetime_def)
  note below = epoch_below [OF assms(1)]
  have ea: "epoch_of a < year_start (dt_year a) + running_seconds (dt_year a) ! (dt_month a - 1) +
      dt_day a * 86400 + 86400"
    using below(1) by (simp add: epoch_of_def seconds)
  have eb: "year_start (dt_year b) + running_seconds (dt_year b) ! (dt_month b - 1) + dt_day b * 86400 \<le> epoch_of b"
    by (simp add: epoch_of_def seconds)
  consider "dt_year a < dt_year b"
    | "dt_year a = dt_year b" "dt_month a < dt_month b"
    | "dt_year a = dt_year b" "dt_month a = dt_month b" "dt_day a < dt_day b"
    | "dt_year a = dt_year b" "dt_month a = dt_month b" "dt_day a = dt_day b"
      "(dt_hr a, dt_min a, dt_sec a) < (dt_hr b, dt_min b, dt_sec b)"
    using ab unfolding date_key_def less_prod_simp le_less by blast
  then show ?thesis
  proof cases
    case 1
    have "epoch_of a < year_start (dt_year a) + year_length (dt_year a)" using ea below(2,3) by linarith
    also have "\<dots> = year_start (Suc (dt_year a))"
      using assms(1) by (simp add: year_start_Suc valid_date_def)
    also have "\<dots> \<le> year_start (dt_year b)"
      using 1 assms(1) by (intro year_start_mono) (simp_all add: valid_date_def)
    finally show ?thesis using eb by linarith
  next
    case 2
    have "running_seconds (dt_year b) ! dt_month a \<le> running_seconds (dt_year b) ! (dt_month b - 1)"
      using running_mono [of "dt_month a" "dt_month b - 1" "dt_year b"] 2 assms(2) by (auto simp: valid_date_def)
    then show ?thesis using ea [unfolded 2(1)] below(2) [unfolded 2(1)] eb by linarith
  next
    case 3
    then have "dt_day a * 86400 + 86400 \<le> dt_day b * 86400" by simp
    then show ?thesis using ea [unfolded 3(1,2)] eb by linarith
  next
    case 4
    then have "dt_hr a * 3600 + dt_min a * 60 + dt_sec a < dt_hr b * 3600 + dt_min b * 60 + dt_sec b"
      using assms(1,2) by (auto simp: valid_date_def)
    then show ?thesis using 4(1-3) by (simp add: epoch_of_def seconds)
  qed
qed

section \<open>Properties\<close>

text \<open>
  C4. The fields of a time are a valid date whose seconds are that time, for every time before
  the year 65535; and the order of the dates is the order of the times.
\<close>

theorem date_fields_correct:
  assumes "e < year_start 65535" and "e' < year_start 65535"
  shows "\<exists>dt dt'. date_fields e = Some dt \<and> valid_date dt \<and> epoch_of dt = e \<and>
    date_fields e' = Some dt' \<and> (dt \<le> dt' \<longleftrightarrow> e \<le> e')"
proof -
  have one: "\<exists>dt. date_fields k = Some dt \<and> valid_date dt \<and> epoch_of dt = k" if k: "k < year_start 65535" for k
  proof -
    obtain y where "1970 \<le> y" "y < 65535" "year_start y \<le> k" "k < year_start (Suc y)"
      using year_exists [OF _ k] by auto
    then show ?thesis using date_fields_of [of y k] by blast
  qed
  obtain dt dt' where d: "date_fields e = Some dt" "valid_date dt" "epoch_of dt = e"
    "date_fields e' = Some dt'" "valid_date dt'" "epoch_of dt' = e'"
    using one [OF assms(1)] one [OF assms(2)] by blast
  have "dt \<le> dt' \<longleftrightarrow> e \<le> e'"
  proof (cases dt dt' rule: linorder_cases)
    case less
    then show ?thesis using epoch_strict [OF d(2) d(5) less] d(3,6) by simp
  next
    case equal
    then show ?thesis using d(3,6) by simp
  next
    case greater
    then show ?thesis using epoch_strict [OF d(5) d(2) greater] d(3,6) by (simp add: not_le)
  qed
  then show ?thesis using d by blast
qed

lemma year_start_1971: "year_start 1971 = 31536000"
  using year_start_Suc [of 1970] by (simp add: year_length_def isLeapYear_def seconds)

theorem date_fields_correct_witness:
  "\<exists>dt dt'. date_fields 86399 = Some dt \<and> valid_date dt \<and> epoch_of dt = 86399 \<and>
    date_fields 31535999 = Some dt' \<and> dt \<le> dt'"
proof -
  have "31535999 < year_start 65535"
    using year_start_mono [of 1971 65535] year_start_1971 by simp
  then show ?thesis using date_fields_correct [of 86399 31535999] by auto
qed

text \<open>
  C34. A time written in the readable format without an offset and read again is the same time,
  up to the end of 2038. From 2039 on, up to the year 9999, reading runs into the overflow of an
  \<open>int\<close>: the behaviour is undefined.
\<close>

theorem readable_roundtrip:
  assumes "e < year_start 10000"
  shows "\<exists>t. getFormattedDateTime fl (int e) app 0 READABLE = Some (Inr t) \<and>
    getEpochFromFormattedDateTime t READABLE = Some (if e < year_start 2039 then Inr e else Inl Undefined)"
proof -
  obtain y where y: "1970 \<le> y" "y < 10000" "year_start y \<le> e" "e < year_start (Suc y)"
    using year_exists [OF _ assms] by auto
  obtain dt where dt: "date_fields e = Some dt" "dt_year dt = y" "valid_date dt" "epoch_of dt = e"
    using date_fields_of [of y e] y by auto
  have "year_start 10000 < 2 ^ 42" by (intro year_start_bound) simp
  then have "e < 2 ^ 42" using assms by (rule less_trans [rotated])
  then have "e < 2 ^ 64" by simp
  then have zoned: "getZonedEpochTime (int e) app 0 = (e, 0)"
    by (simp add: getZonedEpochTime_def OFFSETS_def nat_mod_distrib)
  have year: "e < year_start 2039 \<longleftrightarrow> y < 2039"
  proof
    assume "e < year_start 2039"
    then have "year_start y < year_start 2039" using y(3) by linarith
    then show "y < 2039" using year_start_mono [of 2039 y] y(2) by (simp add: not_le [symmetric]) (rule ccontr, simp)
  next
    assume "y < 2039"
    then show "e < year_start 2039" using year_start_mono [of "Suc y" 2039] y(1,4) by simp
  qed
  let ?t = "readable_text dt @ bytes ''Z''"
  have "getFormattedDateTime fl (int e) app 0 READABLE = Some (Inr ?t)"
    using date_text_readable [of dt fl] dt y(2)
    by (simp add: getFormattedDateTime_def zoned offset_text_def bindO_def)
  moreover have "remaining (EStream_memory ?t) (readable_text dt @ 90 # [])"
    by (simp add: memory_remaining)
  ultimately show ?thesis
    using parse_readable [OF dt(3)] dt(2,4) y(2) year
    by (fastforce simp: getEpochFromFormattedDateTime_def)
qed

theorem readable_roundtrip_witness:
  "\<exists>t. getFormattedDateTime whole_floats (int 1000000) 0 0 READABLE = Some (Inr t) \<and>
    getEpochFromFormattedDateTime t READABLE = Some (Inr 1000000)"
proof -
  have "1000000 < year_start 2039" "1000000 < year_start 10000"
    using year_start_mono [of 1971 2039] year_start_mono [of 1971 10000] year_start_1971 by simp_all
  then show ?thesis using readable_roundtrip [of 1000000 whole_floats 0] by simp
qed

end
