(* ===== verification/Json_Value.thy ===== *)
theory Json_Value
  imports Parser_Run String_Format
begin

text \<open>
  The values of lib/parser/json: json_mix.h (null, booleans, numbers, strings), json_array.h and
  json_object.h, with the operations on arrays and objects, their text, and the readers of
  json_mapper.cpp. The class hierarchy is one datatype; an array carries its depth, an object its
  depth, its keys and the values of its \<open>JsonArray\<close>. A \<open>jstring\<close> is a \<open>std::string\<close>, as in the
  default build. A \<open>double\<close> is an element of a type \<open>'d\<close>.
\<close>

section \<open>Values\<close>

datatype 'd json =
    JsonValue
  | JsonBoolean bool
  | JsonNumber 'd nat nat
  | JsonString "byte list"
  | JsonArray nat "'d json list"
  | JsonObject nat "byte list list" "'d json list"

datatype JsonType = NULL_TYPE | BOOLEAN | NUMBER | STRING | ARRAY | OBJECT

fun json_type :: "'d json \<Rightarrow> JsonType" where
  "json_type JsonValue = NULL_TYPE"
| "json_type (JsonBoolean b) = BOOLEAN"
| "json_type (JsonNumber x n d) = NUMBER"
| "json_type (JsonString s) = STRING"
| "json_type (JsonArray depth vs) = ARRAY"
| "json_type (JsonObject depth ks vs) = OBJECT"

definition MAX_JSON_DEPTH :: nat where "MAX_JSON_DEPTH = 7"
definition MAX_LENGTH_OF_JSON_STRING :: nat where "MAX_LENGTH_OF_JSON_STRING = 268435456"
definition MAX_LENGTH_OF_JSON_STRING_KEYS :: nat where "MAX_LENGTH_OF_JSON_STRING_KEYS = 256"
definition MAX_LENGTH_OF_JSON_STRING_VALUES :: nat where "MAX_LENGTH_OF_JSON_STRING_VALUES = 1048576"
definition FLT_MAX_EXP_ABS :: nat where "FLT_MAX_EXP_ABS = 127"

definition json_spacing :: "byte list list" where
  "json_spacing = map (\<lambda>n. replicate n 9) [1, 2, 3, 4, 5, 6, 7]"

definition SIZE_MAX :: nat where "SIZE_MAX = 2 ^ 64 - 1"

definition JsonNumber_of :: "'d \<Rightarrow> 'd json" where
  "JsonNumber_of x = JsonNumber x SIZE_MAX SIZE_MAX"

definition JsonArray_new :: "nat \<Rightarrow> 'd json res" where
  "JsonArray_new depth =
     (if MAX_JSON_DEPTH < depth
      then Inl (Runtime_Error ''JsonArray: creation error... TOO MUCH DEPTH!'')
      else Inr (JsonArray depth []))"

definition JsonObject_new :: "nat \<Rightarrow> 'd json res" where
  "JsonObject_new depth =
     (if MAX_JSON_DEPTH < depth
      then Inl (Runtime_Error ''JsonObject creation error... TOO MUCH DEPTH!'')
      else Inr (JsonObject depth [] []))"

section \<open>Arrays and objects\<close>

fun JsonArray_remove :: "nat \<Rightarrow> 'a list \<Rightarrow> 'a list" where
  "JsonArray_remove i [] = []"
| "JsonArray_remove i (v # vs) = (if i = 0 then vs else v # JsonArray_remove (i - 1) vs)"

text \<open>\<open>keys[e]\<close> starts at \<open>e = SIZE_MAX\<close>.\<close>

definition JsonObject_find :: "byte list list \<Rightarrow> byte list \<Rightarrow> nat res" where
  "JsonObject_find ks key =
     for_from 0 (length ks)
       (\<lambda>i e. bindR (readB ks e) (\<lambda>k. Inr (if key = k then i else e))) SIZE_MAX"

definition JsonObject_at :: "byte list list \<Rightarrow> 'd json list \<Rightarrow> byte list \<Rightarrow> 'd json res" where
  "JsonObject_at ks vs key =
     bindR (JsonObject_find ks key) (\<lambda>i.
       if i = SIZE_MAX then Inl (Runtime_Error ''Key not found.'')
       else if i < length vs then Inr (vs ! i) else Inl Out_Of_Range)"

definition JsonObject_index :: "byte list list \<Rightarrow> 'd json list \<Rightarrow> byte list \<Rightarrow> 'd json res" where
  "JsonObject_index ks vs key =
     bindR (JsonObject_find ks key) (\<lambda>i. readB vs (if i = SIZE_MAX then length vs else i))"

definition JsonObject_addNode ::
  "byte list \<Rightarrow> 'd json \<Rightarrow> byte list list \<times> 'd json list \<Rightarrow> byte list list \<times> 'd json list" where
  "JsonObject_addNode key value obj = (fst obj @ [key], snd obj @ [value])"

text \<open>The loop of \<open>removeNode\<close>: the remaining keys and the index it stops at.\<close>

fun key_erase :: "nat \<Rightarrow> nat \<Rightarrow> byte list list \<Rightarrow> nat \<times> byte list list" where
  "key_erase i idx [] = (idx, [])"
| "key_erase i idx (k # ks) =
     (if idx = i then (idx + 1, ks)
      else (case key_erase i (idx + 1) ks of (idx', ks') \<Rightarrow> (idx', k # ks')))"

definition JsonObject_removeNode ::
  "byte list \<Rightarrow> byte list list \<times> 'd json list \<Rightarrow> (byte list list \<times> 'd json list) res" where
  "JsonObject_removeNode key obj =
     bindR (JsonObject_find (fst obj) key) (\<lambda>i.
       case key_erase i 0 (fst obj) of (idx, ks) \<Rightarrow>
         Inr (ks, if idx < length (snd obj) then JsonArray_remove idx (snd obj) else snd obj))"

text \<open>The iterator: an index into the keys and the values, and its direction.\<close>

record json_iterator =
  it_i :: nat
  it_reverse :: bool

definition iterator_new :: "'d json list \<Rightarrow> nat \<Rightarrow> bool \<Rightarrow> json_iterator res" where
  "iterator_new vs i reverse =
     (if length vs < i then Inl (Runtime_Error ''Fail fast.'') else Inr \<lparr>it_i = i, it_reverse = reverse\<rparr>)"

definition iterator_inc :: "'d json list \<Rightarrow> json_iterator \<Rightarrow> json_iterator" where
  "iterator_inc vs it =
     (if it_i it \<le> sub64 (length vs) 1
      then it\<lparr>it_i := (if it_reverse it then sub64 (it_i it) 1 else add64 (it_i it) 1)\<rparr> else it)"

definition iterator_dec :: "'d json list \<Rightarrow> json_iterator \<Rightarrow> json_iterator" where
  "iterator_dec vs it =
     (if it_i it \<le> sub64 (length vs) 1
      then it\<lparr>it_i := (if it_reverse it then add64 (it_i it) 1 else sub64 (it_i it) 1)\<rparr> else it)"

definition iterator_deref ::
  "byte list list \<Rightarrow> 'd json list \<Rightarrow> json_iterator \<Rightarrow> (byte list \<times> 'd json) res" where
  "iterator_deref ks vs it =
     (if it_i it < length ks \<and> it_i it < length vs then Inr (ks ! it_i it, vs ! it_i it)
      else Inl Out_Of_Range)"

section \<open>Text\<close>

text \<open>
  The text of a value. A number formats a format for itself. The closing bracket is the
  multi-character constant \<open>']\n'\<close> (and \<open>'}\n'\<close>), of which a \<open>char\<close> keeps the last character.
\<close>

definition number_text ::
  "'d float_ops \<Rightarrow> 'd \<Rightarrow> nat \<Rightarrow> nat \<Rightarrow> byte list res option" where
  "number_text fl x natural_digit_count decimal_digit_count =
     (let (n, d) = (if natural_digit_count = SIZE_MAX \<or> decimal_digit_count = SIZE_MAX
                    then (NUMBER_MAX_DIGITS, NUMBER_MAX_DIGITS)
                    else (natural_digit_count, decimal_digit_count))
      in case format_text fl (bytes ''%{d}.{d}f'') [Long_Arg (of_nat n), Long_Arg (of_nat d)] of
           Some (Inr fmt) \<Rightarrow> format_text fl fmt [Double_Arg x]
         | other \<Rightarrow> other)"

definition bindT :: "'a res option \<Rightarrow> ('a \<Rightarrow> 'b res option) \<Rightarrow> 'b res option" where
  "bindT m f = (case m of None \<Rightarrow> None | Some (Inl e) \<Rightarrow> Some (Inl e) | Some (Inr x) \<Rightarrow> f x)"

lemma bindT_cong [fundef_cong]:
  "m = m' \<Longrightarrow> (\<And>x. m' = Some (Inr x) \<Longrightarrow> f x = f' x) \<Longrightarrow> bindT m f = bindT m' f'"
  by (auto simp: bindT_def split: option.splits sum.splits)

lemma bindT_simps [simp]:
  "bindT None f = None" "bindT (Some (Inl e)) f = Some (Inl e)" "bindT (Some (Inr x)) f = f x"
  by (simp_all add: bindT_def)

fun toJsonString :: "'d float_ops \<Rightarrow> 'd json \<Rightarrow> byte list res option"
and array_text :: "'d float_ops \<Rightarrow> nat \<Rightarrow> 'd json list \<Rightarrow> byte list res option"
and object_text ::
  "'d float_ops \<Rightarrow> nat \<Rightarrow> byte list list \<Rightarrow> 'd json list \<Rightarrow> byte list res option"
where
  "toJsonString fl JsonValue = Some (Inr (bytes ''null''))"
| "toJsonString fl (JsonBoolean b) = Some (Inr (if b then bytes ''true'' else bytes ''false''))"
| "toJsonString fl (JsonNumber x n d) = number_text fl x n d"
| "toJsonString fl (JsonString s) = Some (Inr (34 # s @ [34]))"
| "toJsonString fl (JsonArray depth vs) =
     bindT (array_text fl depth vs) (\<lambda>t. Some (Inr (bytes ''['' @ [10] @ t @ [10])))"
| "toJsonString fl (JsonObject depth ks vs) =
     bindT (object_text fl depth ks vs) (\<lambda>t. Some (Inr (bytes ''{'' @ [10] @ t @ [10])))"
| "array_text fl depth [] = Some (Inr [])"
| "array_text fl depth (v # vs) =
     bindT (Some (readB json_spacing depth)) (\<lambda>spaces.
     bindT (if json_type v = NULL_TYPE then Some (Inr []) else toJsonString fl v) (\<lambda>t.
     bindT (array_text fl depth vs) (\<lambda>rest.
       Some (Inr (spaces @ t @ (if vs = [] then [] else bytes '','') @ [10] @ rest)))))"
| "object_text fl depth [] vs = Some (Inr [])"
| "object_text fl depth (k # ks) [] =
     bindT (Some (readB json_spacing depth)) (\<lambda>spaces. Some (Inl Out_Of_Range))"
| "object_text fl depth (k # ks) (v # vs) =
     bindT (Some (readB json_spacing depth)) (\<lambda>spaces.
     bindT (if json_type v = NULL_TYPE then Some (Inr []) else toJsonString fl v) (\<lambda>t.
     bindT (object_text fl depth ks vs) (\<lambda>rest.
       Some (Inr (spaces @ [34] @ k @ [34] @ bytes '': '' @ t @ (if ks = [] then [] else bytes '','') @
         [10] @ rest)))))"

text \<open>\<open>pretty\<close>: one step per character of a text.\<close>

record pretty_state =
  pr_out :: "byte list"
  pr_depth :: nat
  pr_allow_all :: bool

definition pretty_step :: "byte \<Rightarrow> pretty_state \<Rightarrow> pretty_state" where
  "pretty_step c st =
     (let deeper = (pr_depth st + 1) mod 256; shallower = (pr_depth st + 255) mod 256
      in if c = letter CHR ''{'' \<or> c = letter CHR ''[''
         then st\<lparr>pr_out := pr_out st @ [c, 10] @ replicate deeper 9, pr_depth := deeper\<rparr>
         else if c = letter CHR ''}'' \<or> c = letter CHR '']''
         then st\<lparr>pr_out := pr_out st @ [10] @ replicate shallower 9 @ [c], pr_depth := shallower\<rparr>
         else if c = letter CHR '','' then st\<lparr>pr_out := pr_out st @ [c, 10] @ replicate (pr_depth st) 9\<rparr>
         else if c = letter CHR '':'' then st\<lparr>pr_out := pr_out st @ [c, 32]\<rparr>
         else if c = 34 then st\<lparr>pr_allow_all := \<not> pr_allow_all st, pr_out := pr_out st @ [c]\<rparr>
         else if pr_allow_all st then st\<lparr>pr_out := pr_out st @ [c]\<rparr>
         else st)"

definition pretty :: "byte list \<Rightarrow> byte list" where
  "pretty json =
     pr_out (fold pretty_step json \<lparr>pr_out = [], pr_depth = 0, pr_allow_all = False\<rparr>)"

text \<open>The base class of mapped objects wraps the elements a subclass gives.\<close>

definition strict_toJsonString :: "byte list \<Rightarrow> byte list" where
  "strict_toJsonString elements = bytes ''{'' @ [10] @ elements @ bytes ''}'' @ [10]"

section \<open>Values of variables\<close>

definition wrong_type :: exn where
  "wrong_type = Runtime_Error ''Failed to set variable from json value. Invalid type.''"

fun setVariable_bool :: "'d json \<Rightarrow> bool res" where
  "setVariable_bool (JsonBoolean b) = Inr b"
| "setVariable_bool v = Inl wrong_type"

fun setVariable_double :: "'d json \<Rightarrow> 'd res" where
  "setVariable_double (JsonNumber x n d) = Inr x"
| "setVariable_double v = Inl wrong_type"

fun setVariable_jstring :: "'d json \<Rightarrow> byte list res" where
  "setVariable_jstring (JsonString s) = Inr s"
| "setVariable_jstring v = Inl wrong_type"

text \<open>
  A type \<open>T\<close> of the program is made from an object by its constructor \<open>mk\<close>; a pointer to one may
  be null.
\<close>

fun setVariable :: "('d json \<Rightarrow> 't res) \<Rightarrow> 'd json \<Rightarrow> 't res" where
  "setVariable mk (JsonObject depth ks vs) = mk (JsonObject depth ks vs)"
| "setVariable mk v = Inl wrong_type"

fun setPointerVariable :: "('d json \<Rightarrow> 't res) \<Rightarrow> 'd json \<Rightarrow> 't option res" where
  "setPointerVariable mk (JsonObject depth ks vs) = map_sum id Some (mk (JsonObject depth ks vs))"
| "setPointerVariable mk JsonValue = Inr None"
| "setPointerVariable mk v = Inl wrong_type"

text \<open>
  Arrays: the elements of the type are appended, the others skipped. Maps: every value of the
  object is stored under the key of the call; one of another type ends the call.
\<close>

fun append_values :: "JsonType \<Rightarrow> ('d json \<Rightarrow> 'x res) \<Rightarrow> 'd json list \<Rightarrow> ('x list, unit) prog" where
  "append_values ty conv [] arr = (Inr (), arr)"
| "append_values ty conv (v # vs) arr =
     (if json_type v = ty
      then (case conv v of
          Inl e \<Rightarrow> (Inl e, arr)
        | Inr x \<Rightarrow> append_values ty conv vs (arr @ [x]))
      else append_values ty conv vs arr)"

fun setArrayVariables :: "JsonType \<Rightarrow> ('d json \<Rightarrow> 'x res) \<Rightarrow> 'd json \<Rightarrow> ('x list, unit) prog" where
  "setArrayVariables ty conv (JsonArray depth vs) arr = append_values ty conv vs arr"
| "setArrayVariables ty conv v arr = (Inl wrong_type, arr)"

definition setArrayVariables_bool :: "'d json \<Rightarrow> (bool list, unit) prog" where
  "setArrayVariables_bool = setArrayVariables BOOLEAN setVariable_bool"

definition setArrayVariables_double :: "'d json \<Rightarrow> ('d list, unit) prog" where
  "setArrayVariables_double = setArrayVariables NUMBER setVariable_double"

definition setArrayVariables_jstring :: "'d json \<Rightarrow> (byte list list, unit) prog" where
  "setArrayVariables_jstring = setArrayVariables STRING setVariable_jstring"

definition setArrayVariables_object :: "('d json \<Rightarrow> 't res) \<Rightarrow> 'd json \<Rightarrow> ('t list, unit) prog" where
  "setArrayVariables_object mk = setArrayVariables OBJECT (setVariable mk)"

definition setArrayPointerVariables ::
  "('d json \<Rightarrow> 't res) \<Rightarrow> 'd json \<Rightarrow> ('t option list, unit) prog" where
  "setArrayPointerVariables mk = setArrayVariables OBJECT (setPointerVariable mk)"

partial_function (option) map_loop ::
  "JsonType \<Rightarrow> ('d json \<Rightarrow> 'x res) \<Rightarrow> byte list \<Rightarrow> byte list list \<Rightarrow> 'd json list \<Rightarrow> json_iterator \<Rightarrow>
   (byte list \<rightharpoonup> 'x) \<Rightarrow> (unit res \<times> (byte list \<rightharpoonup> 'x)) option" where
  "map_loop ty conv key ks vs it m =
     (if it_i it = length vs then Some (Inr (), m)
      else case iterator_deref ks vs it of
          Inl e \<Rightarrow> Some (Inl e, m)
        | Inr node \<Rightarrow>
            if json_type (snd node) = ty
            then (case conv (snd node) of
                Inl e \<Rightarrow> Some (Inl e, m)
              | Inr x \<Rightarrow> map_loop ty conv key ks vs (iterator_inc vs it) (m(key \<mapsto> x)))
            else Some (Inl wrong_type, m))"

declare map_loop.simps [code]

fun setMapVariable ::
  "JsonType \<Rightarrow> ('d json \<Rightarrow> 'x res) \<Rightarrow> 'd json \<Rightarrow> byte list \<Rightarrow> (byte list \<rightharpoonup> 'x) \<Rightarrow>
   (unit res \<times> (byte list \<rightharpoonup> 'x)) option" where
  "setMapVariable ty conv (JsonObject depth ks vs) key m =
     map_loop ty conv key ks vs \<lparr>it_i = 0, it_reverse = False\<rparr> m"
| "setMapVariable ty conv v key m = Some (Inl wrong_type, m)"

definition setMapVariable_bool ::
  "'d json \<Rightarrow> byte list \<Rightarrow> (byte list \<rightharpoonup> bool) \<Rightarrow> (unit res \<times> (byte list \<rightharpoonup> bool)) option" where
  "setMapVariable_bool = setMapVariable BOOLEAN setVariable_bool"

definition setMapVariable_double ::
  "'d json \<Rightarrow> byte list \<Rightarrow> (byte list \<rightharpoonup> 'd) \<Rightarrow> (unit res \<times> (byte list \<rightharpoonup> 'd)) option" where
  "setMapVariable_double = setMapVariable NUMBER setVariable_double"

definition setMapVariable_jstring ::
  "'d json \<Rightarrow> byte list \<Rightarrow> (byte list \<rightharpoonup> byte list) \<Rightarrow> (unit res \<times> (byte list \<rightharpoonup> byte list)) option" where
  "setMapVariable_jstring = setMapVariable STRING setVariable_jstring"

definition setMapVariable_object ::
  "('d json \<Rightarrow> 't res) \<Rightarrow> 'd json \<Rightarrow> byte list \<Rightarrow> (byte list \<rightharpoonup> 't) \<Rightarrow>
   (unit res \<times> (byte list \<rightharpoonup> 't)) option" where
  "setMapVariable_object mk = setMapVariable OBJECT (setVariable mk)"

end
