(* ===== verification/Json_Parser.thy ===== *)
theory Json_Parser
  imports Json_Value
begin

text \<open>
  The JSON parser of lib/parser/json/json_parser.cpp: a recursive descent over a byte stream. The
  source hands the array or object under construction down and appends to it; here a parser
  returns what it appends, which is the same because an exception discards the whole value. The
  recursion is through \<open>JsonArray\<close> and \<open>JsonObject\<close>, whose constructors bound the depth:
  \<open>nested depth\<close> are the parsers for values below that depth. The loops are partial functions:
  \<open>parseObject\<close> does not end in every case.
\<close>

section \<open>White space and numbers\<close>

partial_function (option) white_loop :: "byte \<Rightarrow> estream \<Rightarrow> (byte res \<times> estream) option" where
  "white_loop c s =
     (if is_whitespace c then bindF getF (\<lambda>_. bindF peekF white_loop) s else liftF (Inr c) s)"

declare white_loop.simps [code]

definition readWhiteSpaceUntil :: "byte list \<Rightarrow> unit parser" where
  "readWhiteSpaceUntil until =
     bindF peekF (\<lambda>c.
       if c \<in> set until then liftF (Inr ())
       else bindF (white_loop c) (\<lambda>c1.
         if c1 \<notin> set until then throwF ''Only allow whitespace between tokens...''
         else liftF (Inr ())))"

definition number_end :: "byte list" where
  "number_end = bytes '' ,}'' @ [13, 10, 9]"

text \<open>The exponent: its sign and the power of ten.\<close>

definition parse_exponent :: "'d double_ops \<Rightarrow> (int \<times> 'd) parser" where
  "parse_exponent ops =
     bindF peekF (\<lambda>c.
     bindF (if c = letter CHR ''-'' then bindF getF (\<lambda>_. liftF (Inr (-1)))
            else if c = letter CHR ''+'' then bindF getF (\<lambda>_. liftF (Inr 1))
            else liftF (Inr 0)) (\<lambda>exponential_sign.
     bindF naturalF (\<lambda>exp.
       if FLT_MAX_EXP_ABS < exp then throwF ''parseNumber: exponential to large.''
       else liftF (Inr (exponential_sign,
         ((\<lambda>m. dbl_mul ops m (dbl_of_int ops 10)) ^^ exp) (dbl_of_int ops 1))))))"

definition parseNumber :: "'d double_ops \<Rightarrow> 'd json parser" where
  "parseNumber ops =
     bindF peekF (\<lambda>c0. let sign = (if c0 = letter CHR ''-'' then -1 else 1) in
     bindF peekF (\<lambda>c1.
     bindF (if isDigit c1 then readDecimal ops [] True else throwF ''Invalid number.'')
       (\<lambda>(v, natural_digits, decimal_digits).
     bindF peekF (\<lambda>c2.
     bindF (if c2 = letter CHR ''e'' \<or> c2 = letter CHR ''E'' then parse_exponent ops
            else if c2 \<notin> set number_end then throwF ''Invalid number.''
            else liftF (Inr (0, dbl_of_int ops 1)))
       (\<lambda>(exponential_sign, exponential_multiplier).
     let scaled = (if exponential_sign = -1 then dbl_div ops v exponential_multiplier
                   else if exponential_sign = 1 then dbl_mul ops v exponential_multiplier
                   else v)
     in liftF (Inr (JsonNumber (dbl_mul ops scaled (dbl_of_int ops sign)) natural_digits decimal_digits)))))))"

section \<open>Strings\<close>

definition readString_nF :: "nat \<Rightarrow> reader_task option \<Rightarrow> byte list parser" where
  "readString_nF n task s = map_option (\<lambda>(r, t, s'). (r, s')) (readString_n n task s)"

text \<open>What an escaped character appends.\<close>

definition escaped :: "byte \<Rightarrow> byte list parser" where
  "escaped c =
     (if c = letter CHR ''b'' then liftF (Inr [8])
      else if c = letter CHR ''f'' then liftF (Inr [12])
      else if c = letter CHR ''n'' then liftF (Inr [10])
      else if c = letter CHR ''r'' then liftF (Inr [13])
      else if c = letter CHR ''t'' then liftF (Inr [9])
      else if c = letter CHR ''u'' then bindF (readString_nF 2 None) (\<lambda>hex. liftF (Inr []))
      else liftF (Inr [c]))"

function string_loop :: "byte \<Rightarrow> byte \<Rightarrow> nat \<Rightarrow> byte list \<Rightarrow> byte list parser" where
  "string_loop c prev_c string_count s =
     (if string_count < MAX_LENGTH_OF_JSON_STRING_VALUES \<and> (c \<noteq> 34 \<or> prev_c = 92)
      then bindF (if prev_c = 92 then escaped c else liftF (Inr [c])) (\<lambda>t.
           bindF getF (\<lambda>c'. string_loop c' c (Suc string_count) (s @ t)))
      else liftF (Inr s))"
  by pat_completeness auto
termination
  by (relation "measure (\<lambda>(c, prev_c, string_count, s). MAX_LENGTH_OF_JSON_STRING_VALUES - string_count)") auto

declare string_loop.simps [simp del]

definition parseString :: "'d json parser" where
  "parseString =
     bindF getF (\<lambda>_.
     bindF getF (\<lambda>c.
     bindF (string_loop c 0 0 []) (\<lambda>s.
       if MAX_LENGTH_OF_JSON_STRING_VALUES < length s
       then throwF ''parseString: string value too looooooonnnng!''
       else liftF (Inr (JsonString s)))))"

text \<open>\<open>catch (std::exception&)\<close> catches every exception; undefined behaviour is none.\<close>

definition parseImmediate :: "byte list \<Rightarrow> 'd json \<Rightarrow> 'd json parser" where
  "parseImmediate literal value s =
     (case readString_nF (length literal) (Some (ReaderTaskExact literal 0 True False None)) s of
        None \<Rightarrow> None
      | Some (Inr _, s') \<Rightarrow> Some (Inr value, s')
      | Some (Inl Undefined, s') \<Rightarrow> Some (Inl Undefined, s')
      | Some (Inl _, s') \<Rightarrow> Some (Inl (Runtime_Error
          ''Invalid immediate value - throw away the whole object. Don't rest on your laurels!''), s'))"

section \<open>Values\<close>

text \<open>The parsers for an array and an object inside a value.\<close>

record 'd json_nested =
  nested_array :: "'d json parser"
  nested_object :: "'d json parser"

text \<open>One turn of the loop of \<open>parseValue\<close>: whether a token was parsed, and the values.\<close>

definition value_step ::
  "'d double_ops \<Rightarrow> 'd json_nested \<Rightarrow> byte \<Rightarrow> bool \<Rightarrow> 'd json list \<Rightarrow> (bool \<times> 'd json list) parser"
where
  "value_step ops nest c parsed vs =
     (let token = (\<lambda>p. bindF p (\<lambda>v. liftF (Inr (True, vs @ [v])))) in
      if \<not> parsed
      then if c = 34 then token parseString
        else if isDigit c \<or> c = letter CHR ''+'' \<or> c = letter CHR ''-'' then token (parseNumber ops)
        else if c = letter CHR ''['' then token (nested_array nest)
        else if c = letter CHR ''t'' then token (parseImmediate (bytes ''true'') (JsonBoolean True))
        else if c = letter CHR ''f'' then token (parseImmediate (bytes ''false'') (JsonBoolean False))
        else if c = letter CHR ''n'' then token (parseImmediate (bytes ''null'') JsonValue)
        else if c = letter CHR ''{''
        then bindF peekF (\<lambda>c'. if c' = letter CHR ''{'' then token (nested_object nest)
               else liftF (Inr (True, vs)))
        else if \<not> is_whitespace c
        then throwF (''Found non-whitespace char left of value token. '' @ quoted [c])
        else bindF getF (\<lambda>_. liftF (Inr (False, vs)))
      else if \<not> is_whitespace c
      then throwF (''Found non-whitespace char right of value token. '' @ quoted [c])
      else bindF getF (\<lambda>_. liftF (Inr (True, vs))))"

definition value_end :: "byte list" where
  "value_end = bytes '',}]''"

partial_function (option) value_loop ::
  "'d double_ops \<Rightarrow> 'd json_nested \<Rightarrow> bool \<Rightarrow> 'd json list \<Rightarrow> estream \<Rightarrow>
   ('d json list res \<times> estream) option" where
  "value_loop ops nest parsed vs s =
     bindF peekF (\<lambda>c.
       if c \<in> set value_end then liftF (Inr vs)
       else bindF (value_step ops nest c parsed vs) (\<lambda>x. value_loop ops nest (fst x) (snd x))) s"

declare value_loop.simps [code]

definition parseValue :: "'d double_ops \<Rightarrow> 'd json_nested \<Rightarrow> 'd json list \<Rightarrow> 'd json list parser" where
  "parseValue ops nest vs = value_loop ops nest False vs"

partial_function (option) array_loop ::
  "'d double_ops \<Rightarrow> 'd json_nested \<Rightarrow> byte \<Rightarrow> 'd json list \<Rightarrow> estream \<Rightarrow>
   ('d json list res \<times> estream) option" where
  "array_loop ops nest c vs s =
     (if c \<noteq> letter CHR '']''
      then bindF (if c = letter CHR ''['' \<or> c = letter CHR '','' then parseValue ops nest vs
                  else liftF (Inr vs)) (\<lambda>vs'.
           bindF getF (\<lambda>c'. array_loop ops nest c' vs')) s
      else liftF (Inr vs) s)"

declare array_loop.simps [code]

definition parseArray :: "'d double_ops \<Rightarrow> 'd json_nested \<Rightarrow> 'd json list parser" where
  "parseArray ops nest = bindF getF (\<lambda>c. array_loop ops nest c [])"

section \<open>Objects\<close>

text \<open>\<open>parseKey\<close>: the key, or none at the end of the object.\<close>

definition parseKey :: "byte list option parser" where
  "parseKey =
     bindF (readF (bytes '':}'') (Some (ReaderTaskExtract 34 34 None))) (\<lambda>key.
       let size = length key in
       if size < 1 then throwF ''Empty key string found.''
       else if key ! (size - 1) = letter CHR ''}'' then liftF (Inr None)
       else if MAX_LENGTH_OF_JSON_STRING_KEYS < size then throwF ''Key string to loooooonnng!''
       else liftF (Inr (Some (take (size - 1) key))))"

partial_function (option) object_loop ::
  "'d double_ops \<Rightarrow> 'd json_nested \<Rightarrow> byte \<Rightarrow> byte list list \<Rightarrow> 'd json list \<Rightarrow> estream \<Rightarrow>
   ((byte list list \<times> 'd json list) res \<times> estream) option" where
  "object_loop ops nest c ks vs s =
     (if c \<noteq> letter CHR ''}''
      then if c = letter CHR ''{'' \<or> c = letter CHR '',''
        then bindF parseKey (\<lambda>k.
             if k = None then liftF (Inr (ks, vs))
             else bindF (parseValue ops nest vs) (\<lambda>vs'.
                  bindF getF (\<lambda>c'. object_loop ops nest c' (ks @ [the k]) vs'))) s
        else object_loop ops nest c ks vs s
      else liftF (Inr (ks, vs)) s)"

declare object_loop.simps [code]

definition parseObject :: "'d double_ops \<Rightarrow> 'd json_nested \<Rightarrow> (byte list list \<times> 'd json list) parser" where
  "parseObject ops nest = bindF getF (\<lambda>c. object_loop ops nest c [] [])"

section \<open>Nesting\<close>

definition parseNestedArray :: "'d double_ops \<Rightarrow> 'd json_nested \<Rightarrow> nat \<Rightarrow> 'd json parser" where
  "parseNestedArray ops nest depth =
     bindF (liftF (JsonArray_new depth :: 'd json res)) (\<lambda>_.
     bindF (parseArray ops nest) (\<lambda>vs. liftF (Inr (JsonArray depth vs))))"

definition parseNestedObject :: "'d double_ops \<Rightarrow> 'd json_nested \<Rightarrow> nat \<Rightarrow> 'd json parser" where
  "parseNestedObject ops nest depth =
     bindF (liftF (JsonObject_new depth :: 'd json res)) (\<lambda>_.
     bindF (parseObject ops nest) (\<lambda>(ks, vs). liftF (Inr (JsonObject depth ks vs))))"

text \<open>
  The parsers for what stands inside a value of the given depth. Those below the greatest depth
  are never called, since the constructor throws before.
\<close>

function nested :: "'d double_ops \<Rightarrow> nat \<Rightarrow> 'd json_nested" where
  "nested ops depth =
     (let below = (if depth < MAX_JSON_DEPTH then nested ops (depth + 1)
                   else \<lparr>nested_array = liftF (Inl Undefined), nested_object = liftF (Inl Undefined)\<rparr>)
      in \<lparr>nested_array = parseNestedArray ops below (depth + 1),
          nested_object = parseNestedObject ops below (depth + 1)\<rparr>)"
  by pat_completeness auto
termination
  by (relation "measure (\<lambda>(ops, depth). MAX_JSON_DEPTH - depth)") auto

declare nested.simps [simp del]

definition parse :: "'d double_ops \<Rightarrow> 'd json parser" where
  "parse ops =
     bindF (readWhiteSpaceUntil (bytes ''{['')) (\<lambda>_.
     bindF peekF (\<lambda>c.
       if c = letter CHR ''{'' then parseNestedObject ops (nested ops 0) 0
       else if c = letter CHR ''['' then parseNestedArray ops (nested ops 0) 0
       else throwF ''Invalid JSON data.''))"

text \<open>From a string and from an array of bytes; the message is that of the overload.\<close>

definition parse_bytes :: "string \<Rightarrow> 'd double_ops \<Rightarrow> byte list \<Rightarrow> 'd json res option" where
  "parse_bytes message ops json =
     (if MAX_LENGTH_OF_JSON_STRING < length json then Some (Inl (Runtime_Error message))
      else map_option fst (parse ops (EStream_memory json)))"

definition parse_string :: "'d double_ops \<Rightarrow> byte list \<Rightarrow> 'd json res option" where
  "parse_string = parse_bytes ''String to loooonnnng!''"

definition parse_array :: "'d double_ops \<Rightarrow> byte list \<Rightarrow> 'd json res option" where
  "parse_array = parse_bytes ''Json data to loooonnnng!''"

end
