(* ===== verification/Json_Runs.thy ===== *)
theory Json_Runs
  imports Json_Parser
begin

text \<open>
  What the elementary readers of the JSON parser take: digits, literals, strings and keys, each as
  a \<open>takes\<close> fact over the bytes that remain.
\<close>

section \<open>Runs of the stream\<close>

lemma takes_natural:
  assumes "digits ds" "length ds \<le> 10" "\<not> isDigit y"
  shows "takes natural_countF (Inr (decimal 0 ds, length ds)) (ds @ y # ys) (y # ys)"
  using takes_run [of "ByteIsCharClassCriteria DIGIT_CLASS" None "Natural_Collector 0 0" "ds @ y # ys" _ "y # ys"
      natural_countF collected_natural] collect_digits(2) [OF assms, of 0 0 ys]
  by (auto simp: natural_countF_def readNatural_def)

lemma decimals_prefix:
  assumes "digits xs" "length xs + length d \<le> 10"
    and "r = \<lparr>rn_criteria = Char_Class DIGIT_CLASS (class_info (length d) GOOD), rn_collector = Decimal_Collector d\<rparr>"
    and "zs \<noteq> []"
  shows "collect_list (xs @ zs) None r = collect_list zs None
    \<lparr>rn_criteria = Char_Class DIGIT_CLASS (class_info (length d + length xs) GOOD),
     rn_collector = Decimal_Collector (d @ xs)\<rparr>"
  using assms
proof (induction xs arbitrary: d r)
  case (Cons x xs)
  have k: "length d < 65536" using Cons.prems(2) by simp
  have nl: "xs @ zs \<noteq> []" using Cons.prems(4) by simp
  have "collect_list (x # xs @ zs) None r = collect_list (xs @ zs) None
      \<lparr>rn_criteria = Char_Class DIGIT_CLASS (class_info (length (d @ [x])) GOOD),
       rn_collector = Decimal_Collector (d @ [x])\<rparr>"
    using next_digit [OF k, of x GOOD] Cons.prems(1-3) nl
    by (simp add: Let_def collectorAccumulate_def NUMBER_MAX_DIGITS_def criteriaState_def criteria_state_def)
  also have "\<dots> = collect_list zs None
      \<lparr>rn_criteria = Char_Class DIGIT_CLASS (class_info (length (d @ [x]) + length xs) GOOD),
       rn_collector = Decimal_Collector ((d @ [x]) @ xs)\<rparr>"
    by (rule Cons.IH) (use Cons.prems in auto)
  finally show ?case by simp
qed simp

lemma takes_digits:
  assumes "digits ds" "length ds \<le> 10" "\<not> isDigit y"
  shows "takes (digitsF (ByteIsCharClassCriteria DIGIT_CLASS) ops) (Inr (decimal_value ops ds, length ds))
    (ds @ y # ys) (y # ys)"
proof -
  have k: "length ds < 65536" using assms(2) by simp
  have "collect_list (ds @ y # ys) None
      (start_run (ByteIsCharClassCriteria DIGIT_CLASS) (Decimal_Collector [])) =
    collect_list (y # ys) None \<lparr>rn_criteria = Char_Class DIGIT_CLASS (class_info (length ds) GOOD),
       rn_collector = Decimal_Collector ds\<rparr>"
    using decimals_prefix [OF assms(1), of "[]" _ "y # ys"] assms(2)
    by (simp add: start_run_def ByteIsCharClassCriteria_def LoopCriteriaInfo_def)
  then have "collect_bytes (ByteIsCharClassCriteria DIGIT_CLASS) None (Decimal_Collector []) (ds @ y # ys) =
      (Inr (Decimal_Collector ds), None, y # ys)"
    using next_digit [OF k, of y GOOD] assms(3)
    by (simp add: collect_bytes_def finish_run_def Let_def)
  then show ?thesis
    using takes_run [of "ByteIsCharClassCriteria DIGIT_CLASS" None "Decimal_Collector []" "ds @ y # ys" _ "y # ys"
        "digitsF (ByteIsCharClassCriteria DIGIT_CLASS) ops" "collected_decimal ops"]
    by (auto simp: digitsF_def)
qed

lemma exact_prefix:
  assumes "m = as @ xs" "xs \<noteq> []" "length xs < 2 ^ 64"
    and "r = \<lparr>rn_criteria = Loop_Criteria (size_info (length xs) [] GOOD), rn_collector = String_Collector as\<rparr>"
  shows "\<exists>c. collect_list (xs @ ys) (Some (ReaderTaskExact m (length as) True b None)) r =
    (Inr (), Some (ReaderTaskExact m (length m) True b None),
     \<lparr>rn_criteria = c, rn_collector = String_Collector m\<rparr>, ys)"
  using assms
proof (induction xs arbitrary: as r)
  case (Cons x xs)
  let ?r = "\<lambda>st. \<lparr>rn_criteria = Loop_Criteria (size_info (length xs) [] st), rn_collector = String_Collector as\<rparr>"
  have p: "next_perform (Some (ReaderTaskExact m (length as) True b None)) x (?r st) =
      (Inr (), Some (ReaderTaskExact m (length (as @ [x])) True b None),
       (?r st)\<lparr>rn_collector := String_Collector (as @ [x])\<rparr>)" for st
    using Cons.prems(1) by (simp add: collectorAccumulate_def)
  show ?case
  proof (cases "xs = []")
    case True
    define c where "c = (\<lambda>y. snd (nextState y (Loop_Criteria (size_info 0 [] GOOD_AT_LAST))))"
    have c: "nextState y (Loop_Criteria (size_info 0 [] GOOD_AT_LAST)) = (Inr NOT_GOOD, c y)" for y
      by (simp add: c_def prod_eq_iff next_size_zero(2))
    show ?thesis
      using next_size [of 1 x "[]"] True p [of GOOD_AT_LAST] Cons.prems(1,4) c
      by (cases ys) (auto simp: Let_def criteriaState_def criteria_state_def)
  next
    case False
    have IH: "\<exists>c. collect_list (xs @ ys) (Some (ReaderTaskExact m (length (as @ [x])) True b None))
        ((?r GOOD)\<lparr>rn_collector := String_Collector (as @ [x])\<rparr>) =
        (Inr (), Some (ReaderTaskExact m (length m) True b None),
         \<lparr>rn_criteria = c, rn_collector = String_Collector m\<rparr>, ys)"
      by (rule Cons.IH) (use Cons.prems False in auto)
    have "collect_list ((x # xs) @ ys) (Some (ReaderTaskExact m (length as) True b None)) r =
        collect_list (xs @ ys) (Some (ReaderTaskExact m (length (as @ [x])) True b None))
          ((?r GOOD)\<lparr>rn_collector := String_Collector (as @ [x])\<rparr>)"
      using next_size [of "Suc (length xs)" x "[]"] False p [of GOOD] Cons.prems(3,4)
      by (simp add: Let_def criteriaState_def criteria_state_def del: next_perform.simps)
    then show ?thesis using IH by simp
  qed
qed simp

lemma takes_exact:
  assumes "m \<noteq> []" "length m < 2 ^ 64"
  shows "takes (readString_nF (length m) (Some (ReaderTaskExact m 0 True b None))) (Inr m) (m @ ys) ys"
proof -
  obtain c where c: "collect_list (m @ ys) (Some (ReaderTaskExact m 0 True True None))
      \<lparr>rn_criteria = Loop_Criteria (size_info (length m) [] GOOD), rn_collector = String_Collector []\<rparr> =
    (Inr (), Some (ReaderTaskExact m (length m) True True None),
     \<lparr>rn_criteria = c, rn_collector = String_Collector m\<rparr>, ys)"
    using exact_prefix [of m "[]" m, OF _ assms refl] by auto
  have "\<exists>t. collect_bytes (size_criteria (length m)) (Some (ReaderTaskExact m 0 True b None)) (String_Collector [])
      (m @ ys) = (Inr (String_Collector m), t, ys)"
    by (simp add: collect_bytes_def start_run_def size_criteria_def LoopCriteriaInfo_def c finish_run_def)
  from takes_run [OF this, of "readString_nF (length m) (Some (ReaderTaskExact m 0 True b None))" collected_bytes]
  show ?thesis by (simp add: readString_nF_def readString_n_def)
qed

lemma takes_immediate:
  assumes "m \<noteq> []" "length m < 2 ^ 64"
  shows "takes (parseImmediate m v) (Inr v) (m @ ys) ys"
  using takes_exact [OF assms, of False ys] unfolding takes_def by (fastforce simp: parseImmediate_def)

section \<open>Keys\<close>

lemma space_facts: "is_whitespace c \<Longrightarrow> c \<noteq> 34 \<and> c \<notin> set (bytes '':}'') \<and> c \<notin> set value_end \<and> \<not> isDigit c \<and>
    c \<notin> set (bytes ''+-[tfn{'')"
  by (auto simp: is_whitespace_def STRING_UTILS_WHITESPACE_def value_end_def isDigit_def)

lemma spaces_apart: "spaces g \<Longrightarrow> set g \<inter> set (bytes '':}'') = {} \<and> 34 \<notin> set g"
  using space_facts by blast

lemma not_spaces: "\<not> is_whitespace 34" "\<not> is_whitespace 125"
  by (auto simp: is_whitespace_def STRING_UTILS_WHITESPACE_def)

lemma takes_key_text:
  assumes "spaces g" "34 \<notin> set k" "set k \<inter> {58, 125} = {}" "spaces h" "u = 58 \<or> u = 125"
    and "length g + length k + length h + 4 \<le> 65536"
  shows "takes (readF (bytes '':}'') (Some (ReaderTaskExtract 34 34 None))) (Inr (k @ [u]))
    (g @ 34 # k @ 34 # h @ u # ys) ys"
proof -
  have "set k \<inter> set (bytes '':}'') = {}" "u \<in> set (bytes '':}'')" "u \<noteq> 0" using assms(3,5) by auto
  moreover have "34 \<notin> set (bytes '':}'')" by simp
  ultimately have "\<exists>t. collect_bytes (until_criteria (bytes '':}'') True) (Some (ReaderTaskExtract 34 34 None))
      (Array_Collector []) (g @ 34 # k @ 34 # h @ u # ys) = (Inr (Array_Collector (k @ [u])), t, ys)"
    using extract_token [of g "bytes '':}''" h 34 k 34 u "Array_Collector []" "Array_Collector []" None ys]
      assms(1,2,4,6) spaces_apart [of g] spaces_apart [of h] not_spaces(1) by simp
  from takes_run [OF this, of "readF (bytes '':}'') (Some (ReaderTaskExtract 34 34 None))" collected_bytes]
  show ?thesis by (simp add: readF_def read_until_def)
qed

lemma takes_key:
  assumes "spaces g" "34 \<notin> set k" "set k \<inter> {58, 125} = {}" "spaces h"
    and "length g + length k + length h + 4 \<le> 65536" "length k < MAX_LENGTH_OF_JSON_STRING_KEYS"
  shows "takes parseKey (Inr (Some k)) (g @ 34 # k @ 34 # h @ 58 # ys) ys"
  unfolding parseKey_def
  by (rule takes_bind [OF takes_key_text [OF assms(1-4) _ assms(5), of 58]])
    (use assms(6) in \<open>simp_all add: nth_append takes_lift\<close>)

lemma takes_key_end:
  assumes "spaces g" "length g + 2 \<le> 65536"
  shows "takes parseKey (Inr None) (g @ 125 # ys) ys"
proof -
  let ?e = "extract_initialize None"
  have e: "ex_l_trimming ?e" "ex_non_whitespace ?e = 0" "ex_read_until ?e = 0"
    by (simp_all add: extract_initialize_def)
  have k: "length g < 65536" "Suc (length g) < 65536" using assms(2) by auto
  have 1: "collect_list (g @ 125 # ys) (Some (ReaderTaskExtract 34 34 (Some ?e)))
      (until_run 0 (bytes '':}'') GOOD (Array_Collector [])) =
    collect_list (125 # ys) (Some (ReaderTaskExtract 34 34 (Some ?e)))
      (until_run (length g) (bytes '':}'') GOOD (Array_Collector []))"
    using extract_left [of g "bytes '':}''" 0 ?e "125 # ys" 34 34 "Array_Collector []"] assms e(1)
      spaces_apart [of g] by simp
  have 2: "\<exists>c. collect_list (125 # ys) (Some (ReaderTaskExtract 34 34 (Some ?e)))
      (until_run (length g) (bytes '':}'') GOOD (Array_Collector [])) =
    (Inr (), Some (ReaderTaskExtract 34 34 (Some ?e)), \<lparr>rn_criteria = c, rn_collector = Array_Collector [125]\<rparr>, ys)"
    using next_until_match [OF k(1), of 125 "bytes '':}''" True] next_until_done [OF k(2), of _ True "bytes '':}''"]
      e(1) not_spaces(2)
    by (cases ys)
      (auto simp: Let_def extract_perform_def criteriaState_def criteria_state_def collectorAccumulate_def)
  have "\<exists>t. collect_bytes (until_criteria (bytes '':}'') True) (Some (ReaderTaskExtract 34 34 None))
      (Array_Collector []) (g @ 125 # ys) = (Inr (Array_Collector [125]), t, ys)"
    using 1 2 e by (auto simp: collect_bytes_def start_run_def until_criteria_def LoopCriteriaInfo_def
        finish_run_def extract_flush_def)
  from takes_run [OF this, of "readF (bytes '':}'') (Some (ReaderTaskExtract 34 34 None))" collected_bytes]
  have "takes (readF (bytes '':}'') (Some (ReaderTaskExtract 34 34 None))) (Inr [125]) (g @ 125 # ys) ys"
    by (simp add: readF_def read_until_def)
  then show ?thesis unfolding parseKey_def
    by (rule takes_bind) (simp add: takes_lift)
qed

end
