(* ===== verification/Json_Text.thy ===== *)
theory Json_Text
  imports Json_Runs
begin

text \<open>
  Properties of the JSON parser. \<open>json_text\<close> is the grammar of the texts it takes for a value:
  what the parser makes of each is proved by rule induction, for every white space between the
  tokens and every division of the text into reads.
\<close>

section \<open>Strings and numbers\<close>

text \<open>What the characters of a string literal append; \<open>p\<close> is the character before.\<close>

definition escape_out :: "byte \<Rightarrow> byte" where
  "escape_out c =
     (if c = letter CHR ''b'' then 8 else if c = letter CHR ''f'' then 12
      else if c = letter CHR ''n'' then 10 else if c = letter CHR ''r'' then 13
      else if c = letter CHR ''t'' then 9 else c)"

fun kept :: "byte \<Rightarrow> byte list \<Rightarrow> byte list" where
  "kept p [] = []"
| "kept p (c # cs) = (if p = 92 then escape_out c else c) # kept c cs"

fun string_body :: "byte \<Rightarrow> byte list \<Rightarrow> bool" where
  "string_body p [] \<longleftrightarrow> p \<noteq> 92"
| "string_body p (c # cs) \<longleftrightarrow> (if p = 92 then c \<noteq> letter CHR ''u'' else c \<noteq> 34) \<and> string_body c cs"

lemma length_kept [simp]: "length (kept p xs) = length xs"
  by (induction xs arbitrary: p) simp_all

lemma string_loop_body:
  "string_body p xs \<Longrightarrow> n + length xs \<le> MAX_LENGTH_OF_JSON_STRING_VALUES \<Longrightarrow>
   takes (string_loop (hd (xs @ [34])) p n acc) (Inr (acc @ kept p xs)) (tl (xs @ [34]) @ rest) rest"
proof (induction xs arbitrary: p n acc)
  case Nil
  then show ?case by (simp add: string_loop.simps takes_lift)
next
  case (Cons x xs)
  have out: "takes (if p = 92 then escaped x else liftF (Inr [x]))
      (Inr [if p = 92 then escape_out x else x]) ys ys" for ys
    using Cons.prems(1) by (auto simp: escaped_def escape_out_def takes_lift)
  obtain y ys where y: "xs @ [34] = y # ys" by (cases xs) auto
  have "takes (string_loop y x (Suc n) (acc @ [if p = 92 then escape_out x else x]))
      (Inr ((acc @ [if p = 92 then escape_out x else x]) @ kept x xs)) (ys @ rest) rest"
    using Cons.IH [of x "Suc n" "acc @ [if p = 92 then escape_out x else x]"] Cons.prems y
    by (cases "p = 92") simp_all
  then have rest: "takes (bindF getF (\<lambda>c'. string_loop c' x (Suc n) (acc @ [if p = 92 then escape_out x else x])))
      (Inr (acc @ kept p (x # xs))) (y # ys @ rest) rest"
    by (intro takes_bind [OF takes_get]) simp
  have start: "n < MAX_LENGTH_OF_JSON_STRING_VALUES" "x \<noteq> 34 \<or> p = 92"
    using Cons.prems by (auto split: if_splits)
  have "xs @ 34 # rest = y # ys @ rest" using y by (metis append_Cons append_assoc append_Nil)
  then show ?case
    using takes_bind [OF out, where f = "\<lambda>t. bindF getF (\<lambda>c'. string_loop c' x (Suc n) (acc @ t))"] rest start
    by (simp add: string_loop.simps [of x])
qed

lemma takes_string:
  assumes "string_body 0 xs" "length xs \<le> MAX_LENGTH_OF_JSON_STRING_VALUES"
  shows "takes parseString (Inr (JsonString (kept 0 xs))) (34 # xs @ 34 # rest) rest"
proof -
  obtain y ys where y: "xs @ [34] = y # ys" by (cases xs) auto
  then have r: "xs @ 34 # rest = y # ys @ rest" by (metis append_Cons append_assoc append_Nil)
  have "takes (string_loop y 0 0 []) (Inr (kept 0 xs)) (ys @ rest) rest"
    using string_loop_body [OF assms(1), of 0 "[]" rest] assms(2) y by simp
  moreover have "takes (if MAX_LENGTH_OF_JSON_STRING_VALUES < length (kept 0 xs)
      then throwF ''parseString: string value too looooooonnnng!'' else liftF (Inr (JsonString (kept 0 xs))))
      (Inr (JsonString (kept 0 xs))) rest rest" using assms(2) by (simp add: takes_lift)
  ultimately show ?thesis unfolding parseString_def r
    by (intro takes_bind [OF takes_get] takes_bind)
qed

text \<open>Numbers: digits, with or without a point and further digits.\<close>

definition number_chars :: "byte list \<Rightarrow> byte list option \<Rightarrow> byte list" where
  "number_chars ds fs = ds @ (case fs of None \<Rightarrow> [] | Some f \<Rightarrow> letter CHR ''.'' # f)"

definition number_json :: "'d double_ops \<Rightarrow> byte list \<Rightarrow> byte list option \<Rightarrow> 'd json" where
  "number_json ops ds fs =
     (let n = dbl_of_nat ops (decimal 0 ds)
      in case fs of
           None \<Rightarrow> JsonNumber (dbl_mul ops n (dbl_of_int ops 1)) (length ds) 0
         | Some f \<Rightarrow> JsonNumber (dbl_mul ops (dbl_add ops n (decimal_value ops f)) (dbl_of_int ops 1))
             (length ds) (length f))"

definition number_ok :: "byte list \<Rightarrow> byte list option \<Rightarrow> bool" where
  "number_ok ds fs \<longleftrightarrow> ds \<noteq> [] \<and> digits ds \<and> length ds \<le> 10 \<and>
     (case fs of None \<Rightarrow> True | Some f \<Rightarrow> digits f \<and> length f \<le> 10)"

lemma number_end_facts: "y \<in> set number_end \<Longrightarrow> \<not> isDigit y \<and> y \<noteq> letter CHR ''.'' \<and>
    y \<noteq> letter CHR ''e'' \<and> y \<noteq> letter CHR ''E''"
  by (auto simp: number_end_def isDigit_def)

lemma takes_decimal:
  assumes "number_ok ds fs" "y \<in> set number_end"
  shows "takes (readDecimal ops [] True)
    (Inr (case fs of None \<Rightarrow> (dbl_of_nat ops (decimal 0 ds), length ds, 0)
      | Some f \<Rightarrow> (dbl_add ops (dbl_of_nat ops (decimal 0 ds)) (decimal_value ops f), length ds, length f)))
    (number_chars ds fs @ y # ys) (y # ys)"
proof (cases fs)
  case None
  have n: "takes natural_countF (Inr (decimal 0 ds, length ds)) (ds @ y # ys) (y # ys)"
    using assms number_end_facts [of y] None by (intro takes_natural) (auto simp: number_ok_def)
  show ?thesis
    using number_end_facts [OF assms(2)] None
    unfolding readDecimal_def number_chars_def
    by (auto intro!: takes_bind [OF n] takes_bind [OF takes_peek] takes_bind [OF takes_lift] takes_lift
        simp: consume_until_def)
next
  case (Some f)
  have nd: "\<not> isDigit 46" by (simp add: isDigit_def)
  have n: "takes natural_countF (Inr (decimal 0 ds, length ds)) (ds @ 46 # f @ y # ys)
      (46 # f @ y # ys)"
    using assms nd Some by (intro takes_natural) (auto simp: number_ok_def)
  have d: "takes (digitsF (ByteIsCharClassCriteria DIGIT_CLASS) ops) (Inr (decimal_value ops f, length f))
      (f @ y # ys) (y # ys)"
    using assms number_end_facts [of y] Some by (intro takes_digits) (auto simp: number_ok_def)
  show ?thesis
    using Some unfolding readDecimal_def number_chars_def
    by (auto intro!: takes_bind [OF n] takes_bind [OF takes_peek] takes_bind [OF takes_get]
        takes_bind [OF d] takes_bind [OF takes_lift] takes_lift)
qed

lemma takes_number:
  assumes "number_ok ds fs" "y \<in> set number_end"
  shows "takes (parseNumber ops) (Inr (number_json ops ds fs)) (number_chars ds fs @ y # ys) (y # ys)"
proof -
  obtain c cs where c: "number_chars ds fs @ y # ys = c # cs" "isDigit c"
    using assms(1) by (cases ds) (auto simp: number_ok_def number_chars_def)
  have "c \<noteq> letter CHR ''-''" using c(2) by (auto simp: isDigit_def)
  have dec: "takes (if isDigit c then readDecimal ops [] True else throwF ''Invalid number.'')
    (Inr (case fs of None \<Rightarrow> (dbl_of_nat ops (decimal 0 ds), length ds, 0)
      | Some f \<Rightarrow> (dbl_add ops (dbl_of_nat ops (decimal 0 ds)) (decimal_value ops f), length ds, length f)))
    (c # cs) (y # ys)"
    using takes_decimal [OF assms, of ops ys] c by simp
  show ?thesis
    unfolding parseNumber_def c(1)
    using \<open>c \<noteq> letter CHR ''-''\<close> number_end_facts [OF assms(2)] assms(2)
    by (cases fs) (auto intro!: takes_bind [OF takes_peek] takes_bind [OF dec] takes_bind [OF takes_lift] takes_lift
        simp: number_json_def Let_def )
qed

section \<open>The grammar\<close>

text \<open>
  \<open>json_text ops d v t\<close>: \<open>t\<close> is a text of the value \<open>v\<close> that stands inside a container of depth
  \<open>d\<close>. A number must be followed by a character that ends numbers, which \<open>]\<close> is not. The texts of
  elements and members include the closing bracket; a trailing comma is accepted.
\<close>

fun json_number :: "'d json \<Rightarrow> bool" where
  "json_number (JsonNumber x n d) = True"
| "json_number v = False"

abbreviation closes :: "'d json \<Rightarrow> byte list \<Rightarrow> byte \<Rightarrow> bool" where
  "closes v g u \<equiv> spaces g \<and> (json_number v \<longrightarrow> hd (g @ [u]) \<in> set number_end)"

definition key_ok :: "byte list \<Rightarrow> byte list \<Rightarrow> byte list \<Rightarrow> bool" where
  "key_ok g k h \<longleftrightarrow> spaces g \<and> spaces h \<and> 34 \<notin> set k \<and> set k \<inter> {58, 125} = {} \<and>
     length g + length k + length h + 4 \<le> 65536 \<and> length k < MAX_LENGTH_OF_JSON_STRING_KEYS"

inductive json_text :: "'d double_ops \<Rightarrow> nat \<Rightarrow> 'd json \<Rightarrow> byte list \<Rightarrow> bool"
  and json_elements :: "'d double_ops \<Rightarrow> nat \<Rightarrow> 'd json list \<Rightarrow> byte list \<Rightarrow> bool"
  and json_members :: "'d double_ops \<Rightarrow> nat \<Rightarrow> byte list list \<Rightarrow> 'd json list \<Rightarrow> byte list \<Rightarrow> bool"
  for ops :: "'d double_ops"
where
  null: "json_text ops d JsonValue (bytes ''null'')"
| true: "json_text ops d (JsonBoolean True) (bytes ''true'')"
| false: "json_text ops d (JsonBoolean False) (bytes ''false'')"
| string: "string_body 0 xs \<Longrightarrow> length xs \<le> MAX_LENGTH_OF_JSON_STRING_VALUES \<Longrightarrow>
    json_text ops d (JsonString (kept 0 xs)) (34 # xs @ [34])"
| number: "number_ok ds fs \<Longrightarrow> json_text ops d (number_json ops ds fs) (number_chars ds fs)"
| array: "json_elements ops (Suc d) vs u \<Longrightarrow> d < MAX_JSON_DEPTH \<Longrightarrow>
    json_text ops d (JsonArray (Suc d) vs) (letter CHR ''['' # u)"
| object: "json_members ops (Suc d) ks vs u \<Longrightarrow> d < MAX_JSON_DEPTH \<Longrightarrow>
    json_text ops d (JsonObject (Suc d) ks vs) (letter CHR ''{'' # u)"
| no_element: "spaces g \<Longrightarrow> json_elements ops d [] (g @ bytes '']'')"
| last_element: "spaces g \<Longrightarrow> json_text ops d v t \<Longrightarrow> closes v h (letter CHR '']'') \<Longrightarrow>
    json_elements ops d [v] (g @ t @ h @ bytes '']'')"
| more_elements: "spaces g \<Longrightarrow> json_text ops d v t \<Longrightarrow> closes v h (letter CHR '','') \<Longrightarrow>
    json_elements ops d vs u \<Longrightarrow> json_elements ops d (v # vs) (g @ t @ h @ letter CHR '','' # u)"
| no_member: "spaces g \<Longrightarrow> length g + 2 \<le> 65536 \<Longrightarrow> json_members ops d [] [] (g @ bytes ''}'')"
| last_member: "key_ok g0 k g1 \<Longrightarrow> spaces g \<Longrightarrow> json_text ops d v t \<Longrightarrow> closes v h (letter CHR ''}'') \<Longrightarrow>
    json_members ops d [k] [v] (g0 @ 34 # k @ 34 # g1 @ letter CHR '':'' # g @ t @ h @ bytes ''}'')"
| more_members: "key_ok g0 k g1 \<Longrightarrow> spaces g \<Longrightarrow> json_text ops d v t \<Longrightarrow> closes v h (letter CHR '','') \<Longrightarrow>
    json_members ops d ks vs u \<Longrightarrow>
    json_members ops d (k # ks) (v # vs) (g0 @ 34 # k @ 34 # g1 @ letter CHR '':'' # g @ t @ h @ letter CHR '','' # u)"

section \<open>What the parser makes of a text\<close>

definition token_of :: "'d double_ops \<Rightarrow> 'd json_nested \<Rightarrow> 'd json \<Rightarrow> byte list \<Rightarrow> bool" where
  "token_of ops nest v t \<longleftrightarrow> (\<exists>c u. t = c # u \<and> c \<notin> set value_end \<and>
     (\<forall>vs rest. (json_number v \<longrightarrow> rest \<noteq> [] \<and> hd rest \<in> set number_end) \<longrightarrow>
       takes (value_step ops nest c False vs) (Inr (True, vs @ [v])) (t @ rest) rest))"

lemma value_loop_eq:
  "value_loop ops nest parsed vs = bindF peekF (\<lambda>c.
     if c \<in> set value_end then liftF (Inr vs)
     else bindF (value_step ops nest c parsed vs) (\<lambda>x. value_loop ops nest (fst x) (snd x)))"
  by (rule ext) (rule value_loop.simps)

lemma value_loop_end: "e \<in> set value_end \<Longrightarrow> takes (value_loop ops nest p vs) (Inr vs) (e # rest) (e # rest)"
  by (subst value_loop_eq, rule takes_bind [OF takes_peek]) (simp add: takes_lift)

lemma step_space: "is_whitespace c \<Longrightarrow> takes (value_step ops nest c p vs) (Inr (p, vs)) (c # rest) rest"
  using space_facts [of c]
  by (auto simp: value_step_def Let_def intro!: takes_bind [OF takes_get] takes_lift)

lemma value_loop_spaces:
  "spaces g \<Longrightarrow> takes (value_loop ops nest p vs) r xs ys \<Longrightarrow> takes (value_loop ops nest p vs) r (g @ xs) ys"
proof (induction g)
  case (Cons c g)
  then have c: "is_whitespace c" "takes (value_loop ops nest p vs) r (g @ xs) ys" by auto
  then have "takes (bindF (value_step ops nest c p vs) (\<lambda>x. value_loop ops nest (fst x) (snd x))) r (c # g @ xs) ys"
    by (intro takes_bind [OF step_space]) simp_all
  then show ?case unfolding value_loop_eq [of ops nest p vs] append_Cons
    by (intro takes_bind [OF takes_peek]) (use c(1) space_facts [of c] in simp)
qed simp

lemma takes_value:
  assumes "token_of ops nest v t" "spaces g" "closes v h e" "e \<in> set value_end"
  shows "takes (parseValue ops nest vs) (Inr (vs @ [v])) (g @ t @ h @ e # rest) (e # rest)"
proof -
  obtain c u where t: "t = c # u" "c \<notin> set value_end" and
    step: "takes (value_step ops nest c False vs) (Inr (True, vs @ [v])) (t @ h @ e # rest) (h @ e # rest)"
    using assms(1,3) unfolding token_of_def by (cases h) auto
  have "takes (value_loop ops nest True (vs @ [v])) (Inr (vs @ [v])) (h @ e # rest) (e # rest)"
    using assms(3,4) by (intro value_loop_spaces value_loop_end) simp_all
  then have "takes (bindF (value_step ops nest c False vs) (\<lambda>x. value_loop ops nest (fst x) (snd x)))
      (Inr (vs @ [v])) (t @ h @ e # rest) (e # rest)"
    by (intro takes_bind [OF step]) simp
  then have "takes (value_loop ops nest False vs) (Inr (vs @ [v])) (t @ h @ e # rest) (e # rest)"
    unfolding value_loop_eq [of ops nest False vs] t(1) append_Cons
    by (intro takes_bind [OF takes_peek]) (use t(2) in simp)
  then show ?thesis unfolding parseValue_def by (rule value_loop_spaces [OF assms(2)])
qed

lemma takes_no_value:
  assumes "spaces g" "e \<in> set value_end"
  shows "takes (parseValue ops nest vs) (Inr vs) (g @ e # rest) (e # rest)"
  unfolding parseValue_def by (rule value_loop_spaces [OF assms(1) value_loop_end [OF assms(2)]])

text \<open>The loops of arrays and objects, from a bracket or a comma.\<close>

definition elements_of :: "'d double_ops \<Rightarrow> 'd json_nested \<Rightarrow> 'd json list \<Rightarrow> byte list \<Rightarrow> bool" where
  "elements_of ops nest vs u \<longleftrightarrow> (\<forall>c ws rest. c = letter CHR ''['' \<or> c = letter CHR '','' \<longrightarrow>
     takes (array_loop ops nest c ws) (Inr (ws @ vs)) (u @ rest) rest)"

definition members_of :: "'d double_ops \<Rightarrow> 'd json_nested \<Rightarrow> byte list list \<Rightarrow> 'd json list \<Rightarrow> byte list \<Rightarrow> bool"
where
  "members_of ops nest ks vs u \<longleftrightarrow> (\<forall>c js ws rest. c = letter CHR ''{'' \<or> c = letter CHR '','' \<longrightarrow>
     takes (object_loop ops nest c js ws) (Inr (js @ ks, ws @ vs)) (u @ rest) rest)"

lemma elements_ofD:
  "elements_of ops nest vs u \<Longrightarrow> c = letter CHR ''['' \<or> c = letter CHR '','' \<Longrightarrow>
   takes (array_loop ops nest c ws) (Inr (ws @ vs)) (u @ rest) rest"
  unfolding elements_of_def by blast

lemma members_ofD:
  "members_of ops nest ks vs u \<Longrightarrow> c = letter CHR ''{'' \<or> c = letter CHR '','' \<Longrightarrow>
   takes (object_loop ops nest c js ws) (Inr (js @ ks, ws @ vs)) (u @ rest) rest"
  unfolding members_of_def by blast

lemma array_loop_eq:
  "array_loop ops nest c vs =
     (if c \<noteq> letter CHR '']''
      then bindF (if c = letter CHR ''['' \<or> c = letter CHR '','' then parseValue ops nest vs
                  else liftF (Inr vs)) (\<lambda>vs'.
           bindF getF (\<lambda>c'. array_loop ops nest c' vs'))
      else liftF (Inr vs))"
  by (rule ext) (simp add: array_loop.simps [of ops nest c])

lemma array_turn:
  assumes "takes (parseValue ops nest ws) (Inr vs) xs (e # ys)" "takes (array_loop ops nest e vs) r ys zs"
    and "c = letter CHR ''['' \<or> c = letter CHR '',''"
  shows "takes (array_loop ops nest c ws) r xs zs"
  unfolding array_loop_eq [of ops nest c]
  using assms(3) takes_bind [OF assms(1), of "\<lambda>vs'. bindF getF (\<lambda>c'. array_loop ops nest c' vs')" r zs]
    takes_bind [OF takes_get, of "\<lambda>c'. array_loop ops nest c' vs" e r ys zs, OF assms(2)]
  by auto

lemma array_done: "takes (array_loop ops nest (letter CHR '']'') vs) (Inr vs) xs xs"
  by (simp add: array_loop_eq takes_lift)

lemma object_loop_eq:
  "c = letter CHR ''{'' \<or> c = letter CHR '','' \<Longrightarrow> object_loop ops nest c ks vs =
     bindF parseKey (\<lambda>k.
       if k = None then liftF (Inr (ks, vs))
       else bindF (parseValue ops nest vs) (\<lambda>vs'.
            bindF getF (\<lambda>c'. object_loop ops nest c' (ks @ [the k]) vs')))"
  by (rule ext) (auto simp: object_loop.simps [of ops nest c])

lemma object_turn:
  assumes "takes parseKey (Inr (Some k)) xs ys"
    and "takes (parseValue ops nest ws) (Inr vs) ys (e # us)"
    and "takes (object_loop ops nest e (js @ [k]) vs) r us zs"
    and "c = letter CHR ''{'' \<or> c = letter CHR '',''"
  shows "takes (object_loop ops nest c js ws) r xs zs"
proof -
  have "takes (bindF (parseValue ops nest ws) (\<lambda>vs'. bindF getF (\<lambda>c'. object_loop ops nest c' (js @ [k]) vs')))
      r ys zs"
    by (rule takes_bind [OF assms(2)], rule takes_bind [OF takes_get], rule assms(3))
  then show ?thesis unfolding object_loop_eq [OF assms(4)]
    by (intro takes_bind [OF assms(1)]) simp
qed

lemma object_done: "takes (object_loop ops nest (letter CHR ''}'') ks vs) (Inr (ks, vs)) xs xs"
proof -
  have "object_loop ops nest (letter CHR ''}'') ks vs = liftF (Inr (ks, vs))"
    by (rule ext) (simp add: object_loop.simps)
  then show ?thesis by (simp add: takes_lift)
qed

lemma takes_nested_array:
  assumes "elements_of ops nest vs u" "depth \<le> MAX_JSON_DEPTH"
  shows "takes (parseNestedArray ops nest depth) (Inr (JsonArray depth vs)) (letter CHR ''['' # u @ rest) rest"
proof -
  have "takes (array_loop ops nest (letter CHR ''['') []) (Inr vs) (u @ rest) rest"
    using elements_ofD [OF assms(1), of "letter CHR ''[''" "[]"] by simp
  then have "takes (parseArray ops nest) (Inr vs) (letter CHR ''['' # u @ rest) rest"
    unfolding parseArray_def by (intro takes_bind [OF takes_get])
  then show ?thesis
    unfolding parseNestedArray_def JsonArray_new_def
    using assms(2) by (auto intro!: takes_bind [OF takes_lift] takes_bind takes_lift)
qed

lemma takes_nested_object:
  assumes "members_of ops nest ks vs u" "depth \<le> MAX_JSON_DEPTH"
  shows "takes (parseNestedObject ops nest depth) (Inr (JsonObject depth ks vs)) (letter CHR ''{'' # u @ rest) rest"
proof -
  have "takes (object_loop ops nest (letter CHR ''{'') [] []) (Inr (ks, vs)) (u @ rest) rest"
    using members_ofD [OF assms(1), of "letter CHR ''{''" "[]" "[]"] by simp
  then have "takes (parseObject ops nest) (Inr (ks, vs)) (letter CHR ''{'' # u @ rest) rest"
    unfolding parseObject_def by (intro takes_bind [OF takes_get])
  then show ?thesis
    unfolding parseNestedObject_def JsonObject_new_def
    using assms(2) by (auto intro!: takes_bind [OF takes_lift] takes_bind takes_lift)
qed

lemma nested_below:
  "d < MAX_JSON_DEPTH \<Longrightarrow> nested_array (nested ops d) = parseNestedArray ops (nested ops (Suc d)) (Suc d)"
  "d < MAX_JSON_DEPTH \<Longrightarrow> nested_object (nested ops d) = parseNestedObject ops (nested ops (Suc d)) (Suc d)"
  by (simp_all add: nested.simps [of ops d] Let_def)

lemma token_ofI:
  assumes "t = c # u" "c \<notin> set value_end"
    and "\<And>rest. (json_number v \<Longrightarrow> rest \<noteq> [] \<and> hd rest \<in> set number_end) \<Longrightarrow> takes p (Inr v) (t @ rest) rest"
    and "\<And>vs s. value_step ops nest c False vs = bindF p (\<lambda>v. liftF (Inr (True, vs @ [v])))"
  shows "token_of ops nest v t"
  unfolding token_of_def
  by (intro exI [of _ c] exI [of _ u] conjI allI impI assms(1,2), subst assms(4),
      rule takes_bind [OF assms(3) takes_lift]) blast

lemma text_runs:
  "json_text ops d v t \<Longrightarrow> d \<le> MAX_JSON_DEPTH \<Longrightarrow> token_of ops (nested ops d) v t"
  "json_elements ops d vs u \<Longrightarrow> d \<le> MAX_JSON_DEPTH \<Longrightarrow> elements_of ops (nested ops d) vs u"
  "json_members ops d ks vs u \<Longrightarrow> d \<le> MAX_JSON_DEPTH \<Longrightarrow> members_of ops (nested ops d) ks vs u"
proof (induction rule: json_text_json_elements_json_members.inducts)
  case (null d)
  then show ?case
    by (intro token_ofI [where c = "letter CHR ''n''" and u = "bytes ''ull''"
          and p = "parseImmediate (bytes ''null'') JsonValue", OF _ _ takes_immediate])
      (simp_all add: value_end_def value_step_def isDigit_def)
next
  case (true d)
  then show ?case
    by (intro token_ofI [where c = "letter CHR ''t''" and u = "bytes ''rue''"
          and p = "parseImmediate (bytes ''true'') (JsonBoolean True)", OF _ _ takes_immediate])
      (simp_all add: value_end_def value_step_def isDigit_def)
next
  case (false d)
  then show ?case
    by (intro token_ofI [where c = "letter CHR ''f''" and u = "bytes ''alse''"
          and p = "parseImmediate (bytes ''false'') (JsonBoolean False)", OF _ _ takes_immediate])
      (simp_all add: value_end_def value_step_def isDigit_def)
next
  case (string xs d)
  then show ?case
    by (intro token_ofI [where c = 34 and u = "xs @ [34]" and p = parseString])
      (simp_all add: value_end_def value_step_def takes_string)
next
  case (number ds fs d)
  obtain c u where c: "number_chars ds fs = c # u" "isDigit c"
    using number by (cases ds) (auto simp: number_ok_def number_chars_def)
  show ?case
  proof (rule token_ofI [where p = "parseNumber ops", OF c(1)])
    show "c \<notin> set value_end" using c(2) by (auto simp: value_end_def isDigit_def)
    show "takes (parseNumber ops) (Inr (number_json ops ds fs)) (number_chars ds fs @ rest) rest"
      if "json_number (number_json ops ds fs) \<Longrightarrow> rest \<noteq> [] \<and> hd rest \<in> set number_end" for rest
      using that takes_number [OF number(1), of "hd rest" ops "tl rest"]
      by (cases fs) (auto simp: number_json_def Let_def)
    show "value_step ops (nested ops d) c False vs = bindF (parseNumber ops) (\<lambda>v. liftF (Inr (True, vs @ [v])))" for vs
      using c(2) by (auto simp: value_step_def isDigit_def)
  qed
next
  case (array d vs u)
  then show ?case
    by (intro token_ofI [where c = "letter CHR ''[''" and u = u
          and p = "parseNestedArray ops (nested ops (Suc d)) (Suc d)"])
      (simp_all add: value_end_def value_step_def isDigit_def nested_below takes_nested_array [simplified])
next
  case (object d ks vs u)
  let ?p = "bindF peekF (\<lambda>c'. if c' = letter CHR ''{'' then parseNestedObject ops (nested ops (Suc d)) (Suc d)
    else liftF (Inl Undefined))"
  have m: "members_of ops (nested ops (Suc d)) ks vs u" and d: "d < MAX_JSON_DEPTH" using object by simp_all
  show ?case unfolding token_of_def
  proof (intro exI conjI allI impI)
    show "letter CHR ''{'' # u = letter CHR ''{'' # u" "letter CHR ''{'' \<notin> set value_end"
      by (simp_all add: value_end_def)
    fix ws rest
    have "takes (bindF (parseNestedObject ops (nested ops (Suc d)) (Suc d)) (\<lambda>v. liftF (Inr (True, ws @ [v]))))
        (Inr (True, ws @ [JsonObject (Suc d) ks vs])) (letter CHR ''{'' # u @ rest) rest"
      using d by (intro takes_bind [OF takes_nested_object [OF m]] takes_lift) simp
    then have "takes (bindF peekF (\<lambda>c'. if c' = letter CHR ''{''
        then bindF (parseNestedObject ops (nested ops (Suc d)) (Suc d)) (\<lambda>v. liftF (Inr (True, ws @ [v])))
        else liftF (Inr (True, ws))))
        (Inr (True, ws @ [JsonObject (Suc d) ks vs])) (letter CHR ''{'' # u @ rest) rest"
      by (intro takes_bind [OF takes_peek]) simp
    then show "takes (value_step ops (nested ops d) (letter CHR ''{'') False ws)
        (Inr (True, ws @ [JsonObject (Suc d) ks vs])) ((letter CHR ''{'' # u) @ rest) rest"
      by (simp add: value_step_def isDigit_def nested_below(2) [OF d] cong: if_cong)
  qed
next
  case (no_element g d)
  have "takes (array_loop ops (nested ops d) c ws) (Inr ws) (g @ letter CHR '']'' # rest) rest"
    if "c = letter CHR ''['' \<or> c = letter CHR '',''" for c ws rest
    by (rule array_turn [OF takes_no_value array_done that])
      (use no_element in \<open>simp_all add: value_end_def\<close>)
  then show ?case unfolding elements_of_def by simp
next
  case (last_element g d v t h)
  have "takes (array_loop ops (nested ops d) c ws) (Inr (ws @ [v])) (g @ t @ h @ letter CHR '']'' # rest) rest"
    if "c = letter CHR ''['' \<or> c = letter CHR '',''" for c ws rest
    by (rule array_turn [OF takes_value array_done that])
      (use last_element in \<open>simp_all add: value_end_def\<close>)
  then show ?case unfolding elements_of_def by simp
next
  case (more_elements g d v t h vs u)
  have e: "takes (array_loop ops (nested ops d) (letter CHR '','') (ws @ [v])) (Inr (ws @ v # vs)) (u @ rest) rest"
    for ws rest
    using elements_ofD [of ops "nested ops d" vs u "letter CHR '',''" "ws @ [v]" rest] more_elements by simp
  have "takes (array_loop ops (nested ops d) c ws) (Inr (ws @ v # vs)) (g @ t @ h @ letter CHR '','' # u @ rest) rest"
    if "c = letter CHR ''['' \<or> c = letter CHR '',''" for c ws rest
    by (rule array_turn [OF takes_value e that])
      (use more_elements in \<open>simp_all add: value_end_def\<close>)
  then show ?case unfolding elements_of_def by simp
next
  case (no_member g d)
  have "takes (object_loop ops (nested ops d) c js ws) (Inr (js, ws)) (g @ 125 # rest) rest"
    if "c = letter CHR ''{'' \<or> c = letter CHR '',''" for c js ws rest
    unfolding object_loop_eq [OF that]
    by (rule takes_bind [OF takes_key_end]) (use no_member in \<open>simp_all add: takes_lift\<close>)
  then show ?case unfolding members_of_def by simp
next
  case (last_member g0 k g1 g d v t h)
  have "takes (object_loop ops (nested ops d) c js ws) (Inr (js @ [k], ws @ [v]))
      (g0 @ 34 # k @ 34 # g1 @ 58 # g @ t @ h @ letter CHR ''}'' # rest) rest"
    if "c = letter CHR ''{'' \<or> c = letter CHR '',''" for c js ws rest
    by (rule object_turn [OF takes_key takes_value object_done that])
      (use last_member in \<open>auto simp: value_end_def key_ok_def\<close>)
  then show ?case unfolding members_of_def by simp
next
  case (more_members g0 k g1 g d v t h ks vs u)
  have e: "takes (object_loop ops (nested ops d) (letter CHR '','') (js @ [k]) (ws @ [v]))
      (Inr (js @ k # ks, ws @ v # vs)) (u @ rest) rest"
    for js ws rest
    using members_ofD [of ops "nested ops d" ks vs u "letter CHR '',''" "js @ [k]" "ws @ [v]" rest] more_members
    by simp
  have "takes (object_loop ops (nested ops d) c js ws) (Inr (js @ k # ks, ws @ v # vs))
      (g0 @ 34 # k @ 34 # g1 @ 58 # g @ t @ h @ letter CHR '','' # u @ rest) rest"
    if "c = letter CHR ''{'' \<or> c = letter CHR '',''" for c js ws rest
    by (rule object_turn [OF takes_key takes_value e that])
      (use more_members in \<open>auto simp: value_end_def key_ok_def\<close>)
  then show ?case unfolding members_of_def by simp
qed

section \<open>Documents\<close>

inductive json_document :: "'d double_ops \<Rightarrow> 'd json \<Rightarrow> byte list \<Rightarrow> bool" for ops :: "'d double_ops" where
  array_document: "spaces g \<Longrightarrow> json_elements ops 0 vs u \<Longrightarrow>
    json_document ops (JsonArray 0 vs) (g @ letter CHR ''['' # u)"
| object_document: "spaces g \<Longrightarrow> json_members ops 0 ks vs u \<Longrightarrow>
    json_document ops (JsonObject 0 ks vs) (g @ letter CHR ''{'' # u)"

lemma white_loop_spaces:
  "spaces g \<Longrightarrow> is_whitespace c \<Longrightarrow> \<not> is_whitespace u \<Longrightarrow>
   takes (white_loop c) (Inr u) (c # g @ u # rest) (u # rest)"
proof (induction g arbitrary: c)
  case Nil
  have e: "white_loop c = bindF getF (\<lambda>_. bindF peekF white_loop)" "white_loop u = liftF (Inr u)"
    using Nil by (auto simp: white_loop.simps fun_eq_iff)
  show ?case unfolding e(1) append_Nil
    by (intro takes_bind [OF takes_get] takes_bind [OF takes_peek]) (simp add: e(2) takes_lift)
next
  case (Cons x g)
  have e: "white_loop c = bindF getF (\<lambda>_. bindF peekF white_loop)"
    using Cons.prems by (auto simp: white_loop.simps fun_eq_iff)
  show ?case unfolding e append_Cons
    by (intro takes_bind [OF takes_get] takes_bind [OF takes_peek] Cons.IH) (use Cons.prems in simp_all)
qed

lemma takes_white:
  assumes "spaces g" "u \<in> set until" "\<not> is_whitespace u" "\<forall>c \<in> set until. \<not> is_whitespace c"
  shows "takes (readWhiteSpaceUntil until) (Inr ()) (g @ u # rest) (u # rest)"
proof (cases g)
  case Nil
  show ?thesis unfolding readWhiteSpaceUntil_def Nil append_Nil
    by (rule takes_bind [OF takes_peek]) (use assms(2) in \<open>simp add: takes_lift\<close>)
next
  case (Cons c g')
  then have c: "c \<notin> set until" "is_whitespace c" "spaces g'" using assms by auto
  have "takes (bindF (white_loop c) (\<lambda>c1. if c1 \<notin> set until then throwF ''Only allow whitespace between tokens...''
      else liftF (Inr ()))) (Inr ()) (c # g' @ u # rest) (u # rest)"
    by (rule takes_bind [OF white_loop_spaces [OF c(3,2) assms(3)]]) (use assms(2) in \<open>simp add: takes_lift\<close>)
  then show ?thesis unfolding readWhiteSpaceUntil_def Cons append_Cons
    by (intro takes_bind [OF takes_peek]) (use c(1) in simp)
qed

lemma takes_parse:
  assumes "spaces g" "u = letter CHR ''{'' \<or> u = letter CHR ''[''"
    and "takes (if u = letter CHR ''{'' then parseNestedObject ops (nested ops 0) 0 else parseNestedArray ops (nested ops 0) 0)
      r (u # xs) ys"
  shows "takes (parse ops) r (g @ u # xs) ys"
proof -
  have w: "takes (readWhiteSpaceUntil (bytes ''{['')) (Inr ()) (g @ u # xs) (u # xs)"
    using assms(1,2) by (intro takes_white) (auto simp: is_whitespace_def STRING_UTILS_WHITESPACE_def)
  show ?thesis unfolding parse_def
    by (rule takes_bind [OF w], rule takes_bind [OF takes_peek]) (use assms(2,3) in auto)
qed

lemma document_taken: "json_document ops v t \<Longrightarrow> takes (parse ops) (Inr v) (t @ rest) rest"
proof (induction rule: json_document.induct)
  case (array_document g vs u)
  have "takes (parse ops) (Inr (JsonArray 0 vs)) (g @ letter CHR ''['' # u @ rest) rest"
    using takes_nested_array [OF text_runs(2) [OF array_document(2)], of 0 rest] array_document(1)
    by (intro takes_parse) simp_all
  then show ?case by simp
next
  case (object_document g ks vs u)
  have "takes (parse ops) (Inr (JsonObject 0 ks vs)) (g @ letter CHR ''{'' # u @ rest) rest"
    using takes_nested_object [OF text_runs(3) [OF object_document(2)], of 0 rest] object_document(1)
    by (intro takes_parse) simp_all
  then show ?case by simp
qed

section \<open>Numbers that are refused\<close>

lemma value_loop_token:
  assumes "c \<notin> set value_end" "takes (value_step ops nest c False vs) (Inl e) (c # xs) ys"
  shows "takes (parseValue ops nest vs) (Inl e) (c # xs) ys"
  unfolding parseValue_def value_loop_eq [of ops nest False vs]
  by (rule takes_bind [OF takes_peek]) (use assms in \<open>auto intro: takes_bind_error\<close>)

lemma JsonArray_new_0: "JsonArray_new 0 = Inr (JsonArray 0 [])"
  by (simp add: JsonArray_new_def)

lemma JsonObject_new_0: "JsonObject_new 0 = Inr (JsonObject 0 [] [])"
  by (simp add: JsonObject_new_def)

lemma array_value_error:
  assumes "takes (parseValue ops (nested ops 0) []) (Inl e) xs ys" "spaces g"
  shows "takes (parse ops) (Inl e) (g @ letter CHR ''['' # xs) ys"
proof -
  have "takes (array_loop ops (nested ops 0) (letter CHR ''['') []) (Inl e) xs ys"
    unfolding array_loop_eq [of ops "nested ops 0" "letter CHR ''[''"]
    using assms(1) by (auto intro: takes_bind_error)
  then have "takes (parseArray ops (nested ops 0)) (Inl e) (letter CHR ''['' # xs) ys"
    unfolding parseArray_def by (intro takes_bind [OF takes_get])
  then have "takes (parseNestedArray ops (nested ops 0) 0) (Inl e) (letter CHR ''['' # xs) ys"
    unfolding parseNestedArray_def JsonArray_new_0
    by (intro takes_bind [OF takes_lift] takes_bind_error)
  then show ?thesis using assms(2) by (intro takes_parse) simp_all
qed

lemma digit_not_minus: "isDigit c \<Longrightarrow> c \<noteq> letter CHR ''-''"
  by (auto simp: isDigit_def)

lemma step_number:
  "isDigit c \<or> c = letter CHR ''-'' \<Longrightarrow>
   value_step ops nest c False vs = bindF (parseNumber ops) (\<lambda>v. liftF (Inr (True, vs @ [v])))"
  by (auto simp: value_step_def isDigit_def)

lemma number_minus: "takes (parseNumber ops) (Inl (Runtime_Error ''Invalid number.'')) (letter CHR ''-'' # xs) (letter CHR ''-'' # xs)"
  unfolding parseNumber_def Let_def
  by (intro takes_bind [OF takes_peek] takes_bind_error) (simp add: isDigit_def takes_throw)

lemma decimal_whole:
  assumes "ds \<noteq> []" "digits ds" "length ds \<le> 10" "\<not> isDigit y" "y \<noteq> letter CHR ''.''"
  shows "takes (readDecimal ops [] True) (Inr (dbl_of_nat ops (decimal 0 ds), length ds, 0)) (ds @ y # ys) (y # ys)"
  using assms(5) unfolding readDecimal_def
  by (auto intro!: takes_bind [OF takes_natural [OF assms(2-4)]] takes_bind [OF takes_peek] takes_bind [OF takes_lift]
      takes_lift simp: consume_until_def)

lemma number_run_start:
  assumes "ds \<noteq> []" "digits ds" "length ds \<le> 10" "\<not> isDigit y" "y \<noteq> letter CHR ''.''"
    and "takes (bindF (if y = letter CHR ''e'' \<or> y = letter CHR ''E'' then parse_exponent ops
            else if y \<notin> set number_end then throwF ''Invalid number.''
            else liftF (Inr (0, dbl_of_int ops 1)))
       (\<lambda>(exponential_sign, exponential_multiplier).
         let scaled = (if exponential_sign = -1 then dbl_div ops (dbl_of_nat ops (decimal 0 ds)) exponential_multiplier
                       else if exponential_sign = 1 then dbl_mul ops (dbl_of_nat ops (decimal 0 ds)) exponential_multiplier
                       else dbl_of_nat ops (decimal 0 ds))
         in liftF (Inr (JsonNumber (dbl_mul ops scaled (dbl_of_int ops 1)) (length ds) 0)))) r (y # ys) zs"
  shows "takes (parseNumber ops) r (ds @ y # ys) zs"
proof -
  obtain c cs where c: "ds @ y # ys = c # cs" "isDigit c"
    using assms(1,2) by (cases ds) auto
  have dec: "takes (if isDigit c then readDecimal ops [] True else throwF ''Invalid number.'')
      (Inr (dbl_of_nat ops (decimal 0 ds), length ds, 0)) (c # cs) (y # ys)"
    using decimal_whole [OF assms(1-5), of ops ys] c by simp
  show ?thesis unfolding parseNumber_def c(1) Let_def
    using digit_not_minus [OF c(2)] assms(6) by (auto intro!: takes_bind [OF takes_peek] takes_bind [OF dec] simp: Let_def)
qed

text \<open>What is thrown for a character behind a value.\<close>

definition right_of_value :: "byte \<Rightarrow> exn" where
  "right_of_value c = Runtime_Error (''Found non-whitespace char right of value token. '' @ quoted [c])"

lemma natural_none: "\<not> isDigit y \<Longrightarrow> takes naturalF (Inr 0) (y # ys) (y # ys)"
  using takes_natural [of "[]" y ys] unfolding takes_def
  by (fastforce simp: naturalF_def natural_countF_def decimal_def)

lemma exponent_none:
  assumes "y = letter CHR ''e'' \<or> y = letter CHR ''E''"
  shows "takes (parse_exponent ops) (Inr (0, dbl_of_int ops 1)) (y # ys) (y # ys)"
proof -
  have "\<not> isDigit y" "y \<noteq> letter CHR ''-''" "y \<noteq> letter CHR ''+''" using assms by (auto simp: isDigit_def)
  then show ?thesis unfolding parse_exponent_def
    by (auto intro!: takes_bind [OF takes_peek] takes_bind [OF takes_lift] takes_bind [OF natural_none] takes_lift)
qed

lemma step_right: "\<not> is_whitespace c \<Longrightarrow>
    takes (value_step ops nest c True vs) (Inl (right_of_value c)) (c # xs) (c # xs)"
  by (simp add: value_step_def right_of_value_def takes_throw)

lemma value_exponent:
  assumes "ds \<noteq> []" "digits ds" "length ds \<le> 10" "y = letter CHR ''e'' \<or> y = letter CHR ''E''"
  shows "takes (parseValue ops nest vs) (Inl (right_of_value y)) (ds @ y # ys) (y # ys)"
proof -
  have y: "\<not> isDigit y" "y \<noteq> letter CHR ''.''" "y \<notin> set value_end" "\<not> is_whitespace y"
    using assms(4) by (auto simp: isDigit_def value_end_def is_whitespace_def STRING_UTILS_WHITESPACE_def)
  obtain x where n: "takes (parseNumber ops) (Inr x) (ds @ y # ys) (y # ys)"
  proof -
    have "takes (parseNumber ops) (Inr (JsonNumber (dbl_mul ops (dbl_of_nat ops (decimal 0 ds)) (dbl_of_int ops 1))
        (length ds) 0)) (ds @ y # ys) (y # ys)"
      using assms(4) by (intro number_run_start [OF assms(1-3) y(1,2)])
        (auto intro!: takes_bind [OF exponent_none] takes_lift)
    then show thesis by (rule that)
  qed
  obtain c cs where c: "ds @ y # ys = c # cs" "isDigit c" using assms(1,2) by (cases ds) auto
  have "takes (value_loop ops nest True (vs @ [x])) (Inl (right_of_value y)) (y # ys) (y # ys)"
    unfolding value_loop_eq [of ops nest True]
    by (rule takes_bind [OF takes_peek]) (use y in \<open>auto intro: takes_bind_error step_right\<close>)
  moreover have "takes (value_step ops nest c False vs) (Inr (True, vs @ [x])) (c # cs) (y # ys)"
    unfolding step_number [OF disjI1 [OF c(2)]]
    by (rule takes_bind [OF n [unfolded c(1)]]) (rule takes_lift)
  ultimately have "takes (bindF (value_step ops nest c False vs) (\<lambda>x. value_loop ops nest (fst x) (snd x)))
      (Inl (right_of_value y)) (c # cs) (y # ys)"
    by (intro takes_bind [where v = "(True, vs @ [x])"]) simp_all
  then show ?thesis unfolding parseValue_def value_loop_eq [of ops nest False vs] c(1)
    by (intro takes_bind [OF takes_peek]) (use c(2) in \<open>auto simp: value_end_def isDigit_def\<close>)
qed

lemma value_bracket:
  assumes "ds \<noteq> []" "digits ds" "length ds \<le> 10"
  shows "takes (parseValue ops nest vs) (Inl (Runtime_Error ''Invalid number.''))
    (ds @ letter CHR '']'' # ys) (letter CHR '']'' # ys)"
proof -
  have n: "takes (parseNumber ops) (Inl (Runtime_Error ''Invalid number.'')) (ds @ letter CHR '']'' # ys) (letter CHR '']'' # ys)"
    by (rule number_run_start [OF assms])
      (simp_all add: isDigit_def number_end_def takes_throw takes_bind_error)
  obtain c cs where c: "ds @ letter CHR '']'' # ys = c # cs" "isDigit c" using assms(1,2) by (cases ds) auto
  have "c \<notin> set value_end" using c(2) by (auto simp: value_end_def isDigit_def)
  then show ?thesis unfolding c(1)
    by (rule value_loop_token)
      (use n c in \<open>simp add: step_number takes_bind_error\<close>)
qed

section \<open>Properties\<close>

text \<open>A concrete arithmetic for the examples: whole numbers.\<close>

definition whole_ops :: "int double_ops" where
  "whole_ops = \<lparr>dbl_of_nat = int, dbl_of_int = id, dbl_add = (+), dbl_mul = (*), dbl_div = (div)\<rparr>"

lemma example_document:
  "json_document whole_ops (JsonObject 0 [bytes ''a''] [JsonArray 1 [JsonNumber 1 1 0, JsonBoolean True]])
     (bytes '' {'' @ [34] @ bytes ''a'' @ [34] @ bytes '': [1 , true]}'')"
proof -
  have "json_text whole_ops 1 (number_json whole_ops (bytes ''1'') None) (number_chars (bytes ''1'') None)"
    by (rule json_text_json_elements_json_members.number) (simp add: number_ok_def isDigit_def)
  then have one: "json_text whole_ops 1 (JsonNumber 1 1 0) (bytes ''1'')"
    by (simp add: number_json_def number_chars_def whole_ops_def decimal_def)
  have "json_elements whole_ops 1 [JsonBoolean True] (bytes '' '' @ bytes ''true'' @ [] @ bytes '']'')"
    by (rule json_text_json_elements_json_members.last_element [OF _ json_text_json_elements_json_members.true])
      (simp_all add: is_whitespace_def STRING_UTILS_WHITESPACE_def)
  then have "json_elements whole_ops 1 [JsonNumber 1 1 0, JsonBoolean True]
      ([] @ bytes ''1'' @ bytes '' '' @ letter CHR '','' # bytes '' true]'')"
    by (intro json_text_json_elements_json_members.more_elements [OF _ one])
      (simp_all add: is_whitespace_def STRING_UTILS_WHITESPACE_def number_end_def)
  then have "json_text whole_ops 0 (JsonArray 1 [JsonNumber 1 1 0, JsonBoolean True])
      (letter CHR ''['' # bytes ''1 , true]'')"
    using json_text_json_elements_json_members.array [of whole_ops 0] by (simp add: MAX_JSON_DEPTH_def)
  then have "json_members whole_ops 0 [bytes ''a''] [JsonArray 1 [JsonNumber 1 1 0, JsonBoolean True]]
      ([] @ 34 # bytes ''a'' @ 34 # [] @ letter CHR '':'' # bytes '' '' @ (letter CHR ''['' # bytes ''1 , true]'') @ [] @ bytes ''}'')"
    by (intro json_text_json_elements_json_members.last_member)
      (simp_all add: key_ok_def MAX_LENGTH_OF_JSON_STRING_KEYS_def is_whitespace_def STRING_UTILS_WHITESPACE_def)
  from object_document [OF _ this, of "bytes '' ''"] show ?thesis
    by (simp add: is_whitespace_def STRING_UTILS_WHITESPACE_def)
qed

text \<open>
  C2. A text of the grammar is parsed to its value, however it is divided into reads, and nothing
  behind it is consumed; so it is by the overload for strings, up to its limit.
\<close>

theorem parse_documents:
  assumes "json_document ops v t" and "remaining s (t @ rest)"
  shows "(\<exists>s'. parse ops s = Some (Inr v, s') \<and> remaining s' rest) \<and>
    (length t \<le> MAX_LENGTH_OF_JSON_STRING \<longrightarrow> parse_string ops t = Some (Inr v))"
proof (intro conjI impI)
  show "\<exists>s'. parse ops s = Some (Inr v, s') \<and> remaining s' rest"
    using document_taken [OF assms(1), of rest] assms(2) unfolding takes_def by blast
  assume "length t \<le> MAX_LENGTH_OF_JSON_STRING"
  moreover have "remaining (EStream_memory t) (t @ [])" by (simp add: memory_remaining)
  then have "map_option fst (parse ops (EStream_memory t)) = Some (Inr v)"
    using document_taken [OF assms(1), of "[]"] unfolding takes_def by fastforce
  ultimately show "parse_string ops t = Some (Inr v)" by (simp add: parse_string_def parse_bytes_def)
qed

theorem parse_documents_witness:
  "parse_string whole_ops (bytes '' {'' @ [34] @ bytes ''a'' @ [34] @ bytes '': [1 , true]}'') =
     Some (Inr (JsonObject 0 [bytes ''a''] [JsonArray 1 [JsonNumber 1 1 0, JsonBoolean True]]))"
  using parse_documents [OF example_document, of "EStream_memory (bytes '' {'' @ [34] @ bytes ''a'' @ [34] @ bytes '': [1 , true]}'')" "[]"]
  by (simp add: memory_remaining MAX_LENGTH_OF_JSON_STRING_def)

text \<open>
  The numbers that are refused, as the first element of an array: a negative one, one
  directly before the closing bracket, and one with an exponent.
\<close>

theorem number_refusals:
  assumes "spaces g" and "ds \<noteq> []" and "digits ds" and "length ds \<le> 10"
    and "e = letter CHR ''e'' \<or> e = letter CHR ''E''"
  shows "(remaining s1 (g @ bytes ''[-'' @ rest) \<longrightarrow>
      (\<exists>s'. parse ops s1 = Some (Inl (Runtime_Error ''Invalid number.''), s'))) \<and>
    (remaining s2 (g @ bytes ''['' @ ds @ bytes '']'' @ rest) \<longrightarrow>
      (\<exists>s'. parse ops s2 = Some (Inl (Runtime_Error ''Invalid number.''), s'))) \<and>
    (remaining s3 (g @ bytes ''['' @ ds @ [e] @ rest) \<longrightarrow>
      (\<exists>s'. parse ops s3 = Some (Inl (right_of_value e), s')))"
proof (intro conjI impI)
  have minus: "takes (parseValue ops (nested ops 0) []) (Inl (Runtime_Error ''Invalid number.''))
      (letter CHR ''-'' # rest) (letter CHR ''-'' # rest)"
    by (rule value_loop_token)
      (simp_all add: value_end_def step_number takes_bind_error [OF number_minus [simplified]])
  show "\<exists>s'. parse ops s1 = Some (Inl (Runtime_Error ''Invalid number.''), s')"
    if "remaining s1 (g @ bytes ''[-'' @ rest)"
    using array_value_error [OF minus assms(1)] that unfolding takes_def by fastforce
  show "\<exists>s'. parse ops s2 = Some (Inl (Runtime_Error ''Invalid number.''), s')"
    if "remaining s2 (g @ bytes ''['' @ ds @ bytes '']'' @ rest)"
    using array_value_error [OF value_bracket [OF assms(2-4)] assms(1)] that unfolding takes_def by fastforce
  show "\<exists>s'. parse ops s3 = Some (Inl (right_of_value e), s')"
    if "remaining s3 (g @ bytes ''['' @ ds @ [e] @ rest)"
    using array_value_error [OF value_exponent [OF assms(2-5)] assms(1)] that unfolding takes_def by fastforce
qed

theorem number_refusals_witness:
  "\<exists>s'. parse whole_ops (EStream_memory (bytes ''[12]'')) = Some (Inl (Runtime_Error ''Invalid number.''), s')"
  using number_refusals [where g = "[]" and ds = "bytes ''12''" and e = "letter CHR ''e''" and rest = "[]"
      and ops = whole_ops and ?s2.0 = "EStream_memory (bytes ''[12]'')"]
  by (simp add: isDigit_def memory_remaining)

end
