(* ===== verification/Json_Ends.thy ===== *)
theory Json_Ends
  imports Json_Text
begin

text \<open>
  When the JSON parser ends, and the shape of what it returns. A text without objects, or without
  closing square brackets, is always parsed to an end; an object closed by a square bracket is
  not: the loop of \<open>parseObject\<close> turns for ever. The shape holds of every result, on every stream.
\<close>

section \<open>Parsers that advance\<close>

lemma advances_string_n [advancing]: "advances (readString_nF n task)"
  by (rule advances_run) (simp add: readString_nF_def readString_n_def)

lemma advances_number [advancing]: "advances (parseNumber ops)"
  unfolding parseNumber_def parse_exponent_def Let_def by (intro advancing)

lemma advances_string_loop [advancing]: "advances (string_loop c p n acc)"
proof (induction c p n acc rule: string_loop.induct)
  case (1 c p n acc)
  show ?case
  proof (cases "n < MAX_LENGTH_OF_JSON_STRING_VALUES \<and> (c \<noteq> 34 \<or> p = 92)")
    case True
    then show ?thesis unfolding string_loop.simps [of c] escaped_def
      by (simp only: if_True) (intro advancing 1 True)
  next
    case False
    then show ?thesis unfolding string_loop.simps [of c]
      by (simp only: if_False) (rule advances_lift)
  qed
qed

lemma advances_string [advancing]: "advances parseString"
  unfolding parseString_def by (intro advancing)

lemma advances_key [advancing]: "advances parseKey"
  unfolding parseKey_def Let_def by (intro advancing)

lemma advances_immediate [advancing]: "advances (parseImmediate m v)"
  unfolding advances_def
proof (intro allI impI)
  fix s xs
  assume "remaining s xs"
  then have "ok (\<lambda>_ ys. suffix ys xs) (readString_nF (length m) (Some (ReaderTaskExact m 0 True False None)) s)"
    using advances_string_n by (simp add: advances_def)
  then show "ok (\<lambda>_ ys. suffix ys xs) (parseImmediate m v s)"
    by (auto simp: ok_def parseImmediate_def split: exn.splits sum.splits)
qed

section \<open>The loops\<close>

text \<open>
  \<open>calm xs\<close>: there are no objects, or nothing that closes one wrongly. The parsers for nested
  values are called at an opening bracket.
\<close>

definition calm :: "byte list \<Rightarrow> bool" where
  "calm xs \<longleftrightarrow> letter CHR ''{'' \<notin> set xs \<or> letter CHR '']'' \<notin> set xs"

definition nested_end :: "'d json_nested \<Rightarrow> bool" where
  "nested_end nest \<longleftrightarrow>
     (\<forall>s xs. remaining s xs \<longrightarrow> calm xs \<longrightarrow> ok (\<lambda>_ ys. suffix ys xs) (nested_array nest s)) \<and>
     (\<forall>s xs. remaining s (letter CHR ''{'' # xs) \<longrightarrow> letter CHR '']'' \<notin> set xs \<longrightarrow>
        ok (\<lambda>_ ys. suffix ys xs) (nested_object nest s))"

lemma calm_suffix: "suffix ys xs \<Longrightarrow> calm xs \<Longrightarrow> calm ys"
  using set_mono_suffix [of ys xs] by (auto simp: calm_def)

lemma ok_if: "(b \<Longrightarrow> ok P (p s)) \<Longrightarrow> (\<not> b \<Longrightarrow> ok P (q s)) \<Longrightarrow> ok P ((if b then p else q) s)"
  by simp

lemma step_ends:
  assumes r: "remaining s (c # xs)" and "calm (c # xs)" "nested_end nest"
  shows "ok (\<lambda>x ys. suffix ys (c # xs) \<and> (parsed \<longrightarrow> fst x) \<and> (fst x = parsed \<longrightarrow> suffix ys xs))
    (value_step ops nest c parsed vs s)"
proof -
  let ?P = "\<lambda>x ys. suffix ys (c # xs) \<and> (parsed \<longrightarrow> fst x) \<and> (fst x = parsed \<longrightarrow> suffix ys xs)"
  have token: "ok ?P (bindF p (\<lambda>v. liftF (Inr (True, vs @ [v]))) s)"
    if "ok (\<lambda>_ ys. suffix ys (c # xs)) (p s)" "\<not> parsed" for p :: "'a json parser"
    using that(1) by (rule ok_bind) (use that(2) in \<open>auto intro: ok_lift\<close>)
  have space: "ok ?P (bindF getF (\<lambda>_. liftF (Inr (parsed, vs))) s)"
    by (rule ok_get [OF r]) (auto intro!: ok_lift simp: suffix_Cons)
  have array: "ok (\<lambda>_ ys. suffix ys (c # xs)) (nested_array nest s)"
    using assms unfolding nested_end_def by blast
  have object: "ok ?P (bindF peekF (\<lambda>c'. if c' = letter CHR ''{'' then bindF (nested_object nest)
      (\<lambda>v. liftF (Inr (True, vs @ [v]))) else liftF (Inr (True, vs))) s)"
    if c: "c = letter CHR ''{''" "\<not> parsed"
  proof (rule ok_peek [OF r])
    fix c' ys s'
    assume "c # xs = c' # ys" "remaining s' (c # xs)"
    moreover have "letter CHR '']'' \<notin> set xs" using assms(2) c(1) by (auto simp: calm_def)
    ultimately have "ok (\<lambda>_ zs. suffix zs (c # xs)) (nested_object nest s')"
      using assms(3) c(1) unfolding nested_end_def by (blast intro: ok_weaken suffix_ConsI)
    then have "ok ?P (bindF (nested_object nest) (\<lambda>v. liftF (Inr (True, vs @ [v]))) s')"
      by (rule ok_bind) (use c(2) in \<open>auto intro: ok_lift\<close>)
    then show "ok ?P ((if c' = letter CHR ''{'' then bindF (nested_object nest)
      (\<lambda>v. liftF (Inr (True, vs @ [v]))) else liftF (Inr (True, vs))) s')"
      using c(1) \<open>c # xs = c' # ys\<close> by simp
  qed
  note leaf = advancesD [OF advances_string r] advancesD [OF advances_number r]
    advancesD [OF advances_immediate r]
  show ?thesis
  proof (cases parsed)
    case True
    show ?thesis unfolding value_step_def Let_def
      by (intro ok_if) (use True space in simp_all)
  next
    case False
    show ?thesis unfolding value_step_def Let_def
      by (intro ok_if token leaf array object False ok_throw; (simp only: False)?)
        (use False space in simp_all)
  qed
qed

lemma value_ends:
  fixes nest :: "'d json_nested"
  assumes "remaining s xs" "calm xs" "nested_end nest"
  shows "ok (\<lambda>_ ys. suffix ys xs \<and> ys \<noteq> [] \<and> hd ys \<in> set value_end) (value_loop ops nest parsed vs s)"
  using assms(1,2)
proof (induction "2 * length xs + (if parsed then 0 else 1)" arbitrary: xs s parsed vs rule: less_induct)
  case less
  show ?case unfolding value_loop_eq [of ops nest parsed vs]
  proof (rule ok_peek [OF less.prems(1)])
    fix c ys s'
    assume c: "xs = c # ys" and r: "remaining s' xs"
    show "ok (\<lambda>_ ys. suffix ys xs \<and> ys \<noteq> [] \<and> hd ys \<in> set value_end)
      ((if c \<in> set value_end then liftF (Inr vs)
        else bindF (value_step ops nest c parsed vs) (\<lambda>x. value_loop ops nest (fst x) (snd x))) s')"
    proof (cases "c \<in> set value_end")
      case True
      then show ?thesis using r c by (auto intro: ok_lift)
    next
      case False
      have "ok (\<lambda>_ ys. suffix ys xs \<and> ys \<noteq> [] \<and> hd ys \<in> set value_end)
          (bindF (value_step ops nest c parsed vs) (\<lambda>x. value_loop ops nest (fst x) (snd x)) s')"
      proof (rule ok_bind [OF step_ends])
        show "remaining s' (c # ys)" "calm (c # ys)" "nested_end nest" using r c less.prems(2) assms(3) by simp_all
        fix x :: "bool \<times> 'd json list" and t zs
        assume t: "remaining t zs" and z: "suffix zs (c # ys) \<and> (parsed \<longrightarrow> fst x) \<and> (fst x = parsed \<longrightarrow> suffix zs ys)"
        have "length zs \<le> length xs" using z c suffix_length_le by fastforce
        moreover have "length zs < length xs" if "fst x = parsed"
          using z c that suffix_length_le [of zs ys] by auto
        ultimately have "2 * length zs + (if fst x then 0 else 1) < 2 * length xs + (if parsed then 0 else 1)"
          using z by (cases "fst x = parsed") auto
        from less.hyps [OF this t] have "ok (\<lambda>_ us. suffix us zs \<and> us \<noteq> [] \<and> hd us \<in> set value_end)
            (value_loop ops nest (fst x) (snd x) t)"
          using calm_suffix [of zs xs] z c less.prems(2) by blast
        then show "ok (\<lambda>_ ys. suffix ys xs \<and> ys \<noteq> [] \<and> hd ys \<in> set value_end) (value_loop ops nest (fst x) (snd x) t)"
          by (rule ok_weaken) (use z c suffix_order.trans in blast)
      qed
      then show ?thesis using False by simp
    qed
  qed
qed

lemma array_ends:
  assumes "remaining s xs" "calm xs" "nested_end nest"
  shows "ok (\<lambda>_ ys. suffix ys xs) (array_loop ops nest c vs s)"
  using assms(1,2)
proof (induction "length xs" arbitrary: xs s c vs rule: less_induct)
  case less
  have turn: "ok (\<lambda>_ ys. suffix ys xs) (bindF getF (\<lambda>c'. array_loop ops nest c' vs') t)"
    if t: "remaining t zs" "suffix zs xs" for t zs vs'
  proof (rule ok_get [OF t(1)])
    fix c' us t'
    assume u: "zs = c' # us" "remaining t' us"
    have s: "suffix us xs" using t(2) unfolding u(1) by (rule suffix_ConsD)
    have "length us < length xs" using suffix_length_le [OF t(2)] u(1) by simp
    from less.hyps [OF this u(2) calm_suffix [OF s less.prems(2)]]
    show "ok (\<lambda>_ ys. suffix ys xs) (array_loop ops nest c' vs' t')"
      using s by (rule ok_suffix)
  qed
  have val: "ok (\<lambda>_ ys. suffix ys xs) (parseValue ops nest vs s)"
    unfolding parseValue_def by (rule ok_weaken [OF value_ends [OF less.prems assms(3)]]) blast
  show ?case unfolding array_loop_eq [of ops nest c]
  proof (rule ok_if)
    have "ok (\<lambda>_ ys. suffix ys xs) ((if c = letter CHR ''['' \<or> c = letter CHR '','' then parseValue ops nest vs
        else liftF (Inr vs)) s)"
      using val less.prems(1) by (intro ok_if) (auto intro: ok_lift)
    then show "ok (\<lambda>_ ys. suffix ys xs) (bindF (if c = letter CHR ''['' \<or> c = letter CHR '','' then parseValue ops nest vs
        else liftF (Inr vs)) (\<lambda>vs'. bindF getF (\<lambda>c'. array_loop ops nest c' vs')) s)"
      by (rule ok_bind) (rule turn)
  qed (use less.prems(1) in \<open>auto intro: ok_lift\<close>)
qed

lemma object_ends:
  assumes "remaining s xs" "letter CHR '']'' \<notin> set xs" "nested_end nest"
    and "c = letter CHR ''{'' \<or> c = letter CHR '','' \<or> c = letter CHR ''}''"
  shows "ok (\<lambda>_ ys. suffix ys xs) (object_loop ops nest c ks vs s)"
  using assms(1,2,4)
proof (induction "length xs" arbitrary: xs s c ks vs rule: less_induct)
  case less
  have turn: "ok (\<lambda>_ ys. suffix ys xs) (bindF getF (\<lambda>c'. object_loop ops nest c' ks' vs') t)"
    if t: "remaining t zs" "suffix zs xs" "zs \<noteq> [] \<and> hd zs \<in> set value_end" for t zs ks' vs'
  proof (rule ok_get [OF t(1)])
    fix c' us t'
    assume u: "zs = c' # us" "remaining t' us"
    have s: "suffix us xs" using t(2) unfolding u(1) by (rule suffix_ConsD)
    have l: "length us < length xs" using suffix_length_le [OF t(2)] u(1) by simp
    have sub: "set zs \<subseteq> set xs" using t(2) by (rule set_mono_suffix)
    then have n: "letter CHR '']'' \<notin> set us" "c' \<noteq> letter CHR '']''" using u(1) less.prems(2) by auto
    moreover have "c' \<in> set value_end" using t(3) u(1) by simp
    ultimately have "c' = letter CHR ''{'' \<or> c' = letter CHR '','' \<or> c' = letter CHR ''}''"
      by (auto simp: value_end_def)
    from less.hyps [OF l u(2) n(1) this]
    show "ok (\<lambda>_ ys. suffix ys xs) (object_loop ops nest c' ks' vs' t')"
      using s by (rule ok_suffix)
  qed
  have val: "ok (\<lambda>_ ys. suffix ys xs) (bindF (parseValue ops nest vs) (\<lambda>vs'. bindF getF (\<lambda>c'. object_loop ops nest c' ks' vs')) t)"
    if t: "remaining t zs" "suffix zs xs" for t zs ks'
  proof -
    have "calm zs" using set_mono_suffix [OF t(2)] less.prems(2) by (auto simp: calm_def)
    from value_ends [OF t(1) this assms(3)]
    have "ok (\<lambda>_ ys. suffix ys zs \<and> ys \<noteq> [] \<and> hd ys \<in> set value_end) (parseValue ops nest vs t)"
      unfolding parseValue_def .
    then show ?thesis
      by (rule ok_bind) (use t(2) suffix_order.trans in \<open>blast intro: turn\<close>)
  qed
  show ?case
  proof (cases "c = letter CHR ''}''")
    case True
    have "object_loop ops nest (letter CHR ''}'') ks vs s = liftF (Inr (ks, vs)) s"
      by (simp add: object_loop.simps)
    then show ?thesis using True less.prems(1) by (auto intro: ok_lift)
  next
    case False
    then have c: "c = letter CHR ''{'' \<or> c = letter CHR '',''" using less.prems(3) by blast
    show ?thesis unfolding object_loop_eq [OF c]
      using advancesD [OF advances_key less.prems(1)]
      by (rule ok_bind) (intro ok_if val ok_lift, simp_all)
  qed
qed

lemma nested_ends: "nested_end (nested ops d)"
proof (induction ops d rule: nested.induct)
  case (1 ops d)
  define below where "below = (if d < MAX_JSON_DEPTH then nested ops (d + 1)
    else \<lparr>nested_array = liftF (Inl Undefined), nested_object = liftF (Inl Undefined)\<rparr>)"
  have n: "nested ops d = \<lparr>nested_array = parseNestedArray ops below (d + 1),
      nested_object = parseNestedObject ops below (d + 1)\<rparr>"
    by (subst nested.simps) (simp only: below_def Let_def)
  show ?case
  proof (cases "d < MAX_JSON_DEPTH")
    case True
    then have b: "nested_end below" using 1 by (simp add: below_def)
    have "ok (\<lambda>_ ys. suffix ys xs) (parseNestedArray ops below (d + 1) s)" if "remaining s xs" "calm xs" for s xs
    proof -
      have "ok (\<lambda>_ ys. suffix ys xs) (parseArray ops below s)"
        unfolding parseArray_def
        by (rule ok_get [OF that(1)])
          (use that(2) b in \<open>auto intro!: ok_weaken [OF array_ends] simp: suffix_Cons calm_def\<close>)
      then have "ok (\<lambda>_ ys. suffix ys xs) (bindF (parseArray ops below) (\<lambda>vs. liftF (Inr (JsonArray (d + 1) vs))) s)"
        by (rule ok_bind) (auto intro: ok_lift)
      then show ?thesis unfolding parseNestedArray_def by (intro ok_lift_bind [OF that(1)])
    qed
    moreover have "ok (\<lambda>_ ys. suffix ys xs) (parseNestedObject ops below (d + 1) s)"
      if "remaining s (letter CHR ''{'' # xs)" "letter CHR '']'' \<notin> set xs" for s xs
    proof -
      have "ok (\<lambda>_ ys. suffix ys xs) (parseObject ops below s)"
        unfolding parseObject_def
        by (rule ok_get [OF that(1)])
          (use that(2) b in \<open>auto intro!: object_ends\<close>)
      then have "ok (\<lambda>_ ys. suffix ys xs) (bindF (parseObject ops below)
          (\<lambda>(ks, vs). liftF (Inr (JsonObject (d + 1) ks vs))) s)"
        by (rule ok_bind) (auto intro: ok_lift split: prod.splits)
      then show ?thesis unfolding parseNestedObject_def by (intro ok_lift_bind [OF that(1)])
    qed
    ultimately show ?thesis unfolding nested_end_def n by simp
  next
    case False
    then have "parseNestedArray ops below (d + 1) s = Some (Inl (Runtime_Error
        ''JsonArray: creation error... TOO MUCH DEPTH!''), s)"
      "parseNestedObject ops below (d + 1) s = Some (Inl (Runtime_Error
        ''JsonObject creation error... TOO MUCH DEPTH!''), s)" for s
      by (simp_all add: parseNestedArray_def parseNestedObject_def JsonArray_new_def JsonObject_new_def
          bindF_def liftF_def)
    then show ?thesis unfolding nested_end_def n by (simp add: ok_def)
  qed
qed

lemma white_ends: "remaining s xs \<Longrightarrow> ok (\<lambda>_ ys. suffix ys xs) (white_loop c s)"
proof (induction "length xs" arbitrary: xs s c rule: less_induct)
  case less
  show ?case
  proof (cases "is_whitespace c")
    case True
    have "ok (\<lambda>_ ys. suffix ys xs) (bindF getF (\<lambda>_. bindF peekF white_loop) s)"
    proof (rule ok_get [OF less.prems])
      fix x ys s'
      assume x: "xs = x # ys" "remaining s' ys"
      have "ok (\<lambda>_ zs. suffix zs ys) (bindF peekF white_loop s')"
        by (rule ok_peek [OF x(2)]) (use x(1) less.hyps in simp)
      then show "ok (\<lambda>_ ys. suffix ys xs) (bindF peekF white_loop s')"
        by (rule ok_suffix) (simp add: x(1) suffix_Cons)
    qed
    then show ?thesis using True by (simp add: white_loop.simps)
  next
    case False
    then show ?thesis using less.prems by (auto simp: white_loop.simps intro: ok_lift)
  qed
qed

lemma advances_white [advancing]: "advances (readWhiteSpaceUntil until)"
proof -
  have "advances (white_loop c)" for c by (simp add: advances_def white_ends)
  then show ?thesis unfolding readWhiteSpaceUntil_def by (intro advancing)
qed

lemma parse_calm:
  assumes "remaining s xs" "calm xs"
  shows "ok (\<lambda>_ ys. suffix ys xs) (parse ops s)"
proof -
  have n: "nested_end (nested ops 0)" by (rule nested_ends)
  have arr: "ok (\<lambda>_ zs. suffix zs ys) (parseNestedArray ops (nested ops 0) 0 t)"
    if t: "remaining t ys" "calm ys" for t ys
  proof -
    have "ok (\<lambda>_ zs. suffix zs ys) (parseArray ops (nested ops 0) t)"
      unfolding parseArray_def
      by (rule ok_get [OF t(1)]) (use t(2) n in \<open>auto intro!: ok_weaken [OF array_ends] simp: suffix_Cons calm_def\<close>)
    then have "ok (\<lambda>_ zs. suffix zs ys) (bindF (parseArray ops (nested ops 0)) (\<lambda>vs. liftF (Inr (JsonArray 0 vs))) t)"
      by (rule ok_bind) (auto intro: ok_lift)
    then show ?thesis unfolding parseNestedArray_def by (intro ok_lift_bind [OF t(1)])
  qed
  have obj: "ok (\<lambda>_ zs. suffix zs (123 # ys)) (parseNestedObject ops (nested ops 0) 0 t)"
    if t: "remaining t (123 # ys)" "letter CHR '']'' \<notin> set ys" for t ys
  proof -
    have "ok (\<lambda>_ zs. suffix zs (123 # ys)) (parseObject ops (nested ops 0) t)"
      unfolding parseObject_def
      by (rule ok_get [OF t(1)])
        (use t(2) n in \<open>auto intro!: ok_weaken [OF object_ends] simp: suffix_Cons\<close>)
    then have "ok (\<lambda>_ zs. suffix zs (123 # ys)) (bindF (parseObject ops (nested ops 0))
        (\<lambda>(ks, vs). liftF (Inr (JsonObject 0 ks vs))) t)"
      by (rule ok_bind) (auto intro: ok_lift split: prod.splits)
    then show ?thesis unfolding parseNestedObject_def by (intro ok_lift_bind [OF t(1)])
  qed
  have top: "ok (\<lambda>_ zs. suffix zs ys) (bindF peekF (\<lambda>c.
       if c = letter CHR ''{'' then parseNestedObject ops (nested ops 0) 0
       else if c = letter CHR ''['' then parseNestedArray ops (nested ops 0) 0
       else throwF ''Invalid JSON data.'') t)" if t: "remaining t ys" "calm ys" for t ys
    by (rule ok_peek [OF t(1)], intro ok_if)
      (use t(2) in \<open>auto intro!: arr obj simp: calm_def\<close>)
  show ?thesis unfolding parse_def
    using advancesD [OF advances_white assms(1)]
  proof (rule ok_bind)
    fix s' ys
    assume "remaining s' ys" "suffix ys xs"
    then show "ok (\<lambda>_ zs. suffix zs xs) (bindF peekF (\<lambda>c.
       if c = letter CHR ''{'' then parseNestedObject ops (nested ops 0) 0
       else if c = letter CHR ''['' then parseNestedArray ops (nested ops 0) 0
       else throwF ''Invalid JSON data.'') s')"
      using ok_suffix [OF top] calm_suffix assms(2) by blast
  qed
qed

section \<open>A run that does not end\<close>

text \<open>\<open>never p xs\<close>: on a stream with the remaining bytes \<open>xs\<close> the parser does not end.\<close>

definition never :: "'a parser \<Rightarrow> byte list \<Rightarrow> bool" where
  "never p xs \<longleftrightarrow> (\<forall>s. remaining s xs \<longrightarrow> p s = None)"

lemma never_bind: "takes m (Inr v) xs ys \<Longrightarrow> never (f v) ys \<Longrightarrow> never (bindF m f) xs"
  unfolding takes_def never_def by (fastforce simp: bindF_def)

lemma never_first: "never m xs \<Longrightarrow> never (bindF m f) xs"
  by (simp add: never_def bindF_def)

lemma object_loop_stuck:
  assumes "c \<noteq> letter CHR ''{''" "c \<noteq> letter CHR '',''" "c \<noteq> letter CHR ''}''"
  shows "object_loop ops nest c ks vs s = None"
proof -
  have "object_loop ops nest c ks vs s \<noteq> Some y" for y
  proof
    assume "object_loop ops nest c ks vs s = Some y"
    then have "c = letter CHR ''{'' \<or> c = letter CHR '','' \<or> c = letter CHR ''}''"
      by (rule object_loop.raw_induct [where P = "\<lambda>ops nest c ks vs s y.
          c = letter CHR ''{'' \<or> c = letter CHR '','' \<or> c = letter CHR ''}''", rotated]) (metis option.distinct(1))
    then show False using assms by blast
  qed
  then show ?thesis by (cases "object_loop ops nest c ks vs s") auto
qed

lemma object_never:
  assumes "spaces g" "key_ok g0 k g1" "spaces g2" "json_text ops 0 v t" "closes v h (letter CHR '']'')"
  shows "never (parse ops) (g @ letter CHR ''{'' # g0 @ 34 # k @ 34 # g1 @ 58 # g2 @ t @ h @ letter CHR '']'' # rest)"
proof -
  let ?nest = "nested ops 0" and ?xs = "g0 @ 34 # k @ 34 # g1 @ 58 # g2 @ t @ h @ letter CHR '']'' # rest"
  have key: "takes parseKey (Inr (Some k)) ?xs (g2 @ t @ h @ letter CHR '']'' # rest)"
    using assms(2) by (intro takes_key) (simp_all add: key_ok_def)
  have val: "takes (parseValue ops ?nest []) (Inr ([] @ [v])) (g2 @ t @ h @ letter CHR '']'' # rest) (letter CHR '']'' # rest)"
    by (rule takes_value [OF text_runs(1) [OF assms(4)] assms(3,5)]) (simp_all add: value_end_def)
  have stuck: "never (\<lambda>s. object_loop ops ?nest (letter CHR '']'') ks vs s) rest" for ks vs
    by (simp add: never_def object_loop_stuck)
  have "never (object_loop ops ?nest (letter CHR ''{'') [] []) ?xs"
    unfolding object_loop_eq [OF disjI1 [OF refl]]
    by (rule never_bind [OF key])
      (simp only: option.distinct if_False option.sel, rule never_bind [OF val], rule never_bind [OF takes_get],
        rule stuck)
  then have "never (parseObject ops ?nest) (letter CHR ''{'' # ?xs)"
    unfolding parseObject_def by (intro never_bind [OF takes_get])
  then have n: "never (parseNestedObject ops ?nest 0) (letter CHR ''{'' # ?xs)"
    unfolding parseNestedObject_def JsonObject_new_0
    by (rule never_bind [OF takes_lift never_first])
  have w: "takes (readWhiteSpaceUntil (bytes ''{['')) (Inr ()) (g @ letter CHR ''{'' # ?xs) (letter CHR ''{'' # ?xs)"
    using assms(1) by (intro takes_white) (auto simp: is_whitespace_def STRING_UTILS_WHITESPACE_def)
  show ?thesis unfolding parse_def
    by (rule never_bind [OF w], rule never_bind [OF takes_peek]) (use n in simp)
qed

section \<open>The shape of a result\<close>

text \<open>
  \<open>json_ok d v\<close>: \<open>v\<close> is a value at depth \<open>d\<close>, with the lengths the parser allows. An object has at
  most as many values as keys.
\<close>

fun json_ok :: "nat \<Rightarrow> 'd json \<Rightarrow> bool" where
  "json_ok d JsonValue \<longleftrightarrow> True"
| "json_ok d (JsonBoolean b) \<longleftrightarrow> True"
| "json_ok d (JsonNumber x n m) \<longleftrightarrow> True"
| "json_ok d (JsonString s) \<longleftrightarrow> length s \<le> MAX_LENGTH_OF_JSON_STRING_VALUES"
| "json_ok d (JsonArray e vs) \<longleftrightarrow> e = d \<and> d \<le> MAX_JSON_DEPTH \<and> (\<forall>v \<in> set vs. json_ok (Suc d) v)"
| "json_ok d (JsonObject e ks vs) \<longleftrightarrow> e = d \<and> d \<le> MAX_JSON_DEPTH \<and> length vs \<le> length ks \<and>
     (\<forall>k \<in> set ks. length k < MAX_LENGTH_OF_JSON_STRING_KEYS) \<and> (\<forall>v \<in> set vs. json_ok (Suc d) v)"

definition gives :: "('a \<Rightarrow> bool) \<Rightarrow> 'a parser \<Rightarrow> bool" where
  "gives P p \<longleftrightarrow> (\<forall>s v s'. p s = Some (Inr v, s') \<longrightarrow> P v)"

named_theorems giving \<open>what the results of parsers satisfy\<close>

lemma givesD: "gives P p \<Longrightarrow> p s = Some (Inr v, s') \<Longrightarrow> P v"
  by (auto simp: gives_def)

lemma bindF_Inr: "bindF m f s = Some (Inr v, s') \<longleftrightarrow> (\<exists>x t. m s = Some (Inr x, t) \<and> f x t = Some (Inr v, s'))"
  by (auto simp: bindF_def split: option.splits sum.splits)

lemma gives_bind: "gives Q m \<Longrightarrow> (\<And>v. Q v \<Longrightarrow> gives P (f v)) \<Longrightarrow> gives P (bindF m f)"
  unfolding gives_def by (fastforce simp: bindF_Inr)

lemma gives_after [giving]: "(\<And>v. gives P (f v)) \<Longrightarrow> gives P (bindF m f)"
  by (rule gives_bind [where Q = "\<lambda>_. True"]) (simp_all add: gives_def)

lemma gives_lift [giving]: "P v \<Longrightarrow> gives P (liftF (Inr v))"
  by (simp add: gives_def liftF_def)

lemma gives_throw [giving]: "gives P (throwF m)" "gives P (liftF (Inl e))"
  by (simp_all add: gives_def throwF_def liftF_def)

lemma gives_if [giving]: "(b \<Longrightarrow> gives P p) \<Longrightarrow> (\<not> b \<Longrightarrow> gives P q) \<Longrightarrow> gives P (if b then p else q)"
  by simp

lemma gives_split [giving]: "(\<And>a b. gives P (f a b)) \<Longrightarrow> gives P (case x of (a, b) \<Rightarrow> f a b)"
  by (cases x) simp

lemma gives_leaves:
  "gives (json_ok d) parseString" "gives (json_ok d) (parseNumber ops)"
  unfolding parseString_def parseNumber_def Let_def by (intro giving; simp)+

lemma gives_immediate: "json_ok d v \<Longrightarrow> gives (json_ok d) (parseImmediate m v)"
  by (auto simp: gives_def parseImmediate_def split: option.splits prod.splits sum.splits exn.splits)

definition nested_gives :: "nat \<Rightarrow> 'd json_nested \<Rightarrow> bool" where
  "nested_gives d nest \<longleftrightarrow> gives (json_ok d) (nested_array nest) \<and> gives (json_ok d) (nested_object nest)"

abbreviation all_ok :: "nat \<Rightarrow> 'd json list \<Rightarrow> bool" where
  "all_ok d vs \<equiv> \<forall>v \<in> set vs. json_ok d v"

abbreviation still :: "bool \<Rightarrow> nat" where
  "still parsed \<equiv> (if parsed then 0 else 1)"

lemma gives_step:
  assumes "nested_gives d nest" "all_ok d vs"
  shows "gives (\<lambda>x. all_ok d (snd x) \<and> length (snd x) + still (fst x) \<le> length vs + still parsed)
    (value_step ops nest c parsed vs)"
proof -
  let ?P = "\<lambda>x. all_ok d (snd x) \<and> length (snd x) + still (fst x) \<le> length vs + still parsed"
  have token: "gives ?P (bindF p (\<lambda>v. liftF (Inr (True, vs @ [v]))))" if "gives (json_ok d) p" "\<not> parsed" for p
    using that assms(2) by (intro gives_bind [OF that(1)] gives_lift) auto
  have nest: "gives (json_ok d) (nested_array nest)" "gives (json_ok d) (nested_object nest)"
    using assms(1) by (simp_all add: nested_gives_def)
  have object: "gives ?P (bindF peekF (\<lambda>c'. if c' = letter CHR ''{''
      then bindF (nested_object nest) (\<lambda>v. liftF (Inr (True, vs @ [v])))
      else liftF (Inr (True, vs))))" if "\<not> parsed"
    using assms(2) by (intro gives_after, intro gives_if token that nest gives_lift) simp_all
  have skip: "gives ?P (bindF getF (\<lambda>_. liftF (Inr (parsed, vs))))"
    using assms(2) by (intro gives_after gives_lift) simp
  show ?thesis unfolding value_step_def Let_def
    by (intro gives_if token object gives_leaves gives_immediate nest gives_throw) (use skip in simp_all)
qed

lemma gives_value:
  assumes "value_loop ops nest parsed vs s = Some (Inr vs', s')" "nested_gives d nest" "all_ok d vs"
  shows "all_ok d vs' \<and> length vs' \<le> length vs + still parsed"
proof -
  have "\<forall>vs' s'. y = (Inr vs', s') \<longrightarrow> nested_gives d nest \<longrightarrow> all_ok d vs \<longrightarrow>
      all_ok d vs' \<and> length vs' \<le> length vs + still parsed"
    if "value_loop ops nest parsed vs s = Some y" for y
    using that
  proof (rule value_loop.raw_induct [where P = "\<lambda>ops nest parsed vs s y. \<forall>vs' s'. y = (Inr vs', s') \<longrightarrow>
      nested_gives d nest \<longrightarrow> all_ok d vs \<longrightarrow> all_ok d vs' \<and> length vs' \<le> length vs + still parsed", rotated],
      intro allI impI)
    fix loop ops nest parsed vs s y vs' s'
    assume IH: "\<And>ops nest parsed vs s y. loop ops nest parsed vs s = Some y \<Longrightarrow> \<forall>vs' s'. y = (Inr vs', s') \<longrightarrow>
        nested_gives d nest \<longrightarrow> all_ok d vs \<longrightarrow> all_ok d vs' \<and> length vs' \<le> length vs + still parsed"
      and body: "bindF peekF (\<lambda>c. if c \<in> set value_end then liftF (Inr vs)
         else bindF (value_step ops nest c parsed vs) (\<lambda>x. loop ops nest (fst x) (snd x))) s = Some y"
      and y: "y = (Inr vs', s')" and n: "nested_gives d nest" and v: "all_ok d vs"
    from body y obtain c t where c: "(if c \<in> set value_end then liftF (Inr vs)
         else bindF (value_step ops nest c parsed vs) (\<lambda>x. loop ops nest (fst x) (snd x))) t = Some (Inr vs', s')"
      by (auto simp: bindF_Inr)
    show "all_ok d vs' \<and> length vs' \<le> length vs + still parsed"
    proof (cases "c \<in> set value_end")
      case True
      then show ?thesis using c v by (simp add: liftF_def)
    next
      case False
      then obtain x t' where x: "value_step ops nest c parsed vs t = Some (Inr x, t')"
        "loop ops nest (fst x) (snd x) t' = Some (Inr vs', s')" using c by (auto simp: bindF_Inr)
      then show ?thesis
        using IH [OF x(2)] givesD [OF gives_step [OF n v, of parsed ops c] x(1)] n by auto
    qed
  qed
  then show ?thesis using assms by blast
qed

lemma gives_parseValue:
  assumes "nested_gives d nest" "all_ok d vs"
  shows "gives (\<lambda>vs'. all_ok d vs' \<and> length vs' \<le> Suc (length vs)) (parseValue ops nest vs)"
  using gives_value [OF _ assms, where parsed = False] by (auto simp: gives_def parseValue_def)

lemma gives_array:
  assumes "array_loop ops nest c vs s = Some (Inr vs', s')" "nested_gives d nest" "all_ok d vs"
  shows "all_ok d vs'"
proof -
  have "\<forall>vs' s'. y = (Inr vs', s') \<longrightarrow> nested_gives d nest \<longrightarrow> all_ok d vs \<longrightarrow> all_ok d vs'"
    if "array_loop ops nest c vs s = Some y" for y
    using that
  proof (rule array_loop.raw_induct [where P = "\<lambda>ops nest c vs s y. \<forall>vs' s'. y = (Inr vs', s') \<longrightarrow>
      nested_gives d nest \<longrightarrow> all_ok d vs \<longrightarrow> all_ok d vs'", rotated], intro allI impI)
    fix loop ops nest c vs s y vs' s'
    assume IH: "\<And>ops nest c vs s y. loop ops nest c vs s = Some y \<Longrightarrow> \<forall>vs' s'. y = (Inr vs', s') \<longrightarrow>
        nested_gives d nest \<longrightarrow> all_ok d vs \<longrightarrow> all_ok d vs'"
      and body: "(if c \<noteq> letter CHR '']''
         then bindF (if c = letter CHR ''['' \<or> c = letter CHR '','' then parseValue ops nest vs
                     else liftF (Inr vs)) (\<lambda>vs'. bindF getF (\<lambda>c'. loop ops nest c' vs')) s
         else liftF (Inr vs) s) = Some y"
      and y: "y = (Inr vs', s')" and n: "nested_gives d nest" and v: "all_ok d vs"
    have first: "gives (all_ok d) (if c = letter CHR ''['' \<or> c = letter CHR '','' then parseValue ops nest vs
        else liftF (Inr vs))"
      using gives_parseValue [OF n v, of ops] v by (auto simp: gives_def liftF_def)
    show "all_ok d vs'"
    proof (cases "c = letter CHR '']''")
      case True
      then show ?thesis using body y v by (simp add: liftF_def)
    next
      case False
      then obtain ws t c' t' where x: "(if c = letter CHR ''['' \<or> c = letter CHR '','' then parseValue ops nest vs
          else liftF (Inr vs)) s = Some (Inr ws, t)" "loop ops nest c' ws t' = Some (Inr vs', s')"
        using body y by (auto simp only: bindF_Inr if_True if_False simp_thms)
      then show ?thesis using IH [OF x(2)] givesD [OF first x(1)] n by blast
    qed
  qed
  then show ?thesis using assms by blast
qed

lemma gives_key: "gives (\<lambda>k. \<forall>key. k = Some key \<longrightarrow> length key < MAX_LENGTH_OF_JSON_STRING_KEYS) parseKey"
proof -
  have "gives (\<lambda>k. \<forall>key. k = Some key \<longrightarrow> length key < MAX_LENGTH_OF_JSON_STRING_KEYS)
      (let size = length key in
       if size < 1 then throwF ''Empty key string found.''
       else if key ! (size - 1) = letter CHR ''}'' then liftF (Inr None)
       else if MAX_LENGTH_OF_JSON_STRING_KEYS < size then throwF ''Key string to loooooonnng!''
       else liftF (Inr (Some (take (size - 1) key))))" for key
    unfolding Let_def by (intro gives_if gives_throw gives_lift) (auto simp: MAX_LENGTH_OF_JSON_STRING_KEYS_def)
  then show ?thesis unfolding parseKey_def by (rule gives_after)
qed

abbreviation keys_ok :: "byte list list \<Rightarrow> bool" where
  "keys_ok ks \<equiv> \<forall>k \<in> set ks. length k < MAX_LENGTH_OF_JSON_STRING_KEYS"

lemma gives_object:
  assumes "object_loop ops nest c ks vs s = Some (Inr (ks', vs'), s')" "nested_gives d nest"
    "all_ok d vs" "keys_ok ks" "length vs \<le> length ks"
  shows "all_ok d vs' \<and> keys_ok ks' \<and> length vs' \<le> length ks'"
proof -
  let ?ok = "\<lambda>ks vs. all_ok d vs \<and> keys_ok ks \<and> length vs \<le> length ks"
  have "\<forall>ks' vs' s'. y = (Inr (ks', vs'), s') \<longrightarrow> nested_gives d nest \<longrightarrow> ?ok ks vs \<longrightarrow> ?ok ks' vs'"
    if "object_loop ops nest c ks vs s = Some y" for y
    using that
  proof (rule object_loop.raw_induct [where P = "\<lambda>ops nest c ks vs s y. \<forall>ks' vs' s'. y = (Inr (ks', vs'), s') \<longrightarrow>
      nested_gives d nest \<longrightarrow> ?ok ks vs \<longrightarrow> ?ok ks' vs'", rotated], intro allI impI)
    fix loop ops nest c ks vs s y ks' vs' s'
    assume IH: "\<And>ops nest c ks vs s y. loop ops nest c ks vs s = Some y \<Longrightarrow> \<forall>ks' vs' s'. y = (Inr (ks', vs'), s') \<longrightarrow>
        nested_gives d nest \<longrightarrow> ?ok ks vs \<longrightarrow> ?ok ks' vs'"
      and body: "(if c \<noteq> letter CHR ''}''
         then if c = letter CHR ''{'' \<or> c = letter CHR '',''
           then bindF parseKey (\<lambda>k.
                if k = None then liftF (Inr (ks, vs))
                else bindF (parseValue ops nest vs) (\<lambda>vs'.
                     bindF getF (\<lambda>c'. loop ops nest c' (ks @ [the k]) vs'))) s
           else loop ops nest c ks vs s
         else liftF (Inr (ks, vs)) s) = Some y"
      and y: "y = (Inr (ks', vs'), s')" and n: "nested_gives d nest" and v: "?ok ks vs"
    consider "c = letter CHR ''}''" | "c = letter CHR ''{'' \<or> c = letter CHR '',''"
      | "c \<noteq> letter CHR ''}''" "\<not> (c = letter CHR ''{'' \<or> c = letter CHR '','')" by blast
    then show "?ok ks' vs'"
    proof cases
      case 1
      then show ?thesis using body y v by (simp add: liftF_def)
    next
      case 2
      then have "c \<noteq> letter CHR ''}''" by auto
      then obtain k t where k: "parseKey s = Some (Inr k, t)"
        "(if k = None then liftF (Inr (ks, vs))
          else bindF (parseValue ops nest vs) (\<lambda>vs'. bindF getF (\<lambda>c'. loop ops nest c' (ks @ [the k]) vs'))) t
         = Some (Inr (ks', vs'), s')"
        using 2 body y by (auto simp only: bindF_Inr if_True if_False simp_thms)
      show ?thesis
      proof (cases k)
        case None
        then show ?thesis using k(2) v by (simp add: liftF_def)
      next
        case (Some key)
        then obtain ws t' c' t'' where x: "parseValue ops nest vs t = Some (Inr ws, t')"
          "loop ops nest c' (ks @ [key]) ws t'' = Some (Inr (ks', vs'), s')"
          using k(2) by (auto simp: bindF_Inr)
        have "?ok (ks @ [key]) ws"
          using givesD [OF gives_parseValue [OF n conjunct1 [OF v], of ops] x(1)] givesD [OF gives_key k(1)] Some v by auto
        then show ?thesis using IH [OF x(2)] n by blast
      qed
    next
      case 3
      then have "loop ops nest c ks vs s = Some y" using body by (simp only: if_False if_True simp_thms)
      then show ?thesis using IH y n v by blast
    qed
  qed
  then show ?thesis using assms by blast
qed

lemma gives_nested_array:
  assumes "nested_gives (Suc d) nest"
  shows "gives (json_ok d) (parseNestedArray ops nest d)"
proof (cases "MAX_JSON_DEPTH < d")
  case True
  then show ?thesis by (simp add: gives_def parseNestedArray_def JsonArray_new_def bindF_Inr liftF_def)
next
  case False
  have "gives (\<lambda>vs. json_ok d (JsonArray d vs)) (parseArray ops nest)"
    unfolding parseArray_def
  proof (intro gives_after)
    fix c
    show "gives (\<lambda>vs. json_ok d (JsonArray d vs)) (array_loop ops nest c [])"
      unfolding gives_def using gives_array [OF _ assms, of ops c "[]"] False by simp
  qed
  then have "gives (json_ok d) (bindF (parseArray ops nest) (\<lambda>vs. liftF (Inr (JsonArray d vs))))"
    by (rule gives_bind) (rule gives_lift)
  then show ?thesis unfolding parseNestedArray_def by (rule gives_after)
qed

lemma gives_nested_object:
  assumes "nested_gives (Suc d) nest"
  shows "gives (json_ok d) (parseNestedObject ops nest d)"
proof (cases "MAX_JSON_DEPTH < d")
  case True
  then show ?thesis by (simp add: gives_def parseNestedObject_def JsonObject_new_def bindF_Inr liftF_def)
next
  case False
  have "gives (\<lambda>(ks, vs). json_ok d (JsonObject d ks vs)) (parseObject ops nest)"
    unfolding parseObject_def
  proof (intro gives_after)
    fix c
    show "gives (\<lambda>(ks, vs). json_ok d (JsonObject d ks vs)) (object_loop ops nest c [] [])"
      unfolding gives_def using gives_object [OF _ assms, of ops c "[]" "[]"] False by (simp add: split_paired_all) blast
  qed
  then have "gives (json_ok d) (bindF (parseObject ops nest) (\<lambda>(ks, vs). liftF (Inr (JsonObject d ks vs))))"
    by (rule gives_bind) (auto split: prod.splits intro!: gives_lift)
  then show ?thesis unfolding parseNestedObject_def by (rule gives_after)
qed

lemma nested_gives: "nested_gives (Suc d) (nested ops d)"
proof (induction ops d rule: nested.induct)
  case (1 ops d)
  let ?below = "if d < MAX_JSON_DEPTH then nested ops (d + 1)
    else \<lparr>nested_array = liftF (Inl Undefined), nested_object = liftF (Inl Undefined)\<rparr>"
  have "nested_gives (Suc (Suc d)) ?below"
    using "1.IH" by (simp add: nested_gives_def gives_throw)
  then show ?case
    by (subst nested.simps) (simp add: Let_def nested_gives_def gives_nested_array gives_nested_object)
qed

lemma gives_parse: "gives (json_ok 0) (parse ops)"
  unfolding parse_def
  by (intro gives_after gives_if gives_throw gives_nested_array gives_nested_object nested_gives)

section \<open>Properties\<close>

text \<open>
  C38. On a text with no opening brace, or with no closing bracket, the parser returns a value or an
  exception, whatever else the text holds; but it never returns on an object whose first value is
  followed by a closing bracket.
\<close>

theorem parse_ends:
  assumes "spaces g" and "key_ok g0 k g1" and "spaces g2" and "json_text ops 0 v t"
    and "closes v h (letter CHR '']'')"
  shows "(calm json \<longrightarrow> (\<exists>r. parse_string ops json = Some r)) \<and>
    (remaining s (g @ letter CHR ''{'' # g0 @ 34 # k @ 34 # g1 @ 58 # g2 @ t @ h @ letter CHR '']'' # rest) \<longrightarrow>
      parse ops s = None)"
proof (intro conjI impI)
  assume "calm json"
  have "remaining (EStream_memory json) json" by (simp add: memory_remaining)
  then have "ok (\<lambda>_ ys. suffix ys json) (parse ops (EStream_memory json))" using \<open>calm json\<close> by (rule parse_calm)
  then show "\<exists>r. parse_string ops json = Some r"
    by (auto simp: parse_string_def parse_bytes_def ok_def)
next
  assume "remaining s (g @ letter CHR ''{'' # g0 @ 34 # k @ 34 # g1 @ 58 # g2 @ t @ h @ letter CHR '']'' # rest)"
  then show "parse ops s = None" using object_never [OF assms, of rest] unfolding never_def by blast
qed

theorem parse_ends_witness:
  "(\<exists>r. parse_string whole_ops (bytes ''[{''  @ [34]) = Some r) \<and>
    parse whole_ops (EStream_memory (bytes ''{'' @ [34] @ bytes ''a'' @ [34] @ bytes '':true]'')) = None"
proof -
  have "json_text whole_ops 0 (JsonBoolean True) (bytes ''true'')"
    by (rule json_text_json_elements_json_members.true)
  then show ?thesis
    using parse_ends [where g = "[]" and ?g0.0 = "[]" and k = "bytes ''a''" and ?g1.0 = "[]" and ?g2.0 = "[]" and ops = whole_ops
        and v = "JsonBoolean True" and t = "bytes ''true''" and h = "[]" and json = "bytes ''[{''  @ [34]" and rest = "[]"
        and s = "EStream_memory (bytes ''{'' @ [34] @ bytes ''a'' @ [34] @ bytes '':true]'')"]
    by (simp add: key_ok_def calm_def memory_remaining MAX_LENGTH_OF_JSON_STRING_KEYS_def)
qed

text \<open>
  C30. Whatever the text, a value the parser returns is well formed: depths are right and at most
  the greatest depth, strings and keys have at most the greatest lengths, and no object has more
  values than keys.
\<close>

theorem parsed_well_formed:
  assumes "parse ops s = Some (Inr v, s')"
  shows "json_ok 0 v"
  using givesD [OF gives_parse assms] .

theorem parsed_well_formed_witness:
  "json_ok 0 (JsonObject 0 [bytes ''a''] [JsonArray 1 [JsonNumber (1::int) 1 0, JsonBoolean True]])"
proof -
  let ?t = "bytes '' {'' @ [34] @ bytes ''a'' @ [34] @ bytes '': [1 , true]}''"
  have "remaining (EStream_memory ?t) (?t @ [])" by (simp add: memory_remaining)
  then obtain s' where "parse whole_ops (EStream_memory ?t) =
      Some (Inr (JsonObject 0 [bytes ''a''] [JsonArray 1 [JsonNumber 1 1 0, JsonBoolean True]]), s')"
    using document_taken [OF example_document, of "[]"] unfolding takes_def by blast
  then show ?thesis by (rule parsed_well_formed)
qed

end
