(* ===== verification/Json_Object.thy ===== *)
theory Json_Object
  imports Json_Value
begin

text \<open>
  What the operations of json_object.h, \<open>pretty\<close> and the map readers of json_mapper.cpp do: the
  lookup of a key, the characters a printed text keeps, the entries a map gets.
\<close>

section \<open>Postfix steps of the iterator\<close>

definition iterator_post_inc :: "'d json list \<Rightarrow> json_iterator \<Rightarrow> json_iterator \<times> json_iterator" where
  "iterator_post_inc vs it = (it, if it_reverse it then iterator_dec vs it else iterator_inc vs it)"

definition iterator_post_dec :: "'d json list \<Rightarrow> json_iterator \<Rightarrow> json_iterator \<times> json_iterator" where
  "iterator_post_dec vs it = (it, if it_reverse it then iterator_inc vs it else iterator_dec vs it)"

lemma last_index [simp]: 
  "i < n \<Longrightarrow> n \<le> SIZE_MAX \<Longrightarrow> sub64 n (Suc 0) = n - Suc 0"
  "i < n \<Longrightarrow> n \<le> SIZE_MAX \<Longrightarrow> add64 i (Suc 0) = Suc i"
  by (auto simp: SIZE_MAX_def)

lemma post_inc_forward: "it_i it < length vs \<Longrightarrow> length vs \<le> SIZE_MAX \<Longrightarrow>
    iterator_post_inc vs it = (it, it\<lparr>it_i := it_i it + 1\<rparr>)"
  by (auto simp: iterator_post_inc_def iterator_inc_def iterator_dec_def Suc_leI)

section \<open>Lookup\<close>

lemma find_undefined:
  assumes "ks \<noteq> []" "length ks \<le> SIZE_MAX"
  shows "JsonObject_find ks key = Inl Undefined"
  using assms by (cases ks) (simp_all add: JsonObject_find_def readB_def)

lemma find_empty: "JsonObject_find [] key = Inr SIZE_MAX"
  by (simp add: JsonObject_find_def)

lemma key_erase_none: "length ks + idx \<le> i \<Longrightarrow> key_erase i idx ks = (idx + length ks, ks)"
  by (induction i idx ks rule: key_erase.induct) auto

section \<open>Printing\<close>

text \<open>
  \<open>printed\<close>: the characters of a text that are printed, the others being dropped outside quotes.
\<close>

definition structural :: "byte set" where
  "structural = set (bytes ''{}[],:'')"

definition visible :: "byte \<Rightarrow> bool" where
  "visible c \<longleftrightarrow> c \<notin> set (bytes '' '') \<union> {9, 10}"

fun printed :: "bool \<Rightarrow> byte list \<Rightarrow> byte list" where
  "printed open_quote [] = []"
| "printed open_quote (c # cs) =
     (if c = 34 then c # printed (\<not> open_quote) cs
      else if open_quote \<or> c \<in> structural then c # printed open_quote cs
      else printed open_quote cs)"

lemma visible_layout [simp]: "\<not> visible 9" "\<not> visible 10" "\<not> visible 32" "visible 34"
  by (simp_all add: visible_def)

lemma visible_tabs [simp]: "filter visible (replicate n 9) = []"
  by (induction n) simp_all

lemma structural_visible: "c \<in> structural \<Longrightarrow> visible c"
  by (auto simp: structural_def visible_def)

lemma printed_visible: "filter visible (printed q cs) = printed q (filter visible cs)"
  by (induction q cs rule: printed.induct) (simp_all add: structural_visible)

lemma printed_twice: "printed q (printed q cs) = printed q cs"
  by (induction q cs rule: printed.induct) simp_all

lemma pretty_fold:
  "filter visible (pr_out (fold pretty_step cs st)) =
     filter visible (pr_out st) @ filter visible (printed (pr_allow_all st) cs)"
proof (induction cs arbitrary: st)
  case Nil
  then show ?case by simp
next
  case (Cons c cs)
  have "filter visible (pr_out (pretty_step c st)) @ filter visible (printed (pr_allow_all (pretty_step c st)) cs) =
      filter visible (pr_out st) @ filter visible (printed (pr_allow_all st) (c # cs))"
  proof (cases "c \<in> structural")
    case True
    then have "c = 123 \<or> c = 125 \<or> c = 91 \<or> c = 93 \<or> c = 44 \<or> c = 58" by (auto simp: structural_def)
    then show ?thesis using True by (elim disjE) (simp_all add: pretty_step_def Let_def visible_def structural_def)
  next
    case False
    then have "c \<noteq> 123" "c \<noteq> 125" "c \<noteq> 91" "c \<noteq> 93" "c \<noteq> 44" "c \<noteq> 58" by (simp_all add: structural_def)
    then show ?thesis using False by (simp add: pretty_step_def Let_def)
  qed
  then show ?case by (simp only: fold.simps comp_def Cons.IH)
qed

lemma pretty_visible: "filter visible (pretty cs) = printed False (filter visible cs)"
  by (simp add: pretty_def pretty_fold printed_visible)

section \<open>Maps\<close>

lemma map_loop_run:
  assumes "drop i xs = ys" "i + length ys = length vs" "length vs \<le> length ks" "length vs \<le> SIZE_MAX"
    and "map conv vs = map Inr xs" "\<forall>v \<in> set vs. json_type v = ty"
  shows "map_loop ty conv key ks vs \<lparr>it_i = i, it_reverse = False\<rparr> m =
     Some (Inr (), if ys = [] then m else m(key \<mapsto> last ys))"
  using assms(1,2)
proof (induction ys arbitrary: i m)
  case Nil
  then show ?case by (subst map_loop.simps) simp
next
  case (Cons y ys)
  have len: "length xs = length vs" using arg_cong [OF assms(5), of length] by simp
  have i: "i < length vs" using Cons.prems(2) by simp
  then have "conv (vs ! i) = Inr (xs ! i)" using assms(5) len by (metis nth_map)
  moreover have "xs ! i = y" using Cons.prems(1) by (metis hd_drop_conv_nth i len list.sel(1))
  moreover have rest: "drop (i + 1) xs = ys" using Cons.prems(1) by (metis Suc_eq_plus1 drop_Suc tl_drop list.sel(3))
  moreover have "iterator_inc vs \<lparr>it_i = i, it_reverse = False\<rparr> = \<lparr>it_i = i + 1, it_reverse = False\<rparr>"
    using i assms(4) by (auto simp: iterator_inc_def)
  moreover have "map_loop ty conv key ks vs \<lparr>it_i = i + 1, it_reverse = False\<rparr> (m(key \<mapsto> y)) =
      Some (Inr (), m(key \<mapsto> last (y # ys)))"
    by (subst Cons.IH [OF rest]) (use Cons.prems(2) in simp_all)
  ultimately show ?case
    using i assms(3,6) by (subst map_loop.simps) (simp add: iterator_deref_def)
qed

section \<open>Properties\<close>

text \<open>
  No key of an object is ever found: with at least one key, looking one up, by \<open>at\<close>,
  \<open>operator[]\<close> or \<open>removeNode\<close>, reads the keys out of bounds, whether or not the key is there.
  Without keys, \<open>at\<close> throws, and \<open>operator[]\<close> reads past the values.
\<close>

theorem lookup_undefined:
  assumes "length ks \<le> SIZE_MAX"
  shows "if ks = []
    then JsonObject_at ks vs key = Inl (Runtime_Error ''Key not found.'') \<and>
      JsonObject_index ks vs key = Inl Undefined
    else JsonObject_at ks vs key = Inl Undefined \<and> JsonObject_index ks vs key = Inl Undefined \<and>
      JsonObject_removeNode key (ks, vs) = Inl Undefined"
  using assms
  by (simp add: JsonObject_at_def JsonObject_index_def JsonObject_removeNode_def find_undefined find_empty
      readB_def)

theorem lookup_undefined_witness:
  "JsonObject_at [bytes ''a''] [JsonBoolean True :: int json] (bytes ''a'') = Inl Undefined"
  using lookup_undefined [of "[bytes ''a'']" "[JsonBoolean True :: int json]" "bytes ''a''"]
  by (simp add: SIZE_MAX_def)

text \<open>
  \<open>pretty\<close> prints the structural characters and the strings of a text and nothing else: up to
  layout, its output is the text without the unquoted characters, so numbers, booleans and nulls
  are dropped; printing the output again changes only its layout.
\<close>

lemma pretty_prints:
  "filter visible (pretty json) = printed False (filter visible json) \<and>
   filter visible (pretty (pretty json)) = filter visible (pretty json)"
  by (simp add: pretty_visible printed_twice)

text \<open>
  Reading an object into a map, when every value has the type of the map, stores one entry only:
  the last value, under the key of the call and not under the keys of the object.
\<close>

theorem map_one_entry:
  assumes "map conv vs = map Inr xs" and "\<forall>v \<in> set vs. json_type v = ty"
    and "length vs \<le> length ks" and "length vs \<le> SIZE_MAX"
  shows "setMapVariable ty conv (JsonObject depth ks vs) key m =
    Some (Inr (), if xs = [] then m else m(key \<mapsto> last xs))"
proof -
  have "length xs = length vs" using arg_cong [OF assms(1), of length] by simp
  then show ?thesis using map_loop_run [OF _ _ assms(3,4,1,2), of 0 xs key m] by simp
qed

theorem map_one_entry_witness:
  "setMapVariable_bool (JsonObject 0 [bytes ''a'', bytes ''b''] [JsonBoolean True, JsonBoolean False])
     (bytes ''k'') Map.empty = Some (Inr (), [bytes ''k'' \<mapsto> False])"
  using map_one_entry [where conv = setVariable_bool and vs = "[JsonBoolean True, JsonBoolean False]"
      and xs = "[True, False]" and ty = BOOLEAN and ks = "[bytes ''a'', bytes ''b'']" and depth = 0]
  by (simp add: setMapVariable_bool_def SIZE_MAX_def)

end
