(* ===== verification/ETasker.thy ===== *)
theory ETasker
  imports String_Number "HOL-Library.AList" "HOL-Library.Multiset"
begin

text \<open>
  The thread pool of lib/threads/etasker.h and etasker.cpp as a transition system. A step of a
  thread is a section between two calls on the mutex, or an action of the task it runs; a section
  that holds the mutex is one step, possible while the mutex is free. \<open>place\<close> says where a thread
  is. The tasks are elements of a type \<open>'a\<close>; whether their code returns or throws, whether the
  calls of pthread succeed and when the clock advances is given with the steps. The mutex stays
  locked when an exception leaves a section, or when a signal interrupts one, since the signal
  handler locks it again.
\<close>

section \<open>Thread attributes\<close>

text \<open>
  The results of the seven calls on an attribute object. The message for a priority passes an
  \<open>int\<close> where the formatter reads a 64-bit integer.
\<close>

definition with_number :: "string \<Rightarrow> nat \<Rightarrow> unit res" where
  "with_number message n =
     bindR (numToStringSigned (word_of_nat n) default_opts) (\<lambda>t.
       Inl (Runtime_Error (message @ map (\<lambda>c. char_of (unat c)) t)))"

definition sched_policy_name :: "bool \<Rightarrow> string" where
  "sched_policy_name timer = (if timer then ''SCHED_FIFO'' else ''SCHED_OTHER'')"

definition attribute_calls :: "bool \<Rightarrow> nat \<Rightarrow> unit res list" where
  "attribute_calls timer stack_size =
     [Inl (Runtime_Error ''Failed to init ETasker thread attr.''),
      Inl (Runtime_Error ''Failed to set ETasker thread attr detach state to PTHREAD_CREATE_DETACHED.''),
      Inl (Runtime_Error ''Failed to set ETasker thread inherit state to PTHREAD_EXPLICIT_SCHED.''),
      Inl (Runtime_Error (''Failed to set ETasker thread sched policy to '' @ sched_policy_name timer @ ''.'')),
      Inl Undefined,
      with_number ''Failed to set ETasker thread stack size to: '' stack_size,
      Inl (Runtime_Error ''Failed to set ETasker thread scope to PTHREAD_SCOPE_SYSTEM.'')]"

fun first_failure :: "(int \<times> unit res) list \<Rightarrow> unit res" where
  "first_failure [] = Inr ()"
| "first_failure ((i, failed) # calls) = (if i \<noteq> 0 then failed else first_failure calls)"

definition setThreadAttributes :: "int list \<Rightarrow> nat \<Rightarrow> unit res" where
  "setThreadAttributes results stack_size = first_failure (zip results (attribute_calls False stack_size))"

definition setTimerThreadAttributes :: "int list \<Rightarrow> nat \<Rightarrow> unit res" where
  "setTimerThreadAttributes results stack_min = first_failure (zip results (attribute_calls True stack_min))"

section \<open>The state\<close>

record 'a EThread =
  start_time :: nat
  timeout_s :: nat
  etask :: "'a option"

definition EThread_new :: "nat \<Rightarrow> nat \<Rightarrow> 'a \<Rightarrow> 'a EThread" where
  "EThread_new now ts task = \<lparr>start_time = now, timeout_s = ts, etask = Some task\<rparr>"

text \<open>
  The places of a thread: created with a task; its signal handler registered; outside the \<open>try\<close> of
  \<open>threadContext\<close>; at the test of its task; waiting for the queue; taking from the queue; running a
  task; in \<open>threadTeardown\<close> copying its entry, leaving the task, deciding, removing its handler
  and erasing its entry; blocked on a mutex it holds itself. In \<open>threadTeardown\<close> the first flag is
  \<open>force\<close>, and the last says whether an \<open>ETaskerUnWind\<close> would be caught.
\<close>

datatype 'a place =
    Created 'a
  | Registered 'a
  | Outside
  | Testing
  | Waiting
  | Taking
  | Running 'a
  | Copying bool bool
  | Leaving bool bool "'a option"
  | Deciding bool bool
  | Removing bool
  | Erasing
  | Blocked

record 'a tasker =
  thread_pool :: "(nat \<times> 'a EThread) list"
  thread_pool_queue :: "'a list"
  thread_limit :: nat
  num_threads :: nat
  tasker_fixed :: bool
  stack_size :: nat
  initial_timeout_s :: nat
  mutex_free :: bool
  sig_handlers :: "nat set"
  timer_registered :: bool
  signalled :: "nat set"
  seconds :: nat
  places :: "nat \<Rightarrow> 'a place option"
  aborted :: bool

text \<open>
  The constructor: \<open>fixed = fixed\<close> assigns the parameter to itself, so the member keeps what its
  memory holds, \<open>garbage\<close>. The timer has been started when a fixed pool is refused; its message
  passes an \<open>int\<close> to be read as a 64-bit integer.
\<close>

definition ETasker_new ::
  "bool \<Rightarrow> int list \<Rightarrow> nat \<Rightarrow> nat \<Rightarrow> nat \<Rightarrow> nat \<Rightarrow> bool \<Rightarrow> nat \<Rightarrow> 'a tasker res" where
  "ETasker_new garbage attrs stack_min nprocs limit ts fixed stack =
     bindR (setTimerThreadAttributes attrs stack_min) (\<lambda>_.
       if fixed \<and> nprocs < limit then Inl Undefined
       else Inr \<lparr>thread_pool = [], thread_pool_queue = [], thread_limit = limit, num_threads = 0,
         tasker_fixed = garbage, stack_size = stack, initial_timeout_s = ts, mutex_free = True,
         sig_handlers = {}, timer_registered = False, signalled = {}, seconds = 0,
         places = (\<lambda>_. None), aborted = False\<rparr>)"

abbreviation at_place :: "nat \<Rightarrow> 'a place \<Rightarrow> 'a tasker \<Rightarrow> 'a tasker" where
  "at_place t p s \<equiv> s\<lparr>places := (places s)(t := Some p)\<rparr>"

text \<open>\<open>thread_pool[pthread]\<close>: a missing entry reads as zeros and null.\<close>

definition pool_at :: "nat \<Rightarrow> 'a tasker \<Rightarrow> 'a EThread" where
  "pool_at t s = (case map_of (thread_pool s) t of
     None \<Rightarrow> \<lparr>start_time = 0, timeout_s = 0, etask = None\<rparr> | Some e \<Rightarrow> e)"

abbreviation set_task :: "nat \<Rightarrow> 'a option \<Rightarrow> 'a tasker \<Rightarrow> 'a tasker" where
  "set_task t x s \<equiv> s\<lparr>thread_pool := AList.update t ((pool_at t s)\<lparr>etask := x\<rparr>) (thread_pool s)\<rparr>"

section \<open>Calls of the pool\<close>

definition setThreadTimeout :: "nat \<Rightarrow> nat \<Rightarrow> ('a tasker, unit) prog" where
  "setThreadTimeout t ts s =
     (case map_of (thread_pool s) t of
        None \<Rightarrow> (Inl Out_Of_Range, s\<lparr>mutex_free := False\<rparr>)
      | Some e \<Rightarrow> (Inr (), s\<lparr>thread_pool := AList.update t (e\<lparr>timeout_s := ts\<rparr>) (thread_pool s)\<rparr>))"

definition getThreadTimeout :: "nat \<Rightarrow> ('a tasker, nat) prog" where
  "getThreadTimeout t s =
     (case map_of (thread_pool s) t of
        None \<Rightarrow> (Inl Out_Of_Range, s\<lparr>mutex_free := False\<rparr>)
      | Some e \<Rightarrow> (Inr (timeout_s e), s))"

text \<open>\<open>taskRun\<close>: \<open>created\<close> is the result of \<open>pthread_create\<close> and the new thread.\<close>

definition taskRun :: "int list \<Rightarrow> int \<times> nat \<Rightarrow> 'a \<Rightarrow> ('a tasker, int) prog" where
  "taskRun attrs created task s =
     (case setThreadAttributes attrs (stack_size s) of
        Inl e \<Rightarrow> (Inl e, s)
      | Inr _ \<Rightarrow> (Inr (fst created), if fst created = 0 then at_place (snd created) (Created task) s else s))"

definition run_task :: "int list \<Rightarrow> int \<times> nat \<Rightarrow> 'a \<Rightarrow> ('a tasker, int) prog" where
  "run_task attrs created task s =
     (if thread_limit s \<noteq> size_max \<and> thread_limit s \<le> num_threads s
      then (Inr 0, s\<lparr>thread_pool_queue := thread_pool_queue s @ [task]\<rparr>)
      else case taskRun attrs created task s of
          (Inl e, s') \<Rightarrow> (Inl e, s'\<lparr>mutex_free := False\<rparr>)
        | (Inr ret, s') \<Rightarrow> (Inr ret, if ret = 0 then s'\<lparr>num_threads := add64 (num_threads s') 1\<rparr> else s'))"

definition hasThreads :: "'a tasker \<Rightarrow> bool" where
  "hasThreads s \<longleftrightarrow> 0 < num_threads s \<or> timer_registered s"

text \<open>The wait of the destructor: \<open>has i\<close> is what the \<open>i\<close>-th call of \<open>hasThreads\<close> returns.\<close>

fun teardown_wait :: "nat \<Rightarrow> nat \<Rightarrow> (nat \<Rightarrow> bool) \<Rightarrow> nat \<times> nat" where
  "teardown_wait 0 i has = (0, i)"
| "teardown_wait (Suc k) i has = (if has i then teardown_wait k (Suc i) has else (Suc k, Suc i))"

definition ETasker_delete :: "(nat \<Rightarrow> bool) \<Rightarrow> unit res" where
  "ETasker_delete has =
     (case teardown_wait 7 0 has of (left, i) \<Rightarrow>
       if left = 0 \<and> has i then Inl (Runtime_Error ''Failed to teardown threads within specified timeout.'')
       else Inr ())"

section \<open>Steps of a thread\<close>

definition threadContext_step :: "nat \<Rightarrow> 'a place \<Rightarrow> 'a tasker \<Rightarrow> 'a tasker option" where
  "threadContext_step t p s =
     (case p of
        Created task \<Rightarrow> Some (at_place t (Registered task) (s\<lparr>sig_handlers := insert t (sig_handlers s)\<rparr>))
      | Registered task \<Rightarrow>
          if mutex_free s
          then Some (at_place t Outside (s\<lparr>thread_pool :=
            AList.update t (EThread_new (seconds s) (initial_timeout_s s) task) (thread_pool s)\<rparr>))
          else None
      | Outside \<Rightarrow> Some (at_place t Testing s)
      | _ \<Rightarrow> None)"

text \<open>\<open>throws\<close>: the task throws an exception, which leads to a forced teardown outside the \<open>try\<close>.\<close>

definition processThread_step :: "nat \<Rightarrow> bool \<Rightarrow> 'a place \<Rightarrow> 'a tasker \<Rightarrow> 'a tasker option" where
  "processThread_step t throws p s =
     (case p of
        Testing \<Rightarrow> (case etask (pool_at t s) of
            None \<Rightarrow> Some (at_place t Waiting s)
          | Some task \<Rightarrow> Some (at_place t (Running task) s))
      | Waiting \<Rightarrow> Some (if thread_pool_queue s = [] then s else at_place t Taking s)
      | Taking \<Rightarrow>
          if mutex_free s
          then Some (case thread_pool_queue s of
              [] \<Rightarrow> at_place t Testing s
            | task # queue \<Rightarrow> at_place t Testing (set_task t (Some task) (s\<lparr>thread_pool_queue := queue\<rparr>)))
          else None
      | Running task \<Rightarrow>
          Some (if throws then at_place t (Copying True False) s
                else if tasker_fixed s then at_place t Outside (set_task t None s)
                else at_place t (Copying False True) s)
      | _ \<Rightarrow> None)"

definition threadTeardown_step :: "nat \<Rightarrow> 'a place \<Rightarrow> 'a tasker \<Rightarrow> 'a tasker option" where
  "threadTeardown_step t p s =
     (case p of
        Copying force caught \<Rightarrow>
          if mutex_free s then Some (at_place t (Leaving force caught (etask (pool_at t s))) s) else None
      | Leaving force caught task \<Rightarrow> Some (at_place t (Deciding force caught) s)
      | Deciding force caught \<Rightarrow>
          if mutex_free s
          then Some (if thread_limit s \<noteq> size_max \<and> thread_pool_queue s \<noteq> [] \<and> \<not> force
              then if caught then at_place t Outside (set_task t None s) else s\<lparr>aborted := True\<rparr>
              else at_place t (Removing caught) s)
          else None
      | Removing caught \<Rightarrow> Some (at_place t Erasing (s\<lparr>sig_handlers := sig_handlers s - {t}\<rparr>))
      | Erasing \<Rightarrow>
          if mutex_free s
          then Some (s\<lparr>thread_pool := AList.delete t (thread_pool s), num_threads := sub64 (num_threads s) 1,
            signalled := signalled s - {t}, places := (places s)(t := None)\<rparr>)
          else None
      | _ \<Rightarrow> None)"

definition thread_step :: "nat \<Rightarrow> bool \<Rightarrow> 'a tasker \<Rightarrow> 'a tasker option" where
  "thread_step t throws s =
     (case places s t of
        None \<Rightarrow> None
      | Some p \<Rightarrow>
          (case threadContext_step t p s of
             Some s' \<Rightarrow> Some s'
           | None \<Rightarrow>
               (case processThread_step t throws p s of
                  Some s' \<Rightarrow> Some s'
                | None \<Rightarrow> threadTeardown_step t p s)))"

text \<open>The tasks whose code a step of the thread enters.\<close>

definition begun_by :: "nat \<Rightarrow> 'a tasker \<Rightarrow> 'a list" where
  "begun_by t s =
     (case places s t of
        Some Testing \<Rightarrow> (case etask (pool_at t s) of None \<Rightarrow> [] | Some task \<Rightarrow> [task])
      | _ \<Rightarrow> [])"

section \<open>The timer and signals\<close>

definition timerProcess_pass :: "'a tasker \<Rightarrow> 'a tasker" where
  "timerProcess_pass s =
     s\<lparr>signalled := signalled s \<union> set (map fst
       (filter (\<lambda>(t, e). add64 (start_time e) (timeout_s e) \<le> seconds s) (thread_pool s)))\<rparr>"

text \<open>
  A signal that reaches a thread with a handler: it begins \<open>threadTeardown(false)\<close> where it is.
  The unwinding ends in the \<open>try\<close> of \<open>threadContext\<close>, unless the thread was outside of it.
\<close>

fun unwinds :: "'a place \<Rightarrow> bool option" where
  "unwinds Outside = Some False"
| "unwinds Testing = Some True"
| "unwinds Waiting = Some True"
| "unwinds Taking = Some True"
| "unwinds (Running task) = Some True"
| "unwinds (Copying force caught) = Some caught"
| "unwinds (Leaving force caught task) = Some caught"
| "unwinds (Deciding force caught) = Some caught"
| "unwinds (Removing caught) = Some caught"
| "unwinds p = None"

text \<open>The places at which a thread locks the mutex and has a handler.\<close>

fun locks :: "'a place \<Rightarrow> bool" where
  "locks Taking = True"
| "locks (Copying force caught) = True"
| "locks (Deciding force caught) = True"
| "locks p = False"

definition threadSigAction :: "nat \<Rightarrow> bool \<Rightarrow> 'a tasker \<Rightarrow> 'a tasker" where
  "threadSigAction t caught s = at_place t (Copying False caught) (s\<lparr>signalled := signalled s - {t}\<rparr>)"

section \<open>Executions\<close>

text \<open>
  The task of a thread that has not been begun. An event says what a step does: which task a call
  of \<open>run\<close> was given and what it returned, which tasks a thread began, and which task a signal
  made a thread give up before it was begun.
\<close>

fun waits_with :: "'a place \<Rightarrow> 'a option \<Rightarrow> 'a list" where
  "waits_with (Created task) x = [task]"
| "waits_with (Registered task) x = [task]"
| "waits_with Outside (Some task) = [task]"
| "waits_with Testing (Some task) = [task]"
| "waits_with Waiting (Some task) = [task]"
| "waits_with Taking (Some task) = [task]"
| "waits_with p x = []"

definition waiting_task :: "nat \<Rightarrow> 'a tasker \<Rightarrow> 'a list" where
  "waiting_task t s =
     (case places s t of None \<Rightarrow> [] | Some p \<Rightarrow> waits_with p (etask (pool_at t s)))"

datatype 'a event =
    Run_Called 'a "int res"
  | Thread_Moved nat bool "'a list"
  | Timeout_Set "unit res"
  | Timeout_Read "nat res"
  | Clock_Moved
  | Timer_Started
  | Timer_Passed
  | Timer_Stopped
  | Destroyed
  | Signal_Handled nat "'a list"
  | Signal_Blocked nat

inductive tasker_step :: "'a tasker \<Rightarrow> 'a event \<Rightarrow> 'a tasker \<Rightarrow> bool" where
  run_called: "mutex_free s \<Longrightarrow> places s (snd created) = None \<Longrightarrow> run_task attrs created task s = (r, s') \<Longrightarrow>
    tasker_step s (Run_Called task r) s'"
| thread_moved: "thread_step t throws s = Some s' \<Longrightarrow> tasker_step s (Thread_Moved t throws (begun_by t s)) s'"
| timeout_set: "mutex_free s \<Longrightarrow> setThreadTimeout t ts s = (r, s') \<Longrightarrow> tasker_step s (Timeout_Set r) s'"
| timeout_read: "mutex_free s \<Longrightarrow> getThreadTimeout t s = (r, s') \<Longrightarrow> tasker_step s (Timeout_Read r) s'"
| clock_moved: "tasker_step s Clock_Moved (s\<lparr>seconds := Suc (seconds s)\<rparr>)"
| timer_started: "tasker_step s Timer_Started (s\<lparr>timer_registered := True\<rparr>)"
| timer_passed: "timer_registered s \<Longrightarrow> mutex_free s \<Longrightarrow> tasker_step s Timer_Passed (timerProcess_pass s)"
| timer_stopped: "timer_registered s \<Longrightarrow> locked \<longrightarrow> mutex_free s \<Longrightarrow>
    tasker_step s Timer_Stopped (s\<lparr>timer_registered := False, mutex_free := mutex_free s \<and> \<not> locked\<rparr>)"
| destroyed: "mutex_free s \<Longrightarrow>
    tasker_step s Destroyed (s\<lparr>signalled := signalled s \<union> set (map fst (thread_pool s))\<rparr>)"
| signal_handled: "t \<in> signalled s \<Longrightarrow> t \<in> sig_handlers s \<Longrightarrow> places s t = Some p \<Longrightarrow> unwinds p = Some caught \<Longrightarrow>
    tasker_step s (Signal_Handled t (waiting_task t s)) (threadSigAction t caught s)"
| signal_blocked: "t \<in> signalled s \<Longrightarrow> t \<in> sig_handlers s \<Longrightarrow> places s t = Some p \<Longrightarrow> locks p \<Longrightarrow> mutex_free s \<Longrightarrow>
    tasker_step s (Signal_Blocked t) (at_place t Blocked (s\<lparr>mutex_free := False\<rparr>))"

text \<open>An execution from the constructor; an uncaught exception ends the process.\<close>

inductive executes :: "'a tasker \<Rightarrow> 'a event list \<Rightarrow> 'a tasker \<Rightarrow> bool" where
  starts: "executes s [] s"
| continues: "executes s es s1 \<Longrightarrow> \<not> aborted s1 \<Longrightarrow> tasker_step s1 e s2 \<Longrightarrow> executes s (es @ [e]) s2"

fun accepted :: "'a event \<Rightarrow> 'a list" where
  "accepted (Run_Called task (Inr ret)) = (if ret = 0 then [task] else [])"
| "accepted e = []"

fun begun :: "'a event \<Rightarrow> 'a list" where
  "begun (Thread_Moved t throws tasks) = tasks"
| "begun e = []"


section \<open>Invariants\<close>

definition entered :: "'a place \<Rightarrow> bool" where
  "entered p \<longleftrightarrow> (\<forall>task. p \<noteq> Created task \<and> p \<noteq> Registered task)"

definition tasker_ok :: "'a tasker \<Rightarrow> bool" where
  "tasker_ok s \<longleftrightarrow>
     finite (dom (places s)) \<and> thread_limit s \<le> size_max \<and>
     num_threads s = card (dom (places s)) mod 2 ^ 64 \<and>
     (thread_limit s \<noteq> size_max \<longrightarrow> card (dom (places s)) \<le> thread_limit s) \<and>
     (thread_pool_queue s \<noteq> [] \<longrightarrow> thread_limit s \<noteq> size_max) \<and>
     (\<forall>t. t \<in> dom (map_of (thread_pool s)) \<longleftrightarrow> (\<exists>p. places s t = Some p \<and> entered p)) \<and>
     sig_handlers s \<subseteq> dom (places s) \<and>
     (\<forall>t. places s t = Some Erasing \<longrightarrow> t \<notin> sig_handlers s) \<and>
     (\<forall>t. places s t = Some Waiting \<or> places s t = Some Taking \<longrightarrow> etask (pool_at t s) = None)"

named_theorems stepping \<open>definitions of the steps\<close>

lemmas [stepping] = thread_step_def threadContext_step_def processThread_step_def threadTeardown_step_def

lemma pool_at_update [simp]: "pool_at u (s\<lparr>thread_pool := AList.update t e (thread_pool s)\<rparr>) =
    (if u = t then e else pool_at u s)"
  by (simp add: pool_at_def update_conv')

lemma pool_at_places [simp]: "pool_at t (s\<lparr>places := f\<rparr>) = pool_at t s"
  by (simp add: pool_at_def)

lemma sub64_count: "0 < n \<Longrightarrow> sub64 (n mod 2 ^ 64) 1 = (n - 1) mod 2 ^ 64"
proof -
  assume "0 < n"
  then obtain k where k: "n = Suc k" by (cases n) auto
  have "sub64 (Suc k mod 2 ^ 64) 1 = (Suc k mod 2 ^ 64 + (2 ^ 64 - 1)) mod 2 ^ 64"
    by (simp add: sub64_def)
  also have "\<dots> = (Suc k + (2 ^ 64 - 1)) mod 2 ^ 64" by (rule mod_add_left_eq)
  also have "\<dots> = (k + 2 ^ 64) mod 2 ^ 64" by simp
  also have "\<dots> = k mod 2 ^ 64" by (rule mod_add_self2)
  finally show ?thesis by (simp add: k)
qed

lemma ok_at_place:
  assumes "tasker_ok s" "places s t = Some p" "entered p" "entered q"
    and "q = Waiting \<or> q = Taking \<Longrightarrow> etask (pool_at t s) = None" "q = Erasing \<Longrightarrow> t \<notin> sig_handlers s"
  shows "tasker_ok (at_place t q s)"
proof -
  have d: "insert t (dom (places s)) = dom (places s)" using assms(2) by auto
  show ?thesis using assms unfolding tasker_ok_def by (simp add: d)
qed

lemma ok_pool_update:
  assumes "tasker_ok s" "places s t = Some p" "entered p" "etask e = None \<or> p \<noteq> Waiting \<and> p \<noteq> Taking"
  shows "tasker_ok (s\<lparr>thread_pool := AList.update t e (thread_pool s)\<rparr>)"
  using assms unfolding tasker_ok_def by (auto simp: update_conv')

lemma ok_queue_tail: "tasker_ok s \<Longrightarrow> thread_pool_queue s = a # q \<Longrightarrow> tasker_ok (s\<lparr>thread_pool_queue := q\<rparr>)"
  unfolding tasker_ok_def pool_at_def by auto

lemma ok_flags:
  "tasker_ok s \<Longrightarrow> tasker_ok (s\<lparr>aborted := b\<rparr>)"
  "tasker_ok s \<Longrightarrow> tasker_ok (s\<lparr>mutex_free := b\<rparr>)"
  "tasker_ok s \<Longrightarrow> tasker_ok (s\<lparr>seconds := n\<rparr>)"
  "tasker_ok s \<Longrightarrow> tasker_ok (s\<lparr>timer_registered := b\<rparr>)"
  "tasker_ok s \<Longrightarrow> tasker_ok (s\<lparr>timer_registered := b, mutex_free := b'\<rparr>)"
  "tasker_ok s \<Longrightarrow> tasker_ok (s\<lparr>signalled := x\<rparr>)"
  "tasker_ok s \<Longrightarrow> tasker_ok (s\<lparr>sig_handlers := sig_handlers s - {t}\<rparr>)"
  unfolding tasker_ok_def pool_at_def by auto

lemma entered_simps [simp]:
  "\<not> entered (Created a)" "\<not> entered (Registered a)" "entered Outside" "entered Testing" "entered Waiting"
  "entered Taking" "entered (Running a)" "entered (Copying f c)" "entered (Leaving f c x)"
  "entered (Deciding f c)" "entered (Removing c)" "entered Erasing" "entered Blocked"
  by (simp_all add: entered_def)

lemma threadContext_ok:
  assumes "tasker_ok s" "places s t = Some p" "threadContext_step t p s = Some s'"
  shows "tasker_ok s'"
proof (cases p)
  case (Created a)
  let ?s = "s\<lparr>sig_handlers := insert t (sig_handlers s), places := (places s)(t \<mapsto> Registered a)\<rparr>"
  have d: "insert t (dom (places s)) = dom (places s)" using assms(2) by auto
  have "tasker_ok ?s"
    using assms(1,2) Created unfolding tasker_ok_def by (simp add: d) (auto simp: pool_at_def)
  then show ?thesis using assms(3) Created by (simp add: threadContext_step_def)
next
  case (Registered a)
  let ?e = "EThread_new (seconds s) (initial_timeout_s s) a"
  let ?s = "s\<lparr>thread_pool := AList.update t ?e (thread_pool s), places := (places s)(t \<mapsto> Outside)\<rparr>"
  have d: "insert t (dom (places s)) = dom (places s)" using assms(2) by auto
  have "tasker_ok ?s"
    using assms(1,2) Registered unfolding tasker_ok_def
    by (simp add: d) (auto simp: pool_at_def update_conv')
  then show ?thesis using assms(3) Registered by (simp add: threadContext_step_def split: if_splits)
next
  case Outside
  then show ?thesis using assms by (auto simp: threadContext_step_def intro!: ok_at_place)
qed (use assms in \<open>simp_all add: threadContext_step_def\<close>)

lemma set_task_ok:
  assumes "tasker_ok s" "places s t = Some p" "entered p" "entered q" "q \<noteq> Waiting" "q \<noteq> Taking" "q \<noteq> Erasing"
  shows "tasker_ok (at_place t q (set_task t x s))"
proof -
  have "tasker_ok (at_place t q s)" using assms by (intro ok_at_place) auto
  then have "tasker_ok ((at_place t q s)\<lparr>thread_pool :=
      AList.update t ((pool_at t s)\<lparr>etask := x\<rparr>) (thread_pool (at_place t q s))\<rparr>)"
    using assms by (intro ok_pool_update [where p = q]) auto
  moreover have "(at_place t q s)\<lparr>thread_pool :=
      AList.update t ((pool_at t s)\<lparr>etask := x\<rparr>) (thread_pool (at_place t q s))\<rparr> = at_place t q (set_task t x s)"
    by simp
  ultimately show ?thesis by (simp only:)
qed

lemma processThread_ok:
  assumes "tasker_ok s" "places s t = Some p" "processThread_step t throws p s = Some s'"
  shows "tasker_ok s'"
proof (cases p)
  case Testing
  then show ?thesis
    using assms by (auto simp: processThread_step_def intro!: ok_at_place split: option.splits)
next
  case Waiting
  have "etask (pool_at t s) = None" using assms(1,2) Waiting by (auto simp: tasker_ok_def)
  then show ?thesis
    using assms Waiting by (auto simp: processThread_step_def intro!: ok_at_place split: if_splits)
next
  case Taking
  show ?thesis
  proof (cases "thread_pool_queue s")
    case Nil
    then show ?thesis
      using assms Taking by (auto simp: processThread_step_def intro!: ok_at_place split: if_splits)
  next
    case (Cons a q)
    then have "s' = at_place t Testing (set_task t (Some a) (s\<lparr>thread_pool_queue := q\<rparr>))"
      using assms(3) Taking by (simp add: processThread_step_def split: if_splits)
    moreover have "tasker_ok (at_place t Testing (set_task t (Some a) (s\<lparr>thread_pool_queue := q\<rparr>)))"
      by (rule set_task_ok [OF ok_queue_tail [OF assms(1) Cons], where p = p]) (use assms(2) Taking in simp_all)
    ultimately show ?thesis by simp
  qed
next
  case (Running a)
  then show ?thesis
    using assms set_task_ok [of s t p Outside None]
    by (auto simp: processThread_step_def intro!: ok_at_place split: if_splits)
qed (use assms in \<open>simp_all add: processThread_step_def\<close>)

lemma erase_ok:
  assumes "tasker_ok s" "places s t = Some p" "t \<notin> sig_handlers s"
  shows "tasker_ok (s\<lparr>thread_pool := AList.delete t (thread_pool s), num_threads := sub64 (num_threads s) 1,
    signalled := signalled s - {t}, places := (places s)(t := None)\<rparr>)"
proof -
  let ?n = "card (dom (places s))"
  have f: "finite (dom (places s))" and t: "t \<in> dom (places s)" using assms(1,2) by (auto simp: tasker_ok_def)
  then have n: "0 < ?n" by (auto simp: card_gt_0_iff)
  have d: "dom ((places s)(t := None)) = dom (places s) - {t}" by auto
  have c: "card (dom (places s) - {t}) = ?n - 1" using f t by simp
  show ?thesis
    using assms n unfolding tasker_ok_def d
    by (simp add: c sub64_count [simplified] delete_conv') (auto simp: pool_at_def delete_conv')
qed

lemma threadTeardown_ok:
  assumes "tasker_ok s" "places s t = Some p" "threadTeardown_step t p s = Some s'"
  shows "tasker_ok s'"
proof (cases p)
  case (Deciding f c)
  then show ?thesis
    using assms set_task_ok [of s t p Outside None]
    by (auto simp: threadTeardown_step_def ok_flags intro!: ok_at_place split: if_splits)
next
  case (Removing c)
  have "tasker_ok (at_place t Erasing (s\<lparr>sig_handlers := sig_handlers s - {t}\<rparr>))"
    using assms(1,2) Removing by (intro ok_at_place [where p = p] ok_flags) auto
  then show ?thesis using assms(3) Removing by (simp add: threadTeardown_step_def)
next
  case Erasing
  then have "t \<notin> sig_handlers s" using assms(1,2) by (auto simp: tasker_ok_def)
  then show ?thesis
    using assms Erasing erase_ok [OF assms(1,2)] by (auto simp: threadTeardown_step_def split: if_splits)
qed (use assms in \<open>auto simp: threadTeardown_step_def intro!: ok_at_place split: if_splits\<close>)

lemma thread_step_ok:
  assumes "tasker_ok s" "thread_step t throws s = Some s'"
  shows "tasker_ok s'"
proof -
  from assms(2) obtain p where p: "places s t = Some p" by (auto simp: thread_step_def split: option.splits)
  with assms(2) consider "threadContext_step t p s = Some s'" | "processThread_step t throws p s = Some s'"
    | "threadTeardown_step t p s = Some s'" by (auto simp: thread_step_def split: option.splits)
  then show ?thesis using threadContext_ok [OF assms(1) p] processThread_ok [OF assms(1) p] threadTeardown_ok [OF assms(1) p]
    by cases auto
qed

lemma run_task_ok:
  assumes "tasker_ok s" "places s (snd created) = None" "run_task attrs created task s = (r, s')"
  shows "tasker_ok s'"
proof (cases "thread_limit s \<noteq> size_max \<and> thread_limit s \<le> num_threads s")
  case True
  then have "s' = s\<lparr>thread_pool_queue := thread_pool_queue s @ [task]\<rparr>" using assms(3) by (simp add: run_task_def)
  then show ?thesis using assms(1) True unfolding tasker_ok_def pool_at_def by simp
next
  case False
  let ?t = "snd created"
  let ?s = "(at_place ?t (Created task) s)\<lparr>num_threads := add64 (num_threads s) 1\<rparr>"
  have f: "finite (dom (places s))" and n: "num_threads s = card (dom (places s)) mod 2 ^ 64"
    using assms(1) by (simp_all add: tasker_ok_def)
  have c: "card (insert ?t (dom (places s))) = Suc (card (dom (places s)))"
    using f assms(2) by (simp add: domIff)
  have l: "thread_limit s \<noteq> size_max \<longrightarrow> Suc (card (dom (places s))) \<le> thread_limit s"
  proof
    assume "thread_limit s \<noteq> size_max"
    moreover have "card (dom (places s)) < 2 ^ 64"
      using assms(1) calculation unfolding tasker_ok_def size_max_def by auto
    ultimately show "Suc (card (dom (places s))) \<le> thread_limit s" using False n by simp
  qed
  have m: "add64 (card (dom (places s)) mod 2 ^ 64) 1 = Suc (card (dom (places s))) mod 2 ^ 64"
    by (simp add: add64_def mod_Suc_eq)
  have "tasker_ok ?s"
    using assms(1,2) l unfolding tasker_ok_def
    by (simp add: c m [simplified]) (auto simp: pool_at_def)
  then show ?thesis
    using False assms(1,3) by (auto simp: run_task_def taskRun_def ok_flags split: sum.splits if_splits)
qed

lemma unwinds_entered: "unwinds p = Some c \<Longrightarrow> entered p"
  by (cases p) simp_all

lemma locks_entered: "locks p \<Longrightarrow> entered p"
  by (cases p) simp_all


lemma pool_place: "tasker_ok s \<Longrightarrow> map_of (thread_pool s) t = Some e \<Longrightarrow> \<exists>p. places s t = Some p \<and> entered p"
  unfolding tasker_ok_def by (metis domI)

lemma timeout_ok:
  assumes "tasker_ok s" "setThreadTimeout t ts s = (r, s')"
  shows "tasker_ok s'"
proof (cases "map_of (thread_pool s) t")
  case None
  then show ?thesis using assms by (auto simp: setThreadTimeout_def ok_flags)
next
  case (Some e)
  then obtain p where p: "places s t = Some p" "entered p" using pool_place [OF assms(1)] by blast
  have "etask e = etask (pool_at t s)" using Some by (simp add: pool_at_def)
  then have "etask (e\<lparr>timeout_s := ts\<rparr>) = None \<or> p \<noteq> Waiting \<and> p \<noteq> Taking"
    using assms(1) p(1) by (auto simp: tasker_ok_def)
  then show ?thesis using assms p Some ok_pool_update [OF assms(1) p] by (auto simp: setThreadTimeout_def)
qed

lemma tasker_step_ok: "tasker_step s e s' \<Longrightarrow> tasker_ok s \<Longrightarrow> tasker_ok s'"
proof (induction rule: tasker_step.induct)
  case (run_called s created attrs task r s')
  then show ?case by (blast intro: run_task_ok)
next
  case (thread_moved t throws s s')
  then show ?case by (blast intro: thread_step_ok)
next
  case (timeout_set s t ts r s')
  then show ?case by (blast intro: timeout_ok)
next
  case (timeout_read s t r s')
  then show ?case by (auto simp: getThreadTimeout_def ok_flags split: option.splits)
next
  case (timer_passed s)
  then show ?case unfolding timerProcess_pass_def by (blast intro: ok_flags)
next
  case (signal_handled t s p caught)
  then show ?case unfolding threadSigAction_def
    by (intro ok_at_place [where p = p] ok_flags) (auto dest: unwinds_entered)
next
  case (signal_blocked t s p)
  then show ?case by (intro ok_at_place [where p = p] ok_flags) (auto dest: locks_entered)
qed (simp_all add: ok_flags)

lemma tasker_new_ok:
  assumes "ETasker_new garbage attrs stack_min nprocs limit ts fixed stack = Inr s" "limit \<le> size_max"
  shows "tasker_ok s" "\<not> aborted s" "thread_limit s = limit" "thread_pool_queue s = []" "places s = (\<lambda>_. None)"
    "mutex_free s" "thread_pool s = []" "num_threads s = 0" "sig_handlers s = {}" "stack_size s = stack"
    "tasker_fixed s = garbage" "signalled s = {}" "initial_timeout_s s = ts"
  using assms by (cases "setTimerThreadAttributes attrs stack_min"; auto simp: ETasker_new_def tasker_ok_def pool_at_def split: if_splits)+

lemma executes_ok: "executes s es s' \<Longrightarrow> tasker_ok s \<Longrightarrow> tasker_ok s'"
  by (induction rule: executes.induct) (blast intro: tasker_step_ok)+

section \<open>Where the tasks are\<close>









text \<open>The tasks of a list of events.\<close>

abbreviation tasks_of :: "('a event \<Rightarrow> 'a list) \<Rightarrow> 'a event list \<Rightarrow> 'a multiset" where
  "tasks_of f es \<equiv> mset (concat (map f es))"








section \<open>Turns of one thread\<close>

text \<open>
  \<open>turns t choices s\<close>: the thread alone makes steps while it can, one for every choice, which says
  whether the task throws if it is running.
\<close>

fun turns :: "nat \<Rightarrow> bool list \<Rightarrow> 'a tasker \<Rightarrow> 'a event list \<times> 'a tasker" where
  "turns t [] s = ([], s)"
| "turns t (throws # choices) s =
     (case (if aborted s then None else thread_step t throws s) of
        None \<Rightarrow> ([], s)
      | Some s1 \<Rightarrow>
          (case turns t choices s1 of (es, s2) \<Rightarrow> (Thread_Moved t throws (begun_by t s) # es, s2)))"

lemma executes_append: "executes s2 es2 s3 \<Longrightarrow> executes s1 es1 s2 \<Longrightarrow> executes s1 (es1 @ es2) s3"
proof (induction rule: executes.induct)
  case (continues s es s' e s'')
  then show ?case using executes.continues [of s1 "es1 @ es" s' e s''] by simp
qed simp

lemma executes_step: "\<not> aborted s \<Longrightarrow> tasker_step s e s' \<Longrightarrow> executes s [e] s'"
  using executes.continues [OF executes.starts] by fastforce

lemma turns_execute: "executes s (fst (turns t choices s)) (snd (turns t choices s))"
proof (induction choices arbitrary: s)
  case Nil
  then show ?case by (simp add: executes.starts)
next
  case (Cons throws choices)
  show ?case
  proof (cases "if aborted s then None else thread_step t throws s")
    case None
    then show ?thesis by (simp add: executes.starts)
  next
    case (Some s1)
    then have "\<not> aborted s" "thread_step t throws s = Some s1" by (auto split: if_splits)
    then have "executes s [Thread_Moved t throws (begun_by t s)] s1" by (intro executes_step tasker_step.thread_moved)
    then show ?thesis using executes_append [OF Cons.IH [of s1], of s "[Thread_Moved t throws (begun_by t s)]"] Some
      by (simp add: case_prod_beta)
  qed
qed

definition begins :: "nat \<Rightarrow> nat \<Rightarrow> 'a tasker \<Rightarrow> 'a \<Rightarrow> bool" where
  "begins t n s a \<longleftrightarrow> a \<in> set (concat (map begun (fst (turns t (replicate n False) s))))"

lemma begins_later:
  assumes "thread_step t False s = Some s1" "\<not> aborted s" "begins t n s1 a"
  shows "begins t (Suc n) s a"
  using assms by (simp add: begins_def case_prod_beta)

lemma begins_mono: "begins t n s a \<Longrightarrow> n \<le> m \<Longrightarrow> begins t m s a"
proof (induction n arbitrary: s m)
  case 0
  then show ?case by (simp add: begins_def)
next
  case (Suc n)
  then obtain k where k: "m = Suc k" "n \<le> k" by (cases m) auto
  then show ?case using Suc.prems Suc.IH
    by (auto simp: begins_def case_prod_beta split: option.splits if_splits)
qed

text \<open>\<open>ready a s\<close>: the task is first in the queue, and nothing holds the mutex.\<close>

definition ready :: "'a \<Rightarrow> 'a tasker \<Rightarrow> bool" where
  "ready a s \<longleftrightarrow> mutex_free s \<and> \<not> aborted s \<and> thread_limit s \<noteq> size_max \<and> (\<exists>q. thread_pool_queue s = a # q)"

lemma ready_simps [simp]: "ready a (s\<lparr>places := f\<rparr>) = ready a s" "ready a (s\<lparr>thread_pool := m\<rparr>) = ready a s"
  "ready a (s\<lparr>sig_handlers := x\<rparr>) = ready a s"
  by (simp_all add: ready_def)

lemma begins_own: "ready a s \<Longrightarrow> places s t = Some Testing \<Longrightarrow> etask (pool_at t s) = Some b \<Longrightarrow> begins t 1 s b"
  by (simp add: begins_def stepping begun_by_def ready_def)

lemma begins_taking:
  assumes "ready a s" "places s t = Some Taking"
  shows "begins t 2 s a"
proof -
  obtain q where q: "thread_pool_queue s = a # q" using assms(1) by (auto simp: ready_def)
  then have "thread_step t False s = Some (at_place t Testing (set_task t (Some a) (s\<lparr>thread_pool_queue := q\<rparr>)))"
    using assms by (simp add: stepping ready_def)
  moreover have "begins t 1 (at_place t Testing (set_task t (Some a) (s\<lparr>thread_pool_queue := q\<rparr>))) a"
    using assms by (simp add: begins_def stepping begun_by_def ready_def pool_at_def update_conv')
  ultimately show ?thesis using begins_later assms(1) by (fastforce simp: ready_def numeral_2_eq_2)
qed

lemma begins_via:
  assumes "begins t n s' a" "ready b s" "thread_step t False s = Some s'" "Suc n \<le> m"
  shows "begins t m s a"
  using begins_mono [OF begins_later [OF assms(3) _ assms(1)] assms(4)] assms(2) by (simp add: ready_def)

lemma begins_waiting:
  assumes "ready a s" "places s t = Some Waiting"
  shows "begins t 3 s a"
proof (rule begins_via [OF begins_taking [of a "at_place t Taking s"] assms(1)])
  show "thread_step t False s = Some (at_place t Taking s)" using assms by (auto simp: stepping ready_def)
qed (use assms in simp_all)

lemma begins_testing:
  assumes "ready a s" "places s t = Some Testing" "etask (pool_at t s) = None"
  shows "begins t 4 s a"
proof (rule begins_via [OF begins_waiting [of a "at_place t Waiting s"] assms(1)])
  show "thread_step t False s = Some (at_place t Waiting s)" using assms by (simp add: stepping)
qed (use assms in simp_all)

lemma begins_outside:
  assumes "ready a s" "places s t = Some Outside" "etask (pool_at t s) = None"
  shows "begins t 5 s a"
proof (rule begins_via [OF begins_testing [of a "at_place t Testing s"] assms(1)])
  show "thread_step t False s = Some (at_place t Testing s)" using assms by (simp add: stepping)
qed (use assms in simp_all)

lemma begins_deciding:
  assumes "ready a s" "places s t = Some (Deciding False True)"
  shows "begins t 6 s a"
proof (rule begins_via [OF begins_outside [of a "at_place t Outside (set_task t None s)"] assms(1)])
  show "thread_step t False s = Some (at_place t Outside (set_task t None s))"
    using assms by (auto simp: stepping ready_def)
qed (use assms in simp_all)

lemma begins_leaving:
  assumes "ready a s" "places s t = Some (Leaving False True x)"
  shows "begins t 7 s a"
proof (rule begins_via [OF begins_deciding [of a "at_place t (Deciding False True) s"] assms(1)])
  show "thread_step t False s = Some (at_place t (Deciding False True) s)" using assms by (simp add: stepping)
qed (use assms in simp_all)

lemma begins_copying:
  assumes "ready a s" "places s t = Some (Copying False True)"
  shows "begins t 8 s a"
proof (rule begins_via [OF begins_leaving [of a "at_place t (Leaving False True (etask (pool_at t s))) s"] assms(1)])
  show "thread_step t False s = Some (at_place t (Leaving False True (etask (pool_at t s))) s)"
    using assms by (simp add: stepping ready_def)
qed (use assms in simp_all)

lemma begins_running:
  assumes "ready a s" "places s t = Some (Running b)"
  shows "begins t 9 s a"
proof (cases "tasker_fixed s")
  case True
  show ?thesis
  proof (rule begins_via [OF begins_outside [of a "at_place t Outside (set_task t None s)"] assms(1)])
    show "thread_step t False s = Some (at_place t Outside (set_task t None s))"
      using assms True by (simp add: stepping)
  qed (use assms in simp_all)
next
  case False
  show ?thesis
  proof (rule begins_via [OF begins_copying [of a "at_place t (Copying False True) s"] assms(1)])
    show "thread_step t False s = Some (at_place t (Copying False True) s)" using assms False by (simp add: stepping)
  qed (use assms in simp_all)
qed

lemma begins_testing_any:
  assumes "ready a s" "places s t = Some Testing"
  shows "begins t 10 s a"
proof (cases "etask (pool_at t s)")
  case None
  then show ?thesis using begins_mono [OF begins_testing [OF assms]] by simp
next
  case (Some b)
  show ?thesis
  proof (rule begins_via [OF begins_running [of a "at_place t (Running b) s"] assms(1)])
    show "thread_step t False s = Some (at_place t (Running b) s)" using assms Some by (simp add: stepping)
  qed (use assms in simp_all)
qed

lemma begins_outside_any:
  assumes "ready a s" "places s t = Some Outside"
  shows "begins t 11 s a"
proof (rule begins_via [OF begins_testing_any [of a "at_place t Testing s"] assms(1)])
  show "thread_step t False s = Some (at_place t Testing s)" using assms by (simp add: stepping)
qed (use assms in simp_all)

lemma begins_registered:
  assumes "ready a s" "places s t = Some (Registered b)"
  shows "begins t 12 s a"
proof -
  let ?s = "s\<lparr>thread_pool := AList.update t (EThread_new (seconds s) (initial_timeout_s s) b) (thread_pool s)\<rparr>"
  show ?thesis
  proof (rule begins_via [OF begins_outside_any [of a "at_place t Outside ?s"] assms(1)])
    show "thread_step t False s = Some (at_place t Outside ?s)" using assms by (simp add: stepping ready_def)
  qed (use assms in simp_all)
qed

lemma begins_created:
  assumes "ready a s" "places s t = Some (Created b)"
  shows "begins t 13 s a"
proof -
  let ?s = "s\<lparr>sig_handlers := insert t (sig_handlers s)\<rparr>"
  show ?thesis
  proof (rule begins_via [OF begins_registered [of a "at_place t (Registered b) ?s"] assms(1)])
    show "thread_step t False s = Some (at_place t (Registered b) ?s)" using assms by (simp add: stepping)
  qed (use assms in simp_all)
qed

text \<open>A thread that is not on its way out.\<close>

fun stays :: "'a place \<Rightarrow> bool" where
  "stays (Copying force caught) = (\<not> force \<and> caught)"
| "stays (Leaving force caught task) = (\<not> force \<and> caught)"
| "stays (Deciding force caught) = (\<not> force \<and> caught)"
| "stays (Removing caught) = False"
| "stays Erasing = False"
| "stays Blocked = False"
| "stays p = True"

lemma begins_queued:
  assumes "ready a s" "places s t = Some p" "stays p"
  shows "begins t 13 s a"
  using assms(2,3)
  by (cases p) (auto intro: begins_created [OF assms(1)] begins_mono [OF begins_registered [OF assms(1)]]
    begins_mono [OF begins_outside_any [OF assms(1)]] begins_mono [OF begins_testing_any [OF assms(1)]]
    begins_mono [OF begins_waiting [OF assms(1)]] begins_mono [OF begins_taking [OF assms(1)]]
    begins_mono [OF begins_running [OF assms(1)]] begins_mono [OF begins_copying [OF assms(1)]]
    begins_mono [OF begins_leaving [OF assms(1)]] begins_mono [OF begins_deciding [OF assms(1)]])

section \<open>Tasks that stay in the queue\<close>

text \<open>\<open>idle b s\<close>: a task is queued, and there is no thread.\<close>

definition idle :: "'a \<Rightarrow> 'a tasker \<Rightarrow> bool" where
  "idle b s \<longleftrightarrow> thread_pool_queue s = [b] \<and> places s = (\<lambda>_. None) \<and> mutex_free s \<and> \<not> aborted s"

lemma idle_stays:
  assumes "tasker_step s e s'" "places s = (\<lambda>_. None)" "\<forall>task r. e \<noteq> Run_Called task r"
  shows "thread_pool_queue s' = thread_pool_queue s \<and> places s' = (\<lambda>_. None)"
  using assms
  by (induction rule: tasker_step.induct)
    (auto simp: thread_step_def setThreadTimeout_def getThreadTimeout_def timerProcess_pass_def split: option.splits)

definition zeros7 :: "int list" where
  "zeros7 = [0, 0, 0, 0, 0, 0, 0]"

lemma attributes_set [simp]: "setThreadAttributes zeros7 n = Inr ()"
  by (simp add: zeros7_def setThreadAttributes_def attribute_calls_def)

lemma run_started:
  assumes "thread_limit s = 1" "num_threads s = 0"
  shows "run_task zeros7 (0, t) a s = (Inr 0, (at_place t (Created a) s)\<lparr>num_threads := 1\<rparr>)"
  using assms by (simp add: run_task_def taskRun_def add64_def)

lemma run_queued:
  assumes "thread_limit s = 1" "num_threads s = 1"
  shows "run_task attrs created b s = (Inr 0, s\<lparr>thread_pool_queue := thread_pool_queue s @ [b]\<rparr>)"
  using assms by (simp add: run_task_def size_max_def)

lemma moves:
  "places s t = Some (Created a) \<Longrightarrow>
    thread_step t x s = Some (at_place t (Registered a) (s\<lparr>sig_handlers := insert t (sig_handlers s)\<rparr>))"
  "places s t = Some (Registered a) \<Longrightarrow> mutex_free s \<Longrightarrow> thread_step t x s = Some (at_place t Outside (s\<lparr>thread_pool :=
    AList.update t (EThread_new (seconds s) (initial_timeout_s s) a) (thread_pool s)\<rparr>))"
  "places s t = Some Outside \<Longrightarrow> thread_step t x s = Some (at_place t Testing s)"
  "places s t = Some Testing \<Longrightarrow> etask (pool_at t s) = Some a \<Longrightarrow> thread_step t x s = Some (at_place t (Running a) s)"
  "places s t = Some (Running a) \<Longrightarrow> thread_step t True s = Some (at_place t (Copying True False) s)"
  "places s t = Some (Running a) \<Longrightarrow> \<not> tasker_fixed s \<Longrightarrow> thread_step t False s = Some (at_place t (Copying False True) s)"
  "places s t = Some (Copying f c) \<Longrightarrow> mutex_free s \<Longrightarrow>
    thread_step t x s = Some (at_place t (Leaving f c (etask (pool_at t s))) s)"
  "places s t = Some (Leaving f c y) \<Longrightarrow> thread_step t x s = Some (at_place t (Deciding f c) s)"
  "places s t = Some (Deciding f c) \<Longrightarrow> mutex_free s \<Longrightarrow> f \<or> thread_pool_queue s = [] \<Longrightarrow>
    thread_step t x s = Some (at_place t (Removing c) s)"
  "places s t = Some (Removing c) \<Longrightarrow>
    thread_step t x s = Some (at_place t Erasing (s\<lparr>sig_handlers := sig_handlers s - {t}\<rparr>))"
  "places s t = Some Erasing \<Longrightarrow> mutex_free s \<Longrightarrow> thread_step t x s = Some (s\<lparr>thread_pool := AList.delete t (thread_pool s),
    num_threads := sub64 (num_threads s) 1, signalled := signalled s - {t}, places := (places s)(t := None)\<rparr>)"
  by (auto simp: stepping)

text \<open>A task that throws while another is queued, and a task that is queued after the decision to exit.\<close>

lemma throwing_strands:
  assumes "places s = [0 \<mapsto> Created a]" "thread_pool s = []" "thread_pool_queue s = [b]" "mutex_free s" "\<not> aborted s"
  shows "\<exists>es s'. turns 0 [False, False, False, False, True, False, False, False, False, False] s = (es, s') \<and>
    idle b s' \<and> concat (map begun es) = [a] \<and> concat (map accepted es) = []"
  using assms by (simp add: moves begun_by_def pool_at_def EThread_new_def idle_def)

lemma decision_reached:
  assumes "places s = [0 \<mapsto> Created a]" "thread_pool s = []" "thread_pool_queue s = []" "mutex_free s" "\<not> aborted s"
    "\<not> tasker_fixed s"
  shows "\<exists>es s'. turns 0 [False, False, False, False, False, False, False, False] s = (es, s') \<and>
    places s' = [0 \<mapsto> Removing True] \<and> thread_pool_queue s' = [] \<and> mutex_free s' \<and> \<not> aborted s' \<and>
    thread_limit s' = thread_limit s \<and> num_threads s' = num_threads s \<and>
    concat (map begun es) = [a] \<and> concat (map accepted es) = [] \<and> (\<forall>t tasks. Thread_Moved t True tasks \<notin> set es)"
  using assms by (simp add: moves begun_by_def pool_at_def EThread_new_def)

lemma decided_strands:
  assumes "places s = [0 \<mapsto> Removing True]" "thread_pool_queue s = [b]" "mutex_free s" "\<not> aborted s"
  shows "\<exists>es s'. turns 0 [False, False] s = (es, s') \<and>
    idle b s' \<and> concat (map begun es) = [] \<and> concat (map accepted es) = [] \<and>
    (\<forall>t tasks. Thread_Moved t True tasks \<notin> set es)"
  using assms by (simp add: moves begun_by_def idle_def)

lemma turns_executes: "turns t choices s = (es, s') \<Longrightarrow> executes s es s'"
  using turns_execute [of s t choices] by simp

lemma run_executes:
  assumes "mutex_free s" "\<not> aborted s" "places s (snd created) = None" "run_task attrs created a s = (r, s')"
  shows "executes s [Run_Called a r] s'"
  using assms by (intro executes_step tasker_step.run_called)

lemma stranded_by_throwing:
  assumes "thread_limit s = 1" "num_threads s = 0" "places s = (\<lambda>_. None)" "thread_pool s = []"
    "thread_pool_queue s = []" "mutex_free s" "\<not> aborted s"
  shows "\<exists>es s'. executes s es s' \<and> concat (map accepted es) = [a, b] \<and> concat (map begun es) = [a] \<and> idle b s'"
proof -
  let ?s1 = "(at_place 0 (Created a) s)\<lparr>num_threads := 1\<rparr>"
  let ?s2 = "?s1\<lparr>thread_pool_queue := [b]\<rparr>"
  have "executes s [Run_Called a (Inr 0)] ?s1"
    using assms by (intro run_executes [where attrs = zeros7 and created = "(0, 0)"] run_started) simp_all
  moreover have "executes ?s1 [Run_Called b (Inr 0)] ?s2"
    using assms by (intro run_executes [where created = "(0, 1)"]) (simp_all add: run_queued)
  ultimately have two: "executes s [Run_Called a (Inr 0), Run_Called b (Inr 0)] ?s2"
    using executes_append by fastforce
  obtain es s' where es: "executes ?s2 es s'" "idle b s'" "concat (map begun es) = [a]" "concat (map accepted es) = []"
    using throwing_strands [of ?s2 a b] turns_executes assms by fastforce
  show ?thesis using executes_append [OF es(1) two] es by fastforce
qed

lemma stranded_by_deciding:
  assumes "thread_limit s = 1" "num_threads s = 0" "places s = (\<lambda>_. None)" "thread_pool s = []"
    "thread_pool_queue s = []" "mutex_free s" "\<not> aborted s" "\<not> tasker_fixed s"
  shows "\<exists>es s'. executes s es s' \<and> concat (map accepted es) = [a, b] \<and> concat (map begun es) = [a] \<and> idle b s' \<and>
    (\<forall>t tasks. Thread_Moved t True tasks \<notin> set es)"
proof -
  let ?s1 = "(at_place 0 (Created a) s)\<lparr>num_threads := 1\<rparr>"
  have one: "executes s [Run_Called a (Inr 0)] ?s1"
    using assms by (intro run_executes [where attrs = zeros7 and created = "(0, 0)"] run_started) simp_all
  obtain es1 s2 where t1: "turns 0 [False, False, False, False, False, False, False, False] ?s1 = (es1, s2)"
    and s2: "places s2 = [0 \<mapsto> Removing True]" "thread_pool_queue s2 = []" "mutex_free s2" "\<not> aborted s2"
      "thread_limit s2 = 1" "num_threads s2 = 1"
      "concat (map begun es1) = [a]" "concat (map accepted es1) = []" "\<forall>t tasks. Thread_Moved t True tasks \<notin> set es1"
    using decision_reached [of ?s1 a] assms by auto
  let ?s3 = "s2\<lparr>thread_pool_queue := [b]\<rparr>"
  have three: "executes s2 [Run_Called b (Inr 0)] ?s3"
    using s2 by (intro run_executes [where created = "(0, 1)"]) (simp_all add: run_queued)
  obtain es2 s' where t2: "turns 0 [False, False] ?s3 = (es2, s')"
    and s': "idle b s'" "concat (map begun es2) = []" "concat (map accepted es2) = []"
      "\<forall>t tasks. Thread_Moved t True tasks \<notin> set es2"
    using decided_strands [of ?s3 b] s2 by auto
  let ?es = "(([Run_Called a (Inr 0)] @ es1) @ [Run_Called b (Inr 0)]) @ es2"
  have "executes s ?es s'"
    by (intro executes_append [OF turns_executes [OF t2]] executes_append [OF three]
      executes_append [OF turns_executes [OF t1]] one)
  moreover have "concat (map accepted ?es) = [a, b]" "concat (map begun ?es) = [a]" using s2(7,8) s'(2,3)
    by (simp_all only: map_append concat_append list.map concat.simps accepted.simps begun.simps append.simps append_Nil2
      if_True simp_thms)
  moreover have "\<forall>t tasks. Thread_Moved t True tasks \<notin> set ?es" using s2(9) s'(4) by simp
  ultimately show ?thesis using s'(1) by blast
qed





section \<open>Properties\<close>





text \<open>
  C10. A queued task is begun by a thread that is left to run: in a reached state with a task in
  the queue and the mutex free, a thread of a limited pool that is not on its way out, wherever
  it stands, begins the first task of the queue if it takes 13 steps in a row. The 13 steps are
  consecutive: no step of another thread, no call of \<open>run\<close>, no signal and no exception lies
  between them. With another thread in between, that thread may take the task instead, and
  \<open>queue_stranded\<close> below shows that without such a thread the task can stay in the queue.
\<close>

theorem queued_task_begins:
  assumes "ETasker_new garbage attrs stack_min nprocs limit ts fixed stack = Inr s0" and "limit \<le> size_max"
    and "executes s0 es s" and "thread_pool_queue s = a # q"
    and "mutex_free s" and "\<not> aborted s" and "places s t = Some p" and "stays p"
  shows "a \<in># tasks_of begun (fst (turns t (replicate 13 False) s))"
proof -
  have "tasker_ok s" by (rule executes_ok [OF assms(3) tasker_new_ok(1) [OF assms(1,2)]])
  then have "thread_limit s \<noteq> size_max" using assms(4) by (simp add: tasker_ok_def)
  then have "ready a s" using assms(4-6) by (simp add: ready_def)
  then have "begins t 13 s a" using assms(7,8) by (rule begins_queued)
  then show ?thesis unfolding begins_def by (simp only: set_mset_mset)
qed

theorem queued_task_begins_witness:
  "\<exists>s. thread_pool_queue s = [2] \<and> (2::nat) \<in># tasks_of begun (fst (turns 0 (replicate 13 False) s))"
proof -
  obtain s0 :: "nat tasker" where new: "ETasker_new False [] 16384 4 1 7 False 16384 = Inr s0"
    by (simp add: ETasker_new_def setTimerThreadAttributes_def)
  have l: "1 \<le> size_max" by (simp add: size_max_def)
  note s0 = tasker_new_ok [OF new l]
  let ?s1 = "(at_place 0 (Created 1) s0)\<lparr>num_threads := 1\<rparr>"
  let ?s2 = "?s1\<lparr>thread_pool_queue := [2]\<rparr>"
  have one: "executes s0 [Run_Called 1 (Inr 0)] ?s1"
    by (rule run_executes [where attrs = zeros7 and created = "(0, 0)"], simp_all add: s0 run_started del: One_nat_def)
  have "executes ?s1 [Run_Called 2 (Inr 0)] ?s2"
    by (rule run_executes [where created = "(0, 1)"], simp_all add: s0 run_queued del: One_nat_def)
  from executes_append [OF this one] have "2 \<in># tasks_of begun (fst (turns 0 (replicate 13 False) ?s2))"
    by (rule queued_task_begins [OF new l, where q = "[]" and p = "Created 1"]) (simp_all add: s0)
  then show ?thesis by (intro exI [of _ ?s2]) simp
qed

text \<open>
  A queued task may never be begun. With one thread and two tasks, executions end in a state
  with the second task in the queue and no thread: when the first task throws, and also without
  an exception, when the second is queued after the thread has found the queue empty. In such a
  state nothing but another call of \<open>run\<close> changes the queue or creates a thread.
\<close>

theorem queue_stranded:
  assumes "ETasker_new garbage attrs stack_min nprocs 1 ts fixed stack = Inr s0"
  shows "(\<exists>es s. executes s0 es s \<and> concat (map accepted es) = [a, b] \<and> concat (map begun es) = [a] \<and> idle b s) \<and>
    (\<not> garbage \<longrightarrow> (\<exists>es s. executes s0 es s \<and> concat (map accepted es) = [a, b] \<and> concat (map begun es) = [a] \<and>
      idle b s \<and> (\<forall>t tasks. Thread_Moved t True tasks \<notin> set es))) \<and>
    (\<forall>s e s'. idle b s \<longrightarrow> tasker_step s e s' \<longrightarrow> (\<forall>task r. e \<noteq> Run_Called task r) \<longrightarrow>
      thread_pool_queue s' = [b] \<and> places s' = (\<lambda>_. None))"
proof -
  have l: "1 \<le> size_max" by (simp add: size_max_def)
  note new = tasker_new_ok [OF assms l]
  have "\<exists>es s. executes s0 es s \<and> concat (map accepted es) = [a, b] \<and> concat (map begun es) = [a] \<and> idle b s"
    by (rule stranded_by_throwing) (simp_all add: new)
  moreover have "\<exists>es s. executes s0 es s \<and> concat (map accepted es) = [a, b] \<and> concat (map begun es) = [a] \<and>
      idle b s \<and> (\<forall>t tasks. Thread_Moved t True tasks \<notin> set es)" if "\<not> garbage"
    by (rule stranded_by_deciding) (simp_all add: new that)
  moreover have "thread_pool_queue s' = [b] \<and> places s' = (\<lambda>_. None)"
    if "idle b s" "tasker_step s e s'" "\<forall>task r. e \<noteq> Run_Called task r" for s s' :: "'a tasker" and e
    using idle_stays [OF that(2) _ that(3)] that(1) by (simp add: idle_def)
  ultimately show ?thesis by blast
qed

theorem queue_stranded_witness:
  "\<exists>s0 es s. ETasker_new False [] 16384 4 1 7 False 16384 = Inr s0 \<and> executes s0 es s \<and> idle (2::nat) s"
proof -
  obtain s0 :: "nat tasker" where new: "ETasker_new False [] 16384 4 1 7 False 16384 = Inr s0"
    by (simp add: ETasker_new_def setTimerThreadAttributes_def)
  then show ?thesis using queue_stranded [OF new, of 1 2] by blast
qed

text \<open>
  The timeout of a task counts from the creation of its thread: a thread whose time has passed
  when it takes a task from the queue is signalled in the next pass of the timer, before the task
  was begun.
\<close>

theorem reused_thread_expires:
  assumes "places s t = Some Taking" and "thread_pool_queue s = a # q" and "mutex_free s"
    and "add64 (start_time (pool_at t s)) (timeout_s (pool_at t s)) \<le> seconds s"
    and "thread_step t throws s = Some s'"
  shows "t \<in> signalled (timerProcess_pass s') \<and> waiting_task t s' = [a] \<and> unwinds (the (places s' t)) = Some True"
proof -
  have s': "s' = at_place t Testing (set_task t (Some a) (s\<lparr>thread_pool_queue := q\<rparr>))"
    using assms by (simp add: stepping)
  let ?e = "(pool_at t s)\<lparr>etask := Some a\<rparr>"
  have "map_of (thread_pool s') t = Some ?e" by (simp add: s' update_conv' pool_at_def)
  then have "(t, ?e) \<in> set (thread_pool s')" by (rule map_of_SomeD)
  then have "t \<in> set (map fst (filter (\<lambda>(t, e). add64 (start_time e) (timeout_s e) \<le> seconds s') (thread_pool s')))"
    using assms(4) s' by force
  then show ?thesis by (simp add: timerProcess_pass_def) (simp add: s' waiting_task_def pool_at_def update_conv')
qed

theorem reused_thread_expires_witness:
  "\<exists>s s'. places s 0 = Some Taking \<and> thread_step 0 False s = Some s' \<and> 0 \<in> signalled (timerProcess_pass s') \<and>
    waiting_task 0 s' = [5::nat]"
proof -
  obtain s0 :: "nat tasker" where new: "ETasker_new False [] 16384 4 1 7 False 16384 = Inr s0"
    by (simp add: ETasker_new_def setTimerThreadAttributes_def)
  let ?s = "s0\<lparr>thread_pool := [(0, \<lparr>start_time = 0, timeout_s = 7, etask = None\<rparr>)], thread_pool_queue := [5],
    mutex_free := True, seconds := 8, places := [0 \<mapsto> Taking]\<rparr>"
  obtain s' where s': "thread_step 0 False ?s = Some s'" by (simp add: stepping)
  have "0 \<in> signalled (timerProcess_pass s') \<and> waiting_task 0 s' = [5] \<and> unwinds (the (places s' 0)) = Some True"
    by (rule reused_thread_expires [OF _ _ _ _ s', where q = "[]"]) (simp_all add: pool_at_def add64_def)
  then show ?thesis using s' by (intro exI [of _ ?s] exI [of _ s']) simp
qed

end
