(* ===== verification/Shared_Ptr.thy ===== *)
theory Shared_Ptr
  imports Prelude
begin

text \<open>
  The shared pointers of lib/memory/pointers.h over an explicit store: objects, control blocks
  (\<open>EPointerControl\<close>: a pointer and the address of the count), counts, and the containers that hold
  the address of a control block. An \<open>ESharedPtr\<close> is the address of its container, or null. Reading
  what was freed or never written is undefined behaviour. The locale \<open>shared_handles\<close> says what a
  reference counted handle promises; shared pointers interpret it.
\<close>

section \<open>The store\<close>

record 'a pointers =
  p_next :: nat
  p_objects :: "nat \<Rightarrow> 'a option"
  p_containers :: "nat \<Rightarrow> nat option"
  p_controls :: "nat \<Rightarrow> (nat option \<times> nat) option"
  p_counts :: "nat \<Rightarrow> nat option"

definition no_pointers :: "'a pointers" where
  "no_pointers = \<lparr>p_next = 0, p_objects = Map.empty, p_containers = Map.empty, p_controls = Map.empty,
     p_counts = Map.empty\<rparr>"

definition deref :: "(nat \<Rightarrow> 'b option) \<Rightarrow> nat \<Rightarrow> 'b res" where
  "deref m a = (case m a of None \<Rightarrow> Inl Undefined | Some x \<Rightarrow> Inr x)"

definition new_object :: "'a \<Rightarrow> ('a pointers, nat) prog" where
  "new_object x s = (Inr (p_next s), s\<lparr>p_next := p_next s + 1, p_objects := (p_objects s)(p_next s \<mapsto> x)\<rparr>)"

section \<open>Shared pointers\<close>

text \<open>The container is allocated before the control block, and that before the count.\<close>

definition ESharedPtr_of :: "nat option \<Rightarrow> ('a pointers, nat) prog" where
  "ESharedPtr_of ptr s =
     (let c = p_next s in
      (Inr c, s\<lparr>p_next := c + 3, p_containers := (p_containers s)(c \<mapsto> c + 1),
        p_controls := (p_controls s)(c + 1 \<mapsto> (ptr, c + 2)), p_counts := (p_counts s)(c + 2 \<mapsto> 1)\<rparr>))"

definition ESharedPtr_new :: "('a pointers, nat) prog" where
  "ESharedPtr_new = ESharedPtr_of None"

text \<open>\<open>**ctrl_container\<close>: the pointer and the address of the count.\<close>

definition control_of :: "nat option \<Rightarrow> 'a pointers \<Rightarrow> (nat option \<times> nat) res" where
  "control_of h s =
     (case h of None \<Rightarrow> Inl Undefined
      | Some c \<Rightarrow> bindR (deref (p_containers s) c) (deref (p_controls s)))"

definition count_up :: "nat \<Rightarrow> ('a pointers, unit) prog" where
  "count_up n s =
     (case deref (p_counts s) n of
        Inl e \<Rightarrow> (Inl e, s)
      | Inr m \<Rightarrow> (Inr (), s\<lparr>p_counts := (p_counts s)(n \<mapsto> add64 m 1)\<rparr>))"

definition ESharedPtr_copy :: "nat option \<Rightarrow> ('a pointers, nat option) prog" where
  "ESharedPtr_copy h =
     bindS (\<lambda>s. (control_of h s, s)) (\<lambda>(ptr, n). bindS (count_up n) (\<lambda>_. returnS h))"

definition ESharedPtr_of_container :: "nat option \<Rightarrow> ('a pointers, nat option) prog" where
  "ESharedPtr_of_container cc =
     (if cc = None then throwS (Runtime_Error ''Cannot create an ESharedPtr from a nullptr ctrl class.'')
      else ESharedPtr_copy cc)"

text \<open>\<open>delete ptr\<close>, for null a no-op.\<close>

definition delete_object :: "nat option \<Rightarrow> ('a pointers, unit) prog" where
  "delete_object ptr s =
     (case ptr of
        None \<Rightarrow> (Inr (), s)
      | Some p \<Rightarrow> if p_objects s p = None then (Inl Undefined, s)
                 else (Inr (), s\<lparr>p_objects := (p_objects s)(p := None)\<rparr>))"

text \<open>The destructor: the count itself is not freed.\<close>

definition ESharedPtr_delete :: "nat option \<Rightarrow> ('a pointers, unit) prog" where
  "ESharedPtr_delete h s =
     (case h of
        None \<Rightarrow> (Inr (), s)
      | Some c \<Rightarrow>
          (case bindR (deref (p_containers s) c) (\<lambda>k.
             bindR (deref (p_controls s) k) (\<lambda>(ptr, n).
             bindR (deref (p_counts s) n) (\<lambda>m. Inr (k, ptr, n, sub64 m 1)))) of
             Inl e \<Rightarrow> (Inl e, s)
           | Inr (k, ptr, n, m) \<Rightarrow>
               let s1 = s\<lparr>p_counts := (p_counts s)(n \<mapsto> m)\<rparr>
               in if m = 0
                  then bindS (delete_object ptr) (\<lambda>_ s2.
                    (Inr (), s2\<lparr>p_controls := (p_controls s2)(k := None),
                       p_containers := (p_containers s2)(c := None)\<rparr>)) s1
                  else (Inr (), s1)))"

definition isNullPtr :: "nat option \<Rightarrow> 'a pointers \<Rightarrow> bool res" where
  "isNullPtr h s = bindR (control_of h s) (\<lambda>(ptr, n). Inr (ptr = None))"

text \<open>The message for a null pointer passes an \<open>int\<close> where the formatter reads a 64-bit integer.\<close>

definition getPtr :: "nat option \<Rightarrow> 'a pointers \<Rightarrow> nat res" where
  "getPtr h s =
     bindR (control_of h s) (\<lambda>(ptr, n). case ptr of None \<Rightarrow> Inl Undefined | Some p \<Rightarrow> Inr p)"

definition getRef :: "nat option \<Rightarrow> 'a pointers \<Rightarrow> 'a res" where
  "getRef h s = bindR (getPtr h s) (deref (p_objects s))"

definition ESharedPtr_equal :: "nat option \<Rightarrow> nat option \<Rightarrow> 'a pointers \<Rightarrow> bool res" where
  "ESharedPtr_equal h x s =
     bindR (control_of h s) (\<lambda>(p, n). bindR (control_of x s) (\<lambda>(q, m). Inr (p = q)))"

text \<open>\<open>operator=(T *)\<close> writes the pointer of the shared control block.\<close>

definition ESharedPtr_assign_ptr :: "nat option \<Rightarrow> nat option \<Rightarrow> ('a pointers, unit) prog" where
  "ESharedPtr_assign_ptr h ptr s =
     (case h of
        None \<Rightarrow> (Inl Undefined, s)
      | Some c \<Rightarrow>
          (case bindR (deref (p_containers s) c) (\<lambda>k. bindR (deref (p_controls s) k) (\<lambda>(p, n). Inr (k, n))) of
             Inl e \<Rightarrow> (Inl e, s)
           | Inr (k, n) \<Rightarrow> (Inr (), s\<lparr>p_controls := (p_controls s)(k \<mapsto> (ptr, n))\<rparr>)))"

text \<open>
  Copy assignment does not release what the left side had. Moving swaps; the constructor swaps
  with its own uninitialised member, which holds \<open>garbage\<close>. Both return the two handles.
\<close>

definition ESharedPtr_copy_assign :: "nat option \<Rightarrow> nat option \<Rightarrow> ('a pointers, nat option) prog" where
  "ESharedPtr_copy_assign h x = ESharedPtr_copy x"

definition ESharedPtr_move :: "nat option \<Rightarrow> nat option \<Rightarrow> nat option \<times> nat option" where
  "ESharedPtr_move garbage x = (x, garbage)"

definition ESharedPtr_move_assign :: "nat option \<Rightarrow> nat option \<Rightarrow> nat option \<times> nat option" where
  "ESharedPtr_move_assign h x = (x, h)"

text \<open>A converted pointer has a control block of its own with the count of the other.\<close>

definition ESharedPtr_convert :: "nat option \<Rightarrow> ('a pointers, nat option) prog" where
  "ESharedPtr_convert x =
     bindS (\<lambda>s. (control_of x s, s)) (\<lambda>(ptr, n) s.
       let c = p_next s in
       bindS (count_up n) (\<lambda>_. returnS (Some c))
         (s\<lparr>p_next := c + 2, p_containers := (p_containers s)(c \<mapsto> c + 1),
            p_controls := (p_controls s)(c + 1 \<mapsto> (ptr, n))\<rparr>))"

definition ESharedPtr_convert_assign :: "nat option \<Rightarrow> nat option \<Rightarrow> ('a pointers, unit) prog" where
  "ESharedPtr_convert_assign h x =
     bindS (\<lambda>s. (control_of h s, s)) (\<lambda>_.
     bindS (\<lambda>s. (control_of x s, s)) (\<lambda>(ptr, n).
     bindS (\<lambda>s. (deref (p_containers s) (the h), s)) (\<lambda>k.
     bindS (\<lambda>s. (Inr (), s\<lparr>p_controls := (p_controls s)(k \<mapsto> (ptr, n))\<rparr>)) (\<lambda>_. count_up n))))"

definition ESharedPtr_cast :: "nat option \<Rightarrow> ('a pointers, nat option) prog" where
  "ESharedPtr_cast h =
     bindS (\<lambda>s. (control_of h s, s)) (\<lambda>(ptr, n) s.
       let c = p_next s in
       ESharedPtr_of_container (Some c)
         (s\<lparr>p_next := c + 2, p_containers := (p_containers s)(c \<mapsto> c + 1),
            p_controls := (p_controls s)(c + 1 \<mapsto> (ptr, n))\<rparr>))"

text \<open>A weak pointer is the container of the shared one; it does not count.\<close>

definition EWeakPtr_of :: "nat option \<Rightarrow> nat option" where
  "EWeakPtr_of h = h"

definition EWeakPtr_lock :: "nat option \<Rightarrow> ('a pointers, nat option) prog" where
  "EWeakPtr_lock w s =
     (case w of
        None \<Rightarrow> (case ESharedPtr_new s of (Inr c, s') \<Rightarrow> (Inr (Some c), s') | (Inl e, s') \<Rightarrow> (Inl e, s'))
      | Some c \<Rightarrow>
          (case deref (p_containers s) c of
             Inl e \<Rightarrow> (Inl e, s)
           | Inr k \<Rightarrow> ESharedPtr_of_container w s))"

section \<open>Reference counted handles\<close>

text \<open>
  What variables hold: a handle and the object it stands for. \<open>rep s env\<close> relates them to the state;
  the laws say that making, copying and dropping handles keeps it, that reading gives the object,
  and that the objects alive are those of the variables.
\<close>

type_synonym 'a handles = "nat \<Rightarrow> (nat \<times> 'a) option"

locale shared_handles =
  fixes make_handle :: "'a \<Rightarrow> ('s, nat) prog"
    and copy_handle :: "nat \<Rightarrow> ('s, nat) prog"
    and drop_handle :: "nat \<Rightarrow> ('s, unit) prog"
    and get :: "nat \<Rightarrow> 's \<Rightarrow> 'a res"
    and objects :: "'s \<Rightarrow> 'a set"
    and rep :: "'s \<Rightarrow> 'a handles \<Rightarrow> bool"
  assumes make_rep: "rep s env \<Longrightarrow> env v = None \<Longrightarrow> \<exists>h s'. make_handle x s = (Inr h, s') \<and> rep s' (env(v \<mapsto> (h, x)))"
    and copy_rep: "rep s env \<Longrightarrow> env w = Some (h, x) \<Longrightarrow> env v = None \<Longrightarrow> card (dom env) < size_max \<Longrightarrow>
      \<exists>h' s'. copy_handle h s = (Inr h', s') \<and> rep s' (env(v \<mapsto> (h', x)))"
    and drop_rep: "rep s env \<Longrightarrow> env v = Some (h, x) \<Longrightarrow> card (dom env) \<le> size_max \<Longrightarrow>
      \<exists>s'. drop_handle h s = (Inr (), s') \<and> rep s' (env(v := None))"
    and get_rep: "rep s env \<Longrightarrow> env v = Some (h, x) \<Longrightarrow> get h s = Inr x"
    and objects_rep: "rep s env \<Longrightarrow> objects s = snd ` ran env"
    and finite_rep: "rep s env \<Longrightarrow> finite (dom env)"

text \<open>Programs over variables: what they do to the handles, and to the objects of the variables.\<close>

datatype 'a handle_op = Make nat 'a | Copy nat nat | Drop nat

fun op_run :: "('a \<Rightarrow> ('s, nat) prog) \<Rightarrow> (nat \<Rightarrow> ('s, nat) prog) \<Rightarrow> (nat \<Rightarrow> ('s, unit) prog) \<Rightarrow>
    'a handle_op \<Rightarrow> ('s \<times> (nat \<Rightarrow> nat option), unit) prog" where
  "op_run make_handle copy_handle drop_handle (Make v x) (s, env) =
     (case make_handle x s of (Inl e, s') \<Rightarrow> (Inl e, (s', env)) | (Inr h, s') \<Rightarrow> (Inr (), (s', env(v \<mapsto> h))))"
| "op_run make_handle copy_handle drop_handle (Copy v w) (s, env) =
     (case env w of
        None \<Rightarrow> (Inl Undefined, (s, env))
      | Some h \<Rightarrow> (case copy_handle h s of (Inl e, s') \<Rightarrow> (Inl e, (s', env)) | (Inr h', s') \<Rightarrow> (Inr (), (s', env(v \<mapsto> h')))))"
| "op_run make_handle copy_handle drop_handle (Drop v) (s, env) =
     (case env v of
        None \<Rightarrow> (Inl Undefined, (s, env))
      | Some h \<Rightarrow> (case drop_handle h s of (Inl e, s') \<Rightarrow> (Inl e, (s', env)) | (Inr _, s') \<Rightarrow> (Inr (), (s', env(v := None)))))"

fun ops_run :: "('a \<Rightarrow> ('s, nat) prog) \<Rightarrow> (nat \<Rightarrow> ('s, nat) prog) \<Rightarrow> (nat \<Rightarrow> ('s, unit) prog) \<Rightarrow>
    'a handle_op list \<Rightarrow> ('s \<times> (nat \<Rightarrow> nat option), unit) prog" where
  "ops_run make_handle copy_handle drop_handle [] = returnS ()"
| "ops_run make_handle copy_handle drop_handle (x # xs) =
     bindS (op_run make_handle copy_handle drop_handle x) (\<lambda>_. ops_run make_handle copy_handle drop_handle xs)"

text \<open>The objects of the variables after a program, if every variable is used while it is in scope.\<close>

fun op_scope :: "'a handle_op \<Rightarrow> (nat \<Rightarrow> 'a option) \<Rightarrow> (nat \<Rightarrow> 'a option) option" where
  "op_scope (Make v x) m = (if m v = None then Some (m(v \<mapsto> x)) else None)"
| "op_scope (Copy v w) m = (if m v = None \<and> m w \<noteq> None then Some (m(v := m w)) else None)"
| "op_scope (Drop v) m = (if m v = None then None else Some (m(v := None)))"

fun ops_scope :: "'a handle_op list \<Rightarrow> (nat \<Rightarrow> 'a option) \<Rightarrow> (nat \<Rightarrow> 'a option) option" where
  "ops_scope [] m = Some m"
| "ops_scope (x # xs) m = (case op_scope x m of None \<Rightarrow> None | Some m' \<Rightarrow> ops_scope xs m')"

definition handle_of :: "'a handles \<Rightarrow> nat \<Rightarrow> nat option" where
  "handle_of env v = map_option fst (env v)"

definition object_of :: "'a handles \<Rightarrow> nat \<Rightarrow> 'a option" where
  "object_of env v = map_option snd (env v)"

lemma handle_of_upd [simp]: "handle_of (env(v \<mapsto> (h, x))) = (handle_of env)(v \<mapsto> h)"
  "handle_of (env(v := None)) = (handle_of env)(v := None)"
  by (auto simp: handle_of_def)

lemma object_of_upd [simp]: "object_of (env(v \<mapsto> (h, x))) = (object_of env)(v \<mapsto> x)"
  "object_of (env(v := None)) = (object_of env)(v := None)"
  by (auto simp: object_of_def)

lemma empty_handles [simp]: "object_of (\<lambda>_. None) = (\<lambda>_. None)" "handle_of (\<lambda>_. None) = (\<lambda>_. None)"
  by (simp_all add: object_of_def handle_of_def fun_eq_iff)

lemma dom_object_of: "dom (object_of env) = dom env"
  by (auto simp: object_of_def)

lemma ran_object_of: "ran (object_of env) = snd ` ran env"
  by (force simp: object_of_def ran_def image_def)

context shared_handles
begin

lemma op_ok:
  assumes "rep s env" "op_scope x (object_of env) = Some m" "card (dom env) < size_max"
  shows "\<exists>s' env'. op_run make_handle copy_handle drop_handle x (s, handle_of env) = (Inr (), (s', handle_of env')) \<and> rep s' env' \<and>
    object_of env' = m \<and> card (dom env') \<le> Suc (card (dom env))"
proof (cases x)
  case (Make v y)
  then have v: "env v = None" "m = (object_of env)(v \<mapsto> y)"
    using assms(2) by (auto simp: object_of_def split: if_splits)
  from make_rep [OF assms(1) v(1)] obtain h s' where "make_handle y s = (Inr h, s')" "rep s' (env(v \<mapsto> (h, y)))" by blast
  moreover have "card (dom (env(v \<mapsto> (h, y)))) \<le> Suc (card (dom env))"
    using finite_rep [OF assms(1)] by (simp add: card_insert_if)
  ultimately show ?thesis using Make v by (intro exI [of _ s'] exI [of _ "env(v \<mapsto> (h, y))"]) simp
next
  case (Copy v w)
  then obtain h y where v: "env v = None" "env w = Some (h, y)" "m = (object_of env)(v \<mapsto> y)"
    using assms(2) by (auto simp: object_of_def split: if_splits)
  from copy_rep [OF assms(1) v(2,1) assms(3)]
  obtain h' s' where "copy_handle h s = (Inr h', s')" "rep s' (env(v \<mapsto> (h', y)))" by blast
  moreover have "card (dom (env(v \<mapsto> (h', y)))) \<le> Suc (card (dom env))"
    using finite_rep [OF assms(1)] by (simp add: card_insert_if)
  moreover have "handle_of env w = Some h" using v(2) by (simp add: handle_of_def)
  ultimately show ?thesis using Copy v by (intro exI [of _ s'] exI [of _ "env(v \<mapsto> (h', y))"]) simp
next
  case (Drop v)
  then obtain h y where v: "env v = Some (h, y)" "m = (object_of env)(v := None)"
    using assms(2) by (auto simp: object_of_def split: if_splits)
  have "card (dom env) \<le> size_max" using assms(3) by simp
  from drop_rep [OF assms(1) v(1) this] obtain s' where "drop_handle h s = (Inr (), s')" "rep s' (env(v := None))" by blast
  moreover have "card (dom (env(v := None))) \<le> Suc (card (dom env))"
    using finite_rep [OF assms(1)] by (simp add: le_SucI card_Diff1_le)
  moreover have "handle_of env v = Some h" using v(1) by (simp add: handle_of_def)
  ultimately show ?thesis using Drop v by (intro exI [of _ s'] exI [of _ "env(v := None)"]) simp
qed

lemma ops_ok:
  assumes "rep s env" "ops_scope xs (object_of env) = Some m" "card (dom env) + length xs \<le> size_max"
  shows "\<exists>s' env'. ops_run make_handle copy_handle drop_handle xs (s, handle_of env) = (Inr (), (s', handle_of env')) \<and> rep s' env' \<and>
    object_of env' = m"
  using assms
proof (induction xs arbitrary: s env)
  case Nil
  then show ?case by auto
next
  case (Cons x xs)
  from Cons.prems(2) obtain m1 where m1: "op_scope x (object_of env) = Some m1" "ops_scope xs m1 = Some m"
    by (auto split: option.splits)
  from op_ok [OF Cons.prems(1) m1(1)] Cons.prems(3) obtain s1 env1
    where s1: "op_run make_handle copy_handle drop_handle x (s, handle_of env) = (Inr (), (s1, handle_of env1))" "rep s1 env1"
      "object_of env1 = m1" "card (dom env1) \<le> Suc (card (dom env))" by auto
  then have "card (dom env1) + length xs \<le> size_max" using Cons.prems(3) by simp
  from Cons.IH [OF s1(2) _ this] s1 m1(2) show ?case by (auto simp: bindS_def)
qed

text \<open>A program in scope never fails; every variable reads its object, and only those are alive.\<close>

lemma lifetimes:
  assumes "rep s (\<lambda>_. None)" "ops_scope xs Map.empty = Some m" "length xs \<le> size_max"
  shows "\<exists>s' env. ops_run make_handle copy_handle drop_handle xs (s, Map.empty) = (Inr (), (s', env)) \<and>
    objects s' = ran m \<and> dom env = dom m \<and>
    (\<forall>v h. env v = Some h \<longrightarrow> get h s' = (case m v of None \<Rightarrow> Inl Undefined | Some x \<Rightarrow> Inr x))"
proof -
  from ops_ok [OF assms(1), of xs m] assms(2,3) obtain s' env'
    where run: "ops_run make_handle copy_handle drop_handle xs (s, Map.empty) = (Inr (), (s', handle_of env'))"
      and r: "rep s' env'" "object_of env' = m" by auto
  have "get h s' = (case m v of None \<Rightarrow> Inl Undefined | Some x \<Rightarrow> Inr x)" if "handle_of env' v = Some h" for v h
    using that get_rep [OF r(1), of v] r(2) by (auto simp: handle_of_def object_of_def)
  moreover have "objects s' = ran m" using objects_rep [OF r(1)] ran_object_of [of env'] r(2) by simp
  moreover have "dom (handle_of env') = dom m" using r(2) by (auto simp: handle_of_def object_of_def)
  ultimately show ?thesis using run by blast
qed

end

section \<open>Shared pointers count their handles\<close>

definition make_shared :: "'a \<Rightarrow> ('a pointers, nat) prog" where
  "make_shared x = bindS (new_object x) (\<lambda>p. ESharedPtr_of (Some p))"

definition copy_shared :: "nat \<Rightarrow> ('a pointers, nat) prog" where
  "copy_shared c = bindS (ESharedPtr_copy (Some c)) (\<lambda>h. case h of None \<Rightarrow> throwS Undefined | Some c' \<Rightarrow> returnS c')"

definition alive :: "'a pointers \<Rightarrow> 'a set" where
  "alive s = ran (p_objects s)"

definition users :: "'a handles \<Rightarrow> nat \<Rightarrow> nat" where
  "users env c = card {v. \<exists>x. env v = Some (c, x)}"

text \<open>The blocks of a handle are next to each other, in the order of allocation.\<close>

definition cell :: "'a pointers \<Rightarrow> nat \<Rightarrow> 'a \<Rightarrow> nat \<Rightarrow> bool" where
  "cell s c x n \<longleftrightarrow> 0 < c \<and> c + 2 < p_next s \<and> p_containers s c = Some (c + 1) \<and>
     p_controls s (c + 1) = Some (Some (c - 1), c + 2) \<and> p_counts s (c + 2) = Some n \<and> p_objects s (c - 1) = Some x"

definition shared_rep :: "'a pointers \<Rightarrow> 'a handles \<Rightarrow> bool" where
  "shared_rep s env \<longleftrightarrow> finite (dom env) \<and>
     (\<forall>v c x. env v = Some (c, x) \<longrightarrow> cell s c x (users env c)) \<and>
     (\<forall>p x. p_objects s p = Some x \<longrightarrow> (\<exists>v. env v = Some (p + 1, x)))"

lemma users_finite: "finite (dom env) \<Longrightarrow> finite {v. \<exists>x. env v = Some (c, x)}"
  by (rule finite_subset [of _ "dom env"]) auto

lemma users_le: "finite (dom env) \<Longrightarrow> users env c \<le> card (dom env)"
  unfolding users_def by (rule card_mono) auto

lemma users_new:
  assumes "finite (dom env)" "env v = None"
  shows "users (env(v \<mapsto> (c, x))) c' = (if c' = c then Suc (users env c) else users env c')"
proof (cases "c' = c")
  case True
  have "{u. \<exists>y. (env(v \<mapsto> (c, x))) u = Some (c, y)} = insert v {u. \<exists>y. env u = Some (c, y)}" by auto
  then show ?thesis using True users_finite [OF assms(1)] assms(2) by (simp add: users_def)
next
  case False
  then have "{u. \<exists>y. (env(v \<mapsto> (c, x))) u = Some (c', y)} = {u. \<exists>y. env u = Some (c', y)}" using assms(2) by auto
  then show ?thesis using False by (simp add: users_def)
qed

lemma users_drop:
  assumes "finite (dom env)" "env v = Some (c, x)"
  shows "users (env(v := None)) c' = (if c' = c then users env c - 1 else users env c')"
proof (cases "c' = c")
  case True
  have "{u. \<exists>y. (env(v := None)) u = Some (c, y)} = {u. \<exists>y. env u = Some (c, y)} - {v}" by auto
  then show ?thesis using True users_finite [OF assms(1)] assms(2) by (simp add: users_def)
next
  case False
  then have "{u. \<exists>y. (env(v := None)) u = Some (c', y)} = {u. \<exists>y. env u = Some (c', y)}" using assms(2) by auto
  then show ?thesis using False by (simp add: users_def)
qed

lemma users_pos: "finite (dom env) \<Longrightarrow> env v = Some (c, x) \<Longrightarrow> 0 < users env c"
  unfolding users_def using users_finite by (fastforce simp: card_gt_0_iff)

lemma users_none: "(\<And>v x. env v \<noteq> Some (c, x)) \<Longrightarrow> users env c = 0"
  by (simp add: users_def)

lemma shared_make:
  assumes "shared_rep s env" "env v = None"
  shows "\<exists>h s'. make_shared x s = (Inr h, s') \<and> shared_rep s' (env(v \<mapsto> (h, x)))"
proof -
  let ?p = "p_next s"
  let ?s = "s\<lparr>p_next := ?p + 4, p_objects := (p_objects s)(?p \<mapsto> x), p_containers := (p_containers s)(?p + 1 \<mapsto> ?p + 2),
    p_controls := (p_controls s)(?p + 2 \<mapsto> (Some ?p, ?p + 3)), p_counts := (p_counts s)(?p + 3 \<mapsto> 1)\<rparr>"
  let ?env = "env(v \<mapsto> (?p + 1, x))"
  have f: "finite (dom env)" and cells: "\<And>v c x. env v = Some (c, x) \<Longrightarrow> cell s c x (users env c)"
    and objs: "\<And>p x. p_objects s p = Some x \<Longrightarrow> \<exists>v. env v = Some (p + 1, x)"
    using assms(1) by (auto simp: shared_rep_def)
  have fresh: "c + 2 < ?p" if "env u = Some (c, y)" for u c y using cells [OF that] by (simp add: cell_def)
  have none: "users env (?p + 1) = 0" by (rule users_none) (use fresh in fastforce)
  have "cell ?s c y (users ?env c)" if "?env u = Some (c, y)" for u c y
  proof (cases "u = v")
    case True
    then have "c = ?p + 1" "y = x" using that by auto
    then show ?thesis using none by (simp add: cell_def users_new [OF f assms(2)])
  next
    case False
    then have u: "env u = Some (c, y)" using that by simp
    then show ?thesis using cells [OF u] fresh [OF u] by (auto simp: cell_def users_new [OF f assms(2)])
  qed
  moreover have "\<exists>u. ?env u = Some (q + 1, y)" if "p_objects ?s q = Some y" for q y
  proof (cases "q = ?p")
    case True
    then show ?thesis using that by auto
  next
    case False
    then have "p_objects s q = Some y" using that by simp
    from objs [OF this] obtain u where "env u = Some (q + 1, y)" by blast
    then show ?thesis using assms(2) by (intro exI [of _ u]) auto
  qed
  ultimately have "shared_rep ?s ?env" using f by (simp add: shared_rep_def)
  moreover have "make_shared x s = (Inr (?p + 1), ?s)"
    by (simp add: make_shared_def new_object_def ESharedPtr_of_def bindS_def Let_def eval_nat_numeral)
  ultimately show ?thesis by blast
qed

lemma shared_copy:
  assumes "shared_rep s env" "env w = Some (h, x)" "env v = None" "card (dom env) < size_max"
  shows "\<exists>h' s'. copy_shared h s = (Inr h', s') \<and> shared_rep s' (env(v \<mapsto> (h', x)))"
proof -
  have f: "finite (dom env)" and cells: "\<And>v c x. env v = Some (c, x) \<Longrightarrow> cell s c x (users env c)"
    using assms(1) by (auto simp: shared_rep_def)
  note hc = cells [OF assms(2)]
  let ?s = "s\<lparr>p_counts := (p_counts s)(h + 2 \<mapsto> Suc (users env h))\<rparr>"
  have "users env h < size_max" using users_le [OF f] assms(4) by (rule le_less_trans)
  then have run: "copy_shared h s = (Inr h, ?s)"
    using hc by (simp add: copy_shared_def ESharedPtr_copy_def control_of_def count_up_def deref_def bindS_def cell_def size_max_def)
  have same: "x' = x" if "env u = Some (h, x')" for u x' using cells [OF that] hc by (auto simp: cell_def)
  have "cell ?s c y (users (env(v \<mapsto> (h, x))) c)" if "(env(v \<mapsto> (h, x))) u = Some (c, y)" for u c y
  proof -
    have "cell s c y (users env c)" using that hc cells by (auto split: if_splits)
    then show ?thesis by (auto simp: cell_def users_new [OF f assms(3)])
  qed
  moreover have "\<exists>u. (env(v \<mapsto> (h, x))) u = Some (q + 1, y)" if "p_objects ?s q = Some y" for q y
  proof -
    have "p_objects s q = Some y" using that by simp
    then obtain u where "env u = Some (q + 1, y)" using assms(1) unfolding shared_rep_def by blast
    then show ?thesis using assms(3) by (intro exI [of _ u]) auto
  qed
  ultimately have "shared_rep ?s (env(v \<mapsto> (h, x)))" using f by (simp add: shared_rep_def)
  then show ?thesis using run by blast
qed

lemma shared_drop:
  assumes "shared_rep s env" "env v = Some (h, x)" "card (dom env) \<le> size_max"
  shows "\<exists>s'. ESharedPtr_delete (Some h) s = (Inr (), s') \<and> shared_rep s' (env(v := None))"
proof -
  have f: "finite (dom env)" and cells: "\<And>v c x. env v = Some (c, x) \<Longrightarrow> cell s c x (users env c)"
    and objs: "\<And>p x. p_objects s p = Some x \<Longrightarrow> \<exists>v. env v = Some (p + 1, x)"
    using assms(1) by (auto simp: shared_rep_def)
  note hc = cells [OF assms(2)]
  let ?n = "users env h"
  have n: "0 < ?n" "?n \<le> size_max" using users_pos [OF f assms(2)] users_le [OF f, of h] assms(3) by simp_all
  then have sub: "sub64 ?n 1 = ?n - 1" by (simp add: size_max_def)
  let ?env = "env(v := None)"
  let ?s1 = "s\<lparr>p_counts := (p_counts s)(h + 2 \<mapsto> ?n - 1)\<rparr>"
  show ?thesis
  proof (cases "?n = 1")
    case False
    have "ESharedPtr_delete (Some h) s = (Inr (), ?s1)"
      using hc False n sub by (simp add: ESharedPtr_delete_def deref_def cell_def)
    moreover have "cell ?s1 c y (users ?env c)" if "?env u = Some (c, y)" for u c y
      using that cells [of u c y] by (auto simp: cell_def users_drop [OF f assms(2)] split: if_splits)
    moreover have "\<exists>u. ?env u = Some (q + 1, y)" if q: "p_objects ?s1 q = Some y" for q y
    proof -
      have "p_objects s q = Some y" using q by simp
      from objs [OF this] obtain u where u: "env u = Some (q + 1, y)" by blast
      show ?thesis
      proof (cases "u = v")
        case True
        then have "q + 1 = h" "y = x" using u assms(2) by auto
        have "0 < users ?env h" using False n by (simp add: users_drop [OF f assms(2)])
        then obtain u' y' where u': "?env u' = Some (h, y')" unfolding users_def by (fastforce simp: card_gt_0_iff)
        then have "env u' = Some (h, y')" by (auto split: if_splits)
        then have "y' = x" using cells hc by (fastforce simp: cell_def)
        then show ?thesis using u' \<open>q + 1 = h\<close> \<open>y = x\<close> by blast
      next
        case False
        then show ?thesis using u by auto
      qed
    qed
    ultimately show ?thesis using f by (auto simp: shared_rep_def)
  next
    case True
    let ?s2 = "?s1\<lparr>p_objects := (p_objects s)(h - 1 := None), p_controls := (p_controls s)(h + 1 := None),
      p_containers := (p_containers s)(h := None)\<rparr>"
    have "ESharedPtr_delete (Some h) s = (Inr (), ?s2)"
      using hc True sub by (simp add: ESharedPtr_delete_def delete_object_def deref_def bindS_def cell_def Let_def)
    moreover have other: "c \<noteq> h" if "?env u = Some (c, y)" for u c y
      using that users_pos [of ?env u c y] f True by (auto simp: users_drop [OF f assms(2)])
    moreover have "cell ?s2 c y (users ?env c)" if "?env u = Some (c, y)" for u c y
      using that cells [of u c y] other [OF that] hc by (auto simp: cell_def users_drop [OF f assms(2)] split: if_splits)
    moreover have "\<exists>u. ?env u = Some (q + 1, y)" if q: "p_objects ?s2 q = Some y" for q y
    proof -
      have "q \<noteq> h - 1" "p_objects s q = Some y" using q by (auto split: if_splits)
      from objs [OF this(2)] obtain u where u: "env u = Some (q + 1, y)" by blast
      moreover have "u \<noteq> v" using u assms(2) \<open>q \<noteq> h - 1\<close> by auto
      ultimately show ?thesis by auto
    qed
    ultimately show ?thesis using f by (auto simp: shared_rep_def)
  qed
qed

interpretation shared: shared_handles make_shared copy_shared "\<lambda>c. ESharedPtr_delete (Some c)" "\<lambda>c. getRef (Some c)"
  alive shared_rep
proof unfold_locales
  fix s :: "'a pointers" and env v h x
  assume r: "shared_rep s env"
  show "env v = Some (h, x) \<Longrightarrow> getRef (Some h) s = Inr x"
    using r by (auto simp: shared_rep_def cell_def getRef_def getPtr_def control_of_def deref_def)
  show "finite (dom env)" using r by (simp add: shared_rep_def)
  show "alive s = snd ` ran env"
  proof (rule set_eqI)
    fix y
    show "y \<in> alive s \<longleftrightarrow> y \<in> snd ` ran env"
      using r unfolding shared_rep_def alive_def cell_def ran_def by force
  qed
qed (blast intro: shared_make shared_copy shared_drop)+

lemma no_pointers_rep: "shared_rep no_pointers (\<lambda>_. None)"
  by (simp add: shared_rep_def no_pointers_def)

section \<open>Where counting fails\<close>

text \<open>Two objects; the pointer of the first is copied over the one of the second; both are destroyed.\<close>

definition assigned_over :: "'a \<Rightarrow> 'a \<Rightarrow> ('a pointers, unit) prog" where
  "assigned_over x y =
     bindS (make_shared x) (\<lambda>a. bindS (make_shared y) (\<lambda>b.
     bindS (ESharedPtr_copy_assign (Some b) (Some a)) (\<lambda>b'.
     bindS (ESharedPtr_delete (Some a)) (\<lambda>_. ESharedPtr_delete b'))))"

text \<open>A weak pointer is locked after the only shared one was destroyed.\<close>

definition locked_late :: "'a \<Rightarrow> ('a pointers, nat option) prog" where
  "locked_late x =
     bindS (make_shared x) (\<lambda>a. bindS (ESharedPtr_delete (Some a)) (\<lambda>_. EWeakPtr_lock (EWeakPtr_of (Some a))))"

text \<open>
  A pointer and its copy are given the object of a third by a converting assignment to the copy;
  when the third and the copy are destroyed, the first is still in use.
\<close>

definition converted_over :: "'a \<Rightarrow> 'a \<Rightarrow> ('a pointers, 'a) prog" where
  "converted_over x y =
     bindS (make_shared x) (\<lambda>a. bindS (copy_shared a) (\<lambda>b. bindS (make_shared y) (\<lambda>c.
     bindS (ESharedPtr_convert_assign (Some b) (Some c)) (\<lambda>_.
     bindS (ESharedPtr_delete (Some c)) (\<lambda>_. bindS (ESharedPtr_delete (Some b)) (\<lambda>_ s.
       (getRef (Some a) s, s)))))))"

text \<open>The stores these programs go through: one object with \<open>n\<close> handles, and a second one with \<open>m\<close>.\<close>

definition one_object :: "'a \<Rightarrow> nat \<Rightarrow> 'a pointers" where
  "one_object x n = \<lparr>p_next = 4, p_objects = [0 \<mapsto> x], p_containers = [1 \<mapsto> 2],
     p_controls = [2 \<mapsto> (Some 0, 3)], p_counts = [3 \<mapsto> n]\<rparr>"

definition two_objects :: "'a \<Rightarrow> nat \<Rightarrow> 'a \<Rightarrow> nat \<Rightarrow> 'a pointers" where
  "two_objects x n y m = \<lparr>p_next = 8, p_objects = [0 \<mapsto> x, 4 \<mapsto> y], p_containers = [1 \<mapsto> 2, 5 \<mapsto> 6],
     p_controls = [2 \<mapsto> (Some 0, 3), 6 \<mapsto> (Some 4, 7)], p_counts = [3 \<mapsto> n, 7 \<mapsto> m]\<rparr>"

lemma make_first: "make_shared x no_pointers = (Inr 1, one_object x 1)"
  by (simp add: make_shared_def new_object_def ESharedPtr_of_def bindS_def Let_def no_pointers_def one_object_def
    eval_nat_numeral)

lemma make_second: "make_shared y (one_object x n) = (Inr 5, two_objects x n y 1)"
  by (simp add: make_shared_def new_object_def ESharedPtr_of_def bindS_def Let_def one_object_def two_objects_def)

lemma two_le: "2 \<le> size_max"
  by (simp add: size_max_def)

lemma add64_one: "add64 (Suc 0) (Suc 0) = Suc (Suc 0)"
  by (simp add: size_max_def)

lemma copy_first: "copy_shared 1 (one_object x 1) = (Inr 1, one_object x 2)"
  by (simp add: copy_shared_def ESharedPtr_copy_def control_of_def deref_def count_up_def bindS_def returnS_def 
    one_object_def eval_nat_numeral add64_one del: add64_id)

lemma copy_of_two: "ESharedPtr_copy (Some 1) (two_objects x 1 y 1) = (Inr (Some 1), two_objects x 2 y 1)"
  by (simp add: ESharedPtr_copy_def control_of_def deref_def count_up_def bindS_def returnS_def two_objects_def
    fun_upd_twist eval_nat_numeral add64_one del: add64_id)

lemma delete_counted:
  assumes "cell s c x n" "n \<noteq> 1" "0 < n" "n \<le> size_max"
  shows "ESharedPtr_delete (Some c) s = (Inr (), s\<lparr>p_counts := (p_counts s)(c + 2 \<mapsto> n - 1)\<rparr>)"
proof -
  have "sub64 n 1 = n - 1" using assms(3,4) by (simp add: size_max_def)
  then show ?thesis using assms by (simp add: ESharedPtr_delete_def deref_def cell_def)
qed

lemma delete_last:
  assumes "cell s c x 1"
  shows "ESharedPtr_delete (Some c) s = (Inr (), s\<lparr>p_counts := (p_counts s)(c + 2 \<mapsto> 0),
    p_objects := (p_objects s)(c - 1 := None), p_controls := (p_controls s)(c + 1 := None),
    p_containers := (p_containers s)(c := None)\<rparr>)"
proof -
  have "sub64 1 1 = 0" by (simp add: size_max_def)
  then show ?thesis using assms by (simp add: ESharedPtr_delete_def delete_object_def deref_def cell_def bindS_def Let_def)
qed

lemma converted_dangles:
  fixes s :: "'a pointers"
  assumes "cell s a x 2" "cell s b y 1" "a \<noteq> b"
  shows "fst (bindS (ESharedPtr_convert_assign (Some a) (Some b)) (\<lambda>_.
     bindS (ESharedPtr_delete (Some b)) (\<lambda>_. bindS (ESharedPtr_delete (Some a)) (\<lambda>_ s. (getRef (Some a) s, s)))) s) =
       Inl Undefined"
proof -
  let ?s1 = "s\<lparr>p_controls := (p_controls s)(a + 1 \<mapsto> (Some (b - 1), b + 2)), p_counts := (p_counts s)(b + 2 \<mapsto> Suc 1)\<rparr>"
  let ?s2 = "?s1\<lparr>p_counts := (p_counts ?s1)(b + 2 \<mapsto> 1)\<rparr>"
  have "ESharedPtr_convert_assign (Some a) (Some b) s = (Inr (), ?s1)"
    using assms by (simp add: ESharedPtr_convert_assign_def control_of_def deref_def count_up_def bindS_def cell_def)
  moreover have "ESharedPtr_delete (Some b) ?s1 = (Inr (), ?s2)"
    using assms by (simp add: ESharedPtr_delete_def deref_def cell_def Let_def)
  moreover have "\<exists>s3. ESharedPtr_delete (Some a) ?s2 = (Inr (), s3) \<and> p_containers s3 a = None"
    using assms by (simp add: ESharedPtr_delete_def delete_object_def deref_def bindS_def cell_def Let_def)
  ultimately show ?thesis
    by (auto simp: bindS_def getRef_def getPtr_def control_of_def deref_def)
qed

section \<open>Properties\<close>

text \<open>
  C11. Shared pointers that are made, copied and destroyed in scope count their handles: no operation
  fails, every live pointer reads its object, and an object is alive exactly as long as some
  pointer to it is.
\<close>

theorem shared_lifetimes:
  assumes "ops_scope ops Map.empty = Some m" and "length ops \<le> size_max"
  shows "\<exists>s env. ops_run make_shared copy_shared (\<lambda>c. ESharedPtr_delete (Some c)) ops (no_pointers, Map.empty) =
      (Inr (), (s, env)) \<and>
    alive s = ran m \<and> dom env = dom m \<and>
    (\<forall>v h. env v = Some h \<longrightarrow> getRef (Some h) s = (case m v of None \<Rightarrow> Inl Undefined | Some x \<Rightarrow> Inr x))"
  by (rule shared.lifetimes [OF no_pointers_rep assms])

theorem shared_lifetimes_witness:
  "\<exists>s env. ops_run make_shared copy_shared (\<lambda>c. ESharedPtr_delete (Some c))
      [Make 0 (5::nat), Copy 1 0, Make 2 7, Drop 0, Drop 2] (no_pointers, Map.empty) = (Inr (), (s, env)) \<and>
    alive s = {5}"
proof -
  have "ops_scope [Make 0 (5::nat), Copy 1 0, Make 2 7, Drop 0, Drop 2] Map.empty = Some [1 \<mapsto> 5]"
    by (simp add: fun_upd_twist)
  from shared_lifetimes [OF this] show ?thesis by (auto simp: size_max_def)
qed

text \<open>
  Outside of that, counting fails: copy assignment loses the object of the left side, locking a
  weak pointer after the last shared one reads freed memory, and after a converting assignment
  to a copy the object is freed while a pointer to it is left.
\<close>

theorem shared_failures:
  "(\<exists>s. assigned_over x y no_pointers = (Inr (), s) \<and> alive s = {y}) \<and>
   fst (locked_late x no_pointers) = Inl Undefined \<and>
   fst (converted_over x y no_pointers) = Inl Undefined"
proof (intro conjI)
  have c: "cell (two_objects x 2 y 1) 1 x 2" "cell (two_objects x 2 y 1) 5 y 1" "cell (one_object x 1) 1 x 1"
    by (simp_all add: cell_def two_objects_def one_object_def)
  have d: "ESharedPtr_delete (Some 1) (two_objects x 2 y 1) = (Inr (), two_objects x 1 y 1)"
    using delete_counted [OF c(1) _ _ two_le] by (simp add: two_objects_def fun_upd_twist eval_nat_numeral)
  have "cell (two_objects x 1 y 1) 1 x 1" by (simp add: cell_def two_objects_def)
  note l = delete_last [OF this]
  have "assigned_over x y no_pointers = ESharedPtr_delete (Some 1) (two_objects x 1 y 1)"
    by (simp add: assigned_over_def bindS_def make_first [simplified] make_second [simplified]
      ESharedPtr_copy_assign_def copy_of_two [simplified] d [simplified])
  then show "\<exists>s. assigned_over x y no_pointers = (Inr (), s) \<and> alive s = {y}"
    unfolding l by (simp add: alive_def two_objects_def)
  show "fst (locked_late x no_pointers) = Inl Undefined"
    using delete_last [OF c(3)]
    by (simp add: locked_late_def bindS_def make_first EWeakPtr_of_def EWeakPtr_lock_def deref_def one_object_def)
  show "fst (converted_over x y no_pointers) = Inl Undefined"
    using converted_dangles [OF c(1,2)]
    by (simp add: converted_over_def bindS_def make_first copy_first [simplified] make_second)
qed

end
