(* ===== verification/Shared_Array.thy ===== *)
theory Shared_Array
  imports Array_Sort Shared_Ptr
begin

text \<open>
  \<open>SharedArray<T>\<close> of lib/datastructures/array.h: a handle is the address of an \<open>ArrayControl\<close>, which
  owns an array and counts the handles to it. The operations reach the array through the handle, so
  a change by one handle is a change for all. The locale \<open>mutable_handles\<close> adds that to what
  \<open>shared_handles\<close> promises; the handles are refined to variables that name lists.
\<close>

section \<open>The store\<close>

record 'a ArrayControl =
  ac_array :: "'a Array"
  instance_count :: nat

record 'a shared_arrays =
  sa_next :: nat
  sa_ctrls :: "nat \<Rightarrow> 'a ArrayControl option"

definition no_arrays :: "'a shared_arrays" where
  "no_arrays = \<lparr>sa_next = 0, sa_ctrls = Map.empty\<rparr>"

text \<open>\<open>*this->ctrl\<close>: a null or freed control block has no meaning.\<close>

definition ctrl_of :: "nat option \<Rightarrow> 'a shared_arrays \<Rightarrow> 'a ArrayControl res" where
  "ctrl_of h s = (case h of None \<Rightarrow> Inl Undefined | Some c \<Rightarrow> deref (sa_ctrls s) c)"

definition array_of :: "nat option \<Rightarrow> 'a shared_arrays \<Rightarrow> 'a Array res" where
  "array_of h s = bindR (ctrl_of h s) (\<lambda>k. Inr (ac_array k))"

section \<open>Constructors, copies and the destructor\<close>

definition SharedArray_of :: "'a Array \<Rightarrow> ('a shared_arrays, nat) prog" where
  "SharedArray_of a s =
     (Inr (sa_next s), s\<lparr>sa_next := sa_next s + 1,
        sa_ctrls := (sa_ctrls s)(sa_next s \<mapsto> \<lparr>ac_array = a, instance_count = 1\<rparr>)\<rparr>)"

definition SharedArray_new :: "'a \<Rightarrow> ('a shared_arrays, nat) prog" where
  "SharedArray_new d = SharedArray_of (Array_default d)"

definition SharedArray_with_cap :: "'a \<Rightarrow> nat \<Rightarrow> ('a shared_arrays, nat) prog" where
  "SharedArray_with_cap d initial_cap = SharedArray_of (Array_with_cap d initial_cap)"

definition SharedArray_of_list :: "'a \<Rightarrow> 'a list \<Rightarrow> ('a shared_arrays, nat) prog" where
  "SharedArray_of_list d xs = bindS (liftS (Array_of_list d xs)) SharedArray_of"

definition SharedArray_of_string :: "'a \<Rightarrow> 'a list \<Rightarrow> ('a shared_arrays, nat) prog" where
  "SharedArray_of_string d xs = bindS (liftS (Array_of_string d xs)) SharedArray_of"

definition SharedArray_of_stream :: "'a \<Rightarrow> 'a list \<Rightarrow> nat \<Rightarrow> ('a shared_arrays, nat) prog" where
  "SharedArray_of_stream d stream sz = SharedArray_of (Array_of_stream d stream sz)"

definition SharedArray_copy :: "nat option \<Rightarrow> ('a shared_arrays, nat option) prog" where
  "SharedArray_copy h s =
     (case ctrl_of h s of
        Inl e \<Rightarrow> (Inl e, s)
      | Inr k \<Rightarrow> (Inr h, s\<lparr>sa_ctrls :=
          (sa_ctrls s)(the h \<mapsto> k\<lparr>instance_count := add64 (instance_count k) 1\<rparr>)\<rparr>))"

text \<open>Copy assignment takes the handle of the right side and does not release the one of the left.\<close>

definition SharedArray_copy_assign :: "nat option \<Rightarrow> nat option \<Rightarrow> ('a shared_arrays, nat option) prog" where
  "SharedArray_copy_assign h x = SharedArray_copy x"

text \<open>Moving swaps; the constructor swaps with its own uninitialised member, which holds \<open>garbage\<close>.\<close>

definition SharedArray_move :: "nat option \<Rightarrow> nat option \<Rightarrow> nat option \<times> nat option" where
  "SharedArray_move garbage x = (x, garbage)"

definition SharedArray_move_assign :: "nat option \<Rightarrow> nat option \<Rightarrow> nat option \<times> nat option" where
  "SharedArray_move_assign h x = (x, h)"

definition SharedArray_delete :: "nat option \<Rightarrow> ('a shared_arrays, unit) prog" where
  "SharedArray_delete h s =
     (case h of
        None \<Rightarrow> (Inr (), s)
      | Some c \<Rightarrow>
          (case deref (sa_ctrls s) c of
             Inl e \<Rightarrow> (Inl e, s)
           | Inr k \<Rightarrow>
               let n = sub64 (instance_count k) 1
               in (Inr (), s\<lparr>sa_ctrls := (sa_ctrls s)(c :=
                    if n = 0 then None else Some (k\<lparr>instance_count := n\<rparr>))\<rparr>)))"

section \<open>Operations on the array of a handle\<close>

text \<open>What an operation that throws leaves behind is the array as it was: the checks come first.\<close>

definition through :: "('a Array \<Rightarrow> 'a Array res) \<Rightarrow> nat option \<Rightarrow> ('a shared_arrays, unit) prog" where
  "through f h s =
     (case bindR (ctrl_of h s) (\<lambda>k. bindR (f (ac_array k)) (\<lambda>a. Inr (k\<lparr>ac_array := a\<rparr>))) of
        Inl e \<Rightarrow> (Inl e, s)
      | Inr k \<Rightarrow> (Inr (), s\<lparr>sa_ctrls := (sa_ctrls s)(the h \<mapsto> k)\<rparr>))"

definition SharedArray_sort :: "'a \<Rightarrow> nat option \<Rightarrow> ArraySort \<Rightarrow> ('a::linorder shared_arrays, unit) prog" where
  "SharedArray_sort d h sortOrder = through (\<lambda>a. Array_sort d a sortOrder) h"

definition SharedArray_insert :: "'a \<Rightarrow> nat option \<Rightarrow> nat \<Rightarrow> 'a list \<Rightarrow> ('a shared_arrays, unit) prog" where
  "SharedArray_insert d h pos els = through (\<lambda>a. Array_insert d a pos els) h"

definition SharedArray_insert_el :: "'a \<Rightarrow> nat option \<Rightarrow> nat \<Rightarrow> 'a \<Rightarrow> ('a shared_arrays, unit) prog" where
  "SharedArray_insert_el d h pos el = through (\<lambda>a. Array_insert_el d a pos el) h"

definition SharedArray_uniqueAppend :: "'a \<Rightarrow> nat option \<Rightarrow> 'a \<Rightarrow> ('a shared_arrays, unit) prog" where
  "SharedArray_uniqueAppend d h el = through (\<lambda>a. Array_uniqueAppend d a el) h"

definition SharedArray_append :: "'a \<Rightarrow> nat option \<Rightarrow> 'a \<Rightarrow> ('a shared_arrays, unit) prog" where
  "SharedArray_append d h el = through (\<lambda>a. Array_append d a el) h"

definition SharedArray_append_array :: "'a \<Rightarrow> nat option \<Rightarrow> nat option \<Rightarrow> ('a shared_arrays, unit) prog" where
  "SharedArray_append_array d h x =
     bindS (\<lambda>s. (array_of x s, s)) (\<lambda>b. through (\<lambda>a. Array_append_array d a b) h)"

definition SharedArray_append_els :: "'a \<Rightarrow> nat option \<Rightarrow> 'a list \<Rightarrow> ('a shared_arrays, unit) prog" where
  "SharedArray_append_els d h els = through (\<lambda>a. Array_append_els d a els) h"

definition SharedArray_remove_n :: "'a \<Rightarrow> nat option \<Rightarrow> nat \<Rightarrow> nat \<Rightarrow> ('a shared_arrays, unit) prog" where
  "SharedArray_remove_n d h pos num_els = through (\<lambda>a. Array_remove_n d a pos num_els) h"

definition SharedArray_removeEl :: "'a \<Rightarrow> nat option \<Rightarrow> 'a \<Rightarrow> ('a shared_arrays, unit) prog" where
  "SharedArray_removeEl d h el = through (\<lambda>a. Array_removeEl d a el) h"

definition SharedArray_remove :: "'a \<Rightarrow> nat option \<Rightarrow> nat \<Rightarrow> ('a shared_arrays, unit) prog" where
  "SharedArray_remove d h pos = through (\<lambda>a. Array_remove d a pos) h"

definition SharedArray_removeFront :: "'a \<Rightarrow> nat option \<Rightarrow> ('a shared_arrays, unit) prog" where
  "SharedArray_removeFront d h = through (Array_removeFront d) h"

definition SharedArray_removeBack :: "'a \<Rightarrow> nat option \<Rightarrow> ('a shared_arrays, unit) prog" where
  "SharedArray_removeBack d h = through (Array_removeBack d) h"

definition SharedArray_plus :: "'a \<Rightarrow> nat option \<Rightarrow> nat option \<Rightarrow> ('a shared_arrays, unit) prog" where
  "SharedArray_plus d h x = SharedArray_append_array d h x"

definition SharedArray_size :: "nat option \<Rightarrow> 'a shared_arrays \<Rightarrow> nat res" where
  "SharedArray_size h s = bindR (array_of h s) (\<lambda>a. Inr (e_size a))"

definition SharedArray_cap :: "nat option \<Rightarrow> 'a shared_arrays \<Rightarrow> nat res" where
  "SharedArray_cap h s = bindR (array_of h s) (\<lambda>a. Inr (e_cap a))"

definition SharedArray_contains :: "nat option \<Rightarrow> 'a \<Rightarrow> 'a shared_arrays \<Rightarrow> bool res" where
  "SharedArray_contains h el s = bindR (array_of h s) (\<lambda>a. Inr (Array_contains a el))"

definition SharedArray_find :: "nat option \<Rightarrow> 'a \<Rightarrow> 'a shared_arrays \<Rightarrow> int res" where
  "SharedArray_find h el s = bindR (array_of h s) (\<lambda>a. Inr (Array_find a el))"

definition SharedArray_at :: "nat option \<Rightarrow> nat \<Rightarrow> 'a shared_arrays \<Rightarrow> 'a res" where
  "SharedArray_at h pos s = bindR (array_of h s) (\<lambda>a. Array_at a pos)"

definition SharedArray_front :: "nat option \<Rightarrow> 'a shared_arrays \<Rightarrow> 'a res" where
  "SharedArray_front h s = bindR (array_of h s) Array_front"

definition SharedArray_back :: "nat option \<Rightarrow> 'a shared_arrays \<Rightarrow> 'a res" where
  "SharedArray_back h s = bindR (array_of h s) Array_back"

text \<open>The subscripts append where they find nothing; the result is the index of the cell.\<close>

definition SharedArray_index_pos :: "'a \<Rightarrow> nat option \<Rightarrow> nat \<Rightarrow> ('a shared_arrays, nat) prog" where
  "SharedArray_index_pos d h pos =
     bindS (\<lambda>s. (bindR (array_of h s) (\<lambda>a. Array_index_pos d a pos), s))
       (\<lambda>(a, i). bindS (through (\<lambda>_. Inr a) h) (\<lambda>_. returnS i))"

definition SharedArray_index_el :: "'a \<Rightarrow> nat option \<Rightarrow> 'a \<Rightarrow> ('a shared_arrays, nat) prog" where
  "SharedArray_index_el d h el =
     bindS (\<lambda>s. (bindR (array_of h s) (\<lambda>a. Array_index_el d a el), s))
       (\<lambda>(a, i). bindS (through (\<lambda>_. Inr a) h) (\<lambda>_. returnS i))"

text \<open>Equality compares the contents, not the control blocks.\<close>

definition SharedArray_equal :: "nat option \<Rightarrow> nat option \<Rightarrow> 'a shared_arrays \<Rightarrow> bool res" where
  "SharedArray_equal h x s = bindR (array_of h s) (\<lambda>a. bindR (array_of x s) (Array_equal a))"

definition SharedArray_not_equal :: "nat option \<Rightarrow> nat option \<Rightarrow> 'a shared_arrays \<Rightarrow> bool res" where
  "SharedArray_not_equal h x s = bindR (SharedArray_equal h x s) (\<lambda>b. Inr (\<not> b))"

section \<open>Handles to what changes\<close>

text \<open>All variables with the handle \<open>h\<close> now stand for \<open>y\<close>.\<close>

definition written :: "nat \<Rightarrow> 'a \<Rightarrow> 'a handles \<Rightarrow> 'a handles" where
  "written h y env v = map_option (\<lambda>(k, x). (k, if k = h then y else x)) (env v)"

locale mutable_handles = shared_handles +
  fixes modify :: "('b \<Rightarrow> 'b res) \<Rightarrow> nat \<Rightarrow> ('a, unit) prog"
  assumes modify_rep: "rep s env \<Longrightarrow> env v = Some (h, x) \<Longrightarrow> f x = Inr y \<Longrightarrow>
      \<exists>s'. modify f h s = (Inr (), s') \<and> rep s' (written h y env)"
    and modify_throws: "rep s env \<Longrightarrow> env v = Some (h, x) \<Longrightarrow> f x = Inl e \<Longrightarrow> modify f h s = (Inl e, s)"
begin

text \<open>A change by one handle is seen by its copies and by no other.\<close>

lemma modify_seen:
  assumes "rep s env" "env v = Some (h, x)" "f x = Inr y"
  shows "\<exists>s'. modify f h s = (Inr (), s') \<and>
    (\<forall>u k z. env u = Some (k, z) \<longrightarrow> get k s' = Inr (if k = h then y else z))"
proof -
  from modify_rep [of s env v h x f y, OF assms] obtain s' where s': "modify f h s = (Inr (), s')" "rep s' (written h y env)"
    by blast
  have "get k s' = Inr (if k = h then y else z)" if "env u = Some (k, z)" for u k z
    using get_rep [OF s'(2), of u] that by (simp add: written_def)
  then show ?thesis using s'(1) by blast
qed

end

section \<open>Shared arrays count their handles and share their array\<close>

definition copy_array :: "nat \<Rightarrow> ('a shared_arrays, nat) prog" where
  "copy_array c = bindS (SharedArray_copy (Some c)) (\<lambda>h. case h of None \<Rightarrow> throwS Undefined | Some c' \<Rightarrow> returnS c')"

definition arrays_alive :: "'a shared_arrays \<Rightarrow> 'a Array set" where
  "arrays_alive s = ac_array ` ran (sa_ctrls s)"

definition arrays_rep :: "'a shared_arrays \<Rightarrow> 'a Array handles \<Rightarrow> bool" where
  "arrays_rep s env \<longleftrightarrow> finite (dom env) \<and>
     (\<forall>v c a. env v = Some (c, a) \<longrightarrow>
        c < sa_next s \<and> sa_ctrls s c = Some \<lparr>ac_array = a, instance_count = users env c\<rparr>) \<and>
     (\<forall>c k. sa_ctrls s c = Some k \<longrightarrow> (\<exists>v. env v = Some (c, ac_array k)))"

lemma arrays_repD:
  assumes "arrays_rep s env"
  shows "finite (dom env)" "env v = Some (c, a) \<Longrightarrow> c < sa_next s"
    "env v = Some (c, a) \<Longrightarrow> sa_ctrls s c = Some \<lparr>ac_array = a, instance_count = users env c\<rparr>"
    "sa_ctrls s c = Some k \<Longrightarrow> \<exists>v. env v = Some (c, ac_array k)"
  using assms by (auto simp: arrays_rep_def)

lemma array_of_rep: "arrays_rep s env \<Longrightarrow> env v = Some (c, a) \<Longrightarrow> array_of (Some c) s = Inr a"
  using arrays_repD(3) by (fastforce simp: array_of_def ctrl_of_def deref_def)

lemma arrays_make:
  assumes "arrays_rep s env" "env v = None"
  shows "SharedArray_of a s = (Inr (sa_next s), snd (SharedArray_of a s)) \<and>
    arrays_rep (snd (SharedArray_of a s)) (env(v \<mapsto> (sa_next s, a)))"
proof -
  note r = arrays_repD [OF assms(1)]
  have none: "users env (sa_next s) = 0" by (rule users_none) (use r(2) in fastforce)
  have new: "users (env(v \<mapsto> (sa_next s, a))) c = (if c = sa_next s then 1 else users env c)" for c
    using users_new [OF r(1) assms(2), of "sa_next s" a c] none by simp
  have "\<exists>u. (env(v \<mapsto> (sa_next s, a))) u = Some (c, ac_array k)" if "c \<noteq> sa_next s" "sa_ctrls s c = Some k" for c k
  proof -
    from r(4) [OF that(2)] obtain u where "env u = Some (c, ac_array k)" by blast
    then show ?thesis using assms(2) by (intro exI [of _ u]) auto
  qed
  moreover have "c \<noteq> sa_next s" if "env u = Some (c, b)" for u c b using r(2) [OF that] by simp
  ultimately show ?thesis
    using r by (fastforce simp: SharedArray_of_def arrays_rep_def new less_Suc_eq)
qed

lemma arrays_copy:
  assumes "arrays_rep s env" "env w = Some (c, a)" "env v = None" "card (dom env) < size_max"
  shows "\<exists>s'. copy_array c s = (Inr c, s') \<and> arrays_rep s' (env(v \<mapsto> (c, a))) \<and> sa_next s' = sa_next s"
proof -
  note r = arrays_repD [OF assms(1)]
  let ?s = "s\<lparr>sa_ctrls := (sa_ctrls s)(c \<mapsto> \<lparr>ac_array = a, instance_count = Suc (users env c)\<rparr>)\<rparr>"
  have "users env c < size_max" using users_le [OF r(1)] assms(4) by (rule le_less_trans)
  then have "copy_array c s = (Inr c, ?s)"
    using r(3) [OF assms(2)]
    by (simp add: copy_array_def SharedArray_copy_def ctrl_of_def deref_def bindS_def returnS_def size_max_def)
  moreover have "arrays_rep ?s (env(v \<mapsto> (c, a)))"
  proof -
    have "c' < sa_next ?s \<and> sa_ctrls ?s c' = Some \<lparr>ac_array = b, instance_count = users (env(v \<mapsto> (c, a))) c'\<rparr>"
      if "(env(v \<mapsto> (c, a))) u = Some (c', b)" for u c' b
    proof -
      have "\<exists>u. env u = Some (c', b)" using that assms(2) by (cases "u = v") auto
      then obtain u' where u': "env u' = Some (c', b)" by blast
      show ?thesis using r(2) [OF u'] r(3) [OF u'] r(3) [OF assms(2)]
        by (auto simp: users_new [OF r(1) assms(3)])
    qed
    moreover have "\<exists>u. (env(v \<mapsto> (c, a))) u = Some (c', ac_array k)" if k: "sa_ctrls ?s c' = Some k" for c' k
    proof (cases "c' = c")
      case True
      then show ?thesis using k by (intro exI [of _ v]) auto
    next
      case False
      then obtain u where "env u = Some (c', ac_array k)" using k r(4) [of c' k] by auto
      then show ?thesis using assms(3) by (intro exI [of _ u]) auto
    qed
    ultimately show ?thesis using r(1) unfolding arrays_rep_def by simp
  qed
  ultimately show ?thesis by auto
qed

lemma arrays_drop:
  assumes "arrays_rep s env" "env v = Some (c, a)" "card (dom env) \<le> size_max"
  shows "\<exists>s'. SharedArray_delete (Some c) s = (Inr (), s') \<and> arrays_rep s' (env(v := None)) \<and> sa_next s' = sa_next s"
proof -
  note r = arrays_repD [OF assms(1)]
  let ?n = "users env c - 1"
  let ?s = "s\<lparr>sa_ctrls := (sa_ctrls s)(c := if ?n = 0 then None else Some \<lparr>ac_array = a, instance_count = ?n\<rparr>)\<rparr>"
  have n: "0 < users env c" "users env c \<le> size_max"
    using users_pos [OF r(1) assms(2)] users_le [OF r(1), of c] assms(3) by simp_all
  then have "sub64 (users env c) 1 = ?n" by (simp add: size_max_def)
  then have "SharedArray_delete (Some c) s = (Inr (), ?s)"
    using r(3) [OF assms(2)] by (simp add: SharedArray_delete_def deref_def Let_def)
  moreover have "arrays_rep ?s (env(v := None))"
  proof -
    have fin: "finite (dom (env(v := None)))" using r(1) by simp
    have "c' < sa_next ?s \<and> sa_ctrls ?s c' = Some \<lparr>ac_array = b, instance_count = users (env(v := None)) c'\<rparr>"
      if u: "(env(v := None)) u = Some (c', b)" for u c' b
    proof -
      have "env u = Some (c', b)" using u by (auto split: if_splits)
      moreover have "0 < (if c' = c then users env c - 1 else users env c')"
        using users_pos [OF fin u] unfolding users_drop [OF r(1) assms(2)] .
      moreover have "b = a" if "c' = c"
        using that r(3) [OF \<open>env u = Some (c', b)\<close>] r(3) [OF assms(2)] by simp
      ultimately show ?thesis using r(2,3) by (auto simp: users_drop [OF r(1) assms(2)])
    qed
    moreover have "\<exists>u. (env(v := None)) u = Some (c', ac_array k)" if k: "sa_ctrls ?s c' = Some k" for c' k
    proof (cases "c' = c")
      case True
      then have "0 < users (env(v := None)) c" "ac_array k = a"
        using k unfolding users_drop [OF r(1) assms(2)] by (auto split: if_splits)
      then obtain u b where u: "(env(v := None)) u = Some (c, b)" unfolding users_def by (fastforce simp: card_gt_0_iff)
      then have "env u = Some (c, b)" by (auto split: if_splits)
      then have "b = a" using r(3) [of u c b] r(3) [OF assms(2)] by simp
      then show ?thesis using u True \<open>ac_array k = a\<close> by blast
    next
      case False
      then obtain u where "env u = Some (c', ac_array k)" using k r(4) [of c' k] by auto
      then show ?thesis using False assms(2) by (intro exI [of _ u]) auto
    qed
    ultimately show ?thesis using fin unfolding arrays_rep_def by blast
  qed
  ultimately show ?thesis by auto
qed

lemma users_written [simp]: "users (written h y env) c = users env c"
proof -
  have "{v. \<exists>x. written h y env v = Some (c, x)} = {v. \<exists>x. env v = Some (c, x)}"
    by (auto simp: written_def split: if_splits)
  then show ?thesis by (simp add: users_def)
qed

lemma arrays_write:
  assumes "arrays_rep s env" "env v = Some (c, a)" "f a = Inr b"
  shows "\<exists>s'. through f (Some c) s = (Inr (), s') \<and> arrays_rep s' (written c b env) \<and> sa_next s' = sa_next s"
proof -
  note r = arrays_repD [OF assms(1)]
  let ?s = "s\<lparr>sa_ctrls := (sa_ctrls s)(c \<mapsto> \<lparr>ac_array = b, instance_count = users env c\<rparr>)\<rparr>"
  have "through f (Some c) s = (Inr (), ?s)"
    using r(3) [OF assms(2)] assms(3) by (simp add: through_def ctrl_of_def deref_def)
  moreover have "dom (written c b env) = dom env" by (auto simp: written_def)
  then have "finite (dom (written c b env))" using r(1) by simp
  moreover have "\<exists>u. written c b env u = Some (c', ac_array k)" if k: "sa_ctrls ?s c' = Some k" for c' k
  proof (cases "c' = c")
    case True
    then show ?thesis using k assms(2) by (intro exI [of _ v]) (auto simp: written_def)
  next
    case False
    then obtain u where "env u = Some (c', ac_array k)" using k r(4) [of c' k] by auto
    then show ?thesis using False by (intro exI [of _ u]) (auto simp: written_def)
  qed
  moreover have "c' < sa_next ?s \<and> sa_ctrls ?s c' = Some \<lparr>ac_array = x, instance_count = users (written c b env) c'\<rparr>"
    if "written c b env u = Some (c', x)" for u c' x
    using that r(2,3) unfolding users_written by (auto simp: written_def split: if_splits)
  ultimately show ?thesis unfolding arrays_rep_def by fastforce
qed

lemma arrays_throw:
  assumes "arrays_rep s env" "env v = Some (c, a)" "f a = Inl e"
  shows "through f (Some c) s = (Inl e, s)"
  using arrays_repD(3) [OF assms(1,2)] assms(3) by (simp add: through_def ctrl_of_def deref_def)

interpretation shared_array: mutable_handles SharedArray_of copy_array "\<lambda>c. SharedArray_delete (Some c)"
  "\<lambda>c. array_of (Some c)" arrays_alive arrays_rep "\<lambda>f c. through f (Some c)"
proof unfold_locales
  fix s :: "'a shared_arrays" and env v h x
  assume r: "arrays_rep s env"
  show "finite (dom env)" using arrays_repD(1) [OF r] .
  show "env v = Some (h, x) \<Longrightarrow> array_of (Some h) s = Inr x" by (rule array_of_rep [OF r])
  show "arrays_alive s = snd ` ran env"
    using arrays_repD(3,4) [OF r] unfolding arrays_alive_def ran_def by force
  show "env v = None \<Longrightarrow> \<exists>h s'. SharedArray_of x s = (Inr h, s') \<and> arrays_rep s' (env(v \<mapsto> (h, x)))"
    using arrays_make [OF r] by blast
  show "env v = Some (h, x) \<Longrightarrow> f x = Inl e \<Longrightarrow> through f (Some h) s = (Inl e, s)" for f e
    by (rule arrays_throw [OF r])
  show "env v = Some (h, x) \<Longrightarrow> f x = Inr y \<Longrightarrow>
      \<exists>s'. through f (Some h) s = (Inr (), s') \<and> arrays_rep s' (written h y env)" for f y
    using arrays_write [OF r] by blast
  show "env v = Some (h, x) \<Longrightarrow> card (dom env) \<le> size_max \<Longrightarrow>
      \<exists>s'. SharedArray_delete (Some h) s = (Inr (), s') \<and> arrays_rep s' (env(v := None))"
    using arrays_drop [OF r] by blast
  show "env w = Some (h, x) \<Longrightarrow> env v = None \<Longrightarrow> card (dom env) < size_max \<Longrightarrow>
      \<exists>h' s'. copy_array h s = (Inr h', s') \<and> arrays_rep s' (env(v \<mapsto> (h', x)))" for w
    using arrays_copy [OF r] by blast
qed

lemma no_arrays_rep: "arrays_rep no_arrays (\<lambda>_. None)"
  by (simp add: arrays_rep_def no_arrays_def)

section \<open>Variables that name lists\<close>

text \<open>The calls on the array of a handle, and what each is on a list.\<close>

datatype 'a array_call =
    Insert_els nat "'a list"
  | Append_els "'a list"
  | Unique_append 'a
  | Remove_n nat nat
  | Remove_el 'a
  | Remove_front
  | Remove_back

fun call_run :: "'a \<Rightarrow> 'a array_call \<Rightarrow> nat option \<Rightarrow> ('a shared_arrays, unit) prog" where
  "call_run d (Insert_els pos els) h = SharedArray_insert d h pos els"
| "call_run d (Append_els els) h = SharedArray_append_els d h els"
| "call_run d (Unique_append el) h = SharedArray_uniqueAppend d h el"
| "call_run d (Remove_n pos n) h = SharedArray_remove_n d h pos n"
| "call_run d (Remove_el el) h = SharedArray_removeEl d h el"
| "call_run d Remove_front h = SharedArray_removeFront d h"
| "call_run d Remove_back h = SharedArray_removeBack d h"

fun call_list :: "'a array_call \<Rightarrow> 'a list \<Rightarrow> 'a list res" where
  "call_list (Insert_els pos els) xs =
     (if length xs < pos then Inl (Runtime_Error ''Position out of range.'')
      else if els = [] \<and> pos < length xs then Inl Undefined
      else Inr (take pos xs @ els @ drop pos xs))"
| "call_list (Append_els els) xs = Inr (xs @ els)"
| "call_list (Unique_append el) xs = Inr (if el \<in> set xs then xs else xs @ [el])"
| "call_list (Remove_n pos n) xs =
     (if length xs < pos + n then Inl (Runtime_Error ''Position out of range.'')
      else Inr (take pos xs @ drop (pos + n) xs))"
| "call_list (Remove_el el) xs = Inr (remove1 el xs)"
| "call_list Remove_front xs =
     (if xs = [] then Inl (Runtime_Error ''No element to remove.'') else Inr (tl xs))"
| "call_list Remove_back xs =
     (if xs = [] then Inl (Runtime_Error ''No element to remove.'') else Inr (butlast xs))"

text \<open>The sizes the lists may have, and positions that do not wrap.\<close>

definition small :: "nat \<Rightarrow> bool" where
  "small n \<longleftrightarrow> n \<le> 2 ^ 62"

fun call_fits :: "'a array_call \<Rightarrow> 'a list \<Rightarrow> bool" where
  "call_fits (Insert_els pos els) xs = small (length els + length xs)"
| "call_fits (Append_els els) xs = small (length els + length xs)"
| "call_fits (Unique_append el) xs = small (1 + length xs)"
| "call_fits (Remove_n pos n) xs = (pos + n < 2 ^ 64)"
| "call_fits (Remove_el el) xs = True"
| "call_fits Remove_front xs = True"
| "call_fits Remove_back xs = True"

fun call_array :: "'a \<Rightarrow> 'a array_call \<Rightarrow> 'a Array \<Rightarrow> 'a Array res" where
  "call_array d (Insert_els pos els) a = Array_insert d a pos els"
| "call_array d (Append_els els) a = Array_append_els d a els"
| "call_array d (Unique_append el) a = Array_uniqueAppend d a el"
| "call_array d (Remove_n pos n) a = Array_remove_n d a pos n"
| "call_array d (Remove_el el) a = Array_removeEl d a el"
| "call_array d Remove_front a = Array_removeFront d a"
| "call_array d Remove_back a = Array_removeBack d a"

lemma call_run_through: "call_run d c h = through (call_array d c) h"
  by (cases c) (simp_all add: SharedArray_insert_def SharedArray_append_els_def SharedArray_uniqueAppend_def
    SharedArray_remove_n_def SharedArray_removeEl_def SharedArray_removeFront_def SharedArray_removeBack_def
    fun_eq_iff through_def)

definition implements :: "'a Array res \<Rightarrow> 'a list res \<Rightarrow> bool" where
  "implements r q \<longleftrightarrow> (case q of Inl e \<Rightarrow> r = Inl e | Inr ys \<Rightarrow> \<exists>a. r = Inr a \<and> Array_inv a \<and> elems a = ys)"

lemma small_upsize: "small n \<Longrightarrow> upsize n < 2 ^ 63"
  by (simp add: small_def upsize_def)

lemma insert_implements:
  assumes "Array_inv a" "small (length els + length (elems a))"
  shows "implements (Array_insert d a pos els) (call_list (Insert_els pos els) (elems a))"
proof -
  have l: "length (elems a) = e_size a" using assms(1) by simp
  have "upsize (length els + e_size a) < 2 ^ 63" using small_upsize [OF assms(2)] l by simp
  note c = Array_insert_correct [OF assms(1) _ _ this, of pos d]
  show ?thesis
  proof (cases "pos < e_size a \<and> els = []")
    case True
    then show ?thesis using insert_nothing_undefined [OF assms(1), of pos d] l by (simp add: implements_def)
  next
    case False
    then show ?thesis
    proof (cases "e_size a < pos")
      case True
      then show ?thesis using l by (simp add: implements_def Array_insert_def)
    next
      case in_range: False
      then have "pos \<le> e_size a" "els \<noteq> [] \<or> pos = e_size a" using False by auto
      from c [OF this] show ?thesis using in_range False l by (auto simp: implements_def)
    qed
  qed
qed

lemma call_implements:
  assumes "Array_inv a" "call_fits c (elems a)"
  shows "implements (call_array d c a) (call_list c (elems a))"
proof (cases c)
  case (Insert_els pos els)
  then show ?thesis using insert_implements [OF assms(1), of els d pos] assms(2) by simp
next
  case (Append_els els)
  have "e_size a = length (elems a)" using assms(1) by simp
  then show ?thesis using insert_implements [OF assms(1), of els d "e_size a"] Append_els assms(2)
    by (simp add: Array_append_els_def)
next
  case (Unique_append el)
  have "grows a 1" using small_upsize [of "1 + length (elems a)"] assms Unique_append by (simp add: grows_def)
  from Array_uniqueAppend_correct [OF assms(1) this, of d el] Unique_append show ?thesis by (auto simp: implements_def)
next
  case (Remove_n pos n)
  have l: "length (elems a) = e_size a" using assms(1) by simp
  show ?thesis
  proof (cases "e_size a < pos + n")
    case True
    then show ?thesis using Remove_n assms(2) l by (simp add: implements_def Array_remove_n_def)
  next
    case False
    then have "pos + n \<le> e_size a" by simp
    from Array_remove_n_correct [OF assms(1) this, of d] False Remove_n l show ?thesis
      by (auto simp: implements_def)
  qed
next
  case (Remove_el el)
  from Array_removeEl_correct [OF assms(1), of d el] Remove_el show ?thesis by (auto simp: implements_def)
next
  case Remove_front
  from Array_removeFront_correct [OF assms(1), of d] Remove_front show ?thesis
    by (auto simp: implements_def split: if_splits)
next
  case Remove_back
  from Array_removeBack_correct [OF assms(1), of d] Remove_back show ?thesis
    by (auto simp: implements_def split: if_splits)
qed

text \<open>Programs over variables that hold handles.\<close>

datatype 'a share_op = New nat "'a list" | Share nat nat | Release nat | Call nat "'a array_call" | Join nat nat

fun share_run :: "'a \<Rightarrow> 'a share_op \<Rightarrow> ('a shared_arrays \<times> (nat \<Rightarrow> nat option), unit) prog" where
  "share_run d (New v xs) (s, env) =
     (case SharedArray_of_list d xs s of
        (Inl e, s') \<Rightarrow> (Inl e, (s', env)) | (Inr h, s') \<Rightarrow> (Inr (), (s', env(v \<mapsto> h))))"
| "share_run d (Share v w) (s, env) =
     (case SharedArray_copy (env w) s of (Inl e, s') \<Rightarrow> (Inl e, (s', env)) | (Inr h, s') \<Rightarrow> (Inr (), (s', env(v := h))))"
| "share_run d (Release v) (s, env) =
     (case SharedArray_delete (env v) s of
        (Inl e, s') \<Rightarrow> (Inl e, (s', env)) | (Inr _, s') \<Rightarrow> (Inr (), (s', env(v := None))))"
| "share_run d (Call v c) (s, env) = (case call_run d c (env v) s of (r, s') \<Rightarrow> (r, (s', env)))"
| "share_run d (Join v w) (s, env) = (case SharedArray_append_array d (env v) (env w) s of (r, s') \<Rightarrow> (r, (s', env)))"

fun shares_run :: "'a \<Rightarrow> 'a share_op list \<Rightarrow> ('a shared_arrays \<times> (nat \<Rightarrow> nat option), unit) prog" where
  "shares_run d [] = returnS ()"
| "shares_run d (x # xs) = bindS (share_run d x) (\<lambda>_. shares_run d xs)"

text \<open>
  The specification: a variable names a list (its number and what is in it), a copy is another name,
  a call changes the list under all its names. \<open>None\<close> for a program that uses a name it does not
  have or builds a list that is too large.
\<close>

fun list_step :: "'a share_op \<Rightarrow> nat \<times> 'a list handles \<Rightarrow> (unit res \<times> nat \<times> 'a list handles) option" where
  "list_step (New v xs) (n, m) =
     (if m v = None \<and> small (length xs) then Some (Inr (), n + 1, m(v \<mapsto> (n, xs))) else None)"
| "list_step (Share v w) (n, m) =
     (if m v = None \<and> m w \<noteq> None then Some (Inr (), n, m(v := m w)) else None)"
| "list_step (Release v) (n, m) = (if m v = None then None else Some (Inr (), n, m(v := None)))"
| "list_step (Call v c) (n, m) =
     (case m v of
        None \<Rightarrow> None
      | Some (h, xs) \<Rightarrow>
          if \<not> call_fits c xs then None
          else (case call_list c xs of
              Inl e \<Rightarrow> Some (Inl e, n, m)
            | Inr ys \<Rightarrow> Some (Inr (), n, written h ys m)))"
| "list_step (Join v w) (n, m) =
     (case m v of
        None \<Rightarrow> None
      | Some (h, xs) \<Rightarrow>
          (case m w of
             None \<Rightarrow> None
           | Some (k, ys) \<Rightarrow>
               if small (length ys + length xs) then Some (Inr (), n, written h (xs @ ys) m) else None))"

fun list_steps :: "'a share_op list \<Rightarrow> nat \<times> 'a list handles \<Rightarrow> (unit res \<times> nat \<times> 'a list handles) option" where
  "list_steps [] (n, m) = Some (Inr (), n, m)"
| "list_steps (x # xs) (n, m) =
     (case list_step x (n, m) of
        Some (Inr _, n', m') \<Rightarrow> list_steps xs (n', m')
      | r \<Rightarrow> r)"

section \<open>The refinement\<close>

definition lists_of :: "'a Array handles \<Rightarrow> 'a list handles" where
  "lists_of env v = map_option (apsnd elems) (env v)"

definition lists_rep :: "'a shared_arrays \<Rightarrow> nat \<Rightarrow> 'a Array handles \<Rightarrow> bool" where
  "lists_rep s n env \<longleftrightarrow> sa_next s = n \<and> arrays_rep s env \<and> (\<forall>v c a. env v = Some (c, a) \<longrightarrow> Array_inv a)"

lemma lists_of_upd [simp]:
  "lists_of (env(v \<mapsto> (h, a))) = (lists_of env)(v \<mapsto> (h, elems a))"
  "lists_of (env(v := None)) = (lists_of env)(v := None)"
  "lists_of (written h a env) = written h (elems a) (lists_of env)"
  by (auto simp: lists_of_def written_def fun_eq_iff option.map_comp comp_def split_def intro!: map_option_cong)

lemma handle_of_written [simp]: "handle_of (written h a env) = handle_of env"
  by (auto simp: handle_of_def written_def fun_eq_iff option.map_comp comp_def split_def)

lemma handle_of_lists [simp]: "handle_of (lists_of env) = handle_of env"
  by (auto simp: handle_of_def lists_of_def fun_eq_iff option.map_comp comp_def)

lemma lists_of_empty [simp]: "lists_of (\<lambda>_. None) = (\<lambda>_. None)"
  by (simp add: lists_of_def fun_eq_iff)

lemma dom_written [simp]: "dom (written h a env) = dom env"
  by (auto simp: written_def)

lemma copy_array_handle: "copy_array c s = (Inr c', s') \<Longrightarrow> SharedArray_copy (Some c) s = (Inr (Some c'), s')"
  by (auto simp: copy_array_def bindS_def returnS_def throwS_def split: prod.splits sum.splits option.splits)

text \<open>What a step must reach.\<close>

definition reaches :: "unit res \<times> 'a shared_arrays \<times> (nat \<Rightarrow> nat option) \<Rightarrow> unit res \<Rightarrow> nat \<Rightarrow> 'a list handles \<Rightarrow> nat \<Rightarrow> bool" where
  "reaches o' r n m b \<longleftrightarrow> (\<exists>s env. o' = (r, (s, handle_of env)) \<and> lists_rep s n env \<and> lists_of env = m \<and>
     card (dom env) \<le> b)"

lemma reachesI:
  "o' = (r, (s, handle_of env)) \<Longrightarrow> lists_rep s n env \<Longrightarrow> lists_of env = m \<Longrightarrow> card (dom env) \<le> b \<Longrightarrow> reaches o' r n m b"
  by (auto simp: reaches_def)

lemma lists_repD:
  assumes "lists_rep s n env"
  shows "sa_next s = n" "arrays_rep s env" "env v = Some (c, a) \<Longrightarrow> Array_inv a" "finite (dom env)"
  using assms arrays_repD(1) by (auto simp: lists_rep_def)

lemma card_upd: "finite (dom env) \<Longrightarrow> card (dom (env(v \<mapsto> x))) \<le> Suc (card (dom env))"
  by (simp add: card_insert_if)

lemma new_refines:
  assumes "lists_rep s n env" "env v = None" "small (length xs)"
  shows "reaches (share_run d (New v xs) (s, handle_of env)) (Inr ()) (n + 1) ((lists_of env)(v \<mapsto> (n, xs))) (Suc (card (dom env)))"
proof -
  note r = lists_repD [OF assms(1)]
  from Array_of_list_correct [OF small_upsize [OF assms(3)], of d]
  obtain a where a: "Array_of_list d xs = Inr a" "Array_inv a" "elems a = xs" by blast
  let ?s = "snd (SharedArray_of a s)"
  have m: "SharedArray_of a s = (Inr n, ?s)" "arrays_rep ?s (env(v \<mapsto> (n, a)))"
    using arrays_make [OF r(2) assms(2), of a] r(1) by simp_all
  have "sa_next ?s = n + 1" using r(1) by (simp add: SharedArray_of_def)
  moreover have "SharedArray_of_list d xs s = (Inr n, ?s)"
    using a(1) m(1) by (simp add: SharedArray_of_list_def bindS_def liftS_def)
  ultimately show ?thesis
    using m(2) a r(3) card_upd [OF r(4), of v "(n, a)"]
    by (intro reachesI [where env = "env(v \<mapsto> (n, a))" and s = ?s]) (auto simp: lists_rep_def split: if_splits)
qed

lemma share_refines:
  assumes "lists_rep s n env" "env v = None" "env w = Some (c, a)" "card (dom env) < size_max"
  shows "reaches (share_run d (Share v w) (s, handle_of env)) (Inr ()) n ((lists_of env)(v := lists_of env w)) (Suc (card (dom env)))"
proof -
  note r = lists_repD [OF assms(1)]
  from arrays_copy [OF r(2) assms(3,2,4)] obtain s'
    where s': "copy_array c s = (Inr c, s')" "arrays_rep s' (env(v \<mapsto> (c, a)))" "sa_next s' = sa_next s" by blast
  have "handle_of env w = Some c" "lists_of env w = Some (c, elems a)"
    using assms(3) by (simp_all add: handle_of_def lists_of_def)
  then show ?thesis
    using s' r(1,3) assms(3) copy_array_handle [OF s'(1)] card_upd [OF r(4), of v "(c, a)"]
    by (intro reachesI [where env = "env(v \<mapsto> (c, a))" and s = s']) (auto simp: lists_rep_def split: if_splits)
qed

lemma release_refines:
  assumes "lists_rep s n env" "env v = Some (c, a)" "card (dom env) \<le> size_max"
  shows "reaches (share_run d (Release v) (s, handle_of env)) (Inr ()) n ((lists_of env)(v := None)) (Suc (card (dom env)))"
proof -
  note r = lists_repD [OF assms(1)]
  from arrays_drop [OF r(2) assms(2,3)] obtain s'
    where s': "SharedArray_delete (Some c) s = (Inr (), s')" "arrays_rep s' (env(v := None))" "sa_next s' = sa_next s" by blast
  have "handle_of env v = Some c" using assms(2) by (simp add: handle_of_def)
  moreover have "card (dom (env(v := None))) \<le> Suc (card (dom env))" using r(4) by (simp add: le_SucI card_Diff1_le)
  ultimately show ?thesis
    using s' r(1,3) by (intro reachesI [where env = "env(v := None)" and s = s']) (auto simp: lists_rep_def split: if_splits)
qed

lemma through_refines:
  assumes "lists_rep s n env" "env v = Some (c, a)" "implements (f a) q"
  shows "reaches (case through f (Some c) s of (r, s') \<Rightarrow> (r, (s', handle_of env)))
    (case q of Inl e \<Rightarrow> Inl e | Inr ys \<Rightarrow> Inr ()) n
    (case q of Inl e \<Rightarrow> lists_of env | Inr ys \<Rightarrow> written c ys (lists_of env)) (Suc (card (dom env)))"
proof -
  note r = lists_repD [OF assms(1)]
  show ?thesis
  proof (cases q)
    case (Inl e)
    then have "f a = Inl e" using assms(3) by (simp add: implements_def)
    from arrays_throw [where f = f, OF r(2) assms(2) this] Inl assms(1) show ?thesis
      by (intro reachesI [where env = env and s = s]) auto
  next
    case (Inr ys)
    then obtain b where b: "f a = Inr b" "Array_inv b" "elems b = ys" using assms(3) by (auto simp: implements_def)
    from arrays_write [where f = f, OF r(2) assms(2) b(1)] obtain s'
      where s': "through f (Some c) s = (Inr (), s')" "arrays_rep s' (written c b env)" "sa_next s' = sa_next s" by blast
    have "lists_rep s' n (written c b env)"
      using s' r(1,3) b(2) by (auto simp: lists_rep_def written_def split: if_splits)
    then show ?thesis using s' b(3) Inr
      by (intro reachesI [where env = "written c b env" and s = s']) auto
  qed
qed

lemma append_array_through:
  assumes "array_of x s = Inr b"
  shows "SharedArray_append_array d h x s = through (\<lambda>a. Array_append_array d a b) h s"
  using assms by (simp add: SharedArray_append_array_def bindS_def)

lemma step_refines:
  assumes "lists_rep s n env" "list_step x (n, lists_of env) = Some (r, n', m)" "card (dom env) < size_max"
  shows "reaches (share_run d x (s, handle_of env)) r n' m (Suc (card (dom env)))"
proof (cases x)
  case (New v xs)
  then show ?thesis using assms(2) new_refines [OF assms(1), of v xs d] by (auto simp: lists_of_def split: if_splits)
next
  case (Share v w)
  then have v: "lists_of env v = None" "lists_of env w \<noteq> None" "r = Inr ()" "n' = n" "m = (lists_of env)(v := lists_of env w)"
    using assms(2) by (auto split: if_splits)
  then obtain c a where "env v = None" "env w = Some (c, a)" by (auto simp: lists_of_def)
  from share_refines [OF assms(1) this assms(3), of d] v(3-5) Share show ?thesis by simp
next
  case (Release v)
  then obtain c a where v: "env v = Some (c, a)" "r = Inr ()" "n' = n" "m = (lists_of env)(v := None)"
    using assms(2) by (auto simp: lists_of_def split: if_splits)
  from release_refines [OF assms(1) v(1), of d] assms(3) v(2-4) Release show ?thesis by simp
next
  case (Call v cl)
  then obtain c a where v: "env v = Some (c, a)" using assms(2) by (auto simp: lists_of_def split: option.splits)
  have f: "call_fits cl (elems a)" using assms(2) Call v by (auto simp: lists_of_def split: if_splits)
  have h: "handle_of env v = Some c" using v by (simp add: handle_of_def)
  have "implements (call_array d cl a) (call_list cl (elems a))"
    by (rule call_implements [OF _ f]) (rule lists_repD(3) [OF assms(1) v])
  from through_refines [where f = "call_array d cl", OF assms(1) v this] assms(2) Call v f h show ?thesis
    by (auto simp: call_run_through lists_of_def split: sum.splits)
next
  case (Join v w)
  then obtain c a k b where v: "env v = Some (c, a)" "env w = Some (k, b)" "small (length (elems b) + length (elems a))"
      "r = Inr ()" "n' = n" "m = written c (elems a @ elems b) (lists_of env)"
    using assms(2) by (auto simp: lists_of_def split: option.splits if_splits)
  note i = lists_repD(3) [OF assms(1) v(1)] lists_repD(3) [OF assms(1) v(2)]
  have "grows a (e_size b)" using small_upsize [OF v(3)] i by (simp add: grows_def)
  from Array_append_array_correct [OF i this, of d]
  have "implements (Array_append_array d a b) (Inr (elems a @ elems b))" by (auto simp: implements_def)
  from through_refines [where f = "\<lambda>a. Array_append_array d a b", OF assms(1) v(1) this] v Join
    append_array_through [OF array_of_rep [OF lists_repD(2) [OF assms(1)] v(2)], of d]
  show ?thesis by (simp add: handle_of_def)
qed

lemma steps_refine:
  assumes "lists_rep s n env" "list_steps xs (n, lists_of env) = Some (r, n', m)" "card (dom env) + length xs \<le> size_max"
  shows "\<exists>s' env'. shares_run d xs (s, handle_of env) = (r, (s', handle_of env')) \<and> lists_rep s' n' env' \<and> lists_of env' = m"
  using assms
proof (induction xs arbitrary: s n env)
  case Nil
  then show ?case by (auto simp: returnS_def)
next
  case (Cons x xs)
  from Cons.prems(2) obtain r1 n1 m1 where st: "list_step x (n, lists_of env) = Some (r1, n1, m1)"
    by (auto split: option.splits)
  have "card (dom env) < size_max" using Cons.prems(3) by simp
  from step_refines [OF Cons.prems(1) st this, of d] obtain s1 env1
    where s1: "share_run d x (s, handle_of env) = (r1, (s1, handle_of env1))" "lists_rep s1 n1 env1" "lists_of env1 = m1"
      "card (dom env1) \<le> Suc (card (dom env))" by (auto simp: reaches_def)
  show ?case
  proof (cases r1)
    case (Inl e)
    then show ?thesis using s1 st Cons.prems(2) by (auto simp: bindS_def)
  next
    case (Inr u)
    have "list_steps xs (n1, lists_of env1) = Some (r, n', m)" using Inr st Cons.prems(2) s1(3) by simp
    from Cons.IH [OF s1(2) this] s1 Inr Cons.prems(3) show ?thesis by (auto simp: bindS_def)
  qed
qed

section \<open>Where copies are not counted\<close>

text \<open>Two arrays; the handle of the first is assigned to that of the second; both are destroyed.\<close>

definition assigned_array :: "'a Array \<Rightarrow> 'a Array \<Rightarrow> ('a shared_arrays, unit) prog" where
  "assigned_array a b =
     bindS (SharedArray_of a) (\<lambda>h. bindS (SharedArray_of b) (\<lambda>x.
     bindS (SharedArray_copy_assign (Some x) (Some h)) (\<lambda>x'.
     bindS (SharedArray_delete (Some h)) (\<lambda>_. SharedArray_delete x'))))"

section \<open>Properties\<close>

text \<open>
  C12. Shared arrays are variables that name lists: whatever a program with names in scope and
  lists of at most \<open>2 ^ 62\<close> elements makes, copies, destroys, changes and joins, its result
  (errors included) is that of the program on lists, every variable reads the list it names, a
  change by one name is seen by all others of the list, and an array is alive as long as it has a name.
\<close>

theorem shared_arrays_refine:
  assumes "list_steps ops (0, Map.empty) = Some (r, n, m)" and "length ops \<le> size_max"
  shows "\<exists>s env. shares_run d ops (no_arrays, Map.empty) = (r, (s, env)) \<and> env = handle_of m \<and>
    (\<forall>v h xs. m v = Some (h, xs) \<longrightarrow> (\<exists>a. array_of (env v) s = Inr a \<and> Array_inv a \<and> elems a = xs)) \<and>
    elems ` arrays_alive s = snd ` ran m"
proof -
  have "lists_rep no_arrays 0 (\<lambda>_. None)" using no_arrays_rep by (auto simp: lists_rep_def no_arrays_def)
  from steps_refine [OF this, of ops r n m d] assms obtain s env
    where run: "shares_run d ops (no_arrays, Map.empty) = (r, (s, handle_of env))"
      and l: "lists_rep s n env" "lists_of env = m" by auto
  have "\<exists>a. array_of (handle_of m v) s = Inr a \<and> Array_inv a \<and> elems a = xs" if "m v = Some (h, xs)" for v h xs
  proof -
    have "lists_of env v = Some (h, xs)" using that l(2) by simp
    then obtain a where v: "env v = Some (h, a)" "elems a = xs" by (auto simp: lists_of_def)
    have "handle_of m v = Some h" using that by (simp add: handle_of_def)
    then show ?thesis using array_of_rep [OF lists_repD(2) [OF l(1)] v(1)] lists_repD(3) [OF l(1) v(1)] v(2) by auto
  qed
  moreover have "elems ` arrays_alive s = snd ` ran m"
    using shared_array.objects_rep [OF lists_repD(2) [OF l(1)]] l(2)
    by (force simp: lists_of_def ran_def image_def)
  moreover have "handle_of env = handle_of m" using l(2) by auto
  ultimately show ?thesis using run by (intro exI [of _ s] exI [of _ "handle_of env"]) simp
qed

definition two_names :: "nat share_op list" where
  "two_names = [New 0 [1, 2], Share 1 0, New 2 [5], Call 1 (Append_els [3]), Join 0 2, Release 2, Call 1 Remove_front]"

definition two_names_lists :: "nat list handles" where
  "two_names_lists = [0 \<mapsto> (0, [2, 3, 5]), 1 \<mapsto> (0, [2, 3, 5])]"

theorem shared_arrays_refine_witness:
  "\<exists>s a. shares_run 0 two_names (no_arrays, Map.empty) = (Inr (), (s, handle_of two_names_lists)) \<and>
     array_of (Some 0) s = Inr a \<and> elems a = [2, 3, 5] \<and> elems ` arrays_alive s = {[2, 3, 5]}"
proof -
  have "list_steps two_names (0, Map.empty) = Some (Inr (), 2, two_names_lists)"
    by (simp add: two_names_def two_names_lists_def small_def written_def fun_eq_iff)
  moreover have "length two_names \<le> size_max" by (simp add: two_names_def size_max_def)
  ultimately obtain s where run: "shares_run 0 two_names (no_arrays, Map.empty) = (Inr (), (s, handle_of two_names_lists))"
    and each: "\<And>v h xs. two_names_lists v = Some (h, xs) \<Longrightarrow>
      \<exists>a. array_of (handle_of two_names_lists v) s = Inr a \<and> Array_inv a \<and> elems a = xs"
    and alive: "elems ` arrays_alive s = snd ` ran two_names_lists"
    using shared_arrays_refine [of two_names "Inr ()" 2 two_names_lists 0] by blast
  have v: "two_names_lists (0::nat) = Some (0, [2, 3, 5])" by (simp add: two_names_lists_def)
  have "ran two_names_lists = {(0, [2, 3, 5])}" by (auto simp: two_names_lists_def ran_def split: if_splits)
  with run each [OF v] alive v show ?thesis by (auto simp: handle_of_def)
qed

text \<open>
  Copy assignment of a shared array loses the array the left side had: it stays allocated after
  every handle is destroyed.
\<close>

theorem assigned_array_leaks:
  "\<exists>s. assigned_array a b no_arrays = (Inr (), s) \<and> arrays_alive s = {b}"
proof -
  have c: "add64 1 1 = 2" "sub64 2 1 = 1" "sub64 1 1 = 0" by (simp_all add: add64_def sub64_def)
  show ?thesis
    using c by (simp add: assigned_array_def bindS_def SharedArray_of_def no_arrays_def SharedArray_copy_assign_def
      SharedArray_copy_def ctrl_of_def deref_def SharedArray_delete_def arrays_alive_def ran_def Let_def)
qed

end
