(* ===== verification/Connection_Timer.thy ===== *)
theory Connection_Timer
  imports Prelude
begin

text \<open>
  lib/web/server_connection_timer.h: the connections with their time limits, a doubly linked list in
  a store of nodes, under one mutex. A function is \<open>None\<close> when it does not return: it waits for the
  mutex while nobody will release it, or follows the links for ever. The clock and the success of
  \<open>malloc\<close> are arguments; \<open>tl_closed\<close> records the descriptors closed.
\<close>

section \<open>The list and its mutex\<close>

record connection =
  cn_fd :: int
  cn_start :: int
  cn_timeout :: nat
  cn_next :: "nat option"
  cn_prev :: "nat option"

record timer_list =
  tl_fresh :: nat
  tl_nodes :: "nat \<Rightarrow> connection option"
  tl_start :: "nat option"
  tl_end :: "nat option"
  tl_locked :: bool
  tl_closed :: "int list"

definition timer_init :: timer_list where
  "timer_init = \<lparr>tl_fresh = 0, tl_nodes = Map.empty, tl_start = None, tl_end = None, tl_locked = False, tl_closed = []\<rparr>"

definition node_at :: "nat \<Rightarrow> timer_list \<Rightarrow> connection res" where
  "node_at p s = (case tl_nodes s p of None \<Rightarrow> Inl Undefined | Some c \<Rightarrow> Inr c)"

definition set_node :: "nat \<Rightarrow> (connection \<Rightarrow> connection) \<Rightarrow> (timer_list, unit) prog" where
  "set_node p f s =
     (case node_at p s of
        Inl e \<Rightarrow> (Inl e, s)
      | Inr c \<Rightarrow> (Inr (), s\<lparr>tl_nodes := (tl_nodes s)(p \<mapsto> f c)\<rparr>))"

text \<open>Calls that may not return.\<close>

type_synonym 'a call = "timer_list \<Rightarrow> ('a res \<times> timer_list) option"

definition locking :: "'a call \<Rightarrow> 'a call" where
  "locking f s = (if tl_locked s then None else f (s\<lparr>tl_locked := True\<rparr>))"

definition unlocked :: "timer_list \<Rightarrow> timer_list" where
  "unlocked s = s\<lparr>tl_locked := False\<rparr>"

section \<open>Removal\<close>

definition removeConnection :: "nat \<Rightarrow> (timer_list, unit) prog" where
  "removeConnection p s =
     (case node_at p s of
        Inl e \<Rightarrow> (Inl e, s)
      | Inr c \<Rightarrow>
          bindS (case cn_prev c of
                   None \<Rightarrow> (\<lambda>s. (Inr (), s\<lparr>tl_start := cn_next c\<rparr>))
                 | Some q \<Rightarrow> set_node q (\<lambda>n. n\<lparr>cn_next := cn_next c\<rparr>)) (\<lambda>_.
          bindS (case cn_next c of
                   None \<Rightarrow> (\<lambda>s. (Inr (), s\<lparr>tl_end := cn_prev c\<rparr>))
                 | Some q \<Rightarrow> set_node q (\<lambda>n. n\<lparr>cn_prev := cn_prev c\<rparr>)) (\<lambda>_ s.
            (Inr (), s\<lparr>tl_nodes := (tl_nodes s)(p := None)\<rparr>))) s)"

definition closeConnection :: "nat \<Rightarrow> (timer_list, unit) prog" where
  "closeConnection p s =
     (case node_at p s of
        Inl e \<Rightarrow> (Inl e, s)
      | Inr c \<Rightarrow> removeConnection p (s\<lparr>tl_closed := tl_closed s @ [cn_fd c]\<rparr>))"

section \<open>The pass of the timer thread\<close>

definition expired :: "connection \<Rightarrow> int \<Rightarrow> bool" where
  "expired c now \<longleftrightarrow> cn_start c + int (cn_timeout c) \<le> now"

partial_function (option) timer_sweep :: "(nat \<Rightarrow> int) \<Rightarrow> nat \<Rightarrow> nat option \<Rightarrow> unit call" where
  "timer_sweep now i current s =
     (case current of
        None \<Rightarrow> Some (Inr (), s)
      | Some p \<Rightarrow>
          (case node_at p s of
             Inl e \<Rightarrow> Some (Inl e, s)
           | Inr c \<Rightarrow>
               if expired c (now i)
               then (case closeConnection p s of
                       (Inl e, s') \<Rightarrow> Some (Inl e, s')
                     | (Inr _, s') \<Rightarrow> timer_sweep now (Suc i) (cn_next c) s')
               else timer_sweep now (Suc i) (cn_next c) s))"

text \<open>One turn of the loop of \<open>timerProcess\<close>; \<open>now i\<close> is the clock at the \<open>i\<close>-th connection.\<close>

definition timerProcess :: "(nat \<Rightarrow> int) \<Rightarrow> unit call" where
  "timerProcess now = locking (\<lambda>s. map_option (apsnd unlocked) (timer_sweep now 0 (tl_start s) s))"

section \<open>The calls\<close>

partial_function (option) find_back :: "int \<Rightarrow> nat option \<Rightarrow> timer_list \<Rightarrow> (nat option) res option" where
  "find_back fd current s =
     (case current of
        None \<Rightarrow> Some (Inr None)
      | Some p \<Rightarrow>
          (case node_at p s of
             Inl e \<Rightarrow> Some (Inl e)
           | Inr c \<Rightarrow> if cn_fd c = fd then Some (Inr (Some p)) else find_back fd (cn_prev c) s))"

partial_function (option) find_front :: "int \<Rightarrow> nat option \<Rightarrow> timer_list \<Rightarrow> (nat option) res option" where
  "find_front fd current s =
     (case current of
        None \<Rightarrow> Some (Inr None)
      | Some p \<Rightarrow>
          (case node_at p s of
             Inl e \<Rightarrow> Some (Inl e)
           | Inr c \<Rightarrow> if cn_fd c = fd then Some (Inr (Some p)) else find_front fd (cn_next c) s))"

text \<open>
  \<open>timerSetTimeout\<close> and \<open>timerGetTimeout\<close> read \<open>end\<close> before they take the mutex: \<open>current\<close> is that value.
\<close>

definition timerSetTimeout_from :: "nat option \<Rightarrow> int \<Rightarrow> nat \<Rightarrow> unit call" where
  "timerSetTimeout_from current fd timeout_s =
     locking (\<lambda>s. case find_back fd current s of
         None \<Rightarrow> None
       | Some (Inl e) \<Rightarrow> Some (Inl e, s)
       | Some (Inr None) \<Rightarrow> Some (Inr (), unlocked s)
       | Some (Inr (Some p)) \<Rightarrow>
           Some (apsnd unlocked (set_node p (\<lambda>c. c\<lparr>cn_timeout := timeout_s mod 2 ^ 32\<rparr>) s)))"

definition timerSetTimeout :: "int \<Rightarrow> nat \<Rightarrow> unit call" where
  "timerSetTimeout fd timeout_s s = timerSetTimeout_from (tl_end s) fd timeout_s s"

text \<open>A connection that is found is returned with the mutex held.\<close>

definition timerGetTimeout_from :: "nat option \<Rightarrow> int \<Rightarrow> nat call" where
  "timerGetTimeout_from current fd =
     locking (\<lambda>s. case find_back fd current s of
         None \<Rightarrow> None
       | Some (Inl e) \<Rightarrow> Some (Inl e, s)
       | Some (Inr None) \<Rightarrow> Some (Inr 0, unlocked s)
       | Some (Inr (Some p)) \<Rightarrow> Some (bindR (node_at p s) (\<lambda>c. Inr (cn_timeout c)), s))"

definition timerGetTimeout :: "int \<Rightarrow> nat call" where
  "timerGetTimeout fd s = timerGetTimeout_from (tl_end s) fd s"

text \<open>
  \<open>timerAddConnection\<close> fills the node, looks at \<open>start\<close> without the mutex (\<open>seen\<close>) and then links the node:
  with the mutex if \<open>start\<close> was not null, else without.
\<close>

definition connection_new :: "bool \<Rightarrow> int \<Rightarrow> int \<Rightarrow> nat \<Rightarrow> (timer_list, nat) prog" where
  "connection_new malloc_ok fd now timeout_s s =
     (if malloc_ok
      then (Inr (tl_fresh s), s\<lparr>tl_fresh := Suc (tl_fresh s), tl_nodes := (tl_nodes s)(tl_fresh s \<mapsto>
             \<lparr>cn_fd = fd, cn_start = now, cn_timeout = timeout_s mod 2 ^ 32, cn_next = None, cn_prev = None\<rparr>)\<rparr>)
      else (Inl Undefined, s))"

definition connection_link :: "nat option \<Rightarrow> nat \<Rightarrow> unit call" where
  "connection_link seen p s =
     (if seen = None then Some (Inr (), s\<lparr>tl_start := Some p, tl_end := Some p\<rparr>)
      else locking (\<lambda>s. case tl_end s of
          None \<Rightarrow> Some (Inl Undefined, s)
        | Some q \<Rightarrow>
            Some (apsnd unlocked (bindS (set_node q (\<lambda>c. c\<lparr>cn_next := Some p\<rparr>)) (\<lambda>_.
              bindS (set_node p (\<lambda>c. c\<lparr>cn_prev := Some q\<rparr>)) (\<lambda>_ s. (Inr (), s\<lparr>tl_end := Some p\<rparr>))) s))) s)"

definition timerAddConnection :: "bool \<Rightarrow> int \<Rightarrow> int \<Rightarrow> nat \<Rightarrow> unit call" where
  "timerAddConnection malloc_ok fd now timeout_s s =
     (case connection_new malloc_ok fd now timeout_s s of
        (Inl e, s') \<Rightarrow> Some (Inl e, s')
      | (Inr p, s') \<Rightarrow> connection_link (tl_start s') p s')"

text \<open>Without \<open>close\<close> the connection that is found stays where it is.\<close>

definition timerRemoveConnection :: "int \<Rightarrow> bool \<Rightarrow> unit call" where
  "timerRemoveConnection fd close =
     locking (\<lambda>s. case find_front fd (tl_start s) s of
         None \<Rightarrow> None
       | Some (Inl e) \<Rightarrow> Some (Inl e, s)
       | Some (Inr None) \<Rightarrow> Some (Inr (), unlocked s)
       | Some (Inr (Some p)) \<Rightarrow>
           Some (apsnd unlocked (if close then closeConnection p s else (Inr (), s))))"

section \<open>Segments of the list\<close>

definition head_or :: "nat list \<Rightarrow> nat option \<Rightarrow> nat option" where
  "head_or ps q = (case ps of [] \<Rightarrow> q | p # _ \<Rightarrow> Some p)"

definition last_or :: "nat list \<Rightarrow> nat option \<Rightarrow> nat option" where
  "last_or ps q = (if ps = [] then q else Some (last ps))"

lemma head_or_simps [simp]: "head_or [] q = q" "head_or (p # ps) q = Some p"
  by (simp_all add: head_or_def)

lemma last_or_simps [simp]: "last_or [] q = q" "last_or (ps @ [p]) q = Some p" "last_or (p # ps) q = last_or ps (Some p)"
  by (simp_all add: last_or_def)

lemma head_or_append [simp]: "head_or (xs @ ys) q = head_or xs (head_or ys q)"
  by (cases xs) simp_all

lemma last_or_append [simp]: "last_or (xs @ ys) q = last_or ys (last_or xs q)"
  by (simp add: last_or_def)

text \<open>The nodes \<open>ps\<close> hold \<open>cs\<close> and are linked both ways, between the neighbours \<open>prev\<close> and \<open>next\<close>.\<close>

type_synonym conn = "int \<times> int \<times> nat"

definition payload :: "connection \<Rightarrow> conn" where
  "payload c = (cn_fd c, cn_start c, cn_timeout c)"

fun segment :: "(nat \<Rightarrow> connection option) \<Rightarrow> nat option \<Rightarrow> nat list \<Rightarrow> conn list \<Rightarrow> nat option \<Rightarrow> bool" where
  "segment m prev [] [] next = True"
| "segment m prev (p # ps) (x # xs) next =
     (\<exists>c. m p = Some c \<and> payload c = x \<and> cn_prev c = prev \<and> cn_next c = head_or ps next \<and>
        segment m (Some p) ps xs next)"
| "segment m prev _ _ next = False"

lemma segment_lengths: "segment m pr ps xs nx \<Longrightarrow> length ps = length xs"
  by (induction m pr ps xs nx rule: segment.induct) auto

lemma segment_append:
  "length ps = length xs \<Longrightarrow> segment m pr (ps @ qs) (xs @ ys) nx \<longleftrightarrow>
     segment m pr ps xs (head_or qs nx) \<and> segment m (last_or ps pr) qs ys nx"
  by (induction ps xs arbitrary: pr rule: list_induct2) auto

lemma segment_cong:
  "(\<And>p. p \<in> set ps \<Longrightarrow> m' p = m p) \<Longrightarrow> segment m' pr ps xs nx = segment m pr ps xs nx"
  by (induction m pr ps xs nx rule: segment.induct) auto

lemma segment_nodes: "segment m pr ps xs nx \<Longrightarrow> p \<in> set ps \<Longrightarrow> \<exists>c. m p = Some c"
  by (induction m pr ps xs nx rule: segment.induct) auto

lemma segment_set_prev:
  assumes "segment m pr (p # ps) xs nx" "distinct (p # ps)" "m p = Some c"
  shows "segment (m(p \<mapsto> c\<lparr>cn_prev := q\<rparr>)) q (p # ps) xs nx"
proof (cases xs)
  case Nil
  then show ?thesis using assms(1) by simp
next
  case (Cons x xs')
  have "segment (m(p \<mapsto> c\<lparr>cn_prev := q\<rparr>)) (Some p) ps xs' nx = segment m (Some p) ps xs' nx"
    by (rule segment_cong) (use assms(2) in auto)
  then show ?thesis using assms Cons by (auto simp: payload_def)
qed

lemma segment_set_next:
  assumes "segment m pr ps xs nx" "distinct ps" "ps \<noteq> []" "m (last ps) = Some c"
  shows "segment (m(last ps \<mapsto> c\<lparr>cn_next := q\<rparr>)) pr ps xs q"
  using assms
proof (induction ps arbitrary: pr xs)
  case Nil
  then show ?case by simp
next
  case (Cons p ps)
  then obtain x xs' where xs: "xs = x # xs'" by (cases xs) auto
  show ?case
  proof (cases "ps = []")
    case True
    then show ?thesis using Cons.prems xs by (cases xs') (auto simp: payload_def)
  next
    case False
    then have "p \<noteq> last ps" "head_or ps nx = head_or ps q" using Cons.prems(2) by (auto simp: head_or_def split: list.splits)
    then show ?thesis using Cons.IH [of "Some p" xs'] Cons.prems False xs by auto
  qed
qed

lemma segment_set_timeout:
  assumes "segment m pr (ps @ p # qs) (xs @ x # ys) nx" "distinct (ps @ p # qs)" "length ps = length xs" "m p = Some c"
  shows "segment (m(p \<mapsto> c\<lparr>cn_timeout := t\<rparr>)) pr (ps @ p # qs) (xs @ (fst x, fst (snd x), t) # ys) nx"
proof -
  let ?m = "m(p \<mapsto> c\<lparr>cn_timeout := t\<rparr>)"
  have "segment ?m pr ps xs n = segment m pr ps xs n" "segment ?m (Some p) qs ys nx = segment m (Some p) qs ys nx" for n
    by (rule segment_cong; use assms(2) in auto)+
  then show ?thesis using assms by (auto simp: segment_append payload_def)
qed

section \<open>The list a store stands for\<close>

definition timer_rep :: "timer_list \<Rightarrow> nat list \<Rightarrow> conn list \<Rightarrow> bool" where
  "timer_rep s ps xs \<longleftrightarrow> segment (tl_nodes s) None ps xs None \<and> distinct ps \<and> dom (tl_nodes s) = set ps \<and>
     tl_start s = head_or ps None \<and> tl_end s = last_or ps None \<and> (\<forall>p\<in>set ps. p < tl_fresh s)"

lemma timer_rep_locked [simp]:
  "timer_rep (s\<lparr>tl_locked := b\<rparr>) ps xs = timer_rep s ps xs"
  "timer_rep (s\<lparr>tl_closed := c\<rparr>) ps xs = timer_rep s ps xs"
  "timer_rep (unlocked s) ps xs = timer_rep s ps xs"
  by (simp_all add: timer_rep_def unlocked_def)

lemma timer_rep_init: "timer_rep timer_init [] []"
  by (simp add: timer_rep_def timer_init_def)

text \<open>A node in the middle.\<close>

lemma timer_rep_node:
  assumes "timer_rep s (ps @ p # qs) (xs @ x # ys)" "length ps = length xs"
  shows "\<exists>c. node_at p s = Inr c \<and> payload c = x \<and> cn_prev c = last_or ps None \<and> cn_next c = head_or qs None"
  using assms by (auto simp: timer_rep_def segment_append node_at_def)

text \<open>Taking a node out.\<close>

lemma unlink_before:
  assumes "segment m pr ps xs (Some p)" "distinct ps" "p \<notin> set ps" "cn_prev c = last_or ps pr"
    and "tl_nodes s = m" "pr = None"
  shows "\<exists>s'. (case cn_prev c of None \<Rightarrow> (\<lambda>s. (Inr (), s\<lparr>tl_start := q\<rparr>)) | Some r \<Rightarrow> set_node r (\<lambda>n. n\<lparr>cn_next := q\<rparr>)) s =
      (Inr (), s') \<and> segment (tl_nodes s') pr ps xs q \<and> (\<forall>r. r \<notin> set ps \<longrightarrow> tl_nodes s' r = m r) \<and>
    dom (tl_nodes s') = dom m \<and> tl_start s' = (if ps = [] then q else tl_start s) \<and> tl_end s' = tl_end s \<and>
    tl_fresh s' = tl_fresh s \<and> tl_locked s' = tl_locked s \<and> tl_closed s' = tl_closed s"
proof (cases "ps = []")
  case True
  then show ?thesis using assms by (cases xs) auto
next
  case False
  then have l: "last ps \<in> set ps" by simp
  from segment_nodes [OF assms(1) l] obtain n where n: "m (last ps) = Some n" by blast
  have "segment (m(last ps \<mapsto> n\<lparr>cn_next := q\<rparr>)) pr ps xs q"
    by (rule segment_set_next [OF assms(1,2) False n])
  moreover have "cn_prev c = Some (last ps)" using False assms(4) by (simp add: last_or_def)
  ultimately show ?thesis using n assms(5) False l by (auto simp: set_node_def node_at_def)
qed

lemma unlink_after:
  assumes "segment m pr qs ys None" "distinct qs" "cn_next c = head_or qs None" "tl_nodes s = m"
  shows "\<exists>s'. (case cn_next c of None \<Rightarrow> (\<lambda>s. (Inr (), s\<lparr>tl_end := q\<rparr>)) | Some r \<Rightarrow> set_node r (\<lambda>n. n\<lparr>cn_prev := q\<rparr>)) s =
      (Inr (), s') \<and> segment (tl_nodes s') q qs ys None \<and> (\<forall>r. r \<notin> set qs \<longrightarrow> tl_nodes s' r = m r) \<and>
    dom (tl_nodes s') = dom m \<and> tl_end s' = (if qs = [] then q else tl_end s) \<and> tl_start s' = tl_start s \<and>
    tl_fresh s' = tl_fresh s \<and> tl_locked s' = tl_locked s \<and> tl_closed s' = tl_closed s"
proof (cases qs)
  case Nil
  then show ?thesis using assms by (cases ys) auto
next
  case (Cons r rs)
  then obtain n where n: "m r = Some n" using segment_nodes [OF assms(1), of r] by auto
  have "segment (m(r \<mapsto> n\<lparr>cn_prev := q\<rparr>)) q qs ys None"
    using segment_set_prev [of m pr r rs ys None n q] assms(1,2) Cons n by simp
  then show ?thesis using n assms(3,4) Cons by (auto simp: set_node_def node_at_def)
qed

lemma remove_rep:
  assumes "timer_rep s (ps @ p # qs) (xs @ x # ys)" "length ps = length xs"
  shows "\<exists>s'. removeConnection p s = (Inr (), s') \<and> timer_rep s' (ps @ qs) (xs @ ys) \<and>
    tl_fresh s' = tl_fresh s \<and> tl_locked s' = tl_locked s \<and> tl_closed s' = tl_closed s"
proof -
  let ?m = "tl_nodes s"
  from timer_rep_node [OF assms] obtain c
    where c: "node_at p s = Inr c" "cn_prev c = last_or ps None" "cn_next c = head_or qs None" by blast
  have r: "segment ?m None ps xs (Some p)" "segment ?m (Some p) qs ys None" "distinct (ps @ p # qs)"
    "dom ?m = set (ps @ p # qs)" "tl_start s = head_or (ps @ p # qs) None" "tl_end s = last_or (ps @ p # qs) None"
    "\<forall>p\<in>set (ps @ p # qs). p < tl_fresh s"
    using assms by (auto simp: timer_rep_def segment_append)
  have d: "distinct ps" "p \<notin> set ps" "distinct qs" "p \<notin> set qs" "set ps \<inter> set qs = {}" using r(3) by auto
  from unlink_before [OF r(1) d(1,2) c(2) refl refl, where q = "cn_next c"] obtain s1
    where s1: "(case cn_prev c of None \<Rightarrow> (\<lambda>s. (Inr (), s\<lparr>tl_start := cn_next c\<rparr>))
          | Some r \<Rightarrow> set_node r (\<lambda>n. n\<lparr>cn_next := cn_next c\<rparr>)) s = (Inr (), s1)"
      and seg1: "segment (tl_nodes s1) None ps xs (cn_next c)" and out1: "\<forall>r. r \<notin> set ps \<longrightarrow> tl_nodes s1 r = ?m r"
      and rest1: "dom (tl_nodes s1) = dom ?m" "tl_start s1 = (if ps = [] then cn_next c else tl_start s)" "tl_end s1 = tl_end s"
        "tl_fresh s1 = tl_fresh s" "tl_locked s1 = tl_locked s" "tl_closed s1 = tl_closed s" by blast
  have "segment (tl_nodes s1) (Some p) qs ys None = segment ?m (Some p) qs ys None"
    by (rule segment_cong) (use out1 d(5) in auto)
  then have "segment (tl_nodes s1) (Some p) qs ys None" using r(2) by simp
  from unlink_after [OF this d(3) c(3) refl, where q = "cn_prev c"] obtain s2
    where s2: "(case cn_next c of None \<Rightarrow> (\<lambda>s. (Inr (), s\<lparr>tl_end := cn_prev c\<rparr>))
          | Some r \<Rightarrow> set_node r (\<lambda>n. n\<lparr>cn_prev := cn_prev c\<rparr>)) s1 = (Inr (), s2)"
      and seg2: "segment (tl_nodes s2) (cn_prev c) qs ys None" and out2: "\<forall>r. r \<notin> set qs \<longrightarrow> tl_nodes s2 r = tl_nodes s1 r"
      and rest2: "dom (tl_nodes s2) = dom (tl_nodes s1)" "tl_end s2 = (if qs = [] then cn_prev c else tl_end s1)"
        "tl_start s2 = tl_start s1" "tl_fresh s2 = tl_fresh s1" "tl_locked s2 = tl_locked s1" "tl_closed s2 = tl_closed s1"
    by blast
  let ?s = "s2\<lparr>tl_nodes := (tl_nodes s2)(p := None)\<rparr>"
  have run: "removeConnection p s = (Inr (), ?s)"
    using c(1) s1 s2 by (simp add: removeConnection_def bindS_def)
  have "segment (tl_nodes ?s) None ps xs (cn_next c) = segment (tl_nodes s1) None ps xs (cn_next c)"
    by (rule segment_cong) (use out2 d in auto)
  moreover have "segment (tl_nodes ?s) (cn_prev c) qs ys None = segment (tl_nodes s2) (cn_prev c) qs ys None"
    by (rule segment_cong) (use d in auto)
  ultimately have "segment (tl_nodes ?s) None (ps @ qs) (xs @ ys) None"
    using seg1 seg2 c(2,3) by (simp add: segment_append [OF assms(2)])
  moreover have "head_or ps (head_or qs None) = (if ps = [] then head_or qs None else head_or ps (Some p))"
    by (cases ps) simp_all
  moreover have "last_or qs (last_or ps None) = (if qs = [] then last_or ps None else last_or qs (Some p))"
    by (cases qs) simp_all
  ultimately have "timer_rep ?s (ps @ qs) (xs @ ys)"
    using r d rest1 rest2 c(2,3) by (auto simp: timer_rep_def)
  then show ?thesis using run rest1 rest2 by auto
qed

lemma close_rep:
  assumes "timer_rep s (ps @ p # qs) (xs @ x # ys)" "length ps = length xs"
  shows "\<exists>s'. closeConnection p s = (Inr (), s') \<and> timer_rep s' (ps @ qs) (xs @ ys) \<and>
    tl_locked s' = tl_locked s \<and> tl_closed s' = tl_closed s @ [fst x]"
proof -
  from timer_rep_node [OF assms] obtain c where c: "node_at p s = Inr c" "payload c = x" by blast
  let ?s = "s\<lparr>tl_closed := tl_closed s @ [cn_fd c]\<rparr>"
  have "timer_rep ?s (ps @ p # qs) (xs @ x # ys)" using assms(1) by simp
  from remove_rep [OF this assms(2)] c show ?thesis by (auto simp: closeConnection_def payload_def)
qed

section \<open>Lists of connections\<close>

text \<open>What the calls do to the list of connections, oldest first.\<close>

definition over :: "int \<Rightarrow> conn \<Rightarrow> bool" where
  "over now x \<longleftrightarrow> fst (snd x) + int (snd (snd x)) \<le> now"

fun sweep_list :: "(nat \<Rightarrow> int) \<Rightarrow> nat \<Rightarrow> conn list \<Rightarrow> conn list \<times> int list" where
  "sweep_list now i [] = ([], [])"
| "sweep_list now i (x # xs) =
     (case sweep_list now (Suc i) xs of (kept, closed) \<Rightarrow>
        if over (now i) x then (kept, fst x # closed) else (x # kept, closed))"

fun drop_fd :: "int \<Rightarrow> conn list \<Rightarrow> conn list" where
  "drop_fd fd [] = []"
| "drop_fd fd (x # xs) = (if fst x = fd then xs else x # drop_fd fd xs)"

fun set_fd :: "int \<Rightarrow> nat \<Rightarrow> conn list \<Rightarrow> conn list" where
  "set_fd fd t [] = []"
| "set_fd fd t (x # xs) = (if fst x = fd then (fst x, fst (snd x), t) # xs else x # set_fd fd t xs)"

definition has_fd :: "int \<Rightarrow> conn list \<Rightarrow> bool" where
  "has_fd fd xs \<longleftrightarrow> fd \<in> fst ` set xs"

lemma drop_fd_split: "\<not> has_fd fd xs \<Longrightarrow> drop_fd (fst x) (xs @ x # ys) = xs @ ys" if "fd = fst x"
  using that by (induction xs) (auto simp: has_fd_def)

lemma set_fd_split: "\<not> has_fd fd xs \<Longrightarrow> set_fd fd t (xs @ x # ys) = xs @ (fst x, fst (snd x), t) # ys" if "fd = fst x"
  using that by (induction xs) (auto simp: has_fd_def)

lemma set_fd_none: "\<not> has_fd fd xs \<Longrightarrow> set_fd fd t xs = xs"
  by (induction xs) (auto simp: has_fd_def)

lemma drop_fd_none: "\<not> has_fd fd xs \<Longrightarrow> drop_fd fd xs = xs"
  by (induction xs) (auto simp: has_fd_def)

lemma has_fd_rev [simp]: "has_fd fd (rev xs) = has_fd fd xs"
  by (simp add: has_fd_def)

section \<open>The loops follow the list\<close>

lemma sweep_rep:
  assumes "timer_rep s (ps @ qs) (xs @ ys)" "length ps = length xs"
  shows "\<exists>s' rs. timer_sweep now i (head_or qs None) s = Some (Inr (), s') \<and>
    timer_rep s' (ps @ rs) (xs @ fst (sweep_list now i ys)) \<and> tl_locked s' = tl_locked s \<and>
    tl_closed s' = tl_closed s @ snd (sweep_list now i ys)"
  using assms
proof (induction qs arbitrary: ps xs ys i s)
  case Nil
  then have "ys = []" by (cases ys) (auto simp: timer_rep_def dest!: segment_lengths)
  then show ?case using Nil by (subst timer_sweep.simps) (auto intro: exI [of _ "[]"])
next
  case (Cons q qs)
  then obtain y ys' where ys: "ys = y # ys'" by (cases ys) (auto simp: timer_rep_def dest!: segment_lengths)
  from timer_rep_node [of s ps q qs xs y ys'] Cons.prems ys obtain c
    where c: "node_at q s = Inr c" "payload c = y" "cn_next c = head_or qs None" by auto
  have ex: "expired c (now i) = over (now i) y" using c(2) by (auto simp: expired_def over_def payload_def)
  show ?case
  proof (cases "over (now i) y")
    case True
    from close_rep [of s ps q qs xs y ys'] Cons.prems ys obtain s1
      where s1: "closeConnection q s = (Inr (), s1)" "timer_rep s1 (ps @ qs) (xs @ ys')" "tl_locked s1 = tl_locked s"
        "tl_closed s1 = tl_closed s @ [fst y]" by auto
    from Cons.IH [OF s1(2) Cons.prems(2), of "Suc i"] show ?thesis
      using c s1 True ex ys by (subst timer_sweep.simps) (auto split: prod.splits)
  next
    case False
    have "timer_rep s ((ps @ [q]) @ qs) ((xs @ [y]) @ ys')" "length (ps @ [q]) = length (xs @ [y])"
      using Cons.prems ys by simp_all
    from Cons.IH [OF this, of "Suc i"] obtain s1 rs
      where s1: "timer_sweep now (Suc i) (head_or qs None) s = Some (Inr (), s1)"
        "timer_rep s1 ((ps @ [q]) @ rs) ((xs @ [y]) @ fst (sweep_list now (Suc i) ys'))" "tl_locked s1 = tl_locked s"
        "tl_closed s1 = tl_closed s @ snd (sweep_list now (Suc i) ys')" by blast
    have "timer_sweep now i (head_or (q # qs) None) s = Some (Inr (), s1)"
      using c s1(1) False ex by (subst timer_sweep.simps) simp
    then show ?thesis using s1 False ys by (intro exI [of _ s1] exI [of _ "q # rs"]) (auto split: prod.splits)
  qed
qed

text \<open>What a search finds: nothing, or a place with no such descriptor before it.\<close>

definition found :: "int \<Rightarrow> nat list \<Rightarrow> conn list \<Rightarrow> nat option \<Rightarrow> bool" where
  "found fd ps xs r \<longleftrightarrow>
     (case r of
        None \<Rightarrow> \<not> has_fd fd xs
      | Some p \<Rightarrow> \<exists>qs rs ys x zs. ps = qs @ p # rs \<and> xs = ys @ x # zs \<and> length qs = length ys \<and> fst x = fd \<and> \<not> has_fd fd ys)"

lemma foundI:
  "length qs = length ys \<Longrightarrow> fst x = fd \<Longrightarrow> \<not> has_fd fd ys \<Longrightarrow> found fd (qs @ p # rs) (ys @ x # zs) (Some p)"
  unfolding found_def by (simp del: split_paired_Ex) blast

lemma find_front_rep:
  assumes "timer_rep s (ps @ qs) (xs @ ys)" "length ps = length xs" "\<not> has_fd fd xs"
  shows "\<exists>r. find_front fd (head_or qs None) s = Some (Inr r) \<and> found fd (ps @ qs) (xs @ ys) r"
  using assms
proof (induction qs arbitrary: ps xs ys)
  case Nil
  then have "ys = []" by (cases ys) (auto simp: timer_rep_def dest!: segment_lengths)
  then show ?case using Nil by (subst find_front.simps) (auto simp: found_def)
next
  case (Cons q qs)
  then obtain y ys' where ys: "ys = y # ys'" by (cases ys) (auto simp: timer_rep_def dest!: segment_lengths)
  from timer_rep_node [of s ps q qs xs y ys'] Cons.prems ys obtain c
    where c: "node_at q s = Inr c" "payload c = y" "cn_next c = head_or qs None" by auto
  show ?case
  proof (cases "fst y = fd")
    case True
    then have "find_front fd (head_or (q # qs) None) s = Some (Inr (Some q))"
      using c by (subst find_front.simps) (auto simp: payload_def)
    moreover have "found fd (ps @ q # qs) (xs @ y # ys') (Some q)"
      using True Cons.prems by (intro foundI) auto
    ultimately show ?thesis using ys by auto
  next
    case False
    then have step: "find_front fd (head_or (q # qs) None) s = find_front fd (head_or qs None) s"
      using c by (subst find_front.simps) (auto simp: payload_def)
    have "timer_rep s ((ps @ [q]) @ qs) ((xs @ [y]) @ ys')" "length (ps @ [q]) = length (xs @ [y])" "\<not> has_fd fd (xs @ [y])"
      using Cons.prems ys False by (auto simp: has_fd_def)
    from Cons.IH [OF this] step ys show ?thesis by simp
  qed
qed

lemma find_back_rep:
  assumes "timer_rep s (ps @ qs) (xs @ ys)" "length ps = length xs" "\<not> has_fd fd ys"
  shows "\<exists>r. find_back fd (last_or ps None) s = Some (Inr r) \<and> found fd (rev (ps @ qs)) (rev (xs @ ys)) r"
  using assms
proof (induction ps arbitrary: qs xs ys rule: rev_induct)
  case Nil
  then show ?case by (subst find_back.simps) (auto simp: found_def)
next
  case (snoc p ps)
  then obtain x xs' where xs: "xs = xs' @ [x]" by (cases xs rule: rev_cases) auto
  from timer_rep_node [of s ps p qs xs' x ys] snoc.prems xs obtain c
    where c: "node_at p s = Inr c" "payload c = x" "cn_prev c = last_or ps None" by auto
  have l: "length qs = length ys" using snoc.prems by (auto simp: timer_rep_def dest!: segment_lengths)
  show ?case
  proof (cases "fst x = fd")
    case True
    then have "find_back fd (last_or (ps @ [p]) None) s = Some (Inr (Some p))"
      using c by (subst find_back.simps) (auto simp: payload_def)
    moreover have "found fd (rev ((ps @ [p]) @ qs)) (rev (xs @ ys)) (Some p)"
      using foundI [of "rev qs" "rev ys" x fd p "rev ps" "rev xs'"] True snoc.prems xs l by simp
    ultimately show ?thesis by blast
  next
    case False
    then have step: "find_back fd (last_or (ps @ [p]) None) s = find_back fd (last_or ps None) s"
      using c by (subst find_back.simps) (auto simp: payload_def)
    have "timer_rep s (ps @ (p # qs)) (xs' @ (x # ys))" "length ps = length xs'" "\<not> has_fd fd (x # ys)"
      using snoc.prems xs False by (auto simp: has_fd_def)
    from snoc.IH [OF this] step xs show ?thesis by simp
  qed
qed

section \<open>Each call on the list\<close>

text \<open>\<open>does f s xs r held cl\<close>: the call returns \<open>r\<close> and leaves the list \<open>xs\<close>, the mutex and the descriptors closed.\<close>

definition does :: "('a res \<times> timer_list) option \<Rightarrow> 'a \<Rightarrow> conn list \<Rightarrow> bool \<Rightarrow> int list \<Rightarrow> bool" where
  "does o' v xs held cl \<longleftrightarrow> (\<exists>s ps. o' = Some (Inr v, s) \<and> timer_rep s ps xs \<and> tl_locked s = held \<and> tl_closed s = cl)"

lemma doesI:
  "o' = Some (Inr v, s) \<Longrightarrow> timer_rep s ps xs \<Longrightarrow> tl_locked s = held \<Longrightarrow> tl_closed s = cl \<Longrightarrow> does o' v xs held cl"
  by (auto simp: does_def)

lemma timer_rep_ends: "timer_rep s ps xs \<Longrightarrow> tl_start s = head_or ps None \<and> tl_end s = last_or ps None"
  by (simp add: timer_rep_def)

lemma process_does:
  assumes "timer_rep s ps xs" "\<not> tl_locked s"
  shows "does (timerProcess now s) () (fst (sweep_list now 0 xs)) False (tl_closed s @ snd (sweep_list now 0 xs))"
proof -
  have "timer_rep (s\<lparr>tl_locked := True\<rparr>) ([] @ ps) ([] @ xs)" using assms(1) by simp
  from sweep_rep [OF this, of now 0] timer_rep_ends [OF assms(1)] assms(2) show ?thesis
    by (auto simp: does_def timerProcess_def locking_def unlocked_def intro: exI [of _ "unlocked _"])
qed

lemma remove_does:
  assumes "timer_rep s ps xs" "\<not> tl_locked s"
  shows "does (timerRemoveConnection fd close s) () (if close then drop_fd fd xs else xs) False
    (tl_closed s @ (if close \<and> has_fd fd xs then [fd] else []))"
proof -
  let ?s = "s\<lparr>tl_locked := True\<rparr>"
  have r: "timer_rep ?s ps xs" using assms(1) by simp
  from find_front_rep [of ?s "[]" ps "[]" xs fd] r obtain q
    where q: "find_front fd (head_or ps None) ?s = Some (Inr q)" "found fd ps xs q" by (auto simp: has_fd_def)
  have st: "tl_start ?s = head_or ps None" using timer_rep_ends [OF assms(1)] by simp
  show ?thesis
  proof (cases q)
    case None
    then have "\<not> has_fd fd xs" using q(2) by (simp add: found_def)
    then show ?thesis using q(1) None st assms r drop_fd_none [of fd xs]
      by (auto simp: does_def timerRemoveConnection_def locking_def unlocked_def)
  next
    case (Some p)
    then obtain qs rs ys x zs where f: "ps = qs @ p # rs" "xs = ys @ x # zs" "length qs = length ys" "fst x = fd" "\<not> has_fd fd ys"
      using q(2) by (auto simp: found_def)
    have h: "has_fd fd xs" using f by (simp add: has_fd_def)
    have rep: "timer_rep ?s (qs @ p # rs) (ys @ x # zs)" using r f by simp
    from close_rep [OF rep f(3)] obtain s1 where s1: "closeConnection p ?s = (Inr (), s1)" "timer_rep s1 (qs @ rs) (ys @ zs)"
      "tl_closed s1 = tl_closed s @ [fd]" using f(4) by auto
    have "drop_fd fd xs = ys @ zs" using drop_fd_split [of fd x ys zs] f by simp
    then show ?thesis using q(1) Some st assms(2) r s1 h f(1,2)
      by (auto simp: does_def timerRemoveConnection_def locking_def unlocked_def)
  qed
qed

text \<open>A search from the end, with what it finds written out for the list in order.\<close>

lemma search_back:
  assumes "timer_rep s ps xs"
  shows "(find_back fd (tl_end s) s = Some (Inr None) \<and> \<not> has_fd fd xs) \<or>
    (\<exists>qs p rs ys x zs. find_back fd (tl_end s) s = Some (Inr (Some p)) \<and> ps = qs @ p # rs \<and> xs = ys @ x # zs \<and>
       length qs = length ys \<and> fst x = fd \<and> \<not> has_fd fd zs)"
proof -
  have l: "length ps = length xs" using assms by (auto simp: timer_rep_def dest!: segment_lengths)
  from find_back_rep [of s ps "[]" xs "[]" fd] assms l timer_rep_ends [OF assms] obtain r
    where r: "find_back fd (tl_end s) s = Some (Inr r)" "found fd (rev ps) (rev xs) r" by (auto simp: has_fd_def)
  show ?thesis
  proof (cases r)
    case None
    then show ?thesis using r by (simp add: found_def)
  next
    case (Some p)
    then obtain qs rs ys x zs where f: "rev ps = qs @ p # rs" "rev xs = ys @ x # zs" "length qs = length ys" "fst x = fd"
        "\<not> has_fd fd ys" using r(2) by (auto simp: found_def)
    have "ps = rev rs @ p # rev qs" "xs = rev zs @ x # rev ys"
      using arg_cong [OF f(1), of rev] arg_cong [OF f(2), of rev] by simp_all
    moreover have "length (rev rs) = length (rev zs)" using l arg_cong [OF f(1), of length] arg_cong [OF f(2), of length] f(3) by simp
    moreover have "\<not> has_fd fd (rev ys)" using f(5) by simp
    ultimately show ?thesis using r(1) Some f(4) by blast
  qed
qed

definition set_last :: "int \<Rightarrow> nat \<Rightarrow> conn list \<Rightarrow> conn list" where
  "set_last fd t xs = rev (set_fd fd t (rev xs))"

lemma set_last_none: "\<not> has_fd fd xs \<Longrightarrow> set_last fd t xs = xs"
  by (simp add: set_last_def set_fd_none)

lemma set_last_split:
  assumes "fst x = fd" "\<not> has_fd fd zs"
  shows "set_last fd t (ys @ x # zs) = ys @ (fst x, fst (snd x), t) # zs"
  using set_fd_split [of fd x "rev zs" t "rev ys"] assms by (simp add: set_last_def)

lemma set_does:
  assumes "timer_rep s ps xs" "\<not> tl_locked s"
  shows "does (timerSetTimeout fd t s) () (set_last fd (t mod 2 ^ 32) xs) False (tl_closed s)"
proof -
  let ?s = "s\<lparr>tl_locked := True\<rparr>"
  have r: "timer_rep ?s ps xs" using assms(1) by simp
  from search_back [OF r, of fd] show ?thesis
  proof (elim disjE exE conjE)
    assume "find_back fd (tl_end ?s) ?s = Some (Inr None)" "\<not> has_fd fd xs"
    then show ?thesis using assms r set_last_none [of fd xs]
      by (auto simp: does_def timerSetTimeout_def timerSetTimeout_from_def locking_def unlocked_def)
  next
    fix qs p rs ys x zs
    assume f: "find_back fd (tl_end ?s) ?s = Some (Inr (Some p))" "ps = qs @ p # rs" "xs = ys @ x # zs"
      "length qs = length ys" "fst x = fd" "\<not> has_fd fd zs"
    from timer_rep_node [of ?s qs p rs ys x zs] r f obtain c where c: "node_at p ?s = Inr c" by auto
    let ?t = "t mod 2 ^ 32"
    have n: "tl_nodes s p = Some c" using c by (auto simp: node_at_def split: option.splits)
    have seg: "segment (tl_nodes s) None (qs @ p # rs) (ys @ x # zs) None" "distinct (qs @ p # rs)"
      using assms(1) f(2,3) by (auto simp: timer_rep_def)
    let ?s1 = "?s\<lparr>tl_nodes := (tl_nodes s)(p \<mapsto> c\<lparr>cn_timeout := ?t\<rparr>)\<rparr>"
    have rep: "timer_rep ?s1 ps (set_last fd ?t xs)"
      using segment_set_timeout [OF seg f(4) n, of ?t] assms(1) f(2,3) set_last_split [OF f(5,6), of ?t ys]
      by (auto simp: timer_rep_def)
    have "set_node p (\<lambda>c. c\<lparr>cn_timeout := ?t\<rparr>) ?s = (Inr (), ?s1)" using c by (simp add: set_node_def)
    then have "timerSetTimeout fd t s = Some (Inr (), unlocked ?s1)"
      using f(1) assms(2) by (simp add: timerSetTimeout_def timerSetTimeout_from_def locking_def)
    moreover have "timer_rep (unlocked ?s1) ps (set_last fd ?t xs)" using rep by (simp only: timer_rep_locked)
    ultimately show ?thesis by (rule doesI) (simp_all add: unlocked_def)
  qed
qed

definition get_last :: "int \<Rightarrow> conn list \<Rightarrow> nat" where
  "get_last fd xs = (case find (\<lambda>x. fst x = fd) (rev xs) of None \<Rightarrow> 0 | Some x \<Rightarrow> snd (snd x))"

lemma find_absent: "\<not> has_fd fd xs \<Longrightarrow> find (\<lambda>x. fst x = fd) (xs @ ys) = find (\<lambda>x. fst x = fd) ys"
  by (induction xs) (auto simp: has_fd_def)

lemma get_does:
  assumes "timer_rep s ps xs" "\<not> tl_locked s"
  shows "does (timerGetTimeout fd s) (get_last fd xs) xs (has_fd fd xs) (tl_closed s)"
proof -
  let ?s = "s\<lparr>tl_locked := True\<rparr>"
  have r: "timer_rep ?s ps xs" using assms(1) by simp
  from search_back [OF r, of fd] show ?thesis
  proof (elim disjE exE conjE)
    assume f: "find_back fd (tl_end ?s) ?s = Some (Inr None)" "\<not> has_fd fd xs"
    then show ?thesis using assms r find_absent [of fd "rev xs" "[]"]
      by (auto simp: does_def timerGetTimeout_def timerGetTimeout_from_def locking_def unlocked_def get_last_def)
  next
    fix qs p rs ys x zs
    assume f: "find_back fd (tl_end ?s) ?s = Some (Inr (Some p))" "ps = qs @ p # rs" "xs = ys @ x # zs"
      "length qs = length ys" "fst x = fd" "\<not> has_fd fd zs"
    from timer_rep_node [of ?s qs p rs ys x zs] r f obtain c where c: "node_at p ?s = Inr c" "payload c = x" by auto
    have "get_last fd xs = cn_timeout c"
      using f find_absent [of fd "rev zs" "x # rev ys"] c(2) by (auto simp: get_last_def payload_def)
    moreover have "has_fd fd xs" using f by (simp add: has_fd_def)
    ultimately show ?thesis using f(1) assms(2) r c(1)
      by (auto simp: does_def timerGetTimeout_def timerGetTimeout_from_def locking_def)
  qed
qed

lemma add_does:
  assumes "timer_rep s ps xs" "\<not> (tl_locked s \<and> xs \<noteq> [])"
  shows "does (timerAddConnection True fd now t s) () (xs @ [(fd, now, t mod 2 ^ 32)]) (tl_locked s) (tl_closed s)"
proof -
  let ?p = "tl_fresh s"
  let ?n = "\<lparr>cn_fd = fd, cn_start = now, cn_timeout = t mod 2 ^ 32, cn_next = None, cn_prev = None\<rparr>"
  have r: "segment (tl_nodes s) None ps xs None" "distinct ps" "dom (tl_nodes s) = set ps" "tl_start s = head_or ps None"
    "tl_end s = last_or ps None" "\<forall>p\<in>set ps. p < ?p" using assms(1) by (auto simp: timer_rep_def)
  have l: "length ps = length xs" using segment_lengths [OF r(1)] .
  have fresh: "?p \<notin> set ps" using r(6) by auto
  show ?thesis
  proof (cases "ps = []")
    case True
    then show ?thesis using r l fresh
      by (auto simp: does_def timerAddConnection_def connection_new_def connection_link_def timer_rep_def payload_def
        intro!: exI [of _ "[?p]"])
  next
    case False
    then have nz: "xs \<noteq> []" "\<not> tl_locked s" "tl_start s \<noteq> None" "tl_end s = Some (last ps)" "last ps \<in> set ps"
      "last ps \<noteq> ?p"
    proof -
      show "last ps \<in> set ps" using False by simp
      then show "last ps \<noteq> ?p" using fresh by metis
      show "tl_start s \<noteq> None" using r(4) False by (cases ps) auto
      show "xs \<noteq> []" "\<not> tl_locked s" using l False assms(2) by auto
      show "tl_end s = Some (last ps)" using r(5) False by (simp add: last_or_def)
    qed
    obtain y where start: "tl_start s = Some y" using nz(3) by blast
    obtain c where c: "tl_nodes s (last ps) = Some c" using segment_nodes [OF r(1) nz(5)] by blast
    let ?m = "(tl_nodes s)(?p \<mapsto> ?n\<lparr>cn_prev := Some (last ps)\<rparr>, last ps \<mapsto> c\<lparr>cn_next := Some ?p\<rparr>)"
    have "segment ((tl_nodes s)(last ps \<mapsto> c\<lparr>cn_next := Some ?p\<rparr>)) None ps xs (Some ?p)"
      by (rule segment_set_next [OF r(1,2) False c])
    moreover have "segment ?m None ps xs (Some ?p) = segment ((tl_nodes s)(last ps \<mapsto> c\<lparr>cn_next := Some ?p\<rparr>)) None ps xs (Some ?p)"
      by (rule segment_cong) (use fresh in auto)
    ultimately have "segment ?m None (ps @ [?p]) (xs @ [(fd, now, t mod 2 ^ 32)]) None"
      using nz False by (simp add: segment_append [OF l] payload_def last_or_def)
    then have "timer_rep (s\<lparr>tl_fresh := Suc ?p, tl_nodes := ?m, tl_end := Some ?p\<rparr>) (ps @ [?p]) (xs @ [(fd, now, t mod 2 ^ 32)])"
      using r fresh nz by (auto simp: timer_rep_def head_or_def split: list.splits)
    moreover have "timerAddConnection True fd now t s = Some (Inr (), s\<lparr>tl_fresh := Suc ?p, tl_nodes := ?m, tl_end := Some ?p\<rparr>)"
      using nz(2,4,6) start c by (simp add: timerAddConnection_def connection_new_def connection_link_def locking_def set_node_def
        node_at_def bindS_def unlocked_def fun_upd_twist)
    ultimately show ?thesis using nz(2) by (auto simp: does_def)
  qed
qed

section \<open>Sequences of calls\<close>

datatype timer_call = Add int int nat | Remove int bool | Set_Timeout int nat | Get_Timeout int | Turn "nat \<Rightarrow> int"

definition quiet :: "(unit res \<times> timer_list) option \<Rightarrow> (nat res \<times> timer_list) option" where
  "quiet r = map_option (apfst (map_sum id (\<lambda>_. 0))) r"

fun timer_do :: "timer_call \<Rightarrow> nat call" where
  "timer_do (Add fd now t) s = quiet (timerAddConnection True fd now t s)"
| "timer_do (Remove fd close) s = quiet (timerRemoveConnection fd close s)"
| "timer_do (Set_Timeout fd t) s = quiet (timerSetTimeout fd t s)"
| "timer_do (Get_Timeout fd) s = timerGetTimeout fd s"
| "timer_do (Turn now) s = quiet (timerProcess now s)"

fun timer_run :: "timer_call list \<Rightarrow> (nat list) call" where
  "timer_run [] s = Some (Inr [], s)"
| "timer_run (c # cs) s =
     (case timer_do c s of
        None \<Rightarrow> None
      | Some (Inl e, s') \<Rightarrow> Some (Inl e, s')
      | Some (Inr v, s') \<Rightarrow> map_option (apfst (map_sum id ((#) v))) (timer_run cs s'))"

text \<open>
  The specification: the connections in the order they came, the descriptors closed, and whether the
  mutex was left behind; then only an addition to an empty list returns.
\<close>

fun timer_spec :: "timer_call \<Rightarrow> conn list \<times> bool \<times> int list \<Rightarrow> (nat \<times> conn list \<times> bool \<times> int list) option" where
  "timer_spec (Add fd now t) (xs, held, cl) =
     (if held \<and> xs \<noteq> [] then None else Some (0, xs @ [(fd, now, t mod 2 ^ 32)], held, cl))"
| "timer_spec (Remove fd close) (xs, held, cl) =
     (if held then None
      else Some (0, if close then drop_fd fd xs else xs, False, cl @ (if close \<and> has_fd fd xs then [fd] else [])))"
| "timer_spec (Set_Timeout fd t) (xs, held, cl) = (if held then None else Some (0, set_last fd (t mod 2 ^ 32) xs, False, cl))"
| "timer_spec (Get_Timeout fd) (xs, held, cl) = (if held then None else Some (get_last fd xs, xs, has_fd fd xs, cl))"
| "timer_spec (Turn now) (xs, held, cl) =
     (if held then None else Some (0, fst (sweep_list now 0 xs), False, cl @ snd (sweep_list now 0 xs)))"

fun timer_specs :: "timer_call list \<Rightarrow> conn list \<times> bool \<times> int list \<Rightarrow> (nat list \<times> conn list \<times> bool \<times> int list) option" where
  "timer_specs [] l = Some ([], l)"
| "timer_specs (c # cs) l =
     (case timer_spec c l of
        None \<Rightarrow> None
      | Some (v, l') \<Rightarrow> map_option (apfst ((#) v)) (timer_specs cs l'))"

lemma does_map: "does o' v xs held cl \<Longrightarrow> does (map_option (apfst (map_sum id f)) o') (f v) xs held cl"
  unfolding does_def by fastforce

lemma quiet_does: "does o' () xs held cl \<Longrightarrow> does (quiet o') 0 xs held cl"
  unfolding quiet_def by (rule does_map [where f = "\<lambda>_. 0"])

lemma locking_held: "tl_locked s \<Longrightarrow> locking f s = None"
  by (simp add: locking_def)

lemma add_blocks:
  assumes "timer_rep s ps xs" "tl_locked s" "xs \<noteq> []"
  shows "timerAddConnection True fd now t s = None"
proof -
  have "ps \<noteq> []" using assms(1,3) by (auto simp: timer_rep_def dest!: segment_lengths)
  then obtain p ps' where "ps = p # ps'" by (cases ps) auto
  then have "tl_start s = Some p" using timer_rep_ends [OF assms(1)] by simp
  then show ?thesis using assms(2)
    by (simp add: timerAddConnection_def connection_new_def connection_link_def locking_held)
qed

lemma timer_do_spec:
  assumes "timer_rep s ps xs"
  shows "case timer_spec c (xs, tl_locked s, tl_closed s) of
      None \<Rightarrow> timer_do c s = None
    | Some (v, xs', held, cl) \<Rightarrow> does (timer_do c s) v xs' held cl"
proof (cases c)
  case (Add fd now t)
  then show ?thesis
    using quiet_does [OF add_does [OF assms, of fd now t]] add_blocks [OF assms, of fd now t]
    by (auto simp: quiet_def)
next
  case (Remove fd close)
  then show ?thesis
    using quiet_does [OF remove_does [OF assms, of fd close]]
    by (auto simp: timerRemoveConnection_def locking_held quiet_def)
next
  case (Set_Timeout fd t)
  then show ?thesis
    using quiet_does [OF set_does [OF assms, of fd t]]
    by (auto simp: timerSetTimeout_def timerSetTimeout_from_def locking_held quiet_def)
next
  case (Get_Timeout fd)
  then show ?thesis
    using get_does [OF assms, of fd]
    by (auto simp: timerGetTimeout_def timerGetTimeout_from_def locking_held quiet_def)
next
  case (Turn now)
  then show ?thesis
    using quiet_does [OF process_does [OF assms, of now]]
    by (auto simp: timerProcess_def locking_held quiet_def)
qed

lemma timer_run_spec:
  assumes "timer_rep s ps xs"
  shows "case timer_specs cs (xs, tl_locked s, tl_closed s) of
      None \<Rightarrow> timer_run cs s = None
    | Some (vs, xs', held, cl) \<Rightarrow> does (timer_run cs s) vs xs' held cl"
  using assms
proof (induction cs arbitrary: s ps xs)
  case Nil
  then show ?case by (auto simp: does_def)
next
  case (Cons c cs)
  note step = timer_do_spec [OF Cons.prems, of c]
  show ?case
  proof (cases "timer_spec c (xs, tl_locked s, tl_closed s)")
    case None
    then show ?thesis using step by simp
  next
    case (Some r)
    obtain v xs' held cl where r: "r = (v, xs', held, cl)" by (cases r) auto
    with Some step obtain s' ps' where s': "timer_do c s = Some (Inr v, s')" "timer_rep s' ps' xs'" "tl_locked s' = held"
      "tl_closed s' = cl" by (auto simp: does_def)
    from Cons.IH [OF s'(2)] show ?thesis
      using Some r s' does_map [where f = "(#) v" and o' = "timer_run cs s'"]
      by (cases "timer_specs cs (xs', held, cl)") auto
  qed
qed

section \<open>Properties\<close>

text \<open>
  C13. The list of connections with time limits does what a list does, for every sequence of calls: what
  is added is kept in order until it is removed or its time is over, the descriptors closed are those
  removed or expired, and every call returns unless a timeout that was found was read before it.
\<close>

theorem timer_refines:
  "case timer_specs cs ([], False, []) of
     None \<Rightarrow> timer_run cs timer_init = None
   | Some (vs, xs, held, cl) \<Rightarrow>
       \<exists>s ps. timer_run cs timer_init = Some (Inr vs, s) \<and> timer_rep s ps xs \<and> tl_locked s = held \<and> tl_closed s = cl"
proof -
  have "tl_locked timer_init = False" "tl_closed timer_init = []" by (simp_all add: timer_init_def)
  then show ?thesis using timer_run_spec [OF timer_rep_init, of cs]
    by (auto simp: does_def split: option.splits)
qed

text \<open>
  A timeout that is found is returned with the mutex locked: no call after it returns, and the turn of
  the timer thread is the last one too.
\<close>

theorem get_keeps_mutex:
  assumes "timer_rep s ps xs" "\<not> tl_locked s" "has_fd fd xs"
  shows "\<exists>s'. timerGetTimeout fd s = Some (Inr (get_last fd xs), s') \<and> (\<forall>c. timer_do c s' = None)"
proof -
  from get_does [OF assms(1,2), of fd] obtain s' ps'
    where s': "timerGetTimeout fd s = Some (Inr (get_last fd xs), s')" "timer_rep s' ps' xs" "tl_locked s'"
    using assms(3) by (auto simp: does_def)
  have "xs \<noteq> []" using assms(3) by (auto simp: has_fd_def)
  have "timer_do c s' = None" for c
    using timer_do_spec [OF s'(2), of c] s'(3) \<open>xs \<noteq> []\<close> by (cases c) auto
  then show ?thesis using s'(1) by blast
qed

text \<open>
  \<open>end\<close> and \<open>start\<close> are read before the mutex is taken. If the timer thread closes the last connection
  in between, a setter goes on at the freed node; of two additions that both saw the empty list the
  second drops the node of the first.
\<close>

theorem timer_races:
  assumes "timer_rep s [p] [(fd, start, t)]" "\<not> tl_locked s" "over (now 0) (fd, start, t)"
  shows "\<exists>s'. timerProcess now s = Some (Inr (), s') \<and>
    (\<exists>s''. timerSetTimeout_from (tl_end s) fd t' s' = Some (Inl Undefined, s''))"
    and "\<exists>s'. connection_link None 1 (snd (connection_new True fd2 now2 t2 (snd (connection_new True fd1 now1 t1 timer_init)))) =
      Some (Inr (), s') \<and> tl_start s' = Some 1 \<and> (\<exists>c. tl_nodes s' 0 = Some c \<and> cn_fd c = fd1)"
proof -
  have sw: "sweep_list now 0 [(fd, start, t)] = ([], [fd])" using assms(3) by simp
  from process_does [OF assms(1,2), of now] sw obtain s' ps
    where s': "timerProcess now s = Some (Inr (), s')" "timer_rep s' ps []" "\<not> tl_locked s'" by (auto simp: does_def)
  have "dom (tl_nodes s') = {}" using s'(2) by (auto simp: timer_rep_def dest!: segment_lengths)
  moreover have "tl_end s = Some p" using timer_rep_ends [OF assms(1)] by simp
  ultimately have "timerSetTimeout_from (tl_end s) fd t' s' = Some (Inl Undefined, s'\<lparr>tl_locked := True\<rparr>)"
    using s'(3) by (simp add: timerSetTimeout_from_def locking_def find_back.simps [of fd "Some p"] node_at_def)
  then show "\<exists>s'. timerProcess now s = Some (Inr (), s') \<and>
    (\<exists>s''. timerSetTimeout_from (tl_end s) fd t' s' = Some (Inl Undefined, s''))" using s'(1) by blast
  show "\<exists>s'. connection_link None 1 (snd (connection_new True fd2 now2 t2 (snd (connection_new True fd1 now1 t1 timer_init)))) =
      Some (Inr (), s') \<and> tl_start s' = Some 1 \<and> (\<exists>c. tl_nodes s' 0 = Some c \<and> cn_fd c = fd1)"
    by (simp add: connection_link_def connection_new_def timer_init_def)
qed

end
