(* ===== verification/Key_Value.thy ===== *)
theory Key_Value
  imports Parser_Run
begin

text \<open>
  The key-value texts of lib/parser/keyvalue: parsing up to an empty line or the end of the stream,
  and writing. A map is a function; the order in which writing walks over it is given by the list
  of its entries. Arrays of bytes are lists here, with \<open>array_back\<close> and \<open>removeBack\<close> as the lemmas of
  theory Array_Buf state them of the buffer.
\<close>

section \<open>Reading up to a character\<close>

text \<open>A parser that takes at least one byte, and what a read up to a character takes.\<close>

definition shortens :: "'a parser \<Rightarrow> bool" where
  "shortens p \<longleftrightarrow> (\<forall>s xs. remaining s xs \<longrightarrow> ok (\<lambda>_ ys. length ys < length xs) (p s))"

lemma shortensD: "shortens p \<Longrightarrow> remaining s xs \<Longrightarrow> ok (\<lambda>_ ys. length ys < length xs) (p s)"
  by (simp add: shortens_def)

lemma remaining_unique: "remaining s xs \<Longrightarrow> remaining s ys \<Longrightarrow> xs = ys"
  by (simp add: remaining_def)

lemma ok_conj: "ok P m \<Longrightarrow> ok Q m \<Longrightarrow> ok (\<lambda>v ys. P v ys \<and> Q v ys) m"
  unfolding ok_def by (force dest: remaining_unique)

lemma until_takes_one:
  assumes "collect_bytes (until_criteria until True) task (Array_Collector []) (x # xs) = (Inr k, t, ys)"
  shows "suffix ys xs"
proof -
  have "nextState x (Loop_Criteria (until_info True 0 until GOOD)) =
      (Inr (if x \<in> set until then GOOD_AT_LAST else GOOD),
       Loop_Criteria (until_info True 1 until (if x \<in> set until then GOOD_AT_LAST else GOOD)))"
    using next_until_go [of 0 x until True] next_until_match [of 0 x until True] by (cases "x \<in> set until") simp_all
  then show ?thesis using assms
    by (auto simp: collect_bytes_def start_run_def until_criteria_def LoopCriteriaInfo_def finish_run_def Let_def
        dest: collect_list_suffix split: prod.splits sum.splits if_splits)
qed

lemma shortens_read: "shortens (readF until task)"
  unfolding shortens_def
proof (intro allI impI)
  fix s xs
  assume r: "remaining s xs"
  obtain res t ys where c: "collect_bytes (until_criteria until True) task (Array_Collector []) xs = (res, t, ys)"
    using prod_cases3 by blast
  obtain s' where s': "readF until task s = Some (map_sum id collected_bytes res, s')" "remaining s' ys"
    using run_remaining [OF r c, of collected_bytes] by (auto simp: readF_def read_until_def)
  show "ok (\<lambda>_ ys. length ys < length xs) (readF until task s)"
  proof (cases res)
    case (Inr k)
    show ?thesis
    proof (cases xs)
      case Nil
      then show ?thesis using c Inr by (simp add: collect_bytes_def finish_run_def)
    next
      case (Cons x zs)
      then have "suffix ys zs" using c Inr until_takes_one by blast
      then have "length ys < length xs" using suffix_length_le [of ys zs] Cons by simp
      then show ?thesis using s' unfolding ok_def by blast
    qed
  qed (use s' in \<open>simp add: ok_def\<close>)
qed

text \<open>A parser that ends if less than \<open>n\<close> bytes remain; for loops, by induction on \<open>n\<close>.\<close>

definition ends_below :: "nat \<Rightarrow> 'a parser \<Rightarrow> bool" where
  "ends_below n p \<longleftrightarrow> (\<forall>s xs. remaining s xs \<longrightarrow> length xs < n \<longrightarrow> ok (\<lambda>_ ys. suffix ys xs) (p s))"

named_theorems ends_intro \<open>parsers that end\<close>

lemma ends_below_zero [simp]: "ends_below 0 p"
  by (simp add: ends_below_def)

lemma ends_advances: "advances p \<Longrightarrow> ends_below n p"
  by (simp add: ends_below_def advances_def)

lemma advances_all: "(\<And>n. ends_below n p) \<Longrightarrow> advances p"
  unfolding advances_def ends_below_def by blast

lemma ends_bind:
  assumes "advances m" "\<And>v. ends_below n (f v)"
  shows "ends_below n (bindF m f)"
  unfolding ends_below_def
proof (intro allI impI)
  fix s xs
  assume r: "remaining s xs" "length xs < n"
  have "ok (\<lambda>_ ys. suffix ys xs) (m s)" by (rule advancesD [OF assms(1) r(1)])
  then show "ok (\<lambda>_ ys. suffix ys xs) (bindF m f s)"
  proof (rule ok_bind)
    fix v s' ys
    assume "remaining s' ys" "suffix ys xs"
    moreover have "length ys < n" using suffix_length_le [OF \<open>suffix ys xs\<close>] r(2) by simp
    ultimately show "ok (\<lambda>_ zs. suffix zs xs) (f v s')"
      using assms(2) unfolding ends_below_def by (blast intro: ok_suffix)
  qed
qed

lemma ends_bind_lift [ends_intro]: "(\<And>v. ends_below n (f v)) \<Longrightarrow> ends_below n (bindF (liftF r) f)"
  by (rule ends_bind [OF advances_lift])

lemma ends_lift [ends_intro]: "ends_below n (liftF r)"
  by (rule ends_advances [OF advances_lift])

lemma ends_throw [ends_intro]: "ends_below n (throwF m)"
  by (rule ends_advances [OF advances_throw])

lemma ends_if [ends_intro]: "ends_below n p \<Longrightarrow> ends_below n q \<Longrightarrow> ends_below n (if b then p else q)"
  by simp

lemma ends_bind_read [ends_intro]: "(\<And>v. ends_below n (f v)) \<Longrightarrow> ends_below n (bindF (readF until task) f)"
  by (rule ends_bind [OF advances_runs(2)])

text \<open>A read takes at least one byte.\<close>

lemma ends_read:
  assumes "\<And>v. ends_below n (f v)"
  shows "ends_below (Suc n) (bindF (readF until task) f)"
  unfolding ends_below_def
proof (intro allI impI)
  fix s xs
  assume r: "remaining s xs" "length xs < Suc n"
  have "ok (\<lambda>_ ys. suffix ys xs \<and> length ys < length xs) (readF until task s)"
    using advancesD [OF advances_runs(2) r(1)] shortensD [OF shortens_read r(1)] by (rule ok_conj)
  then show "ok (\<lambda>_ ys. suffix ys xs) (bindF (readF until task) f s)"
  proof (rule ok_bind)
    fix v s' ys
    assume "remaining s' ys" "suffix ys xs \<and> length ys < length xs"
    then show "ok (\<lambda>_ zs. suffix zs xs) (f v s')"
      using assms r(2) unfolding ends_below_def by (fastforce intro: ok_suffix)
  qed
qed

lemma takes_read:
  assumes "set xs \<inter> set until = {}" "u \<in> set until" "length xs + 2 \<le> 65536" "next_ok task"
  shows "takes (readF until task) (Inr (concat (map (next_out task) (xs @ [u])))) (xs @ u # ys) ys"
proof -
  have "collect_bytes (until_criteria until True) task (Array_Collector []) (xs @ u # ys) =
      (Inr (Array_Collector (concat (map (next_out task) (xs @ [u])))), task, ys)"
    using chain.collect_until [OF assms(1-3), of "Array_Collector []" task task "Array_Collector []" True ys]
      assms(4) chain_initialize by (simp add: run_chain Let_def)
  from run_remaining [OF _ this, of _ collected_bytes] show ?thesis
    by (fastforce simp: takes_def readF_def read_until_def)
qed

text \<open>A read up to a character that does not come.\<close>

lemma takes_read_end:
  assumes "set xs \<inter> set until = {}" "length xs \<le> 65536" "next_ok task"
  shows "takes (readF until task) (Inl no_more_data) xs []"
proof -
  have "\<exists>t. collect_bytes (until_criteria until True) task (Array_Collector []) xs = (Inl no_more_data, t, [])"
  proof (cases xs rule: rev_cases)
    case Nil
    then show ?thesis by (simp add: collect_bytes_def finish_run_def)
  next
    case (snoc ws x)
    let ?n = "length ws"
    have x: "?n < 65536" "x \<notin> set until" "set ws \<inter> set until = {}" using assms(1,2) snoc by auto
    let ?o = "snd (run_filter (\<lambda>nx c. (nx, next_out (as_chain nx) c)) task ws)"
    let ?r = "\<lparr>rn_criteria = Loop_Criteria (until_info True (Suc ?n) until GOOD), rn_collector = Array_Collector ?o\<rparr>"
    have "next_perform task x ?r = (Inr (), task, ?r\<lparr>rn_collector := add_bytes (next_out task x) (rn_collector ?r)\<rparr>)"
      using chain_performs(2) [OF assms(3), of ?r x] by simp
    moreover have "collect_list (ws @ [x]) task (start_run (until_criteria until True) (Array_Collector [])) =
        collect_list [x] task \<lparr>rn_criteria = Loop_Criteria (until_info True ?n until GOOD), rn_collector = Array_Collector ?o\<rparr>"
      using chain.until_prefix [OF x(3), of 0 "Array_Collector []" "start_run (until_criteria until True) (Array_Collector [])"
          True "[x]" task] x(1) assms(3)
      by (simp add: start_run_def until_criteria_def LoopCriteriaInfo_def run_chain)
    ultimately show ?thesis
      using next_until_go [OF x(1,2), of True] snoc assms(3) chain_initialize
      by (simp add: collect_bytes_def finish_run_def Let_def criteriaState_def criteria_state_def)
  qed
  then obtain t where t: "collect_bytes (until_criteria until True) task (Array_Collector []) xs = (Inl no_more_data, t, [])"
    by blast
  from run_remaining [OF _ this, of _ collected_bytes] show ?thesis
    by (fastforce simp: takes_def readF_def read_until_def)
qed

section \<open>Arrays of bytes\<close>

definition array_back :: "'a list \<Rightarrow> 'a res" where
  "array_back xs = (if xs = [] then Inl (Runtime_Error ''No element to return.'') else Inr (last xs))"

definition removeBack :: "'a list \<Rightarrow> 'a list res" where
  "removeBack xs = (if xs = [] then Inl (Runtime_Error ''No element to remove.'') else Inr (butlast xs))"

lemma back_facts [simp]:
  "array_back (xs @ [x]) = Inr x" "removeBack (xs @ [x]) = Inr xs" "array_back [x] = Inr x" "removeBack [x] = Inr []"
  by (simp_all add: array_back_def removeBack_def)

section \<open>Parsing and writing\<close>

type_synonym pairs = "byte list \<Rightarrow> byte list option"

definition goodF :: "bool parser" where
  "goodF s = (case good s of (g, s') \<Rightarrow> Some (Inr g, s'))"

definition delim_string :: "byte \<Rightarrow> byte list" where
  "delim_string delim = 10 # (if delim \<noteq> 10 then [delim] else [])"

definition ignore_whitespace :: "reader_task option" where
  "ignore_whitespace = Some (ReaderTaskDisallow [32, 9] False None)"

text \<open>The key delimiter is not used: keys always end at an equals sign.\<close>

partial_function (option) KeyValue_loop :: "byte \<Rightarrow> pairs \<Rightarrow> estream \<Rightarrow> (pairs res \<times> estream) option" where
  "KeyValue_loop delim data s =
     bindF goodF (\<lambda>g.
       if \<not> g then liftF (Inr data)
       else bindF (readF [letter CHR ''='', 10] ignore_whitespace) (\<lambda>field_name.
         bindF (liftF (array_back field_name)) (\<lambda>c.
         if c = 10 then liftF (Inr data)
         else bindF (readF (delim_string delim) None) (\<lambda>field_value.
           bindF (liftF (array_back field_value)) (\<lambda>d.
           if delim \<noteq> 10 \<and> d = 10 then liftF (Inr data)
           else bindF (liftF (removeBack field_value)) (\<lambda>v.
             bindF (liftF (removeBack field_name)) (\<lambda>k.
             KeyValue_loop delim (data(k \<mapsto> v))))))))) s"

declare KeyValue_loop.simps [code]

definition KeyValue_parse :: "byte \<Rightarrow> byte \<Rightarrow> pairs parser" where
  "KeyValue_parse key_delim delim = KeyValue_loop delim Map.empty"

definition MAX_LENGTH_OF_KEYVALUE_STRING :: nat where
  "MAX_LENGTH_OF_KEYVALUE_STRING = 1024"

definition KeyValue_parse_string :: "byte list \<Rightarrow> byte \<Rightarrow> byte \<Rightarrow> pairs res option" where
  "KeyValue_parse_string str key_delim delim =
     (if MAX_LENGTH_OF_KEYVALUE_STRING < length str then Some (Inl (Runtime_Error ''String to loooonnnng!''))
      else map_option fst (KeyValue_parse key_delim delim (EStream_memory str)))"

definition pairs_text :: "byte \<Rightarrow> byte \<Rightarrow> (byte list \<times> byte list) list \<Rightarrow> byte list" where
  "pairs_text key_delim delim es = concat (map (\<lambda>(k, v). k @ key_delim # v @ [delim]) es)"

definition KeyValue_toString :: "(byte list \<times> byte list) list \<Rightarrow> byte \<Rightarrow> byte \<Rightarrow> byte list" where
  "KeyValue_toString es key_delim delim = pairs_text key_delim delim es @ [10]"

section \<open>What the loop takes\<close>

lemma takes_good: "takes goodF (Inr (xs \<noteq> [])) xs xs"
  unfolding takes_def goodF_def using good_remaining by fastforce

text \<open>Keys and values that can be read back.\<close>

definition kv_key_ok :: "byte list \<Rightarrow> bool" where
  "kv_key_ok k \<longleftrightarrow> set k \<inter> {letter CHR ''='', 10} = {} \<and> length k + 2 \<le> 65536"

definition kv_value_ok :: "byte \<Rightarrow> byte list \<Rightarrow> bool" where
  "kv_value_ok delim v \<longleftrightarrow> set v \<inter> {10, delim} = {} \<and> length v + 2 \<le> 65536"

definition no_blanks :: "byte list \<Rightarrow> byte list" where
  "no_blanks xs = concat (map (next_out ignore_whitespace) xs)"

lemma no_blanks_simps [simp]: "no_blanks [] = []"
  "no_blanks (c # xs) = (if c = 32 \<or> c = 9 then no_blanks xs else c # no_blanks xs)"
  "no_blanks (xs @ ys) = no_blanks xs @ no_blanks ys"
  by (simp_all add: no_blanks_def ignore_whitespace_def)

lemma no_blanks_same: "set xs \<inter> {32, 9} = {} \<Longrightarrow> no_blanks xs = xs"
  by (induction xs) auto

lemma set_delim_string: "set (delim_string delim) = {10, delim}"
  by (auto simp: delim_string_def)

lemma takes_kv_key:
  assumes "kv_key_ok k" "u = letter CHR ''='' \<or> u = 10"
  shows "takes (readF [letter CHR ''='', 10] ignore_whitespace) (Inr (no_blanks k @ [u])) (k @ u # ys) ys"
proof -
  have "takes (readF [letter CHR ''='', 10] ignore_whitespace) (Inr (no_blanks (k @ [u]))) (k @ u # ys) ys"
    unfolding no_blanks_def by (rule takes_read) (use assms in \<open>auto simp: kv_key_ok_def ignore_whitespace_def\<close>)
  moreover have "no_blanks [u] = [u]" using assms(2) by auto
  ultimately show ?thesis by simp
qed

lemma takes_kv_value:
  assumes "kv_value_ok delim v" "u = delim \<or> u = 10"
  shows "takes (readF (delim_string delim) None) (Inr (v @ [u])) (v @ u # ys) ys"
  using takes_read [of v "delim_string delim" u None ys] assms
  by (auto simp: kv_value_ok_def set_delim_string out_none simp del: map_append)

lemma kv_unfold: "KeyValue_loop delim data = bindF goodF (\<lambda>g.
    if \<not> g then liftF (Inr data)
    else bindF (readF [letter CHR ''='', 10] ignore_whitespace) (\<lambda>field_name.
      bindF (liftF (array_back field_name)) (\<lambda>c.
      if c = 10 then liftF (Inr data)
      else bindF (readF (delim_string delim) None) (\<lambda>field_value.
        bindF (liftF (array_back field_value)) (\<lambda>d.
        if delim \<noteq> 10 \<and> d = 10 then liftF (Inr data)
        else bindF (liftF (removeBack field_value)) (\<lambda>v.
          bindF (liftF (removeBack field_name)) (\<lambda>k. KeyValue_loop delim (data(k \<mapsto> v)))))))))"
  by (rule ext) (rule KeyValue_loop.simps)

lemma takes_if: "b \<Longrightarrow> takes p r xs ys \<Longrightarrow> takes (if b then p else q) r xs ys"
  "\<not> b \<Longrightarrow> takes q r xs ys \<Longrightarrow> takes (if b then p else q) r xs ys"
  by simp_all

lemma bindF_value: "bindF (liftF (Inr v)) f = f v"
  by (simp add: fun_eq_iff bindF_def liftF_def)

lemma equals_sign: "(letter CHR ''='' = 10) = False"
  by simp

lemmas kv_steps = bindF_value back_facts equals_sign if_True if_False not_True_eq_False not_False_eq_True simp_thms

lemma takes_loop_pair:
  assumes "kv_key_ok k" "kv_value_ok delim v" "takes (KeyValue_loop delim (data(no_blanks k \<mapsto> v))) r ys zs"
  shows "takes (KeyValue_loop delim data) r (k @ letter CHR ''='' # v @ delim # ys) zs"
proof -
  have g: "takes goodF (Inr True) (k @ letter CHR ''='' # v @ delim # ys) (k @ letter CHR ''='' # v @ delim # ys)"
    using takes_good [of "k @ letter CHR ''='' # v @ delim # ys"] by simp
  have k: "takes (readF [letter CHR ''='', 10] ignore_whitespace) (Inr (no_blanks k @ [letter CHR ''='']))
      (k @ letter CHR ''='' # v @ delim # ys) (v @ delim # ys)"
    by (rule takes_kv_key [OF assms(1)]) simp
  have v: "takes (readF (delim_string delim) None) (Inr (v @ [delim])) (v @ delim # ys) ys"
    by (rule takes_kv_value [OF assms(2)]) simp
  have d: "(delim \<noteq> 10 \<and> delim = 10) = False" by blast
  show ?thesis
    unfolding kv_unfold [of delim data]
    by (rule takes_bind [OF g], simp only: kv_steps, rule takes_bind [OF k], simp only: kv_steps,
      rule takes_bind [OF v], simp only: kv_steps d, rule assms(3))
qed

lemma takes_loop_empty: "kv_key_ok k \<Longrightarrow> takes (KeyValue_loop delim data) (Inr data) (k @ 10 # ys) ys"
  unfolding kv_unfold [of delim data]
  by (rule takes_bind [OF takes_good], rule takes_if(2), simp, rule takes_bind [OF takes_kv_key [of k 10]])
    (simp_all add: bindF_value takes_lift)

lemma takes_loop_done: "takes (KeyValue_loop delim data) (Inr data) [] []"
  unfolding kv_unfold [of delim data]
  by (rule takes_bind [OF takes_good]) (simp add: takes_lift)

lemma takes_loop_line:
  assumes "kv_key_ok k" "kv_value_ok delim v" "delim \<noteq> 10"
  shows "takes (KeyValue_loop delim data) (Inr data) (k @ letter CHR ''='' # v @ 10 # ys) ys"
proof -
  have g: "takes goodF (Inr True) (k @ letter CHR ''='' # v @ 10 # ys) (k @ letter CHR ''='' # v @ 10 # ys)"
    using takes_good [of "k @ letter CHR ''='' # v @ 10 # ys"] by simp
  have k: "takes (readF [letter CHR ''='', 10] ignore_whitespace) (Inr (no_blanks k @ [letter CHR ''='']))
      (k @ letter CHR ''='' # v @ 10 # ys) (v @ 10 # ys)"
    by (rule takes_kv_key [OF assms(1)]) simp
  have v: "takes (readF (delim_string delim) None) (Inr (v @ [10])) (v @ 10 # ys) ys"
    by (rule takes_kv_value [OF assms(2)]) simp
  show ?thesis
    unfolding kv_unfold [of delim data]
    by (rule takes_bind [OF g], simp only: kv_steps, rule takes_bind [OF k], simp only: kv_steps,
      rule takes_bind [OF v], simp only: kv_steps assms(3), rule takes_lift)
qed

lemma takes_loop_end:
  assumes "kv_key_ok k" "kv_value_ok delim v"
  shows "takes (KeyValue_loop delim data) (Inl no_more_data) (k @ letter CHR ''='' # v) []"
proof -
  have g: "takes goodF (Inr True) (k @ letter CHR ''='' # v) (k @ letter CHR ''='' # v)"
    using takes_good [of "k @ letter CHR ''='' # v"] by simp
  have k: "takes (readF [letter CHR ''='', 10] ignore_whitespace) (Inr (no_blanks k @ [letter CHR ''='']))
      (k @ letter CHR ''='' # v) v"
    by (rule takes_kv_key [OF assms(1)]) simp
  have v: "takes (readF (delim_string delim) None) (Inl no_more_data) v []"
    by (rule takes_read_end) (use assms(2) in \<open>simp_all add: kv_value_ok_def set_delim_string\<close>)
  show ?thesis
    unfolding kv_unfold [of delim data]
    by (rule takes_bind [OF g], simp only: kv_steps, rule takes_bind [OF k], simp only: kv_steps,
      rule takes_bind_error [OF v])
qed

text \<open>What pairs do to a map, in their order.\<close>

fun insert_pairs :: "(byte list \<times> byte list) list \<Rightarrow> pairs \<Rightarrow> pairs" where
  "insert_pairs [] data = data"
| "insert_pairs ((k, v) # es) data = insert_pairs es (data(no_blanks k \<mapsto> v))"

definition pairs_ok :: "byte \<Rightarrow> (byte list \<times> byte list) list \<Rightarrow> bool" where
  "pairs_ok delim es \<longleftrightarrow> (\<forall>(k, v) \<in> set es. kv_key_ok k \<and> kv_value_ok delim v)"

lemma takes_loop_pairs:
  assumes "pairs_ok delim es" "takes (KeyValue_loop delim (insert_pairs es data)) r ys zs"
  shows "takes (KeyValue_loop delim data) r (pairs_text (letter CHR ''='') delim es @ ys) zs"
  using assms
proof (induction es arbitrary: data)
  case Nil
  then show ?case by (simp add: pairs_text_def)
next
  case (Cons e es)
  obtain k v where e: "e = (k, v)" by fastforce
  have "pairs_ok delim es" "takes (KeyValue_loop delim (insert_pairs es (data(no_blanks k \<mapsto> v)))) r ys zs"
    using Cons.prems e by (simp_all add: pairs_ok_def)
  then have "takes (KeyValue_loop delim (data(no_blanks k \<mapsto> v))) r (pairs_text (letter CHR ''='') delim es @ ys) zs"
    by (rule Cons.IH)
  then show ?case
    using takes_loop_pair [of k delim v data r "pairs_text (letter CHR ''='') delim es @ ys" zs] Cons.prems(1) e
    by (simp add: pairs_ok_def pairs_text_def)
qed

lemma insert_distinct:
  assumes "distinct (map fst es)" "\<And>k v. (k, v) \<in> set es \<Longrightarrow> set k \<inter> {32, 9} = {}" "dom data \<inter> fst ` set es = {}"
  shows "insert_pairs es data = data ++ map_of es"
  using assms
proof (induction es arbitrary: data)
  case (Cons e es)
  obtain k v where e: "e = (k, v)" by fastforce
  have b: "no_blanks k = k" using Cons.prems(2) [of k v] e by (intro no_blanks_same) simp
  have d: "dom (data(k \<mapsto> v)) \<inter> fst ` set es = {}" "distinct (map fst es)" using Cons.prems(1,3) e by auto
  have "insert_pairs es (data(k \<mapsto> v)) = data(k \<mapsto> v) ++ map_of es"
    by (rule Cons.IH [OF d(2) _ d(1)]) (use Cons.prems(2) in fastforce)
  moreover have "data(k \<mapsto> v) ++ map_of es = data ++ map_of (e # es)"
  proof
    fix x
    have "map_of es k = None" using Cons.prems(1) e by (auto simp: map_of_eq_None_iff)
    then show "(data(k \<mapsto> v) ++ map_of es) x = (data ++ map_of (e # es)) x"
      using e by (simp add: map_add_def split: option.split)
  qed
  ultimately show ?case by (simp only: e insert_pairs.simps b)
qed simp

text \<open>Every run of the loop ends: it takes a byte at each turn.\<close>

lemma advances_good [advancing]: "advances goodF"
  unfolding advances_def goodF_def ok_def using good_remaining by fastforce

lemma kv_below: "ends_below n (KeyValue_loop delim data)"
proof (induction n arbitrary: data)
  case (Suc n)
  show ?case
    unfolding kv_unfold [of delim data] Let_def
    by (rule ends_bind [OF advances_good], rule ends_if, rule ends_advances [OF advances_lift],
      rule ends_read) (intro ends_intro Suc.IH)
qed simp

lemma KeyValue_advances [advancing]: "advances (KeyValue_parse key_delim delim)"
  unfolding KeyValue_parse_def by (rule advances_all) (rule kv_below)

section \<open>Properties\<close>

text \<open>
  C20. Writing a map and parsing the text gives the map back, and leaves what follows the text: for
  keys without blanks, equals signs and line ends, and values without the delimiter and line ends.
\<close>

theorem KeyValue_roundtrip:
  assumes "remaining s (KeyValue_toString es (letter CHR ''='') delim @ ys)"
    and "pairs_ok delim es" and "distinct (map fst es)" and "\<forall>(k, v) \<in> set es. set k \<inter> {32, 9} = {}"
  shows "\<exists>s'. KeyValue_parse key_delim delim s = Some (Inr (map_of es), s') \<and> remaining s' ys"
proof -
  have "takes (KeyValue_loop delim (insert_pairs es Map.empty)) (Inr (insert_pairs es Map.empty)) (10 # ys) ys"
    using takes_loop_empty [of "[]"] by (simp add: kv_key_ok_def)
  from takes_loop_pairs [OF assms(2) this]
  have "takes (KeyValue_parse key_delim delim) (Inr (insert_pairs es Map.empty))
      (KeyValue_toString es (letter CHR ''='') delim @ ys) ys"
    by (simp add: KeyValue_parse_def KeyValue_toString_def)
  moreover have "insert_pairs es Map.empty = map_of es"
    using insert_distinct [OF assms(3), of Map.empty] assms(4) by fastforce
  ultimately show ?thesis using assms(1) unfolding takes_def by simp
qed

theorem KeyValue_roundtrip_witness:
  "\<exists>s'. KeyValue_parse 58 59 (EStream_memory (KeyValue_toString [(bytes ''a'', bytes ''x y''), (bytes ''b'', [])] 61 59 @ [7])) =
    Some (Inr [bytes ''a'' \<mapsto> bytes ''x y'', bytes ''b'' \<mapsto> []], s') \<and> remaining s' [7]"
proof -
  let ?es = "[(bytes ''a'', bytes ''x y''), (bytes ''b'', [])]"
  have "remaining (EStream_memory (KeyValue_toString ?es (letter CHR ''='') 59 @ [7]))
      (KeyValue_toString ?es (letter CHR ''='') 59 @ [7])"
    by (simp add: EStream_memory_def remaining_def es_inv_def pending_def chunks_ok_def)
  from KeyValue_roundtrip [OF this, of 58] show ?thesis
    by (simp add: pairs_ok_def kv_key_ok_def kv_value_ok_def fun_upd_twist)
qed

text \<open>
  The last pair needs its delimiter. With a line end in its place the pair is dropped, and at
  the end of the stream the whole parse fails; only a text that ends behind a delimiter is complete.
\<close>

theorem KeyValue_last_pair:
  assumes "pairs_ok delim es" and "kv_key_ok k" and "kv_value_ok delim v" and "delim \<noteq> 10"
    and "t = pairs_text (letter CHR ''='') delim es"
  shows "(\<forall>s ys. remaining s (t @ k @ letter CHR ''='' # v @ 10 # ys) \<longrightarrow>
      (\<exists>s'. KeyValue_parse key_delim delim s = Some (Inr (insert_pairs es Map.empty), s') \<and> remaining s' ys)) \<and>
    (\<forall>s. remaining s (t @ k @ letter CHR ''='' # v) \<longrightarrow>
      (\<exists>s'. KeyValue_parse key_delim delim s = Some (Inl no_more_data, s'))) \<and>
    (\<forall>s. remaining s t \<longrightarrow>
      (\<exists>s'. KeyValue_parse key_delim delim s = Some (Inr (insert_pairs es Map.empty), s')))"
proof -
  let ?m = "insert_pairs es Map.empty" and ?p = "KeyValue_parse key_delim delim"
  note pairs = takes_loop_pairs [OF assms(1), of Map.empty]
  have "takes ?p (Inr ?m) (t @ k @ letter CHR ''='' # v @ 10 # ys) ys" for ys
    unfolding KeyValue_parse_def assms(5) by (rule pairs [OF takes_loop_line [OF assms(2-4)]])
  moreover have "takes ?p (Inl no_more_data) (t @ k @ letter CHR ''='' # v) []"
    unfolding KeyValue_parse_def assms(5) by (rule pairs [OF takes_loop_end [OF assms(2,3)]])
  moreover have "takes ?p (Inr ?m) (t @ []) []"
    unfolding KeyValue_parse_def assms(5) by (rule pairs [OF takes_loop_done])
  ultimately show ?thesis unfolding takes_def append_Nil2 by blast
qed

theorem KeyValue_last_pair_witness:
  "\<exists>s'. KeyValue_parse 61 38 (EStream_memory (bytes ''a=1&b=2'')) = Some (Inl no_more_data, s')"
proof -
  have "remaining (EStream_memory (bytes ''a=1&b=2'')) (pairs_text (letter CHR ''='') 38 [(bytes ''a'', bytes ''1'')] @
      bytes ''b'' @ letter CHR ''='' # bytes ''2'')"
    by (simp add: EStream_memory_def remaining_def es_inv_def pending_def chunks_ok_def pairs_text_def)
  with KeyValue_last_pair [of 38 "[(bytes ''a'', bytes ''1'')]" "bytes ''b''" "bytes ''2''", OF _ _ _ _ refl, of 61]
  show ?thesis by (simp add: pairs_ok_def kv_key_ok_def kv_value_ok_def)
qed

text \<open>Parsing ends on every stream, and so does parsing of a string.\<close>

theorem KeyValue_ends:
  "(\<forall>s xs. remaining s xs \<longrightarrow> (\<exists>r s'. KeyValue_parse key_delim delim s = Some (r, s'))) \<and>
   (\<exists>r. KeyValue_parse_string str key_delim delim = Some r)"
proof
  show "\<forall>s xs. remaining s xs \<longrightarrow> (\<exists>r s'. KeyValue_parse key_delim delim s = Some (r, s'))"
    using advancesD [OF KeyValue_advances] unfolding ok_def by blast
  have "remaining (EStream_memory str) str"
    by (simp add: EStream_memory_def remaining_def es_inv_def pending_def chunks_ok_def)
  then show "\<exists>r. KeyValue_parse_string str key_delim delim = Some r"
    using advancesD [OF KeyValue_advances, of _ _ key_delim delim] by (fastforce simp: KeyValue_parse_string_def ok_def)
qed

end
