(* ===== verification/Http_Message.thy ===== *)
theory Http_Message
  imports Key_Value Json_Ends
begin

text \<open>
  The HTTP messages of lib/web/http/http_types.h: the URL, the fields, the body of a request by its
  content type with the form data of lib/parser/multipart, and responses. Everything is read with
  the operations of the byte stream. The maps of fields are functions; \<open>fields[name]\<close> inserts an
  empty entry for a missing name. The calls on the server (timeouts, file manager) are left out;
  the key generator behind \<open>createMultipartFile\<close> is the argument \<open>create\<close>.
\<close>

section \<open>URLs\<close>

record url =
  url_path :: "byte list"
  url_query_map :: pairs

definition parseUrl :: "url parser" where
  "parseUrl =
     bindF (readF (bytes ''? '') None) (\<lambda>path.
     bindF (liftF (array_back path)) (\<lambda>c.
     bindF (if c = letter CHR ''?'' then KeyValue_parse (letter CHR ''='') (letter CHR ''&'')
            else liftF (Inr Map.empty)) (\<lambda>query.
     liftF (Inr \<lparr>url_path = butlast path, url_query_map = query\<rparr>))))"

section \<open>Fields\<close>

type_synonym fields = "byte list \<Rightarrow> byte list list option"

definition HTTP_FIELD_MAX :: nat where
  "HTTP_FIELD_MAX = 64"

definition whitespace_chain :: "reader_task option" where
  "whitespace_chain = Some (ReaderTaskDisallow [9, 32] False None)"

definition whitespace_lc_chain :: "reader_task option" where
  "whitespace_lc_chain = Some (ReaderTaskDisallow [9, 32] False (Some (ReaderTaskLC None)))"

text \<open>A string up to its first zero byte, as \<open>c_str()\<close> is read.\<close>

definition c_str :: "byte list \<Rightarrow> byte list" where
  "c_str xs = takeWhile (\<lambda>c. c \<noteq> 0) xs"

definition FIELD_VALUES_TO_LOWER_CASE :: "byte list list" where
  "FIELD_VALUES_TO_LOWER_CASE = [bytes ''connection'', bytes ''upgrade'']"

text \<open>\<open>s[s.size() - 1]\<close>, outside of the string if it is empty.\<close>

definition last_char :: "byte list \<Rightarrow> byte res" where
  "last_char xs = (if xs = [] then Inl Undefined else Inr (last xs))"

text \<open>\<open>atoi\<close>: blanks, a sign, digits; a value that is not an \<open>int\<close> is undefined behaviour.\<close>

definition is_space :: "byte \<Rightarrow> bool" where
  "is_space c \<longleftrightarrow> c = 32 \<or> 9 \<le> c \<and> c \<le> 13"

definition atoi :: "byte list \<Rightarrow> int res" where
  "atoi str =
     (let xs = dropWhile is_space str;
          (negative, ys) =
            (case xs of [] \<Rightarrow> (False, []) | c # cs \<Rightarrow>
               if c = letter CHR ''-'' then (True, cs) else if c = letter CHR ''+'' then (False, cs) else (False, xs));
          n = int (decimal 0 (takeWhile isDigit ys)); v = (if negative then - n else n)
      in if - (2 ^ 31) \<le> v \<and> v < 2 ^ 31 then Inr v else Inl Undefined)"

definition size_of_int :: "int \<Rightarrow> nat" where
  "size_of_int v = nat (v mod 2 ^ 64)"

text \<open>The values of a field: a value loses the character before its delimiter.\<close>

partial_function (option) values_loop ::
  "(byte list \<Rightarrow> 'st \<Rightarrow> 'st res) \<Rightarrow> reader_task option \<Rightarrow> 'st \<Rightarrow> estream \<Rightarrow> ('st res \<times> estream) option" where
  "values_loop store chain st s =
     bindF (readF (letter CHR '','' # [10]) chain) (\<lambda>field_value.
     bindF (liftF (last_char field_value)) (\<lambda>delimeter.
     bindF (liftF (if 2 \<le> length field_value
                   then store (take (length field_value - 2) field_value) st else Inr st)) (\<lambda>st'.
     if delimeter \<noteq> 10 then values_loop store chain st' else liftF (Inr st')))) s"

declare values_loop.simps [code]

text \<open>The fields, with the number that may still come; the result tells if all were used.\<close>

fun fields_loop ::
  "nat \<Rightarrow> (byte list \<Rightarrow> byte list \<Rightarrow> 'st \<Rightarrow> 'st res) \<Rightarrow> 'st \<Rightarrow> (bool \<times> 'st) parser" where
  "fields_loop 0 store st = liftF (Inr (True, st))"
| "fields_loop (Suc n) store st =
     bindF (readF (letter CHR '':'' # [10]) whitespace_lc_chain) (\<lambda>name.
     bindF (liftF (last_char name)) (\<lambda>c.
     if c = 10 then liftF (Inr (False, st))
     else let field_name = butlast name;
              chain = (if c_str field_name \<in> set FIELD_VALUES_TO_LOWER_CASE then whitespace_lc_chain
                       else whitespace_chain) in
       bindF (values_loop (store field_name) chain st) (fields_loop n store)))"

text \<open>\<open>fields[name]\<close>, and appending to it.\<close>

definition field_at :: "byte list \<Rightarrow> fields \<Rightarrow> fields" where
  "field_at name m = (case m name of None \<Rightarrow> m(name \<mapsto> []) | Some _ \<Rightarrow> m)"

definition field_append :: "byte list \<Rightarrow> byte list \<Rightarrow> fields \<Rightarrow> fields" where
  "field_append name v m = (field_at name m)(name \<mapsto> the (field_at name m name) @ [v])"

definition request_field :: "byte list \<Rightarrow> byte list \<Rightarrow> fields \<times> nat \<Rightarrow> (fields \<times> nat) res" where
  "request_field name v = (\<lambda>(m, content_length).
     if name = bytes ''content-length''
     then bindR (atoi (c_str v)) (\<lambda>n. Inr (field_append name v m, size_of_int n))
     else Inr (field_append name v m, content_length))"

section \<open>Form data\<close>

record multipart_file =
  mf_id :: "byte list"
  mf_resource_root :: "byte list"
  mf_name :: "byte list"

text \<open>
  The constructors with arguments assign them to themselves: the members of the last one keep
  their empty defaults.
\<close>

definition MultipartFile_default :: multipart_file where
  "MultipartFile_default = \<lparr>mf_id = [], mf_resource_root = bytes ''./'', mf_name = []\<rparr>"

definition MultipartFile_name :: "byte list \<Rightarrow> multipart_file" where
  "MultipartFile_name name = \<lparr>mf_id = [], mf_resource_root = [], mf_name = []\<rparr>"

definition MultipartFile_full :: "byte list \<Rightarrow> byte list \<Rightarrow> byte list \<Rightarrow> multipart_file" where
  "MultipartFile_full i resource_root name = \<lparr>mf_id = [], mf_resource_root = [], mf_name = []\<rparr>"

definition MultipartFile_equal :: "multipart_file \<Rightarrow> multipart_file \<Rightarrow> bool" where
  "MultipartFile_equal x y \<longleftrightarrow> mf_name x = mf_name y"

definition createMultipartFile :: "byte list \<Rightarrow> byte list res \<Rightarrow> byte list \<Rightarrow> multipart_file res" where
  "createMultipartFile resources_root next_id file_name =
     bindR next_id (\<lambda>i. Inr (MultipartFile_full i resources_root file_name))"

definition MAX_NUM_FILES_PER_REQUEST :: nat where
  "MAX_NUM_FILES_PER_REQUEST = 64"

definition at_pos :: "nat \<Rightarrow> 'a list \<Rightarrow> 'a res" where
  "at_pos i xs = (if i < length xs then Inr (xs ! i) else Inl (Runtime_Error ''Invalid position.''))"

text \<open>One attribute of a part: whether it is the name, and the files.\<close>

definition formdata_attribute ::
  "(byte list \<Rightarrow> multipart_file res) \<Rightarrow> bool \<times> multipart_file list \<Rightarrow> (bool \<times> multipart_file list) parser" where
  "formdata_attribute create = (\<lambda>(has_name, files).
     bindF (readF (bytes ''='') None) (\<lambda>f. bindF (liftF (removeBack f)) (\<lambda>field.
     bindF (readF (bytes '';'') (Some (ReaderTaskExtract 34 34 None))) (\<lambda>v. bindF (liftF (removeBack v)) (\<lambda>value.
     if field = bytes ''filename''
     then if MAX_NUM_FILES_PER_REQUEST < length files then throwF ''Stack size... lol''
       else if \<not> (\<exists>x \<in> set files. MultipartFile_equal x (MultipartFile_name value))
       then bindF (liftF (create value)) (\<lambda>file. liftF (Inr (has_name, files @ [file])))
       else liftF (Inr (has_name, files))
     else if field = bytes ''name'' then liftF (Inr (True, files))
     else liftF (Inr (has_name, files)))))))"

text \<open>
  A turn reads a boundary with a part header. The name of the field is a variable of the turn: for
  a line that is no boundary it is empty, and what would store the line is never reached.
\<close>

partial_function (option) formdata_loop ::
  "(byte list \<Rightarrow> multipart_file res) \<Rightarrow> multipart_file list \<Rightarrow> estream \<Rightarrow> (multipart_file list res \<times> estream) option" where
  "formdata_loop create files s =
     bindF (readF [10] None) (\<lambda>line.
     bindF (liftF (bindR (at_pos 0 line) (\<lambda>c. if c = letter CHR ''-''
              then bindR (at_pos 1 line) (\<lambda>d. Inr (d = letter CHR ''-'')) else Inr False))) (\<lambda>boundary.
     if boundary
     then bindF (liftF (if length line < 3 then Inl Undefined else Inr (line ! (length line - 3)))) (\<lambda>c.
       if c = letter CHR ''-'' then liftF (Inr files)
       else bindF (readF (bytes '';'') None) (\<lambda>_.
         bindF (formdata_attribute create (False, files)) (\<lambda>st.
         bindF (formdata_attribute create st) (\<lambda>(has_name, files').
         if \<not> has_name then throwF ''Field name required.''
         else bindF (readF [10] None) (\<lambda>_. formdata_loop create files')))))
     else throwF ''Boundary string expected at start.'')) s"

declare formdata_loop.simps [code]

section \<open>Requests\<close>

record 'd http_request =
  rq_method :: "byte list"
  rq_url :: url
  rq_backwards_path :: "byte list"
  rq_version :: "byte list"
  rq_fields :: fields
  rq_content_length :: nat
  rq_json_content :: "'d json option"
  rq_files :: "multipart_file list"
  rq_form_content :: pairs
  rq_content :: "byte list"

definition CONTENT_TYPE_KEY :: "byte list" where
  "CONTENT_TYPE_KEY = bytes ''content-type''"

text \<open>
  A request of a table of handlers: the content type becomes the array of its characters, each as
  a string. The members that no constructor sets have the value \<open>garbage\<close>.
\<close>

definition HttpRequest_of_path :: "nat \<Rightarrow> byte list \<Rightarrow> byte list \<Rightarrow> byte list \<Rightarrow> 'd http_request" where
  "HttpRequest_of_path garbage path method content_type =
     \<lparr>rq_method = method, rq_url = \<lparr>url_path = path, url_query_map = Map.empty\<rparr>, rq_backwards_path = rev path,
      rq_version = [], rq_fields = [CONTENT_TYPE_KEY \<mapsto> map (\<lambda>c. [c]) content_type],
      rq_content_length = garbage, rq_json_content = None, rq_files = [], rq_form_content = Map.empty,
      rq_content = []\<rparr>"

text \<open>
  The body. \<open>EStream::read\<close> has no overload for a length: the length becomes the capacity of an
  empty array of until elements.
\<close>

definition readElsF :: "nat \<Rightarrow> byte list parser" where
  "readElsF n s = map_option (\<lambda>(r, t, s'). (r, s')) (readEls_op n None s)"

definition HttpRequest_body ::
  "'d double_ops \<Rightarrow> (byte list \<Rightarrow> multipart_file res) \<Rightarrow> 'd http_request \<Rightarrow> 'd http_request parser" where
  "HttpRequest_body ops create rq =
     (let post = (rq_method rq = bytes ''POST'');
          rq1 = (if post then rq\<lparr>rq_fields := field_at CONTENT_TYPE_KEY (rq_fields rq)\<rparr> else rq);
          content_type = (case rq_fields rq1 CONTENT_TYPE_KEY of None \<Rightarrow> [] | Some vs \<Rightarrow> vs)
      in if post \<and> content_type \<noteq> [] \<and> rq_content_length rq \<noteq> size_max
      then if hd content_type = bytes ''application/json''
        then bindF (parse ops) (\<lambda>v. liftF (Inr (rq1\<lparr>rq_json_content := Some v\<rparr>)))
        else if hd content_type = bytes ''application/x-www-form-urlencoded''
        then bindF (KeyValue_parse (letter CHR ''='') (letter CHR ''&'')) (\<lambda>m. liftF (Inr (rq1\<lparr>rq_form_content := m\<rparr>)))
        else if hd content_type = bytes ''multipart/formdata''
        then bindF (formdata_loop create []) (\<lambda>files. liftF (Inr (rq1\<lparr>rq_files := files\<rparr>)))
        else if hd content_type = bytes ''multipart/byteranges'' then liftF (Inr rq1)
        else bindF (readF [] None) (\<lambda>xs. liftF (Inr (rq1\<lparr>rq_content := xs\<rparr>)))
      else bindF (readElsF (rq_content_length rq)) (\<lambda>xs. liftF (Inr (rq1\<lparr>rq_content := xs\<rparr>))))"

definition HttpRequest_of ::
  "'d double_ops \<Rightarrow> (byte list \<Rightarrow> multipart_file res) \<Rightarrow> 'd http_request parser" where
  "HttpRequest_of ops create =
     bindF (readF (bytes '' '') None) (\<lambda>m. bindF (liftF (removeBack m)) (\<lambda>method.
     bindF parseUrl (\<lambda>url.
     bindF (readF [10] None) (\<lambda>v. bindF (liftF (removeBack v)) (\<lambda>version.
     bindF (fields_loop HTTP_FIELD_MAX request_field (Map.empty, size_max)) (\<lambda>(full, fields, content_length).
     if full then throwF ''Too many fields in request.''
     else HttpRequest_body ops create
       \<lparr>rq_method = butlast method, rq_url = url, rq_backwards_path = [], rq_version = butlast version,
        rq_fields = fields, rq_content_length = content_length, rq_json_content = None, rq_files = [],
        rq_form_content = Map.empty, rq_content = []\<rparr>))))))"

text \<open>Comparison looks up the content type of both sides, which inserts it.\<close>

definition front :: "'a list \<Rightarrow> 'a res" where
  "front xs = (case xs of [] \<Rightarrow> Inl (Runtime_Error ''No element to return.'') | x # _ \<Rightarrow> Inr x)"

definition HttpRequest_equal ::
  "'d http_request \<Rightarrow> 'd http_request \<Rightarrow> bool res \<times> 'd http_request \<times> 'd http_request" where
  "HttpRequest_equal this x =
     (let this_hash = rq_backwards_path this @ rq_method this; x_hash = rq_backwards_path x @ rq_method x;
          this1 = this\<lparr>rq_fields := field_at CONTENT_TYPE_KEY (rq_fields this)\<rparr>;
          this_type = the (rq_fields this1 CONTENT_TYPE_KEY)
      in if this_type \<noteq> []
      then let x1 = x\<lparr>rq_fields := field_at CONTENT_TYPE_KEY (rq_fields x)\<rparr>
           in (bindR (front this_type) (\<lambda>a. bindR (front (the (rq_fields x1 CONTENT_TYPE_KEY))) (\<lambda>b.
                 Inr (this_hash @ a = x_hash @ b))), this1, x1)
      else (Inr (this_hash = x_hash), this1, x))"

section \<open>Responses\<close>

record http_response =
  rs_status_code :: "byte list"
  rs_version :: "byte list"
  rs_fields :: "byte list \<Rightarrow> byte list option"
  rs_cookies :: "byte list list"
  rs_content :: "byte list"
  rs_content_length :: nat

definition HttpResponse_default :: "nat \<Rightarrow> http_response" where
  "HttpResponse_default garbage =
     \<lparr>rs_status_code = bytes ''500'', rs_version = bytes ''HTTP/1.1'', rs_fields = [bytes ''Connection'' \<mapsto> bytes ''close''],
      rs_cookies = [], rs_content = [], rs_content_length = garbage\<rparr>"

text \<open>A field of a response is one string, to which further values are appended.\<close>

definition response_field :: "byte list \<Rightarrow> byte list \<Rightarrow> http_response \<Rightarrow> http_response res" where
  "response_field name v rs =
     (let rs1 = (if name = bytes ''set-cookie'' then rs\<lparr>rs_cookies := rs_cookies rs @ [v]\<rparr>
                 else rs\<lparr>rs_fields := (rs_fields rs)(name \<mapsto>
                   (case rs_fields rs name of None \<Rightarrow> [] | Some t \<Rightarrow> t) @ v)\<rparr>)
      in if name = bytes ''content-length''
      then bindR (atoi (c_str v)) (\<lambda>n. Inr (rs1\<lparr>rs_content_length := size_of_int n\<rparr>))
      else Inr rs1)"

text \<open>The status code is read into a local variable; \<open>content_length\<close> starts as \<open>garbage\<close>.\<close>

definition HttpResponse_of :: "nat \<Rightarrow> http_response parser" where
  "HttpResponse_of garbage =
     bindF (readF (bytes '' '') None) (\<lambda>v. bindF (liftF (removeBack v)) (\<lambda>version.
     bindF (readF (letter CHR '' '' # [10]) None) (\<lambda>code. bindF (liftF (array_back code)) (\<lambda>c.
     bindF (if c = letter CHR '' '' then bindF (readF [10] None) (\<lambda>_. liftF (Inr ())) else liftF (Inr ())) (\<lambda>_.
     bindF (liftF (removeBack code)) (\<lambda>_.
     bindF (fields_loop HTTP_FIELD_MAX response_field
       \<lparr>rs_status_code = [], rs_version = version, rs_fields = Map.empty, rs_cookies = [], rs_content = [],
        rs_content_length = garbage\<rparr>) (\<lambda>(full, rs).
     bindF (if rs_content_length rs \<noteq> size_max then readElsF (rs_content_length rs) else liftF (Inr [])) (\<lambda>xs.
     if full then throwF ''Too many fields in request.'' else liftF (Inr (rs\<lparr>rs_content := xs\<rparr>))))))))))"

text \<open>Writing; \<open>es\<close> are the fields in the order of the hash map.\<close>

definition HttpResponse_toString ::
  "'d float_ops \<Rightarrow> (byte list \<times> byte list) list \<Rightarrow> http_response \<Rightarrow> byte list res option" where
  "HttpResponse_toString fl es rs =
     (case format_text fl (bytes ''Content-Length: {d}'') [Long_Arg (of_nat (length (rs_content rs)))] of
        None \<Rightarrow> None
      | Some r \<Rightarrow> Some (bindR r (\<lambda>t. Inr (
          rs_version rs @ bytes '' '' @ rs_status_code rs @ [10] @ t @
          concat (map (\<lambda>(k, v). k @ bytes '': '' @ v @ [10]) es) @
          concat (map (\<lambda>v. bytes ''set-cookie: '' @ v @ [10]) (rs_cookies rs)) @ [10] @ rs_content rs))))"

section \<open>Everything but JSON ends\<close>

lemma advances_readEls [advancing]: "advances (readElsF n)"
  unfolding advances_def
proof (intro allI impI)
  fix s xs
  assume r: "remaining s xs"
  have refused: "ok (\<lambda>_ ys. suffix ys xs) (readElsF n s)" if "n = 0 \<or> ARBITRARY_LIMIT_BECAUSE_DUMB < n"
    using that by (auto simp: readElsF_def readEls_op_def readEls_def ok_def)
  show "ok (\<lambda>_ ys. suffix ys xs) (readElsF n s)"
  proof (cases "n = 0 \<or> ARBITRARY_LIMIT_BECAUSE_DUMB < n \<or> length xs < n")
    case True
    then show ?thesis using refused readEls_short [OF r, of n] by (auto simp: readElsF_def readEls_op_def ok_def)
  next
    case False
    then obtain us ys where us: "xs = us @ ys" "length us = n" by (metis append_take_drop_id length_take min.absorb2 not_le)
    then have "us \<noteq> []" "length us \<le> 2 ^ 32" using False by (auto simp: ARBITRARY_LIMIT_BECAUSE_DUMB_def)
    from readEls_remaining [OF _ this, of s ys] obtain s' where
      "readElsF n s = Some (Inr us, s')" "remaining s' ys"
      using r us by (auto simp: readElsF_def readEls_op_def)
    then show ?thesis using us(1) by (auto simp: ok_def suffix_def)
  qed
qed

lemma values_unfold: "values_loop store chain st =
   bindF (readF (letter CHR '','' # [10]) chain) (\<lambda>field_value.
   bindF (liftF (last_char field_value)) (\<lambda>delimeter.
   bindF (liftF (if 2 \<le> length field_value
                 then store (take (length field_value - 2) field_value) st else Inr st)) (\<lambda>st'.
   if delimeter \<noteq> 10 then values_loop store chain st' else liftF (Inr st'))))"
  by (rule ext) (rule values_loop.simps)

lemma values_below: "ends_below n (values_loop store chain st)"
proof (induction n arbitrary: st)
  case (Suc n)
  show ?case unfolding values_unfold [of store chain st] by (rule ends_read) (intro ends_intro Suc.IH)
qed simp

lemma advances_values [advancing]: "advances (values_loop store chain st)"
  by (rule advances_all) (rule values_below)

lemma advances_fields [advancing]: "advances (fields_loop n store st)"
proof (induction n arbitrary: st)
  case 0
  show ?case unfolding fields_loop.simps by (rule advances_lift)
next
  case (Suc n)
  show ?case unfolding fields_loop.simps Let_def by (intro advancing Suc.IH)
qed

lemma advances_url [advancing]: "advances parseUrl"
  unfolding parseUrl_def by (intro advancing)

lemma advances_attribute [advancing]: "advances (formdata_attribute create st)"
  unfolding formdata_attribute_def by (cases st) (simp only: prod.case, intro advancing)

lemma formdata_unfold: "formdata_loop create files =
   bindF (readF [10] None) (\<lambda>line.
   bindF (liftF (bindR (at_pos 0 line) (\<lambda>c. if c = letter CHR ''-''
            then bindR (at_pos 1 line) (\<lambda>d. Inr (d = letter CHR ''-'')) else Inr False))) (\<lambda>boundary.
   if boundary
   then bindF (liftF (if length line < 3 then Inl Undefined else Inr (line ! (length line - 3)))) (\<lambda>c.
     if c = letter CHR ''-'' then liftF (Inr files)
     else bindF (readF (bytes '';'') None) (\<lambda>_.
       bindF (formdata_attribute create (False, files)) (\<lambda>st.
       bindF (formdata_attribute create st) (\<lambda>(has_name, files').
       if \<not> has_name then throwF ''Field name required.''
       else bindF (readF [10] None) (\<lambda>_. formdata_loop create files')))))
   else throwF ''Boundary string expected at start.''))"
  by (rule ext) (rule formdata_loop.simps)

lemma ends_split [ends_intro]: "(\<And>a b. ends_below n (f a b)) \<Longrightarrow> ends_below n (case x of (a, b) \<Rightarrow> f a b)"
  by (cases x) simp

lemma ends_attribute [ends_intro]:
  "(\<And>v. ends_below n (f v)) \<Longrightarrow> ends_below n (bindF (formdata_attribute create st) f)"
  by (rule ends_bind [OF advances_attribute])

lemma formdata_below: "ends_below n (formdata_loop create files)"
proof (induction n arbitrary: files)
  case (Suc n)
  show ?case unfolding formdata_unfold [of create files] by (rule ends_read) (intro ends_intro Suc.IH)
qed simp

lemma advances_formdata [advancing]: "advances (formdata_loop create files)"
  by (rule advances_all) (rule formdata_below)

lemma advances_response: "advances (HttpResponse_of garbage)"
  unfolding HttpResponse_of_def by (intro advancing)

text \<open>A parser that ends if no object can be closed wrongly.\<close>

definition calm_ends :: "'a parser \<Rightarrow> bool" where
  "calm_ends p \<longleftrightarrow> (\<forall>s xs. remaining s xs \<longrightarrow> calm xs \<longrightarrow> ok (\<lambda>_ ys. suffix ys xs) (p s))"

named_theorems calm_intro \<open>parsers that end on calm texts\<close>

lemma calm_advances: "advances p \<Longrightarrow> calm_ends p"
  by (simp add: calm_ends_def advances_def)

lemma calm_bind [calm_intro]:
  assumes "calm_ends m" "\<And>v. calm_ends (f v)"
  shows "calm_ends (bindF m f)"
  unfolding calm_ends_def
proof (intro allI impI)
  fix s xs
  assume r: "remaining s xs" "calm xs"
  then have "ok (\<lambda>_ ys. suffix ys xs) (m s)" using assms(1) unfolding calm_ends_def by blast
  then show "ok (\<lambda>_ ys. suffix ys xs) (bindF m f s)"
  proof (rule ok_bind)
    fix v s' ys
    assume "remaining s' ys" "suffix ys xs"
    then show "ok (\<lambda>_ zs. suffix zs xs) (f v s')"
      using assms(2) r(2) unfolding calm_ends_def by (blast intro: ok_suffix calm_suffix)
  qed
qed

lemma calm_basic [calm_intro]: "calm_ends (readF until task)" "calm_ends (liftF r)" "calm_ends (throwF m)"
  "calm_ends parseUrl" "calm_ends (fields_loop n store st)" "calm_ends (formdata_loop create files)"
  "calm_ends (KeyValue_parse key_delim delim)" "calm_ends (readElsF k)"
  by (rule calm_advances, intro advancing)+

lemma calm_parse [calm_intro]: "calm_ends (parse ops)"
  unfolding calm_ends_def using parse_calm by blast

lemma calm_if [calm_intro]: "calm_ends p \<Longrightarrow> calm_ends q \<Longrightarrow> calm_ends (if b then p else q)"
  by simp

lemma calm_split [calm_intro]: "(\<And>a b c. calm_ends (f a b c)) \<Longrightarrow> calm_ends (case x of (a, b, c) \<Rightarrow> f a b c)"
  by (cases x) simp

lemma calm_request: "calm_ends (HttpRequest_of ops create)"
  unfolding HttpRequest_of_def HttpRequest_body_def Let_def by (intro calm_intro)

section \<open>What the fields take\<close>

definition field_name_of :: "byte list \<Rightarrow> byte list" where
  "field_name_of name = map to_lower (no_blanks name)"

definition field_value_of :: "byte list \<Rightarrow> byte list \<Rightarrow> byte list" where
  "field_value_of name v =
     (if c_str (field_name_of name) \<in> set FIELD_VALUES_TO_LOWER_CASE then map to_lower (no_blanks v) else no_blanks v)"

definition field_text :: "byte list \<times> byte list \<Rightarrow> byte list" where
  "field_text h = fst h @ letter CHR '':'' # snd h @ [13, 10]"

definition field_ok :: "byte list \<times> byte list \<Rightarrow> bool" where
  "field_ok h \<longleftrightarrow> set (fst h) \<inter> {letter CHR '':'', 10} = {} \<and> length (fst h) + 2 \<le> 65536 \<and>
     set (snd h) \<inter> {letter CHR '','', 10} = {} \<and> length (snd h) + 3 \<le> 65536"

fun store_fields ::
  "(byte list \<Rightarrow> byte list \<Rightarrow> 'st \<Rightarrow> 'st res) \<Rightarrow> (byte list \<times> byte list) list \<Rightarrow> 'st \<Rightarrow> 'st res" where
  "store_fields store [] st = Inr st"
| "store_fields store ((k, v) # hs) st =
     bindR (store (field_name_of k) (field_value_of k v) st) (store_fields store hs)"

lemma fields_chain_out:
  "concat (map (next_out whitespace_chain) xs) = no_blanks xs"
  "concat (map (next_out whitespace_lc_chain) xs) = map to_lower (no_blanks xs)"
  by (induction xs) (simp_all add: whitespace_chain_def whitespace_lc_chain_def)

lemma chains_ok: "next_ok whitespace_chain" "next_ok whitespace_lc_chain"
  by (simp_all add: whitespace_chain_def whitespace_lc_chain_def)

lemma to_lower_marks: "to_lower 10 = 10" "to_lower 13 = 13" "to_lower 58 = 58" "to_lower 44 = 44"
  by (simp_all add: to_lower_def)

lemma takes_field_value:
  assumes "set v \<inter> {letter CHR '','', 10} = {}" "length v + 3 \<le> 65536"
    and "chain = whitespace_chain \<and> t = no_blanks v \<or> chain = whitespace_lc_chain \<and> t = map to_lower (no_blanks v)"
    and "store t st = Inr st'"
  shows "takes (values_loop store chain st) (Inr st') (v @ 13 # 10 # ys) ys"
proof -
  have "takes (readF (letter CHR '','' # [10]) chain) (Inr (concat (map (next_out chain) ((v @ [13]) @ [10])))) ((v @ [13]) @ 10 # ys) ys"
    by (rule takes_read) (use assms(1-3) chains_ok in auto)
  moreover have "concat (map (next_out chain) ((v @ [13]) @ [10])) = t @ [13, 10]"
    using assms(3) fields_chain_out [of "(v @ [13]) @ [10]"] by (auto simp: to_lower_marks)
  ultimately have "takes (readF (letter CHR '','' # [10]) chain) (Inr (t @ [13, 10])) (v @ 13 # 10 # ys) ys" by simp
  then show ?thesis
    unfolding values_unfold [of store chain st]
    by (rule takes_bind) (simp add: last_char_def bindF_value assms(4) takes_lift)
qed

lemma takes_fields:
  assumes "\<forall>h \<in> set hs. field_ok h" "length hs < n" "store_fields store hs st = Inr st'"
  shows "takes (fields_loop n store st) (Inr (False, st')) (concat (map field_text hs) @ 13 # 10 # ys) ys"
  using assms
proof (induction hs arbitrary: n st)
  case Nil
  then obtain k where n: "n = Suc k" by (cases n) auto
  have "takes (readF (letter CHR '':'' # [10]) whitespace_lc_chain)
      (Inr (concat (map (next_out whitespace_lc_chain) ([13] @ [10])))) ([13] @ 10 # ys) ys"
    by (rule takes_read) (use chains_ok in auto)
  moreover have "concat (map (next_out whitespace_lc_chain) ([13] @ [10])) = [13, 10]"
    using fields_chain_out(2) [of "[13] @ [10]"] by (simp add: to_lower_marks)
  ultimately have "takes (readF (letter CHR '':'' # [10]) whitespace_lc_chain) (Inr [13, 10]) (13 # 10 # ys) ys" by simp
  then show ?case using Nil(3) unfolding n fields_loop.simps
    by (auto intro!: takes_bind [of _ "[13, 10]" _ ys] simp: last_char_def bindF_value takes_lift)
next
  case (Cons h hs)
  obtain k v where h: "h = (k, v)" by fastforce
  obtain j where n: "n = Suc j" using Cons.prems(2) by (cases n) auto
  have ok: "set k \<inter> {letter CHR '':'', 10} = {}" "length k + 2 \<le> 65536"
    "set v \<inter> {letter CHR '','', 10} = {}" "length v + 3 \<le> 65536"
    using Cons.prems(1) h by (auto simp: field_ok_def)
  let ?rest = "concat (map field_text hs) @ 13 # 10 # ys"
  have "takes (readF (letter CHR '':'' # [10]) whitespace_lc_chain)
      (Inr (concat (map (next_out whitespace_lc_chain) (k @ [letter CHR '':''])))) (k @ letter CHR '':'' # v @ 13 # 10 # ?rest) (v @ 13 # 10 # ?rest)"
    by (rule takes_read) (use ok chains_ok in auto)
  moreover have "concat (map (next_out whitespace_lc_chain) (k @ [letter CHR '':''])) = field_name_of k @ [58]"
    using fields_chain_out(2) [of "k @ [letter CHR '':'']"] by (simp add: to_lower_marks field_name_of_def)
  ultimately have name: "takes (readF (letter CHR '':'' # [10]) whitespace_lc_chain) (Inr (field_name_of k @ [58]))
      (k @ letter CHR '':'' # v @ 13 # 10 # ?rest) (v @ 13 # 10 # ?rest)" by simp
  obtain st1 where st1: "store (field_name_of k) (field_value_of k v) st = Inr st1" "store_fields store hs st1 = Inr st'"
    using Cons.prems(3) h by (auto simp: res_iff)
  have val: "takes (values_loop (store (field_name_of k)) (if c_str (field_name_of k) \<in> set FIELD_VALUES_TO_LOWER_CASE
      then whitespace_lc_chain else whitespace_chain) st) (Inr st1) (v @ 13 # 10 # ?rest) ?rest"
    by (rule takes_field_value [where t = "field_value_of k v"])
      (use ok st1 in \<open>simp_all add: field_value_of_def\<close>)
  have rest: "takes (fields_loop j store st1) (Inr (False, st')) ?rest ys"
    by (rule Cons.IH) (use Cons.prems n st1(2) in auto)
  from val have val_rest: "takes (bindF (values_loop (store (field_name_of k)) (if c_str (field_name_of k) \<in> set FIELD_VALUES_TO_LOWER_CASE
      then whitespace_lc_chain else whitespace_chain) st) (fields_loop j store)) (Inr (False, st')) (v @ 13 # 10 # ?rest) ys"
    using rest by (rule takes_bind)
  have "takes (fields_loop n store st) (Inr (False, st')) (k @ letter CHR '':'' # v @ 13 # 10 # ?rest) ys"
    unfolding n fields_loop.simps
    by (rule takes_bind [OF name]) (simp add: last_char_def bindF_value Let_def val_rest)
  moreover have "concat (map field_text (h # hs)) @ 13 # 10 # ys = k @ letter CHR '':'' # v @ 13 # 10 # ?rest"
    by (simp add: h field_text_def [of "(k, v)"])
  ultimately show ?case by (simp only:)
qed

section \<open>What a request takes\<close>

lemma takes_plain:
  assumes "set xs \<inter> set until = {}" "u \<in> set until" "length xs + 2 \<le> 65536"
  shows "takes (readF until None) (Inr (xs @ [u])) (xs @ u # ys) ys"
  using takes_read [OF assms, of None ys] by (simp add: out_none del: map_append)

lemma takes_url:
  assumes "set p \<inter> {32, letter CHR ''?''} = {}" "length p + 2 \<le> 65536"
  shows "takes parseUrl (Inr \<lparr>url_path = p, url_query_map = Map.empty\<rparr>) (p @ 32 # ys) ys"
proof -
  have "takes (readF (bytes ''? '') None) (Inr (p @ [32])) (p @ 32 # ys) ys"
    by (rule takes_plain) (use assms in auto)
  then show ?thesis unfolding parseUrl_def
    by (rule takes_bind) (simp add: bindF_value takes_lift)
qed

text \<open>The lines of a request before its body.\<close>

definition request_text :: "byte list \<Rightarrow> byte list \<Rightarrow> byte list \<Rightarrow> (byte list \<times> byte list) list \<Rightarrow> byte list" where
  "request_text m p version hs =
     m @ 32 # p @ 32 # version @ 13 # 10 # concat (map field_text hs) @ [13, 10]"

definition request_line_ok :: "byte list \<Rightarrow> byte list \<Rightarrow> byte list \<Rightarrow> bool" where
  "request_line_ok m p version \<longleftrightarrow> 32 \<notin> set m \<and> length m + 2 \<le> 65536 \<and>
     set p \<inter> {32, letter CHR ''?''} = {} \<and> length p + 2 \<le> 65536 \<and> 10 \<notin> set version \<and> length version + 3 \<le> 65536"

definition parsed_head :: "byte list \<Rightarrow> byte list \<Rightarrow> byte list \<Rightarrow> fields \<Rightarrow> nat \<Rightarrow> 'd http_request" where
  "parsed_head m p version fs n =
     \<lparr>rq_method = butlast m, rq_url = \<lparr>url_path = p, url_query_map = Map.empty\<rparr>, rq_backwards_path = [],
      rq_version = version, rq_fields = fs, rq_content_length = n, rq_json_content = None, rq_files = [],
      rq_form_content = Map.empty, rq_content = []\<rparr>"

lemma takes_request:
  fixes ops :: "'d double_ops"
  assumes "request_line_ok m p version" "\<forall>h \<in> set hs. field_ok h" "length hs < HTTP_FIELD_MAX"
    and "store_fields request_field hs (Map.empty, size_max) = Inr (fs, n)"
    and "takes (HttpRequest_body ops create (parsed_head m p version fs n)) r body ys"
  shows "takes (HttpRequest_of ops create) r (request_text m p version hs @ body) ys"
proof -
  let ?fs = "concat (map field_text hs) @ 13 # 10 # body"
  have m: "takes (readF (bytes '' '') None) (Inr (m @ [32])) (m @ 32 # p @ 32 # version @ 13 # 10 # ?fs)
      (p @ 32 # version @ 13 # 10 # ?fs)"
    by (rule takes_plain) (use assms(1) in \<open>auto simp: request_line_ok_def\<close>)
  have u: "takes parseUrl (Inr \<lparr>url_path = p, url_query_map = Map.empty\<rparr>) (p @ 32 # version @ 13 # 10 # ?fs)
      (version @ 13 # 10 # ?fs)"
    by (rule takes_url) (use assms(1) in \<open>auto simp: request_line_ok_def\<close>)
  have "takes (readF [10] None) (Inr ((version @ [13]) @ [10])) ((version @ [13]) @ 10 # ?fs) ?fs"
    by (rule takes_plain) (use assms(1) in \<open>auto simp: request_line_ok_def\<close>)
  then have v: "takes (readF [10] None) (Inr ((version @ [13]) @ [10])) (version @ 13 # 10 # ?fs) ?fs" by simp
  have f: "takes (fields_loop HTTP_FIELD_MAX request_field (Map.empty, size_max)) (Inr (False, fs, n)) ?fs body"
    by (rule takes_fields [OF assms(2-4)])
  have e: "request_text m p version hs @ body = m @ 32 # p @ 32 # version @ 13 # 10 # ?fs"
    by (simp add: request_text_def)
  show ?thesis
    unfolding e HttpRequest_of_def
    by (rule takes_bind [OF m], simp only: back_facts bindF_value, rule takes_bind [OF u], rule takes_bind [OF v],
      simp only: back_facts bindF_value butlast_snoc, rule takes_bind [OF f],
      simp only: prod.case if_False parsed_head_def [symmetric], rule assms(5))
qed

lemma store_without_length:
  assumes "\<forall>h \<in> set hs. field_name_of (fst h) \<noteq> bytes ''content-length''"
  shows "\<exists>fs'. store_fields request_field hs (fs, n) = Inr (fs', n)"
  using assms
proof (induction hs arbitrary: fs)
  case (Cons h hs)
  then show ?case by (cases h) (simp add: request_field_def)
qed simp

lemma request_backwards: "gives (\<lambda>r. rq_backwards_path r = []) (HttpRequest_of ops create)"
  unfolding HttpRequest_of_def HttpRequest_body_def Let_def
  by (intro gives_after gives_split gives_if gives_throw gives_lift) simp_all

lemma request_bytes:
  fixes ops :: "'d double_ops"
  assumes "remaining s (request_text m p version hs @ us @ ys)"
    and "request_line_ok m p version" and "\<forall>h \<in> set hs. field_ok h" and "length hs < HTTP_FIELD_MAX"
    and "store_fields request_field hs (Map.empty, size_max) = Inr (fs, length us)"
    and "us \<noteq> []" and "length us \<le> 2 ^ 32" and "butlast m \<noteq> bytes ''POST''"
  shows "\<exists>s'. HttpRequest_of ops create s =
      Some (Inr ((parsed_head m p version fs (length us))\<lparr>rq_content := us\<rparr>), s') \<and> remaining s' ys"
proof -
  let ?rq = "parsed_head m p version fs (length us) :: 'd http_request"
  have "takes (readElsF (length us)) (Inr us) (us @ ys) ys"
    unfolding takes_def using readEls_remaining [OF _ assms(6,7)] by (fastforce simp: readElsF_def readEls_op_def)
  then have "takes (HttpRequest_body ops create ?rq) (Inr (?rq\<lparr>rq_content := us\<rparr>)) (us @ ys) ys"
    using assms(8) by (auto simp: HttpRequest_body_def parsed_head_def takes_lift intro: takes_bind)
  from takes_request [OF assms(2-5) this] show ?thesis using assms(1) unfolding takes_def by blast
qed

text \<open>An example: a POST with two bytes of content.\<close>

definition example_text :: "byte list" where
  "example_text = request_text (bytes ''POST'') (bytes ''/a'') (bytes ''HTTP/1.1'') [(bytes ''Content-Length'', bytes '' 2'')]"

definition example_head :: "'d http_request" where
  "example_head = parsed_head (bytes ''POST'') (bytes ''/a'') (bytes ''HTTP/1.1'') [bytes ''content-length'' \<mapsto> [bytes ''2'']]
     (length (bytes ''{}''))"

lemma example_request:
  fixes ops :: "'d double_ops"
  shows "remaining (EStream_memory (example_text @ bytes ''{}'' @ bytes ''!'')) (example_text @ bytes ''{}'' @ bytes ''!'')"
    and "request_line_ok (bytes ''POST'') (bytes ''/a'') (bytes ''HTTP/1.1'')"
    and "\<forall>h \<in> set [(bytes ''Content-Length'', bytes '' 2'')]. field_ok h"
    and "length [(bytes ''Content-Length'', bytes '' 2'')] < HTTP_FIELD_MAX"
    and "store_fields request_field [(bytes ''Content-Length'', bytes '' 2'')] (Map.empty, size_max) =
      Inr ([bytes ''content-length'' \<mapsto> [bytes ''2'']], length (bytes ''{}''))"
    and "bytes ''{}'' \<noteq> []" "length (bytes ''{}'') \<le> 2 ^ 32" "butlast (bytes ''POST'') \<noteq> bytes ''POST''"
  by (rule memory_remaining)
    (simp_all add: request_line_ok_def field_ok_def HTTP_FIELD_MAX_def field_name_of_def field_value_of_def to_lower_def
      FIELD_VALUES_TO_LOWER_CASE_def c_str_def request_field_def atoi_def is_space_def isDigit_def decimal_def
      field_append_def field_at_def size_of_int_def Let_def)

section \<open>Properties\<close>

text \<open>
  C15. A request with carriage returns, one value to a field and a positive content length: the
  method loses its last letter, the names of the fields are in lower case, blanks are gone from
  names and values, and the body is the next \<open>content-length\<close> bytes; so JSON and form bodies of a
  POST are taken as bytes.
\<close>

theorem request_parsed:
  fixes ops :: "'d double_ops"
  assumes "remaining s (request_text m p version hs @ us @ ys)"
    and "request_line_ok m p version" and "\<forall>h \<in> set hs. field_ok h" and "length hs < HTTP_FIELD_MAX"
    and "store_fields request_field hs (Map.empty, size_max) = Inr (fs, length us)"
    and "us \<noteq> []" and "length us \<le> 2 ^ 32" and "butlast m \<noteq> bytes ''POST''"
  shows "\<exists>s'. HttpRequest_of ops create s =
      Some (Inr ((parsed_head m p version fs (length us))\<lparr>rq_content := us\<rparr>), s') \<and> remaining s' ys"
  by (rule request_bytes [OF assms])

theorem request_parsed_witness:
  "\<exists>s'. HttpRequest_of whole_ops (\<lambda>_. Inl Undefined) (EStream_memory (example_text @ bytes ''{}'' @ bytes ''!'')) =
      Some (Inr (example_head\<lparr>rq_content := bytes ''{}''\<rparr>), s') \<and> remaining s' (bytes ''!'')"
  unfolding example_head_def by (rule request_parsed [OF example_request [unfolded example_text_def], folded example_text_def])

text \<open>
  A request without a content length is refused, whatever its method and its fields: the length
  that stands for none is passed to \<open>readEls\<close>.
\<close>

theorem request_needs_length:
  assumes "remaining s (request_text m p version hs @ ys)"
    and "request_line_ok m p version" and "\<forall>h \<in> set hs. field_ok h" and "length hs < HTTP_FIELD_MAX"
    and "\<forall>h \<in> set hs. field_name_of (fst h) \<noteq> bytes ''content-length''"
  shows "\<exists>s'. HttpRequest_of ops create s =
    Some (Inl (Runtime_Error (''You're reading more than the limit specified... '' @
             ''Read less, or you know what, don't read at all.'')), s')"
proof -
  let ?e = "Runtime_Error (''You're reading more than the limit specified... '' @
             ''Read less, or you know what, don't read at all.'')"
  obtain fs where f: "store_fields request_field hs (Map.empty, size_max) = Inr (fs, size_max)"
    using store_without_length [OF assms(5)] by blast
  have "takes (readElsF size_max) (Inl ?e) ys ys"
    by (auto simp: takes_def readElsF_def readEls_op_def readEls_def size_max_def ARBITRARY_LIMIT_BECAUSE_DUMB_def)
  then have "takes (HttpRequest_body ops create (parsed_head m p version fs size_max)) (Inl ?e) ys ys"
    by (simp add: HttpRequest_body_def parsed_head_def Let_def takes_bind_error)
  from takes_request [OF assms(2-4) f this] show ?thesis using assms(1) unfolding takes_def by blast
qed

theorem request_needs_length_witness:
  "\<exists>s' e. HttpRequest_of whole_ops (\<lambda>_. Inl Undefined) (EStream_memory (request_text (bytes ''GET'') (bytes ''/'') (bytes ''HTTP/1.1'')
      [(bytes ''Host'', bytes ''x'')] @ [])) = Some (Inl e, s')"
proof -
  let ?hs = "[(bytes ''Host'', bytes ''x'')]"
  let ?t = "request_text (bytes ''GET'') (bytes ''/'') (bytes ''HTTP/1.1'') ?hs @ []"
  have "remaining (EStream_memory ?t) ?t" by (rule memory_remaining)
  moreover have "request_line_ok (bytes ''GET'') (bytes ''/'') (bytes ''HTTP/1.1'')" "\<forall>h \<in> set ?hs. field_ok h"
    "length ?hs < HTTP_FIELD_MAX"
    by (simp_all add: request_line_ok_def field_ok_def HTTP_FIELD_MAX_def)
  moreover have "\<forall>h \<in> set ?hs. field_name_of (fst h) \<noteq> bytes ''content-length''"
    by (simp add: field_name_of_def to_lower_def)
  ultimately show ?thesis by (blast dest: request_needs_length)
qed

text \<open>
  A query swallows the line: the last parameter is lost with the version and the line end, and
  what is read as the version is the first field.
\<close>

theorem query_swallows_line:
  assumes "remaining s (p @ letter CHR ''?'' # pairs_text (letter CHR ''='') (letter CHR ''&'') es @
      k @ letter CHR ''='' # v @ 32 # version @ 10 # ys)"
    and "set p \<inter> {32, letter CHR ''?''} = {}" and "length p + 2 \<le> 65536"
    and "pairs_ok (letter CHR ''&'') es" and "kv_key_ok k" and "kv_value_ok (letter CHR ''&'') (v @ 32 # version)"
  shows "\<exists>s'. parseUrl s = Some (Inr \<lparr>url_path = p, url_query_map = insert_pairs es Map.empty\<rparr>, s') \<and> remaining s' ys"
proof -
  let ?rest = "pairs_text (letter CHR ''='') (letter CHR ''&'') es @ k @ letter CHR ''='' # (v @ 32 # version) @ 10 # ys"
  have p: "takes (readF (bytes ''? '') None) (Inr (p @ [letter CHR ''?''])) (p @ letter CHR ''?'' # ?rest) ?rest"
    by (rule takes_plain) (use assms(2,3) in auto)
  have "takes (KeyValue_loop (letter CHR ''&'') (insert_pairs es Map.empty)) (Inr (insert_pairs es Map.empty))
      (k @ letter CHR ''='' # (v @ 32 # version) @ 10 # ys) ys"
    by (rule takes_loop_line [OF assms(5,6)]) simp
  from takes_loop_pairs [OF assms(4) this]
  have q: "takes (KeyValue_parse (letter CHR ''='') (letter CHR ''&'')) (Inr (insert_pairs es Map.empty)) ?rest ys"
    by (simp add: KeyValue_parse_def)
  have "takes parseUrl (Inr \<lparr>url_path = p, url_query_map = insert_pairs es Map.empty\<rparr>) (p @ letter CHR ''?'' # ?rest) ys"
    unfolding parseUrl_def
    by (rule takes_bind [OF p], simp only: back_facts bindF_value refl if_True, rule takes_bind [OF q],
      simp only: butlast_snoc, rule takes_lift)
  then show ?thesis using assms(1) unfolding takes_def by simp
qed

theorem query_swallows_line_witness:
  "\<exists>s'. parseUrl (EStream_memory (bytes ''/p?a=1&b=2 HTTP/1.1'' @ 10 # bytes ''Host: x'')) =
    Some (Inr \<lparr>url_path = bytes ''/p'', url_query_map = [bytes ''a'' \<mapsto> bytes ''1'']\<rparr>, s') \<and> remaining s' (bytes ''Host: x'')"
proof -
  have "remaining (EStream_memory (bytes ''/p?a=1&b=2 HTTP/1.1'' @ 10 # bytes ''Host: x''))
      (bytes ''/p'' @ letter CHR ''?'' # pairs_text (letter CHR ''='') (letter CHR ''&'') [(bytes ''a'', bytes ''1'')] @
       bytes ''b'' @ letter CHR ''='' # bytes ''2'' @ 32 # bytes ''HTTP/1.1'' @ 10 # bytes ''Host: x'')"
    using memory_remaining [of "bytes ''/p?a=1&b=2 HTTP/1.1'' @ 10 # bytes ''Host: x''"] by (simp add: pairs_text_def)
  from query_swallows_line [OF this] show ?thesis by (simp add: pairs_ok_def kv_key_ok_def kv_value_ok_def)
qed

text \<open>
  Dispatching: the reversed path is never set for a request that was read, so a handler for a path
  matches it only if the method holds the reversed path, and for a path from the root and a method
  without slashes never; against a handler with a content type a request without one is an error.
\<close>

theorem handler_matches:
  fixes ops :: "'d double_ops"
  assumes "HttpRequest_of ops create s = Some (Inr r, s')"
  shows "fst (HttpRequest_equal (HttpRequest_of_path g path method []) r) = Inr (rev path @ method = rq_method r) \<and>
    (letter CHR ''/'' \<in> set path \<and> letter CHR ''/'' \<notin> set (rq_method r) \<longrightarrow>
      fst (HttpRequest_equal (HttpRequest_of_path g path method []) r) = Inr False) \<and>
    (rq_fields r CONTENT_TYPE_KEY = None \<longrightarrow>
      fst (HttpRequest_equal (HttpRequest_of_path g path method (c # cs)) r) =
        Inl (Runtime_Error ''No element to return.''))"
proof -
  have "rq_backwards_path r = []" using givesD [OF request_backwards assms] .
  then have a: "fst (HttpRequest_equal (HttpRequest_of_path g path method []) r) = Inr (rev path @ method = rq_method r)"
    by (simp add: HttpRequest_equal_def HttpRequest_of_path_def field_at_def Let_def)
  moreover have "rev path @ method \<noteq> rq_method r" if "letter CHR ''/'' \<in> set path" "letter CHR ''/'' \<notin> set (rq_method r)"
    using that by (metis UnI1 set_append set_rev)
  moreover have "fst (HttpRequest_equal (HttpRequest_of_path g path method (c # cs)) r) =
        Inl (Runtime_Error ''No element to return.'')" if "rq_fields r CONTENT_TYPE_KEY = None"
    using that by (simp add: HttpRequest_equal_def HttpRequest_of_path_def field_at_def front_def Let_def)
  ultimately show ?thesis by simp
qed

theorem handler_matches_witness:
  "\<exists>r s'. HttpRequest_of whole_ops (\<lambda>_. Inl Undefined) (EStream_memory (example_text @ bytes ''{}'' @ bytes ''!'')) = Some (Inr r, s') \<and>
    fst (HttpRequest_equal (HttpRequest_of_path 0 (bytes ''/a'') (bytes ''POST'') []) r) = Inr False"
proof -
  obtain s' where r: "HttpRequest_of whole_ops (\<lambda>_. Inl Undefined) (EStream_memory (example_text @ bytes ''{}'' @ bytes ''!'')) =
      Some (Inr (example_head\<lparr>rq_content := bytes ''{}''\<rparr>), s')"
    using request_bytes [OF example_request [unfolded example_text_def], folded example_text_def, of whole_ops "\<lambda>_. Inl Undefined"]
    unfolding example_head_def by blast
  from handler_matches [OF r, of 0 "bytes ''/a''" "bytes ''POST''"] show ?thesis
    using r by (auto simp: example_head_def parsed_head_def)
qed

text \<open>Reading a response ends on every stream; a request too, unless its JSON body does not.\<close>

theorem http_messages_end:
  assumes "remaining s xs"
  shows "(\<exists>r s'. HttpResponse_of garbage s = Some (r, s')) \<and>
    (calm xs \<longrightarrow> (\<exists>r s'. HttpRequest_of ops create s = Some (r, s')))"
  using advancesD [OF advances_response assms, of garbage] calm_request [of ops create] assms
  unfolding ok_def calm_ends_def by blast

theorem http_messages_end_witness:
  "(\<exists>r s'. HttpResponse_of 0 (EStream_memory (bytes ''HTTP'')) = Some (r, s')) \<and>
    (\<exists>r s'. HttpRequest_of whole_ops (\<lambda>_. Inl Undefined) (EStream_memory (bytes ''HTTP'')) = Some (r, s'))"
proof -
  have "calm (bytes ''HTTP'')" by (simp add: calm_def)
  then show ?thesis using http_messages_end [OF memory_remaining] by blast
qed

text \<open>
  The text of a response: the content length is followed by the first field without a line end,
  so a reader takes both as one field.
\<close>

theorem response_text:
  assumes "numToStringSigned (of_nat (length (rs_content rs))) default_opts = Inr t"
  shows "HttpResponse_toString fl es rs = Some (Inr (
    rs_version rs @ [32] @ rs_status_code rs @ [10] @ bytes ''Content-Length: '' @ t @
    concat (map (\<lambda>(k, v). k @ bytes '': '' @ v @ [10]) es) @
    concat (map (\<lambda>v. bytes ''set-cookie: '' @ v @ [10]) (rs_cookies rs)) @ [10] @ rs_content rs))"
proof -
  let ?gs = "[Text (bytes ''Content-Length: ''), Signed (of_nat (length (rs_content rs)))]"
  have "format_text fl (concat (map seg_format ?gs)) (concat (map seg_args ?gs) @ []) =
      Some (Inr (concat [bytes ''Content-Length: '', t]))"
    by (rule format_fields) (simp_all add: assms START_OF_FORMAT_CHAR_def)
  then show ?thesis by (simp add: HttpResponse_toString_def)
qed

theorem response_text_witness:
  "HttpResponse_toString whole_floats [(bytes ''Connection'', bytes ''close'')]
      ((HttpResponse_default 0)\<lparr>rs_content := bytes ''hi''\<rparr>) = Some (Inr (bytes ''HTTP/1.1 500'' @ [10] @
    bytes ''Content-Length: 2Connection: close'' @ [10, 10] @ bytes ''hi''))"
proof -
  have "numToStringSigned (of_nat (length (rs_content ((HttpResponse_default 0)\<lparr>rs_content := bytes ''hi''\<rparr>)))) default_opts =
      Inr (bytes ''2'')"
    by (simp add: numToString_def numToStringSigned_def default_opts_def UINT8_MAX_def
        sign_text_def SIGN_FOR_NEGATIVES_def SIGN_FOR_POSITIVES_def decimal_def count_digits.simps
        digits_loop.simps digit_step_def digit_text_def char_times_def zeros_loop.simps Let_def)
  from response_text [OF this, of whole_floats "[(bytes ''Connection'', bytes ''close'')]"]
  show ?thesis by (simp add: HttpResponse_default_def)
qed

end
