(* ===== verification/Paths.thy ===== *)
theory Paths
  imports Prelude
begin

text \<open>
  lib/paths.cpp: the parts of a path and joining two of them. A \<open>std::string\<close> is a list of bytes;
  \<open>find_last_of\<close> returns \<open>None\<close> for \<open>npos\<close>, and \<open>substr\<close> throws behind the end.
\<close>

section \<open>Strings\<close>

definition slash :: byte where "slash = of_char CHR ''/''"
definition dot :: byte where "dot = of_char CHR ''.''"

lemma slash_dot [simp]: "slash \<noteq> dot" "dot \<noteq> slash"
  by (simp_all add: slash_def dot_def)

definition find_last_of :: "'a \<Rightarrow> 'a list \<Rightarrow> nat option" where
  "find_last_of c xs =
     (if c \<in> set xs then Some (length xs - 1 - length (takeWhile (\<lambda>x. x \<noteq> c) (rev xs))) else None)"

definition npos :: nat where
  "npos = size_max"

definition substr :: "'a list \<Rightarrow> nat \<Rightarrow> nat \<Rightarrow> 'a list res" where
  "substr xs pos n = (if length xs < pos then Inl Out_Of_Range else Inr (take n (drop pos xs)))"

section \<open>Paths\<close>

definition getParent :: "byte list \<Rightarrow> byte list res" where
  "getParent path = (case find_last_of slash path of None \<Rightarrow> Inr path | Some pos \<Rightarrow> substr path 0 pos)"

text \<open>Where there is no slash, the name is cut from \<open>npos\<close>.\<close>

definition getFilename :: "byte list \<Rightarrow> byte list res" where
  "getFilename path =
     (let p = find_last_of slash path; pos = (case p of None \<Rightarrow> npos | Some i \<Rightarrow> i) in
      bindR (case p of None \<Rightarrow> Inr path | Some i \<Rightarrow> substr path i npos) (\<lambda>name_w_ext.
      case find_last_of dot path of
        None \<Rightarrow> Inr name_w_ext
      | Some endpos \<Rightarrow> substr path pos (sub64 endpos pos)))"

definition getExtension :: "byte list \<Rightarrow> byte list res" where
  "getExtension path = (case find_last_of dot path of None \<Rightarrow> Inr path | Some pos \<Rightarrow> substr path pos npos)"

definition join :: "byte list \<Rightarrow> byte list \<Rightarrow> byte list" where
  "join path1 path2 =
     (if path1 \<noteq> [] \<and> last path1 \<noteq> slash then path1 @ [slash] else path1) @
     (if path2 \<noteq> [] \<and> hd path2 = slash then tl path2 else path2)"

definition contentTypeFromPath :: "byte list \<Rightarrow> byte list res" where
  "contentTypeFromPath path =
     bindR (getExtension path) (\<lambda>ext. Inr (
       if ext = bytes ''.html'' then bytes ''text/html''
       else if ext = bytes ''.js'' then bytes ''text/javascript''
       else if ext = bytes ''.css'' then bytes ''text/css''
       else bytes ''none''))"

section \<open>The last separator\<close>

lemma find_last_of_last:
  assumes "c \<notin> set ys"
  shows "find_last_of c (xs @ c # ys) = Some (length xs)"
proof -
  have "takeWhile (\<lambda>x. x \<noteq> c) (rev ys @ c # rev xs) = rev ys"
    using assms by (subst takeWhile_append2) auto
  then show ?thesis by (simp add: find_last_of_def)
qed

lemma find_last_of_none: "c \<notin> set xs \<Longrightarrow> find_last_of c xs = None"
  by (simp add: find_last_of_def)

lemma getExtension_last:
  assumes "dot \<notin> set ext" "length ext < npos"
  shows "getExtension (p @ dot # ext) = Inr (dot # ext)"
  using assms by (simp add: getExtension_def find_last_of_last substr_def)

lemma join_slash: "p \<noteq> [] \<Longrightarrow> last p \<noteq> slash \<Longrightarrow> join p (slash # q) = p @ slash # q"
  by (simp add: join_def)

section \<open>Properties\<close>

text \<open>
  C29. Taking a path apart and joining it again gives the path: the parent joined with the name and the
  extension, for a name without slashes and an extension without dots, in a named directory.
\<close>

theorem paths_roundtrip:
  assumes "path = p @ slash # name @ dot # ext" "p \<noteq> []" "last p \<noteq> slash" "slash \<notin> set name" "slash \<notin> set ext"
    "dot \<notin> set ext" "length path < npos"
  shows "\<exists>parent n e. getParent path = Inr parent \<and> getFilename path = Inr n \<and> getExtension path = Inr e \<and>
    join parent (n @ e) = path"
proof -
  have s: "find_last_of slash path = Some (length p)"
    using find_last_of_last [of slash "name @ dot # ext" p] assms(1,4,5) by simp
  have d: "find_last_of dot path = Some (Suc (length p + length name))"
    using find_last_of_last [of dot ext "p @ slash # name"] assms(1,6) by simp
  have l: "Suc (length p + length name) < 2 ^ 64" using assms(1,7) by (simp add: npos_def size_max_def)
  then have "sub64 (Suc (length p + length name)) (length p) = Suc (length name)" by simp
  then have "getFilename path = Inr (slash # name)"
    using s d assms(1) by (simp add: getFilename_def substr_def)
  moreover have "getParent path = Inr p" using s assms(1) by (simp add: getParent_def substr_def)
  moreover have "getExtension path = Inr (dot # ext)"
    using getExtension_last [of ext "p @ slash # name"] assms(1,6,7) by simp
  ultimately show ?thesis using join_slash [OF assms(2,3), of "name @ dot # ext"] assms(1) by simp
qed

theorem paths_roundtrip_witness:
  "\<exists>parent n e. getParent (bytes ''./static/index.html'') = Inr parent \<and>
    getFilename (bytes ''./static/index.html'') = Inr n \<and> getExtension (bytes ''./static/index.html'') = Inr e \<and>
    join parent (n @ e) = bytes ''./static/index.html''"
proof (rule paths_roundtrip)
  show "bytes ''./static/index.html'' = bytes ''./static'' @ slash # bytes ''index'' @ dot # bytes ''html''"
    by (simp add: bytes_def slash_def dot_def)
qed (simp_all add: bytes_def slash_def dot_def npos_def size_max_def)

text \<open>A name with an extension and no directory is an error.\<close>

theorem getFilename_relative:
  assumes "slash \<notin> set path" "dot \<in> set path" "length path < npos"
  shows "getFilename path = Inl Out_Of_Range"
  using assms by (simp add: getFilename_def find_last_of_def substr_def Let_def)

theorem getFilename_relative_witness: "getFilename (bytes ''index.html'') = Inl Out_Of_Range"
  by (rule getFilename_relative) (simp_all add: bytes_def slash_def dot_def npos_def size_max_def)

end
