(* ===== verification/Http_Connection.thy ===== *)
theory Http_Connection
  imports Http_Message Paths Stream_Move
begin

text \<open>
  lib/web/http/http_connection_etask.cpp: what becomes of a connection. The request is read from the
  stream, answered from the static files, upgraded, or dispatched to a handler of the table between
  its filters; what is thrown on the way is answered by an empty response. The handlers, filters and
  upgraders, the file manager, the hash of OpenSSL and the order of the hash map of fields are in the
  record \<open>http_server\<close>; timeouts are left out. Pointers to responses are options.
\<close>

section \<open>The server\<close>

type_synonym response_filter = "http_response option \<Rightarrow> http_response option res"

record 'd processor_item =
  pi_request :: "'d http_request"
  pi_processor :: "'d http_request \<Rightarrow> ('d http_request \<times> http_response option) res"
  pi_request_filters :: "('d http_request \<Rightarrow> 'd http_request res) list"
  pi_response_filters :: "response_filter list"

record upgrader =
  up_path :: "byte list"
  up_protocol :: "byte list"

record ('d, 'f) http_server =
  sv_ops :: "'d double_ops"
  sv_create :: "byte list \<Rightarrow> multipart_file res"
  sv_float_ops :: "'f float_ops"
  sv_order :: "(byte list \<Rightarrow> byte list option) \<Rightarrow> (byte list \<times> byte list) list"
  sv_static_path :: "byte list"
  sv_root_html_file :: "byte list"
  sv_tls_enabled :: bool
  sv_file_read :: "byte list \<Rightarrow> byte list res"
  sv_processor :: "('d http_request \<Rightarrow> ('d http_request \<times> http_response option) res) option"
  sv_request_filters :: "('d http_request \<Rightarrow> 'd http_request res) list"
  sv_response_filters :: "response_filter list"
  sv_upgraders :: "upgrader list"
  sv_sha1 :: "byte list \<Rightarrow> byte list res"
  sv_encode_block :: "byte list \<Rightarrow> byte list"
  sv_on_connection :: "nat \<Rightarrow> estream \<Rightarrow> estream"
  sv_garbage :: nat

text \<open>
  What a connection changes: the stream, the texts written to it, the upgraders that ran, and, shared
  with the other connections, the table of static paths and the table of handlers.
\<close>

record 'd connection_world =
  cw_io :: estream
  cw_written :: "byte list list"
  cw_upgraded :: "nat list"
  cw_static_paths :: "byte list \<Rightarrow> byte list option"
  cw_request_map :: "'d processor_item list"

type_synonym ('d, 'a) conn_prog = "'d connection_world \<Rightarrow> ('a res \<times> 'd connection_world) option"

definition bindW :: "('d, 'a) conn_prog \<Rightarrow> ('a \<Rightarrow> ('d, 'b) conn_prog) \<Rightarrow> ('d, 'b) conn_prog" where
  "bindW m f w =
     (case m w of
        None \<Rightarrow> None
      | Some (Inl e, w') \<Rightarrow> Some (Inl e, w')
      | Some (Inr x, w') \<Rightarrow> f x w')"

definition liftW :: "'a res \<Rightarrow> ('d, 'a) conn_prog" where
  "liftW r w = Some (r, w)"

lemma bindW_same: "m w = m' w \<Longrightarrow> f = f' \<Longrightarrow> bindW m f w = bindW m' f' w"
  by (simp add: bindW_def)

section \<open>Responses\<close>

definition set_field :: "string \<Rightarrow> byte list \<Rightarrow> http_response \<Rightarrow> http_response" where
  "set_field name v rs = rs\<lparr>rs_fields := (rs_fields rs)(bytes name \<mapsto> v)\<rparr>"

text \<open>A null response is dereferenced; that \<open>write\<close> failed is only logged.\<close>

definition writeResponse :: "('d, 'f) http_server \<Rightarrow> http_response option \<Rightarrow> ('d, unit) conn_prog" where
  "writeResponse sv response w =
     (case response of
        None \<Rightarrow> Some (Inl Undefined, w)
      | Some rs \<Rightarrow>
          (case HttpResponse_toString (sv_float_ops sv) (sv_order sv (rs_fields rs)) rs of
             None \<Rightarrow> None
           | Some (Inl e) \<Rightarrow> Some (Inl e, w)
           | Some (Inr text) \<Rightarrow> Some (Inr (), w\<lparr>cw_written := cw_written w @ [text]\<rparr>)))"

section \<open>Static files\<close>

text \<open>\<open>sprintf\<close> of a size, into 17 characters.\<close>

fun decimal_text :: "nat \<Rightarrow> byte list" where
  "decimal_text n = (if n < 10 then [of_nat (48 + n)] else decimal_text (n div 10) @ [of_nat (48 + n mod 10)])"

declare decimal_text.simps [simp del]

definition size_text :: "nat \<Rightarrow> byte list res" where
  "size_text n =
     (let t = decimal_text n in if length t < 17 then Inr t else Inl Undefined)"

definition static_path_of :: "('d, 'f) http_server \<Rightarrow> 'd http_request \<Rightarrow> byte list" where
  "static_path_of sv rq =
     (if url_path (rq_url rq) = bytes ''/'' then join (sv_static_path sv) (sv_root_html_file sv)
      else join (sv_static_path sv) (url_path (rq_url rq)))"

text \<open>Looking up a path in the table inserts it.\<close>

definition handleStaticRequest :: "('d, 'f) http_server \<Rightarrow> 'd http_request \<Rightarrow> ('d, http_response option) conn_prog" where
  "handleStaticRequest sv rq w =
     (let path = static_path_of sv rq;
          content_type = (case cw_static_paths w path of None \<Rightarrow> [] | Some t \<Rightarrow> t);
          w1 = w\<lparr>cw_static_paths := (cw_static_paths w)(path \<mapsto> content_type)\<rparr>;
          response = HttpResponse_default (sv_garbage sv)
      in if content_type = [] then Some (Inr None, w1)
      else if rq_method rq = bytes ''HEAD'' \<or> rq_method rq = bytes ''GET''
      then liftW (bindR (sv_file_read sv path) (\<lambda>file_data.
             bindR (size_text (length file_data)) (\<lambda>content_length.
             let r1 = set_field ''Content-Type'' content_type (set_field ''Content-Length'' content_length response);
                 r2 = (if rq_method rq = bytes ''GET'' then r1\<lparr>rs_content := file_data\<rparr> else r1)
             in Inr (Some (r2\<lparr>rs_status_code := bytes ''200''\<rparr>))))) w1
      else Some (Inr (Some (response\<lparr>rs_status_code := bytes ''500''\<rparr>)), w1))"

section \<open>Upgrades\<close>

definition values_of :: "string \<Rightarrow> 'd http_request \<Rightarrow> byte list list" where
  "values_of name rq = (case rq_fields rq (bytes name) of None \<Rightarrow> [] | Some vs \<Rightarrow> vs)"

definition with_field :: "string \<Rightarrow> 'd http_request \<Rightarrow> 'd http_request" where
  "with_field name rq = rq\<lparr>rq_fields := field_at (bytes name) (rq_fields rq)\<rparr>"

text \<open>\<open>values[i]\<close>: behind the end an empty string is appended, and that one is meant.\<close>

definition value_index :: "byte list list \<Rightarrow> nat \<Rightarrow> byte list list \<times> byte list" where
  "value_index vs i = (if length vs \<le> i then (vs @ [[]], []) else (vs, vs ! i))"

definition websocket_response :: "('d, 'f) http_server \<Rightarrow> byte list \<Rightarrow> byte list \<Rightarrow> http_response res" where
  "websocket_response sv protocol key =
     bindR (sv_sha1 sv (key @ bytes ''258EAFA5-E914-47DA-95CA-C5AB0DC85B11'')) (\<lambda>message_digest.
       Inr (set_field ''Sec-WebSocket-Accept'' (sv_encode_block sv message_digest)
           (set_field ''Sec-WebSocket-Extensions'' []
           (set_field ''Sec-WebSocket-Version'' (bytes ''13'')
           (set_field ''Sec-Websocket-Protocol'' protocol
           (set_field ''Connection'' (bytes ''upgrade'')
           (set_field ''Upgrade'' (bytes ''websocket'')
             ((HttpResponse_default (sv_garbage sv))\<lparr>rs_status_code := bytes ''101''\<rparr>))))))))"

definition run_upgrader :: "('d, 'f) http_server \<Rightarrow> nat \<Rightarrow> ('d, unit) conn_prog" where
  "run_upgrader sv i w =
     Some (Inr (), w\<lparr>cw_io := sv_on_connection sv i (cw_io w), cw_upgraded := cw_upgraded w @ [i]\<rparr>)"

text \<open>
  The inner loop counts the \<open>i\<close> of the outer loop up to the number of upgraders, so the turns of the outer
  loop after the first do nothing. \<open>n\<close> upgraders are left; the state is the protocols, an array that
  the request shares, and whether there was an upgrade.
\<close>

fun upgrade_loop ::
  "('d, 'f) http_server \<Rightarrow> 'd http_request \<Rightarrow> nat \<Rightarrow> nat \<Rightarrow> byte list list \<times> bool \<Rightarrow> ('d, byte list list \<times> bool) conn_prog" where
  "upgrade_loop sv rq i 0 st = liftW (Inr st)"
| "upgrade_loop sv rq i (Suc n) (protocols, upgraded) =
     (case value_index protocols i of (protocols', protocol) \<Rightarrow>
        let up = sv_upgraders sv ! i
        in if up_path up = url_path (rq_url rq) \<and> protocol = up_protocol up
        then bindW (liftW (websocket_response sv protocol (snd (value_index (values_of ''sec-websocket-key'' rq) 0)))) (\<lambda>response.
          bindW (writeResponse sv (Some response)) (\<lambda>_.
          bindW (run_upgrader sv i) (\<lambda>_.
          upgrade_loop sv rq (Suc i) n (protocols', True))))
        else upgrade_loop sv rq (Suc i) n (protocols', upgraded))"

definition handleWebsocketRequest :: "('d, 'f) http_server \<Rightarrow> 'd http_request \<Rightarrow> ('d, bool \<times> 'd http_request) conn_prog" where
  "handleWebsocketRequest sv rq =
     (let rq1 = with_field ''upgrade'' rq in
      if bytes ''websocket'' \<in> set (values_of ''upgrade'' rq1)
      then let rq2 = with_field ''connection'' rq1 in
        if bytes ''upgrade'' \<in> set (values_of ''connection'' rq2)
        then let rq3 = with_field ''sec-websocket-protocol'' rq2;
                 protocols = values_of ''sec-websocket-protocol'' rq3
          in if protocols = [] then liftW (Inr (False, rq3))
          else bindW (upgrade_loop sv rq3 0 (length (sv_upgraders sv)) (protocols, False)) (\<lambda>(protocols', upgraded).
            liftW (Inr (upgraded, rq3\<lparr>rq_fields := (rq_fields rq3)(bytes ''sec-websocket-protocol'' \<mapsto> protocols')\<rparr>)))
        else liftW (Inr (False, rq2))
      else liftW (Inr (False, rq1)))"

section \<open>Dispatching\<close>

fun request_filtered :: "('d http_request \<Rightarrow> 'd http_request res) list \<Rightarrow> 'd http_request \<Rightarrow> 'd http_request res" where
  "request_filtered [] rq = Inr rq"
| "request_filtered (f # fs) rq = bindR (f rq) (request_filtered fs)"

fun response_filtered :: "response_filter list \<Rightarrow> http_response option \<Rightarrow> http_response option res" where
  "response_filtered [] r = Inr r"
| "response_filtered (f # fs) r = bindR (f r) (response_filtered fs)"

text \<open>
  \<open>find\<close> in the table: each comparison is on a copy of the item looked for, which is made once per search;
  it may insert a content type into the items of the table.
\<close>

fun find_item :: "'d processor_item list \<Rightarrow> 'd http_request \<Rightarrow> nat \<Rightarrow> nat option res \<times> 'd processor_item list" where
  "find_item [] x i = (Inr None, [])"
| "find_item (item # items) x i =
     (case HttpRequest_equal (pi_request item) x of
        (Inl e, this, _) \<Rightarrow> (Inl e, item\<lparr>pi_request := this\<rparr> # items)
      | (Inr True, this, _) \<Rightarrow> (Inr (Some i), item\<lparr>pi_request := this\<rparr> # items)
      | (Inr False, this, x') \<Rightarrow> apsnd ((#) (item\<lparr>pi_request := this\<rparr>)) (find_item items x' (Suc i)))"

definition find_handler :: "'d http_request \<Rightarrow> ('d, nat option) conn_prog" where
  "find_handler rq w =
     (case find_item (cw_request_map w) rq 0 of (r, items) \<Rightarrow> Some (r, w\<lparr>cw_request_map := items\<rparr>))"

text \<open>
  The table is searched by \<open>contains\<close> and again by the subscript. Only the response filters of the item get a null response; then an
  empty response takes its place.
\<close>

definition requestDispatcher :: "('d, 'f) http_server \<Rightarrow> 'd http_request \<Rightarrow> ('d, http_response option) conn_prog" where
  "requestDispatcher sv rq =
     bindW (liftW (request_filtered (sv_request_filters sv) rq)) (\<lambda>rq1.
     bindW (find_handler rq1) (\<lambda>found.
     bindW (case found of
              None \<Rightarrow> liftW (Inr None)
            | Some _ \<Rightarrow> bindW (find_handler rq1) (\<lambda>found' w.
                case found' of
                  None \<Rightarrow> Some (Inl Undefined, w)
                | Some i \<Rightarrow>
                    let item = cw_request_map w ! i in
                    liftW (bindR (request_filtered (pi_request_filters item) rq1) (\<lambda>rq2.
                      bindR (pi_processor item rq2) (\<lambda>(rq3, response).
                        response_filtered (pi_response_filters item) response))) w)) (\<lambda>response.
     liftW (response_filtered (sv_response_filters sv)
       (case response of None \<Rightarrow> Some (HttpResponse_default (sv_garbage sv)) | Some r \<Rightarrow> Some r)))))"

section \<open>A connection\<close>

definition processRequest :: "('d, 'f) http_server \<Rightarrow> 'd http_request \<Rightarrow> ('d, unit) conn_prog" where
  "processRequest sv rq =
     bindW (handleStaticRequest sv rq) (\<lambda>response.
     if response \<noteq> None then writeResponse sv response
     else bindW (handleWebsocketRequest sv rq) (\<lambda>(upgraded, rq1).
       if upgraded then liftW (Inr ())
       else bindW (case sv_processor sv of
              None \<Rightarrow> requestDispatcher sv rq1
            | Some processor \<Rightarrow> liftW (bindR (processor rq1) (\<lambda>(rq2, r). Inr r))) (\<lambda>response.
         if response = None then liftW (Inl (Runtime_Error ''HttpResponse object is a nullptr.''))
         else writeResponse sv response)))"

definition read_request :: "('d, 'f) http_server \<Rightarrow> ('d, 'd http_request) conn_prog" where
  "read_request sv w =
     map_option (\<lambda>(r, io). (r, w\<lparr>cw_io := io\<rparr>)) (HttpRequest_of (sv_ops sv) (sv_create sv) (cw_io w))"

text \<open>
  \<open>run\<close> behind the creation of the stream, in the build without OpenSSL streams: a request is read from
  the stream \<open>cw_io\<close> and answered, what is thrown is caught. Undefined behaviour is no exception that
  could be caught.
\<close>

definition serve_stream :: "('d, 'f) http_server \<Rightarrow> ('d, unit) conn_prog" where
  "serve_stream sv w =
     (case bindW (read_request sv) (processRequest sv) w of
        None \<Rightarrow> None
      | Some (Inr _, w') \<Rightarrow> Some (Inr (), w')
      | Some (Inl e, w') \<Rightarrow>
          if e = Undefined then Some (Inl Undefined, w')
          else if sv_tls_enabled sv then Some (Inr (), w')
          else writeResponse sv (Some (HttpResponse_default (sv_garbage sv))) w')"

text \<open>
  The whole of \<open>run\<close>: \<open>eio\<close> is default constructed and then assigned a temporary stream over the
  descriptor. If the temporary cannot be made, the exception is caught with \<open>io\<close> not initialised, and
  an answer would be written through it; otherwise the connection is served if \<open>eio\<close> is intact. \<open>eio\<close> is
  destroyed at the end.
\<close>

definition connection_run :: "('d, 'f) http_server \<Rightarrow> int \<Rightarrow> block_store \<Rightarrow> ('d, unit) conn_prog" where
  "connection_run sv fd h w =
     (case ByteEStream_default h of (eio, h1) \<Rightarrow>
        case assign_fd_stream eio fd h1 of
          Inl e \<Rightarrow>
            if e \<noteq> Undefined \<and> sv_tls_enabled sv
            then liftW (bindR (ByteEStream_destroy eio h1) (\<lambda>_. Inr ())) w
            else Some (Inl Undefined, w)
        | Inr (eio', h2) \<Rightarrow>
            if stream_intact eio' h2
            then bindW (serve_stream sv) (\<lambda>_. liftW (bindR (ByteEStream_destroy eio' h2) (\<lambda>_. Inr ()))) w
            else Some (Inl Undefined, w))"

section \<open>What a run leaves behind\<close>

text \<open>
  \<open>leaves Q o' w\<close>: the run returned, and \<open>Q r ts us\<close> holds of its result, the texts it wrote and the
  upgraders it ran.
\<close>

definition leaves :: "('a res \<Rightarrow> byte list list \<Rightarrow> nat list \<Rightarrow> bool) \<Rightarrow> ('a res \<times> 'd connection_world) option \<Rightarrow>
    'd connection_world \<Rightarrow> bool" where
  "leaves Q o' w \<longleftrightarrow> (\<exists>r w' ts us. o' = Some (r, w') \<and> cw_written w' = cw_written w @ ts \<and>
     cw_upgraded w' = cw_upgraded w @ us \<and> Q r ts us)"

lemma leavesI:
  "o' = Some (r, w') \<Longrightarrow> cw_written w' = cw_written w @ ts \<Longrightarrow> cw_upgraded w' = cw_upgraded w @ us \<Longrightarrow> Q r ts us \<Longrightarrow>
    leaves Q o' w"
  unfolding leaves_def by blast

lemma leaves_mono: "leaves Q o' w \<Longrightarrow> (\<And>r ts us. Q r ts us \<Longrightarrow> Q' r ts us) \<Longrightarrow> leaves Q' o' w"
  unfolding leaves_def by blast

lemma leaves_bind:
  assumes "leaves P (m w) w"
    and "\<And>e ts us. P (Inl e) ts us \<Longrightarrow> Q (Inl e) ts us"
    and "\<And>x w' ts us. m w = Some (Inr x, w') \<Longrightarrow> P (Inr x) ts us \<Longrightarrow> leaves (\<lambda>r ts' us'. Q r (ts @ ts') (us @ us')) (f x w') w'"
  shows "leaves Q (bindW m f w) w"
proof -
  from assms(1) obtain r w' ts us where m: "m w = Some (r, w')" "cw_written w' = cw_written w @ ts"
    "cw_upgraded w' = cw_upgraded w @ us" "P r ts us" unfolding leaves_def by blast
  show ?thesis
  proof (cases r)
    case (Inl e)
    then show ?thesis using m assms(2) by (intro leavesI [of _ "Inl e" w' w ts us]) (auto simp: bindW_def)
  next
    case (Inr x)
    from assms(3) [of x w' ts us] m Inr obtain r2 w2 ts2 us2 where "f x w' = Some (r2, w2)"
      "cw_written w2 = cw_written w' @ ts2" "cw_upgraded w2 = cw_upgraded w' @ us2" "Q r2 (ts @ ts2) (us @ us2)"
      unfolding leaves_def by blast
    then show ?thesis using m Inr by (intro leavesI [of _ r2 w2 w "ts @ ts2" "us @ us2"]) (auto simp: bindW_def)
  qed
qed

lemma leaves_lift: "Q r [] [] \<Longrightarrow> leaves Q (liftW r w) w"
  by (intro leavesI [of _ r w w "[]" "[]"]) (simp_all add: liftW_def)

definition written_once :: "unit res \<Rightarrow> byte list list \<Rightarrow> nat list \<Rightarrow> bool" where
  "written_once r ts us \<longleftrightarrow> us = [] \<and> (case r of Inr _ \<Rightarrow> \<exists>t. ts = [t] | Inl e \<Rightarrow> ts = [])"

text \<open>Runs that write nothing.\<close>

abbreviation silent :: "('a res \<times> 'd connection_world) option \<Rightarrow> 'd connection_world \<Rightarrow> bool" where
  "silent \<equiv> leaves (\<lambda>r ts us. ts = [] \<and> us = [])"

lemma silent_bind:
  assumes "silent (m w) w" "\<And>x w'. m w = Some (Inr x, w') \<Longrightarrow> silent (f x w') w'"
  shows "silent (bindW m f w) w"
  by (rule leaves_bind [where m = m and w = w and P = "\<lambda>r ts us. ts = [] \<and> us = []"]) (use assms in auto)

lemma silent_then:
  assumes "silent (m w) w" "\<And>e. Q (Inl e) [] []" "\<And>x w'. m w = Some (Inr x, w') \<Longrightarrow> leaves Q (f x w') w'"
  shows "leaves Q (bindW m f w) w"
  by (rule leaves_bind [where m = m and w = w and P = "\<lambda>r ts us. ts = [] \<and> us = []"]) (use assms in auto)

lemma silent_lift: "silent (liftW r w) w"
  by (rule leaves_lift) simp

lemma write_leaves:
  "leaves written_once (writeResponse sv response w) w"
proof (cases response)
  case None
  then show ?thesis by (intro leavesI [of _ "Inl Undefined" w w "[]" "[]"]) (simp_all add: writeResponse_def written_once_def)
next
  case (Some rs)
  let ?t = "HttpResponse_toString (sv_float_ops sv) (sv_order sv (rs_fields rs)) rs"
  have "?t \<noteq> None"
    using format_returns [of "[Long_Arg (of_nat (length (rs_content rs)))]" "sv_float_ops sv" "bytes ''Content-Length: {d}''"]
    by (auto simp: HttpResponse_toString_def split: option.splits)
  then obtain r where r: "?t = Some r" by blast
  show ?thesis
  proof (cases r)
    case (Inl e)
    then show ?thesis using r Some by (intro leavesI [of _ "Inl e" w w "[]" "[]"]) (simp_all add: writeResponse_def written_once_def)
  next
    case (Inr t)
    then show ?thesis using r Some
      by (intro leavesI [of _ "Inr ()" "w\<lparr>cw_written := cw_written w @ [t]\<rparr>" w "[t]" "[]"]) (simp_all add: writeResponse_def written_once_def)
  qed
qed

lemma static_silent: "silent (handleStaticRequest sv rq w) w"
proof -
  have "silent (Some (r, w\<lparr>cw_static_paths := p\<rparr>)) w" for r :: "http_response option res" and p
    by (rule leavesI [of _ r "w\<lparr>cw_static_paths := p\<rparr>" w "[]" "[]"]) simp_all
  then show ?thesis unfolding handleStaticRequest_def Let_def liftW_def by simp
qed

lemma find_silent: "silent (find_handler rq w) w"
  by (cases "find_item (cw_request_map w) rq 0") (auto simp: find_handler_def leaves_def)

lemma dispatcher_silent: "silent (requestDispatcher sv rq w) w"
  unfolding requestDispatcher_def
  by (intro silent_bind silent_lift find_silent)
    (auto split: option.splits simp: Let_def silent_lift find_silent intro!: silent_bind
      intro: leavesI [of _ "Inl Undefined" _ _ "[]" "[]"])

lemma read_leaves:
  assumes "remaining (cw_io w) xs" "calm xs"
  shows "silent (read_request sv w) w"
proof -
  have "ok (\<lambda>_ ys. suffix ys xs) (HttpRequest_of (sv_ops sv) (sv_create sv) (cw_io w))"
    using calm_request assms unfolding calm_ends_def by blast
  then obtain r io where "HttpRequest_of (sv_ops sv) (sv_create sv) (cw_io w) = Some (r, io)" unfolding ok_def by blast
  then show ?thesis
    by (intro leavesI [of _ r "w\<lparr>cw_io := io\<rparr>" w "[]" "[]"]) (simp_all add: read_request_def)
qed

section \<open>Which upgraders run\<close>

definition protocol_at :: "byte list list \<Rightarrow> nat \<Rightarrow> byte list" where
  "protocol_at vs i = (if i < length vs then vs ! i else [])"

definition pairs_with :: "('d, 'f) http_server \<Rightarrow> 'd http_request \<Rightarrow> byte list list \<Rightarrow> nat \<Rightarrow> bool" where
  "pairs_with sv rq vs i \<longleftrightarrow> up_path (sv_upgraders sv ! i) = url_path (rq_url rq) \<and>
     protocol_at vs i = up_protocol (sv_upgraders sv ! i)"

definition upgraders_for :: "('d, 'f) http_server \<Rightarrow> 'd http_request \<Rightarrow> nat list" where
  "upgraders_for sv rq =
     (let vs = values_of ''sec-websocket-protocol'' rq in
      if bytes ''websocket'' \<in> set (values_of ''upgrade'' rq) \<and> bytes ''upgrade'' \<in> set (values_of ''connection'' rq) \<and> vs \<noteq> []
      then filter (pairs_with sv rq vs) [0..<length (sv_upgraders sv)] else [])"

lemma protocol_at_index: "snd (value_index vs i) = protocol_at vs i" "protocol_at (fst (value_index vs i)) j = protocol_at vs j"
  by (auto simp: value_index_def protocol_at_def nth_append)

definition upgrade_result :: "nat list \<Rightarrow> bool \<Rightarrow> (byte list list \<times> bool) res \<Rightarrow> byte list list \<Rightarrow> nat list \<Rightarrow> bool" where
  "upgrade_result js upgraded r ts us \<longleftrightarrow> length ts = length us \<and>
     (case r of Inl e \<Rightarrow> True | Inr (vs, up) \<Rightarrow> us = js \<and> up = (upgraded \<or> us \<noteq> []))"

lemma upgrade_result_Cons:
  "upgrade_result js True r ts us \<Longrightarrow> upgrade_result (i # js) upgraded r (t # ts) (i # us)"
  by (auto simp: upgrade_result_def split: sum.splits)

lemma upgrade_one:
  assumes "\<And>w'. leaves (upgrade_result js True) (f w') w'"
  shows "leaves (upgrade_result (i # js) upgraded)
    (bindW (liftW m) (\<lambda>response. bindW (writeResponse sv (Some response)) (\<lambda>_. bindW (run_upgrader sv i) (\<lambda>_. f))) w) w"
proof (rule leaves_bind [where P = "\<lambda>r ts us. ts = [] \<and> us = []", OF silent_lift])
  show "upgrade_result (i # js) upgraded (Inl e) ts us" if "ts = [] \<and> us = []" for e ts us
    using that by (simp add: upgrade_result_def)
  fix response w1 and ts :: "byte list list" and us :: "nat list"
  assume e: "ts = [] \<and> us = []"
  show "leaves (\<lambda>r ts' us'. upgrade_result (i # js) upgraded r (ts @ ts') (us @ us'))
      (bindW (writeResponse sv (Some response)) (\<lambda>_. bindW (run_upgrader sv i) (\<lambda>_. f)) w1) w1"
  proof (rule leaves_bind [where P = written_once and m = "writeResponse sv (Some response)" and w = w1])
    show "leaves written_once (writeResponse sv (Some response) w1) w1" by (rule write_leaves)
    show "upgrade_result (i # js) upgraded (Inl e) (ts @ ts') (us @ us')"
      if "written_once (Inl e) ts' us'" for e ts' us'
      using that e by (simp add: upgrade_result_def written_once_def)
    fix x w2 and ts' :: "byte list list" and us' :: "nat list"
    assume "written_once (Inr x) ts' us'"
    then obtain t where t: "ts' = [t]" and e': "us' = []" by (auto simp: written_once_def)
    from assms obtain r w3 ts3 us3 where f: "f (w2\<lparr>cw_io := sv_on_connection sv i (cw_io w2), cw_upgraded := cw_upgraded w2 @ [i]\<rparr>) =
        Some (r, w3)" "cw_written w3 = cw_written w2 @ ts3" "cw_upgraded w3 = cw_upgraded w2 @ i # us3" "upgrade_result js True r ts3 us3"
      unfolding leaves_def by fastforce
    show "leaves (\<lambda>r ts'' us''. upgrade_result (i # js) upgraded r (ts @ (ts' @ ts'')) (us @ (us' @ us'')))
        (bindW (run_upgrader sv i) (\<lambda>_. f) w2) w2"
      using f e e' t upgrade_result_Cons [OF f(4), of i upgraded t]
      by (intro leavesI [of _ r w3 w2 ts3 "i # us3"]) (auto simp: bindW_def run_upgrader_def)
  qed
qed

lemma upgrade_loop_leaves:
  assumes "\<forall>j. protocol_at vs j = protocol_at vs0 j"
  shows "leaves (upgrade_result (filter (pairs_with sv rq vs0) [i..<i + n]) upgraded) (upgrade_loop sv rq i n (vs, upgraded) w) w"
  using assms
proof (induction n arbitrary: i vs upgraded w)
  case 0
  then show ?case by (auto simp: upgrade_result_def intro: leaves_lift)
next
  case (Suc n)
  obtain vs' protocol where v: "value_index vs i = (vs', protocol)" by (cases "value_index vs i") auto
  then have p: "protocol = protocol_at vs0 i" "\<forall>j. protocol_at vs' j = protocol_at vs0 j"
    using protocol_at_index [of vs i] Suc.prems by (metis snd_conv, metis fst_conv)
  obtain js where js: "[Suc i..<Suc i + n] = js" by blast
  have upt: "[i..<i + Suc n] = i # js" unfolding js [symmetric] by (simp add: upt_conv_Cons)
  have "up_path (sv_upgraders sv ! i) = url_path (rq_url rq) \<and> protocol = up_protocol (sv_upgraders sv ! i) \<longleftrightarrow>
      pairs_with sv rq vs0 i" using p(1) by (simp add: pairs_with_def)
  note step = upgrade_loop.simps(2) [of sv rq i n vs upgraded, unfolded v prod.case Let_def this]
  show ?case
  proof (cases "pairs_with sv rq vs0 i")
    case True
    have "leaves (upgrade_result (filter (pairs_with sv rq vs0) js) True) (upgrade_loop sv rq (Suc i) n (vs', True) w') w'" for w'
      unfolding js [symmetric] by (rule Suc.IH [OF p(2)])
    from upgrade_one [where f = "upgrade_loop sv rq (Suc i) n (vs', True)", OF this]
    show ?thesis using True unfolding upt step by simp
  next
    case False
    have "leaves (upgrade_result (filter (pairs_with sv rq vs0) js) upgraded)
        (upgrade_loop sv rq (Suc i) n (vs', upgraded) w) w" unfolding js [symmetric] by (rule Suc.IH [OF p(2)])
    then show ?thesis using False unfolding upt step by simp
  qed
qed

lemma values_with [simp]: "values_of name (with_field other rq) = values_of name rq"
  by (auto simp: values_of_def with_field_def field_at_def split: option.splits)

lemma url_with [simp]: "rq_url (with_field name rq) = rq_url rq"
  "rq_backwards_path (with_field name rq) = rq_backwards_path rq" "rq_method (with_field name rq) = rq_method rq"
  by (simp_all add: with_field_def)

definition websocket_result :: "nat list \<Rightarrow> (bool \<times> 'd http_request) res \<Rightarrow> byte list list \<Rightarrow> nat list \<Rightarrow> bool" where
  "websocket_result js r ts us \<longleftrightarrow> length ts = length us \<and>
     (case r of Inl e \<Rightarrow> True | Inr (up, rq) \<Rightarrow> us = js \<and> up = (us \<noteq> []))"

lemma websocket_leaves:
  "leaves (websocket_result (upgraders_for sv rq)) (handleWebsocketRequest sv rq w) w"
proof -
  let ?vs = "values_of ''sec-websocket-protocol'' rq"
  let ?rq = "with_field ''sec-websocket-protocol'' (with_field ''connection'' (with_field ''upgrade'' rq))"
  let ?n = "length (sv_upgraders sv)"
  have none: "leaves (websocket_result []) (liftW (Inr (False, rq')) w) w" for rq' :: "'a http_request"
    by (rule leaves_lift) (simp add: websocket_result_def)
  have pw: "pairs_with sv ?rq = pairs_with sv rq" by (simp add: pairs_with_def fun_eq_iff)
  have "leaves (websocket_result (filter (pairs_with sv rq ?vs) [0..<?n]))
      (bindW (upgrade_loop sv ?rq 0 ?n (?vs, False)) (\<lambda>(protocols', upgraded). liftW (Inr (upgraded, g protocols'))) w) w"
    for g :: "byte list list \<Rightarrow> 'a http_request"
  proof (rule leaves_bind [where P = "upgrade_result (filter (pairs_with sv rq ?vs) [0..<?n]) False" and w = w])
    show "leaves (upgrade_result (filter (pairs_with sv rq ?vs) [0..<?n]) False) (upgrade_loop sv ?rq 0 ?n (?vs, False) w) w"
      using upgrade_loop_leaves [of ?vs ?vs sv ?rq 0 ?n False w] pw by simp
    fix x w' ts us
    assume "upgrade_result (filter (pairs_with sv rq ?vs) [0..<?n]) False (Inr x) ts us"
    then show "leaves (\<lambda>r ts' us'. websocket_result (filter (pairs_with sv rq ?vs) [0..<?n]) r (ts @ ts') (us @ us'))
        ((case x of (protocols', upgraded) \<Rightarrow> liftW (Inr (upgraded, g protocols'))) w') w'"
      by (cases x) (auto simp: upgrade_result_def websocket_result_def intro: leaves_lift)
  qed (simp add: upgrade_result_def websocket_result_def)
  then show ?thesis using none by (simp add: handleWebsocketRequest_def upgraders_for_def Let_def)
qed

section \<open>A request is answered once\<close>

definition process_result :: "unit res \<Rightarrow> byte list list \<Rightarrow> nat list \<Rightarrow> bool" where
  "process_result r ts us \<longleftrightarrow>
     (case r of
        Inr _ \<Rightarrow> if us = [] then length ts = 1 else length ts = length us
      | Inl e \<Rightarrow> length ts = length us)"

lemma write_process: "leaves process_result (writeResponse sv response w) w"
  by (rule leaves_mono [OF write_leaves]) (auto simp: process_result_def written_once_def split: sum.splits)

lemma handled_silent:
  "silent ((case sv_processor sv of None \<Rightarrow> requestDispatcher sv rq
      | Some processor \<Rightarrow> liftW (bindR (processor rq) (\<lambda>(rq2, r). Inr r))) w) w"
  by (auto split: option.splits intro: dispatcher_silent silent_lift)

lemma process_leaves:
  fixes rq :: "'d http_request"
  shows "leaves process_result (processRequest sv rq w) w"
  unfolding processRequest_def
proof (rule silent_then)
  show "silent (handleStaticRequest sv rq w) w" by (rule static_silent)
  fix response w1
  let ?handled = "\<lambda>rq1. case sv_processor sv of None \<Rightarrow> requestDispatcher sv rq1
      | Some processor \<Rightarrow> liftW (bindR (processor rq1) (\<lambda>(rq2, r). Inr r))"
  let ?answer = "\<lambda>response. if response = None then liftW (Inl (Runtime_Error ''HttpResponse object is a nullptr.''))
      else writeResponse sv response"
  have written: "leaves process_result (?answer response w') w'" for response w'
    using write_process by (auto simp: process_result_def intro: leaves_lift)
  have rest: "leaves process_result (bindW (?handled rq1) ?answer w') w'" for rq1 w'
    by (rule silent_then, rule handled_silent) (simp_all only: written, simp add: process_result_def)
  have "leaves process_result (bindW (handleWebsocketRequest sv rq) (\<lambda>(upgraded, rq1).
       if upgraded then liftW (Inr ()) else bindW (?handled rq1) ?answer) w1) w1"
  proof (rule leaves_bind [where P = "websocket_result (upgraders_for sv rq)" and w = w1 and m = "handleWebsocketRequest sv rq"])
    show "leaves (websocket_result (upgraders_for sv rq)) (handleWebsocketRequest sv rq w1) w1" by (rule websocket_leaves)
    show "process_result (Inl e) ts us" if "websocket_result (upgraders_for sv rq) (Inl e) ts us" for e ts us
      using that by (simp add: websocket_result_def process_result_def)
    fix x :: "bool \<times> 'd http_request" and w2 and ts :: "byte list list" and us :: "nat list"
    assume r: "websocket_result (upgraders_for sv rq) (Inr x) ts us"
    obtain upgraded rq1 where x: "x = (upgraded, rq1)" by (cases x)
    show "leaves (\<lambda>r ts' us'. process_result r (ts @ ts') (us @ us'))
        ((case x of (upgraded, rq1) \<Rightarrow> if upgraded then liftW (Inr ()) else bindW (?handled rq1) ?answer) w2) w2"
    proof (cases upgraded)
      case True
      then show ?thesis using r x by (auto simp: websocket_result_def process_result_def intro: leaves_lift)
    next
      case False
      then have "us = []" "ts = []" using r x by (auto simp: websocket_result_def)
      then show ?thesis using False x rest by simp
    qed
  qed
  then show "leaves process_result
      ((if response \<noteq> None then writeResponse sv response
        else bindW (handleWebsocketRequest sv rq) (\<lambda>(upgraded, rq1).
          if upgraded then liftW (Inr ()) else bindW (?handled rq1) ?answer)) w1) w1"
    by (auto intro: write_process)
qed (simp add: process_result_def)

lemma zero_text: "\<exists>t. numToStringSigned 0 default_opts = Inr t"
proof -
  have b: "base_ok default_opts" "fo_width default_opts = 255" by (simp_all add: base_ok_def default_opts_def UINT8_MAX_def)
  have "length (digits_of default_opts 0) \<le> 20" by (rule digits_bound [OF b(1)]) simp
  with numToString_all [OF b(1), of 0] b(2) obtain t where "numToString 0 default_opts = Inr t" by auto
  then show ?thesis by (simp add: numToStringSigned_def)
qed

lemma default_written:
  "\<exists>t. writeResponse sv (Some (HttpResponse_default g)) w = Some (Inr (), w\<lparr>cw_written := cw_written w @ [t]\<rparr>)"
proof -
  obtain t where "numToStringSigned (of_nat (length (rs_content (HttpResponse_default g)))) default_opts = Inr t"
    using zero_text by (auto simp: HttpResponse_default_def)
  from response_text [OF this, of "sv_float_ops sv" "sv_order sv (rs_fields (HttpResponse_default g))"]
  show ?thesis by (auto simp: writeResponse_def)
qed

definition run_result :: "bool \<Rightarrow> unit res \<Rightarrow> byte list list \<Rightarrow> nat list \<Rightarrow> bool" where
  "run_result tls r ts us \<longleftrightarrow>
     (case r of
        Inl e \<Rightarrow> e = Undefined
      | Inr _ \<Rightarrow> length ts \<le> Suc (length us) \<and> (tls \<or> ts \<noteq> []))"

lemma run_leaves:
  assumes "remaining (cw_io w) xs" "calm xs"
  shows "leaves (run_result (sv_tls_enabled sv)) (serve_stream sv w) w"
proof -
  have "leaves process_result (bindW (read_request sv) (processRequest sv) w) w"
    by (rule silent_then, rule read_leaves [OF assms]) (simp_all add: process_result_def process_leaves)
  then obtain r w' ts us where p: "bindW (read_request sv) (processRequest sv) w = Some (r, w')"
    "cw_written w' = cw_written w @ ts" "cw_upgraded w' = cw_upgraded w @ us" "process_result r ts us"
    unfolding leaves_def by blast
  show ?thesis
  proof (cases r)
    case (Inr u)
    then show ?thesis using p by (intro leavesI [of _ "Inr ()" w' w ts us])
        (auto simp: serve_stream_def run_result_def process_result_def split: if_splits)
  next
    case (Inl e)
    obtain t where t: "writeResponse sv (Some (HttpResponse_default (sv_garbage sv))) w' =
        Some (Inr (), w'\<lparr>cw_written := cw_written w' @ [t]\<rparr>)" using default_written by blast
    show ?thesis
    proof (cases "e = Undefined")
      case True
      then show ?thesis using p Inl by (intro leavesI [of _ "Inl Undefined" w' w ts us])
          (auto simp: serve_stream_def run_result_def)
    next
      case False
      show ?thesis
      proof (cases "sv_tls_enabled sv")
        case True
        then show ?thesis using p Inl False by (intro leavesI [of _ "Inr ()" w' w ts us])
            (auto simp: serve_stream_def run_result_def process_result_def)
      next
        case no_tls: False
        then show ?thesis using p Inl False t
          by (intro leavesI [of _ "Inr ()" "w'\<lparr>cw_written := cw_written w' @ [t]\<rparr>" w "ts @ [t]" us])
            (auto simp: serve_stream_def run_result_def process_result_def)
      qed
    qed
  qed
qed

section \<open>Where the table is searched in vain\<close>

definition path_handler :: "'d processor_item \<Rightarrow> bool" where
  "path_handler item \<longleftrightarrow> (\<exists>g path method. pi_request item = HttpRequest_of_path g path method [] \<and> slash \<in> set path)"

lemma find_in_vain:
  assumes "rq_backwards_path rq = []" "slash \<notin> set (rq_method rq)" "\<forall>item \<in> set items. path_handler item"
  shows "find_item items rq i = (Inr None, items)"
  using assms(3)
proof (induction items arbitrary: i)
  case (Cons item items)
  then obtain g path meth where h: "pi_request item = HttpRequest_of_path g path meth []" "slash \<in> set path"
    by (auto simp: path_handler_def)
  have "rev path @ meth \<noteq> rq_method rq" using h(2) assms(2) by (metis UnI1 set_append set_rev)
  then have "HttpRequest_equal (pi_request item) rq = (Inr False, pi_request item, rq)"
    using assms(1) h(1) by (simp add: HttpRequest_equal_def HttpRequest_of_path_def field_at_def Let_def)
  then show ?case using Cons by simp
qed simp

lemma filtered_keeps:
  assumes "\<forall>f \<in> set fs. \<forall>r. \<exists>r'. f r = Inr r' \<and> rq_method r' = rq_method r \<and> rq_backwards_path r' = rq_backwards_path r"
  shows "\<exists>rq'. request_filtered fs rq = Inr rq' \<and> rq_method rq' = rq_method rq \<and>
    rq_backwards_path rq' = rq_backwards_path rq"
  using assms
proof (induction fs arbitrary: rq)
  case (Cons f fs)
  then obtain r where r: "f rq = Inr r" "rq_method r = rq_method rq" "rq_backwards_path r = rq_backwards_path rq"
    by (meson list.set_intros(1))
  with Cons.IH [of r] Cons.prems show ?case by auto
qed simp

lemma loop_none:
  assumes "\<forall>j. protocol_at vs j = protocol_at vs0 j" "\<forall>j \<in> {i..<i + n}. \<not> pairs_with sv rq vs0 j"
  shows "\<exists>vs'. upgrade_loop sv rq i n (vs, up) w = Some (Inr (vs', up), w)"
  using assms
proof (induction n arbitrary: i vs)
  case 0
  then show ?case by (simp add: liftW_def)
next
  case (Suc n)
  obtain vs' protocol where v: "value_index vs i = (vs', protocol)" by (cases "value_index vs i") auto
  then have p: "protocol = protocol_at vs0 i" "\<forall>j. protocol_at vs' j = protocol_at vs0 j"
    using protocol_at_index [of vs i] Suc.prems(1) by (metis snd_conv, metis fst_conv)
  have "\<not> pairs_with sv rq vs0 i" "\<forall>j \<in> {Suc i..<Suc i + n}. \<not> pairs_with sv rq vs0 j" using Suc.prems(2) by auto
  then show ?case using Suc.IH [OF p(2)] v p(1) by (auto simp: pairs_with_def Let_def)
qed

lemma websocket_none:
  assumes "upgraders_for sv rq = []"
  shows "\<exists>rq'. handleWebsocketRequest sv rq w = Some (Inr (False, rq'), w) \<and>
    rq_backwards_path rq' = rq_backwards_path rq \<and> rq_method rq' = rq_method rq"
proof -
  let ?vs = "values_of ''sec-websocket-protocol'' rq"
  let ?rq = "with_field ''sec-websocket-protocol'' (with_field ''connection'' (with_field ''upgrade'' rq))"
  have pw: "pairs_with sv ?rq = pairs_with sv rq" by (simp add: pairs_with_def fun_eq_iff)
  show ?thesis
  proof (cases "bytes ''websocket'' \<in> set (values_of ''upgrade'' rq) \<and> bytes ''upgrade'' \<in> set (values_of ''connection'' rq) \<and> ?vs \<noteq> []")
    case True
    then have "\<forall>j \<in> {0..<0 + length (sv_upgraders sv)}. \<not> pairs_with sv ?rq ?vs j"
      using assms pw by (auto simp: upgraders_for_def Let_def filter_empty_conv)
    from loop_none [OF _ this, of ?vs False w] obtain vs'
      where "upgrade_loop sv ?rq 0 (length (sv_upgraders sv)) (?vs, False) w = Some (Inr (vs', False), w)" by auto
    then show ?thesis using True
      by (simp add: handleWebsocketRequest_def Let_def bindW_def liftW_def)
  next
    case False
    then show ?thesis by (auto simp: handleWebsocketRequest_def Let_def liftW_def)
  qed
qed

text \<open>An empty response is written whatever the server is.\<close>

lemma status_written:
  "\<exists>t. HttpResponse_toString fl es ((HttpResponse_default g)\<lparr>rs_status_code := c\<rparr>) = Some (Inr t) \<and>
    take (9 + length c) t = bytes ''HTTP/1.1 '' @ c"
proof -
  obtain t where "numToStringSigned (of_nat (length (rs_content ((HttpResponse_default g)\<lparr>rs_status_code := c\<rparr>)))) default_opts = Inr t"
    using zero_text by (auto simp: HttpResponse_default_def)
  from response_text [OF this, of fl es] show ?thesis by (simp add: HttpResponse_default_def eval_nat_numeral)
qed

section \<open>Properties\<close>

text \<open>
  No connection is served as it is meant to be: the stream of a connection dangles after it has been
  assigned the temporary stream, so every run with a valid descriptor is undefined; with an invalid one
  it returns only if TLS is configured, without an answer.
\<close>

lemma connection_undefined:
  "connection_run sv fd h w = (if fd < 0 \<and> sv_tls_enabled sv then Some (Inr (), w) else Some (Inl Undefined, w))"
proof -
  obtain eio h1 where eio: "ByteEStream_default h = (eio, h1)" by fastforce
  show ?thesis
  proof (cases "fd < 0")
    case True
    then have "assign_fd_stream eio fd h1 = Inl (Runtime_Error ''Invalid file descriptor provided.'')"
      by (simp add: assign_fd_stream_def ByteEStream_fd_def)
    then show ?thesis using True default_destroyed [OF eio] by (auto simp: connection_run_def eio liftW_def)
  next
    case False
    with assign_fd_dangles [OF default_older [OF eio], of fd] show ?thesis
      by (auto simp: connection_run_def eio dangles_def)
  qed
qed

text \<open>
  C16. A stream is answered: \<open>serve_stream\<close>, the part of the run of a connection behind the creation of
  its stream, ends on every intact stream whose text cannot confuse the JSON parser, no exception
  leaves it but undefined behaviour, and, unless TLS is configured, at least one response is
  written: exactly one if there was no upgrade, and at most one more than there were upgrades.
  The stream the whole run makes is not intact: see \<open>connection_run\<close>.
\<close>

theorem connection_answered:
  assumes "remaining (cw_io w) xs" and "calm xs"
  shows "\<exists>r w' ts us. serve_stream sv w = Some (r, w') \<and> (r = Inr () \<or> r = Inl Undefined) \<and>
    cw_written w' = cw_written w @ ts \<and> cw_upgraded w' = cw_upgraded w @ us \<and>
    (r = Inr () \<and> \<not> sv_tls_enabled sv \<longrightarrow> ts \<noteq> [] \<and> length ts \<le> Suc (length us))"
proof -
  from run_leaves [OF assms, of sv] obtain r w' ts us where r: "serve_stream sv w = Some (r, w')"
    "cw_written w' = cw_written w @ ts" "cw_upgraded w' = cw_upgraded w @ us" "run_result (sv_tls_enabled sv) r ts us"
    unfolding leaves_def by blast
  have "r = Inr () \<or> r = Inl Undefined" using r(4) by (cases r) (simp_all add: run_result_def)
  moreover have "r = Inr () \<and> \<not> sv_tls_enabled sv \<longrightarrow> ts \<noteq> [] \<and> length ts \<le> Suc (length us)"
    using r(4) by (auto simp: run_result_def)
  ultimately show ?thesis using r(1-3) by blast
qed

text \<open>
  C19. Upgrades: of the protocols a request asks for, the one at a position is compared with the upgrader
  at the same position only, behind the last with the empty protocol; each upgrader that matches the
  path and that protocol runs once, in order, and the request counts as upgraded if one did.
\<close>

theorem upgrades_by_position:
  assumes "handleWebsocketRequest sv rq w = Some (Inr (upgraded, rq'), w')"
  shows "cw_upgraded w' = cw_upgraded w @ upgraders_for sv rq \<and> upgraded = (upgraders_for sv rq \<noteq> []) \<and>
    length (cw_written w') = length (cw_written w) + length (upgraders_for sv rq)"
  using websocket_leaves [of sv rq w] assms by (auto simp: leaves_def websocket_result_def)

text \<open>
  Only files of the table of static paths are read: whatever other files hold, serving a stream is the
  same. Handlers, filters and upgraders have no access to files in the model.
\<close>

theorem static_files_confined:
  fixes sv :: "('d, 'f) http_server"
  assumes "\<And>p t. cw_static_paths w p = Some t \<Longrightarrow> t \<noteq> [] \<Longrightarrow> f p = g p"
  shows "serve_stream (sv\<lparr>sv_file_read := f\<rparr>) w = serve_stream (sv\<lparr>sv_file_read := g\<rparr>) w"
proof -
  have writes: "writeResponse (sv\<lparr>sv_file_read := h\<rparr>) = writeResponse sv" for h
    by (intro ext) (auto simp: writeResponse_def split: option.splits)
  have runs: "run_upgrader (sv\<lparr>sv_file_read := h\<rparr>) = run_upgrader sv" for h
    by (intro ext) (simp add: run_upgrader_def)
  have loop: "upgrade_loop (sv\<lparr>sv_file_read := h\<rparr>) rq i n st = upgrade_loop sv rq i n st" for h rq i n st
    by (induction n arbitrary: i st) (auto simp: writes runs websocket_response_def Let_def split: prod.splits)
  have web: "handleWebsocketRequest (sv\<lparr>sv_file_read := h\<rparr>) = handleWebsocketRequest sv" for h
    by (intro ext) (simp add: handleWebsocketRequest_def loop Let_def)
  have dispatch: "requestDispatcher (sv\<lparr>sv_file_read := h\<rparr>) = requestDispatcher sv" for h
    by (intro ext) (simp add: requestDispatcher_def cong: option.case_cong)
  have static: "handleStaticRequest (sv\<lparr>sv_file_read := f\<rparr>) rq w1 = handleStaticRequest (sv\<lparr>sv_file_read := g\<rparr>) rq w1"
    if "cw_static_paths w1 = cw_static_paths w" for rq w1
    using that assms [of "static_path_of sv rq"]
    by (auto simp: handleStaticRequest_def static_path_of_def Let_def split: option.splits)
  let ?rest = "\<lambda>(sv :: ('d, 'f) http_server) rq response. if response \<noteq> None then writeResponse sv response
     else bindW (handleWebsocketRequest sv rq) (\<lambda>(upgraded, rq1).
       if upgraded then liftW (Inr ())
       else bindW (case sv_processor sv of
              None \<Rightarrow> requestDispatcher sv rq1
            | Some processor \<Rightarrow> liftW (bindR (processor rq1) (\<lambda>(rq2, r). Inr r))) (\<lambda>response.
         if response = None then liftW (Inl (Runtime_Error ''HttpResponse object is a nullptr.''))
         else writeResponse sv response))"
  have rest: "?rest (sv\<lparr>sv_file_read := h\<rparr>) = ?rest sv" for h
    by (intro ext) (simp add: writes web dispatch cong: option.case_cong if_cong)
  have unfold: "processRequest sv' rq w1 = bindW (handleStaticRequest sv' rq) (?rest sv' rq) w1" for sv' :: "('d, 'f) http_server" and rq w1
    by (simp add: processRequest_def)
  have process: "processRequest (sv\<lparr>sv_file_read := f\<rparr>) rq w1 = processRequest (sv\<lparr>sv_file_read := g\<rparr>) rq w1"
    if "cw_static_paths w1 = cw_static_paths w" for rq w1
    unfolding unfold by (rule bindW_same, rule static [OF that], rule fun_cong [OF trans [OF rest [of f] rest [of g, symmetric]], of rq])
  have read: "read_request (sv\<lparr>sv_file_read := h\<rparr>) w = read_request sv w" for h
    by (simp add: read_request_def)
  have table: "cw_static_paths w1 = cw_static_paths w" if "read_request sv w = Some (r, w1)" for r w1
    using that by (auto simp: read_request_def)
  show ?thesis
    unfolding serve_stream_def bindW_def [of "read_request _"] read
    by (auto simp: writes process table split: option.splits sum.splits prod.splits)
qed

text \<open>
  C18. Handlers that are registered for a path are not called in a server that leaves requests to its
  table: without a processor of its own, and with request filters that return and keep the method and
  the reversed path of a request, for every request read from a stream, whose method has no slash,
  that is neither for a static file nor an upgrade, the response is the empty one with status 500,
  after the filters for all responses. A request filter that sets the reversed path can
  reach a handler.
\<close>

theorem handlers_unreachable:
  assumes "HttpRequest_of (sv_ops sv) (sv_create sv) io = Some (Inr rq, io')" and "slash \<notin> set (rq_method rq)"
    and "sv_processor sv = None"
    and "\<forall>f \<in> set (sv_request_filters sv). \<forall>r. \<exists>r'. f r = Inr r' \<and> rq_method r' = rq_method r \<and>
      rq_backwards_path r' = rq_backwards_path r"
    and "\<forall>item \<in> set (cw_request_map w). path_handler item"
    and "cw_static_paths w (static_path_of sv rq) \<in> {None, Some []}" and "upgraders_for sv rq = []"
    and "response_filtered (sv_response_filters sv) (Some (HttpResponse_default (sv_garbage sv))) = Inr (Some response)"
  shows "processRequest sv rq w = writeResponse sv (Some response)
    (w\<lparr>cw_static_paths := (cw_static_paths w)(static_path_of sv rq \<mapsto> [])\<rparr>)"
proof -
  let ?w = "w\<lparr>cw_static_paths := (cw_static_paths w)(static_path_of sv rq \<mapsto> [])\<rparr>"
  have b: "rq_backwards_path rq = []" using givesD [OF request_backwards assms(1)] .
  obtain rq' where rq': "handleWebsocketRequest sv rq ?w = Some (Inr (False, rq'), ?w)" "rq_backwards_path rq' = []"
    "rq_method rq' = rq_method rq" using websocket_none [OF assms(7), of ?w] b by auto
  obtain rq1 where rq1: "request_filtered (sv_request_filters sv) rq' = Inr rq1" "rq_method rq1 = rq_method rq"
    "rq_backwards_path rq1 = []" using filtered_keeps [OF assms(4), of rq'] rq'(2,3) by auto
  have "find_item (cw_request_map w) rq1 0 = (Inr None, cw_request_map w)"
    by (rule find_in_vain) (use rq1 assms(2,5) in simp_all)
  then have "requestDispatcher sv rq' ?w = Some (Inr (Some response), ?w)"
    using rq1(1) assms(8) by (simp add: requestDispatcher_def bindW_def liftW_def find_handler_def)
  moreover have "handleStaticRequest sv rq w = Some (Inr None, ?w)"
    using assms(6) by (auto simp: handleStaticRequest_def Let_def)
  ultimately show ?thesis using rq'(1) assms(3) by (simp add: processRequest_def bindW_def)
qed

text \<open>
  No static file is ever served: a request for one that is read from a stream with method GET or HEAD
  has lost the last letter of its method, and is answered with status 500 and no content.
\<close>

theorem static_refused:
  fixes sv :: "('d, 'f) http_server" and w :: "'d connection_world"
  assumes "remaining (cw_io w) (request_text m p version hs @ us @ ys)"
    and "request_line_ok m p version" and "\<forall>h \<in> set hs. field_ok h" and "length hs < HTTP_FIELD_MAX"
    and "store_fields request_field hs (Map.empty, size_max) = Inr (fs, length us)"
    and "us \<noteq> []" and "length us \<le> 2 ^ 32" and "m \<in> {bytes ''GET'', bytes ''HEAD''}"
    and "cw_static_paths w (static_path_of sv (parsed_head m p version fs (length us))) = Some t" and "t \<noteq> []"
  shows "\<exists>w' answer. serve_stream sv w = Some (Inr (), w') \<and> cw_written w' = cw_written w @ [answer] \<and>
    take 12 answer = bytes ''HTTP/1.1 500''"
proof -
  let ?rq = "(parsed_head m p version fs (length us))\<lparr>rq_content := us\<rparr> :: 'd http_request"
  have m: "butlast m \<noteq> bytes ''POST''" "rq_method ?rq \<noteq> bytes ''GET''" "rq_method ?rq \<noteq> bytes ''HEAD''"
    using assms(8) by (auto simp: parsed_head_def)
  from request_bytes [OF assms(1-7) m(1), of "sv_ops sv" "sv_create sv"] obtain io
    where io: "HttpRequest_of (sv_ops sv) (sv_create sv) (cw_io w) = Some (Inr ?rq, io)" by blast
  have path: "static_path_of sv ?rq = static_path_of sv (parsed_head m p version fs (length us))"
    by (simp add: static_path_of_def parsed_head_def)
  let ?w = "w\<lparr>cw_io := io\<rparr>"
  let ?rs = "(HttpResponse_default (sv_garbage sv))\<lparr>rs_status_code := bytes ''500''\<rparr>"
  obtain answer where answer: "HttpResponse_toString (sv_float_ops sv) (sv_order sv (rs_fields ?rs)) ?rs = Some (Inr answer)"
    "take 12 answer = bytes ''HTTP/1.1 500''"
    using status_written [where fl = "sv_float_ops sv" and es = "sv_order sv (rs_fields ?rs)" and g = "sv_garbage sv" and c = "bytes ''500''"] by auto
  have "handleStaticRequest sv ?rq ?w = Some (Inr (Some ?rs), ?w)"
    using assms(9,10) m path by (simp add: handleStaticRequest_def Let_def fun_upd_idem)
  then have "processRequest sv ?rq ?w = Some (Inr (), ?w\<lparr>cw_written := cw_written w @ [answer]\<rparr>)"
    using answer(1) by (simp add: processRequest_def bindW_def writeResponse_def)
  then have "serve_stream sv w = Some (Inr (), ?w\<lparr>cw_written := cw_written w @ [answer]\<rparr>)"
    using io by (simp add: serve_stream_def bindW_def read_request_def)
  then show ?thesis using answer(2) by auto
qed

text \<open>Looking up a path that is not in the table of static paths inserts it: every unknown path makes it grow.\<close>

theorem static_table_grows:
  assumes "cw_static_paths w (static_path_of sv rq) = None"
  shows "handleStaticRequest sv rq w =
    Some (Inr None, w\<lparr>cw_static_paths := (cw_static_paths w)(static_path_of sv rq \<mapsto> [])\<rparr>)"
  using assms by (simp add: handleStaticRequest_def Let_def)

section \<open>Witnesses\<close>

text \<open>A server with one static file, a handler and an upgrader, and connections to it.\<close>

definition demo_server :: "(int, int) http_server" where
  "demo_server = \<lparr>sv_ops = whole_ops, sv_create = (\<lambda>_. Inl Undefined), sv_float_ops = whole_floats, sv_order = (\<lambda>_. []),
     sv_static_path = bytes ''.'', sv_root_html_file = bytes ''index.html'', sv_tls_enabled = False,
     sv_file_read = (\<lambda>_. Inr (bytes ''x'')), sv_processor = None, sv_request_filters = [Inr], sv_response_filters = [],
     sv_upgraders = [\<lparr>up_path = bytes ''/c'', up_protocol = bytes ''a''\<rparr>, \<lparr>up_path = bytes ''/c'', up_protocol = bytes ''b''\<rparr>],
     sv_sha1 = Inr, sv_encode_block = id, sv_on_connection = (\<lambda>_ io. io), sv_garbage = 0\<rparr>"

definition demo_handler :: "int processor_item" where
  "demo_handler = \<lparr>pi_request = HttpRequest_of_path 0 (bytes ''/a'') (bytes ''POST'') [],
     pi_processor = (\<lambda>rq. Inr (rq, Some ((HttpResponse_default 0)\<lparr>rs_status_code := bytes ''200''\<rparr>))),
     pi_request_filters = [], pi_response_filters = []\<rparr>"

lemma demo_path: "path_handler demo_handler"
  unfolding path_handler_def
  by (rule exI [of _ 0], rule exI [of _ "bytes ''/a''"], rule exI [of _ "bytes ''POST''"]) (simp add: demo_handler_def slash_def)

definition demo_world :: "byte list \<Rightarrow> int connection_world" where
  "demo_world xs = \<lparr>cw_io = EStream_memory xs, cw_written = [], cw_upgraded = [],
     cw_static_paths = [bytes ''./a.html'' \<mapsto> bytes ''text/html''], cw_request_map = [demo_handler]\<rparr>"

theorem connection_answered_witness:
  "\<exists>r w' ts us. serve_stream demo_server (demo_world (bytes ''GET /'')) = Some (r, w') \<and> cw_written w' = ts \<and>
    cw_upgraded w' = us \<and> (r = Inl Undefined \<or> ts \<noteq> [])"
proof -
  have "remaining (cw_io (demo_world (bytes ''GET /''))) (bytes ''GET /'')"
    using memory_remaining [of "bytes ''GET /''"] by (simp add: demo_world_def)
  moreover have "calm (bytes ''GET /'')" by (simp add: calm_def)
  ultimately show ?thesis
    using connection_answered [of "demo_world (bytes ''GET /'')" "bytes ''GET /''" demo_server]
    by (fastforce simp: demo_server_def demo_world_def)
qed

definition upgrade_request :: "byte list list \<Rightarrow> int http_request" where
  "upgrade_request protocols = (parsed_head (bytes ''GET'') (bytes ''/c'') [] [bytes ''upgrade'' \<mapsto> [bytes ''websocket''],
     bytes ''connection'' \<mapsto> [bytes ''upgrade''], bytes ''sec-websocket-protocol'' \<mapsto> protocols,
     bytes ''sec-websocket-key'' \<mapsto> [bytes ''k'']] 1)"

text \<open>The second upgrader is found only if its protocol is asked for in second place.\<close>

theorem upgrades_by_position_witness:
  "\<exists>upgraded rq' w'. handleWebsocketRequest demo_server (upgrade_request [bytes ''b'']) (demo_world []) =
      Some (Inr (upgraded, rq'), w') \<and> \<not> upgraded \<and> cw_upgraded w' = []"
proof -
  have none: "upgraders_for demo_server (upgrade_request [bytes ''b'']) = []"
    by (simp add: upgraders_for_def upgrade_request_def parsed_head_def values_of_def demo_server_def pairs_with_def
        protocol_at_def Let_def upt_rec numeral_2_eq_2)
  from websocket_none [OF none, of "demo_world []"] obtain rq'
    where r: "handleWebsocketRequest demo_server (upgrade_request [bytes ''b'']) (demo_world []) = Some (Inr (False, rq'), demo_world [])"
    by blast
  from upgrades_by_position [OF r] r show ?thesis
    by (intro exI [of _ False] exI [of _ rq'] exI [of _ "demo_world []"]) (simp add: demo_world_def none)
qed

theorem static_files_example:
  "serve_stream (demo_server\<lparr>sv_file_read := \<lambda>p. Inr []\<rparr>) (demo_world []) =
   serve_stream (demo_server\<lparr>sv_file_read := \<lambda>p. if p = bytes ''./a.html'' then Inr [] else Inr (bytes ''secret'')\<rparr>) (demo_world [])"
  by (rule static_files_confined) (simp add: demo_world_def split: if_splits)

theorem handlers_unreachable_witness:
  "\<exists>rq response. rq_method rq = bytes ''POS'' \<and> url_path (rq_url rq) = bytes ''/a'' \<and> response = HttpResponse_default 0 \<and>
    processRequest demo_server rq (demo_world []) = writeResponse demo_server (Some response)
      ((demo_world [])\<lparr>cw_static_paths := (cw_static_paths (demo_world []))(static_path_of demo_server rq \<mapsto> [])\<rparr>)"
proof -
  let ?rq = "example_head\<lparr>rq_content := bytes ''{}''\<rparr> :: int http_request"
  have sv: "sv_ops demo_server = whole_ops" "sv_create demo_server = (\<lambda>_. Inl Undefined)" by (simp_all add: demo_server_def)
  obtain io' where r: "HttpRequest_of (sv_ops demo_server) (sv_create demo_server)
      (EStream_memory (example_text @ bytes ''{}'' @ bytes ''!'')) = Some (Inr ?rq, io')"
    using request_bytes [OF example_request [unfolded example_text_def], folded example_text_def, of whole_ops "\<lambda>_. Inl Undefined"]
    unfolding example_head_def sv by blast
  have f: "rq_method ?rq = bytes ''POS''" "url_path (rq_url ?rq) = bytes ''/a''" by (simp_all add: example_head_def parsed_head_def)
  have "processRequest demo_server ?rq (demo_world []) = writeResponse demo_server (Some (HttpResponse_default 0))
      ((demo_world [])\<lparr>cw_static_paths := (cw_static_paths (demo_world []))(static_path_of demo_server ?rq \<mapsto> [])\<rparr>)"
  proof (rule handlers_unreachable [OF r])
    show "slash \<notin> set (rq_method ?rq)" using f(1) by (simp add: slash_def)
    show "\<forall>item \<in> set (cw_request_map (demo_world [])). path_handler item"
      by (simp add: demo_world_def demo_path)
    show "cw_static_paths (demo_world []) (static_path_of demo_server ?rq) \<in> {None, Some []}"
      by (simp add: static_path_of_def demo_server_def demo_world_def example_head_def parsed_head_def join_def slash_def)
    show "upgraders_for demo_server ?rq = []"
      by (simp add: upgraders_for_def values_of_def example_head_def parsed_head_def)
  qed (simp_all add: demo_server_def)
  then show ?thesis using f by blast
qed

definition static_text :: "byte list" where
  "static_text = request_text (bytes ''GET'') (bytes ''/a.html'') (bytes ''HTTP/1.1'') [(bytes ''Content-Length'', bytes '' 1'')]"

theorem static_refused_witness:
  "\<exists>w' answer. serve_stream demo_server (demo_world (static_text @ bytes ''x'')) = Some (Inr (), w') \<and>
    cw_written w' = [answer] \<and> take 12 answer = bytes ''HTTP/1.1 500''"
proof -
  let ?w = "demo_world (static_text @ bytes ''x'')"
  have "\<exists>w' answer. serve_stream demo_server ?w = Some (Inr (), w') \<and> cw_written w' = cw_written ?w @ [answer] \<and>
      take 12 answer = bytes ''HTTP/1.1 500''"
  proof (rule static_refused)
    show "remaining (cw_io ?w) (request_text (bytes ''GET'') (bytes ''/a.html'') (bytes ''HTTP/1.1'')
        [(bytes ''Content-Length'', bytes '' 1'')] @ bytes ''x'' @ [])"
      using memory_remaining [of "static_text @ bytes ''x''"] by (simp add: demo_world_def static_text_def)
    show "store_fields request_field [(bytes ''Content-Length'', bytes '' 1'')] (Map.empty, size_max) =
        Inr ([bytes ''content-length'' \<mapsto> [bytes ''1'']], length (bytes ''x''))"
      by (simp add: field_name_of_def field_value_of_def to_lower_def FIELD_VALUES_TO_LOWER_CASE_def c_str_def request_field_def
        atoi_def is_space_def isDigit_def decimal_def field_append_def field_at_def size_of_int_def Let_def)
    show "cw_static_paths ?w (static_path_of demo_server (parsed_head (bytes ''GET'') (bytes ''/a.html'') (bytes ''HTTP/1.1'')
        [bytes ''content-length'' \<mapsto> [bytes ''1'']] (length (bytes ''x'')))) = Some (bytes ''text/html'')"
      by (simp add: demo_world_def static_path_of_def demo_server_def parsed_head_def join_def slash_def)
  qed (simp_all add: request_line_ok_def field_ok_def HTTP_FIELD_MAX_def)
  then show ?thesis by (simp add: demo_world_def)
qed

end
