(* ===== verification/Csv.thy ===== *)
theory Csv
  imports Key_Value
begin

text \<open>
  lib/parser/csv/csv.h with the rows of the \<open>Matrix\<close> it extends: reading records of strings from a
  byte stream, and the text of a table. A row is a list; \<open>MatrixVector\<close> shares it by its handles, so
  what is written to the copy \<open>r\<close> of a row is in the row. The default constructor of \<open>MatrixVector\<close>
  leaves the pointer to a view uninitialised in the header, the matrix and every row:
  \<open>csv_views_null\<close> says whether the pointers of a table happen to be null, and every subscript of a
  table where they do not is \<open>Undefined\<close>. Tables of decimals are not modelled: csv.h:197 assigns the
  tuple of \<open>readDecimal\<close> to a \<open>double\<close>, so \<open>CSV<double>\<close> does not compile. What a read that throws
  leaves in the table is not modelled.
\<close>

section \<open>Tables\<close>

record 'a csv =
  csv_views_null :: bool
  csv_separator :: byte
  csv_record_size :: nat
  csv_header :: "byte list list"
  csv_matrix :: "'a list list"

definition CSV_new :: "bool \<Rightarrow> byte \<Rightarrow> 'a csv res" where
  "CSV_new views_null separator =
     (if separator = letter CHR ''.'' then Inl (Runtime_Error ''Periods aren't allowed as CSV separator.'')
      else Inr \<lparr>csv_views_null = views_null, csv_separator = separator, csv_record_size = 0, csv_header = [], csv_matrix = []\<rparr>)"

definition CSV_reset :: "'a csv \<Rightarrow> 'a csv" where
  "CSV_reset c = c\<lparr>csv_record_size := 0\<rparr>"

text \<open>A byte is compared with the separator, a \<open>char\<close>, as \<open>int\<close>s.\<close>

definition is_separator :: "'a csv \<Rightarrow> byte \<Rightarrow> bool" where
  "is_separator c b \<longleftrightarrow> int (unat b) = sint (csv_separator c)"

text \<open>\<open>r[pos] = v\<close>: behind the end an element is appended.\<close>

definition index_set :: "nat \<Rightarrow> 'a \<Rightarrow> 'a list \<Rightarrow> 'a list" where
  "index_set pos v row = (if length row \<le> pos then row @ [v] else row[pos := v])"

text \<open>\<open>(*this)[r_i]\<close>: the matrix, with a new row behind the last if there is none, and the row's index.\<close>

definition row_at :: "nat \<Rightarrow> 'a list list \<Rightarrow> 'a list list \<times> nat" where
  "row_at r_i m = (if length m \<le> r_i then (m @ [[]], length m) else (m, r_i))"

definition updateAndCheckRecordSize :: "nat \<Rightarrow> nat \<Rightarrow> nat res" where
  "updateAndCheckRecordSize new_record_size record_size =
     (let rs = (if record_size = 0 then new_record_size else record_size)
      in if new_record_size = 0 \<or> rs \<noteq> new_record_size then Inl (Runtime_Error ''Invalid record size.'') else Inr rs)"

definition processRecord :: "'b list \<Rightarrow> 'a csv \<Rightarrow> 'a csv res" where
  "processRecord r c =
     bindR (updateAndCheckRecordSize (length r) (csv_record_size c)) (\<lambda>rs. Inr (c\<lparr>csv_record_size := rs\<rparr>))"

section \<open>Reading records of strings\<close>

record 'a csv_state =
  cs_csv :: "'a csv"
  cs_quoted :: bool
  cs_current :: 'a
  cs_r :: nat
  cs_f :: nat

text \<open>The row a byte is for: the header, or the row \<open>r_i\<close>, which is there from the first byte on.\<close>

definition with_row :: "bool \<Rightarrow> nat \<Rightarrow> 'a csv \<Rightarrow> 'a csv" where
  "with_row process_header r_i c = (if process_header then c else c\<lparr>csv_matrix := fst (row_at r_i (csv_matrix c))\<rparr>)"

definition current_row :: "bool \<Rightarrow> nat \<Rightarrow> byte list csv \<Rightarrow> byte list list" where
  "current_row process_header r_i c =
     (if process_header then csv_header c else csv_matrix c ! snd (row_at r_i (csv_matrix c)))"

definition put_row :: "bool \<Rightarrow> nat \<Rightarrow> byte list list \<Rightarrow> byte list csv \<Rightarrow> byte list csv" where
  "put_row process_header r_i row c =
     (if process_header then c\<lparr>csv_header := row\<rparr>
      else c\<lparr>csv_matrix := (csv_matrix c)[snd (row_at r_i (csv_matrix c)) := row]\<rparr>)"

definition handleFieldDelimeter_string ::
  "bool \<Rightarrow> byte \<Rightarrow> byte list csv_state \<Rightarrow> (bool \<times> byte list csv_state) res" where
  "handleFieldDelimeter_string process_header b st =
     (let c = with_row process_header (cs_r st) (cs_csv st);
          st1 = st\<lparr>cs_csv := c\<rparr>
      in if \<not> csv_views_null (cs_csv st) then Inl Undefined
      else if is_separator c b \<or> b = 10
      then let row = index_set (cs_f st) (cs_current st) (current_row process_header (cs_r st) c);
               c1 = put_row process_header (cs_r st) row c
        in if b = 10
        then bindR (processRecord row c1) (\<lambda>c2.
          Inr (True, st1\<lparr>cs_csv := c2, cs_current := [], cs_r := cs_r st + 1, cs_f := 0\<rparr>))
        else Inr (True, st1\<lparr>cs_csv := c1, cs_current := [], cs_f := cs_f st + 1\<rparr>)
      else Inr (False, st1))"

text \<open>Whether the byte is done with, and whether the field is still quoted.\<close>

definition handleQuotes :: "'a csv \<Rightarrow> bool \<Rightarrow> byte list \<Rightarrow> byte \<Rightarrow> (bool \<times> bool) parser" where
  "handleQuotes c quoted current_str b =
     (if \<not> quoted
      then if b = 34
        then if current_str \<noteq> [] then throwF ''Quoted string cannot be preceded by a non-delimiting character.''
          else liftF (Inr (True, True))
        else liftF (Inr (b = 13, False))
      else if b = 34
        then bindF peekF (\<lambda>peeked.
          if peeked = 34 then bindF getF (\<lambda>_. liftF (Inr (False, True)))
          else if is_separator c peeked \<or> peeked = 10 then liftF (Inr (True, False))
          else throwF ''Quoted string cannot be followed by a non-delimiting character.'')
      else liftF (Inr (False, True)))"

partial_function (option) read_strings ::
  "nat \<Rightarrow> bool \<Rightarrow> byte list csv_state \<Rightarrow> estream \<Rightarrow> (byte list csv_state res \<times> estream) option" where
  "read_strings r_count process_header st s =
     (if cs_r st < r_count
      then bindF getF (\<lambda>b.
        if b = 255 then liftF (Inr st)
        else bindF (handleQuotes (cs_csv st) (cs_quoted st) (cs_current st) b) (\<lambda>(done, quoted).
          if done then read_strings r_count process_header (st\<lparr>cs_quoted := quoted\<rparr>)
          else bindF (liftF (handleFieldDelimeter_string process_header b (st\<lparr>cs_quoted := quoted\<rparr>))) (\<lambda>(delimited, st').
            if delimited then read_strings r_count process_header st'
            else read_strings r_count process_header (st'\<lparr>cs_current := cs_current st' @ [b]\<rparr>)))) s
      else liftF (Inr st) s)"

declare read_strings.simps [code]

definition strings_start :: "byte list csv \<Rightarrow> byte list csv_state" where
  "strings_start c = \<lparr>cs_csv = c, cs_quoted = False, cs_current = [], cs_r = 0, cs_f = 0\<rparr>"

definition CSV_read_strings :: "nat \<Rightarrow> bool \<Rightarrow> byte list csv \<Rightarrow> byte list csv parser" where
  "CSV_read_strings r_count process_header c =
     bindF (read_strings r_count process_header (strings_start c)) (\<lambda>st. liftF (Inr (cs_csv st)))"

text \<open>\<open>read(bool)\<close> and \<open>read(size_t)\<close>.\<close>

definition CSV_read :: "bool \<Rightarrow> byte list csv \<Rightarrow> byte list csv parser" where
  "CSV_read has_header c =
     bindF (if has_header then CSV_read_strings 1 True (CSV_reset c) else liftF (Inr (CSV_reset c)))
       (CSV_read_strings size_max False)"

definition CSV_read_count :: "nat \<Rightarrow> byte list csv \<Rightarrow> byte list csv parser" where
  "CSV_read_count r_count c = CSV_read_strings r_count False c"

section \<open>The text of a table\<close>

definition columns :: "'a list list \<Rightarrow> nat" where
  "columns m = (case m of [] \<Rightarrow> 0 | row # _ \<Rightarrow> length row)"

text \<open>Fields behind each other; the separator is always a comma. Short rows are filled up while they are written.\<close>

fun line_text :: "byte list list \<Rightarrow> byte list" where
  "line_text [] = []"
| "line_text [x] = x @ [10]"
| "line_text (x # y # xs) = x @ [letter CHR '',''] @ line_text (y # xs)"

definition padded :: "nat \<Rightarrow> byte list list \<Rightarrow> byte list list" where
  "padded n row = row @ replicate (n - length row) []"

definition CSV_toString :: "byte list csv \<Rightarrow> (byte list \<times> byte list csv) res" where
  "CSV_toString c =
     (let n = columns (csv_matrix c); m = map (padded n) (csv_matrix c)
      in if \<not> csv_views_null c then Inl Undefined
      else Inr (line_text (csv_header c) @ concat (map (\<lambda>row. line_text (take n row)) m), c\<lparr>csv_matrix := m\<rparr>))"

section \<open>What the loop takes\<close>

lemma strings_unfold: "read_strings r_count process_header st =
    (if cs_r st < r_count
     then bindF getF (\<lambda>b.
       if b = 255 then liftF (Inr st)
       else bindF (handleQuotes (cs_csv st) (cs_quoted st) (cs_current st) b) (\<lambda>(done, quoted).
         if done then read_strings r_count process_header (st\<lparr>cs_quoted := quoted\<rparr>)
         else bindF (liftF (handleFieldDelimeter_string process_header b (st\<lparr>cs_quoted := quoted\<rparr>))) (\<lambda>(delimited, st').
           if delimited then read_strings r_count process_header st'
           else read_strings r_count process_header (st'\<lparr>cs_current := cs_current st' @ [b]\<rparr>))))
     else liftF (Inr st))"
  by (rule ext, subst read_strings.simps) (cases "cs_r st < r_count", simp_all only: if_True if_False)

lemma takes_eof: "cs_r st < r_count \<Longrightarrow> takes (read_strings r_count h st) (Inr st) (255 # ys) ys"
  unfolding strings_unfold [of r_count h st]
  by (rule takes_if(1), assumption, rule takes_bind [OF takes_get]) (simp add: takes_lift)

lemma takes_full: "r_count \<le> cs_r st \<Longrightarrow> takes (read_strings r_count h st) (Inr st) ys ys"
  unfolding strings_unfold [of r_count h st] by (simp add: takes_lift)

text \<open>A byte by its two handlers.\<close>

lemma takes_byte:
  assumes "cs_r st < r_count" "b \<noteq> 255"
    and "takes (handleQuotes (cs_csv st) (cs_quoted st) (cs_current st) b) (Inr (False, quoted)) ys zs"
    and "handleFieldDelimeter_string h b (st\<lparr>cs_quoted := quoted\<rparr>) = Inr (delimited, st')"
    and "takes (read_strings r_count h (if delimited then st' else st'\<lparr>cs_current := cs_current st' @ [b]\<rparr>)) r zs us"
  shows "takes (read_strings r_count h st) r (b # ys) us"
  unfolding strings_unfold [of r_count h st]
  by (rule takes_if(1) [OF assms(1)], rule takes_bind [OF takes_get], rule takes_if(2) [OF assms(2)],
    rule takes_bind [OF assms(3)]) (use assms(4,5) in \<open>simp add: bindF_value split: if_splits\<close>)

lemma takes_byte_error:
  assumes "cs_r st < r_count" "b \<noteq> 255"
    and "takes (handleQuotes (cs_csv st) (cs_quoted st) (cs_current st) b) (Inr (False, quoted)) ys zs"
    and "handleFieldDelimeter_string h b (st\<lparr>cs_quoted := quoted\<rparr>) = Inl e"
  shows "takes (read_strings r_count h st) (Inl e) (b # ys) zs"
  unfolding strings_unfold [of r_count h st]
  by (rule takes_if(1) [OF assms(1)], rule takes_bind [OF takes_get], rule takes_if(2) [OF assms(2)],
    rule takes_bind [OF assms(3)]) (use takes_bind_error [OF takes_lift] assms(4) in auto)

lemma takes_quote:
  assumes "cs_r st < r_count" "b \<noteq> 255"
    and "takes (handleQuotes (cs_csv st) (cs_quoted st) (cs_current st) b) (Inr (True, quoted)) ys zs"
    and "takes (read_strings r_count h (st\<lparr>cs_quoted := quoted\<rparr>)) r zs us"
  shows "takes (read_strings r_count h st) r (b # ys) us"
  unfolding strings_unfold [of r_count h st]
  by (rule takes_if(1) [OF assms(1)], rule takes_bind [OF takes_get], rule takes_if(2) [OF assms(2)],
    rule takes_bind [OF assms(3)]) (use assms(4) in simp)

text \<open>What \<open>handleQuotes\<close> says of a byte.\<close>

definition opaque :: "bool \<Rightarrow> byte \<Rightarrow> bool" where
  "opaque quoted b \<longleftrightarrow> b \<noteq> 255 \<and> b \<noteq> 34 \<and> (quoted \<or> b \<noteq> 13)"

lemma quotes_opaque: "opaque quoted b \<Longrightarrow> takes (handleQuotes c quoted cur b) (Inr (False, quoted)) ys ys"
  by (auto simp: handleQuotes_def opaque_def takes_lift)

lemma quotes_open: "takes (handleQuotes c False [] 34) (Inr (True, True)) ys ys"
  by (simp add: handleQuotes_def takes_lift)

lemma quotes_twice: "takes (handleQuotes c True cur 34) (Inr (False, True)) (34 # ys) ys"
  unfolding handleQuotes_def by (simp, rule takes_bind [OF takes_peek], simp, rule takes_bind [OF takes_get]) (rule takes_lift)

lemma quotes_close:
  "is_separator c b \<or> b = 10 \<Longrightarrow> b \<noteq> 34 \<Longrightarrow> takes (handleQuotes c True cur 34) (Inr (True, False)) (b # ys) (b # ys)"
  unfolding handleQuotes_def by (simp, rule takes_bind [OF takes_peek]) (auto simp: takes_lift)

text \<open>
  The table while a record is read: the fields \<open>row\<close> are in the header, or in the row behind the
  rows \<open>m\<close>.
\<close>

definition table :: "bool \<Rightarrow> byte list csv \<Rightarrow> byte list list list \<Rightarrow> byte list list \<Rightarrow> byte list csv" where
  "table h c m row = (if h then c\<lparr>csv_header := row\<rparr> else c\<lparr>csv_matrix := m @ [row]\<rparr>)"

definition reads_into :: "bool \<Rightarrow> nat \<Rightarrow> byte list csv \<Rightarrow> byte list csv \<Rightarrow> byte list list list \<Rightarrow> byte list list \<Rightarrow> bool" where
  "reads_into h r_i c1 c m row \<longleftrightarrow>
     with_row h r_i c1 = table h c m row \<and> csv_views_null c1 \<and> (h \<or> r_i = length m)"

lemma views_row [simp]: "csv_views_null (with_row h r_i c) = csv_views_null c"
  by (simp add: with_row_def)

lemma views_into: "reads_into h r_i c1 c m row \<Longrightarrow> csv_views_null c"
proof -
  assume r: "reads_into h r_i c1 c m row"
  then have "csv_views_null (with_row h r_i c1) = csv_views_null (table h c m row)" by (simp add: reads_into_def)
  then show ?thesis using r by (simp add: reads_into_def table_def split: if_splits)
qed

lemma table_into: "reads_into h r_i c1 c m row \<Longrightarrow> reads_into h r_i (table h c m row') c m row'"
  using views_into [of h r_i c1 c m row] by (auto simp: reads_into_def with_row_def table_def row_at_def)

lemma start_header: "csv_views_null c \<Longrightarrow> csv_header c = [] \<Longrightarrow> reads_into True r_i c c m []"
  by (simp add: reads_into_def with_row_def table_def)

lemma start_row: "csv_views_null c \<Longrightarrow> csv_matrix c = m \<Longrightarrow> reads_into False (length m) c c m []"
  by (simp add: reads_into_def with_row_def table_def row_at_def)

lemma separator_table [simp]: "is_separator (table h c m row) b = is_separator c b"
  "csv_separator (table h c m row) = csv_separator c" "csv_views_null (table h c m row) = csv_views_null c" "csv_record_size (table h c m row) = csv_record_size c"
  by (simp_all add: is_separator_def table_def)

lemma separator_into: "reads_into h r_i c1 c m row \<Longrightarrow> is_separator c1 b = is_separator c b"
proof -
  assume "reads_into h r_i c1 c m row"
  then have "is_separator (with_row h r_i c1) b = is_separator (table h c m row) b" by (simp add: reads_into_def)
  then show ?thesis by (simp add: is_separator_def with_row_def split: if_splits)
qed

lemma row_of_table:
  assumes "h \<or> r_i = length m"
  shows "current_row h r_i (table h c m row) = row" "put_row h r_i row' (table h c m row) = table h c m row'"
    "with_row h r_i (table h c m row) = table h c m row"
  using assms by (auto simp: current_row_def put_row_def with_row_def table_def row_at_def)

definition at :: "byte list csv \<Rightarrow> bool \<Rightarrow> byte list \<Rightarrow> nat \<Rightarrow> nat \<Rightarrow> byte list csv_state" where
  "at c quoted cur r_i f_i = \<lparr>cs_csv = c, cs_quoted = quoted, cs_current = cur, cs_r = r_i, cs_f = f_i\<rparr>"

lemma at_simps [simp]: "cs_csv (at c q cur r f) = c" "cs_quoted (at c q cur r f) = q"
  "cs_current (at c q cur r f) = cur" "cs_r (at c q cur r f) = r" "cs_f (at c q cur r f) = f"
  "(at c q cur r f)\<lparr>cs_quoted := q'\<rparr> = at c q' cur r f" "(at c q cur r f)\<lparr>cs_current := cur'\<rparr> = at c q cur' r f"
  by (simp_all add: at_def)

lemma field_byte:
  assumes "reads_into h r_i c1 c m row" "\<not> is_separator c b" "b \<noteq> 10"
  shows "handleFieldDelimeter_string h b (at c1 q cur r_i f) = Inr (False, at (table h c m row) q cur r_i f)"
  using assms by (simp add: handleFieldDelimeter_string_def reads_into_def at_def)

lemma field_separator:
  assumes "reads_into h r_i c1 c m row" "is_separator c b" "b \<noteq> 10"
  shows "handleFieldDelimeter_string h b (at c1 q cur r_i (length row)) =
    Inr (True, at (table h c m (row @ [cur])) q [] r_i (length (row @ [cur])))"
  using assms row_of_table [of h r_i m]
  by (simp add: handleFieldDelimeter_string_def reads_into_def at_def index_set_def)

lemma field_newline:
  assumes "reads_into h r_i c1 c m row"
  shows "handleFieldDelimeter_string h 10 (at c1 q cur r_i (length row)) =
    bindR (processRecord (row @ [cur]) (table h c m (row @ [cur]))) (\<lambda>c2. Inr (True, at c2 q [] (r_i + 1) 0))"
  using assms row_of_table [of h r_i m]
  by (simp add: handleFieldDelimeter_string_def reads_into_def at_def index_set_def Let_def)

text \<open>The bytes of a field: \<open>escape\<close> doubles the quotes of a quoted one.\<close>

definition escape :: "byte list \<Rightarrow> byte list" where
  "escape xs = concat (map (\<lambda>b. if b = 34 then [34, 34] else [b]) xs)"

definition field_byte_ok :: "byte list csv \<Rightarrow> bool \<Rightarrow> byte \<Rightarrow> bool" where
  "field_byte_ok c quoted b \<longleftrightarrow> b \<noteq> 255 \<and> b \<noteq> 10 \<and> \<not> is_separator c b \<and> (quoted \<or> b \<noteq> 13 \<and> b \<noteq> 34)"

lemma takes_field:
  assumes "reads_into h r_i c1 c m row" "r_i < r_count" "\<forall>b \<in> set xs. field_byte_ok c q b"
    and "\<And>c2. reads_into h r_i c2 c m row \<Longrightarrow> takes (read_strings r_count h (at c2 q (cur @ xs) r_i f)) r ys zs"
  shows "takes (read_strings r_count h (at c1 q cur r_i f)) r ((if q then escape xs else xs) @ ys) zs"
  using assms
proof (induction xs arbitrary: c1 cur)
  case Nil
  have "takes (read_strings r_count h (at c1 q (cur @ []) r_i f)) r ys zs"
    by (rule Nil.prems(4) [OF Nil.prems(1)])
  then show ?case by (cases q) (simp_all add: escape_def)
next
  case (Cons b xs)
  let ?ys = "(if q then escape xs else xs) @ ys"
  have ok: "field_byte_ok c q b" using Cons.prems(3) by simp
  have IH: "takes (read_strings r_count h (at (table h c m row) q (cur @ [b]) r_i f)) r ?ys zs"
    by (rule Cons.IH) (use table_into [OF Cons.prems(1)] Cons.prems(2-4) in auto)
  have b: "handleFieldDelimeter_string h b (at c1 q cur r_i f) = Inr (False, at (table h c m row) q cur r_i f)"
    by (rule field_byte) (use Cons.prems(1) ok in \<open>auto simp: field_byte_ok_def\<close>)
  show ?case
  proof (cases "b = 34")
    case True
    then have q: "q" using ok by (simp add: field_byte_ok_def)
    have "takes (read_strings r_count h (at c1 q cur r_i f)) r (34 # 34 # ?ys) zs"
      by (rule takes_byte) (use Cons.prems(2) quotes_twice [of c1 cur ?ys] b q True IH in auto)
    then show ?thesis using True q by (simp add: escape_def)
  next
    case False
    then have "opaque q b" using ok by (auto simp: opaque_def field_byte_ok_def)
    have "takes (read_strings r_count h (at c1 q cur r_i f)) r (b # ?ys) zs"
      by (rule takes_byte) (use Cons.prems(2) quotes_opaque [OF \<open>opaque q b\<close>, of c1 cur ?ys] b ok IH in
          \<open>auto simp: field_byte_ok_def\<close>)
    then show ?thesis using False by (cases q) (simp_all add: escape_def)
  qed
qed

text \<open>A separator and a line end, outside of quotes or in them.\<close>

lemma takes_separator:
  assumes "reads_into h r_i c1 c m row" "r_i < r_count" "is_separator c b" "opaque q b" "b \<noteq> 10"
    and "takes (read_strings r_count h (at (table h c m (row @ [cur])) q [] r_i (length (row @ [cur])))) r ys zs"
  shows "takes (read_strings r_count h (at c1 q cur r_i (length row))) r (b # ys) zs"
  by (rule takes_byte) (use assms(2,4,6) quotes_opaque [OF assms(4), of c1 cur ys]
      field_separator [OF assms(1,3,5), of q cur] in \<open>auto simp: opaque_def\<close>)

lemma takes_newline:
  assumes "reads_into h r_i c1 c m row" "r_i < r_count"
    and "processRecord (row @ [cur]) (table h c m (row @ [cur])) = Inr c2"
    and "takes (read_strings r_count h (at c2 q [] (r_i + 1) 0)) r ys zs"
  shows "takes (read_strings r_count h (at c1 q cur r_i (length row))) r (10 # ys) zs"
  by (rule takes_byte) (use assms(2-4) quotes_opaque [of q 10 c1 cur ys] field_newline [OF assms(1), of q cur]
      in \<open>auto simp: opaque_def\<close>)

lemma takes_newline_error:
  assumes "reads_into h r_i c1 c m row" "r_i < r_count"
    and "processRecord (row @ [cur]) (table h c m (row @ [cur])) = Inl e"
  shows "takes (read_strings r_count h (at c1 q cur r_i (length row))) (Inl e) (10 # ys) ys"
  by (rule takes_byte_error) (use assms(2-3) quotes_opaque [of q 10 c1 cur ys] field_newline [OF assms(1), of q cur]
      in \<open>auto simp: opaque_def\<close>)

text \<open>A byte outside of quotes, in a table whose pointers to views are not null.\<close>

lemma views_uninitialised:
  assumes "\<not> csv_views_null c" "b \<notin> {13, 34, 255}"
    and "remaining s (b # ys)"
  shows "\<exists>s'. CSV_read has_header c s = Some (Inl Undefined, s')"
proof -
  have u: "takes (CSV_read_strings n h (CSV_reset c)) (Inl Undefined) (b # ys) ys" if "0 < n" for n h
  proof -
    have "takes (read_strings n h (strings_start (CSV_reset c))) (Inl Undefined) (b # ys) ys"
      by (rule takes_byte_error [where quoted = False and zs = ys])
        (use that assms quotes_opaque [of False b] in \<open>auto simp: strings_start_def CSV_reset_def opaque_def
          handleFieldDelimeter_string_def\<close>)
    then show ?thesis unfolding CSV_read_strings_def by (rule takes_bind_error)
  qed
  have "takes (CSV_read has_header c) (Inl Undefined) (b # ys) ys"
    using u [of 1 True] u [of size_max False] unfolding CSV_read_def
    by (cases has_header) (auto simp: bindF_value size_max_def intro: takes_bind_error)
  then show ?thesis using assms(3) unfolding takes_def by blast
qed

section \<open>Lines and tables\<close>

definition field_ok :: "byte list csv \<Rightarrow> byte list \<Rightarrow> bool" where
  "field_ok c x \<longleftrightarrow> (\<forall>b \<in> set x. field_byte_ok c False b)"

lemma reads_into_at: "reads_into h r_i c1 c m row \<Longrightarrow> h \<or> r_i = length m"
  by (simp add: reads_into_def)

lemma takes_plain_field:
  assumes "reads_into h r_i c1 c m row" "r_i < r_count" "field_ok c x"
    and "\<And>c2. reads_into h r_i c2 c m row \<Longrightarrow> takes (read_strings r_count h (at c2 False x r_i (length row))) r ys zs"
  shows "takes (read_strings r_count h (at c1 False [] r_i (length row))) r (x @ ys) zs"
  using takes_field [OF assms(1,2), of x False "[]" "length row" r ys zs] assms(3,4) by (simp add: field_ok_def)

text \<open>The fields of a line before its line end.\<close>

lemma takes_fields_of_line:
  assumes "reads_into h r_i c1 c m row" "r_i < r_count" "fs \<noteq> []" "\<forall>x \<in> set fs. field_ok c x"
    and "is_separator c (letter CHR '','')"
    and "\<And>c2. reads_into h r_i c2 c m (row @ butlast fs) \<Longrightarrow>
      takes (read_strings r_count h (at c2 False (last fs) r_i (length (row @ butlast fs)))) r (10 # ys) zs"
  shows "takes (read_strings r_count h (at c1 False [] r_i (length row))) r (line_text fs @ ys) zs"
  using assms
proof (induction fs arbitrary: c1 row rule: line_text.induct)
  case (2 x)
  then show ?case using takes_plain_field [OF 2(1,2), of x r "10 # ys" zs] by simp
next
  case (3 x y xs)
  have "takes (read_strings r_count h (at c2 False x r_i (length row))) r (letter CHR '','' # line_text (y # xs) @ ys) zs"
    if c2: "reads_into h r_i c2 c m row" for c2
  proof (rule takes_separator [OF c2 3(3) 3(6)])
    show "takes (read_strings r_count h (at (table h c m (row @ [x])) False [] r_i (length (row @ [x])))) r
        (line_text (y # xs) @ ys) zs"
    proof (rule 3(1) [OF table_into [OF 3(2)] 3(3) _ _ 3(6)])
      show "takes (read_strings r_count h (at c3 False (last (y # xs)) r_i (length ((row @ [x]) @ butlast (y # xs))))) r (10 # ys) zs"
        if "reads_into h r_i c3 c m ((row @ [x]) @ butlast (y # xs))" for c3
        using 3(7) [of c3] that by (simp add: butlast.simps split del: if_split)
    qed (use 3(5) in auto)
  qed (simp_all add: opaque_def)
  then show ?case using takes_plain_field [OF 3(2,3), of x r "letter CHR '','' # line_text (y # xs) @ ys" zs] 3(5) by simp
qed simp

lemma takes_line:
  assumes "reads_into h r_i c1 c m []" "r_i < r_count" "fs \<noteq> []" "\<forall>x \<in> set fs. field_ok c x"
    and "is_separator c (letter CHR '','')" "csv_record_size c = 0 \<or> csv_record_size c = length fs"
    and "takes (read_strings r_count h (at ((table h c m fs)\<lparr>csv_record_size := length fs\<rparr>) False [] (r_i + 1) 0)) r ys zs"
  shows "takes (read_strings r_count h (at c1 False [] r_i 0)) r (line_text fs @ ys) zs"
proof -
  have p: "processRecord (butlast fs @ [last fs]) (table h c m (butlast fs @ [last fs])) =
      Inr ((table h c m fs)\<lparr>csv_record_size := length fs\<rparr>)"
    using assms(3,6) by (auto simp: processRecord_def updateAndCheckRecordSize_def)
  have "takes (read_strings r_count h (at c2 False (last fs) r_i (length (butlast fs)))) r (10 # ys) zs"
    if "reads_into h r_i c2 c m (butlast fs)" for c2
    by (rule takes_newline [OF that assms(2) p assms(7)])
  then show ?thesis using takes_fields_of_line [OF assms(1-5), of r ys zs] by simp
qed

text \<open>A line with another number of fields than the first throws.\<close>

lemma takes_wrong_line:
  assumes "reads_into h r_i c1 c m []" "r_i < r_count" "fs \<noteq> []" "\<forall>x \<in> set fs. field_ok c x"
    and "is_separator c (letter CHR '','')" "csv_record_size c \<notin> {0, length fs}"
  shows "takes (read_strings r_count h (at c1 False [] r_i 0)) (Inl (Runtime_Error ''Invalid record size.'')) (line_text fs @ ys) ys"
proof -
  have p: "processRecord (butlast fs @ [last fs]) (table h c m (butlast fs @ [last fs])) =
      Inl (Runtime_Error ''Invalid record size.'')"
    using assms(3,6) by (auto simp: processRecord_def updateAndCheckRecordSize_def)
  have "takes (read_strings r_count h (at c2 False (last fs) r_i (length (butlast fs)))) (Inl (Runtime_Error ''Invalid record size.'')) (10 # ys) ys"
    if "reads_into h r_i c2 c m (butlast fs)" for c2
    by (rule takes_newline_error [OF that assms(2) p])
  then show ?thesis
    using takes_fields_of_line [OF assms(1-5), of "Inl (Runtime_Error ''Invalid record size.'')" ys ys] by simp
qed

lemma takes_rows:
  assumes "csv_views_null c" "length (csv_matrix c) + length rows < r_count" "is_separator c (letter CHR '','')"
    and "\<forall>row \<in> set rows. row \<noteq> [] \<and> length row = n \<and> (\<forall>x \<in> set row. field_ok c x)"
    and "csv_record_size c = n \<or> csv_record_size c = 0"
    and "c' = c\<lparr>csv_matrix := csv_matrix c @ rows, csv_record_size := (if rows = [] then csv_record_size c else n)\<rparr>"
    and "takes (read_strings r_count False (at c' False [] (length (csv_matrix c')) 0)) r ys zs"
  shows "takes (read_strings r_count False (at c False [] (length (csv_matrix c)) 0)) r
    (concat (map line_text rows) @ ys) zs"
  using assms
proof (induction rows arbitrary: c)
  case Nil
  then show ?case by simp
next
  case (Cons row rows)
  let ?c = "(table False c (csv_matrix c) row)\<lparr>csv_record_size := length row\<rparr>"
  have same: "field_ok ?c = field_ok c" "is_separator ?c = is_separator c"
    by (simp_all add: fun_eq_iff field_ok_def field_byte_ok_def is_separator_def)
  have "takes (read_strings r_count False (at ?c False [] (length (csv_matrix ?c)) 0)) r
    (concat (map line_text rows) @ ys) zs"
    by (rule Cons.IH) (use Cons.prems same in \<open>auto simp: table_def\<close>)
  moreover have "length (csv_matrix ?c) = length (csv_matrix c) + 1" by (simp add: table_def)
  ultimately have "takes (read_strings r_count False (at ?c False [] (length (csv_matrix c) + 1) 0)) r
    (concat (map line_text rows) @ ys) zs" by simp
  then show ?case
    using takes_line [OF start_row [OF Cons.prems(1) refl], of r_count row] Cons.prems by auto
qed

lemma toString_same:
  assumes "csv_views_null c" "\<forall>row \<in> set (csv_matrix c). length row = n"
  shows "CSV_toString c = Inr (line_text (csv_header c) @ concat (map line_text (csv_matrix c)), c)"
proof (cases "csv_matrix c")
  case (Cons row rows)
  then have n: "columns (csv_matrix c) = n" using assms(2) by (simp add: columns_def)
  have p: "map (padded n) (csv_matrix c) = csv_matrix c" using assms(2) by (simp add: map_idI padded_def)
  have "map (\<lambda>row. line_text (take n row)) (csv_matrix c) = map line_text (csv_matrix c)" using assms(2) by simp
  then show ?thesis using assms(1) by (simp only: CSV_toString_def n p Let_def) simp
qed (use assms(1) in \<open>simp add: CSV_toString_def columns_def Let_def\<close>)

text \<open>A file of one line of quoted fields.\<close>

definition quoted :: "byte list \<Rightarrow> byte list" where
  "quoted x = 34 # escape x @ [34]"

definition quotable :: "byte list csv \<Rightarrow> byte list \<Rightarrow> bool" where
  "quotable c x \<longleftrightarrow> (\<forall>b \<in> set x. field_byte_ok c True b)"

lemma takes_quoted_text:
  assumes "reads_into h r_i c1 c m row" "r_i < r_count" "quotable c x"
    and "\<And>c2. reads_into h r_i c2 c m row \<Longrightarrow> takes (read_strings r_count h (at c2 True x r_i (length row))) r ys zs"
  shows "takes (read_strings r_count h (at c1 True [] r_i (length row))) r (escape x @ ys) zs"
  using takes_field [OF assms(1,2), of x True "[]" "length row" r ys zs] assms(3,4) by (simp add: quotable_def)

lemma takes_closed:
  assumes "reads_into h r_i c1 c m row" "r_i < r_count" "b = 10 \<or> is_separator c b" "b \<noteq> 34"
    and "takes (read_strings r_count h (at c1 False cur r_i f)) r (b # ys) zs"
  shows "takes (read_strings r_count h (at c1 True cur r_i f)) r (34 # b # ys) zs"
  by (rule takes_quote) (use assms quotes_close [of c1 b cur ys] separator_into [OF assms(1), of b] in auto)

lemma takes_opened:
  assumes "r_i < r_count" "takes (read_strings r_count h (at c1 True [] r_i f)) r ys zs"
  shows "takes (read_strings r_count h (at c1 False [] r_i f)) r (34 # ys) zs"
  by (rule takes_quote) (use assms quotes_open [of c1 ys] in auto)

text \<open>The last field of a record, quoted, or the rest of one that began in quotes.\<close>

lemma takes_last_quoted:
  assumes "reads_into h r_i c1 c m row" "r_i < r_count" "quotable c x"
    and "processRecord (row @ [x]) (table h c m (row @ [x])) = Inr c2"
    and "takes (read_strings r_count h (at c2 False [] (r_i + 1) 0)) r ys zs"
  shows "takes (read_strings r_count h (at c1 True [] r_i (length row))) r (escape x @ 34 # 10 # ys) zs"
proof (rule takes_quoted_text [OF assms(1-3)])
  fix c3
  assume c3: "reads_into h r_i c3 c m row"
  show "takes (read_strings r_count h (at c3 True x r_i (length row))) r (34 # 10 # ys) zs"
    by (rule takes_closed [OF c3 assms(2)]) (simp_all add: takes_newline [OF c3 assms(2,4,5)])
qed

text \<open>Reading ends on every stream.\<close>

lemma ends_get:
  assumes "\<And>b. ends_below n (f b)"
  shows "ends_below (Suc n) (bindF getF f)"
  unfolding ends_below_def
proof (intro allI impI)
  fix s xs
  assume r: "remaining s xs" "length xs < Suc n"
  show "ok (\<lambda>_ ys. suffix ys xs) (bindF getF f s)"
  proof (rule ok_get [OF r(1)])
    fix c ys s'
    assume c: "xs = c # ys" "remaining s' ys"
    have "ok (\<lambda>_ us. suffix us ys) (f c s')" using assms c r(2) unfolding ends_below_def by simp
    then show "ok (\<lambda>_ us. suffix us xs) (f c s')" by (rule ok_suffix) (simp add: c suffix_ConsI)
  qed
qed

lemma advances_quotes: "advances (handleQuotes c q cur b)"
  unfolding handleQuotes_def by (auto intro!: advances_bind advancing)

lemma ends_case_prod [ends_intro]: "(\<And>a b. ends_below n (f a b)) \<Longrightarrow> ends_below n (case p of (a, b) \<Rightarrow> f a b)"
  by (cases p) simp

lemma strings_below: "ends_below n (read_strings r_count h st)"
proof (induction n arbitrary: st)
  case (Suc n)
  show ?case
    unfolding strings_unfold [of r_count h st]
    by (rule ends_if, rule ends_get, rule ends_if, rule ends_lift, rule ends_bind [OF advances_quotes])
      (intro ends_intro Suc.IH, rule ends_lift)
qed simp

lemma advances_strings: "advances (CSV_read_strings r_count h c)"
  unfolding CSV_read_strings_def
  by (rule advances_bind [OF advances_all]) (auto intro: strings_below advancing)

section \<open>Properties\<close>

lemma takes_end_of_table:
  assumes "length (csv_matrix c) < r_count"
  shows "takes (read_strings r_count False (at c False [] (length (csv_matrix c)) 0))
    (Inr (at c False [] (length (csv_matrix c)) 0)) (255 # ys) ys"
  using takes_eof [of "at c False [] (length (csv_matrix c)) 0" r_count False ys] assms by simp

lemma start_at: "strings_start c = at c False [] 0 0"
  by (simp add: strings_start_def at_def)

lemma takes_strings:
  "takes (read_strings r_count h (at c False [] 0 0)) (Inr st) xs ys \<Longrightarrow> takes (CSV_read_strings r_count h c) (Inr (cs_csv st)) xs ys"
  unfolding CSV_read_strings_def start_at by (erule takes_bind) (rule takes_lift)

text \<open>
  C25. The text of a table is read back: with a header, rows that are as long as it, and fields of
  plain bytes, \<open>toString\<close> leaves the table as it is, and reading its text and the byte of the end gives
  the table and takes nothing else, if the uninitialised pointers to views of both tables are null. A
  field may be empty, the last one of a row too: the repository's own test
  testCSVParserRecordWithInvalidNumberOfFields expects that record to throw, which it does not.
\<close>

theorem csv_roundtrip:
  assumes "CSV_new True (letter CHR '','') = Inr c0" "csv_views_null c" "csv_separator c = letter CHR '',''" "csv_header c \<noteq> []"
    and "\<forall>x \<in> set (csv_header c). field_ok c x"
    and "\<forall>row \<in> set (csv_matrix c). length row = length (csv_header c) \<and> (\<forall>x \<in> set row. field_ok c x)"
    and "csv_record_size c = length (csv_header c)" "length (csv_matrix c) < size_max"
  shows "\<exists>xs. CSV_toString c = Inr (xs, c) \<and> (\<forall>s ys. remaining s (xs @ 255 # ys) \<longrightarrow>
    (\<exists>s'. CSV_read True c0 s = Some (Inr c, s') \<and> remaining s' ys))"
proof -
  let ?n = "length (csv_header c)" and ?txt = "concat (map line_text (csv_matrix c))"
  define c1 where "c1 = (\<lparr>csv_views_null = True, csv_separator = letter CHR '','', csv_record_size = ?n, csv_header = csv_header c,
      csv_matrix = []\<rparr> :: byte list csv)"
  have c0: "csv_views_null c0" "CSV_reset c0 = c0" "csv_separator c0 = letter CHR '',''" "csv_record_size c0 = 0" "csv_header c0 = []" "csv_matrix c0 = []"
    using assms(1) by (auto simp: CSV_new_def CSV_reset_def)
  have ok: "field_ok c0 = field_ok c" "field_ok c1 = field_ok c"
    using assms(3) c0(3) by (simp_all add: fun_eq_iff field_ok_def field_byte_ok_def is_separator_def c1_def)
  have comma: "is_separator c0 (letter CHR '','')" "is_separator c1 (letter CHR '','')"
    using c0(3) by (simp_all add: is_separator_def c1_def)
  have c1: "(table True c0 [] (csv_header c))\<lparr>csv_record_size := ?n\<rparr> = c1"
    using c0 by (cases c0) (simp add: table_def c1_def)
  have c: "c = c1\<lparr>csv_matrix := csv_matrix c1 @ csv_matrix c,
      csv_record_size := (if csv_matrix c = [] then csv_record_size c1 else ?n)\<rparr>"
    using assms(2,3,7) by (cases c) (simp add: c1_def)
  have r: "takes (CSV_read True c0) (Inr c) (line_text (csv_header c) @ ?txt @ 255 # ys) ys" for ys
  proof -
    have "takes (read_strings 1 True (at c0 False [] 0 0)) (Inr (at c1 False [] 1 0)) (line_text (csv_header c) @ (?txt @ 255 # ys)) (?txt @ 255 # ys)"
      by (rule takes_line [OF start_header [OF c0(1,5)], where m = "[]"])
        (use assms(4,5) ok comma c0(4) takes_full [of 1 "at c1 False [] 1 0" True "?txt @ 255 # ys"] c1 in auto)
    from takes_strings [OF this]
    have h: "takes (CSV_read_strings 1 True c0) (Inr c1) (line_text (csv_header c) @ (?txt @ 255 # ys)) (?txt @ 255 # ys)" by simp
    have e: "takes (read_strings size_max False (at c False [] (length (csv_matrix c)) 0))
        (Inr (at c False [] (length (csv_matrix c)) 0)) (255 # ys) ys"
      by (rule takes_end_of_table) (rule assms(8))
    have "takes (read_strings size_max False (at c1 False [] (length (csv_matrix c1)) 0))
        (Inr (at c False [] (length (csv_matrix c)) 0)) (?txt @ 255 # ys) ys"
      by (rule takes_rows [OF _ _ comma(2) _ _ c e]) (use assms(4,6,8) ok in \<open>auto simp: c1_def\<close>)
    then have "takes (read_strings size_max False (at c1 False [] 0 0)) (Inr (at c False [] (length (csv_matrix c)) 0)) (?txt @ 255 # ys) ys"
      by (simp add: c1_def)
    from takes_strings [OF this] have b: "takes (CSV_read_strings size_max False c1) (Inr c) (?txt @ 255 # ys) ys" by simp
    have "takes (CSV_read True c0) (Inr c) (line_text (csv_header c) @ (?txt @ 255 # ys)) ys"
      unfolding CSV_read_def c0(2) if_True by (rule takes_bind [OF h], rule b)
    then show ?thesis by simp
  qed
  show ?thesis
    by (rule exI [where x = "line_text (csv_header c) @ ?txt"])
      (use toString_same [OF assms(2), of ?n] assms(6) r in \<open>simp add: takes_def\<close>)
qed

theorem csv_roundtrip_witness:
  "\<exists>c0 s'. CSV_new True (letter CHR '','') = Inr c0 \<and>
    CSV_read True c0 (EStream_memory (bytes ''a,b'' @ 10 # bytes ''1,'' @ [10, 255])) =
      Some (Inr \<lparr>csv_views_null = True, csv_separator = letter CHR '','', csv_record_size = 2,
        csv_header = [bytes ''a'', bytes ''b''], csv_matrix = [[bytes ''1'', []]]\<rparr>, s')"
proof -
  let ?c = "\<lparr>csv_views_null = True, csv_separator = letter CHR '','', csv_record_size = 2,
        csv_header = [bytes ''a'', bytes ''b''], csv_matrix = [[bytes ''1'', []]]\<rparr> :: byte list csv"
  let ?s = "EStream_memory (bytes ''a,b'' @ 10 # bytes ''1,'' @ [10, 255])"
  obtain c0 :: "byte list csv" where c0: "CSV_new True (letter CHR '','') = Inr c0" by (simp add: CSV_new_def)
  have x: "CSV_toString ?c = Inr (bytes ''a,b'' @ 10 # bytes ''1,'' @ [10], ?c)"
    by (simp add: CSV_toString_def columns_def padded_def Let_def)
  have "remaining ?s ((bytes ''a,b'' @ 10 # bytes ''1,'' @ [10]) @ 255 # [])"
    by (simp add: EStream_memory_def remaining_def es_inv_def pending_def chunks_ok_def)
  moreover have "\<exists>xs. CSV_toString ?c = Inr (xs, ?c) \<and> (\<forall>s ys. remaining s (xs @ 255 # ys) \<longrightarrow>
      (\<exists>s'. CSV_read True c0 s = Some (Inr ?c, s') \<and> remaining s' ys))"
    by (rule csv_roundtrip [OF c0]) (auto simp: field_ok_def field_byte_ok_def is_separator_def size_max_def)
  ultimately show ?thesis using c0 unfolding x by blast
qed

text \<open>
  C26. Quotes protect quotes and nothing else, in a table whose pointers to views are null. A quoted
  field of any bytes but separators, line ends and the byte of the end is read as it was, with its
  doubled quotes; but a separator in it still ends the field, and the rest of the quoted text is a
  field of its own.
\<close>

theorem csv_quotes:
  assumes "csv_views_null c" "csv_matrix c = []" "quotable c x" "quotable c y"
    and "is_separator c sep" "sep \<notin> {10, 34, 255}"
  shows "(remaining s (quoted x @ 10 # 255 # ys) \<longrightarrow>
      (\<exists>s'. CSV_read False c s = Some (Inr (c\<lparr>csv_matrix := [[x]], csv_record_size := 1\<rparr>), s') \<and> remaining s' ys)) \<and>
    (remaining s (quoted (x @ sep # y) @ 10 # 255 # ys) \<longrightarrow>
      (\<exists>s'. CSV_read False c s = Some (Inr (c\<lparr>csv_matrix := [[x, y]], csv_record_size := 2\<rparr>), s') \<and> remaining s' ys))"
proof -
  let ?c = "CSV_reset c"
  have q: "quotable ?c x" "quotable ?c y" "is_separator ?c sep"
    using assms by (simp_all add: quotable_def field_byte_ok_def is_separator_def CSV_reset_def)
  have i: "reads_into False 0 ?c ?c [] []" using start_row [of ?c "[]"] assms(1,2) by (simp add: CSV_reset_def)
  have p: "processRecord (row @ [z]) (table False ?c [] (row @ [z])) =
      Inr (c\<lparr>csv_matrix := [row @ [z]], csv_record_size := length row + 1\<rparr>)" for row z
    using assms(2) by (simp add: processRecord_def updateAndCheckRecordSize_def table_def CSV_reset_def)
  have read: "takes (CSV_read False c) (Inr c') xs ys" if "takes (read_strings size_max False (at ?c False [] 0 0)) (Inr (at c' q [] r f)) xs ys"
    for c' q r f xs
    using takes_strings [OF that] by (simp add: CSV_read_def bindF_value)
  have e: "takes (read_strings size_max False (at c' False [] 1 0)) (Inr (at c' False [] 1 0)) (255 # ys) ys" for c'
    using takes_eof [of "at c' False [] 1 0" size_max False ys] by (simp add: size_max_def)
  have pos: "0 < size_max" by (simp add: size_max_def)
  have e': "takes (read_strings size_max False (at c' False [] (0 + 1) 0)) (Inr (at c' False [] 1 0)) (255 # ys) ys" for c'
    using e by simp
  have "takes (read_strings size_max False (at ?c True [] 0 (length ([] :: byte list list))))
      (Inr (at (c\<lparr>csv_matrix := [[] @ [x]], csv_record_size := length ([] :: byte list list) + 1\<rparr>) False [] 1 0)) (escape x @ 34 # 10 # 255 # ys) ys"
    by (rule takes_last_quoted [OF i pos q(1) p e'])
  then have 1: "takes (CSV_read False c) (Inr (c\<lparr>csv_matrix := [[x]], csv_record_size := 1\<rparr>)) (34 # escape x @ 34 # 10 # 255 # ys) ys"
    using pos by (intro read takes_opened) simp_all
  let ?r = "Inr (at (c\<lparr>csv_matrix := [[x] @ [y]], csv_record_size := length [x] + 1\<rparr>) False [] 1 0)"
  have "takes (read_strings size_max False (at ?c True [] 0 (length ([] :: byte list list)))) ?r
      (escape x @ sep # escape y @ 34 # 10 # 255 # ys) ys"
  proof (rule takes_quoted_text [OF i pos q(1)])
    fix c2
    assume c2: "reads_into False 0 c2 ?c [] []"
    have "reads_into False 0 (table False ?c [] ([] @ [x])) ?c [] [x]" using table_into [OF c2, of "[x]"] by simp
    from takes_last_quoted [OF this pos q(2) p e']
    have "takes (read_strings size_max False (at (table False ?c [] ([] @ [x])) True [] 0 (length ([] @ [x])))) ?r
        (escape y @ 34 # 10 # 255 # ys) ys" by simp
    then show "takes (read_strings size_max False (at c2 True x 0 (length ([] :: byte list list)))) ?r
        (sep # escape y @ 34 # 10 # 255 # ys) ys"
      by (rule takes_separator [OF c2 pos q(3), rotated 2]) (use assms(6) in \<open>simp_all add: opaque_def\<close>)
  qed
  then have 2: "takes (CSV_read False c) (Inr (c\<lparr>csv_matrix := [[x, y]], csv_record_size := 2\<rparr>))
      (34 # escape x @ sep # escape y @ 34 # 10 # 255 # ys) ys"
    using pos by (intro read takes_opened) (simp_all add: numeral_2_eq_2)
  have "escape (x @ sep # y) = escape x @ sep # escape y" using assms(6) by (simp add: escape_def)
  then show ?thesis using 1 2 unfolding takes_def quoted_def by auto
qed

theorem csv_quotes_witness:
  "\<exists>s'. CSV_read False \<lparr>csv_views_null = True, csv_separator = 44, csv_record_size = 0, csv_header = [], csv_matrix = []\<rparr>
      (EStream_memory (34 # bytes ''a,b'' @ [34, 10, 255])) =
    Some (Inr \<lparr>csv_views_null = True, csv_separator = 44, csv_record_size = 2, csv_header = [], csv_matrix = [[bytes ''a'', bytes ''b'']]\<rparr>, s')"
proof -
  let ?c = "\<lparr>csv_views_null = True, csv_separator = 44, csv_record_size = 0, csv_header = [], csv_matrix = []\<rparr> :: byte list csv"
  let ?s = "EStream_memory (34 # bytes ''a,b'' @ [34, 10, 255])"
  have "remaining ?s (quoted (bytes ''a'' @ 44 # bytes ''b'') @ 10 # 255 # [])"
    by (simp add: EStream_memory_def remaining_def es_inv_def pending_def chunks_ok_def quoted_def escape_def)
  with csv_quotes [of ?c "bytes ''a''" "bytes ''b''" 44 ?s "[]"] show ?thesis
    by (auto simp: quotable_def field_byte_ok_def is_separator_def)
qed

text \<open>
  C27. The fields of a row are counted, in a table whose pointers to views are null: behind rows of
  \<open>n\<close> fields a row with another number of fields makes the read throw, and what is behind it is not
  taken.
\<close>

theorem csv_record_sizes:
  assumes "csv_views_null c" "csv_matrix c = []" "is_separator c (letter CHR '','')" "rows \<noteq> []" "row \<noteq> []" "length row \<noteq> n"
    and "\<forall>r \<in> set rows. r \<noteq> [] \<and> length r = n \<and> (\<forall>x \<in> set r. field_ok c x)" "\<forall>x \<in> set row. field_ok c x"
    and "length rows < size_max"
    and "remaining s (concat (map line_text rows) @ line_text row @ ys)"
  shows "\<exists>s'. CSV_read False c s = Some (Inl (Runtime_Error ''Invalid record size.''), s') \<and> remaining s' ys"
proof -
  let ?c = "CSV_reset c" and ?e = "Inl (Runtime_Error ''Invalid record size.'')"
  have f: "field_ok ?c = field_ok c" "is_separator ?c (letter CHR '','')" "csv_record_size ?c = 0" "csv_matrix ?c = []" "csv_views_null ?c"
    using assms(1-3) by (simp_all add: fun_eq_iff field_ok_def field_byte_ok_def is_separator_def CSV_reset_def)
  define c' where "c' = ?c\<lparr>csv_matrix := csv_matrix ?c @ rows, csv_record_size := (if rows = [] then csv_record_size ?c else n)\<rparr>"
  have c': "field_ok c' = field_ok c" "is_separator c' (letter CHR '','')" "csv_record_size c' = n" "length (csv_matrix c') < size_max"
    "csv_views_null c'"
    using f assms(3,4,9) by (simp_all add: fun_eq_iff field_ok_def field_byte_ok_def is_separator_def c'_def CSV_reset_def)
  have n: "n \<noteq> 0" using assms(4,7) by (cases rows) auto
  have "takes (read_strings size_max False (at c' False [] (length (csv_matrix c')) 0)) ?e (line_text row @ ys) ys" for ys
    by (rule takes_wrong_line [OF start_row [OF c'(5) refl] c'(4) assms(5)]) (use assms(6,8) c' n in auto)
  from takes_rows [OF f(5) _ f(2) _ _ c'_def this]
  have "takes (read_strings size_max False (at ?c False [] 0 0)) ?e (concat (map line_text rows) @ line_text row @ ys) ys" for ys
    using assms(7,9) f by simp
  then have "takes (CSV_read False c) ?e (concat (map line_text rows) @ line_text row @ ys) ys"
    unfolding CSV_read_def CSV_read_strings_def start_at if_False bindF_value by (rule takes_bind_error)
  then show ?thesis using assms(10) unfolding takes_def by blast
qed

theorem csv_record_sizes_witness:
  "\<exists>s'. CSV_read False \<lparr>csv_views_null = True, csv_separator = 44, csv_record_size = 0, csv_header = [], csv_matrix = []\<rparr>
      (EStream_memory (bytes ''a'' @ 10 # bytes ''b,c'' @ [10])) = Some (Inl (Runtime_Error ''Invalid record size.''), s')"
proof -
  let ?c = "\<lparr>csv_views_null = True, csv_separator = 44, csv_record_size = 0, csv_header = [], csv_matrix = []\<rparr> :: byte list csv"
  let ?s = "EStream_memory (bytes ''a'' @ 10 # bytes ''b,c'' @ [10])"
  have "remaining ?s (concat (map line_text [[bytes ''a'']]) @ line_text [bytes ''b'', bytes ''c''] @ [])"
    by (simp add: EStream_memory_def remaining_def es_inv_def pending_def chunks_ok_def)
  with csv_record_sizes [of ?c "[[bytes ''a'']]" "[bytes ''b'', bytes ''c'']" 1 ?s "[]"] show ?thesis
    by (auto simp: field_ok_def field_byte_ok_def is_separator_def size_max_def)
qed

text \<open>
  C28. Reading a table of strings ends on every stream, with and without a header and for every number
  of rows asked for, whatever the quotes, the line ends and the table it is read into.
\<close>

theorem csv_ends:
  assumes "remaining s xs"
  shows "(\<exists>r s'. CSV_read has_header c s = Some (r, s')) \<and> (\<exists>r s'. CSV_read_count n c s = Some (r, s'))"
proof -
  have "advances (CSV_read has_header c)" "advances (CSV_read_count n c)"
    unfolding CSV_read_def CSV_read_count_def
    by (intro advances_bind advances_if advances_strings advances_lift)+
  then show ?thesis using advancesD [OF _ assms] unfolding ok_def by meson
qed

theorem csv_ends_witness:
  "\<exists>r s'. CSV_read True \<lparr>csv_views_null = True, csv_separator = 44, csv_record_size = 0, csv_header = [], csv_matrix = []\<rparr>
    (EStream_memory (bytes ''a,b'')) = Some (r, s')"
proof -
  have "remaining (EStream_memory (bytes ''a,b'')) (bytes ''a,b'')"
    by (simp add: EStream_memory_def remaining_def es_inv_def pending_def chunks_ok_def)
  from csv_ends [OF this] show ?thesis by blast
qed

end
