(* ===== verification/Matrix_Vector.thy ===== *)
theory Matrix_Vector
  imports Shared_Array
begin

text \<open>
  \<open>MatrixVector<T>\<close> of lib/datastructures/datastructures.h: a shared array with the pointer to a view.
  A vector without a view is its array; a vector with one gives the elements from the start of the
  view on and refuses to be changed. Members that take a const vector and call its functions, which
  are not const, do not compile when they are used and are left out: the arithmetic, the distances
  and \<open>view\<close>. Of \<open>Matrix\<close> there are the constructor from a list and the number of rows, for rows of
  any type.
\<close>

section \<open>Vectors and their store\<close>

record 'a vectors =
  vs_arrays :: "'a shared_arrays"
  vs_next :: nat
  vs_views :: "nat \<Rightarrow> (nat \<times> nat) option"

record MatrixVector =
  mv_ctrl :: "nat option"
  view_obj :: "nat option"

definition MatrixVectorView_equal :: "nat \<times> nat \<Rightarrow> nat \<times> nat \<Rightarrow> bool" where
  "MatrixVectorView_equal v other \<longleftrightarrow> fst v = fst other \<and> snd v = snd other"

text \<open>What the base class does.\<close>

definition on_arrays :: "('a shared_arrays, 'b) prog \<Rightarrow> ('a vectors, 'b) prog" where
  "on_arrays p s = (case p (vs_arrays s) of (r, t) \<Rightarrow> (r, s\<lparr>vs_arrays := t\<rparr>))"

definition new_view :: "nat \<Rightarrow> nat \<Rightarrow> ('a vectors, nat) prog" where
  "new_view start stop s =
     (Inr (vs_next s), s\<lparr>vs_next := vs_next s + 1, vs_views := (vs_views s)(vs_next s \<mapsto> (start, stop))\<rparr>)"

definition delete_view :: "nat option \<Rightarrow> ('a vectors, unit) prog" where
  "delete_view v s =
     (case v of
        None \<Rightarrow> (Inr (), s)
      | Some a \<Rightarrow> (case vs_views s a of
          None \<Rightarrow> (Inl Undefined, s)
        | Some _ \<Rightarrow> (Inr (), s\<lparr>vs_views := (vs_views s)(a := None)\<rparr>)))"

section \<open>Constructors, copies and the destructor\<close>

text \<open>The pointer to the view is left uninitialised by most of the constructors: it holds \<open>garbage\<close>.\<close>

definition MatrixVector_default :: "'a \<Rightarrow> nat option \<Rightarrow> ('a vectors, MatrixVector) prog" where
  "MatrixVector_default d garbage =
     bindS (on_arrays (SharedArray_new d)) (\<lambda>c. returnS \<lparr>mv_ctrl = Some c, view_obj = garbage\<rparr>)"

definition MatrixVector_of_list :: "'a \<Rightarrow> nat option \<Rightarrow> 'a list \<Rightarrow> ('a vectors, MatrixVector) prog" where
  "MatrixVector_of_list d garbage xs =
     bindS (on_arrays (SharedArray_of_list d xs)) (\<lambda>c. returnS \<lparr>mv_ctrl = Some c, view_obj = garbage\<rparr>)"

definition MatrixVector_of_string :: "'a \<Rightarrow> nat option \<Rightarrow> 'a list \<Rightarrow> ('a vectors, MatrixVector) prog" where
  "MatrixVector_of_string d garbage xs =
     bindS (on_arrays (SharedArray_of_string d xs)) (\<lambda>c. returnS \<lparr>mv_ctrl = Some c, view_obj = garbage\<rparr>)"

text \<open>The array is passed by value: a copy for the parameter, one for the base, and the parameter ends.\<close>

definition MatrixVector_of_shared :: "nat option \<Rightarrow> nat option \<Rightarrow> ('a vectors, MatrixVector) prog" where
  "MatrixVector_of_shared garbage a =
     bindS (on_arrays (SharedArray_copy a)) (\<lambda>p.
     bindS (on_arrays (SharedArray_copy p)) (\<lambda>c.
     bindS (on_arrays (SharedArray_delete p)) (\<lambda>_. returnS \<lparr>mv_ctrl = c, view_obj = garbage\<rparr>)))"

text \<open>A constructor that throws destroys its base.\<close>

definition refuse :: "nat option \<Rightarrow> string \<Rightarrow> ('a vectors, 'b) prog" where
  "refuse h message = bindS (on_arrays (SharedArray_delete h)) (\<lambda>_. throwS (Runtime_Error message))"

definition MatrixVector_with_cap :: "'a \<Rightarrow> nat \<Rightarrow> ('a vectors, MatrixVector) prog" where
  "MatrixVector_with_cap d initial_cap =
     bindS (on_arrays (SharedArray_with_cap d initial_cap)) (\<lambda>c.
       if initial_cap \<le> 1 then refuse (Some c) ''View must have at least two elements (remember inclusive).''
       else bindS (new_view 0 (initial_cap - 1)) (\<lambda>v. returnS \<lparr>mv_ctrl = Some c, view_obj = Some v\<rparr>))"

text \<open>The default constructor of the base makes a control block that is then forgotten.\<close>

definition MatrixVector_view :: "'a \<Rightarrow> nat option \<Rightarrow> MatrixVector \<Rightarrow> nat \<Rightarrow> nat \<Rightarrow> ('a vectors, MatrixVector) prog" where
  "MatrixVector_view d garbage other start stop =
     bindS (on_arrays (SharedArray_new d)) (\<lambda>c.
       if mv_ctrl other = None then returnS \<lparr>mv_ctrl = Some c, view_obj = garbage\<rparr>
       else let view_size = sub64 stop start
         in bindS (\<lambda>s. (SharedArray_size (mv_ctrl other) (vs_arrays s), s)) (\<lambda>n.
           if view_size \<le> 0 \<or> n < view_size then refuse (mv_ctrl other) ''Invalid view coordinates.''
           else bindS (new_view start stop) (\<lambda>v. returnS \<lparr>mv_ctrl = mv_ctrl other, view_obj = Some v\<rparr>)))"

definition MatrixVector_copy :: "'a \<Rightarrow> MatrixVector \<Rightarrow> ('a vectors, MatrixVector) prog" where
  "MatrixVector_copy d other =
     bindS (on_arrays (SharedArray_new d)) (\<lambda>_.
     bindS (on_arrays (SharedArray_copy (mv_ctrl other))) (\<lambda>c. returnS \<lparr>mv_ctrl = c, view_obj = view_obj other\<rparr>))"

definition MatrixVector_copy_assign :: "MatrixVector \<Rightarrow> MatrixVector \<Rightarrow> ('a vectors, MatrixVector) prog" where
  "MatrixVector_copy_assign v other =
     bindS (on_arrays (SharedArray_copy (mv_ctrl other))) (\<lambda>c. returnS \<lparr>mv_ctrl = c, view_obj = view_obj other\<rparr>)"

text \<open>Moves give the vector and what is left of the other one.\<close>

definition MatrixVector_move :: "'a \<Rightarrow> nat option \<Rightarrow> MatrixVector \<Rightarrow> ('a vectors, MatrixVector \<times> MatrixVector) prog" where
  "MatrixVector_move d garbage x =
     bindS (on_arrays (SharedArray_new d)) (\<lambda>c. returnS (x, \<lparr>mv_ctrl = Some c, view_obj = garbage\<rparr>))"

definition MatrixVector_move_assign :: "MatrixVector \<Rightarrow> MatrixVector \<Rightarrow> MatrixVector \<times> MatrixVector" where
  "MatrixVector_move_assign v x = (x, v)"

definition MatrixVector_delete :: "MatrixVector \<Rightarrow> ('a vectors, unit) prog" where
  "MatrixVector_delete v =
     bindS (case mv_ctrl v of
         None \<Rightarrow> delete_view (view_obj v)
       | Some c \<Rightarrow> bindS (\<lambda>s. (ctrl_of (Some c) (vs_arrays s), s)) (\<lambda>k.
           if instance_count k = 1 then delete_view (view_obj v) else returnS ()))
       (\<lambda>_. on_arrays (SharedArray_delete (mv_ctrl v)))"

section \<open>Views\<close>

definition view_of :: "nat \<Rightarrow> 'a vectors \<Rightarrow> (nat \<times> nat) res" where
  "view_of a s = deref (vs_views s) a"

definition viewEnd :: "MatrixVector \<Rightarrow> 'a vectors \<Rightarrow> nat res" where
  "viewEnd v s =
     (case view_obj v of
        None \<Rightarrow> bindR (SharedArray_size (mv_ctrl v) (vs_arrays s)) (\<lambda>n. Inr (sub64 n 1))
      | Some a \<Rightarrow> bindR (view_of a s) (\<lambda>w. Inr (snd w)))"

definition viewStart :: "MatrixVector \<Rightarrow> 'a vectors \<Rightarrow> nat res" where
  "viewStart v s =
     (case view_obj v of
        None \<Rightarrow> Inr 0
      | Some a \<Rightarrow> bindR (view_of a s) (\<lambda>w. Inr (fst w)))"

definition MatrixVector_size :: "MatrixVector \<Rightarrow> 'a vectors \<Rightarrow> nat res" where
  "MatrixVector_size v s =
     (if view_obj v = None then SharedArray_size (mv_ctrl v) (vs_arrays s)
      else bindR (viewEnd v s) (\<lambda>e. bindR (viewStart v s) (\<lambda>b. Inr (add64 (sub64 e b) 1))))"

text \<open>
  The subscript: the errors for a position outside of the view or of the buffer are made and not
  thrown. The result is the index of the cell in the array.
\<close>

definition MatrixVector_index :: "'a \<Rightarrow> MatrixVector \<Rightarrow> nat \<Rightarrow> ('a vectors, nat) prog" where
  "MatrixVector_index d v pos =
     bindS (if view_obj v = None then returnS pos
            else bindS (\<lambda>s. (viewStart v s, s)) (\<lambda>b. returnS (add64 pos b))) (\<lambda>i.
     on_arrays (SharedArray_index_pos d (mv_ctrl v) i))"

section \<open>Changing a vector\<close>

definition view_only :: string where
  "view_only = ''Cannot modify a view-only matrix vector.''"

definition unless_view :: "MatrixVector \<Rightarrow> ('a shared_arrays, unit) prog \<Rightarrow> ('a vectors, unit) prog" where
  "unless_view v p = (if view_obj v = None then on_arrays p else throwS (Runtime_Error view_only))"

definition MatrixVector_insert :: "'a \<Rightarrow> MatrixVector \<Rightarrow> nat \<Rightarrow> 'a list \<Rightarrow> ('a vectors, unit) prog" where
  "MatrixVector_insert d v pos els = unless_view v (SharedArray_insert d (mv_ctrl v) pos els)"

definition MatrixVector_insert_el :: "'a \<Rightarrow> MatrixVector \<Rightarrow> nat \<Rightarrow> 'a \<Rightarrow> ('a vectors, unit) prog" where
  "MatrixVector_insert_el d v pos el = unless_view v (SharedArray_insert_el d (mv_ctrl v) pos el)"

definition MatrixVector_uniqueAppend :: "'a \<Rightarrow> MatrixVector \<Rightarrow> 'a \<Rightarrow> ('a vectors, unit) prog" where
  "MatrixVector_uniqueAppend d v el = unless_view v (SharedArray_uniqueAppend d (mv_ctrl v) el)"

definition MatrixVector_append :: "'a \<Rightarrow> MatrixVector \<Rightarrow> 'a \<Rightarrow> ('a vectors, unit) prog" where
  "MatrixVector_append d v el = unless_view v (SharedArray_append d (mv_ctrl v) el)"

definition MatrixVector_append_els :: "'a \<Rightarrow> MatrixVector \<Rightarrow> 'a list \<Rightarrow> ('a vectors, unit) prog" where
  "MatrixVector_append_els d v els = unless_view v (SharedArray_append_els d (mv_ctrl v) els)"

definition MatrixVector_remove_n :: "'a \<Rightarrow> MatrixVector \<Rightarrow> nat \<Rightarrow> nat \<Rightarrow> ('a vectors, unit) prog" where
  "MatrixVector_remove_n d v pos num_els = unless_view v (SharedArray_remove_n d (mv_ctrl v) pos num_els)"

definition MatrixVector_removeEl :: "'a \<Rightarrow> MatrixVector \<Rightarrow> 'a \<Rightarrow> ('a vectors, unit) prog" where
  "MatrixVector_removeEl d v el = unless_view v (SharedArray_removeEl d (mv_ctrl v) el)"

definition MatrixVector_remove :: "'a \<Rightarrow> MatrixVector \<Rightarrow> nat \<Rightarrow> ('a vectors, unit) prog" where
  "MatrixVector_remove d v pos = unless_view v (SharedArray_remove d (mv_ctrl v) pos)"

definition MatrixVector_removeFront :: "'a \<Rightarrow> MatrixVector \<Rightarrow> ('a vectors, unit) prog" where
  "MatrixVector_removeFront d v = unless_view v (SharedArray_removeFront d (mv_ctrl v))"

definition MatrixVector_removeBack :: "'a \<Rightarrow> MatrixVector \<Rightarrow> ('a vectors, unit) prog" where
  "MatrixVector_removeBack d v = unless_view v (SharedArray_removeBack d (mv_ctrl v))"

definition MatrixVector_plus :: "'a \<Rightarrow> MatrixVector \<Rightarrow> 'a \<Rightarrow> ('a vectors, unit) prog" where
  "MatrixVector_plus d v x = MatrixVector_append d v x"

section \<open>Copies of the elements and equality\<close>

text \<open>The cell of a subscript, read.\<close>

definition MatrixVector_get :: "'a \<Rightarrow> MatrixVector \<Rightarrow> nat \<Rightarrow> ('a vectors, 'a) prog" where
  "MatrixVector_get d v pos =
     bindS (MatrixVector_index d v pos) (\<lambda>i.
     (\<lambda>s. (bindR (array_of (mv_ctrl v) (vs_arrays s)) (\<lambda>a. readB (e_buf a) i), s)))"

text \<open>
  The loop of \<open>copy\<close> and what becomes of the copy when a call throws. The end of the view is
  looked up once: a first turn that returned would be needed for it to change.
\<close>

fun copy_loop :: "'a \<Rightarrow> MatrixVector \<Rightarrow> MatrixVector \<Rightarrow> nat \<Rightarrow> nat \<Rightarrow> ('a vectors, unit) prog" where
  "copy_loop d v c i 0 = returnS ()"
| "copy_loop d v c i (Suc n) =
     bindS (MatrixVector_get d v i) (\<lambda>x. bindS (MatrixVector_append d c x) (\<lambda>_. copy_loop d v c (i + 1) n))"

definition ended :: "MatrixVector \<Rightarrow> ('a vectors, 'b) prog \<Rightarrow> ('a vectors, 'b) prog" where
  "ended c p s =
     (case p s of
        (Inr x, s') \<Rightarrow> (Inr x, s')
      | (Inl e, s') \<Rightarrow> bindS (MatrixVector_delete c) (\<lambda>_. throwS e) s')"

definition MatrixVector_copied :: "'a \<Rightarrow> MatrixVector \<Rightarrow> nat \<Rightarrow> ('a vectors, MatrixVector) prog" where
  "MatrixVector_copied d v initial_cap =
     bindS (\<lambda>s. (SharedArray_cap (mv_ctrl v) (vs_arrays s), s)) (\<lambda>cap.
     bindS (\<lambda>s. (MatrixVector_size v s, s)) (\<lambda>n.
     let initial_cap = (if initial_cap = size_max then cap else initial_cap)
     in bindS (MatrixVector_with_cap d (if initial_cap < n then cap else initial_cap)) (\<lambda>c.
       ended c
         (bindS (\<lambda>s. (viewStart v s, s)) (\<lambda>b.
          bindS (\<lambda>s. (viewEnd v s, s)) (\<lambda>e.
          bindS (copy_loop d v c b (e + 1 - b)) (\<lambda>_. returnS c)))))))"

fun equal_loop :: "'a \<Rightarrow> MatrixVector \<Rightarrow> MatrixVector \<Rightarrow> nat \<Rightarrow> nat \<Rightarrow> ('a vectors, bool) prog" where
  "equal_loop d v other i 0 = returnS True"
| "equal_loop d v other i (Suc n) =
     bindS (MatrixVector_get d v i) (\<lambda>x. bindS (MatrixVector_get d other i) (\<lambda>y.
       if x \<noteq> y then returnS False else equal_loop d v other (i + 1) n))"

text \<open>The pointers to the views are compared, not the views.\<close>

definition MatrixVector_equal :: "'a \<Rightarrow> MatrixVector \<Rightarrow> MatrixVector \<Rightarrow> ('a vectors, bool) prog" where
  "MatrixVector_equal d v other =
     bindS (\<lambda>s. (MatrixVector_size v s, s)) (\<lambda>n.
     bindS (\<lambda>s. (MatrixVector_size other s, s)) (\<lambda>m.
     bindS (if m \<noteq> n then returnS False else equal_loop d v other 0 n) (\<lambda>equals.
     returnS (equals \<and> view_obj v = view_obj other))))"

section \<open>Matrices\<close>

fun append_rows :: "'r \<Rightarrow> MatrixVector \<Rightarrow> 'r list \<Rightarrow> ('r vectors, unit) prog" where
  "append_rows d m [] = returnS ()"
| "append_rows d m (r # rs) = bindS (MatrixVector_append d m r) (\<lambda>_. append_rows d m rs)"

text \<open>The member is made, a vector is moved to it, and the rows of the list are appended.\<close>

definition Matrix_of_list :: "'r \<Rightarrow> nat option \<Rightarrow> 'r list \<Rightarrow> ('r vectors, MatrixVector) prog" where
  "Matrix_of_list d garbage rs =
     bindS (MatrixVector_default d garbage) (\<lambda>m.
     ended m (bindS (MatrixVector_with_cap d (length rs)) (\<lambda>x.
       let (m', x') = MatrixVector_move_assign m x
       in bindS (MatrixVector_delete x') (\<lambda>_. ended m' (bindS (append_rows d m' rs) (\<lambda>_. returnS m'))))))"

definition rows :: "MatrixVector \<Rightarrow> 'r vectors \<Rightarrow> nat res" where
  "rows m s = MatrixVector_size m s"

section \<open>What views do\<close>

lemmas vector_ops = MatrixVector_insert_def MatrixVector_insert_el_def MatrixVector_uniqueAppend_def
  MatrixVector_append_def MatrixVector_append_els_def MatrixVector_remove_n_def MatrixVector_removeEl_def
  MatrixVector_remove_def MatrixVector_removeFront_def MatrixVector_removeBack_def MatrixVector_plus_def

lemma unless_view_throws: "view_obj v \<noteq> None \<Longrightarrow> unless_view v p s = (Inl (Runtime_Error view_only), s)"
  by (auto simp: unless_view_def)

lemma unless_view_runs: "view_obj v = None \<Longrightarrow> unless_view v p = on_arrays p"
  by (simp add: unless_view_def)

text \<open>A block that was just made.\<close>

definition with_block :: "'a Array \<Rightarrow> 'a vectors \<Rightarrow> 'a vectors" where
  "with_block a s = s\<lparr>vs_arrays := snd (SharedArray_of a (vs_arrays s))\<rparr>"

lemma with_block_views [simp]: "vs_next (with_block a s) = vs_next s" "vs_views (with_block a s) = vs_views s"
  by (simp_all add: with_block_def)

lemma new_block: "on_arrays (SharedArray_of a) s = (Inr (sa_next (vs_arrays s)), with_block a s)"
  by (simp add: on_arrays_def with_block_def SharedArray_of_def)

lemma with_cap_small:
  assumes "n \<le> 1"
  shows "fst (MatrixVector_with_cap d n s) =
    Inl (Runtime_Error ''View must have at least two elements (remember inclusive).'')"
  using assms by (simp add: MatrixVector_with_cap_def SharedArray_with_cap_def bindS_def new_block refuse_def
      on_arrays_def with_block_def SharedArray_of_def SharedArray_delete_def deref_def Let_def)

lemma with_cap_view:
  assumes "1 < n"
  shows "MatrixVector_with_cap d n s =
    (Inr \<lparr>mv_ctrl = Some (sa_next (vs_arrays s)), view_obj = Some (vs_next s)\<rparr>,
     snd (new_view 0 (n - 1) (with_block (Array_with_cap d n) s)))"
  using assms by (simp add: MatrixVector_with_cap_def SharedArray_with_cap_def new_block new_view_def with_block_def bindS_def)

lemma with_cap_cases:
  obtains e where "fst (MatrixVector_with_cap d n s) = Inl e" |
    "1 < n" "MatrixVector_with_cap d n s =
      (Inr \<lparr>mv_ctrl = Some (sa_next (vs_arrays s)), view_obj = Some (vs_next s)\<rparr>,
       snd (new_view 0 (n - 1) (with_block (Array_with_cap d n) s)))"
  using with_cap_small [of n d s] with_cap_view [of n d s] by (cases "n \<le> 1") auto

lemma append_rows_throws:
  "view_obj m \<noteq> None \<Longrightarrow> rs \<noteq> [] \<Longrightarrow> append_rows d m rs s = (Inl (Runtime_Error view_only), s)"
  by (cases rs) (auto simp: MatrixVector_append_def unless_view_throws bindS_def)

lemma ended_error: "fst (p s) = Inl e \<Longrightarrow> \<exists>e'. fst (ended c p s) = Inl e'"
  by (cases "p s") (auto simp: ended_def bindS_def split: prod.splits sum.splits)

lemma bindS_error: "fst (m s) = Inl e \<Longrightarrow> fst (bindS m f s) = Inl e"
  by (auto simp: bindS_def split: prod.splits sum.splits)

lemma bindS_fails: "(\<And>x s'. m s = (Inr x, s') \<Longrightarrow> \<exists>e. fst (f x s') = Inl e) \<Longrightarrow> \<exists>e. fst (bindS m f s) = Inl e"
  by (auto simp: bindS_def split: prod.splits sum.splits)

lemma matrix_list_fails: "\<exists>e. fst (Matrix_of_list d garbage rs s) = Inl e"
  unfolding Matrix_of_list_def
proof (rule bindS_fails)
  fix m s1
  let ?p = "bindS (MatrixVector_with_cap d (length rs)) (\<lambda>x. let (m', x') = MatrixVector_move_assign m x
      in bindS (MatrixVector_delete x') (\<lambda>_. ended m' (bindS (append_rows d m' rs) (\<lambda>_. returnS m'))))"
  have "\<exists>e. fst (?p s1) = Inl e"
  proof (rule bindS_fails)
    fix x s2
    assume x: "MatrixVector_with_cap d (length rs) s1 = (Inr x, s2)"
    have v: "view_obj x \<noteq> None" "rs \<noteq> []" using x by (cases rule: with_cap_cases [of d "length rs" s1]; fastforce)+
    have "\<exists>e. fst (ended x (bindS (append_rows d x rs) (\<lambda>_. returnS x)) s3) = Inl e" for s3
      by (rule ended_error [where e = "Runtime_Error view_only"]) (simp add: bindS_error append_rows_throws [OF v])
    then show "\<exists>e. fst ((let (m', x') = MatrixVector_move_assign m x
        in bindS (MatrixVector_delete x') (\<lambda>_. ended m' (bindS (append_rows d m' rs) (\<lambda>_. returnS m')))) s2) = Inl e"
      unfolding MatrixVector_move_assign_def Let_def prod.case by (intro bindS_fails)
  qed
  then show "\<exists>e. fst (ended m ?p s1) = Inl e" using ended_error by blast
qed

text \<open>Copying throws at the first element.\<close>

lemma copy_loop_fails: "view_obj c \<noteq> None \<Longrightarrow> \<exists>e. fst (copy_loop d v c i (Suc n) s) = Inl e"
  unfolding copy_loop.simps by (rule bindS_fails) (simp add: bindS_error MatrixVector_append_def unless_view_throws)

lemma copied_fails:
  assumes "vs_views s (vs_next s) = None"
    and "fst (MatrixVector_copied d v n s) = Inr c"
  shows "\<exists>a b e. view_obj v = Some a \<and> vs_views s a = Some (b, e) \<and> e < b"
proof (rule ccontr)
  assume no: "\<not> ?thesis"
  have "\<exists>e. fst (MatrixVector_copied d v n s) = Inl e"
    unfolding MatrixVector_copied_def
  proof (rule bindS_fails, rule bindS_fails, unfold Let_def, rule bindS_fails)
    fix cap s1 m s2 c' s3
    let ?cap = "if (if n = size_max then cap else n) < m then cap else if n = size_max then cap else n"
    assume s: "(SharedArray_cap (mv_ctrl v) (vs_arrays s), s) = (Inr cap, s1)" "(MatrixVector_size v s1, s1) = (Inr m, s2)"
    assume c': "MatrixVector_with_cap d ?cap s2 = (Inr c', s3)"
    have view: "view_obj c' \<noteq> None" and s3: "s3 = snd (new_view 0 (?cap - 1) (with_block (Array_with_cap d ?cap) s))"
      using c' s by (cases rule: with_cap_cases [of d ?cap s2]; auto)+
    have "\<exists>e. fst (bindS (\<lambda>s. (viewStart v s, s)) (\<lambda>b. bindS (\<lambda>s. (viewEnd v s, s)) (\<lambda>e.
        bindS (copy_loop d v c' b (e + 1 - b)) (\<lambda>_. returnS c'))) s3) = Inl e"
    proof (rule bindS_fails, rule bindS_fails)
      fix b s4 e s5
      assume b: "(viewStart v s3, s3) = (Inr b, s4)" and e: "(viewEnd v s4, s4) = (Inr e, s5)"
      have "b \<le> e"
      proof (cases "view_obj v")
        case None
        then show ?thesis using b by (simp add: viewStart_def)
      next
        case (Some a)
        have "vs_views s3 a = vs_views s a" if "a \<noteq> vs_next s" using that by (simp add: s3 new_view_def with_block_def)
        moreover have "a \<noteq> vs_next s"
          using s Some assms(1) by (auto simp: MatrixVector_size_def viewEnd_def view_of_def deref_def)
        ultimately show ?thesis using b e no Some
          by (auto simp: viewStart_def viewEnd_def view_of_def deref_def split: option.splits)
      qed
      then have "e + 1 - b = Suc (e - b)" by simp
      with copy_loop_fails [OF view, of d v b "e - b" s5]
      show "\<exists>e'. fst (bindS (copy_loop d v c' b (e + 1 - b)) (\<lambda>_. returnS c') s5) = Inl e'"
        using bindS_error by metis
    qed
    then show "\<exists>e. fst (ended c' (bindS (\<lambda>s. (viewStart v s, s)) (\<lambda>b. bindS (\<lambda>s. (viewEnd v s, s)) (\<lambda>e.
        bindS (copy_loop d v c' b (e + 1 - b)) (\<lambda>_. returnS c')))) s3) = Inl e" using ended_error by blast
  qed
  then show False using assms(2) by simp
qed

text \<open>What the view constructor does to a vector whose block is \<open>c\<close>.\<close>

definition unwind :: "nat \<Rightarrow> 'a vectors \<Rightarrow> 'a vectors" where
  "unwind c s = snd (on_arrays (SharedArray_delete (Some c)) s)"

lemma view_runs:
  assumes "mv_ctrl other = Some c" "sa_ctrls (vs_arrays s) c = Some k" "c < sa_next (vs_arrays s)"
    and "s1 = with_block (Array_default d) s"
  shows "MatrixVector_view d garbage other b e s =
    (if 0 < sub64 e b \<and> sub64 e b \<le> e_size (ac_array k)
     then (Inr \<lparr>mv_ctrl = Some c, view_obj = Some (vs_next s)\<rparr>, snd (new_view b e s1))
     else (Inl (Runtime_Error ''Invalid view coordinates.''), unwind c s1))"
proof -
  have c: "sa_ctrls (vs_arrays s1) c = Some k" using assms by (simp add: with_block_def SharedArray_of_def)
  then have n: "SharedArray_size (Some c) (vs_arrays s1) = Inr (e_size (ac_array k))"
    by (simp add: SharedArray_size_def array_of_def ctrl_of_def deref_def)
  have m: "on_arrays (SharedArray_new d) s = (Inr (sa_next (vs_arrays s)), s1)"
    using new_block [of "Array_default d" s] assms(4) by (simp add: SharedArray_new_def)
  have r: "refuse (Some c) msg s1 = (Inl (Runtime_Error msg), unwind c s1)" for msg
    using c by (simp add: refuse_def unwind_def on_arrays_def SharedArray_delete_def deref_def Let_def bindS_def)
  have "vs_next s1 = vs_next s" using assms(4) by (simp add: with_block_def)
  then show ?thesis
    using m n r assms(1) by (auto simp: MatrixVector_view_def bindS_def Let_def new_view_def)
qed

lemma block_kept:
  "c < sa_next (vs_arrays s) \<Longrightarrow> sa_ctrls (vs_arrays (with_block a s)) c = sa_ctrls (vs_arrays s) c"
  by (simp add: with_block_def SharedArray_of_def)

lemma unwind_last:
  assumes "sa_ctrls (vs_arrays s) c = Some k" "instance_count k = 1"
  shows "array_of (Some c) (vs_arrays (unwind c s)) = Inl Undefined"
  using assms by (simp add: unwind_def on_arrays_def SharedArray_delete_def deref_def Let_def array_of_def ctrl_of_def)

section \<open>Properties\<close>

text \<open>The subscript of a vector made with a capacity appends, although it is a view.\<close>

lemma subscript_appends:
  assumes "1 < n" "n < 2 ^ 63" "pos < 2 ^ 64" "MatrixVector_with_cap d n s = (Inr v, s')"
  shows "\<exists>s'' a. MatrixVector_index d v pos s' = (Inr 0, s'') \<and> array_of (mv_ctrl v) (vs_arrays s'') = Inr a \<and>
    elems a = [d] \<and> vs_views s'' = vs_views s'"
proof -
  let ?a = "Array_with_cap d n"
  have z: "e_size ?a = 0" by (simp add: Array_with_cap_def)
  then have "grows ?a 1" by (simp add: grows_def upsize_def)
  from Array_append_correct [OF Array_with_cap_correct [OF assms(2)] this, of d d]
  obtain a where a: "Array_append d ?a d = Inr a" "elems a = [d]" "e_size a = 1" using z by auto
  then have "Array_index_pos d ?a pos = Inr (a, 0)" using z by (simp add: Array_index_pos_def)
  moreover have "add64 pos 0 = pos" using assms(3) by (simp add: add64_def)
  ultimately show ?thesis
    using assms(4) a(2) unfolding with_cap_view [OF assms(1)]
    by (auto simp: MatrixVector_index_def viewStart_def view_of_def deref_def bindS_def new_view_def with_block_def
        SharedArray_of_def on_arrays_def SharedArray_index_pos_def through_def array_of_def ctrl_of_def)
qed

text \<open>
  C24. A vector that is made with a capacity is a view: with a capacity of less than two the
  constructor throws, and otherwise every call that inserts, appends or removes throws and changes
  nothing, although the vector reports as many elements as the capacity and holds none. The subscript
  alone does change it: at any position it appends an element to the array without throwing (for
  a capacity that can be allocated), and the reference is to the first cell. So copying throws, but for a view that ends before it starts, and no
  matrix can be made from a list.
\<close>

theorem capacity_is_view:
  assumes "vs_views s (vs_next s) = None" "n < 2 ^ 64"
  shows "(n \<le> 1 \<longrightarrow> (\<exists>e. fst (MatrixVector_with_cap d n s) = Inl e)) \<and>
    (\<forall>v s'. MatrixVector_with_cap d n s = (Inr v, s') \<longrightarrow> MatrixVector_size v s' = Inr n \<and>
      (\<forall>change \<in> {MatrixVector_insert d v pos els, MatrixVector_insert_el d v pos el, MatrixVector_uniqueAppend d v el,
          MatrixVector_append d v el, MatrixVector_append_els d v els, MatrixVector_plus d v el,
          MatrixVector_remove_n d v pos k, MatrixVector_removeEl d v el, MatrixVector_remove d v pos,
          MatrixVector_removeFront d v, MatrixVector_removeBack d v}. \<forall>t.
        change t = (Inl (Runtime_Error ''Cannot modify a view-only matrix vector.''), t)) \<and>
      (pos < 2 ^ 64 \<longrightarrow> n < 2 ^ 63 \<longrightarrow> (\<exists>s'' a. MatrixVector_index d v pos s' = (Inr 0, s'') \<and>
        array_of (mv_ctrl v) (vs_arrays s'') = Inr a \<and> elems a = [d] \<and> vs_views s'' = vs_views s'))) \<and>
    (\<forall>v c. fst (MatrixVector_copied d v n s) = Inr c \<longrightarrow>
      (\<exists>a b e. view_obj v = Some a \<and> vs_views s a = Some (b, e) \<and> e < b)) \<and>
    (\<exists>e. fst (Matrix_of_list d garbage els s) = Inl e)"
proof -
  have "MatrixVector_size v s' = Inr n \<and> (\<forall>change \<in> {MatrixVector_insert d v pos els, MatrixVector_insert_el d v pos el,
      MatrixVector_uniqueAppend d v el, MatrixVector_append d v el, MatrixVector_append_els d v els, MatrixVector_plus d v el,
      MatrixVector_remove_n d v pos k, MatrixVector_removeEl d v el, MatrixVector_remove d v pos,
      MatrixVector_removeFront d v, MatrixVector_removeBack d v}.
      \<forall>t. change t = (Inl (Runtime_Error ''Cannot modify a view-only matrix vector.''), t)) \<and>
      (pos < 2 ^ 64 \<longrightarrow> n < 2 ^ 63 \<longrightarrow> (\<exists>s'' a. MatrixVector_index d v pos s' = (Inr 0, s'') \<and>
        array_of (mv_ctrl v) (vs_arrays s'') = Inr a \<and> elems a = [d] \<and> vs_views s'' = vs_views s'))"
    if r: "MatrixVector_with_cap d n s = (Inr v, s')" for v s'
  proof -
    have "1 < n" using r with_cap_small [of n d s] by (cases "n \<le> 1") auto
    note made = r [unfolded with_cap_view [OF this]]
    have "sub64 (n - 1) 0 = n - 1" "add64 (n - 1) 1 = n" using \<open>1 < n\<close> assms(2) by (simp_all add: add64_def)
    then have "MatrixVector_size v s' = Inr n"
      using made by (auto simp: MatrixVector_size_def viewEnd_def viewStart_def view_of_def deref_def new_view_def)
    moreover have "view_obj v \<noteq> None" using made by auto
    moreover note subscript_appends [OF \<open>1 < n\<close> _ _ r, of pos]
    ultimately show ?thesis by (simp add: vector_ops unless_view_throws view_only_def)
  qed
  then show ?thesis using with_cap_small [of n d s] copied_fails [OF assms(1)] matrix_list_fails [of d garbage els s] by blast
qed

definition demo_vectors :: "nat vectors" where
  "demo_vectors = \<lparr>vs_arrays = no_arrays, vs_next = 0, vs_views = Map.empty\<rparr>"

theorem capacity_is_view_witness:
  "\<exists>e. fst (Matrix_of_list (0 :: nat) None [1, 2, 3] demo_vectors) = Inl e"
proof -
  have "vs_views demo_vectors (vs_next demo_vectors) = None" by (simp add: demo_vectors_def)
  from capacity_is_view [OF this, of 3 0 0 "[1, 2, 3]" 0 0 None] show ?thesis by simp
qed

text \<open>
  C23. The bounds of views: the constructor takes exactly the pairs whose difference, in 64 bits, is
  between one and the size of the array. So a view reports at least two elements and can report one
  more than the array has, and it may begin behind the end of the array.
\<close>

theorem view_bounds:
  assumes "mv_ctrl other = Some c" "array_of (Some c) (vs_arrays s) = Inr a" "c < sa_next (vs_arrays s)"
    and "e_size a < size_max"
  shows "((\<exists>v s'. MatrixVector_view d garbage other b e s = (Inr v, s')) \<longleftrightarrow> sub64 e b \<in> {1..e_size a}) \<and>
    (\<forall>v s'. MatrixVector_view d garbage other b e s = (Inr v, s') \<longrightarrow>
      (\<exists>n. MatrixVector_size v s' = Inr n \<and> n = sub64 e b + 1 \<and> 2 \<le> n \<and> n \<le> e_size a + 1)) \<and>
    (b < 2 ^ 64 - e_size a \<longrightarrow> 0 < e_size a \<longrightarrow>
      (\<exists>v s'. MatrixVector_view d garbage other b (b + e_size a) s = (Inr v, s') \<and> viewStart v s' = Inr b \<and>
        MatrixVector_size v s' = Inr (e_size a + 1)))"
proof -
  obtain k where k: "sa_ctrls (vs_arrays s) c = Some k" "ac_array k = a"
    using assms(2) by (auto simp: array_of_def ctrl_of_def deref_def split: option.splits)
  note run = view_runs [OF assms(1) k(1) assms(3) refl, of d garbage, unfolded k(2)]
  have made: "MatrixVector_size v s' = Inr (sub64 y x + 1) \<and> viewStart v s' = Inr x \<and> sub64 y x \<in> {1..e_size a}"
    if r: "MatrixVector_view d garbage other x y s = (Inr v, s')" for v s' x y
  proof -
    have i: "sub64 y x \<in> {1..e_size a}" using r run [of x y] by (auto split: if_splits)
    then have "add64 (sub64 y x) 1 = sub64 y x + 1" using assms(4) by (simp add: add64_def size_max_def)
    moreover have "v = \<lparr>mv_ctrl = Some c, view_obj = Some (vs_next s)\<rparr>" "s' = snd (new_view x y (with_block (Array_default d) s))"
      using r i unfolding run [of x y] by (auto split: if_splits)
    ultimately show ?thesis
      using i by (simp add: MatrixVector_size_def viewEnd_def viewStart_def view_of_def deref_def new_view_def)
  qed
  have "sub64 (b + e_size a) b = e_size a" if "b < 2 ^ 64 - e_size a"
    using that by simp
  then have "\<exists>v s'. MatrixVector_view d garbage other b (b + e_size a) s = (Inr v, s') \<and> viewStart v s' = Inr b \<and>
      MatrixVector_size v s' = Inr (e_size a + 1)" if "b < 2 ^ 64 - e_size a" "0 < e_size a"
    using that made [of b "b + e_size a"] run [of b "b + e_size a"] by (simp split: if_splits)
  moreover have "(\<exists>v s'. MatrixVector_view d garbage other b e s = (Inr v, s')) \<longleftrightarrow> sub64 e b \<in> {1..e_size a}"
    unfolding run by auto
  ultimately show ?thesis using made [of b e] by fastforce
qed

definition demo_array :: "nat Array" where
  "demo_array = \<lparr>e_buf = [10, 11, 12, 13], e_cap = 4, e_size = 3, e_sorted = ARRAY_SORT_UNSORTED\<rparr>"

definition demo_vector :: MatrixVector where
  "demo_vector = \<lparr>mv_ctrl = Some 0, view_obj = None\<rparr>"

lemmas demo_defs = demo_vector_def demo_vectors_def demo_array_def with_block_def SharedArray_of_def no_arrays_def
  array_of_def ctrl_of_def deref_def

theorem view_bounds_witness:
  "\<exists>v s'. MatrixVector_view 0 None demo_vector 7 10 (with_block demo_array demo_vectors) = (Inr v, s') \<and>
    MatrixVector_size v s' = Inr 4"
proof -
  have "array_of (Some 0) (vs_arrays (with_block demo_array demo_vectors)) = Inr demo_array"
    "(0 :: nat) < sa_next (vs_arrays (with_block demo_array demo_vectors))" "mv_ctrl demo_vector = Some 0"
    by (simp_all add: demo_defs)
  from view_bounds [OF this(3,1,2), of 0 None 7 10] show ?thesis
    by (auto simp: demo_array_def size_max_def)
qed

text \<open>
  C22. A view does not count as a user of its array. Over an array with one user, destroying the view
  frees the array, and so does a view that is refused: what the vector is used for afterwards is
  undefined.
\<close>

theorem view_lifetime:
  assumes "v = \<lparr>mv_ctrl = Some c, view_obj = None\<rparr>" "sa_ctrls (vs_arrays s) c = Some k" "instance_count k = 1"
    and "c < sa_next (vs_arrays s)" "MatrixVector_view d garbage v b e s = (r, s')"
  shows "(\<forall>w. r = Inr w \<longrightarrow> MatrixVector_size v s' = Inr (e_size (ac_array k)) \<and>
      (\<exists>s''. MatrixVector_delete w s' = (Inr (), s'') \<and> MatrixVector_size v s'' = Inl Undefined \<and>
        fst (MatrixVector_delete v s'') = Inl Undefined)) \<and>
    (\<forall>x. r = Inl x \<longrightarrow> x = Runtime_Error ''Invalid view coordinates.'' \<and> MatrixVector_size v s' = Inl Undefined \<and>
      fst (MatrixVector_delete v s') = Inl Undefined)"
proof -
  let ?s = "with_block (Array_default d) s"
  have c: "sa_ctrls (vs_arrays ?s) c = Some k" using block_kept [OF assms(4)] assms(2) by simp
  have run: "MatrixVector_view d garbage v b e s =
      (if 0 < sub64 e b \<and> sub64 e b \<le> e_size (ac_array k)
       then (Inr \<lparr>mv_ctrl = Some c, view_obj = Some (vs_next s)\<rparr>, snd (new_view b e ?s))
       else (Inl (Runtime_Error ''Invalid view coordinates.''), unwind c ?s))"
    by (rule view_runs [OF _ assms(2,4) refl]) (simp add: assms(1))
  have gone: "MatrixVector_size v t = Inl Undefined \<and> fst (MatrixVector_delete v t) = Inl Undefined"
    if "array_of (Some c) (vs_arrays t) = Inl Undefined" for t
    using that assms(1) by (auto simp: MatrixVector_size_def SharedArray_size_def MatrixVector_delete_def bindS_def
        array_of_def ctrl_of_def deref_def split: option.splits)
  show ?thesis
  proof (cases "0 < sub64 e b \<and> sub64 e b \<le> e_size (ac_array k)")
    case True
    let ?t = "snd (new_view b e ?s)"
    have t: "sa_ctrls (vs_arrays ?t) c = Some k" using c by (simp add: new_view_def)
    have d: "delete_view (Some (vs_next s)) ?t = (Inr (), ?t\<lparr>vs_views := (vs_views ?t)(vs_next s := None)\<rparr>)"
      by (simp add: delete_view_def new_view_def)
    let ?u = "unwind c (?t\<lparr>vs_views := (vs_views ?t)(vs_next s := None)\<rparr>)"
    have "MatrixVector_delete \<lparr>mv_ctrl = Some c, view_obj = Some (vs_next s)\<rparr> ?t = (Inr (), ?u)"
      using t assms(3) d by (simp add: MatrixVector_delete_def bindS_def ctrl_of_def deref_def unwind_def on_arrays_def
          SharedArray_delete_def Let_def)
    moreover have "array_of (Some c) (vs_arrays ?u) = Inl Undefined"
      by (rule unwind_last) (use t assms(3) in simp_all)
    moreover have "MatrixVector_size v ?t = Inr (e_size (ac_array k))"
      using t assms(1) by (simp add: MatrixVector_size_def SharedArray_size_def array_of_def ctrl_of_def deref_def)
    ultimately show ?thesis using assms(5) True gone [of ?u] unfolding run by auto
  next
    case False
    then have "r = Inl (Runtime_Error ''Invalid view coordinates.'')" "s' = unwind c ?s"
      using assms(5) unfolding run by auto
    moreover have "array_of (Some c) (vs_arrays (unwind c ?s)) = Inl Undefined" by (rule unwind_last [OF c assms(3)])
    ultimately show ?thesis using gone by simp
  qed
qed

theorem view_lifetime_witness:
  "\<exists>s'. snd (MatrixVector_view 0 None demo_vector 2 2 (with_block demo_array demo_vectors)) = s' \<and>
    MatrixVector_size demo_vector s' = Inl Undefined"
proof -
  let ?s = "with_block demo_array demo_vectors"
  obtain r s' where r: "MatrixVector_view 0 None demo_vector 2 2 ?s = (r, s')" by fastforce
  have k: "sa_ctrls (vs_arrays ?s) 0 = Some \<lparr>ac_array = demo_array, instance_count = 1\<rparr>" "0 < sa_next (vs_arrays ?s)"
    by (simp_all add: demo_defs)
  have "r = Inl (Runtime_Error ''Invalid view coordinates.'')"
    using r view_runs [of demo_vector 0 ?s _ _ 0 None 2 2, OF _ k refl] by (simp add: demo_vector_def)
  with view_lifetime [OF _ k(1) _ k(2) r] r show ?thesis by (simp add: demo_vector_def)
qed

text \<open>
  The subscript of a view adds the start of the view and does not look at its end; a position behind
  the array appends to it. \<open>at\<close>, which is the base's, counts from the beginning of the array.
\<close>

lemma view_subscripts:
  assumes "v = \<lparr>mv_ctrl = Some c, view_obj = Some w\<rparr>" "vs_views s w = Some (b, e)"
    and "array_of (Some c) (vs_arrays s) = Inr a" "Array_inv a" "b + pos < e_size a"
  shows "MatrixVector_get d v pos s = (Inr (elems a ! (b + pos)), s)"
    "pos < e_size a \<Longrightarrow> SharedArray_at (mv_ctrl v) pos (vs_arrays s) = Inr (elems a ! pos)"
proof -
  obtain k where k: "sa_ctrls (vs_arrays s) c = Some k" "ac_array k = a"
    using assms(3) by (auto simp: array_of_def ctrl_of_def deref_def split: option.splits)
  have "add64 pos b = b + pos" using assms(4,5) by (simp add: Array_inv_def add64_def)
  then have "MatrixVector_index d v pos s = (Inr (b + pos), s)"
    using assms k by (simp add: MatrixVector_index_def viewStart_def view_of_def deref_def bindS_def on_arrays_def
        SharedArray_index_pos_def array_of_def ctrl_of_def Array_index_pos_def through_def fun_upd_idem)
  moreover have "readB (e_buf a) (b + pos) = Inr (elems a ! (b + pos))"
    using assms(4,5) by (simp add: Array_inv_def elems_def)
  ultimately show "MatrixVector_get d v pos s = (Inr (elems a ! (b + pos)), s)"
    using assms(1,3) by (simp add: MatrixVector_get_def bindS_def)
  show "SharedArray_at (mv_ctrl v) pos (vs_arrays s) = Inr (elems a ! pos)" if "pos < e_size a"
    using assms(1,3,4) Array_at_correct [OF assms(4)] that by (simp add: SharedArray_at_def)
qed

end
