(* ===== verification/Validation.thy ===== *)
theory Validation
  imports Http_Message
begin

text \<open>
  \<open>isValidIPAddress\<close> of lib/validation.h, with the \<open>atoi\<close> of \<open>Http_Message\<close>. The text of an octet is not cleared behind a dot, and the last one is not looked at.
\<close>

fun ip_loop :: "byte list \<Rightarrow> byte list \<Rightarrow> bool res" where
  "ip_loop octet_str [] = Inr True"
| "ip_loop octet_str (c # cs) =
     (if c = letter CHR ''.''
      then bindR (atoi octet_str) (\<lambda>octet. if octet < 0 \<or> 255 < octet then Inr False else ip_loop octet_str cs)
      else ip_loop (octet_str @ [c]) cs)"

definition isValidIPAddress :: "byte list \<Rightarrow> bool res" where
  "isValidIPAddress address = ip_loop [] address"

section \<open>Octets pile up\<close>

lemma digit_facts:
  assumes "isDigit c"
  shows "\<not> is_space c" "c \<noteq> letter CHR ''-''" "c \<noteq> letter CHR ''+''" "c \<noteq> letter CHR ''.''"
  using assms by (auto simp: isDigit_def is_space_def word_le_nat_alt)

lemma atoi_digits:
  assumes "digits ds" "decimal 0 ds < 2 ^ 31"
  shows "atoi ds = Inr (int (decimal 0 ds))"
proof -
  have t: "takeWhile isDigit ds = ds" "dropWhile is_space ds = ds"
    using assms(1) by (simp, cases ds) (auto dest: digit_facts(1))
  have "(case ds of [] \<Rightarrow> (False, []) | c # cs \<Rightarrow>
      if c = letter CHR ''-'' then (True, cs) else if c = letter CHR ''+'' then (False, cs) else (False, ds)) = (False, ds)"
    using assms(1) digit_facts(2,3) by (cases ds) auto
  then show ?thesis using assms(2) by (simp add: atoi_def Let_def t)
qed

lemma ip_digits:
  "digits ds \<Longrightarrow> ip_loop octet_str (ds @ cs) = ip_loop (octet_str @ ds) cs"
  by (induction ds arbitrary: octet_str) (auto dest: digit_facts(4))

lemma decimal_less: "digits ds \<Longrightarrow> decimal v ds < (v + 1) * 10 ^ length ds"
proof (induction ds arbitrary: v)
  case (Cons c ds)
  have "decimal (v * 10 + (unat c - 48)) ds < (v * 10 + (unat c - 48) + 1) * 10 ^ length ds"
    by (rule Cons.IH) (use Cons.prems in simp)
  also have "\<dots> \<le> ((v + 1) * 10) * 10 ^ length ds"
    using digit_range(2) [of c] Cons.prems by (intro mult_right_mono) auto
  finally show ?case by (simp add: decimal_def algebra_simps)
qed (simp add: decimal_def)

lemma octet_small:
  assumes "digits ds" "length ds \<le> 3" "decimal 0 xs \<le> 255"
  shows "decimal 0 (xs @ ds) < 2 ^ 31"
proof -
  have "decimal 0 (xs @ ds) < (decimal 0 xs + 1) * 10 ^ length ds"
    using decimal_less [OF assms(1)] by (simp add: decimal_append)
  also have "\<dots> \<le> 256 * 10 ^ 3" using assms(2,3) by (intro mult_mono power_increasing) auto
  finally show ?thesis by simp
qed

lemma ip_octets:
  assumes "\<forall>x \<in> set os. digits x \<and> length x \<le> 3" "digits octet_str" "decimal 0 octet_str \<le> 255" "digits l"
  shows "ip_loop octet_str (concat (map (\<lambda>x. x @ [letter CHR ''.'']) os) @ l) =
    Inr (\<forall>k \<in> {1..length os}. decimal 0 (octet_str @ concat (take k os)) \<le> 255)"
  using assms
proof (induction os arbitrary: octet_str)
  case Nil
  then show ?case using ip_digits [of l octet_str "[]"] by simp
next
  case (Cons x os)
  let ?o = "octet_str @ x" and ?rest = "concat (map (\<lambda>x. x @ [letter CHR ''.'']) os) @ l"
  have x: "digits ?o" "decimal 0 ?o < 2 ^ 31" using octet_small [of x octet_str] Cons.prems by auto
  have split: "(\<forall>k \<in> {1..length (x # os)}. decimal 0 (octet_str @ concat (take k (x # os))) \<le> 255) \<longleftrightarrow>
      decimal 0 ?o \<le> 255 \<and> (\<forall>k \<in> {1..length os}. decimal 0 (?o @ concat (take k os)) \<le> 255)" (is "?l \<longleftrightarrow> ?r")
  proof
    show "?l \<Longrightarrow> ?r"
    proof (intro conjI ballI)
      assume l: ?l
      show "decimal 0 ?o \<le> 255" using bspec [OF l, of 1] by simp
      show "decimal 0 (?o @ concat (take k os)) \<le> 255" if "k \<in> {1..length os}" for k
        using bspec [OF l, of "Suc k"] that by simp
    qed
    show "?r \<Longrightarrow> ?l"
    proof
      fix k
      assume "?r" "k \<in> {1..length (x # os)}"
      then show "decimal 0 (octet_str @ concat (take k (x # os))) \<le> 255"
        by (cases k; cases "k = 1") auto
    qed
  qed
  have "ip_loop octet_str (concat (map (\<lambda>x. x @ [letter CHR ''.'']) (x # os)) @ l) =
      bindR (atoi ?o) (\<lambda>octet. if octet < 0 \<or> 255 < octet then Inr False else ip_loop ?o ?rest)"
    using ip_digits [of x octet_str "letter CHR ''.'' # ?rest"] Cons.prems by (simp cong: if_cong)
  also have "\<dots> = (if 255 < decimal 0 ?o then Inr False else ip_loop ?o ?rest)"
    using atoi_digits [OF x] by simp
  also have "\<dots> = Inr (decimal 0 ?o \<le> 255 \<and> (\<forall>k \<in> {1..length os}. decimal 0 (?o @ concat (take k os)) \<le> 255))"
    using Cons.IH [of ?o] Cons.prems x(1) by (cases "255 < decimal 0 ?o") simp_all
  finally show ?case unfolding split .
qed

section \<open>What is valid\<close>

text \<open>
  For octets of up to three digits the address is valid if the numbers that the octets make when they
  are written behind each other are at most 255, the last octet left out. So \<open>10.0.0.1\<close> is refused and
  \<open>1.2.3.999\<close> is not.
\<close>

lemma ip_address_concatenates:
  assumes "\<forall>x \<in> set os. digits x \<and> length x \<le> 3" "digits l"
  shows "isValidIPAddress (concat (map (\<lambda>x. x @ [letter CHR ''.'']) os) @ l) =
    Inr (\<forall>k \<in> {1..length os}. decimal 0 (concat (take k os)) \<le> 255)"
  using ip_octets [OF assms(1) _ _ assms(2), of "[]"] by (simp add: isValidIPAddress_def decimal_def)

lemma ip_address_examples:
  "isValidIPAddress (bytes ''10.0.0.1'') = Inr False" "isValidIPAddress (bytes ''1.2.3.999'') = Inr True"
  by (code_simp, code_simp)

end
