(* ===== verification/File_Watch.thy ===== *)
theory File_Watch
  imports Prelude "HOL-Library.AList" "HOL-Library.List_Lexorder" "HOL-Library.Char_ord"
begin

text \<open>
  lib/file/file_watcher.cpp, the watchers of inotify and their thread, and the list of writers of
  lib/file/stream_factory.cpp. A call is \<open>None\<close> when it does not return: it waits for a mutex that
  nobody will release. What inotify, poll, read and the handlers of events do is an argument; a
  handler that throws is one of the inputs, and what else handlers do is left out. A weak pointer is
  the number of its watcher. The last pointer to a watcher is dropped without the mutex
  (memory/pointers.h), at any time, and its destructor takes the mutex later: in between the
  watcher is \<open>wt_dying\<close> and still registered. Locking the weak pointer then revives an object whose
  destruction has begun and that is deleted twice; that, and locking it when the watcher is gone
  (see \<open>Shared_Ptr\<close>), is \<open>Undefined\<close>. What clients drop while the thread holds the mutex is an
  argument of its turns, \<open>client_moves\<close>. Lost updates of the counts themselves are left out.
\<close>

section \<open>Watchers\<close>

text \<open>The map of a watcher and the registered watchers are lists in place of \<open>std::map\<close>.\<close>

record FileWatcher =
  paths_wd_map :: "(string \<times> int) list"
  access_mask :: nat

record watching =
  wt_next :: nat
  wt_watchers :: "nat \<Rightarrow> FileWatcher option"
  registeredWatchers :: "(int \<times> nat option) list"
  wt_fd :: int
  thread_run :: bool
  wt_locked :: bool
  wt_removed :: "int list"
  wt_dying :: "nat \<Rightarrow> bool"

definition watching_new :: "watching" where
  "watching_new = \<lparr>wt_next = 0, wt_watchers = Map.empty, registeredWatchers = [], wt_fd = -1, thread_run = False,
     wt_locked = False, wt_removed = [], wt_dying = (\<lambda>_. False)\<rparr>"

type_synonym 'a waiting = "watching \<Rightarrow> ('a res \<times> watching) option"

definition with_mutex :: "'a waiting \<Rightarrow> 'a waiting" where
  "with_mutex f s = (if wt_locked s then None else f (s\<lparr>wt_locked := True\<rparr>))"

definition release :: "watching \<Rightarrow> watching" where
  "release s = s\<lparr>wt_locked := False\<rparr>"

text \<open>The constructor: that the thread does not run is made an error and not thrown.\<close>

definition FileWatcher_new :: "string list \<Rightarrow> nat \<Rightarrow> nat waiting" where
  "FileWatcher_new paths events s =
     Some (Inr (wt_next s), s\<lparr>wt_next := wt_next s + 1, wt_watchers := (wt_watchers s)(wt_next s \<mapsto>
       \<lparr>paths_wd_map = map (\<lambda>p. (p, -1)) (remdups (sort paths)), access_mask = events\<rparr>)\<rparr>)"

definition set_descriptor :: "nat \<Rightarrow> string \<Rightarrow> int \<Rightarrow> watching \<Rightarrow> watching" where
  "set_descriptor w p wd s = s\<lparr>wt_watchers := (wt_watchers s)(w :=
     map_option (\<lambda>x. x\<lparr>paths_wd_map := AList.update p wd (paths_wd_map x)\<rparr>) (wt_watchers s w))\<rparr>"

text \<open>A path that cannot be watched ends the loop, and the mutex is kept.\<close>

fun initialize_loop :: "(string \<Rightarrow> nat \<Rightarrow> int) \<Rightarrow> nat \<Rightarrow> nat \<Rightarrow> string list \<Rightarrow> watching \<Rightarrow> unit res \<times> watching" where
  "initialize_loop add_watch w events [] s = (Inr (), release s)"
| "initialize_loop add_watch w events (p # ps) s =
     (let wd = add_watch p events
      in if wd = -1 then (Inl (Runtime_Error (''Cannot watch path: '' @ p)), s)
         else initialize_loop add_watch w events ps ((set_descriptor w p wd s)
           \<lparr>registeredWatchers := AList.update wd (Some w) (registeredWatchers s)\<rparr>))"

definition FileWatcher_initialize :: "(string \<Rightarrow> nat \<Rightarrow> int) \<Rightarrow> nat \<Rightarrow> unit waiting" where
  "FileWatcher_initialize add_watch w s =
     (case wt_watchers s w of
        None \<Rightarrow> Some (Inl Undefined, s)
      | Some x \<Rightarrow> with_mutex (\<lambda>s. Some (initialize_loop add_watch w (access_mask x) (map fst (paths_wd_map x)) s)) s)"

definition unregister :: "int list \<Rightarrow> watching \<Rightarrow> watching" where
  "unregister wds s =
     s\<lparr>registeredWatchers := filter (\<lambda>(wd, _). wd \<notin> set wds) (registeredWatchers s), wt_removed := wt_removed s @ wds\<rparr>"

text \<open>
  The last pointer to a watcher is dropped (the count of \<open>ESharedPtr\<close> is zero and the destructor of the
  handler's class begins), and what \<open>~FileWatcher\<close> does from the mutex on.
\<close>

definition last_dropped :: "nat \<Rightarrow> watching \<Rightarrow> watching" where
  "last_dropped w s = (if wt_watchers s w = None then s else s\<lparr>wt_dying := (wt_dying s)(w := True)\<rparr>)"

definition FileWatcher_delete :: "nat \<Rightarrow> unit waiting" where
  "FileWatcher_delete w s =
     (case wt_watchers s w of
        None \<Rightarrow> Some (Inl Undefined, s)
      | Some x \<Rightarrow> with_mutex (\<lambda>s. let s' = unregister (map snd (paths_wd_map x)) s
          in Some (Inr (), release (s'\<lparr>wt_watchers := (wt_watchers s')(w := None),
               wt_dying := (wt_dying s')(w := False)\<rparr>))) s)"

section \<open>The thread\<close>

text \<open>
  What clients do while the thread is about one watcher: the watchers whose last pointers they drop
  before its weak pointer is locked, and whether they drop their last pointer to it while the thread
  holds one. In that case the thread itself destroys the watcher and waits for the mutex it has.
\<close>

record client_moves =
  mv_dropped :: "nat list"
  mv_released :: bool

definition lock_watcher :: "nat \<Rightarrow> watching \<Rightarrow> unit res" where
  "lock_watcher w s = (if wt_watchers s w = None \<or> wt_dying s w then Inl Undefined else Inr ())"

definition fileWatcherThreadStart :: "int \<Rightarrow> unit waiting" where
  "fileWatcherThreadStart init_fd = with_mutex (\<lambda>s.
     if init_fd = -1 then Some (Inl (Runtime_Error ''inotify_init''), s\<lparr>wt_fd := init_fd\<rparr>)
     else Some (Inr (), release (s\<lparr>wt_fd := init_fd, thread_run := True\<rparr>)))"

definition clear_paths :: "nat \<Rightarrow> watching \<Rightarrow> watching" where
  "clear_paths w s = s\<lparr>wt_watchers := (wt_watchers s)(w :=
     map_option (\<lambda>x. x\<lparr>paths_wd_map := []\<rparr>) (wt_watchers s w))\<rparr>"

fun stop_loop :: "(nat \<Rightarrow> client_moves) \<Rightarrow> nat \<Rightarrow> (int \<times> nat option) list \<Rightarrow> unit waiting" where
  "stop_loop moves i [] s = Some (Inr (), s)"
| "stop_loop moves i ((wd, p) # reg) s =
     (let s1 = fold last_dropped (mv_dropped (moves i)) s
      in case p of
           None \<Rightarrow> stop_loop moves (Suc i) reg (s1\<lparr>wt_removed := wt_removed s1 @ [wd]\<rparr>)
         | Some w \<Rightarrow>
             (case lock_watcher w s1 of
                Inl e \<Rightarrow> Some (Inl e, s1)
              | Inr _ \<Rightarrow>
                  if mv_released (moves i) then None
                  else stop_loop moves (Suc i) reg ((clear_paths w s1)\<lparr>wt_removed := wt_removed s1 @ [wd]\<rparr>)))"

definition fileWatcherThreadStop :: "(nat \<Rightarrow> client_moves) \<Rightarrow> unit waiting" where
  "fileWatcherThreadStop moves = with_mutex (\<lambda>s.
     case stop_loop moves 0 (registeredWatchers s) s of
       None \<Rightarrow> None
     | Some (Inl e, s') \<Rightarrow> Some (Inl e, s')
     | Some (Inr _, s') \<Rightarrow>
         Some (Inr (), release (s'\<lparr>registeredWatchers := [], wt_fd := -1, thread_run := False\<rparr>)))"

text \<open>A turn of the loop: poll fails, has nothing, or read fails (again or not) or gives events.\<close>

record watch_event =
  ev_wd :: int
  ev_throws :: bool
  ev_moves :: client_moves

datatype watch_input = Poll_error | No_event | Read_error bool | Events "watch_event list"

text \<open>The events of the buffer; an unknown descriptor is registered with an empty pointer.\<close>

fun dispatch :: "watch_event list \<Rightarrow> unit waiting" where
  "dispatch [] s = Some (Inr (), s)"
| "dispatch (ev # evs) s =
     (let s1 = fold last_dropped (mv_dropped (ev_moves ev)) s
      in case map_of (registeredWatchers s1) (ev_wd ev) of
           None \<Rightarrow> dispatch evs (s1\<lparr>registeredWatchers := AList.update (ev_wd ev) None (registeredWatchers s1)\<rparr>)
         | Some None \<Rightarrow> dispatch evs s1
         | Some (Some w) \<Rightarrow>
             (case lock_watcher w s1 of
                Inl e \<Rightarrow> Some (Inl e, s1)
              | Inr _ \<Rightarrow>
                  if mv_released (ev_moves ev) then None
                  else if ev_throws ev then Some (Inl (Runtime_Error ''handle''), s1)
                  else dispatch evs s1))"

text \<open>What the thread does with an exception; the result says whether the loop goes on.\<close>

definition caught :: "(nat \<Rightarrow> client_moves) \<Rightarrow> bool waiting" where
  "caught moves s =
     (case fileWatcherThreadStop moves (release s) of
        None \<Rightarrow> None
      | Some (Inl e, s') \<Rightarrow> Some (Inl e, s')
      | Some (Inr _, s') \<Rightarrow> Some (Inr False, s'))"

definition watcher_turn :: "(nat \<Rightarrow> client_moves) \<Rightarrow> watch_input \<Rightarrow> bool waiting" where
  "watcher_turn moves input s =
     (if \<not> thread_run s then Some (Inr False, s)
      else with_mutex (\<lambda>s. case input of
          Poll_error \<Rightarrow> caught moves s
        | No_event \<Rightarrow> Some (Inr True, release s)
        | Read_error try_again \<Rightarrow> if try_again then Some (Inr True, s) else caught moves s
        | Events evs \<Rightarrow>
            (case dispatch evs s of
               None \<Rightarrow> None
             | Some (Inl e, s') \<Rightarrow> if e = Undefined then Some (Inl e, s') else caught moves s'
             | Some (Inr _, s') \<Rightarrow> Some (Inr True, release s'))) s)"

section \<open>The writers of a stream factory\<close>

record stream_factory =
  sf_writers :: "string list"
  sf_locked :: bool

definition writer :: "(string \<Rightarrow> bool) \<Rightarrow> string \<Rightarrow> stream_factory \<Rightarrow> (unit res \<times> stream_factory) option" where
  "writer opens path s =
     (if sf_locked s then None
      else if \<not> opens path
      then Some (Inl (Runtime_Error (''Unable to open file at path: '' @ path @ '' for writing.'' @ [CHR 0x0A])),
        s\<lparr>sf_locked := True\<rparr>)
      else Some (Inr (), s\<lparr>sf_writers := sf_writers s @ [path]\<rparr>))"

definition removeWriter :: "string \<Rightarrow> stream_factory \<Rightarrow> (unit res \<times> stream_factory) option" where
  "removeWriter path s =
     (if sf_locked s then None else Some (Inr (), s\<lparr>sf_writers := remove1 path (sf_writers s)\<rparr>))"

text \<open>A file that cannot be opened for writing keeps the mutex: no writer is opened or removed any more.\<close>

lemma writer_failure_blocks:
  assumes "\<not> sf_locked s" "\<not> opens path"
  shows "\<exists>e s'. writer opens path s = Some (Inl e, s') \<and> (\<forall>opens' p. writer opens' p s' = None \<and> removeWriter p s' = None)"
  using assms by (simp add: writer_def removeWriter_def)

text \<open>Two writers of one path are not refused; each removal takes one of the entries.\<close>

lemma writers_of_a_path:
  assumes "\<not> sf_locked s" "opens path"
  shows "\<exists>s1 s2 s3. writer opens path s = Some (Inr (), s1) \<and> writer opens path s1 = Some (Inr (), s2) \<and>
    removeWriter path s2 = Some (Inr (), s3) \<and> path \<in> set (sf_writers s3)"
proof -
  have "path \<in> set (remove1 path (sf_writers s @ [path, path]))"
    by (cases "path \<in> set (sf_writers s)") (simp_all add: remove1_append)
  then show ?thesis using assms by (simp add: writer_def removeWriter_def)
qed

section \<open>Registered watchers\<close>

datatype watch_op =
    New "string list" nat
  | Initialize "string \<Rightarrow> nat \<Rightarrow> int" nat
  | Drop nat
  | Destroy nat
  | Turn "nat \<Rightarrow> client_moves" watch_input
  | Start int
  | Stop "nat \<Rightarrow> client_moves"

fun op_do :: "watch_op \<Rightarrow> unit waiting" where
  "op_do (New paths events) s = map_option (\<lambda>(r, s'). (map_sum id (\<lambda>_. ()) r, s')) (FileWatcher_new paths events s)"
| "op_do (Initialize add_watch w) s = FileWatcher_initialize add_watch w s"
| "op_do (Drop w) s = Some (Inr (), last_dropped w s)"
| "op_do (Destroy w) s = FileWatcher_delete w s"
| "op_do (Turn moves input) s = map_option (\<lambda>(r, s'). (map_sum id (\<lambda>_. ()) r, s')) (watcher_turn moves input s)"
| "op_do (Start init_fd) s = fileWatcherThreadStart init_fd s"
| "op_do (Stop moves) s = fileWatcherThreadStop moves s"

text \<open>
  Clients initialize a watcher they have a pointer to, and that was not initialized, and drop pointers
  they have; a destructor goes on when the last pointer was dropped.
\<close>

definition held :: "nat \<Rightarrow> watching \<Rightarrow> bool" where
  "held w s \<longleftrightarrow> wt_watchers s w \<noteq> None \<and> \<not> wt_dying s w"

fun op_ok :: "watch_op \<Rightarrow> watching \<Rightarrow> bool" where
  "op_ok (Initialize add_watch w) s =
     (held w s \<and> (\<exists>x. wt_watchers s w = Some x \<and> distinct (map fst (paths_wd_map x)) \<and>
        (\<forall>wd \<in> snd ` set (paths_wd_map x). wd = -1)))"
| "op_ok (Drop w) s = held w s"
| "op_ok (Destroy w) s = (wt_watchers s w \<noteq> None \<and> wt_dying s w)"
| "op_ok _ s = True"

text \<open>What the clients do during a call or turn.\<close>

fun op_moves :: "watch_op \<Rightarrow> client_moves set" where
  "op_moves (Turn moves input) = range moves \<union> (case input of Events evs \<Rightarrow> set (map ev_moves evs) | _ \<Rightarrow> {})"
| "op_moves (Stop moves) = range moves"
| "op_moves _ = {}"

text \<open>Every order of calls, turns, drops and destructors, up to undefined behaviour.\<close>

inductive watch_reach :: "watching \<Rightarrow> bool" where
  watch_start: "watch_reach watching_new"
| watch_step: "watch_reach s \<Longrightarrow> op_ok op s \<Longrightarrow> op_do op s = Some (r, s') \<Longrightarrow> r \<noteq> Inl Undefined \<Longrightarrow> watch_reach s'"

definition watch_inv :: "watching \<Rightarrow> bool" where
  "watch_inv s \<longleftrightarrow> (\<forall>w. wt_watchers s w \<noteq> None \<longrightarrow> w < wt_next s) \<and>
     (\<forall>wd w. (wd, Some w) \<in> set (registeredWatchers s) \<longrightarrow>
        wd \<noteq> -1 \<and> (\<exists>x. wt_watchers s w = Some x \<and> wd \<in> snd ` set (paths_wd_map x)))"

lemma inv_registered:
  assumes "watch_inv s" "(wd, Some w) \<in> set (registeredWatchers s)"
  obtains x where "wd \<noteq> -1" "wt_watchers s w = Some x" "wd \<in> snd ` set (paths_wd_map x)"
  using assms unfolding watch_inv_def by blast

lemma inv_alive: "watch_inv s \<Longrightarrow> (wd, Some w) \<in> set (registeredWatchers s) \<Longrightarrow> wt_watchers s w \<noteq> None"
  by (fastforce simp: watch_inv_def)

lemma set_update: "set (AList.update k v xs) \<subseteq> insert (k, v) (set xs)"
  by (induction xs) auto

lemma update_other: "(k', v') \<in> set xs \<Longrightarrow> k' \<noteq> k \<Longrightarrow> (k', v') \<in> set (AList.update k v xs)"
  by (induction xs) auto

lemma update_own: "(k, v) \<in> set (AList.update k v xs)"
  by (induction xs) auto

lemma inv_flags:
  "watch_inv s \<Longrightarrow> watch_inv (release s)" "watch_inv s \<Longrightarrow> watch_inv (s\<lparr>wt_locked := b\<rparr>)"
  "watch_inv s \<Longrightarrow> watch_inv (s\<lparr>wt_fd := fd\<rparr>)" "watch_inv s \<Longrightarrow> watch_inv (s\<lparr>wt_fd := fd, thread_run := b\<rparr>)"
  by (simp_all add: watch_inv_def release_def)

lemma same_flags [simp]: "wt_watchers (release s) = wt_watchers s" "registeredWatchers (release s) = registeredWatchers s"
  by (simp_all add: release_def)

lemma inv_same:
  "watch_inv s \<Longrightarrow> wt_next s' = wt_next s \<Longrightarrow> wt_watchers s' = wt_watchers s \<Longrightarrow>
    registeredWatchers s' = registeredWatchers s \<Longrightarrow> watch_inv s'"
  by (simp add: watch_inv_def)

text \<open>One path of a watcher: its old descriptor was \<open>-1\<close>, which is not registered.\<close>

lemma inv_descriptor:
  assumes "watch_inv s" "wt_watchers s w = Some x" "(p, -1) \<in> set (paths_wd_map x)"
    and "\<forall>wd. (p, wd) \<in> set (paths_wd_map x) \<longrightarrow> wd = -1" "wd \<noteq> -1"
  shows "watch_inv ((set_descriptor w p wd s)\<lparr>registeredWatchers := AList.update wd (Some w) (registeredWatchers s)\<rparr>)"
  unfolding watch_inv_def
proof (intro conjI allI impI)
  let ?s = "(set_descriptor w p wd s)\<lparr>registeredWatchers := AList.update wd (Some w) (registeredWatchers s)\<rparr>"
  fix wd' w'
  assume "(wd', Some w') \<in> set (registeredWatchers ?s)"
  then consider "wd' = wd" "w' = w" | "(wd', Some w') \<in> set (registeredWatchers s)"
    using set_update [of wd "Some w" "registeredWatchers s"] by auto
  then have "wd' \<noteq> -1 \<and> (\<exists>y. wt_watchers ?s w' = Some y \<and> wd' \<in> snd ` set (paths_wd_map y))"
  proof cases
    case 1
    then show ?thesis
      using assms(2,5) update_own [of p wd "paths_wd_map x"] by (force simp: set_descriptor_def)
  next
    case 2
    then obtain y where y: "wd' \<noteq> -1" "wt_watchers s w' = Some y" "wd' \<in> snd ` set (paths_wd_map y)"
      using assms(1) unfolding watch_inv_def by blast
    show ?thesis
    proof (cases "w' = w")
      case True
      from y(3) obtain q where q: "(q, wd') \<in> set (paths_wd_map y)" by auto
      then have "q \<noteq> p" using y(1,2) assms(2,4) True by auto
      then have "(q, wd') \<in> set (AList.update p wd (paths_wd_map y))" using update_other [OF q] by blast
      then show ?thesis using y True by (force simp: set_descriptor_def)
    qed (use y in \<open>simp add: set_descriptor_def\<close>)
  qed
  then show "wd' \<noteq> -1" "\<exists>y. wt_watchers ?s w' = Some y \<and> wd' \<in> snd ` set (paths_wd_map y)" by blast+
next
  fix w'
  assume "wt_watchers ((set_descriptor w p wd s)\<lparr>registeredWatchers := AList.update wd (Some w) (registeredWatchers s)\<rparr>) w' \<noteq> None"
  then show "w' < wt_next ((set_descriptor w p wd s)\<lparr>registeredWatchers := AList.update wd (Some w) (registeredWatchers s)\<rparr>)"
    using assms(1) by (auto simp: watch_inv_def set_descriptor_def split: if_splits)
qed

lemma initialize_inv:
  assumes "watch_inv s" "distinct ps"
    and "\<And>p. p \<in> set ps \<Longrightarrow> \<exists>x. wt_watchers s w = Some x \<and> (p, -1) \<in> set (paths_wd_map x) \<and>
      (\<forall>wd. (p, wd) \<in> set (paths_wd_map x) \<longrightarrow> wd = -1)"
    and "initialize_loop add_watch w m ps s = (r, s')"
  shows "watch_inv s' \<and> r \<noteq> Inl Undefined"
  using assms
proof (induction ps arbitrary: s)
  case Nil
  then show ?case by (auto intro: inv_flags)
next
  case (Cons p ps)
  obtain x where x: "wt_watchers s w = Some x" "(p, -1) \<in> set (paths_wd_map x)"
    "\<forall>wd. (p, wd) \<in> set (paths_wd_map x) \<longrightarrow> wd = -1" using Cons.prems(3) [of p] by auto
  show ?case
  proof (cases "add_watch p m = -1")
    case False
    let ?s = "(set_descriptor w p (add_watch p m) s)\<lparr>registeredWatchers := AList.update (add_watch p m) (Some w) (registeredWatchers s)\<rparr>"
    have "watch_inv ?s" by (rule inv_descriptor [OF Cons.prems(1) x False])
    moreover have "\<exists>y. wt_watchers ?s w = Some y \<and> (q, -1) \<in> set (paths_wd_map y) \<and>
        (\<forall>wd. (q, wd) \<in> set (paths_wd_map y) \<longrightarrow> wd = -1)" if q: "q \<in> set ps" for q
    proof -
      have qp: "q \<noteq> p" using Cons.prems(2) q by auto
      have old: "(q, -1) \<in> set (paths_wd_map x)" "\<forall>wd. (q, wd) \<in> set (paths_wd_map x) \<longrightarrow> wd = -1"
        using Cons.prems(3) [of q] q x(1) by auto
      have "(q, -1) \<in> set (AList.update p (add_watch p m) (paths_wd_map x))" by (rule update_other [OF old(1) qp])
      moreover have "wd = -1" if "(q, wd) \<in> set (AList.update p (add_watch p m) (paths_wd_map x))" for wd
        using subsetD [OF set_update that] qp old(2) by simp
      ultimately have "(q, -1) \<in> set (AList.update p (add_watch p m) (paths_wd_map x)) \<and>
        (\<forall>wd. (q, wd) \<in> set (AList.update p (add_watch p m) (paths_wd_map x)) \<longrightarrow> wd = -1)" by blast
      then show ?thesis using x(1) by (simp add: set_descriptor_def)
    qed
    ultimately show ?thesis
      using Cons.IH [of ?s] Cons.prems(2,4) False by (simp add: Let_def)
  qed (use Cons.prems in auto)
qed

lemma watching_delete:
  assumes "watch_inv s" "wt_watchers s w = Some x"
    and "s' = unregister (map snd (paths_wd_map x)) s"
  shows "watch_inv (release (s'\<lparr>wt_watchers := (wt_watchers s')(w := None), wt_dying := d\<rparr>))"
proof -
  have "w' \<noteq> w" if "(wd, Some w') \<in> set (registeredWatchers s)" "wd \<notin> snd ` set (paths_wd_map x)" for wd w'
  proof
    assume "w' = w"
    with inv_registered [OF assms(1) that(1)] show False using assms(2) that(2) by fastforce
  qed
  then show ?thesis using assms(1) by (auto simp: watch_inv_def release_def assms(3) unregister_def)
qed

text \<open>Dropped pointers change nothing but what is dying.\<close>

lemma dropped_same [simp]:
  "wt_watchers (fold last_dropped ws s) = wt_watchers s"
  "registeredWatchers (fold last_dropped ws s) = registeredWatchers s"
  "wt_next (fold last_dropped ws s) = wt_next s"
  by (induction ws arbitrary: s) (simp_all add: last_dropped_def)

lemma dropped_dying: "wt_dying (fold last_dropped ws s) w \<Longrightarrow> wt_dying s w \<or> w \<in> set ws"
proof (induction ws arbitrary: s)
  case (Cons v ws)
  from Cons.IH [OF Cons.prems [simplified]] show ?case by (auto simp: last_dropped_def split: if_splits)
qed simp

text \<open>
  \<open>threatened M s w\<close>: the last pointer to the watcher was dropped, or is dropped by the clients' moves \<open>M\<close>.
  \<open>fine M s\<close>: what comes of a call or turn that starts in \<open>s\<close>.
\<close>

definition threatened :: "client_moves set \<Rightarrow> watching \<Rightarrow> nat \<Rightarrow> bool" where
  "threatened M s w \<longleftrightarrow> wt_dying s w \<or> (\<exists>m \<in> M. w \<in> set (mv_dropped m))"

definition endangered :: "client_moves set \<Rightarrow> watching \<Rightarrow> bool" where
  "endangered M s \<longleftrightarrow> (\<exists>wd w. (wd, Some w) \<in> set (registeredWatchers s) \<and> threatened M s w)"

definition fine :: "client_moves set \<Rightarrow> watching \<Rightarrow> ('a res \<times> watching) option \<Rightarrow> bool" where
  "fine M s outcome \<longleftrightarrow> (case outcome of
       None \<Rightarrow> \<exists>m \<in> M. mv_released m
     | Some (r, s') \<Rightarrow> if r = Inl Undefined then endangered M s
         else watch_inv s' \<and> (\<forall>w. threatened M s' w \<longrightarrow> threatened M s w) \<and>
           (\<forall>wd w. (wd, Some w) \<in> set (registeredWatchers s') \<longrightarrow> (wd, Some w) \<in> set (registeredWatchers s)))"

lemma drop_threatened: "m \<in> M \<Longrightarrow> threatened M (fold last_dropped (mv_dropped m) s) w \<Longrightarrow> threatened M s w"
  unfolding threatened_def using dropped_dying by blast

lemma lock_Undefined:
  "lock_watcher w s = Inl e \<Longrightarrow> wt_watchers s w \<noteq> None \<Longrightarrow> e = Undefined \<and> wt_dying s w"
  by (auto simp: lock_watcher_def split: if_splits)

definition stopped :: "client_moves set \<Rightarrow> watching \<Rightarrow> (int \<times> nat option) list \<Rightarrow> (unit res \<times> watching) option \<Rightarrow> bool" where
  "stopped M s reg outcome \<longleftrightarrow> (case outcome of
       None \<Rightarrow> \<exists>m \<in> M. mv_released m
     | Some (r, s') \<Rightarrow> (r = Inl Undefined \<longrightarrow> (\<exists>wd w. (wd, Some w) \<in> set reg \<and> threatened M s w)) \<and>
         (\<forall>e. r = Inl e \<longrightarrow> e = Undefined) \<and> wt_next s' = wt_next s \<and>
         (\<forall>w. wt_watchers s' w = None \<longleftrightarrow> wt_watchers s w = None) \<and> (\<forall>w. threatened M s' w \<longrightarrow> threatened M s w))"

lemma stopped_step:
  assumes "stopped M s1 reg outcome" and "\<And>w. threatened M s1 w \<Longrightarrow> threatened M s w"
    and "\<And>w. wt_watchers s1 w = None \<longleftrightarrow> wt_watchers s w = None" and "wt_next s1 = wt_next s"
  shows "stopped M s (entry # reg) outcome"
proof (cases outcome)
  case (Some q)
  obtain r s' where q: "q = (r, s')" by fastforce
  have r: "r = Inl Undefined \<longrightarrow> (\<exists>wd w. (wd, Some w) \<in> set reg \<and> threatened M s1 w)" "\<forall>e. r = Inl e \<longrightarrow> e = Undefined"
    "wt_next s' = wt_next s1" "\<forall>w. wt_watchers s' w = None \<longleftrightarrow> wt_watchers s1 w = None"
    "\<forall>w. threatened M s' w \<longrightarrow> threatened M s1 w"
    using assms(1) by (simp_all add: stopped_def Some q)
  have "r = Inl Undefined \<longrightarrow> (\<exists>wd w. (wd, Some w) \<in> set (entry # reg) \<and> threatened M s w)"
    using r(1) assms(2) by (meson list.set_intros(2))
  then show ?thesis using r(2-5) assms(2-4) by (simp add: stopped_def Some q)
qed (use assms(1) in \<open>simp add: stopped_def\<close>)

lemma stop_loop_result:
  assumes "\<forall>wd w. (wd, Some w) \<in> set reg \<longrightarrow> wt_watchers s w \<noteq> None" and "range moves \<subseteq> M"
  shows "stopped M s reg (stop_loop moves i reg s)"
  using assms(1)
proof (induction reg arbitrary: i s)
  case Nil
  then show ?case by (simp add: stopped_def)
next
  case (Cons entry reg)
  obtain wd p where entry: "entry = (wd, p)" by fastforce
  let ?s1 = "fold last_dropped (mv_dropped (moves i)) s"
  have m: "moves i \<in> M" using assms(2) by blast
  note undone = drop_threatened [OF m]
  show ?case
  proof (cases p)
    case None
    let ?s2 = "?s1\<lparr>wt_removed := wt_removed ?s1 @ [wd]\<rparr>"
    have "stopped M s ((wd, None) # reg) (stop_loop moves (Suc i) reg ?s2)"
    proof (rule stopped_step)
      show "stopped M ?s2 reg (stop_loop moves (Suc i) reg ?s2)" by (rule Cons.IH) (use Cons.prems in simp)
      show "threatened M s w" if "threatened M ?s2 w" for w using that undone [of s w] by (simp add: threatened_def)
    qed simp_all
    then show ?thesis by (simp add: entry None Let_def)
  next
    case (Some w)
    have w: "wt_watchers ?s1 w \<noteq> None" using Cons.prems by (auto simp: entry Some)
    show ?thesis
    proof (cases "lock_watcher w ?s1")
      case (Inl e)
      with lock_Undefined [OF this w] have "e = Undefined" "threatened M s w"
        using undone [of s w] by (auto simp: threatened_def)
      then show ?thesis using Inl undone [of s] by (auto simp: entry Some Let_def stopped_def)
    next
      case (Inr u)
      let ?s2 = "(clear_paths w ?s1)\<lparr>wt_removed := wt_removed ?s1 @ [wd]\<rparr>"
      have "stopped M s ((wd, Some w) # reg) (stop_loop moves (Suc i) reg ?s2)"
      proof (rule stopped_step)
        show "stopped M ?s2 reg (stop_loop moves (Suc i) reg ?s2)"
          by (rule Cons.IH) (use Cons.prems in \<open>auto simp: clear_paths_def\<close>)
        show "threatened M s v" if "threatened M ?s2 v" for v
          using that undone [of s v] by (simp add: threatened_def clear_paths_def)
      qed (simp_all add: clear_paths_def)
      then show ?thesis using Inr m by (auto simp: entry Some Let_def stopped_def)
    qed
  qed
qed

lemma stop_fine:
  assumes "watch_inv s" "range moves \<subseteq> M" "\<not> wt_locked s"
  shows "fine M s (fileWatcherThreadStop moves s)"
proof -
  let ?s = "s\<lparr>wt_locked := True\<rparr>"
  have "\<forall>wd w. (wd, Some w) \<in> set (registeredWatchers ?s) \<longrightarrow> wt_watchers ?s w \<noteq> None"
    using inv_alive [OF assms(1)] by simp
  note loop = stop_loop_result [OF this assms(2), of 0]
  show ?thesis
  proof (cases "stop_loop moves 0 (registeredWatchers s) ?s")
    case None
    then show ?thesis using loop assms(3) by (simp add: stopped_def fine_def fileWatcherThreadStop_def with_mutex_def)
  next
    case (Some q)
    obtain r s' where q: "q = (r, s')" by fastforce
    from loop Some have facts: "(r = Inl Undefined \<longrightarrow> (\<exists>wd w. (wd, Some w) \<in> set (registeredWatchers s) \<and> threatened M ?s w)) \<and>
        (\<forall>e. r = Inl e \<longrightarrow> e = Undefined) \<and> wt_next s' = wt_next s \<and>
        (\<forall>w. wt_watchers s' w = None \<longleftrightarrow> wt_watchers s w = None) \<and> (\<forall>w. threatened M s' w \<longrightarrow> threatened M ?s w)"
      by (simp add: q stopped_def)
    show ?thesis
    proof (cases r)
      case (Inl e)
      then show ?thesis using facts Some assms(3)
        by (auto simp: q fine_def fileWatcherThreadStop_def with_mutex_def endangered_def threatened_def)
    next
      case (Inr u)
      have "w < wt_next s'" if "wt_watchers s' w \<noteq> None" for w
        using that facts assms(1) unfolding watch_inv_def by simp
      then have "watch_inv (release (s'\<lparr>registeredWatchers := [], wt_fd := -1, thread_run := False\<rparr>))"
        by (auto simp: watch_inv_def release_def)
      then show ?thesis using facts Some assms(3)
        by (auto simp: q Inr fine_def fileWatcherThreadStop_def with_mutex_def threatened_def release_def)
    qed
  qed
qed

lemma new_inv:
  assumes "watch_inv s"
  shows "watch_inv (s\<lparr>wt_next := wt_next s + 1, wt_watchers := (wt_watchers s)(wt_next s \<mapsto> x)\<rparr>)" (is "watch_inv ?s")
  unfolding watch_inv_def
proof (intro conjI allI impI)
  show "w < wt_next ?s" if "wt_watchers ?s w \<noteq> None" for w
    using that assms unfolding watch_inv_def by (cases "w = wt_next s") (auto simp: less_Suc_eq)
  fix wd w
  assume "(wd, Some w) \<in> set (registeredWatchers ?s)"
  then have r: "(wd, Some w) \<in> set (registeredWatchers s)" by simp
  then obtain y where "wd \<noteq> -1" "wt_watchers s w = Some y" "wd \<in> snd ` set (paths_wd_map y)"
    using assms unfolding watch_inv_def by blast
  moreover have "w \<noteq> wt_next s" using inv_alive [OF assms r] assms unfolding watch_inv_def by blast
  ultimately show "wd \<noteq> -1" "\<exists>y. wt_watchers ?s w = Some y \<and> wd \<in> snd ` set (paths_wd_map y)" by simp_all
qed

lemma fine_step:
  assumes "fine M s1 outcome" and "\<And>w. threatened M s1 w \<Longrightarrow> threatened M s w"
    and "\<And>wd w. (wd, Some w) \<in> set (registeredWatchers s1) \<Longrightarrow> (wd, Some w) \<in> set (registeredWatchers s)"
  shows "fine M s outcome"
proof (cases outcome)
  case (Some q)
  then show ?thesis using assms unfolding fine_def endangered_def by (cases q) (auto split: if_splits; blast)
qed (use assms(1) in \<open>simp add: fine_def\<close>)

lemma dispatch_fine:
  "watch_inv s \<Longrightarrow> ev_moves ` set evs \<subseteq> M \<Longrightarrow> fine M s (dispatch evs s)"
proof (induction evs arbitrary: s)
  case Nil
  then show ?case by (simp add: fine_def)
next
  case (Cons ev evs)
  let ?s1 = "fold last_dropped (mv_dropped (ev_moves ev)) s"
  have m: "ev_moves ev \<in> M" using Cons.prems(2) by simp
  note undone = drop_threatened [OF m]
  have i: "watch_inv ?s1" using Cons.prems(1) by (simp add: watch_inv_def)
  have rest: "fine M s (dispatch evs s2)" if "watch_inv s2" "wt_dying s2 = wt_dying ?s1"
    "\<And>wd w. (wd, Some w) \<in> set (registeredWatchers s2) \<Longrightarrow> (wd, Some w) \<in> set (registeredWatchers s)" for s2
  proof (rule fine_step [of _ s2])
    show "fine M s2 (dispatch evs s2)" using Cons.IH [OF that(1)] Cons.prems(2) by simp
    show "threatened M s w" if "threatened M s2 w" for w
      using that undone [of s w] \<open>wt_dying s2 = wt_dying ?s1\<close> by (simp add: threatened_def)
  qed (rule that(3))
  show ?case
  proof (cases "map_of (registeredWatchers s) (ev_wd ev)")
    case None
    let ?s2 = "?s1\<lparr>registeredWatchers := AList.update (ev_wd ev) None (registeredWatchers s)\<rparr>"
    have r: "(wd, Some w) \<in> set (registeredWatchers s)" if "(wd, Some w) \<in> set (registeredWatchers ?s2)" for wd w
      using that set_update [of "ev_wd ev" None "registeredWatchers s"] by auto
    have "watch_inv ?s2"
      unfolding watch_inv_def
    proof (intro conjI allI impI)
      fix wd w
      assume "(wd, Some w) \<in> set (registeredWatchers ?s2)"
      from inv_registered [OF Cons.prems(1) r [OF this]]
      obtain x where "wd \<noteq> -1" "wt_watchers s w = Some x" "wd \<in> snd ` set (paths_wd_map x)" .
      then show "wd \<noteq> -1" "\<exists>x. wt_watchers ?s2 w = Some x \<and> wd \<in> snd ` set (paths_wd_map x)" by simp_all
    qed (use Cons.prems(1) in \<open>auto simp: watch_inv_def\<close>)
    from rest [OF this _ r] show ?thesis by (simp add: None Let_def)
  next
    case (Some v)
    show ?thesis
    proof (cases v)
      case wNone: None
      from rest [OF i] show ?thesis by (simp add: Some wNone Let_def)
    next
      case wSome: (Some w)
      have reg: "(ev_wd ev, Some w) \<in> set (registeredWatchers s)" using Some wSome by (simp add: map_of_SomeD)
      then have w: "wt_watchers ?s1 w \<noteq> None" using inv_alive [OF Cons.prems(1)] by simp
      show ?thesis
      proof (cases "lock_watcher w ?s1")
        case (Inl e)
        with lock_Undefined [OF this w] have "e = Undefined" "threatened M s w"
          using undone [of s w] by (auto simp: threatened_def)
        then show ?thesis using reg Inl by (auto simp: Some wSome Let_def fine_def endangered_def)
      next
        case (Inr u)
        then show ?thesis using rest [OF i] m i undone by (auto simp: Some wSome Let_def fine_def)
      qed
    qed
  qed
qed

lemma caught_fine:
  assumes "watch_inv s" "range moves \<subseteq> M"
  shows "fine M s (caught moves s)"
proof -
  have "fine M s (fileWatcherThreadStop moves (release s))"
    by (rule fine_step [OF stop_fine [OF inv_flags(1) [OF assms(1)] assms(2)]])
      (simp_all add: threatened_def release_def)
  then show ?thesis by (auto simp: fine_def caught_def split: option.splits sum.splits prod.splits)
qed

lemma turn_fine:
  assumes "watch_inv s" "op_moves (Turn moves input) \<subseteq> M" "\<not> wt_locked s"
  shows "fine M s (watcher_turn moves input s)"
proof (cases "thread_run s")
  case True
  let ?s = "s\<lparr>wt_locked := True\<rparr>"
  have i: "watch_inv ?s" by (rule inv_flags(2) [OF assms(1)])
  have moves: "range moves \<subseteq> M" using assms(2) by simp
  have start: "fine M s outcome" if "fine M ?s outcome" for outcome :: "(bool res \<times> watching) option"
    by (rule fine_step [OF that]) (simp_all add: threatened_def)
  have kept: "fine M s (Some (Inr b, release ?s))" "fine M s (Some (Inr b, ?s))" for b :: bool
    using inv_flags(1) [OF i] i by (auto simp: fine_def threatened_def release_def)
  show ?thesis
  proof (cases input)
    case (Events evs)
    have "ev_moves ` set evs \<subseteq> M" using assms(2) Events by simp
    from dispatch_fine [OF i this] have d: "fine M ?s (dispatch evs ?s)" .
    show ?thesis
    proof (cases "dispatch evs ?s")
      case None
      then show ?thesis using d True Events assms(3) by (simp add: fine_def watcher_turn_def with_mutex_def)
    next
      case (Some q)
      obtain r u where q: "q = (r, u)" by fastforce
      show ?thesis
      proof (cases r)
        case (Inl e)
        show ?thesis
        proof (cases "e = Undefined")
          case True
          then have "endangered M ?s" using d by (simp add: Some q Inl fine_def)
          then show ?thesis using \<open>thread_run s\<close> True Events assms(3)
            by (simp add: fine_def watcher_turn_def with_mutex_def Some q Inl endangered_def threatened_def)
        next
          case False
          then have u: "watch_inv u" "\<And>w. threatened M u w \<Longrightarrow> threatened M ?s w"
            "\<And>wd w. (wd, Some w) \<in> set (registeredWatchers u) \<Longrightarrow> (wd, Some w) \<in> set (registeredWatchers ?s)"
            using d by (auto simp: Some q Inl fine_def)
          have "fine M s (caught moves u)" by (rule start, rule fine_step [OF caught_fine [OF u(1) moves] u(2,3)])
          then show ?thesis using False \<open>thread_run s\<close> Events assms(3)
            by (simp add: watcher_turn_def with_mutex_def Some q Inl)
        qed
      next
        case (Inr x)
        then have u: "watch_inv u" "\<And>w. threatened M u w \<Longrightarrow> threatened M ?s w"
          "\<And>wd w. (wd, Some w) \<in> set (registeredWatchers u) \<Longrightarrow> (wd, Some w) \<in> set (registeredWatchers ?s)"
          using d by (auto simp: Some q fine_def)
        have "fine M s (Some (Inr True, release u))"
          by (rule start, rule fine_step [of _ u, OF _ u(2,3)])
            (use inv_flags(1) [OF u(1)] in \<open>simp add: fine_def threatened_def release_def\<close>)
        then show ?thesis using True Events assms(3)
          by (simp add: watcher_turn_def with_mutex_def Some q Inr)
      qed
    qed
  qed (use True assms(3) start [OF caught_fine [OF i moves]] kept in \<open>simp_all add: watcher_turn_def with_mutex_def\<close>)
qed (use assms in \<open>simp add: watcher_turn_def fine_def\<close>)

text \<open>Every call and turn: it keeps the invariant, fails on a watcher that is being destroyed, or waits for a mutex.\<close>

lemma op_result:
  assumes "watch_inv s" "op_ok op s"
  shows "case op_do op s of
       None \<Rightarrow> wt_locked s \<or> (\<exists>m \<in> op_moves op. mv_released m)
     | Some (r, s') \<Rightarrow> if r = Inl Undefined then endangered (op_moves op) s else watch_inv s'"
proof (cases op)
  case (New paths m)
  let ?x = "\<lparr>paths_wd_map = map (\<lambda>p. (p, -1)) (remdups (sort paths)), access_mask = m\<rparr>"
  show ?thesis using new_inv [OF assms(1), of ?x] New by (simp add: FileWatcher_new_def)
next
  case (Initialize add_watch w)
  then obtain x where x: "wt_watchers s w = Some x" "distinct (map fst (paths_wd_map x))" "\<forall>wd \<in> snd ` set (paths_wd_map x). wd = -1"
    using assms(2) by auto
  let ?s = "s\<lparr>wt_locked := True\<rparr>"
  obtain r s' where run: "initialize_loop add_watch w (access_mask x) (map fst (paths_wd_map x)) ?s = (r, s')" by fastforce
  have "\<exists>y. wt_watchers ?s w = Some y \<and> (p, -1) \<in> set (paths_wd_map y) \<and> (\<forall>wd. (p, wd) \<in> set (paths_wd_map y) \<longrightarrow> wd = -1)"
    if "p \<in> set (map fst (paths_wd_map x))" for p
    using that x(1,3) by force
  then have "watch_inv s' \<and> r \<noteq> Inl Undefined"
    using initialize_inv [OF inv_flags(2) [OF assms(1)] x(2), of True w] run by blast
  then show ?thesis using Initialize x(1) run by (simp add: FileWatcher_initialize_def with_mutex_def)
next
  case (Drop w)
  then show ?thesis using assms(1) by (simp add: last_dropped_def watch_inv_def)
next
  case (Destroy w)
  then obtain x where "wt_watchers s w = Some x" using assms(2) by auto
  then show ?thesis
    using Destroy watching_delete [OF inv_flags(2) [OF assms(1), of True], of w x _, OF _ refl]
    by (simp add: FileWatcher_delete_def with_mutex_def Let_def)
next
  case (Turn moves input)
  show ?thesis
  proof (cases "wt_locked s")
    case True
    then show ?thesis using Turn assms(1) by (simp add: watcher_turn_def with_mutex_def)
  next
    case False
    note result = turn_fine [OF assms(1) order_refl False, of moves input]
    show ?thesis
    proof (cases "watcher_turn moves input s")
      case None
      then show ?thesis using result by (simp add: Turn fine_def)
    next
      case (Some q)
      then show ?thesis using result by (cases q; cases "fst q") (simp_all add: Turn fine_def)
    qed
  qed
next
  case (Start init_fd)
  show ?thesis using assms(1) by (auto simp: Start fileWatcherThreadStart_def with_mutex_def release_def watch_inv_def)
next
  case (Stop moves)
  show ?thesis
  proof (cases "wt_locked s")
    case True
    then show ?thesis using Stop by (simp add: fileWatcherThreadStop_def with_mutex_def)
  next
    case False
    from stop_fine [OF assms(1) order_refl False, of moves] show ?thesis
      by (auto simp: Stop fine_def split: option.splits)
  qed
qed

lemma reach_watch_inv: "watch_reach s \<Longrightarrow> watch_inv s"
proof (induction rule: watch_reach.induct)
  case watch_start
  then show ?case by (simp add: watch_inv_def watching_new_def)
next
  case (watch_step s op r s')
  then show ?case using op_result [of s op] by simp
qed

text \<open>Clients that drop nothing.\<close>

definition quiet :: client_moves where
  "quiet = \<lparr>mv_dropped = [], mv_released = False\<rparr>"

section \<open>Properties\<close>

text \<open>
  C21. The weak pointers of the thread are safe except for watchers whose destruction has begun: in every
  order of calls, turns, dropped pointers and destructors, a registered watcher has not been deleted
  by its destructor; a call or turn is undefined only if some registered watcher is dying, its last
  pointer dropped before or by the clients in the middle of the turn; and it waits for ever only for
  a mutex that is held at its start, or if clients drop the last pointer to a watcher that the
  thread is about to handle. Clients initialize a watcher once.
\<close>

theorem watchers_alive:
  assumes "watch_reach s" "op_ok op s"
  shows "(\<forall>wd w. (wd, Some w) \<in> set (registeredWatchers s) \<longrightarrow> wt_watchers s w \<noteq> None) \<and>
    (\<forall>s'. op_do op s = Some (Inl Undefined, s') \<longrightarrow> (\<exists>wd w. (wd, Some w) \<in> set (registeredWatchers s) \<and>
       (wt_dying s w \<or> (\<exists>m \<in> op_moves op. w \<in> set (mv_dropped m))))) \<and>
    (op_do op s = None \<longrightarrow> wt_locked s \<or> (\<exists>m \<in> op_moves op. mv_released m))"
  using op_result [OF reach_watch_inv [OF assms(1)] assms(2)] inv_alive [OF reach_watch_inv [OF assms(1)]]
  by (auto simp: endangered_def threatened_def split: option.splits)


lemma watch_reach_run:
  "watch_reach s \<Longrightarrow> op_ok op s \<Longrightarrow> \<exists>r. op_do op s = Some (r, s') \<and> r \<noteq> Inl Undefined \<Longrightarrow> watch_reach s'"
  by (elim exE conjE) (rule watch_step)

definition demo_watch :: watching where
  "demo_watch = \<lparr>wt_next = 1, wt_watchers = [0 \<mapsto> \<lparr>paths_wd_map = [(''a'', 1)], access_mask = 2\<rparr>],
     registeredWatchers = [(1, Some 0)], wt_fd = 3, thread_run = True, wt_locked = False, wt_removed = [], wt_dying = (\<lambda>_. False)\<rparr>"

lemma demo_reached: "watch_reach demo_watch"
proof -
  let ?s1 = "snd (the (op_do (Start 3) watching_new))"
  let ?s2 = "snd (the (op_do (New [''a''] 2) ?s1))"
  have 1: "watch_reach ?s1"
    by (rule watch_reach_run [OF watch_start, of "Start 3"]) (simp_all add: fileWatcherThreadStart_def with_mutex_def watching_new_def)
  have 2: "watch_reach ?s2"
    by (rule watch_reach_run [OF 1, of "New [''a''] 2"]) (simp_all add: FileWatcher_new_def)
  show ?thesis
    by (rule watch_reach_run [OF 2, of "Initialize (\<lambda>_ _. 1) 0"])
      (auto simp: fileWatcherThreadStart_def with_mutex_def watching_new_def FileWatcher_new_def FileWatcher_initialize_def
        set_descriptor_def release_def demo_watch_def held_def Let_def)
qed


theorem watchers_alive_witness:
  "\<nexists>s'. op_do (Turn (\<lambda>_. quiet) (Events [\<lparr>ev_wd = 5, ev_throws = False, ev_moves = quiet\<rparr>,
     \<lparr>ev_wd = 1, ev_throws = True, ev_moves = quiet\<rparr>])) demo_watch = Some (Inl Undefined, s')"
proof -
  let ?op = "Turn (\<lambda>_. quiet) (Events [\<lparr>ev_wd = 5, ev_throws = False, ev_moves = quiet\<rparr>,
     \<lparr>ev_wd = 1, ev_throws = True, ev_moves = quiet\<rparr>])"
  have "op_ok ?op demo_watch" by simp
  from watchers_alive [OF demo_reached this] show ?thesis by (auto simp: quiet_def demo_watch_def)
qed


text \<open>
  Two ways to lose the mutex: a path that cannot be watched, and a read that has to be tried again.
  Afterwards every call waits for ever, the destructors of the watchers and the thread included.
\<close>

lemma mutex_lost:
  assumes "\<not> wt_locked s"
  shows "wt_watchers s w = Some x \<Longrightarrow> paths_wd_map x \<noteq> [] \<Longrightarrow> \<forall>p m. add_watch p m = -1 \<Longrightarrow>
      \<exists>e s'. FileWatcher_initialize add_watch w s = Some (Inl e, s') \<and> FileWatcher_delete w s' = None \<and>
        fileWatcherThreadStop moves s' = None \<and> (thread_run s' \<longrightarrow> watcher_turn moves input s' = None)"
    and "thread_run s \<Longrightarrow> \<exists>s'. watcher_turn moves (Read_error True) s = Some (Inr True, s') \<and>
        watcher_turn moves input s' = None \<and> fileWatcherThreadStop moves s' = None"
proof -
  show "\<exists>e s'. FileWatcher_initialize add_watch w s = Some (Inl e, s') \<and> FileWatcher_delete w s' = None \<and>
      fileWatcherThreadStop moves s' = None \<and> (thread_run s' \<longrightarrow> watcher_turn moves input s' = None)"
    if x: "wt_watchers s w = Some x" "paths_wd_map x \<noteq> []" "\<forall>p m. add_watch p m = -1"
  proof -
    obtain p ps where "map fst (paths_wd_map x) = p # ps" using x(2) by (cases "paths_wd_map x") auto
    then show ?thesis using x assms
      by (simp add: FileWatcher_initialize_def with_mutex_def FileWatcher_delete_def fileWatcherThreadStop_def watcher_turn_def)
  qed
  show "thread_run s \<Longrightarrow> \<exists>s'. watcher_turn moves (Read_error True) s = Some (Inr True, s') \<and>
      watcher_turn moves input s' = None \<and> fileWatcherThreadStop moves s' = None"
    using assms by (simp add: watcher_turn_def with_mutex_def fileWatcherThreadStop_def)
qed

text \<open>
  inotify gives one descriptor for one path. If two watchers share it, the one that is initialized
  last gets the events, and the destructor of either one ends them for both.
\<close>

lemma shared_path_lost:
  assumes "\<not> wt_locked s" "wt_watchers s v = Some x" "wd \<in> snd ` set (paths_wd_map x)" "w \<noteq> v"
  shows "\<exists>s'. FileWatcher_delete v s = Some (Inr (), s') \<and> wt_watchers s' w = wt_watchers s w \<and>
    map_of (registeredWatchers s') wd = None \<and> wd \<in> set (wt_removed s')"
proof -
  have wd: "wd \<in> set (map snd (paths_wd_map x))" using assms(3) by simp
  let ?reg = "filter (\<lambda>(wd, _). wd \<notin> set (map snd (paths_wd_map x))) (registeredWatchers s)"
  have "map_of ?reg wd = None" using wd by (auto simp: map_of_eq_None_iff simp del: set_map)
  then show ?thesis using assms(1,2,4) wd
    by (simp add: FileWatcher_delete_def with_mutex_def Let_def unregister_def release_def)
qed

end
